(* ===== verification/Js_Prelude.thy ===== *)
theory Js_Prelude
  imports Main "HOL-Library.Sublist"
begin

text \<open>
  Prelude of the development.  It fixes how the JavaScript values the program computes with are
  represented and models the library functions on strings and arrays that the source calls, with the
  lemmas the component theories share.

  Strings.  A JavaScript string is a sequence of UTF-16 code units.  The model's \<open>string\<close> is a list of
  8-bit characters, read as the code units 0 to 255 (Latin-1).  On that range every function below is
  exact: white space is the set the ECMAScript \<open>WhiteSpace\<close> and \<open>LineTerminator\<close> productions give for
  code units below 256, lower-casing follows the Unicode simple mapping, and Unicode normalisation
  to NFC leaves the text as it is (UAX 15: Latin-1 text is unaffected by NFC).  Code units above
  255 are outside the model.

  Errors.  A function of the source that throws returns a value of \<open>'e + 'a\<close>: \<open>Inl e\<close> for the throw
  site \<open>e\<close>, \<open>Inr v\<close> for a normal return.
\<close>

named_theorems js_string \<open>facts on the string functions of the source language\<close>

section \<open>Results that may throw\<close>

type_synonym ('e, 'a) result = "'e + 'a"

fun bind_result :: "('e, 'a) result \<Rightarrow> ('a \<Rightarrow> ('e, 'b) result) \<Rightarrow> ('e, 'b) result" where
  "bind_result (Inl e) f = Inl e"
| "bind_result (Inr v) f = f v"

lemma bind_result_Inr_iff:
  "bind_result m f = Inr w \<longleftrightarrow> (\<exists>v. m = Inr v \<and> f v = Inr w)"
  by (cases m) auto

lemma bind_result_Inl_iff:
  "bind_result m f = Inl e \<longleftrightarrow> m = Inl e \<or> (\<exists>v. m = Inr v \<and> f v = Inl e)"
  by (cases m) auto

lemma bind_result_cong [fundef_cong]:
  "m = m' \<Longrightarrow> (\<And>v. m' = Inr v \<Longrightarrow> f v = g v) \<Longrightarrow> bind_result m f = bind_result m' g"
  by (cases m') auto

definition map_result :: "('a \<Rightarrow> 'b) \<Rightarrow> ('e, 'a) result \<Rightarrow> ('e, 'b) result" where
  "map_result f m = bind_result m (\<lambda>v. Inr (f v))"

fun mapM_result :: "('a \<Rightarrow> ('e, 'b) result) \<Rightarrow> 'a list \<Rightarrow> ('e, 'b list) result" where
  "mapM_result f [] = Inr []"
| "mapM_result f (x # xs) =
     bind_result (f x) (\<lambda>y. bind_result (mapM_result f xs) (\<lambda>ys. Inr (y # ys)))"

lemma mapM_result_Inr_length: "mapM_result f xs = Inr ys \<Longrightarrow> length ys = length xs"
  by (induction xs arbitrary: ys) (auto simp: bind_result_Inr_iff)

lemma mapM_result_Inr_iff:
  "mapM_result f xs = Inr ys \<longleftrightarrow> list_all2 (\<lambda>x y. f x = Inr y) xs ys"
  by (induction xs arbitrary: ys)
     (auto simp: bind_result_Inr_iff list_all2_Cons1)

section \<open>Characters\<close>

abbreviation code_of :: "char \<Rightarrow> nat" where
  "code_of c \<equiv> of_char c"

text \<open>\<open>\s\<close> and \<open>String.prototype.trim\<close>: tab, line feed, vertical tab, form feed, carriage return, space and
  the no-break space.\<close>

definition js_space :: "char \<Rightarrow> bool" where
  "js_space c \<longleftrightarrow> (9 \<le> code_of c \<and> code_of c \<le> 13) \<or> code_of c = 32 \<or> code_of c = 160"

definition js_digit :: "char \<Rightarrow> bool" where
  "js_digit c \<longleftrightarrow> 48 \<le> code_of c \<and> code_of c \<le> 57"

definition js_upper :: "char \<Rightarrow> bool" where
  "js_upper c \<longleftrightarrow> 65 \<le> code_of c \<and> code_of c \<le> 90"

definition js_lower :: "char \<Rightarrow> bool" where
  "js_lower c \<longleftrightarrow> 97 \<le> code_of c \<and> code_of c \<le> 122"

definition js_letter :: "char \<Rightarrow> bool" where
  "js_letter c \<longleftrightarrow> js_upper c \<or> js_lower c"

lemmas js_char_defs = js_space_def js_digit_def js_upper_def js_lower_def js_letter_def

text \<open>\<open>toLowerCase\<close> on one Latin-1 code unit: A--Z, and the accented capitals except the multiplication
  sign.\<close>

definition to_lower_char :: "char \<Rightarrow> char" where
  "to_lower_char c =
     (if (65 \<le> code_of c \<and> code_of c \<le> 90) \<or>
         (192 \<le> code_of c \<and> code_of c \<le> 222 \<and> code_of c \<noteq> 215)
      then char_of (code_of c + 32) else c)"

definition to_lower_case :: "string \<Rightarrow> string" where
  "to_lower_case = List.map to_lower_char"

lemma code_to_lower_char:
  "code_of (to_lower_char c) =
     (if (65 \<le> code_of c \<and> code_of c \<le> (90::nat)) \<or>
         (192 \<le> code_of c \<and> code_of c \<le> (222::nat) \<and> code_of c \<noteq> (215::nat))
      then code_of c + 32 else code_of c)"
  by (auto simp: to_lower_char_def of_char_of)

lemma to_lower_char_idem [simp]: "to_lower_char (to_lower_char c) = to_lower_char c"
  unfolding to_lower_char_def by (auto simp: of_char_of)

lemma length_to_lower_case [simp]: "length (to_lower_case s) = length s"
  by (simp add: to_lower_case_def)

lemma to_lower_case_idem [simp]: "to_lower_case (to_lower_case s) = to_lower_case s"
  by (simp add: to_lower_case_def)

lemma to_lower_case_append [simp]: "to_lower_case (s @ t) = to_lower_case s @ to_lower_case t"
  by (simp add: to_lower_case_def)

section \<open>Strings\<close>

definition js_starts_with :: "string \<Rightarrow> string \<Rightarrow> bool" where
  "js_starts_with p s \<longleftrightarrow> take (length p) s = p"

definition js_ends_with :: "string \<Rightarrow> string \<Rightarrow> bool" where
  "js_ends_with p s \<longleftrightarrow> length p \<le> length s \<and> drop (length s - length p) s = p"

lemma js_starts_with_iff [js_string]: "js_starts_with p s \<longleftrightarrow> (\<exists>t. s = p @ t)"
  unfolding js_starts_with_def by (metis append_take_drop_id append_eq_conv_conj)

lemma js_ends_with_iff [js_string]: "js_ends_with p s \<longleftrightarrow> (\<exists>t. s = t @ p)"
  unfolding js_ends_with_def
  by (metis append_eq_conv_conj append_take_drop_id diff_add_inverse2 le_add2 length_append)

text \<open>\<open>trim\<close>, \<open>trimStart\<close>, \<open>trimEnd\<close>.\<close>

definition trim_start :: "string \<Rightarrow> string" where
  "trim_start s = dropWhile js_space s"

definition trim_end :: "string \<Rightarrow> string" where
  "trim_end s = rev (dropWhile js_space (rev s))"

definition js_trim :: "string \<Rightarrow> string" where
  "js_trim s = trim_end (trim_start s)"

text \<open>A string that \<open>trim\<close> leaves as it is.\<close>

definition trimmed :: "string \<Rightarrow> bool" where
  "trimmed s \<longleftrightarrow> (s \<noteq> [] \<longrightarrow> \<not> js_space (hd s) \<and> \<not> js_space (last s))"

lemma trim_end_split: "\<exists>w. s = trim_end s @ w \<and> (\<forall>c \<in> set w. js_space c)"
proof -
  have "rev s = takeWhile js_space (rev s) @ dropWhile js_space (rev s)"
    by simp
  then have "s = rev (dropWhile js_space (rev s)) @ rev (takeWhile js_space (rev s))"
    by (metis rev_append rev_rev_ident)
  then show ?thesis
    unfolding trim_end_def by (metis set_rev set_takeWhileD)
qed

lemma trim_split:
  "\<exists>v w. s = v @ js_trim s @ w \<and> (\<forall>c \<in> set v. js_space c) \<and> (\<forall>c \<in> set w. js_space c)"
proof -
  have "s = takeWhile js_space s @ trim_start s"
    by (simp add: trim_start_def)
  moreover obtain w where "trim_start s = js_trim s @ w" "\<forall>c \<in> set w. js_space c"
    unfolding js_trim_def using trim_end_split by blast
  ultimately show ?thesis
    by (metis set_takeWhileD)
qed

lemma trim_end_last: "trim_end s \<noteq> [] \<Longrightarrow> \<not> js_space (last (trim_end s))"
proof -
  assume "trim_end s \<noteq> []"
  then have "dropWhile js_space (rev s) \<noteq> []" by (simp add: trim_end_def)
  then show ?thesis
    using hd_dropWhile [of js_space "rev s"] by (simp add: trim_end_def last_rev)
qed

lemma js_trim_trimmed [js_string]: "trimmed (js_trim s)"
proof (cases "js_trim s = []")
  case True
  then show ?thesis by (simp add: trimmed_def)
next
  case False
  then have ne: "trim_start s \<noteq> []"
    by (auto simp: js_trim_def trim_end_def)
  obtain w where w: "trim_start s = js_trim s @ w"
    unfolding js_trim_def using trim_end_split by blast
  have "hd (js_trim s) = hd (trim_start s)" using False w by simp
  moreover have "\<not> js_space (hd (trim_start s))"
    using ne unfolding trim_start_def by (rule hd_dropWhile)
  moreover have "\<not> js_space (last (js_trim s))"
    using False unfolding js_trim_def by (rule trim_end_last)
  ultimately show ?thesis by (simp add: trimmed_def)
qed

lemma js_trim_id: "trimmed s \<Longrightarrow> js_trim s = s"
proof (cases s rule: rev_cases)
  case Nil
  then show ?thesis by (simp add: js_trim_def trim_start_def trim_end_def)
next
  case (snoc ys y)
  assume t: "trimmed s"
  have "trim_start s = s"
    using t by (cases s) (simp_all add: trim_start_def trimmed_def)
  moreover have "trim_end s = s"
    using t snoc by (simp add: trim_end_def trimmed_def)
  ultimately show ?thesis by (simp add: js_trim_def)
qed

lemma js_trim_idem [simp]: "js_trim (js_trim s) = js_trim s"
  by (rule js_trim_id [OF js_trim_trimmed])

subsection \<open>Searching: \<open>indexOf\<close>, \<open>includes\<close>\<close>

fun index_of :: "string \<Rightarrow> string \<Rightarrow> nat option" where
  "index_of p [] = (if p = [] then Some 0 else None)"
| "index_of p (x # xs) =
     (if js_starts_with p (x # xs) then Some 0 else map_option Suc (index_of p xs))"

definition js_includes :: "string \<Rightarrow> string \<Rightarrow> bool" where
  "js_includes p s \<longleftrightarrow> index_of p s \<noteq> None"

lemma index_of_Some: "index_of p s = Some i \<Longrightarrow> i + length p \<le> length s \<and> s = take i s @ p @ drop (i + length p) s"
proof (induction p s arbitrary: i rule: index_of.induct)
  case (1 p)
  then show ?case by (auto split: if_splits)
next
  case (2 p x xs)
  show ?case
  proof (cases "js_starts_with p (x # xs)")
    case True
    then obtain t where "x # xs = p @ t" by (auto simp: js_string)
    moreover have "i = 0" using 2 True by simp
    ultimately show ?thesis by simp
  next
    case False
    with 2 obtain j where "index_of p xs = Some j" "i = Suc j" by auto
    with 2 False show ?thesis by auto
  qed
qed

lemma index_of_None: "index_of p s = None \<longleftrightarrow> (\<nexists>u v. s = u @ p @ v)"
proof (induction p s rule: index_of.induct)
  case (1 p)
  then show ?case by auto
next
  case (2 p x xs)
  show ?case
  proof (cases "js_starts_with p (x # xs)")
    case True
    then obtain t where "x # xs = p @ t" by (auto simp: js_string)
    then have "x # xs = [] @ p @ t" by simp
    then show ?thesis using True by (metis index_of.simps(2) option.distinct(1))
  next
    case False
    then have "(\<exists>u v. x # xs = u @ p @ v) \<longleftrightarrow> (\<exists>u v. xs = u @ p @ v)"
      by (auto simp: js_string Cons_eq_append_conv)
    then show ?thesis using 2 False by simp
  qed
qed

lemma js_includes_iff: "js_includes p s \<longleftrightarrow> (\<exists>u v. s = u @ p @ v)"
  using index_of_None [of p s] by (simp add: js_includes_def)

lemma js_includes_char [js_string]: "js_includes [c] s \<longleftrightarrow> c \<in> set s"
  by (auto simp: js_includes_iff in_set_conv_decomp)

lemma index_of_char_append:
  "c \<notin> set u \<Longrightarrow> index_of (c # p) (u @ (c # p) @ v) = Some (length u)"
proof (induction u)
  case Nil
  then show ?case by (simp add: js_starts_with_def)
next
  case (Cons x u)
  then have "x \<noteq> c" by auto
  with Cons show ?case by (simp add: js_starts_with_def)
qed

lemma index_of_char_prefix: "index_of [c] s = Some i \<Longrightarrow> c \<notin> set (take i s)"
proof (induction "[c]" s arbitrary: i rule: index_of.induct)
  case 1
  then show ?case by simp
next
  case (2 x xs)
  then show ?case by (auto simp: js_starts_with_def split: if_splits)
qed

subsection \<open>Splitting and joining: \<open>split\<close>, \<open>join\<close>\<close>

fun split_on :: "char \<Rightarrow> string \<Rightarrow> string list" where
  "split_on c [] = [[]]"
| "split_on c (x # xs) =
     (if x = c then [] # split_on c xs
      else (case split_on c xs of [] \<Rightarrow> [[x]] | y # ys \<Rightarrow> (x # y) # ys))"

fun join_with :: "string \<Rightarrow> string list \<Rightarrow> string" where
  "join_with sep [] = []"
| "join_with sep [s] = s"
| "join_with sep (s # t # ts) = s @ sep @ join_with sep (t # ts)"

lemma split_on_nonempty [simp]: "split_on c s \<noteq> []"
  by (induction s) (auto split: list.splits)

lemma split_on_no_sep: "t \<in> set (split_on c s) \<Longrightarrow> c \<notin> set t"
  by (induction s arbitrary: t) (auto split: list.splits if_splits)

lemma split_on_subset: "t \<in> set (split_on c s) \<Longrightarrow> set t \<subseteq> set s"
proof (induction s arbitrary: t)
  case Nil
  then show ?case by simp
next
  case (Cons x xs)
  obtain y ys where e: "split_on c xs = y # ys" by (cases "split_on c xs") auto
  have "\<And>u. u \<in> set (y # ys) \<Longrightarrow> set u \<subseteq> set xs" using Cons.IH e by simp
  then have "set y \<subseteq> set xs" "\<And>u. u \<in> set ys \<Longrightarrow> set u \<subseteq> set xs" by auto
  then show ?case using Cons.prems e by (auto split: if_splits)
qed

lemma split_on_free: "c \<notin> set s \<Longrightarrow> split_on c s = [s]"
  by (induction s) auto

lemma split_on_append: "c \<notin> set s \<Longrightarrow> split_on c (s @ c # t) = s # split_on c t"
  by (induction s) auto

lemma join_with_Cons: "ss \<noteq> [] \<Longrightarrow> join_with sep (s # ss) = s @ sep @ join_with sep ss"
  by (cases ss) auto

lemma split_on_join:
  "ss \<noteq> [] \<Longrightarrow> \<forall>s \<in> set ss. c \<notin> set s \<Longrightarrow> split_on c (join_with [c] ss) = ss"
proof (induction ss)
  case Nil
  then show ?case by simp
next
  case (Cons s ss)
  then show ?case
    by (cases ss) (simp_all add: split_on_free split_on_append)
qed

lemma join_split_on: "join_with [c] (split_on c s) = s"
proof (induction s)
  case Nil
  then show ?case by simp
next
  case (Cons x xs)
  show ?case
  proof (cases "x = c")
    case True
    then show ?thesis using Cons by (simp add: join_with_Cons)
  next
    case False
    obtain y ys where "split_on c xs = y # ys"
      by (cases "split_on c xs") auto
    then show ?thesis using False Cons by (cases ys) auto
  qed
qed

section \<open>Arrays\<close>

text \<open>\<open>[...new Set(xs)]\<close>: the first occurrence of each element, in order.\<close>

fun js_unique :: "'a list \<Rightarrow> 'a list" where
  "js_unique [] = []"
| "js_unique (x # xs) = x # js_unique (removeAll x xs)"

lemma set_js_unique [simp]: "set (js_unique xs) = set xs"
  by (induction xs rule: js_unique.induct) auto

lemma distinct_js_unique [simp]: "distinct (js_unique xs)"
  by (induction xs rule: js_unique.induct) auto

text \<open>\<open>Array.prototype.findIndex\<close> with an equality test, as \<open>indexOf\<close> of an array.\<close>

fun list_index :: "'a \<Rightarrow> 'a list \<Rightarrow> nat option" where
  "list_index a [] = None"
| "list_index a (x # xs) = (if x = a then Some 0 else map_option Suc (list_index a xs))"

lemma list_index_None [simp]: "list_index a xs = None \<longleftrightarrow> a \<notin> set xs"
  by (induction xs) auto

lemma list_index_Some: "list_index a xs = Some i \<Longrightarrow> i < length xs \<and> xs ! i = a"
  by (induction xs arbitrary: i) (auto split: if_splits)

section \<open>Decimal numerals\<close>

text \<open>\<open>/^\d+$/\<close> and \<open>Number\<close> on such a text.  The value is exact; a double holds it exactly below $2^{53}$.\<close>

definition all_digits :: "string \<Rightarrow> bool" where
  "all_digits s \<longleftrightarrow> s \<noteq> '''' \<and> list_all js_digit s"

definition digit_value :: "char \<Rightarrow> nat" where
  "digit_value c = code_of c - 48"

definition nat_of_digits :: "string \<Rightarrow> nat" where
  "nat_of_digits s = foldl (\<lambda>n c. 10 * n + digit_value c) 0 s"

text \<open>\<open>String(n)\<close> for a natural number.\<close>

fun nat_to_string :: "nat \<Rightarrow> string" where
  "nat_to_string n =
     (if n < 10 then [char_of (n + 48)] else nat_to_string (n div 10) @ [char_of (n mod 10 + 48)])"

declare nat_to_string.simps [simp del]

lemma nat_of_digits_snoc [simp]: "nat_of_digits (s @ [c]) = 10 * nat_of_digits s + digit_value c"
  by (simp add: nat_of_digits_def)

lemma digit_value_digit [simp]: "n < 10 \<Longrightarrow> digit_value (char_of (n + 48)) = n"
  by (simp add: digit_value_def)

lemma digit_char [simp]: "n < 10 \<Longrightarrow> js_digit (char_of (n + 48 :: nat))"
  by (simp add: js_digit_def)

lemma nat_of_digits_to_string [simp]: "nat_of_digits (nat_to_string n) = n"
proof (induction n rule: nat_to_string.induct)
  case (1 n)
  show ?case
  proof (cases "n < 10")
    case True
    then show ?thesis
      by (subst nat_to_string.simps) (simp add: nat_of_digits_def)
  next
    case False
    then show ?thesis
      using 1 by (subst nat_to_string.simps) simp
  qed
qed

lemma all_digits_to_string [simp]: "all_digits (nat_to_string n)"
proof (induction n rule: nat_to_string.induct)
  case (1 n)
  then show ?case
    by (subst nat_to_string.simps) (auto simp: all_digits_def)
qed

lemma all_digits_free: "all_digits s \<Longrightarrow> \<not> js_digit c \<Longrightarrow> c \<notin> set s"
  by (auto simp: all_digits_def list_all_iff)

subsection \<open>Splitting on white space: \<open>split(/\s+/)\<close>\<close>

function split_ws :: "string \<Rightarrow> string list" where
  "split_ws [] = [[]]"
| "split_ws (x # xs) =
     (if js_space x then [] # split_ws (dropWhile js_space xs)
      else (case split_ws xs of [] \<Rightarrow> [[x]] | y # ys \<Rightarrow> (x # y) # ys))"
  by pat_completeness auto
termination
  by (relation "measure length") (auto simp: less_Suc_eq_le length_dropWhile_le)

section \<open>A contract for text encodings\<close>

text \<open>An encoding of the values that satisfy \<open>ok\<close>, and the reader the program uses for it.\<close>

locale codec =
  fixes enc :: "'a \<Rightarrow> 'b"
    and dec :: "'b \<Rightarrow> 'a option"
    and ok :: "'a \<Rightarrow> bool"
  assumes dec_enc: "ok x \<Longrightarrow> dec (enc x) = Some x"
begin

lemma enc_inj: "ok x \<Longrightarrow> ok y \<Longrightarrow> enc x = enc y \<Longrightarrow> x = y"
  by (metis dec_enc option.inject)

lemma dec_unique: "ok x \<Longrightarrow> dec (enc x) = Some y \<Longrightarrow> x = y"
  by (simp add: dec_enc)

lemma enc_fixpoint: "dec t = Some x \<Longrightarrow> ok x \<Longrightarrow> dec (enc x) = dec t"
  by (simp add: dec_enc)

end

text \<open>An encoding of canonical values, through which the program compares values up to \<open>same\<close>.\<close>

locale canonical_codec = codec enc dec ok for enc :: "'a \<Rightarrow> 'b" and dec :: "'b \<Rightarrow> 'a option" and ok :: "'a \<Rightarrow> bool" +
  fixes canon :: "'a \<Rightarrow> 'a"
    and same :: "'a \<Rightarrow> 'a \<Rightarrow> bool"
    and usable :: "'a \<Rightarrow> bool"
  assumes canon_ok: "usable x \<Longrightarrow> ok (canon x)"
    and canon_same: "usable x \<Longrightarrow> usable y \<Longrightarrow> canon x = canon y \<longleftrightarrow> same x y"
begin

lemma reads_canonical: "usable x \<Longrightarrow> dec (enc (canon x)) = Some (canon x)"
  by (simp add: dec_enc canon_ok)

lemma fingerprint: "usable x \<Longrightarrow> usable y \<Longrightarrow> enc (canon x) = enc (canon y) \<longleftrightarrow> same x y"
  using enc_inj canon_ok canon_same by metis

end

end
