(* ===== verification/Js_Number.thy ===== *)
theory Js_Number
  imports Js_Prelude Complex_Main
begin

text \<open>
  The value \<^verbatim>\<open>Number(text)\<close> of a string, as \<^verbatim>\<open>src/sources/snapshot-fetchers/robots.ts\<close> (crawl delays) and
  \<^verbatim>\<open>src/execution/input-contract.ts\<close> (typed flags) read numbers: the grammar of numeric strings of the language and the
  rounding of a rational to the nearest double, ties to even.  A finite double is the rational it stands for; the two
  zeros are one value.
\<close>

datatype js_number = Not_A_Number | Infinite bool | Finite rat

section \<open>Rounding to a double\<close>

function bit_length :: "int \<Rightarrow> int" where
  "bit_length n = (if n \<le> 0 then 0 else 1 + bit_length (n div 2))"
  by pat_completeness auto
termination by (relation "measure nat") auto

declare bit_length.simps [simp del]

definition pow2 :: "int \<Rightarrow> rat" where
  "pow2 e = (if 0 \<le> e then 2 ^ nat e else 1 / 2 ^ nat (- e))"

text \<open>The exponent \<open>e\<close> with $2^e \le q < 2^{e+1}$ of a positive rational.\<close>

definition binary_exponent :: "rat \<Rightarrow> int" where
  "binary_exponent q = (case quotient_of q of (n, d) \<Rightarrow>
     let k = bit_length n - bit_length d in if pow2 k \<le> q then k else k - 1)"

definition round_half_even :: "rat \<Rightarrow> int" where
  "round_half_even r = (let f = \<lfloor>r\<rfloor>; rest = r - of_int f in
     if rest < 1 / 2 then f else if rest > 1 / 2 then f + 1 else if even f then f else f + 1)"

text \<open>53 significant bits, the smallest exponent of a subnormal, and the first magnitude that is infinite.\<close>

definition round_magnitude :: "rat \<Rightarrow> js_number" where
  "round_magnitude q = (if q = 0 then Finite 0
     else let e = max (binary_exponent q - 52) (- 1074); v = of_int (round_half_even (q / pow2 e)) * pow2 e
       in if v < pow2 1024 then Finite v else Infinite False)"

definition js_negate :: "js_number \<Rightarrow> js_number" where
  "js_negate v = (case v of Finite r \<Rightarrow> Finite (- r) | Infinite neg \<Rightarrow> Infinite (\<not> neg) | Not_A_Number \<Rightarrow> Not_A_Number)"

definition to_double :: "rat \<Rightarrow> js_number" where
  "to_double r = (if r < 0 then js_negate (round_magnitude (- r)) else round_magnitude r)"

section \<open>Numeric strings\<close>

definition hex_value :: "char \<Rightarrow> int option" where
  "hex_value c = (let u = of_char c in
     if js_digit c then Some (u - 48)
     else if 65 \<le> u \<and> u \<le> 70 then Some (u - 55)
     else if 97 \<le> u \<and> u \<le> 102 then Some (u - 87) else None)"

fun digits_in_base :: "int \<Rightarrow> string \<Rightarrow> int \<Rightarrow> int option" where
  "digits_in_base b [] acc = Some acc"
| "digits_in_base b (c # cs) acc = (case hex_value c of
     Some d \<Rightarrow> if d < b then digits_in_base b cs (b * acc + d) else None | None \<Rightarrow> None)"

text \<open>\<open>0x\<close>, \<open>0o\<close>, \<open>0b\<close>: no sign, at least one digit.\<close>

definition prefixed_base :: "string \<Rightarrow> int option" where
  "prefixed_base s = (case s of
     z # b # rest \<Rightarrow> if z \<noteq> CHR ''0'' then None
       else if to_lower_char b = CHR ''x'' then Some 16
       else if to_lower_char b = CHR ''o'' then Some 8
       else if to_lower_char b = CHR ''b'' then Some 2 else None
   | _ \<Rightarrow> None)"

definition split_sign :: "string \<Rightarrow> bool \<times> string" where
  "split_sign s = (case s of c # cs \<Rightarrow> if c = CHR ''-'' then (True, cs) else if c = CHR ''+'' then (False, cs) else (False, s)
     | [] \<Rightarrow> (False, []))"

definition int_of_digits :: "string \<Rightarrow> int" where
  "int_of_digits ds = foldl (\<lambda>n c. 10 * n + (of_char c - 48)) 0 ds"

text \<open>The exponent part after the mantissa: nothing, or \<open>e\<close>, a sign and digits.\<close>

definition exponent_part :: "string \<Rightarrow> int option" where
  "exponent_part s = (case s of
     [] \<Rightarrow> Some 0
   | c # cs \<Rightarrow> if to_lower_char c \<noteq> CHR ''e'' then None
       else case split_sign cs of (neg, ds) \<Rightarrow>
         if all_digits ds then Some (if neg then - int_of_digits ds else int_of_digits ds) else None)"

definition scale10 :: "int \<Rightarrow> int \<Rightarrow> rat" where
  "scale10 m e = (if 0 \<le> e then of_int m * 10 ^ nat e else of_int m / 10 ^ nat (- e))"

definition unsigned_decimal :: "string \<Rightarrow> rat option" where
  "unsigned_decimal s =
     (let whole = takeWhile js_digit s; rest = dropWhile js_digit s in
      case rest of
        c # cs \<Rightarrow> if c = CHR ''.'' then
            (let part = takeWhile js_digit cs; tail = dropWhile js_digit cs in
             if whole @ part = '''' then None
             else map_option (\<lambda>e. scale10 (int_of_digits (whole @ part)) (e - int (length part))) (exponent_part tail))
          else if whole = '''' then None else map_option (scale10 (int_of_digits whole)) (exponent_part rest)
      | [] \<Rightarrow> if whole = '''' then None else Some (of_int (int_of_digits whole)))"

definition number_of_text :: "string \<Rightarrow> js_number" where
  "number_of_text raw =
     (let s = js_trim raw in
      if s = '''' then Finite 0
      else case prefixed_base s of
        Some b \<Rightarrow> if drop 2 s = '''' then Not_A_Number
          else (case digits_in_base b (drop 2 s) 0 of Some n \<Rightarrow> to_double (of_int n) | None \<Rightarrow> Not_A_Number)
      | None \<Rightarrow> (case split_sign s of (neg, u) \<Rightarrow>
          if u = ''Infinity'' then Infinite neg
          else case unsigned_decimal u of
            Some q \<Rightarrow> to_double (if neg then - q else q) | None \<Rightarrow> Not_A_Number))"

text \<open>\<open>Number.isFinite\<close> and \<open>Number.isSafeInteger\<close>.\<close>

definition finite_value :: "js_number \<Rightarrow> rat option" where
  "finite_value v = (case v of Finite r \<Rightarrow> Some r | _ \<Rightarrow> None)"

definition safe_integer :: "js_number \<Rightarrow> rat option" where
  "safe_integer v = (case v of Finite r \<Rightarrow> if of_int \<lfloor>r\<rfloor> = r \<and> \<bar>r\<bar> \<le> 9007199254740991 then Some r else None | _ \<Rightarrow> None)"


section \<open>Integers below $2^{53}$ are exact\<close>

lemma bit_length_lower: "0 < n \<Longrightarrow> 2 ^ nat (bit_length n - 1) \<le> n \<and> 1 \<le> bit_length n"
proof (induction n rule: bit_length.induct)
  case (1 n)
  show ?case
  proof (cases "n = 1")
    case True
    then show ?thesis by (simp add: bit_length.simps)
  next
    case False
    then have h: "0 < n div 2" using 1 by auto
    then have ih: "2 ^ nat (bit_length (n div 2) - 1) \<le> n div 2" "1 \<le> bit_length (n div 2)" using 1 by auto
    have b: "bit_length n = 1 + bit_length (n div 2)" using 1 by (subst bit_length.simps) simp
    then have "nat (bit_length n - 1) = Suc (nat (bit_length (n div 2) - 1))" using ih(2) by simp
    then have "2 ^ nat (bit_length n - 1) \<le> 2 * (n div 2)" using ih(1) by simp
    then show ?thesis using b ih(2) by simp
  qed
qed

lemma bit_length_upper: "n < 2 ^ k \<Longrightarrow> bit_length n \<le> int k"
proof (cases "0 < n")
  case True
  assume "n < 2 ^ k"
  then have "(2 :: int) ^ nat (bit_length n - 1) < 2 ^ k" using bit_length_lower [OF True] by (blast intro: le_less_trans)
  then have "nat (bit_length n - 1) < k" by (rule power_less_imp_less_exp [rotated]) simp
  then show ?thesis by simp
qed (simp add: bit_length.simps)

lemma bit_length_one [simp]: "bit_length 1 = 1"
  by (simp add: bit_length.simps)

lemma round_half_even_of_int [simp]: "round_half_even (of_int n) = n"
  by (simp add: round_half_even_def)

lemma pow2_nonpos: "e \<le> 0 \<Longrightarrow> pow2 e = 1 / of_int (2 ^ nat (- e))"
  by (cases "e = 0") (simp_all add: pow2_def)

lemma round_magnitude_int:
  assumes "0 \<le> n" "n \<le> 9007199254740991" shows "round_magnitude (of_int n) = Finite (of_int n)"
proof (cases "n = 0")
  case False
  have q: "quotient_of (of_int n) = (n, 1)" by (rule quotient_of_rat_of_int)
  have "bit_length n \<le> int 53" by (rule bit_length_upper) (use assms in simp)
  then have e: "binary_exponent (of_int n) - 52 \<le> 0" unfolding binary_exponent_def q by (simp add: Let_def)
  define e where "e = max (binary_exponent (of_int n) - 52) (- 1074)"
  have "e \<le> 0" using e by (simp add: e_def)
  then have p: "pow2 e = 1 / of_int (2 ^ nat (- e))" by (rule pow2_nonpos)
  have "of_int n / pow2 e = of_int (n * 2 ^ nat (- e))" unfolding p by simp
  then have "of_int (round_half_even (of_int n / pow2 e)) * pow2 e = of_int n"
    by (simp only: round_half_even_of_int) (simp add: p)
  moreover have "(of_int n :: rat) < pow2 1024"
  proof -
    have "(of_int n :: rat) \<le> of_int 9007199254740991" using assms(2) by (simp only: of_int_le_iff)
    also have "\<dots> < 2 ^ 53" by simp
    also have "\<dots> \<le> 2 ^ 1024" by (rule power_increasing) auto
    also have "\<dots> = pow2 1024" by (simp add: pow2_def)
    finally show ?thesis .
  qed
  ultimately show ?thesis using False by (simp add: round_magnitude_def Let_def flip: e_def)
qed (simp add: round_magnitude_def)

theorem to_double_int:
  assumes "\<bar>n\<bar> \<le> 9007199254740991" shows "to_double (of_int n) = Finite (of_int n)"
proof (cases "n < 0")
  case True
  then have "round_magnitude (of_int (- n)) = Finite (of_int (- n))" using assms by (intro round_magnitude_int) auto
  then show ?thesis using True by (simp add: to_double_def js_negate_def)
qed (use assms in \<open>simp add: to_double_def round_magnitude_int\<close>)

end
