(* ===== verification/Robots.thy ===== *)
theory Robots
  imports Js_Number
begin

text \<open>
  \<^verbatim>\<open>src/sources/snapshot-fetchers/robots.ts\<close>: the parser of robots.txt, the matcher of its path patterns and the
  decision on a URL.  The matcher is shown to compute the language of wildcard patterns, and the decision the rule of the
  longest match.
\<close>

section \<open>Rules\<close>

datatype robots_rule_kind = Allow | Disallow

record robots_path_rule =
  rule_kind :: robots_rule_kind
  rule_pattern :: string
  specificity :: nat

record robots_rule_set =
  disallow_all :: bool
  robots_rules :: "robots_path_rule list"
  crawl_delay_ms :: "int option"

definition max_crawl_delay_ms :: int where
  "max_crawl_delay_ms = 10000"

definition robots_product_tokens :: "string list" where
  "robots_product_tokens = [''akm'', ''akm-cli'']"

definition allow_all_rules :: robots_rule_set where
  "allow_all_rules = \<lparr>disallow_all = False, robots_rules = [], crawl_delay_ms = None\<rparr>"

definition disallow_all_rules :: robots_rule_set where
  "disallow_all_rules = \<lparr>disallow_all = True, robots_rules = [], crawl_delay_ms = None\<rparr>"

section \<open>Parsing\<close>

text \<open>A delay in milliseconds before it is clamped; a number of the language may be infinite.\<close>

datatype delay = Ms int | Endless

instantiation delay :: linorder
begin

fun less_eq_delay :: "delay \<Rightarrow> delay \<Rightarrow> bool" where
  "less_eq_delay (Ms a) (Ms b) = (a \<le> b)"
| "less_eq_delay d Endless = True"
| "less_eq_delay Endless (Ms b) = False"

definition less_delay :: "delay \<Rightarrow> delay \<Rightarrow> bool" where
  "less_delay d e \<longleftrightarrow> d \<le> e \<and> \<not> e \<le> d"

instance
proof
  fix a b c :: delay
  show "a < b \<longleftrightarrow> a \<le> b \<and> \<not> b \<le> a" by (simp add: less_delay_def)
  show "a \<le> a" by (cases a) simp_all
  show "a \<le> b \<Longrightarrow> b \<le> c \<Longrightarrow> a \<le> c" by (cases a; cases b; cases c) simp_all
  show "a \<le> b \<Longrightarrow> b \<le> a \<Longrightarrow> a = b" by (cases a; cases b) simp_all
  show "a \<le> b \<or> b \<le> a" by (cases a; cases b) auto
qed

end

record robots_group =
  agents :: "string list"
  group_rules :: "robots_path_rule list"
  crawl_delay_ms_raw :: "delay option"

text \<open>The loop of the parser: the groups before the current one, the current group, and whether a directive was seen since
  its last user agent.\<close>

record robots_parse =
  closed_groups :: "robots_group list"
  current_group :: "robots_group option"
  saw_directive :: bool

text \<open>\<open>split(/\r\n|\r|\n/)\<close>.\<close>

fun robots_lines :: "string \<Rightarrow> string list" where
  "robots_lines [] = [[]]"
| "robots_lines (c # cs) =
     (if c = CHR 0x0A then [] # robots_lines cs
      else if c = CHR 0x0D then
        (case cs of d # ds \<Rightarrow> if d = CHR 0x0A then [] # robots_lines ds else [] # robots_lines cs | [] \<Rightarrow> [[], []])
      else (case robots_lines cs of [] \<Rightarrow> [[c]] | l # ls \<Rightarrow> (c # l) # ls))"

definition strip_robots_comment :: "string \<Rightarrow> string" where
  "strip_robots_comment line = takeWhile (\<lambda>c. c \<noteq> CHR ''#'') line"

text \<open>\<open>Math.round\<close> of a positive double times a thousand.\<close>

definition round_ms :: "rat \<Rightarrow> delay" where
  "round_ms seconds = (case to_double (seconds * 1000) of
     Finite r \<Rightarrow> Ms \<lfloor>r + 1 / 2\<rfloor> | _ \<Rightarrow> Endless)"

definition parse_crawl_delay_ms :: "string \<Rightarrow> delay option" where
  "parse_crawl_delay_ms raw =
     (if raw = '''' then None
      else case number_of_text raw of
        Not_A_Number \<Rightarrow> None
      | Infinite neg \<Rightarrow> if neg then None else Some Endless
      | Finite seconds \<Rightarrow> if seconds \<le> 0 then None else Some (round_ms seconds))"

definition robots_groups :: "robots_parse \<Rightarrow> robots_group list" where
  "robots_groups st = closed_groups st @ (case current_group st of None \<Rightarrow> [] | Some g \<Rightarrow> [g])"

definition start_user_agent :: "string \<Rightarrow> robots_parse \<Rightarrow> robots_parse" where
  "start_user_agent token st = (case current_group st of
     Some g \<Rightarrow> if \<not> saw_directive st then st\<lparr>current_group := Some (g\<lparr>agents := agents g @ [token]\<rparr>)\<rparr>
       else \<lparr>closed_groups = robots_groups st, current_group = Some \<lparr>agents = [token], group_rules = [], crawl_delay_ms_raw = None\<rparr>,
             saw_directive = False\<rparr>
   | None \<Rightarrow> \<lparr>closed_groups = robots_groups st, current_group = Some \<lparr>agents = [token], group_rules = [], crawl_delay_ms_raw = None\<rparr>,
              saw_directive = False\<rparr>)"

definition group_directive :: "string \<Rightarrow> string \<Rightarrow> robots_group \<Rightarrow> robots_group" where
  "group_directive directive v g =
     (if directive = ''disallow'' \<or> directive = ''allow'' then
        (if v = '''' then g
         else if \<not> (js_starts_with ''/'' v \<or> js_starts_with ''*'' v) then g
         else g\<lparr>group_rules := group_rules g @
           [\<lparr>rule_kind = (if directive = ''allow'' then Allow else Disallow), rule_pattern = v, specificity = length v\<rparr>]\<rparr>)
      else if directive = ''crawl-delay'' then
        (case parse_crawl_delay_ms v of Some ms \<Rightarrow> g\<lparr>crawl_delay_ms_raw := Some ms\<rparr> | None \<Rightarrow> g)
      else g)"

definition robots_line :: "string \<Rightarrow> robots_parse \<Rightarrow> robots_parse" where
  "robots_line raw st =
     (let line = js_trim (strip_robots_comment raw) in
      if line = '''' then st
      else case index_of '':'' line of
        None \<Rightarrow> st
      | Some colon \<Rightarrow>
          let directive = to_lower_case (js_trim (take colon line)); v = js_trim (drop (colon + 1) line) in
          if directive = ''user-agent'' then
            (if v = '''' then st else start_user_agent (to_lower_case v) st)
          else (case current_group st of
            None \<Rightarrow> st
          | Some g \<Rightarrow> st\<lparr>saw_directive := True, current_group := Some (group_directive directive v g)\<rparr>))"

definition max_delay :: "robots_group list \<Rightarrow> delay option" where
  "max_delay gs = fold (\<lambda>g best. case crawl_delay_ms_raw g of
     None \<Rightarrow> best | Some ms \<Rightarrow> (case best of None \<Rightarrow> Some ms | Some b \<Rightarrow> Some (max b ms))) gs None"

definition select_groups :: "robots_group list \<Rightarrow> robots_group list" where
  "select_groups groups =
     (let specific = filter (\<lambda>g. list_ex (\<lambda>a. a \<in> set robots_product_tokens) (agents g)) groups;
          wildcard = filter (\<lambda>g. ''*'' \<in> set (agents g)) groups
      in if specific \<noteq> [] then specific else wildcard)"

definition parse_groups :: "string \<Rightarrow> robots_group list" where
  "parse_groups txt = robots_groups
     (fold robots_line (robots_lines txt) \<lparr>closed_groups = [], current_group = None, saw_directive = False\<rparr>)"

text \<open>\<open>Math.min\<close> with the ceiling.\<close>

definition clamp_delay :: "delay \<Rightarrow> int" where
  "clamp_delay d = (case d of Ms n \<Rightarrow> min n max_crawl_delay_ms | Endless \<Rightarrow> max_crawl_delay_ms)"

text \<open>The byte order mark the parser drops is outside the code units of the model.\<close>

definition parse_robots_txt :: "string \<Rightarrow> robots_rule_set" where
  "parse_robots_txt txt =
     (let selected = select_groups (parse_groups txt) in
      \<lparr>disallow_all = False, robots_rules = concat (map group_rules selected),
       crawl_delay_ms = map_option clamp_delay (max_delay selected)\<rparr>)"

section \<open>Patterns\<close>

definition is_unreserved_byte :: "int \<Rightarrow> bool" where
  "is_unreserved_byte b \<longleftrightarrow> (65 \<le> b \<and> b \<le> 90) \<or> (97 \<le> b \<and> b \<le> 122) \<or> (48 \<le> b \<and> b \<le> 57)
     \<or> b = 45 \<or> b = 46 \<or> b = 95 \<or> b = 126"

text \<open>\<open>toUpperCase\<close> on an escape: a percent sign and two hexadecimal digits.\<close>

definition upper_hex :: "char \<Rightarrow> char" where
  "upper_hex c = (if js_lower c then char_of (code_of c - 32) else c)"

fun normalize_percent_encoding :: "string \<Rightarrow> string" where
  "normalize_percent_encoding (p # a # b # cs) =
     (if p = CHR ''%'' then
        (case (hex_value a, hex_value b) of
           (Some x, Some y) \<Rightarrow>
             (if is_unreserved_byte (16 * x + y) then [char_of (nat (16 * x + y))] else [p, upper_hex a, upper_hex b])
             @ normalize_percent_encoding cs
         | _ \<Rightarrow> p # normalize_percent_encoding (a # b # cs))
      else p # normalize_percent_encoding (a # b # cs))"
| "normalize_percent_encoding cs = cs"

record compiled_robots_pattern =
  anchored :: bool
  segments :: "string list"

text \<open>\<open>replace(/\*+/g, "*")\<close>.\<close>

fun collapse_stars :: "string \<Rightarrow> string" where
  "collapse_stars (c # d # cs) =
     (if c = CHR ''*'' \<and> d = CHR ''*'' then collapse_stars (d # cs) else c # collapse_stars (d # cs))"
| "collapse_stars cs = cs"

definition pattern_anchored :: "string \<Rightarrow> bool" where
  "pattern_anchored pattern \<longleftrightarrow> js_ends_with ''$'' pattern"

definition pattern_body :: "string \<Rightarrow> string" where
  "pattern_body pattern = (if pattern_anchored pattern then take (length pattern - 1) pattern else pattern)"

definition compile_pattern_segments :: "string \<Rightarrow> compiled_robots_pattern" where
  "compile_pattern_segments pattern =
     \<lparr>anchored = pattern_anchored pattern,
      segments = split_on CHR ''*'' (collapse_stars (normalize_percent_encoding (pattern_body pattern)))\<rparr>"

text \<open>\<open>target.indexOf(segment, cursor)\<close>, for a cursor within the target.\<close>

definition index_from :: "string \<Rightarrow> string \<Rightarrow> nat \<Rightarrow> nat option" where
  "index_from p s cursor = map_option (\<lambda>i. i + cursor) (index_of p (drop cursor s))"

text \<open>The interior segments from the left, then the last one.\<close>

fun match_rest :: "bool \<Rightarrow> string \<Rightarrow> string list \<Rightarrow> nat \<Rightarrow> bool" where
  "match_rest anchor target [] cursor = True"
| "match_rest anchor target [segment] cursor =
     (if anchor then \<not> length segment > length target - cursor \<and> js_ends_with segment target
      else segment = '''' \<or> index_from segment target cursor \<noteq> None)"
| "match_rest anchor target (segment # next # rest) cursor =
     (case index_from segment target cursor of
        None \<Rightarrow> False
      | Some found \<Rightarrow> match_rest anchor target (next # rest) (found + length segment))"

definition matches_compiled_pattern :: "compiled_robots_pattern \<Rightarrow> string \<Rightarrow> bool" where
  "matches_compiled_pattern compiled target =
     (let first = hd (segments compiled) in
      if \<not> js_starts_with first target then False
      else if length (segments compiled) - 1 = 0 then (if anchored compiled then length target = length first else True)
      else match_rest (anchored compiled) target (tl (segments compiled)) (length first))"

section \<open>The decision\<close>

record target_url =
  url_pathname :: string
  url_search :: string

definition better_rule :: "robots_path_rule \<Rightarrow> robots_path_rule option \<Rightarrow> bool" where
  "better_rule rule best = (case best of
     None \<Rightarrow> True
   | Some b \<Rightarrow> specificity rule > specificity b \<or> (specificity rule = specificity b \<and> rule_kind rule = Allow \<and> rule_kind b = Disallow))"

definition best_rule :: "robots_path_rule list \<Rightarrow> string \<Rightarrow> robots_path_rule option" where
  "best_rule rules target = fold (\<lambda>rule best.
     if \<not> matches_compiled_pattern (compile_pattern_segments (rule_pattern rule)) target then best
     else if better_rule rule best then Some rule else best) rules None"

text \<open>The URL parser is an argument; it answers nothing for a text that is not a URL.\<close>

definition is_path_allowed_by_robots :: "(string \<Rightarrow> target_url option) \<Rightarrow> robots_rule_set \<Rightarrow> string \<Rightarrow> bool" where
  "is_path_allowed_by_robots parse rules url =
     (if disallow_all rules then False
      else case parse url of
        None \<Rightarrow> True
      | Some u \<Rightarrow>
          let target = normalize_percent_encoding (url_pathname u @ url_search u) in
          (case best_rule (robots_rules rules) target of Some r \<Rightarrow> rule_kind r = Allow | None \<Rightarrow> True))"


section \<open>The language of a pattern\<close>

text \<open>What a pattern body stands for: a star any text, every other character itself.\<close>

inductive wildcard :: "string \<Rightarrow> string \<Rightarrow> bool" where
  wildcard_empty: "wildcard [] []"
| wildcard_literal: "c \<noteq> CHR ''*'' \<Longrightarrow> wildcard p t \<Longrightarrow> wildcard (c # p) (c # t)"
| wildcard_star: "wildcard p t \<Longrightarrow> wildcard (CHR ''*'' # p) (u @ t)"

inductive_cases wildcard_emptyE: "wildcard [] t"
inductive_cases wildcard_ConsE: "wildcard (c # p) t"

text \<open>A pattern need only match the beginning of a path, unless it is anchored at the end.\<close>

definition pattern_language :: "bool \<Rightarrow> string \<Rightarrow> string \<Rightarrow> bool" where
  "pattern_language anchor p t \<longleftrightarrow> (\<exists>u v. t = u @ v \<and> wildcard p u \<and> (anchor \<longrightarrow> v = []))"

lemma wildcard_Nil_iff [simp]: "wildcard [] t \<longleftrightarrow> t = []"
  by (auto elim: wildcard_emptyE intro: wildcard_empty)

lemma wildcard_star_iff: "wildcard (CHR ''*'' # p) t \<longleftrightarrow> (\<exists>u v. t = u @ v \<and> wildcard p v)"
  by (auto elim!: wildcard_ConsE intro: wildcard_star)

lemma wildcard_literal_iff: "c \<noteq> CHR ''*'' \<Longrightarrow> wildcard (c # p) t \<longleftrightarrow> (\<exists>v. t = c # v \<and> wildcard p v)"
  by (auto elim!: wildcard_ConsE intro: wildcard_literal)

lemma wildcard_collapse: "wildcard (collapse_stars p) t \<longleftrightarrow> wildcard p t"
proof (induction p arbitrary: t rule: collapse_stars.induct)
  case (1 c d cs)
  show ?case
  proof (cases "c = CHR ''*'' \<and> d = CHR ''*''")
    case True
    then have "wildcard (c # d # cs) t \<longleftrightarrow> wildcard (d # cs) t"
      by (simp add: wildcard_star_iff) (metis append.assoc append_Nil)
    then show ?thesis using 1 True by simp
  next
    case False
    then show ?thesis using 1 by (cases "c = CHR ''*''") (auto simp: wildcard_star_iff wildcard_literal_iff)
  qed
qed simp_all

lemma language_collapse: "pattern_language a (collapse_stars p) t \<longleftrightarrow> pattern_language a p t"
  by (simp add: pattern_language_def wildcard_collapse)

lemma language_Nil: "pattern_language a [] t \<longleftrightarrow> (a \<longrightarrow> t = [])"
  by (auto simp: pattern_language_def)

lemma language_star: "pattern_language a (CHR ''*'' # p) t \<longleftrightarrow> (\<exists>u v. t = u @ v \<and> pattern_language a p v)"
  unfolding pattern_language_def wildcard_star_iff
proof
  assume "\<exists>u v. t = u @ v \<and> (\<exists>x y. u = x @ y \<and> wildcard p y) \<and> (a \<longrightarrow> v = [])"
  then obtain u v x y where "t = u @ v" "u = x @ y" "wildcard p y" "a \<longrightarrow> v = []" by blast
  then have "t = x @ (y @ v)" "wildcard p y" "a \<longrightarrow> v = []" by simp_all
  then show "\<exists>u v. t = u @ v \<and> (\<exists>x y. v = x @ y \<and> wildcard p x \<and> (a \<longrightarrow> y = []))" by blast
next
  assume "\<exists>u v. t = u @ v \<and> (\<exists>x y. v = x @ y \<and> wildcard p x \<and> (a \<longrightarrow> y = []))"
  then obtain u v x y where "t = u @ v" "v = x @ y" "wildcard p x" "a \<longrightarrow> y = []" by blast
  then have "t = (u @ x) @ y" "wildcard p x" "a \<longrightarrow> y = []" by simp_all
  then show "\<exists>u v. t = u @ v \<and> (\<exists>x y. u = x @ y \<and> wildcard p y) \<and> (a \<longrightarrow> v = [])" by blast
qed

lemma language_char:
  assumes "c \<noteq> CHR ''*''"
  shows "pattern_language a (c # p) t \<longleftrightarrow> (\<exists>v. t = c # v \<and> pattern_language a p v)"
  unfolding pattern_language_def wildcard_literal_iff [OF assms] by (metis append_Cons)

lemma language_literal: "CHR ''*'' \<notin> set s \<Longrightarrow> pattern_language a (s @ p) t \<longleftrightarrow> (\<exists>v. t = s @ v \<and> pattern_language a p v)"
proof (induction s arbitrary: t)
  case (Cons c s)
  have "pattern_language a (c # s @ p) t \<longleftrightarrow> (\<exists>v. t = c # v \<and> pattern_language a (s @ p) v)"
    using Cons.prems by (intro language_char) auto
  then show ?case using Cons by auto
qed simp

lemma language_free: "CHR ''*'' \<notin> set s \<Longrightarrow> pattern_language a s t \<longleftrightarrow> (\<exists>v. t = s @ v \<and> (a \<longrightarrow> v = []))"
  using language_literal [of s a "[]" t] by (simp add: language_Nil)

section \<open>The greedy matcher\<close>

lemma index_of_least: "s = u @ p @ v \<Longrightarrow> \<exists>i. index_of p s = Some i \<and> i \<le> length u"
proof (induction u arbitrary: s)
  case Nil
  then have "js_starts_with p s" by (auto simp: js_string)
  then have "index_of p s = Some 0" by (cases s) (auto simp: js_starts_with_def)
  then show ?case by blast
next
  case (Cons x u)
  then obtain i where "index_of p (u @ p @ v) = Some i" "i \<le> length u" by blast
  then show ?case using Cons.prems by (cases "js_starts_with p s") (auto intro: exI [of _ 0])
qed

text \<open>The leftmost occurrence of a segment leaves the longest rest.\<close>

lemma leftmost_occurrence:
  assumes "\<And>u v. P v \<Longrightarrow> P (u @ v)"
  shows "(\<exists>u v. r = u @ s @ v \<and> P v) \<longleftrightarrow> (\<exists>i. index_of s r = Some i \<and> P (drop (i + length s) r))"
proof
  assume "\<exists>u v. r = u @ s @ v \<and> P v"
  then obtain u v where r: "r = u @ s @ v" and P: "P v" by blast
  obtain i where i: "index_of s r = Some i" "i \<le> length u" using index_of_least [OF r] by blast
  have "v = drop (length u + length s) r" using r by simp
  then have "v = drop (length u - i) (drop (i + length s) r)" using i(2) by (simp add: algebra_simps)
  then have "drop (i + length s) r = take (length u - i) (drop (i + length s) r) @ v" by (metis append_take_drop_id)
  then show "\<exists>i. index_of s r = Some i \<and> P (drop (i + length s) r)" using i(1) P assms by metis
next
  assume "\<exists>i. index_of s r = Some i \<and> P (drop (i + length s) r)"
  then show "\<exists>u v. r = u @ s @ v \<and> P v" using index_of_Some by metis
qed

lemma match_rest_language:
  assumes "ss \<noteq> []" "\<forall>s \<in> set ss. CHR ''*'' \<notin> set s" "cursor \<le> length target"
  shows "match_rest a target ss cursor \<longleftrightarrow>
    (\<exists>u v. drop cursor target = u @ v \<and> pattern_language a (join_with ''*'' ss) v)"
  using assms
proof (induction a target ss cursor rule: match_rest.induct)
  case (2 a target s cursor)
  let ?r = "drop cursor target"
  show ?case
  proof (cases a)
    case True
    have "\<not> length s > length target - cursor \<and> js_ends_with s target \<longleftrightarrow> (\<exists>u. ?r = u @ s)"
    proof
      assume l: "\<not> length s > length target - cursor \<and> js_ends_with s target"
      then obtain t where t: "target = t @ s" by (auto simp: js_string)
      then have n: "length target = length t + length s" by simp
      have "cursor \<le> length t" using conjunct1 [OF l] 2(3) unfolding n by arith
      then show "\<exists>u. ?r = u @ s" using t by simp
    next
      assume "\<exists>u. ?r = u @ s"
      then obtain u where u: "?r = u @ s" by blast
      then have "target = (take cursor target @ u) @ s" by (metis append.assoc append_take_drop_id)
      then have "js_ends_with s target" unfolding js_ends_with_iff by blast
      moreover have "length s \<le> length ?r" using u by simp
      ultimately show "\<not> length s > length target - cursor \<and> js_ends_with s target" by simp
    qed
    then show ?thesis using True 2(2) by (auto simp: language_free)
  next
    case False
    have "s = '''' \<or> index_from s target cursor \<noteq> None \<longleftrightarrow> (\<exists>u v. ?r = u @ s @ v)"
    proof (cases "s = ''''")
      case True
      then show ?thesis by (metis append_Nil)
    next
      case False
      then show ?thesis using index_of_None [of s ?r] by (auto simp: index_from_def)
    qed
    then show ?thesis using False 2(2) by (auto simp: language_free)
  qed
next
  case (3 a target s t ss cursor)
  let ?r = "drop cursor target" and ?P = "\<lambda>r. \<exists>u v. r = u @ v \<and> pattern_language a (join_with ''*'' (t # ss)) v"
  have s: "CHR ''*'' \<notin> set s" using 3(3) by simp
  have lang: "pattern_language a (join_with ''*'' (s # t # ss)) v \<longleftrightarrow> (\<exists>w. v = s @ w \<and> ?P w)" for v
    using language_literal [OF s, of a "CHR ''*'' # join_with ''*'' (t # ss)" v] by (simp add: language_star)
  have "(\<exists>u v. ?r = u @ v \<and> pattern_language a (join_with ''*'' (s # t # ss)) v) \<longleftrightarrow> (\<exists>u v. ?r = u @ s @ v \<and> ?P v)"
    unfolding lang by blast
  also have "\<dots> \<longleftrightarrow> (\<exists>i. index_of s ?r = Some i \<and> ?P (drop (i + length s) ?r))"
    by (rule leftmost_occurrence) (metis append.assoc)
  also have "\<dots> \<longleftrightarrow> match_rest a target (s # t # ss) cursor"
  proof (cases "index_of s ?r")
    case None
    then show ?thesis by (simp add: index_from_def)
  next
    case (Some i)
    have "i + length s \<le> length ?r" using index_of_Some [OF Some] by blast
    then have "i + cursor + length s \<le> length target" using 3(4) by simp
    moreover have "index_from s target cursor = Some (i + cursor)" using Some by (simp add: index_from_def)
    ultimately have "match_rest a target (t # ss) (i + cursor + length s) \<longleftrightarrow> ?P (drop (i + cursor + length s) target)"
      using 3(1) 3(3) by auto
    moreover have "drop (i + cursor + length s) target = drop (i + length s) ?r" by (simp add: algebra_simps)
    ultimately show ?thesis using Some by (simp add: index_from_def)
  qed
  finally show ?case by blast
qed simp

theorem compiled_pattern_language:
  "matches_compiled_pattern (compile_pattern_segments pattern) target \<longleftrightarrow>
   pattern_language (pattern_anchored pattern) (normalize_percent_encoding (pattern_body pattern)) target"
proof -
  let ?a = "pattern_anchored pattern" and ?body = "collapse_stars (normalize_percent_encoding (pattern_body pattern))"
  obtain s ss where ss: "split_on CHR ''*'' ?body = s # ss" by (cases "split_on CHR ''*'' ?body") auto
  have free: "\<forall>x \<in> set (s # ss). CHR ''*'' \<notin> set x" using split_on_no_sep ss by metis
  have body: "?body = join_with ''*'' (s # ss)" using join_split_on [of "CHR ''*''" ?body] ss by simp
  have "matches_compiled_pattern (compile_pattern_segments pattern) target \<longleftrightarrow> pattern_language ?a (join_with ''*'' (s # ss)) target"
  proof (cases ss)
    case Nil
    then show ?thesis using free ss
      by (auto simp: matches_compiled_pattern_def compile_pattern_segments_def js_string language_free Let_def)
  next
    case (Cons t ts)
    have lang: "pattern_language ?a (join_with ''*'' (s # ss)) target \<longleftrightarrow>
        (\<exists>r. target = s @ r \<and> (\<exists>u v. r = u @ v \<and> pattern_language ?a (join_with ''*'' ss) v))"
      using free Cons language_literal [of s ?a "CHR ''*'' # join_with ''*'' ss" target] by (simp add: language_star)
    show ?thesis
    proof (cases "js_starts_with s target")
      case True
      then obtain r where r: "target = s @ r" by (auto simp: js_string)
      have "match_rest ?a target ss (length s) \<longleftrightarrow> (\<exists>u v. r = u @ v \<and> pattern_language ?a (join_with ''*'' ss) v)"
        using match_rest_language [of ss "length s" target ?a] free Cons r by simp
      then show ?thesis using r True ss Cons lang by (simp add: matches_compiled_pattern_def compile_pattern_segments_def Let_def)
    next
      case False
      then show ?thesis using ss lang
        by (auto simp: matches_compiled_pattern_def compile_pattern_segments_def js_string Let_def)
    qed
  qed
  then show ?thesis using body by (metis language_collapse)
qed


section \<open>Longest match wins\<close>

definition rule_matches :: "robots_path_rule \<Rightarrow> string \<Rightarrow> bool" where
  "rule_matches r target \<longleftrightarrow>
     pattern_language (pattern_anchored (rule_pattern r)) (normalize_percent_encoding (pattern_body (rule_pattern r))) target"

text \<open>The order of the fold: a rule beats another when it is longer, or as long and permissive.\<close>

definition rule_rank :: "robots_path_rule \<Rightarrow> nat" where
  "rule_rank r = 2 * specificity r + (if rule_kind r = Allow then 1 else 0)"

lemma better_rule_rank: "better_rule r (Some b) \<longleftrightarrow> rule_rank b < rule_rank r"
  by (cases "rule_kind r"; cases "rule_kind b") (auto simp: better_rule_def rule_rank_def)

definition best_among :: "robots_path_rule set \<Rightarrow> robots_path_rule option \<Rightarrow> bool" where
  "best_among S best \<longleftrightarrow> (case best of None \<Rightarrow> S = {} | Some b \<Rightarrow> b \<in> S \<and> (\<forall>r \<in> S. rule_rank r \<le> rule_rank b))"

lemma best_rule_among: "best_among {r \<in> set rules. rule_matches r target} (best_rule rules target)"
proof (induction rules rule: rev_induct)
  case Nil
  then show ?case by (simp add: best_rule_def best_among_def)
next
  case (snoc r rules)
  let ?m = "rule_matches r target" and ?b = "best_rule rules target"
  have step: "best_rule (rules @ [r]) target = (if \<not> ?m then ?b else if better_rule r ?b then Some r else ?b)"
    by (simp add: best_rule_def rule_matches_def compiled_pattern_language)
  show ?case
  proof (cases ?b)
    case None
    then show ?thesis using snoc unfolding step by (auto simp: best_among_def better_rule_def)
  next
    case (Some b)
    then show ?thesis using snoc unfolding step Some better_rule_rank
      by (auto simp: best_among_def)
  qed
qed

lemma rank_decides:
  "rule_kind d = Disallow \<Longrightarrow> rule_kind a = Allow \<Longrightarrow> rule_rank d \<le> rule_rank a \<longleftrightarrow> specificity d \<le> specificity a"
  by (auto simp: rule_rank_def)

lemma best_rule_decides:
  assumes "best_among S best"
  shows "(case best of Some r \<Rightarrow> rule_kind r = Allow | None \<Rightarrow> True) \<longleftrightarrow>
    (\<forall>d \<in> S. rule_kind d = Disallow \<longrightarrow> (\<exists>a \<in> S. rule_kind a = Allow \<and> specificity d \<le> specificity a))"
proof (cases best)
  case (Some b)
  then have b: "b \<in> S" "\<And>r. r \<in> S \<Longrightarrow> rule_rank r \<le> rule_rank b" using assms by (auto simp: best_among_def)
  show ?thesis
  proof (cases "rule_kind b")
    case Allow
    then show ?thesis using Some b rank_decides by fastforce
  next
    case Disallow
    have "rule_rank a < rule_rank b \<or> a = b" if "a \<in> S" "rule_kind a = Allow" for a
      using b(2) [OF that(1)] that(2) Disallow by (auto simp: rule_rank_def) presburger
    then show ?thesis using Some b(1) Disallow by (fastforce simp: rule_rank_def)
  qed
qed (use assms in \<open>simp add: best_among_def\<close>)

text \<open>C31: a path is disallowed exactly when some rule that forbids it is longer than every rule that allows it, a rule
  applying when its wildcard pattern matches a prefix of the path (all of it for a pattern that ends in a dollar sign).\<close>

theorem robots_longest_match:
  "is_path_allowed_by_robots parse rules url \<longleftrightarrow> \<not> disallow_all rules \<and> (case parse url of None \<Rightarrow> True | Some u \<Rightarrow>
     let target = normalize_percent_encoding (url_pathname u @ url_search u);
         applying = {r \<in> set (robots_rules rules). pattern_language (pattern_anchored (rule_pattern r))
           (normalize_percent_encoding (pattern_body (rule_pattern r))) target}
     in \<forall>d \<in> applying. rule_kind d = Disallow \<longrightarrow> (\<exists>a \<in> applying. rule_kind a = Allow \<and> specificity d \<le> specificity a))"
proof (cases "parse url")
  case (Some u)
  let ?t = "normalize_percent_encoding (url_pathname u @ url_search u)"
  show ?thesis
    using Some best_rule_decides [OF best_rule_among [of "robots_rules rules" ?t]]
    by (simp add: is_path_allowed_by_robots_def Let_def rule_matches_def)
qed (simp add: is_path_allowed_by_robots_def)

text \<open>A page forbidden with the whole site and opened by a longer rule, for a program that names it.\<close>

definition example_rules :: robots_rule_set where
  "example_rules = \<lparr>disallow_all = False, robots_rules =
     [\<lparr>rule_kind = Disallow, rule_pattern = ''/'', specificity = 1\<rparr>,
      \<lparr>rule_kind = Allow, rule_pattern = ''/doc*.html$'', specificity = 11\<rparr>], crawl_delay_ms = None\<rparr>"

definition example_url :: "string \<Rightarrow> target_url option" where
  "example_url u = Some \<lparr>url_pathname = u, url_search = ''''\<rparr>"

theorem robots_longest_match_witness:
  "let applying = {r \<in> set (robots_rules example_rules). pattern_language (pattern_anchored (rule_pattern r))
         (normalize_percent_encoding (pattern_body (rule_pattern r))) ''/docs/a.html''}
   in \<forall>d \<in> applying. rule_kind d = Disallow \<longrightarrow> (\<exists>a \<in> applying. rule_kind a = Allow \<and> specificity d \<le> specificity a)"
proof -
  have "is_path_allowed_by_robots example_url example_rules ''/docs/a.html''" by code_simp
  moreover have "normalize_percent_encoding ''/docs/a.html'' = ''/docs/a.html''" by code_simp
  ultimately show ?thesis
    using robots_longest_match [of example_url example_rules "''/docs/a.html''"]
    by (simp add: example_url_def Let_def del: normalize_percent_encoding.simps)
qed

section \<open>Spellings of a path\<close>

text \<open>An escape that stays encoded is written in upper case, whatever its case was.\<close>

lemma escape_case_is_canonical: "normalize_percent_encoding ''/a%2fb'' = ''/a%2Fb''"
  by code_simp

text \<open>Two texts spell the same path: escaped octets may differ in the case of their digits, and an unreserved octet may be
  escaped or not.\<close>

definition hex_pair :: "string \<Rightarrow> int option" where
  "hex_pair s = (case s of [a, b] \<Rightarrow> (case (hex_value a, hex_value b) of (Some x, Some y) \<Rightarrow> Some (16 * x + y) | _ \<Rightarrow> None) | _ \<Rightarrow> None)"

inductive same_path :: "string \<Rightarrow> string \<Rightarrow> bool" where
  same_empty: "same_path [] []"
| same_literal: "c \<noteq> CHR ''%'' \<Longrightarrow> same_path s t \<Longrightarrow> same_path (c # s) (c # t)"
| same_escape: "hex_pair p = Some b \<Longrightarrow> hex_pair q = Some b \<Longrightarrow> same_path s t \<Longrightarrow> same_path (CHR ''%'' # p @ s) (CHR ''%'' # q @ t)"
| same_unescaped: "hex_pair p = Some b \<Longrightarrow> is_unreserved_byte b \<Longrightarrow> same_path s t \<Longrightarrow>
     same_path (CHR ''%'' # p @ s) (char_of (nat b) # t)"
| same_escaped: "hex_pair q = Some b \<Longrightarrow> is_unreserved_byte b \<Longrightarrow> same_path s t \<Longrightarrow>
     same_path (char_of (nat b) # s) (CHR ''%'' # q @ t)"

lemma normalize_literal: "c \<noteq> CHR ''%'' \<Longrightarrow> normalize_percent_encoding (c # s) = c # normalize_percent_encoding s"
  by (cases "c # s" rule: normalize_percent_encoding.cases) auto

lemma hex_pair_cases:
  assumes "hex_pair p = Some b"
  obtains c d x y where "p = [c, d]" "hex_value c = Some x" "hex_value d = Some y" "b = 16 * x + y"
  using assms by (auto simp: hex_pair_def split: list.splits option.splits)

lemma int_char_code: "(of_char c :: int) = int (code_of c)"
  by (simp add: of_nat_of_char)

lemma hex_value_code:
  assumes "hex_value c = Some x"
  shows "0 \<le> x" "x < 16" "code_of (upper_hex c) = (if x < 10 then 48 + nat x else 55 + nat x)"
  using assms unfolding hex_value_def Let_def int_char_code js_digit_def upper_hex_def js_lower_def
  by (auto split: if_splits simp: of_char_of)

lemma upper_hex_value: "hex_value c = Some x \<Longrightarrow> hex_value d = Some x \<Longrightarrow> upper_hex c = upper_hex d"
  using hex_value_code(3) by (metis of_char_eq_iff)

lemma normalize_escape:
  assumes "hex_pair p = Some b"
  shows "normalize_percent_encoding (CHR ''%'' # p @ s) =
    (if is_unreserved_byte b then [char_of (nat b)] else CHR ''%'' # map upper_hex p) @ normalize_percent_encoding s"
  using assms by (auto elim!: hex_pair_cases)

lemma hex_pair_upper:
  assumes "hex_pair p = Some b" "hex_pair q = Some b" shows "map upper_hex p = map upper_hex q"
proof -
  obtain c d x y where p: "p = [c, d]" "hex_value c = Some x" "hex_value d = Some y" "b = 16 * x + y"
    using assms(1) by (rule hex_pair_cases)
  obtain c' d' x' y' where q: "q = [c', d']" "hex_value c' = Some x'" "hex_value d' = Some y'" "b = 16 * x' + y'"
    using assms(2) by (rule hex_pair_cases)
  have "x = b div 16" using p(4) hex_value_code(1,2) [OF p(3)] by simp
  moreover have "x' = b div 16" using q(4) hex_value_code(1,2) [OF q(3)] by simp
  ultimately have x: "x = x'" by (rule trans [OF _ sym])
  then have y: "y = y'" using p(4) q(4) by linarith
  show ?thesis using p(1) q(1) upper_hex_value [OF p(2) q(2) [folded x]] upper_hex_value [OF p(3) q(3) [folded y]] by simp
qed

lemma unreserved_not_percent: "is_unreserved_byte b \<Longrightarrow> char_of (nat b) \<noteq> CHR ''%''"
proof -
  assume u: "is_unreserved_byte b"
  then have "nat b < 256" "nat b \<noteq> 37" by (auto simp: is_unreserved_byte_def)
  then have "code_of (char_of (nat b)) \<noteq> code_of CHR ''%''" by simp
  then show ?thesis by metis
qed

lemma same_path_normalized: "same_path s t \<Longrightarrow> normalize_percent_encoding s = normalize_percent_encoding t"
proof (induction rule: same_path.induct)
  case (same_literal c s t)
  then show ?case by (simp add: normalize_literal)
next
  case (same_escape p b q s t)
  then show ?case using hex_pair_upper [OF same_escape(1,2)] by (simp only: normalize_escape [OF same_escape(1)] normalize_escape [OF same_escape(2)])
next
  case (same_unescaped p b s t)
  then show ?case by (simp only: normalize_escape [OF same_unescaped(1)] normalize_literal [OF unreserved_not_percent] if_True) simp
next
  case (same_escaped q b s t)
  then show ?case by (simp only: normalize_escape [OF same_escaped(1)] normalize_literal [OF unreserved_not_percent] if_True) simp
qed simp

text \<open>How a path is spelled does not change the decision: escaping an unreserved character, or writing an escape in
  the other case, neither evades a rule nor triggers one.\<close>

theorem spelling_does_not_matter:
  assumes "parse url = Some u" "parse url' = Some u'"
    and "same_path (url_pathname u @ url_search u) (url_pathname u' @ url_search u')"
  shows "is_path_allowed_by_robots parse rules url \<longleftrightarrow> is_path_allowed_by_robots parse rules url'"
  using assms(1,2) same_path_normalized [OF assms(3)] by (simp add: is_path_allowed_by_robots_def Let_def)


section \<open>Groups\<close>

text \<open>The lines that count: a user agent with a name, or a directive with its value.\<close>

datatype robots_record = User_Agent string | Directive string string

definition read_record :: "string \<Rightarrow> robots_record option" where
  "read_record raw =
     (let line = js_trim (strip_robots_comment raw) in
      case index_of '':'' line of
        None \<Rightarrow> None
      | Some colon \<Rightarrow>
          let directive = to_lower_case (js_trim (take colon line)); v = js_trim (drop (colon + 1) line) in
          if directive \<noteq> ''user-agent'' then Some (Directive directive v)
          else if v = '''' then None else Some (User_Agent (to_lower_case v)))"

fun is_agent :: "robots_record \<Rightarrow> bool" where
  "is_agent (User_Agent t) = True" | "is_agent (Directive d v) = False"

fun apply_directive :: "robots_record \<Rightarrow> robots_group \<Rightarrow> robots_group" where
  "apply_directive (User_Agent t) g = g" | "apply_directive (Directive d v) g = group_directive d v g"

fun agent_token :: "robots_record \<Rightarrow> string" where
  "agent_token (User_Agent t) = t" | "agent_token (Directive d v) = ''''"

abbreviation is_directive :: "robots_record \<Rightarrow> bool" where
  "is_directive r \<equiv> \<not> is_agent r"

text \<open>
  A group: a run of user agents and the run of directives after it; directives before the first user agent belong to no group.
  Its rules are the permitting and forbidding directives whose pattern starts with a slash or a star, its delay the last one that can be read.
\<close>

fun rule_of :: "robots_record \<Rightarrow> robots_path_rule option" where
  "rule_of (User_Agent t) = None"
| "rule_of (Directive d v) = (if v = '''' \<or> hd v \<notin> {CHR ''/'', CHR ''*''} then None
     else if d = ''allow'' then Some \<lparr>rule_kind = Allow, rule_pattern = v, specificity = length v\<rparr>
     else if d = ''disallow'' then Some \<lparr>rule_kind = Disallow, rule_pattern = v, specificity = length v\<rparr>
     else None)"

fun delay_of :: "robots_record \<Rightarrow> delay option" where
  "delay_of (User_Agent t) = None"
| "delay_of (Directive d v) = (if d = ''crawl-delay'' then parse_crawl_delay_ms v else None)"

definition last_of :: "'a list \<Rightarrow> 'a option" where
  "last_of xs = (if xs = [] then None else Some (last xs))"

definition group_of :: "string list \<Rightarrow> robots_record list \<Rightarrow> robots_group" where
  "group_of tokens ds = \<lparr>agents = tokens, group_rules = List.map_filter rule_of ds,
     crawl_delay_ms_raw = last_of (List.map_filter delay_of ds)\<rparr>"

function groups_from :: "robots_record list \<Rightarrow> robots_group list" where
  "groups_from [] = []"
| "groups_from (Directive d v # rs) = groups_from rs"
| "groups_from (User_Agent t # rs) =
     (let rest = dropWhile is_agent rs in
      group_of (t # map agent_token (takeWhile is_agent rs)) (takeWhile is_directive rest) # groups_from (dropWhile is_directive rest))"
  by pat_completeness auto
termination
proof (relation "measure length")
  show "(dropWhile is_directive rest, User_Agent t # rs) \<in> measure length" if "rest = dropWhile is_agent rs" for t rs rest
    using le_trans [OF length_dropWhile_le length_dropWhile_le, of is_directive is_agent rs] that by (simp add: le_imp_less_Suc)
qed simp_all

text \<open>
  The groups of RFC 9309.  Its section 2.2.4 has lines of other protocols, a sitemap for one, end no group: only the directives the parser
  knows count, which are the rules and, as an extension, the crawl delay.
\<close>

fun recognised :: "robots_record \<Rightarrow> bool" where
  "recognised (User_Agent t) = True"
| "recognised (Directive d v) \<longleftrightarrow> d \<in> {''allow'', ''disallow'', ''crawl-delay''}"

definition robots_records :: "string \<Rightarrow> robots_record list" where
  "robots_records txt = List.map_filter read_record (robots_lines txt)"

definition rfc_groups :: "string \<Rightarrow> robots_group list" where
  "rfc_groups txt = groups_from (filter recognised (robots_records txt))"

text \<open>A run of user agents that other lines interrupt: a user agent, at least one unknown directive, and another user agent.\<close>

fun interrupted :: "robots_record list \<Rightarrow> bool" where
  "interrupted [] = False"
| "interrupted (Directive d v # rs) = interrupted rs"
| "interrupted (User_Agent t # rs) \<longleftrightarrow>
     (let others = takeWhile (\<lambda>r. \<not> recognised r) rs; after = dropWhile (\<lambda>r. \<not> recognised r) rs in
        others \<noteq> [] \<and> after \<noteq> [] \<and> is_agent (hd after)) \<or> interrupted rs"

definition robots_step :: "robots_record \<Rightarrow> robots_parse \<Rightarrow> robots_parse" where
  "robots_step r st = (case r of
     User_Agent t \<Rightarrow> start_user_agent t st
   | Directive d v \<Rightarrow> (case current_group st of
       None \<Rightarrow> st | Some g \<Rightarrow> st\<lparr>saw_directive := True, current_group := Some (group_directive d v g)\<rparr>))"

lemma robots_line_step: "robots_line raw st = (case read_record raw of None \<Rightarrow> st | Some r \<Rightarrow> robots_step r st)"
  by (auto simp: robots_line_def read_record_def robots_step_def Let_def split: option.splits)

lemma robots_lines_steps: "fold robots_line ls st = fold robots_step (List.map_filter read_record ls) st"
  by (induction ls arbitrary: st) (auto simp: robots_line_step List.map_filter_simps split: option.splits)

lemma groups_from_drop: "groups_from (dropWhile is_directive rs) = groups_from rs"
proof (induction rs)
  case (Cons r rs)
  then show ?case by (cases r) auto
qed simp

text \<open>What one directive adds to a group.\<close>

lemma group_directive_adds: "group_directive d v g = g\<lparr>group_rules := group_rules g @ List.map_filter rule_of [Directive d v],
    crawl_delay_ms_raw := (case delay_of (Directive d v) of None \<Rightarrow> crawl_delay_ms_raw g | Some ms \<Rightarrow> Some ms)\<rparr>"
  by (cases v) (auto simp: group_directive_def List.map_filter_simps js_starts_with_def split: option.splits)

lemma fold_directives: "fold apply_directive ds g = g\<lparr>group_rules := group_rules g @ List.map_filter rule_of ds,
    crawl_delay_ms_raw := (case last_of (List.map_filter delay_of ds) of None \<Rightarrow> crawl_delay_ms_raw g | Some ms \<Rightarrow> Some ms)\<rparr>"
proof (induction ds arbitrary: g)
  case (Cons r ds)
  show ?case
    by (cases r) (auto simp: Cons.IH group_directive_adds last_of_def List.map_filter_simps split: option.splits)
qed (simp add: last_of_def List.map_filter_simps)

lemma group_of_fold: "group_of tokens ds = fold apply_directive ds \<lparr>agents = tokens, group_rules = [], crawl_delay_ms_raw = None\<rparr>"
  by (auto simp: fold_directives group_of_def split: option.splits)

text \<open>What the loop will still add, by the state it is in.\<close>

definition remaining_groups :: "robots_parse \<Rightarrow> robots_record list \<Rightarrow> robots_group list" where
  "remaining_groups st rs = closed_groups st @ (case current_group st of
     None \<Rightarrow> groups_from rs
   | Some g \<Rightarrow>
       let tokens = (if saw_directive st then [] else map agent_token (takeWhile is_agent rs));
           rest = (if saw_directive st then rs else dropWhile is_agent rs)
       in fold apply_directive (takeWhile is_directive rest) (g\<lparr>agents := agents g @ tokens\<rparr>) # groups_from (dropWhile is_directive rest))"

lemma group_directive_agents: "group_directive d v (g\<lparr>agents := as\<rparr>) = (group_directive d v g)\<lparr>agents := as\<rparr>"
  by (auto simp: group_directive_def split: option.splits)

lemma apply_directives_agents: "fold apply_directive ds (g\<lparr>agents := as\<rparr>) = (fold apply_directive ds g)\<lparr>agents := as\<rparr>"
proof (induction ds arbitrary: g)
  case (Cons d ds)
  then show ?case by (cases d) (auto simp: group_directive_agents)
qed simp

lemma group_directive_keeps_agents [simp]: "agents (group_directive d v g) = agents g"
  by (auto simp: group_directive_def split: option.splits)

lemma same_agents [simp]: "g\<lparr>agents := agents g\<rparr> = g"
  by simp

lemma group_directive_same [simp]: "(group_directive d v g)\<lparr>agents := agents g\<rparr> = group_directive d v g"
  by (simp flip: group_directive_agents)

lemma remaining_step: "remaining_groups (robots_step r st) rs = remaining_groups st (r # rs)"
proof (cases r)
  case (User_Agent t)
  show ?thesis
  proof (cases "current_group st")
    case None
    then show ?thesis using User_Agent
      by (simp add: remaining_groups_def robots_step_def start_user_agent_def robots_groups_def group_of_fold apply_directives_agents [symmetric] Let_def)
  next
    case (Some g)
    then show ?thesis using User_Agent
      by (cases "saw_directive st") (simp_all add: remaining_groups_def robots_step_def start_user_agent_def robots_groups_def group_of_fold Let_def)
  qed
next
  case (Directive d v)
  then show ?thesis
    by (cases "current_group st"; cases "saw_directive st")
      (simp_all add: remaining_groups_def robots_step_def Let_def)
qed

lemma remaining_end: "remaining_groups st [] = robots_groups st"
  by (cases "current_group st") (simp_all add: remaining_groups_def robots_groups_def)

lemma robots_steps_groups: "robots_groups (fold robots_step rs st) = remaining_groups st rs"
  by (induction rs arbitrary: st) (simp_all add: remaining_end remaining_step)

text \<open>The loop of the parser groups all the lines, those it does not know among them.\<close>

theorem parse_groups_runs: "parse_groups txt = groups_from (robots_records txt)"
  by (simp add: parse_groups_def robots_records_def robots_lines_steps robots_steps_groups remaining_groups_def)

text \<open>The unknown ones add nothing to a group, but end the run of user agents before them.\<close>

lemma unrecognised_adds: "\<not> recognised r \<Longrightarrow> rule_of r = None \<and> delay_of r = None"
  by (cases r) auto

lemma group_of_recognised: "group_of tokens (filter recognised ds) = group_of tokens ds"
proof -
  have "List.map_filter f (filter recognised ds) = List.map_filter f ds" if "\<And>r. \<not> recognised r \<Longrightarrow> f r = None" for f :: "robots_record \<Rightarrow> 'b option"
    using that by (induction ds) (auto simp: List.map_filter_simps split: option.splits)
  then show ?thesis using unrecognised_adds unfolding group_of_def by metis
qed

lemma interrupted_drop: "list_all is_directive ds \<Longrightarrow> interrupted (ds @ rs) = interrupted rs"
proof (induction ds)
  case (Cons r ds)
  then show ?case by (cases r) auto
qed simp

lemma interrupted_run: "list_all is_agent ts \<Longrightarrow> interrupted (User_Agent t # ts @ rest) \<longleftrightarrow> interrupted (User_Agent t # rest)"
proof (induction ts arbitrary: t)
  case (Cons r ts)
  then obtain t' where r: "r = User_Agent t'" by (cases r) auto
  show ?case using Cons.IH [of t'] Cons.prems unfolding r by simp
qed simp

lemma recognised_agent: "is_agent r \<Longrightarrow> recognised r"
  by (cases r) auto

lemma interrupted_directives:
  assumes "list_all is_directive ds" "rs = [] \<or> is_agent (hd rs)"
  shows "interrupted (User_Agent t # ds @ rs) \<longleftrightarrow> (ds \<noteq> [] \<and> filter recognised ds = [] \<and> rs \<noteq> []) \<or> interrupted rs"
proof (cases "filter recognised ds = []")
  case True
  then have none: "\<And>r. r \<in> set ds \<Longrightarrow> \<not> recognised r" by (simp add: filter_empty_conv)
  have "takeWhile (\<lambda>r. \<not> recognised r) rs = []" "dropWhile (\<lambda>r. \<not> recognised r) rs = rs"
    using assms(2) recognised_agent by (cases rs; auto)+
  then show ?thesis using True none interrupted_drop [OF assms(1)] assms(2) by auto
next
  case False
  then obtain xs r ys where ds: "ds = xs @ r # ys" "\<forall>x \<in> set xs. \<not> recognised x" "recognised r"
    using split_list_first_prop [of ds recognised] by (auto simp: filter_empty_conv)
  then show ?thesis using False interrupted_drop [OF assms(1)] assms(1) by auto
qed

lemma run_parts:
  obtains ts ds rs where "rest = ts @ ds @ rs" "takeWhile is_agent rest = ts" "dropWhile is_agent rest = ds @ rs"
    "takeWhile is_directive (ds @ rs) = ds" "dropWhile is_directive (ds @ rs) = rs" "list_all is_agent ts" "list_all is_directive ds"
    "rs = [] \<or> is_agent (hd rs)" "ds = [] \<longrightarrow> rs = []"
proof (rule that [of "takeWhile is_agent rest" "takeWhile is_directive (dropWhile is_agent rest)" "dropWhile is_directive (dropWhile is_agent rest)"])
  let ?r = "dropWhile is_agent rest"
  show "dropWhile is_directive ?r = [] \<or> is_agent (hd (dropWhile is_directive ?r))"
    using hd_dropWhile [of is_directive ?r] by blast
  show "takeWhile is_directive ?r = [] \<longrightarrow> dropWhile is_directive ?r = []"
  proof -
    have "takeWhile is_directive xs = [] \<longrightarrow> dropWhile is_directive xs = []" if "xs = [] \<or> is_directive (hd xs)" for xs
      using that by (cases xs) auto
    then show ?thesis using hd_dropWhile [of is_agent rest] by blast
  qed
  show "list_all is_agent (takeWhile is_agent rest)" "list_all is_directive (takeWhile is_directive ?r)"
    by (auto simp: list_all_iff dest: set_takeWhileD)
qed simp_all

text \<open>One run of user agents with its directives, followed by nothing or by the next run.\<close>

lemma groups_from_run:
  assumes "list_all is_agent ts" "list_all is_directive ds" "rs = [] \<or> is_agent (hd rs)" "ds = [] \<longrightarrow> rs = []"
  shows "groups_from (User_Agent t # ts @ ds @ rs) = group_of (t # map agent_token ts) ds # groups_from rs"
proof -
  have "takeWhile is_agent (ds @ rs) = []" "dropWhile is_agent (ds @ rs) = ds @ rs" using assms(2,4) by (cases ds; auto)+
  then have "takeWhile is_agent (ts @ ds @ rs) = ts" "dropWhile is_agent (ts @ ds @ rs) = ds @ rs"
    using assms(1) by (simp_all add: list_all_iff)
  moreover have "takeWhile is_directive rs = []" "dropWhile is_directive rs = rs" using assms(3) by (cases rs; auto)+
  then have "takeWhile is_directive (ds @ rs) = ds" "dropWhile is_directive (ds @ rs) = rs"
    using assms(2) by (simp_all add: list_all_iff)
  ultimately show ?thesis by simp
qed

lemma grouping_agrees: "groups_from (filter recognised rs) = groups_from rs \<longleftrightarrow> \<not> interrupted rs"
proof (induction rs rule: groups_from.induct)
  case 1
  show ?case by simp
next
  case (2 d v rs)
  then show ?case by simp
next
  case (3 t rest)
  obtain ts ds rs where parts: "rest = ts @ ds @ rs" "takeWhile is_agent rest = ts" "dropWhile is_agent rest = ds @ rs"
    "takeWhile is_directive (ds @ rs) = ds" "dropWhile is_directive (ds @ rs) = rs" "list_all is_agent ts" "list_all is_directive ds"
    "rs = [] \<or> is_agent (hd rs)" "ds = [] \<longrightarrow> rs = []" by (rule run_parts)
  have IH: "groups_from (filter recognised rs) = groups_from rs \<longleftrightarrow> \<not> interrupted rs"
    using "3.IH" [OF refl] unfolding parts(3,5) .
  have kept: "filter recognised ts = ts" using parts(6) recognised_agent by (simp add: list_all_iff)
  have split: "groups_from (User_Agent t # rest) = group_of (t # map agent_token ts) ds # groups_from rs"
    unfolding parts(1) by (rule groups_from_run [OF parts(6-9)])
  have inter: "interrupted (User_Agent t # rest) \<longleftrightarrow> (ds \<noteq> [] \<and> filter recognised ds = [] \<and> rs \<noteq> []) \<or> interrupted rs"
    unfolding parts(1) interrupted_run [OF parts(6)] by (rule interrupted_directives [OF parts(7,8)])
  show ?case
  proof (cases "filter recognised ds = [] \<and> rs \<noteq> []")
    case False
    have "groups_from (User_Agent t # ts @ filter recognised ds @ filter recognised rs)
        = group_of (t # map agent_token ts) (filter recognised ds) # groups_from (filter recognised rs)"
    proof (rule groups_from_run)
      show "filter recognised rs = [] \<or> is_agent (hd (filter recognised rs))"
        using parts(8) recognised_agent by (cases rs) auto
    qed (use parts(6,7) False in \<open>auto simp: list_all_iff\<close>)
    then show ?thesis using split inter IH False kept by (auto simp: parts(1) group_of_recognised)
  next
    case True
    obtain u rs' where rs: "rs = User_Agent u # rs'" using parts(8) True by (cases rs; cases "hd rs") auto
    obtain g gs where g: "groups_from (User_Agent t # ts @ User_Agent u # filter recognised rs') = g # gs" "length ts + 2 \<le> length (agents g)"
      using parts(6) by (simp add: group_of_def list_all_iff Let_def)
    then have "groups_from (filter recognised (User_Agent t # rest)) \<noteq> groups_from (User_Agent t # rest)"
      unfolding split using True kept by (auto simp: parts(1) rs group_of_def)
    then show ?thesis using inter True parts(9) by auto
  qed
qed

text \<open>The rule set of a list of groups: that of the groups that name the program where there is one, else of those for every agent, with
  the longest of their crawl delays, cut at ten seconds.\<close>

definition rules_of_groups :: "robots_group list \<Rightarrow> robots_rule_set" where
  "rules_of_groups groups =
     (let own = filter (\<lambda>g. ''akm'' \<in> set (agents g) \<or> ''akm-cli'' \<in> set (agents g)) groups;
          chosen = (if own \<noteq> [] then own else filter (\<lambda>g. ''*'' \<in> set (agents g)) groups);
          delays = List.map_filter crawl_delay_ms_raw chosen
      in \<lparr>disallow_all = False, robots_rules = concat (map group_rules chosen),
          crawl_delay_ms = (if delays = [] then None else Some (case Max (set delays) of Ms n \<Rightarrow> min n 10000 | Endless \<Rightarrow> 10000))\<rparr>)"

lemma parse_robots_groups: "parse_robots_txt txt = rules_of_groups (parse_groups txt)"
proof -
  have two: "Max (insert (max a b) S) = Max (insert a (insert b S))" if "finite S" for a b :: delay and S
    using that by (cases "S = {}") (simp_all add: max.assoc)
  have fold_max: "fold (\<lambda>g best. case crawl_delay_ms_raw g of None \<Rightarrow> best
        | Some ms \<Rightarrow> (case best of None \<Rightarrow> Some ms | Some b \<Rightarrow> Some (max b ms))) gs best =
      (let ds = (case best of None \<Rightarrow> [] | Some b \<Rightarrow> [b]) @ List.map_filter crawl_delay_ms_raw gs
       in if ds = [] then None else Some (Max (set ds)))" for gs best
  proof (induction gs arbitrary: best)
    case (Cons g gs)
    then show ?case
      by (cases best; cases "crawl_delay_ms_raw g") (auto simp: List.map_filter_simps Let_def two)
  qed (auto simp: List.map_filter_simps Let_def split: option.splits)
  have own: "list_ex (\<lambda>a. a \<in> set robots_product_tokens) as \<longleftrightarrow> ''akm'' \<in> set as \<or> ''akm-cli'' \<in> set as" for as
    by (auto simp: robots_product_tokens_def list_ex_iff)
  show ?thesis
    unfolding parse_robots_txt_def select_groups_def max_delay_def fold_max own rules_of_groups_def clamp_delay_def max_crawl_delay_ms_def
    by (simp add: Let_def)
qed

text \<open>C32: The state machine of the parser computes the groups of RFC 9309 exactly on the files in which no unknown directive, a sitemap
  for one, stands between two user agents of a run; there the rule set is that of these groups.  On every file it is the rule set of the groups
  in which such a directive ends the run, against section 2.2.4 of the RFC.
\<close>

theorem robots_txt_rules:
  "parse_robots_txt txt = rules_of_groups (groups_from (robots_records txt))
   \<and> (groups_from (robots_records txt) = rfc_groups txt \<longleftrightarrow> \<not> interrupted (robots_records txt))
   \<and> (\<not> interrupted (robots_records txt) \<longrightarrow> parse_robots_txt txt = rules_of_groups (rfc_groups txt))"
  using grouping_agrees [of "robots_records txt"] by (auto simp: parse_robots_groups parse_groups_runs rfc_groups_def)

definition plain_robots_txt :: string where
  "plain_robots_txt = ''User-agent: akm'' @ [CHR 0x0A] @ ''User-agent: *'' @ [CHR 0x0A] @ ''Disallow: /'' @ [CHR 0x0A] @ ''Sitemap: /map.xml''"

theorem robots_txt_rules_witness:
  "parse_robots_txt plain_robots_txt = rules_of_groups (rfc_groups plain_robots_txt)
   \<and> robots_rules (parse_robots_txt plain_robots_txt) = [\<lparr>rule_kind = Disallow, rule_pattern = ''/'', specificity = 1\<rparr>]"
proof -
  have "\<not> interrupted (robots_records plain_robots_txt)" by code_simp
  then have "parse_robots_txt plain_robots_txt = rules_of_groups (rfc_groups plain_robots_txt)" using robots_txt_rules [of plain_robots_txt] by blast
  moreover have "robots_rules (parse_robots_txt plain_robots_txt) = [\<lparr>rule_kind = Disallow, rule_pattern = ''/'', specificity = 1\<rparr>]" by code_simp
  ultimately show ?thesis by (rule conjI)
qed

text \<open>With a sitemap between the two user agents the group that names the program has no rules and hides the one that forbids everything;
  by the RFC the whole site is forbidden.\<close>

lemma sitemap_splits_a_group:
  "let txt = ''User-agent: akm'' @ [CHR 0x0A] @ ''Sitemap: /map.xml'' @ [CHR 0x0A] @ ''User-agent: *'' @ [CHR 0x0A] @ ''Disallow: /'' in
     robots_rules (parse_robots_txt txt) = []
     \<and> robots_rules (rules_of_groups (rfc_groups txt)) = [\<lparr>rule_kind = Disallow, rule_pattern = ''/'', specificity = 1\<rparr>]"
  by code_simp

theorem spelling_does_not_matter_witness:
  "is_path_allowed_by_robots example_url example_rules ''/%64%6fcs/%c3'' \<longleftrightarrow>
   is_path_allowed_by_robots example_url example_rules ''/doc%73/%C3''"
proof (rule spelling_does_not_matter)
  show "example_url ''/%64%6fcs/%c3'' = Some \<lparr>url_pathname = ''/%64%6fcs/%c3'', url_search = ''''\<rparr>" by (simp add: example_url_def)
  show "example_url ''/doc%73/%C3'' = Some \<lparr>url_pathname = ''/doc%73/%C3'', url_search = ''''\<rparr>" by (simp add: example_url_def)
  have d: "hex_pair ''64'' = Some 100" "hex_pair ''6f'' = Some 111" "hex_pair ''73'' = Some 115" "hex_pair ''c3'' = Some 195" "hex_pair ''C3'' = Some 195"
    by code_simp+
  have c: "is_unreserved_byte 100" "is_unreserved_byte 111" "is_unreserved_byte 115" "char_of (nat 100) = CHR ''d''" "char_of (nat 111) = CHR ''o''" "char_of (nat 115) = CHR ''s''"
    by code_simp+
  have e: "same_path ''%c3'' ''%C3''" using same_escape [OF d(4,5) same_empty] by simp
  have s: "same_path ''s/%c3'' ''%73/%C3''"
    using same_escaped [OF d(3) c(3) same_literal [OF _ e, of "CHR ''/''"], unfolded c(6)] by simp
  show "same_path (url_pathname \<lparr>url_pathname = ''/%64%6fcs/%c3'', url_search = ''''\<rparr> @ url_search \<lparr>url_pathname = ''/%64%6fcs/%c3'', url_search = ''''\<rparr>)
      (url_pathname \<lparr>url_pathname = ''/doc%73/%C3'', url_search = ''''\<rparr> @ url_search \<lparr>url_pathname = ''/doc%73/%C3'', url_search = ''''\<rparr>)"
    using same_literal [OF _ same_unescaped [OF d(1) c(1) same_unescaped [OF d(2) c(2) same_literal [OF _ s, of "CHR ''c''"]]], of "CHR ''/''", unfolded c(4,5)] by simp
qed

end
