(* ===== verification/Network_Policy.thy ===== *)
theory Network_Policy
  imports Js_Prelude
begin

text \<open>
  Classification of network addresses and host names, \<^verbatim>\<open>src/core/network-policy.ts\<close>: the IPv4 and IPv6 ranges that are not
  public, the IPv4 addresses embedded in IPv6 ones, and the reading of an IPv6 address through the URL parser.  Next to the
  program stands its meaning, the special-purpose blocks as numbers of 32 and 128 bits.
\<close>

section \<open>Address texts\<close>

text \<open>\<open>net.isIP\<close> and the address parser and serializer behind \<open>new URL(`http://[...]/`).hostname\<close>.\<close>

definition decimal_value :: "string \<Rightarrow> int" where
  "decimal_value s = foldl (\<lambda>n c. 10 * n + (of_char c - 48)) 0 s"

definition octet_piece :: "string \<Rightarrow> int option" where
  "octet_piece p = (if all_digits p \<and> length p \<le> 3 \<and> (length p > 1 \<longrightarrow> hd p \<noteq> CHR ''0'') \<and> decimal_value p \<le> 255
     then Some (decimal_value p) else None)"

fun read_all :: "('a \<Rightarrow> 'b option) \<Rightarrow> 'a list \<Rightarrow> 'b list option" where
  "read_all f [] = Some []"
| "read_all f (x # xs) = (case (f x, read_all f xs) of (Some y, Some ys) \<Rightarrow> Some (y # ys) | _ \<Rightarrow> None)"

definition ipv4_octets :: "string \<Rightarrow> int list option" where
  "ipv4_octets s = (let pieces = split_on CHR ''.'' s in if length pieces = 4 then read_all octet_piece pieces else None)"

definition hex_digit_value :: "char \<Rightarrow> int option" where
  "hex_digit_value c = (let u = of_char c in if 48 \<le> u \<and> u \<le> 57 then Some (u - 48) else if 97 \<le> u \<and> u \<le> 102 then Some (u - 87) else None)"

definition hex_piece :: "string \<Rightarrow> int option" where
  "hex_piece p = (if p = [] \<or> length p > 4 then None
     else map_option (foldl (\<lambda>n d. 16 * n + d) 0) (read_all hex_digit_value p))"

text \<open>The colon-separated pieces of one side of an address; the last may be a dotted quad, which stands for two words.\<close>

fun side_words :: "bool \<Rightarrow> string list \<Rightarrow> int list option" where
  "side_words dotted [] = Some []"
| "side_words dotted [p] = (case hex_piece p of Some w \<Rightarrow> Some [w]
     | None \<Rightarrow> if \<not> dotted then None else (case ipv4_octets p of Some [a, b, c, d] \<Rightarrow> Some [256 * a + b, 256 * c + d] | _ \<Rightarrow> None))"
| "side_words dotted (p # q # r) = (case (hex_piece p, side_words dotted (q # r)) of (Some w, Some ws) \<Rightarrow> Some (w # ws) | _ \<Rightarrow> None)"

text \<open>\<open>split("::")\<close>\<close>

fun split_double_colon :: "string \<Rightarrow> string list" where
  "split_double_colon [] = [[]]"
| "split_double_colon [c] = [[c]]"
| "split_double_colon (c # d # s) =
     (if c = CHR '':'' \<and> d = CHR '':'' then [] # split_double_colon s
      else (case split_double_colon (d # s) of [] \<Rightarrow> [[c]] | h # t \<Rightarrow> (c # h) # t))"

definition colon_pieces :: "string \<Rightarrow> string list" where
  "colon_pieces s = (if s = [] then [] else split_on CHR '':'' s)"

definition ipv6_words :: "string \<Rightarrow> int list option" where
  "ipv6_words s = (case split_double_colon s of
     [h] \<Rightarrow> (case side_words True (colon_pieces h) of Some ws \<Rightarrow> if length ws = 8 then Some ws else None | None \<Rightarrow> None)
   | [l, r] \<Rightarrow> (case (side_words False (colon_pieces l), side_words True (colon_pieces r)) of
       (Some ls, Some rs) \<Rightarrow> if length ls + length rs \<le> 7 then Some (ls @ replicate (8 - length ls - length rs) 0 @ rs) else None
     | _ \<Rightarrow> None)
   | _ \<Rightarrow> None)"

definition is_ip :: "string \<Rightarrow> nat" where
  "is_ip s = (if ipv4_octets s \<noteq> None then 4 else if ipv6_words s \<noteq> None then 6 else 0)"

definition hex_char :: "int \<Rightarrow> char" where
  "hex_char d = ''0123456789abcdef'' ! nat d"

definition hex_text :: "int \<Rightarrow> string" where
  "hex_text w = map hex_char (let ds = dropWhile (\<lambda>d. d = 0) [w div 4096, w div 256 mod 16, w div 16 mod 16, w mod 16] in if ds = [] then [0] else ds)"

text \<open>The first longest run of at least two zero words.\<close>

definition zero_run :: "int list \<Rightarrow> nat \<Rightarrow> nat" where
  "zero_run ws i = length (takeWhile (\<lambda>w. w = 0) (drop i ws))"

definition longest_zero_run :: "int list \<Rightarrow> (nat \<times> nat) option" where
  "longest_zero_run ws = (let m = fold max (map (zero_run ws) [0..<length ws]) 0 in
     if m < 2 then None else map_option (\<lambda>i. (i, m)) (find (\<lambda>i. zero_run ws i = m) [0..<length ws]))"

definition ipv6_text :: "int list \<Rightarrow> string" where
  "ipv6_text ws = (case longest_zero_run ws of
     None \<Rightarrow> join_with '':'' (map hex_text ws)
   | Some (i, m) \<Rightarrow> join_with '':'' (map hex_text (take i ws)) @ ''::'' @ join_with '':'' (map hex_text (drop (i + m) ws)))"

section \<open>Classification\<close>

datatype network_address_class = Public | Loopback | Private | Link_Local | Metadata | Reserved | Invalid

definition bare_hostname :: "string \<Rightarrow> string" where
  "bare_hostname hostname =
     (let lower = to_lower_case hostname
      in if js_starts_with ''['' lower \<and> js_ends_with '']'' lower then butlast (tl lower) else lower)"

definition parse_decimal :: "string \<Rightarrow> int option" where
  "parse_decimal s = (let ds = takeWhile js_digit (trim_start s) in if ds = [] then None else Some (decimal_value ds))"

definition classify_ipv4 :: "string \<Rightarrow> network_address_class" where
  "classify_ipv4 address = (case read_all parse_decimal (split_on CHR ''.'' address) of
     Some [a, b, c, d] \<Rightarrow>
       if list_ex (\<lambda>part. part < 0 \<or> part > 255) [a, b, c, d] then Invalid
       else if a = 127 then Loopback
       else if a = 10 \<or> (a = 172 \<and> b \<ge> 16 \<and> b \<le> 31) \<or> (a = 192 \<and> b = 168) then Private
       else if a = 169 \<and> b = 254 then (if d = 254 \<and> c = 169 then Metadata else Link_Local)
       else if a = 0 \<or> (a = 100 \<and> b \<ge> 64 \<and> b \<le> 127) \<or> (a = 192 \<and> b = 0 \<and> c = 0 \<and> d \<noteq> 9 \<and> d \<noteq> 10)
         \<or> (a = 192 \<and> b = 0 \<and> c = 2) \<or> (a = 192 \<and> b = 88 \<and> c = 99) \<or> (a = 198 \<and> (b = 18 \<or> b = 19))
         \<or> (a = 198 \<and> b = 51 \<and> c = 100) \<or> (a = 203 \<and> b = 0 \<and> c = 113) \<or> a \<ge> 224 then Reserved
       else Public
   | _ \<Rightarrow> Invalid)"

text \<open>The words of an address, read back from the host name the URL parser makes of it.\<close>

definition parse_ipv6_words :: "string \<Rightarrow> int list option" where
  "parse_ipv6_words address = (case ipv6_words (bare_hostname address) of
     None \<Rightarrow> None
   | Some parsed \<Rightarrow>
       let halves = split_double_colon (bare_hostname (''['' @ ipv6_text parsed @ '']'')) in
       if length halves > 2 then None
       else let left = colon_pieces (halves ! 0); right = (if length halves = 2 then colon_pieces (halves ! 1) else []);
                given = length left + length right in
         if (length halves = 1 \<and> given \<noteq> 8) \<or> (length halves = 2 \<and> given > 7) then None
         else read_all hex_piece (if length halves = 2 then left @ replicate (8 - given) ''0'' @ right else left))"

definition words_value :: "int list \<Rightarrow> int" where
  "words_value ws = foldl (\<lambda>v w. v * 65536 + w) 0 ws"

definition ipv6_value :: "string \<Rightarrow> int option" where
  "ipv6_value address = map_option words_value (parse_ipv6_words address)"

definition ipv4_from_hextets :: "int \<Rightarrow> int \<Rightarrow> string" where
  "ipv4_from_hextets high low = join_with ''.'' (map (\<lambda>n.
     (if n \<ge> 100 then [hex_char (n div 100)] else []) @ (if n \<ge> 10 then [hex_char (n div 10 mod 10)] else []) @ [hex_char (n mod 10)])
     [high div 256 mod 256, high mod 256, low div 256 mod 256, low mod 256])"

definition embedded_ipv4_address :: "int list \<Rightarrow> string option" where
  "embedded_ipv4_address ws =
     (let zeros = list_all (\<lambda>w. w = 0);
          first_six_zero = zeros (take 6 ws);
          mapped = zeros (take 5 ws) \<and> ws ! 5 = 0xffff;
          translated = zeros (take 4 ws) \<and> ws ! 4 = 0xffff \<and> ws ! 5 = 0;
          well_known_nat64 = ws ! 0 = 0x64 \<and> ws ! 1 = 0xff9b \<and> zeros (drop 2 (take 6 ws))
      in if ws ! 0 = 0x2002 then Some (ipv4_from_hextets (ws ! 1) (ws ! 2))
         else if \<not> first_six_zero \<and> \<not> mapped \<and> \<not> translated \<and> \<not> well_known_nat64 then None
         else Some (ipv4_from_hextets (ws ! 6) (ws ! 7)))"

definition in_ipv6_range :: "int \<Rightarrow> string \<Rightarrow> nat \<Rightarrow> bool" where
  "in_ipv6_range v pre bits = (case ipv6_value pre of
     None \<Rightarrow> True
   | Some p \<Rightarrow> v div 2 ^ (128 - bits) = p div 2 ^ (128 - bits))"

definition forbidden_ipv6_ranges :: "(string \<times> nat) list" where
  "forbidden_ipv6_ranges =
     [(''64:ff9b:1::'', 48), (''100::'', 64), (''2001::'', 32), (''2001:2::'', 48), (''2001:10::'', 28), (''2001:20::'', 28),
      (''2001:db8::'', 32), (''3ffe::'', 16), (''3fff::'', 20), (''5f00::'', 16), (''fec0::'', 10), (''ff00::'', 8)]"

definition classify_ipv6 :: "string \<Rightarrow> network_address_class" where
  "classify_ipv6 address = (case (parse_ipv6_words address, ipv6_value address) of
     (Some ws, Some v) \<Rightarrow>
       if v = 0 then Reserved
       else if v = 1 then Loopback
       else (case embedded_ipv4_address ws of
         Some quad \<Rightarrow> classify_ipv4 quad
       | None \<Rightarrow>
           if Some v = ipv6_value ''fd00:ec2::254'' then Metadata
           else if in_ipv6_range v ''fc00::'' 7 then Private
           else if in_ipv6_range v ''fe80::'' 10 then Link_Local
           else if \<not> in_ipv6_range v ''2000::'' 3 then Reserved
           else if list_ex (\<lambda>(pre, bits). in_ipv6_range v pre bits) forbidden_ipv6_ranges then Reserved
           else Public)
   | _ \<Rightarrow> Invalid)"

definition classify_network_address :: "string \<Rightarrow> network_address_class" where
  "classify_network_address address = (let bare = bare_hostname address; version = is_ip bare in
     if version = 4 then classify_ipv4 bare else if version = 6 then classify_ipv6 bare else Invalid)"

definition classify_network_hostname :: "string \<Rightarrow> network_address_class" where
  "classify_network_hostname hostname =
     (let bare = bare_hostname hostname in
      if bare = ''metadata.google.internal'' \<or> bare = ''metadata.goog'' then Metadata
      else if bare = ''localhost'' \<or> js_ends_with ''.localhost'' bare then Loopback
      else if js_ends_with ''.invalid'' bare then Reserved
      else let c = classify_network_address bare in if c = Invalid then Public else c)"

section \<open>The words of an address\<close>

definition is_word :: "int \<Rightarrow> bool" where
  "is_word w \<longleftrightarrow> 0 \<le> w \<and> w < 65536"

lemma read_all_Some: "read_all f xs = Some ys \<Longrightarrow> list_all2 (\<lambda>x y. f x = Some y) xs ys"
  by (induction xs arbitrary: ys) (auto split: option.splits)

lemma read_all_map: "(\<And>x. x \<in> set xs \<Longrightarrow> f (g x) = Some x) \<Longrightarrow> read_all f (map g xs) = Some xs"
  by (induction xs) auto

lemma read_all_append: "read_all f (xs @ ys) = (case (read_all f xs, read_all f ys) of (Some a, Some b) \<Rightarrow> Some (a @ b) | _ \<Rightarrow> None)"
  by (induction xs) (auto split: option.splits)

lemma read_all_range: "read_all f xs = Some ys \<Longrightarrow> (\<And>x y. f x = Some y \<Longrightarrow> P y) \<Longrightarrow> list_all P ys"
  by (induction xs arbitrary: ys) (auto split: option.splits)

lemma js_digit_value: "js_digit c \<Longrightarrow> 0 \<le> (of_char c :: int) - 48"
  using of_nat_of_char [where 'a = int, of c] unfolding js_digit_def by linarith

lemma decimal_value_nonneg: "list_all js_digit s \<Longrightarrow> 0 \<le> decimal_value s"
proof -
  have "0 \<le> foldl (\<lambda>n c. 10 * n + (of_char c - 48)) m s" if "0 \<le> m" "list_all js_digit s" for m :: int and s
    using that
  proof (induction s arbitrary: m)
    case (Cons c s)
    then show ?case using js_digit_value [of c] Cons.IH [of "10 * m + (of_char c - 48)"] by simp
  qed simp
  then show "list_all js_digit s \<Longrightarrow> 0 \<le> decimal_value s" by (simp add: decimal_value_def)
qed

definition is_octet :: "int \<Rightarrow> bool" where
  "is_octet n \<longleftrightarrow> 0 \<le> n \<and> n \<le> 255"

lemma octet_range: "octet_piece p = Some n \<Longrightarrow> is_octet n"
  using decimal_value_nonneg by (auto simp: octet_piece_def is_octet_def all_digits_def split: if_splits)

lemma ipv4_octets_range:
  assumes "ipv4_octets s = Some os" shows "length os = 4 \<and> list_all is_octet os"
proof -
  have "length (split_on CHR ''.'' s) = 4" and os: "read_all octet_piece (split_on CHR ''.'' s) = Some os"
    using assms by (auto simp: ipv4_octets_def Let_def split: if_splits)
  then show ?thesis using read_all_range [OF os octet_range] list_all2_lengthD [OF read_all_Some [OF os]] by simp
qed

lemma hex_fold_range: "list_all (\<lambda>d. 0 \<le> d \<and> d < 16) ds \<Longrightarrow> 0 \<le> n \<Longrightarrow> n < 16 ^ k \<Longrightarrow>
    0 \<le> foldl (\<lambda>n d. 16 * n + d) n ds \<and> foldl (\<lambda>n d. 16 * n + d) n ds < (16 :: int) ^ (k + length ds)"
proof (induction ds arbitrary: n k)
  case (Cons d ds)
  then have "16 * n + d < 16 ^ Suc k" by simp
  then show ?case using Cons.IH [of "16 * n + d" "Suc k"] Cons.prems by simp
qed simp

lemma hex_piece_word:
  assumes "hex_piece p = Some w" shows "is_word w"
proof -
  obtain ds where ds: "p \<noteq> []" "length p \<le> 4" "read_all hex_digit_value p = Some ds" "w = foldl (\<lambda>n d. 16 * n + d) 0 ds"
    using assms by (auto simp: hex_piece_def split: if_splits)
  have "list_all (\<lambda>d. 0 \<le> d \<and> d < 16) ds"
    by (rule read_all_range [OF ds(3)]) (auto simp: hex_digit_value_def Let_def split: if_splits)
  from hex_fold_range [OF this, of 0 0] have "0 \<le> w" "w < 16 ^ length ds" using ds(4) by auto
  moreover have "length ds = length p" using read_all_Some [OF ds(3)] by (simp add: list_all2_lengthD)
  moreover have "(16 :: int) ^ length p \<le> 16 ^ 4" using ds(2) by (intro power_increasing) auto
  ultimately show ?thesis by (simp add: is_word_def)
qed

lemma side_words_range: "side_words dotted ps = Some ws \<Longrightarrow> list_all is_word ws"
proof (induction dotted ps arbitrary: ws rule: side_words.induct)
  case (2 dotted p)
  show ?case
  proof (cases "hex_piece p")
    case None
    then obtain a b c d where q: "ipv4_octets p = Some [a, b, c, d]" "ws = [256 * a + b, 256 * c + d]"
      using 2 by (auto split: if_splits option.splits list.splits)
    then show ?thesis using ipv4_octets_range [OF q(1)] by (simp add: is_word_def is_octet_def)
  qed (use 2 hex_piece_word in auto)
qed (auto dest: hex_piece_word split: option.splits)

lemma ipv6_words_range: "ipv6_words s = Some ws \<Longrightarrow> length ws = 8 \<and> list_all is_word ws"
proof -
  assume s: "ipv6_words s = Some ws"
  have zeros: "list_all is_word (replicate n 0)" for n by (simp add: list_all_iff is_word_def)
  consider h where "split_double_colon s = [h]" | l r where "split_double_colon s = [l, r]"
    using s by (auto simp: ipv6_words_def split: list.splits)
  then show ?thesis
  proof cases
    case 1
    then show ?thesis using s by (auto simp: ipv6_words_def dest: side_words_range split: option.splits if_splits)
  next
    case 2
    then obtain ls rs where "side_words False (colon_pieces l) = Some ls" "side_words True (colon_pieces r) = Some rs"
      "length ls + length rs \<le> 7" "ws = ls @ replicate (8 - length ls - length rs) 0 @ rs"
      using s by (auto simp: ipv6_words_def split: option.splits if_splits)
    then show ?thesis using zeros by (auto dest: side_words_range)
  qed
qed

section \<open>The serialized address reads back\<close>

lemma hex_char_value: "0 \<le> d \<Longrightarrow> d < 16 \<Longrightarrow> hex_digit_value (hex_char d) = Some d"
proof -
  assume "0 \<le> d" "d < 16"
  then have "d \<in> {0,1,2,3,4,5,6,7,8,9,10,11,12,13,14,15}" by simp presburger
  then show ?thesis by (elim insertE emptyE) (simp_all add: hex_char_def hex_digit_value_def Let_def)
qed

lemma foldl_drop_zeros: "foldl (\<lambda>n d. 16 * n + d) 0 (dropWhile (\<lambda>d. d = 0) ds) = foldl (\<lambda>n d. 16 * n + d) (0 :: int) ds"
  by (induction ds) auto

lemma hex_digits_of: "foldl (\<lambda>n d. 16 * n + d) 0 [w div 4096, w div 256 mod 16, w div 16 mod 16, w mod 16] = (w :: int)"
proof -
  have "w div 256 = w div 16 div 16" "w div 4096 = w div 256 div 16" by (simp_all flip: zdiv_zmult2_eq)
  then show ?thesis using mult_div_mod_eq [of 16 w] mult_div_mod_eq [of 16 "w div 16"] mult_div_mod_eq [of 16 "w div 256"] by simp
qed

definition word_digits :: "int \<Rightarrow> int list" where
  "word_digits w = (let ds = dropWhile (\<lambda>d. d = 0) [w div 4096, w div 256 mod 16, w div 16 mod 16, w mod 16] in if ds = [] then [0] else ds)"

lemma stripped_digits:
  assumes "ds' = (let d = dropWhile (\<lambda>d. d = 0) ds in if d = [] then [0] else d)"
    and "list_all (\<lambda>d. 0 \<le> d \<and> d < 16) ds" and "ds \<noteq> []"
  shows "list_all (\<lambda>d. 0 \<le> d \<and> d < (16 :: int)) ds'" "foldl (\<lambda>n d. 16 * n + d) 0 ds' = foldl (\<lambda>n d. 16 * n + d) 0 ds"
    "ds' \<noteq> []" "length ds' \<le> length ds"
proof -
  have "foldl (\<lambda>n d. 16 * n + d) 0 ds = 0" if "dropWhile (\<lambda>d. d = 0) ds = []" using foldl_drop_zeros [of ds] that by simp
  then show "foldl (\<lambda>n d. 16 * n + d) 0 ds' = foldl (\<lambda>n d. 16 * n + d) 0 ds"
    using assms(1) foldl_drop_zeros [of ds] by (auto simp: Let_def)
  show "list_all (\<lambda>d. 0 \<le> d \<and> d < (16 :: int)) ds'"
    using assms(1,2) set_dropWhileD by (fastforce simp: Let_def list_all_iff)
  show "ds' \<noteq> []" "length ds' \<le> length ds"
    using assms(1,3) length_dropWhile_le [of "\<lambda>d. d = 0" ds] by (auto simp: Let_def Suc_le_eq)
qed

lemma word_digits:
  assumes "is_word w"
  shows "list_all (\<lambda>d. 0 \<le> d \<and> d < 16) (word_digits w)" "foldl (\<lambda>n d. 16 * n + d) 0 (word_digits w) = w"
    "word_digits w \<noteq> []" "length (word_digits w) \<le> 4"
proof -
  have "0 \<le> w div 4096" "w div 4096 < 16" using assms unfolding is_word_def by linarith+
  then have "list_all (\<lambda>d. 0 \<le> d \<and> d < 16) [w div 4096, w div 256 mod 16, w div 16 mod 16, w mod 16]" by simp
  note strip = stripped_digits [OF word_digits_def this list.distinct(2)]
  show "list_all (\<lambda>d. 0 \<le> d \<and> d < 16) (word_digits w)" "word_digits w \<noteq> []" by (fact strip)+
  show "foldl (\<lambda>n d. 16 * n + d) 0 (word_digits w) = w" unfolding strip(2) by (rule hex_digits_of)
  show "length (word_digits w) \<le> 4" by (rule order_trans [OF strip(4)]) simp
qed

lemma hex_text_digits: "hex_text w = map hex_char (word_digits w)"
  by (simp only: hex_text_def word_digits_def)

lemma hex_text_reads_back:
  assumes "is_word w" shows "hex_piece (hex_text w) = Some w"
proof -
  have "read_all hex_digit_value (hex_text w) = Some (word_digits w)"
    unfolding hex_text_digits using word_digits(1) [OF assms] by (intro read_all_map hex_char_value) (auto simp: list_all_iff)
  then show ?thesis using word_digits [OF assms] by (simp add: hex_piece_def hex_text_digits)
qed

lemma hex_char_set: "0 \<le> d \<Longrightarrow> d < 16 \<Longrightarrow> hex_char d \<in> set ''0123456789abcdef''"
  unfolding hex_char_def by (rule nth_mem) simp

lemma hex_text_set: "is_word w \<Longrightarrow> set (hex_text w) \<subseteq> set ''0123456789abcdef''"
  using word_digits(1) [of w] hex_char_set by (auto simp: hex_text_digits list_all_iff simp del: set_simps)

lemma hex_text_piece: "is_word w \<Longrightarrow> hex_text w \<noteq> [] \<and> CHR '':'' \<notin> set (hex_text w)"
  using word_digits(3) [of w] hex_text_set [of w] by (auto simp: hex_text_digits)

definition attach :: "string \<Rightarrow> string list \<Rightarrow> string list" where
  "attach p hs = (p @ hd hs) # tl hs"

lemma attach_Cons: "attach (c # p) hs = attach [c] (attach p hs)" "attach p (attach q hs) = attach (p @ q) hs"
  by (simp_all add: attach_def)

lemma split_double_colon_nonempty [simp]: "split_double_colon s \<noteq> []"
  by (induction s rule: split_double_colon.induct) (auto split: list.splits)

lemma split_double_colon_char:
  "c \<noteq> CHR '':'' \<or> (s \<noteq> [] \<and> hd s \<noteq> CHR '':'') \<Longrightarrow> split_double_colon (c # s) = attach [c] (split_double_colon s)"
  by (cases s) (auto simp: attach_def split: list.splits)

lemma split_double_colon_piece:
  "CHR '':'' \<notin> set p \<Longrightarrow> p \<noteq> [] \<Longrightarrow> split_double_colon (p @ s) = attach p (split_double_colon s)"
proof (induction p)
  case (Cons c p)
  then show ?case
    using split_double_colon_char [of c "p @ s"] split_double_colon_char [of c s]
    by (cases "p = []") (simp_all add: attach_Cons(1) [of c p] eq_commute [of c])
qed simp

definition is_piece :: "string \<Rightarrow> bool" where
  "is_piece p \<longleftrightarrow> p \<noteq> [] \<and> CHR '':'' \<notin> set p"

lemma split_double_colon_join:
  "ps \<noteq> [] \<Longrightarrow> list_all is_piece ps \<Longrightarrow> split_double_colon (join_with '':'' ps @ s) = attach (join_with '':'' ps) (split_double_colon s)"
proof (induction ps)
  case (Cons p ps)
  show ?case
  proof (cases ps)
    case Nil
    then show ?thesis using Cons.prems split_double_colon_piece by (simp add: is_piece_def)
  next
    case (Cons q qs)
    let ?rest = "join_with '':'' ps @ s"
    have q: "is_piece q" "is_piece p" using Cons Cons.prems by auto
    then have first: "?rest \<noteq> [] \<and> hd ?rest \<noteq> CHR '':''"
      using Cons by (cases q; cases qs) (auto simp: is_piece_def)
    have "join_with '':'' (p # ps) @ s = p @ CHR '':'' # ?rest" using Cons by simp
    then have "split_double_colon (join_with '':'' (p # ps) @ s) = attach p (attach '':'' (split_double_colon ?rest))"
      using q(2) split_double_colon_piece [of p] split_double_colon_char [of "CHR '':''" ?rest] first by (simp add: is_piece_def)
    then show ?thesis using Cons.IH Cons.prems Cons by (simp add: attach_Cons(2))
  qed
qed simp

lemma split_double_colon_sides:
  assumes "list_all is_piece ls" "list_all is_piece rs"
  shows "split_double_colon (join_with '':'' ls @ ''::'' @ join_with '':'' rs) = [join_with '':'' ls, join_with '':'' rs]"
proof -
  have "split_double_colon (join_with '':'' rs) = [join_with '':'' rs]"
    using split_double_colon_join [of rs "[]"] assms(2) by (cases "rs = []") (simp_all add: attach_def)
  then show ?thesis using split_double_colon_join [of ls "''::'' @ join_with '':'' rs"] assms(1)
    by (cases "ls = []") (simp_all add: attach_def)
qed

lemma split_double_colon_one: "ps \<noteq> [] \<Longrightarrow> list_all is_piece ps \<Longrightarrow> split_double_colon (join_with '':'' ps) = [join_with '':'' ps]"
  using split_double_colon_join [of ps "[]"] by (simp add: attach_def)

lemma colon_pieces_join: "list_all is_piece ps \<Longrightarrow> colon_pieces (join_with '':'' ps) = ps"
proof (cases "ps = []")
  case False
  assume ps: "list_all is_piece ps"
  with False have "join_with '':'' ps \<noteq> []" by (cases ps; cases "tl ps") (auto simp: is_piece_def)
  then show ?thesis using split_on_join [of ps "CHR '':''"] False ps
    by (simp add: colon_pieces_def list_all_iff is_piece_def)
qed (simp add: colon_pieces_def)

lemma zero_run_zeros: "zero_run ws i \<le> length ws - i" "take (zero_run ws i) (drop i ws) = replicate (zero_run ws i) 0"
proof -
  show "zero_run ws i \<le> length ws - i"
    unfolding zero_run_def using length_takeWhile_le [of "\<lambda>w. w = 0" "drop i ws"] by simp
  have "takeWhile (\<lambda>w. w = 0) (drop i ws) = replicate (length (takeWhile (\<lambda>w. w = 0) (drop i ws))) 0"
    by (rule replicate_eqI) (auto dest: set_takeWhileD)
  then show "take (zero_run ws i) (drop i ws) = replicate (zero_run ws i) 0"
    unfolding zero_run_def by (simp flip: takeWhile_eq_take)
qed

lemma longest_zero_run:
  assumes "longest_zero_run ws = Some (i, m)"
  shows "m \<ge> 2" "i + m \<le> length ws" "ws = take i ws @ replicate m 0 @ drop (i + m) ws"
proof -
  have at: "m \<ge> 2" "i < length ws" "zero_run ws i = m"
    using assms by (auto simp: longest_zero_run_def Let_def find_Some_iff split: if_splits)
  then show "m \<ge> 2" "i + m \<le> length ws" using zero_run_zeros(1) [of ws i] by auto
  have "drop i ws = replicate m 0 @ drop (i + m) ws"
    using zero_run_zeros(2) [of ws i] at(3) by (metis append_take_drop_id drop_drop add.commute)
  then show "ws = take i ws @ replicate m 0 @ drop (i + m) ws" by (metis append_take_drop_id)
qed

lemma hex_texts_are_pieces: "list_all is_word ws \<Longrightarrow> list_all is_piece (map hex_text ws)"
  using hex_text_piece by (auto simp: list_all_iff is_piece_def)

lemma hex_texts_read_back: "list_all is_word ws \<Longrightarrow> read_all hex_piece (map hex_text ws) = Some ws"
  using hex_text_reads_back by (intro read_all_map) (simp add: list_all_iff)

definition address_char :: "char \<Rightarrow> bool" where
  "address_char c \<longleftrightarrow> c \<in> set '':0123456789abcdef''"

lemma address_char_join: "\<forall>p \<in> set ps. list_all address_char p \<Longrightarrow> list_all address_char (join_with '':'' ps)"
proof (induction "'':''" ps rule: join_with.induct)
  case (3 s t ts)
  moreover have "address_char CHR '':''" by code_simp
  ultimately show ?case by simp
qed simp_all

lemma address_char_hex: "is_word w \<Longrightarrow> list_all address_char (hex_text w)"
proof -
  have hex: "\<forall>c \<in> set ''0123456789abcdef''. address_char c" by code_simp
  show "is_word w \<Longrightarrow> list_all address_char (hex_text w)"
    unfolding list_all_iff using hex_text_set [of w] hex by blast
qed

lemma address_char_text:
  assumes "list_all is_word ws" shows "list_all address_char (ipv6_text ws)"
proof -
  have texts: "list_all address_char (join_with '':'' (map hex_text vs))" if "set vs \<subseteq> set ws" for vs
    using assms that by (intro address_char_join) (auto simp: list_all_iff [of is_word] intro!: address_char_hex)
  have "list_all address_char ''::''" by code_simp
  then show ?thesis using texts [of ws] texts [OF set_take_subset] texts [OF set_drop_subset]
    by (simp add: ipv6_text_def split: option.split)
qed

lemma lower_case_fixed: "address_char c \<Longrightarrow> to_lower_char c = c"
  unfolding address_char_def by (simp only: list.set insert_iff empty_iff) (elim disjE; simp add: to_lower_char_def)

lemma bare_ipv6_text:
  assumes "list_all is_word ws" shows "bare_hostname (''['' @ ipv6_text ws @ '']'') = ipv6_text ws"
proof -
  have "to_lower_case (ipv6_text ws) = ipv6_text ws"
    unfolding to_lower_case_def using address_char_text [OF assms] lower_case_fixed by (intro map_idI) (simp add: list_all_iff)
  moreover have "to_lower_case ''['' = ''[''" "to_lower_case '']'' = '']''" by code_simp+
  ultimately have "to_lower_case (''['' @ ipv6_text ws @ '']'') = ''['' @ ipv6_text ws @ '']''"
    by (simp only: to_lower_case_append)
  then show ?thesis unfolding bare_hostname_def Let_def by (simp add: js_starts_with_def js_ends_with_def)
qed

lemma read_zeros: "read_all hex_piece (replicate n ''0'') = Some (replicate n 0)"
proof -
  have "hex_piece ''0'' = Some 0" by code_simp
  then show ?thesis by (induction n) auto
qed

text \<open>Reading the words back from the serialized address gives the words of the address.\<close>

lemma parse_ipv6_words_eq: "parse_ipv6_words address = ipv6_words (bare_hostname address)"
proof (cases "ipv6_words (bare_hostname address)")
  case (Some ws)
  note range = ipv6_words_range [OF Some]
  then have words: "list_all is_word (take i ws)" "list_all is_word (drop i ws)" for i
    by (auto simp: list_all_iff dest: in_set_takeD in_set_dropD)
  show ?thesis
  proof (cases "longest_zero_run ws")
    case None
    moreover have "map hex_text ws \<noteq> []" using range by auto
    ultimately have "split_double_colon (ipv6_text ws) = [join_with '':'' (map hex_text ws)]"
      using split_double_colon_one range hex_texts_are_pieces [of ws] by (simp add: ipv6_text_def)
    then show ?thesis using Some bare_ipv6_text [of ws] range hex_texts_are_pieces [of ws] hex_texts_read_back [of ws]
      by (simp add: parse_ipv6_words_def Let_def colon_pieces_join)
  next
    case (Some im)
    then obtain i m where im: "longest_zero_run ws = Some (i, m)" by (cases im) auto
    note run = longest_zero_run [OF im]
    have text_eq: "ipv6_text ws = join_with '':'' (map hex_text (take i ws)) @ ''::'' @ join_with '':'' (map hex_text (drop (i + m) ws))"
      using im by (simp add: ipv6_text_def)
    have halves: "split_double_colon (ipv6_text ws) = [join_with '':'' (map hex_text (take i ws)), join_with '':'' (map hex_text (drop (i + m) ws))]"
      unfolding text_eq using split_double_colon_sides words hex_texts_are_pieces by blast
    have given: "length (take i ws) + length (drop (i + m) ws) = 8 - m" "m \<le> 8" using run range by auto
    have "read_all hex_piece (map hex_text (take i ws) @ replicate m ''0'' @ map hex_text (drop (i + m) ws)) = Some ws"
      using hex_texts_read_back words run(3) by (simp add: read_all_append read_zeros)
    moreover have "8 - (length (take i ws) + length (drop (i + m) ws)) = m" using given by simp
    ultimately show ?thesis using \<open>ipv6_words (bare_hostname address) = Some ws\<close> bare_ipv6_text [of ws] range halves run(1) given
      hex_texts_are_pieces [OF words(1)] hex_texts_are_pieces [OF words(2)]
      by (simp add: parse_ipv6_words_def Let_def colon_pieces_join del: length_take length_drop)
  qed
qed (simp add: parse_ipv6_words_def)

section \<open>What public means\<close>

text \<open>An address as the number its octets or words make up, and the blocks of numbers with a common prefix.\<close>

definition number_of :: "nat \<Rightarrow> int list \<Rightarrow> int" where
  "number_of width ds = foldl (\<lambda>n d. n * 2 ^ width + d) 0 ds"

definition in_block :: "nat \<Rightarrow> int list \<Rightarrow> int list \<times> nat \<Rightarrow> bool" where
  "in_block width ds = (\<lambda>(base, bits). 
     number_of width ds div 2 ^ (width * length base - bits) = number_of width base div 2 ^ (width * length base - bits))"

text \<open>The special-purpose blocks of IPv4, with the two addresses inside them that are globally reachable.\<close>

definition special_ipv4 :: "(int list \<times> nat) list" where
  "special_ipv4 =
     [([0, 0, 0, 0], 8), ([10, 0, 0, 0], 8), ([100, 64, 0, 0], 10), ([127, 0, 0, 0], 8), ([169, 254, 0, 0], 16), ([172, 16, 0, 0], 12),
      ([192, 0, 0, 0], 24), ([192, 0, 2, 0], 24), ([192, 88, 99, 0], 24), ([192, 168, 0, 0], 16), ([198, 18, 0, 0], 15),
      ([198, 51, 100, 0], 24), ([203, 0, 113, 0], 24), ([224, 0, 0, 0], 3)]"

definition global_ipv4 :: "int list \<Rightarrow> bool" where
  "global_ipv4 os \<longleftrightarrow> os = [192, 0, 0, 9] \<or> os = [192, 0, 0, 10] \<or> \<not> list_ex (in_block 8 os) special_ipv4"

text \<open>The prefixes under which the last 32 bits of an IPv6 address are an IPv4 address: compatible, mapped, translated, NAT64.\<close>

definition embedding_prefixes :: "(int list \<times> nat) list" where
  "embedding_prefixes = [([0, 0, 0, 0, 0, 0, 0, 0], 96), ([0, 0, 0, 0, 0, 0xffff, 0, 0], 96), ([0, 0, 0, 0, 0xffff, 0, 0, 0], 96), ([0x64, 0xff9b, 0, 0, 0, 0, 0, 0], 96)]"

definition embedded_octets :: "int list \<Rightarrow> int list option" where
  "embedded_octets ws =
     (let octets = (\<lambda>n. [n div 2 ^ 24, n div 2 ^ 16 mod 256, n div 2 ^ 8 mod 256, n mod 256])
      in if list_ex (in_block 16 ws) embedding_prefixes then Some (octets (number_of 16 ws mod 2 ^ 32))
         else if in_block 16 ws ([0x2002, 0, 0, 0, 0, 0, 0, 0], 16) then Some (octets (number_of 16 ws div 2 ^ 80 mod 2 ^ 32))
         else None)"

text \<open>The special-purpose blocks inside the global unicast range \<open>2000::/3\<close>.\<close>

definition special_ipv6 :: "(int list \<times> nat) list" where
  "special_ipv6 =
     [([0x2001, 0, 0, 0, 0, 0, 0, 0], 32), ([0x2001, 2, 0, 0, 0, 0, 0, 0], 48), ([0x2001, 0x10, 0, 0, 0, 0, 0, 0], 28),
      ([0x2001, 0x20, 0, 0, 0, 0, 0, 0], 28), ([0x2001, 0xdb8, 0, 0, 0, 0, 0, 0], 32), ([0x3ffe, 0, 0, 0, 0, 0, 0, 0], 16),
      ([0x3fff, 0, 0, 0, 0, 0, 0, 0], 20)]"

definition global_ipv6 :: "int list \<Rightarrow> bool" where
  "global_ipv6 ws = (case embedded_octets ws of
     Some os \<Rightarrow> global_ipv4 os
   | None \<Rightarrow> in_block 16 ws ([0x2000, 0, 0, 0, 0, 0, 0, 0], 3) \<and> \<not> list_ex (in_block 16 ws) special_ipv6)"

definition globally_routable :: "string \<Rightarrow> bool" where
  "globally_routable address = (case ipv4_octets (bare_hostname address) of
     Some os \<Rightarrow> global_ipv4 os
   | None \<Rightarrow> (case ipv6_words (bare_hostname address) of Some ws \<Rightarrow> global_ipv6 ws | None \<Rightarrow> False))"

section \<open>Blocks\<close>

definition is_digit :: "nat \<Rightarrow> int \<Rightarrow> bool" where
  "is_digit width d \<longleftrightarrow> 0 \<le> d \<and> d < 2 ^ width"

lemma is_digit_octet: "is_digit 8 d \<longleftrightarrow> is_octet d"
  by (auto simp: is_digit_def is_octet_def)

lemma is_digit_word: "is_digit 16 d \<longleftrightarrow> is_word d"
  by (simp add: is_digit_def is_word_def)

lemma number_of_snoc: "number_of width (xs @ [d]) = number_of width xs * 2 ^ width + d"
  by (simp add: number_of_def)

lemma number_of_range: "list_all (is_digit width) ds \<Longrightarrow> 0 \<le> number_of width ds \<and> number_of width ds < 2 ^ (width * length ds)"
proof (induction ds rule: rev_induct)
  case (snoc d ds)
  let ?n = "number_of width ds"
  have IH: "0 \<le> ?n" "?n + 1 \<le> 2 ^ (width * length ds)" "0 \<le> d" "d < 2 ^ width" using snoc by (auto simp: is_digit_def)
  have "?n * 2 ^ width + d < (?n + 1) * 2 ^ width" using IH(4) by (simp add: distrib_right)
  also have "\<dots> \<le> 2 ^ (width * length ds) * 2 ^ width" using IH(2) by (intro mult_right_mono) auto
  finally show ?case using IH by (simp add: number_of_snoc power_add mult.commute)
qed (simp add: number_of_def)

lemma number_of_append: "number_of width (xs @ ys) = number_of width xs * 2 ^ (width * length ys) + number_of width ys"
proof (induction ys rule: rev_induct)
  case (snoc d ys)
  then have "number_of width ((xs @ ys) @ [d]) = (number_of width xs * 2 ^ (width * length ys) + number_of width ys) * 2 ^ width + d"
    by (simp only: number_of_snoc)
  then show ?case by (simp add: number_of_snoc distrib_right power_add algebra_simps)
qed (simp add: number_of_def)

lemma number_of_prefix:
  assumes "list_all (is_digit width) ys"
  shows "number_of width (xs @ ys) div 2 ^ (width * length ys) = number_of width xs"
    "number_of width (xs @ ys) mod 2 ^ (width * length ys) = number_of width ys"
  using number_of_range [OF assms] by (simp_all add: number_of_append)

lemma number_of_inject:
  "length xs = length ys \<Longrightarrow> list_all (is_digit width) xs \<Longrightarrow> list_all (is_digit width) ys \<Longrightarrow>
    number_of width xs = number_of width ys \<longleftrightarrow> xs = ys"
proof (induction xs ys rule: rev_induct2)
  case (4 x xs y ys)
  then have xy: "is_digit width x" "is_digit width y" by auto
  show ?case
  proof
    assume eq: "number_of width (xs @ [x]) = number_of width (ys @ [y])"
    then have "number_of width (xs @ [x]) mod 2 ^ width = number_of width (ys @ [y]) mod 2 ^ width"
      "number_of width (xs @ [x]) div 2 ^ width = number_of width (ys @ [y]) div 2 ^ width" by simp_all
    then have "x = y" "number_of width xs = number_of width ys" using xy by (simp_all add: number_of_snoc is_digit_def)
    then show "xs @ [x] = ys @ [y]" using 4 by simp
  qed simp
qed simp_all

text \<open>A block whose prefix ends between two digits holds the addresses with the same first digits.\<close>

lemma in_block_aligned:
  assumes "length ds = length base" "list_all (is_digit width) ds" "list_all (is_digit width) base" "bits = width * k" "k \<le> length base"
  shows "in_block width ds (base, bits) \<longleftrightarrow> take k ds = take k base"
proof -
  have cut: "number_of width xs div 2 ^ (width * length base - bits) = number_of width (take k xs)"
    if "length xs = length base" "list_all (is_digit width) xs" for xs
  proof -
    have "list_all (is_digit width) (drop k xs)" using that(2) by (auto simp: list_all_iff dest: in_set_dropD)
    from number_of_prefix(1) [OF this, of "take k xs"] show ?thesis using assms(4) that(1) by (simp add: diff_mult_distrib2)
  qed
  have "list_all (is_digit width) (take k ds)" "list_all (is_digit width) (take k base)"
    using assms by (auto simp: list_all_iff dest: in_set_takeD)
  then have "number_of width (take k ds) = number_of width (take k base) \<longleftrightarrow> take k ds = take k base"
    using assms(1) by (intro number_of_inject) auto
  then show ?thesis unfolding in_block_def prod.case cut [OF assms(1,2)] cut [OF refl assms(3)] .
qed

section \<open>IPv4\<close>

lemma quad_block:
  assumes "list_all is_octet [a, b, c, d]" "list_all is_octet [p, q, r, s]"
  shows "in_block 8 [a, b, c, d] ([p, q, r, s], 8) \<longleftrightarrow> a = p"
    "in_block 8 [a, b, c, d] ([p, q, r, s], 16) \<longleftrightarrow> a = p \<and> b = q"
    "in_block 8 [a, b, c, d] ([p, q, r, s], 24) \<longleftrightarrow> a = p \<and> b = q \<and> c = r"
  using assms in_block_aligned [of "[a, b, c, d]" "[p, q, r, s]" 8 8 1] in_block_aligned [of "[a, b, c, d]" "[p, q, r, s]" 8 16 2]
    in_block_aligned [of "[a, b, c, d]" "[p, q, r, s]" 8 24 3]
  by (simp_all add: is_digit_octet numeral_3_eq_3 numeral_2_eq_2)

lemma int_div_eq_iff:
  assumes "0 < (k :: int)" shows "x div k = q \<longleftrightarrow> q * k \<le> x \<and> x < (q + 1) * k"
proof
  assume "x div k = q"
  then show "q * k \<le> x \<and> x < (q + 1) * k"
    using mult_div_mod_eq [of k x] pos_mod_bound [OF assms, of x] pos_mod_sign [OF assms, of x] by (simp add: algebra_simps)
next
  assume "q * k \<le> x \<and> x < (q + 1) * k"
  then show "x div k = q" by (intro int_div_pos_eq [of x k q "x - k * q"]) (auto simp: algebra_simps)
qed

lemma pair_between:
  assumes "0 \<le> b" "b \<le> 255" "0 \<le> lo" "hi \<le> 256"
  shows "p * 256 + lo \<le> a * 256 + b \<and> a * 256 + b < p * 256 + hi \<longleftrightarrow> a = p \<and> lo \<le> b \<and> b < (hi :: int)"
proof -
  consider "a \<le> p - 1" | "a = p" | "p + 1 \<le> a" by linarith
  then show ?thesis using assms by cases auto
qed

lemma quad_block_part:
  assumes "list_all is_octet [a, b, c, d]"
  shows "in_block 8 [a, b, c, d] ([224, 0, 0, 0], 3) \<longleftrightarrow> a \<ge> 224"
    "in_block 8 [a, b, c, d] ([100, 64, 0, 0], 10) \<longleftrightarrow> a = 100 \<and> 64 \<le> b \<and> b \<le> 127"
    "in_block 8 [a, b, c, d] ([172, 16, 0, 0], 12) \<longleftrightarrow> a = 172 \<and> 16 \<le> b \<and> b \<le> 31"
    "in_block 8 [a, b, c, d] ([198, 18, 0, 0], 15) \<longleftrightarrow> a = 198 \<and> (b = 18 \<or> b = 19)"
proof -
  have o: "0 \<le> a" "a \<le> 255" "0 \<le> b" "b \<le> 255" using assms by (auto simp: is_octet_def)
  have n: "number_of 8 [a, b, c, d] div 2 ^ 24 = a" "number_of 8 [a, b, c, d] div 2 ^ 16 = a * 256 + b"
    using number_of_prefix(1) [of 8 "[b, c, d]" "[a]"] number_of_prefix(1) [of 8 "[c, d]" "[a, b]"] assms
    by (simp_all add: is_digit_octet number_of_def)
  have split: "m div 536870912 = m div 16777216 div 32" "m div 4194304 = m div 65536 div 64" "m div 1048576 = m div 65536 div 16"
    "m div 131072 = m div 65536 div 2" for m :: int
    by (simp_all flip: zdiv_zmult2_eq)
  have constants: "number_of 8 [224, 0, 0, 0] = 3758096384" "number_of 8 [100, 64, 0, 0] = 1681915904"
    "number_of 8 [172, 16, 0, 0] = 2886729728" "number_of 8 [198, 18, 0, 0] = 3323068416" by (simp_all add: number_of_def)
  have "in_block 8 [a, b, c, d] ([224, 0, 0, 0], 3) \<longleftrightarrow> a div 32 = 7"
    "in_block 8 [a, b, c, d] ([100, 64, 0, 0], 10) \<longleftrightarrow> (a * 256 + b) div 64 = 401"
    "in_block 8 [a, b, c, d] ([172, 16, 0, 0], 12) \<longleftrightarrow> (a * 256 + b) div 16 = 2753"
    "in_block 8 [a, b, c, d] ([198, 18, 0, 0], 15) \<longleftrightarrow> (a * 256 + b) div 2 = 25353"
    using n by (simp_all add: in_block_def constants split [of "number_of 8 [a, b, c, d]"])
  moreover have "a div 32 = 7 \<longleftrightarrow> a \<ge> 224" using o by (simp add: int_div_eq_iff)
  moreover have "(a * 256 + b) div 64 = 401 \<longleftrightarrow> a = 100 \<and> 64 \<le> b \<and> b \<le> 127" using pair_between [OF o(3,4), of 64 128 100 a] by (auto simp: int_div_eq_iff)
  moreover have "(a * 256 + b) div 16 = 2753 \<longleftrightarrow> a = 172 \<and> 16 \<le> b \<and> b \<le> 31" using pair_between [OF o(3,4), of 16 32 172 a] by (auto simp: int_div_eq_iff)
  moreover have "(a * 256 + b) div 2 = 25353 \<longleftrightarrow> a = 198 \<and> (b = 18 \<or> b = 19)" using pair_between [OF o(3,4), of 18 20 198 a] by (auto simp: int_div_eq_iff)
  ultimately show "in_block 8 [a, b, c, d] ([224, 0, 0, 0], 3) \<longleftrightarrow> a \<ge> 224"
    "in_block 8 [a, b, c, d] ([100, 64, 0, 0], 10) \<longleftrightarrow> a = 100 \<and> 64 \<le> b \<and> b \<le> 127"
    "in_block 8 [a, b, c, d] ([172, 16, 0, 0], 12) \<longleftrightarrow> a = 172 \<and> 16 \<le> b \<and> b \<le> 31"
    "in_block 8 [a, b, c, d] ([198, 18, 0, 0], 15) \<longleftrightarrow> a = 198 \<and> (b = 18 \<or> b = 19)" by blast+
qed

lemma global_ipv4_octets:
  assumes "list_all is_octet [a, b, c, d]"
  shows "global_ipv4 [a, b, c, d] \<longleftrightarrow>
    \<not> (a = 0 \<or> a = 10 \<or> (a = 100 \<and> 64 \<le> b \<and> b \<le> 127) \<or> a = 127 \<or> (a = 169 \<and> b = 254) \<or> (a = 172 \<and> 16 \<le> b \<and> b \<le> 31)
      \<or> (a = 192 \<and> b = 0 \<and> c = 0 \<and> d \<noteq> 9 \<and> d \<noteq> 10) \<or> (a = 192 \<and> b = 0 \<and> c = 2) \<or> (a = 192 \<and> b = 88 \<and> c = 99) \<or> (a = 192 \<and> b = 168)
      \<or> (a = 198 \<and> (b = 18 \<or> b = 19)) \<or> (a = 198 \<and> b = 51 \<and> c = 100) \<or> (a = 203 \<and> b = 0 \<and> c = 113) \<or> a \<ge> 224)"
proof (cases "a = 192 \<and> b = 0 \<and> c = 0")
  case True
  then show ?thesis using assms by (elim conjE) (simp add: global_ipv4_def special_ipv4_def quad_block_part quad_block is_octet_def)
next
  case False
  then show ?thesis
    by (simp add: global_ipv4_def special_ipv4_def quad_block_part [OF assms] quad_block [OF assms] is_octet_def) argo
qed

lemma octet_piece_parse_decimal:
  assumes "octet_piece p = Some n" shows "parse_decimal p = Some n"
proof -
  have p: "all_digits p" "n = decimal_value p" using assms by (auto simp: octet_piece_def split: if_splits)
  then have digits: "p \<noteq> []" "\<forall>c \<in> set p. js_digit c" by (auto simp: all_digits_def list_all_iff)
  then have all: "takeWhile js_digit p = p" by (simp add: takeWhile_eq_all_conv)
  have "trim_start p = p"
    using digits by (cases p) (auto simp: trim_start_def js_space_def js_digit_def)
  then show ?thesis unfolding parse_decimal_def Let_def using p digits(1) by (simp only: all if_False)
qed

lemma read_all_weaken: "read_all f xs = Some ys \<Longrightarrow> (\<And>x y. f x = Some y \<Longrightarrow> g x = Some y) \<Longrightarrow> read_all g xs = Some ys"
  by (induction xs arbitrary: ys) (auto split: option.splits)

lemma classify_ipv4_public:
  assumes "ipv4_octets s = Some os" shows "classify_ipv4 s = Public \<longleftrightarrow> global_ipv4 os"
proof -
  have os: "length os = 4" "list_all is_octet os" using ipv4_octets_range [OF assms] by auto
  then obtain a b c d where abcd: "os = [a, b, c, d]"
    by (auto simp: numeral_eq_Suc length_Suc_conv)
  have "read_all octet_piece (split_on CHR ''.'' s) = Some os" using assms by (auto simp: ipv4_octets_def Let_def split: if_splits)
  then have parsed: "read_all parse_decimal (split_on CHR ''.'' s) = Some [a, b, c, d]"
    using read_all_weaken octet_piece_parse_decimal abcd by metis
  have range: "0 \<le> a" "a \<le> 255" "0 \<le> b" "b \<le> 255" "0 \<le> c" "c \<le> 255" "0 \<le> d" "d \<le> 255"
    using os(2) abcd by (auto simp: is_octet_def)
  then have "list_ex (\<lambda>part. part < 0 \<or> part > 255) [a, b, c, d] = False" by auto
  moreover have "list_all is_octet [a, b, c, d]" using os abcd by simp
  ultimately show ?thesis unfolding classify_ipv4_def parsed abcd global_ipv4_octets [OF \<open>list_all is_octet [a, b, c, d]\<close>]
    by (simp split: if_split) blast
qed

section \<open>IPv6\<close>

lemma hex_char_decimal: "0 \<le> d \<Longrightarrow> d < 10 \<Longrightarrow> js_digit (hex_char d) \<and> of_char (hex_char d) - 48 = (d :: int) \<and> (hex_char d = CHR ''0'' \<longleftrightarrow> d = 0)"
proof -
  assume "0 \<le> d" "d < 10"
  then have "d \<in> {0,1,2,3,4,5,6,7,8,9}" by simp presburger
  then show ?thesis by (elim insertE emptyE) (simp_all add: hex_char_def js_digit_def)
qed

definition octet_text :: "int \<Rightarrow> string" where
  "octet_text n = (if n \<ge> 100 then [hex_char (n div 100)] else []) @ (if n \<ge> 10 then [hex_char (n div 10 mod 10)] else []) @ [hex_char (n mod 10)]"

lemma octet_text_reads_back:
  assumes "is_octet n" shows "octet_piece (octet_text n) = Some n" "CHR ''.'' \<notin> set (octet_text n)"
proof -
  have n: "0 \<le> n" "n \<le> 255" using assms by (auto simp: is_octet_def)
  have digits: "0 \<le> n div 100" "n div 100 < 10" "0 \<le> n div 10 mod 10" "n div 10 mod 10 < 10" "0 \<le> n mod 10" "n mod 10 < 10"
    using n by auto
  have whole: "n = 10 * (n div 10) + n mod 10" "n div 10 = 10 * (n div 100) + n div 10 mod 10"
    using mult_div_mod_eq [of 10 n] mult_div_mod_eq [of 10 "n div 10"] by (simp_all flip: zdiv_zmult2_eq)
  note chars = hex_char_decimal [OF digits(1,2)] hex_char_decimal [OF digits(3,4)] hex_char_decimal [OF digits(5,6)]
  show "octet_piece (octet_text n) = Some n"
  proof -
    consider "n < 10" | "10 \<le> n" "n < 100" | "100 \<le> n" by linarith
    then have "all_digits (octet_text n) \<and> length (octet_text n) \<le> 3 \<and> (length (octet_text n) > 1 \<longrightarrow> hd (octet_text n) \<noteq> CHR ''0'')
        \<and> decimal_value (octet_text n) = n"
    proof cases
      case 1
      then show ?thesis using chars n by (simp add: octet_text_def all_digits_def decimal_value_def)
    next
      case 2
      then have "n div 100 = 0" "n div 10 \<noteq> 0" using n by (auto simp: int_div_eq_iff)
      then show ?thesis using chars n 2 whole by (simp add: octet_text_def all_digits_def decimal_value_def)
    next
      case 3
      then have "n div 100 \<noteq> 0" using n by (auto simp: int_div_eq_iff)
      then show ?thesis using chars n 3 whole by (simp add: octet_text_def all_digits_def decimal_value_def algebra_simps)
    qed
    then show ?thesis using n by (simp add: octet_piece_def)
  qed
  have "list_all js_digit (octet_text n)" using chars by (simp add: octet_text_def)
  moreover have "\<not> js_digit CHR ''.''" by (simp add: js_digit_def)
  ultimately show "CHR ''.'' \<notin> set (octet_text n)" unfolding list_all_iff by blast
qed

lemma ipv4_from_hextets_reads_back:
  assumes "is_word high" "is_word low"
  shows "ipv4_octets (ipv4_from_hextets high low) = Some [high div 256, high mod 256, low div 256, low mod 256]"
proof -
  let ?os = "[high div 256 mod 256, high mod 256, low div 256 mod 256, low mod 256]"
  have "is_octet (x mod 256)" for x unfolding is_octet_def using pos_mod_bound [of 256 x] pos_mod_sign [of 256 x] by linarith
  then have os: "list_all is_octet ?os" by simp
  have text_eq: "ipv4_from_hextets high low = join_with [CHR ''.''] (map octet_text ?os)"
    by (simp add: ipv4_from_hextets_def octet_text_def [abs_def])
  have "split_on CHR ''.'' (ipv4_from_hextets high low) = map octet_text ?os"
    unfolding text_eq using os octet_text_reads_back(2) by (intro split_on_join) (auto simp: list_all_iff)
  moreover have "read_all octet_piece (map octet_text ?os) = Some ?os"
    using os octet_text_reads_back(1) by (intro read_all_map) (auto simp: list_all_iff)
  moreover have "high div 256 mod 256 = high div 256" "low div 256 mod 256 = low div 256"
    using assms by (auto simp: is_word_def)
  ultimately show ?thesis by (simp add: ipv4_octets_def)
qed

lemma words_value_number: "words_value ws = number_of 16 ws"
  by (simp add: words_value_def number_of_def)

lemma range_block:
  "ipv6_value pre = Some (number_of 16 base) \<Longrightarrow> length base = 8 \<Longrightarrow>
    in_ipv6_range (number_of 16 ws) pre bits \<longleftrightarrow> in_block 16 ws (base, bits)"
  by (simp add: in_ipv6_range_def in_block_def)

lemma prefix_values:
  "ipv6_value ''fd00:ec2::254'' = Some (number_of 16 [0xfd00, 0xec2, 0, 0, 0, 0, 0, 0x254])"
  "ipv6_value ''fc00::'' = Some (number_of 16 [0xfc00, 0, 0, 0, 0, 0, 0, 0])"
  "ipv6_value ''fe80::'' = Some (number_of 16 [0xfe80, 0, 0, 0, 0, 0, 0, 0])"
  "ipv6_value ''2000::'' = Some (number_of 16 [0x2000, 0, 0, 0, 0, 0, 0, 0])"
  "ipv6_value ''64:ff9b:1::'' = Some (number_of 16 [0x64, 0xff9b, 1, 0, 0, 0, 0, 0])"
  "ipv6_value ''100::'' = Some (number_of 16 [0x100, 0, 0, 0, 0, 0, 0, 0])"
  "ipv6_value ''2001::'' = Some (number_of 16 [0x2001, 0, 0, 0, 0, 0, 0, 0])"
  "ipv6_value ''2001:2::'' = Some (number_of 16 [0x2001, 2, 0, 0, 0, 0, 0, 0])"
  "ipv6_value ''2001:10::'' = Some (number_of 16 [0x2001, 0x10, 0, 0, 0, 0, 0, 0])"
  "ipv6_value ''2001:20::'' = Some (number_of 16 [0x2001, 0x20, 0, 0, 0, 0, 0, 0])"
  "ipv6_value ''2001:db8::'' = Some (number_of 16 [0x2001, 0xdb8, 0, 0, 0, 0, 0, 0])"
  "ipv6_value ''3ffe::'' = Some (number_of 16 [0x3ffe, 0, 0, 0, 0, 0, 0, 0])"
  "ipv6_value ''3fff::'' = Some (number_of 16 [0x3fff, 0, 0, 0, 0, 0, 0, 0])"
  "ipv6_value ''5f00::'' = Some (number_of 16 [0x5f00, 0, 0, 0, 0, 0, 0, 0])"
  "ipv6_value ''fec0::'' = Some (number_of 16 [0xfec0, 0, 0, 0, 0, 0, 0, 0])"
  "ipv6_value ''ff00::'' = Some (number_of 16 [0xff00, 0, 0, 0, 0, 0, 0, 0])"
  by (code_simp)+

text \<open>A block of at least three bits lies inside or outside the global unicast range.\<close>

abbreviation unicast :: "int list \<times> nat" where
  "unicast \<equiv> ([0x2000, 0, 0, 0, 0, 0, 0, 0], 3)"

lemma block_in_unicast:
  assumes "in_block 16 ws (base, bits)" "length base = 8" "3 \<le> bits" "bits \<le> 128"
  shows "in_block 16 ws unicast \<longleftrightarrow> number_of 16 base div 2 ^ 125 = 1"
proof -
  have cut: "n div 2 ^ 125 = n div 2 ^ (128 - bits) div 2 ^ (bits - 3)" for n :: int
  proof -
    have "(2 :: int) ^ 125 = 2 ^ (128 - bits) * 2 ^ (bits - 3)" using assms(3,4) by (simp flip: power_add)
    then show ?thesis by (simp only: zdiv_zmult2_eq zero_le_power zero_le_numeral)
  qed
  have "in_block 16 ws unicast \<longleftrightarrow> number_of 16 ws div 2 ^ 125 = 1" by (simp add: in_block_def number_of_def)
  then show ?thesis using assms(1,2) cut by (simp add: in_block_def)
qed

lemma octets_of_pair:
  assumes "is_word hi" "is_word lo"
  shows "(hi * 65536 + lo) div 2 ^ 24 = hi div 256" "(hi * 65536 + lo) div 2 ^ 16 mod 256 = hi mod 256"
    "(hi * 65536 + lo) div 2 ^ 8 mod 256 = lo div 256" "(hi * 65536 + lo) mod 256 = lo mod 256"
proof -
  have lo: "0 \<le> lo" "lo < 65536" using assms by (auto simp: is_word_def)
  have "(hi * 65536 + lo) div 2 ^ 24 = (hi * 65536 + lo) div 65536 div 256" by (simp flip: zdiv_zmult2_eq)
  then show "(hi * 65536 + lo) div 2 ^ 24 = hi div 256" using lo by simp
  show "(hi * 65536 + lo) div 2 ^ 16 mod 256 = hi mod 256" using lo by simp
  have "(hi * 65536 + lo) div 256 = hi * 256 + lo div 256"
    using div_mult_self1 [of 256 lo "hi * 256"] by (simp add: algebra_simps)
  moreover have "0 \<le> lo div 256" "lo div 256 < 256" using lo by auto
  ultimately show "(hi * 65536 + lo) div 2 ^ 8 mod 256 = lo div 256" by simp
  show "(hi * 65536 + lo) mod 256 = lo mod 256"
    using mod_mult_self1 [of lo "hi * 256" 256] by (simp add: algebra_simps)
qed

lemma embedded_agrees:
  assumes "length ws = 8" "list_all is_word ws"
  shows "case embedded_ipv4_address ws of None \<Rightarrow> embedded_octets ws = None
    | Some quad \<Rightarrow> embedded_octets ws = ipv4_octets quad \<and> ipv4_octets quad \<noteq> None"
proof -
  obtain w0 w1 w2 w3 w4 w5 w6 w7 where ws: "ws = [w0, w1, w2, w3, w4, w5, w6, w7]"
    using assms(1) by (auto simp: numeral_eq_Suc length_Suc_conv)
  have words: "is_word w0" "is_word w1" "is_word w2" "is_word w6" "is_word w7" using assms(2) ws by auto
  have digits: "list_all (is_digit 16) ws" using assms(2) by (simp add: list_all_iff is_digit_word)
  have block: "in_block 16 ws (base, 96) \<longleftrightarrow> take 6 ws = take 6 base" if "length base = 8" "list_all is_word base" for base
    using in_block_aligned [of ws base 16 96 6] that assms(1) digits by (simp add: list_all_iff is_digit_word)
  have zero: "is_word 0" "is_word 0xffff" "is_word 0x64" "is_word 0xff9b" "is_word 0x2002" by (simp_all add: is_word_def)
  have low: "number_of 16 ws mod 2 ^ 32 = w6 * 65536 + w7"
    using number_of_prefix(2) [of 16 "[w6, w7]" "[w0, w1, w2, w3, w4, w5]"] ws digits by (simp add: number_of_def)
  have sixtofour: "in_block 16 ws ([0x2002, 0, 0, 0, 0, 0, 0, 0], 16) \<longleftrightarrow> w0 = 0x2002"
    using in_block_aligned [of ws "[0x2002, 0, 0, 0, 0, 0, 0, 0]" 16 16 1] digits zero ws by (simp add: is_digit_word)
  have "number_of 16 ws div 2 ^ 80 = number_of 16 [w0, w1, w2]"
    using number_of_prefix(1) [of 16 "[w3, w4, w5, w6, w7]" "[w0, w1, w2]"] ws digits by simp
  then have high: "number_of 16 ws div 2 ^ 80 mod 2 ^ 32 = w1 * 65536 + w2"
    using number_of_prefix(2) [of 16 "[w1, w2]" "[w0]"] digits ws by (simp add: number_of_def)
  have prefixes: "list_ex (in_block 16 ws) embedding_prefixes \<longleftrightarrow>
      list_all (\<lambda>w. w = 0) (take 6 ws) \<or> (list_all (\<lambda>w. w = 0) (take 5 ws) \<and> ws ! 5 = 0xffff)
      \<or> (list_all (\<lambda>w. w = 0) (take 4 ws) \<and> ws ! 4 = 0xffff \<and> ws ! 5 = 0) \<or> (ws ! 0 = 0x64 \<and> ws ! 1 = 0xff9b \<and> list_all (\<lambda>w. w = 0) (drop 2 (take 6 ws)))"
    by (simp add: embedding_prefixes_def block zero) (simp add: ws eval_nat_numeral)
  have "list_ex (in_block 16 ws) embedding_prefixes \<Longrightarrow> w0 \<noteq> 0x2002" using prefixes by (auto simp: ws)
  moreover have "embedded_ipv4_address ws = (if w0 = 0x2002 then Some (ipv4_from_hextets w1 w2)
      else if list_ex (in_block 16 ws) embedding_prefixes then Some (ipv4_from_hextets w6 w7) else None)"
    unfolding embedded_ipv4_address_def Let_def prefixes by (simp add: ws)
  moreover have "embedded_octets ws = (if list_ex (in_block 16 ws) embedding_prefixes then Some [w6 div 256, w6 mod 256, w7 div 256, w7 mod 256]
      else if w0 = 0x2002 then Some [w1 div 256, w1 mod 256, w2 div 256, w2 mod 256] else None)"
    unfolding embedded_octets_def Let_def sixtofour low high octets_of_pair [OF words(4,5)] octets_of_pair [OF words(2,3)] ..
  ultimately show ?thesis
    using ipv4_from_hextets_reads_back [OF words(4,5)] ipv4_from_hextets_reads_back [OF words(2,3)] by simp
qed

lemma outside_unicast:
  assumes "in_block 16 ws (base, bits)" "length base = 8" "3 \<le> bits" "bits \<le> 128" "number_of 16 base div 2 ^ 125 \<noteq> 1"
  shows "\<not> in_block 16 ws unicast"
  using assms(5) block_in_unicast [OF assms(1-4)] by simp

lemma classify_ipv6_public:
  assumes "ipv6_words (bare_hostname address) = Some ws"
  shows "classify_ipv6 address = Public \<longleftrightarrow> global_ipv6 ws"
proof -
  have ws: "length ws = 8" "list_all is_word ws" using ipv6_words_range [OF assms] by auto
  have parsed: "parse_ipv6_words address = Some ws" "ipv6_value address = Some (number_of 16 ws)"
    using assms by (simp_all add: parse_ipv6_words_eq ipv6_value_def words_value_number)
  show ?thesis
  proof (cases "embedded_ipv4_address ws")
    case (Some quad)
    then obtain os where os: "embedded_octets ws = Some os" "ipv4_octets quad = Some os" using embedded_agrees [OF ws] by auto
    have small: "\<not> global_ipv6 ws" if n: "number_of 16 ws = 0 \<or> number_of 16 ws = 1"
    proof -
      have "in_block 16 ws ([0, 0, 0, 0, 0, 0, 0, 0], 96)" using n by (auto simp: in_block_def number_of_def)
      then have "list_ex (in_block 16 ws) embedding_prefixes" by (simp add: embedding_prefixes_def)
      then have "os = [0, 0, 0, 0] \<or> os = [0, 0, 0, 1]" using os(1) n by (auto simp: embedded_octets_def Let_def)
      moreover have "\<not> global_ipv4 [0, 0, 0, 0]" "\<not> global_ipv4 [0, 0, 0, 1]" by code_simp+
      ultimately show ?thesis using os(1) by (auto simp: global_ipv6_def)
    qed
    then show ?thesis using classify_ipv4_public [OF os(2)] os(1) Some parsed
      by (auto simp: classify_ipv6_def global_ipv6_def)
  next
    case None
    then have none: "embedded_octets ws = None" using embedded_agrees [OF ws] by simp
    let ?v = "number_of 16 ws"
    have eight: "length [x0, x1, x2, x3, x4, x5, x6, x7 :: int] = 8" for x0 x1 x2 x3 x4 x5 x6 x7 by simp
    have small: "\<not> in_block 16 ws unicast" if "?v = 0 \<or> ?v = 1" using that by (auto simp: in_block_def number_of_def)
    have metadata: "\<not> in_block 16 ws unicast" if "Some ?v = ipv6_value ''fd00:ec2::254''"
      using that by (simp add: prefix_values in_block_def) (simp add: number_of_def)
    have private_range: "\<not> in_block 16 ws unicast" if "in_ipv6_range ?v ''fc00::'' 7"
      using that unfolding range_block [OF prefix_values(2) eight] by (rule outside_unicast) (simp_all add: number_of_def)
    have link_local: "\<not> in_block 16 ws unicast" if "in_ipv6_range ?v ''fe80::'' 10"
      using that unfolding range_block [OF prefix_values(3) eight] by (rule outside_unicast) (simp_all add: number_of_def)
    have forbidden: "list_ex (\<lambda>(pre, bits). in_ipv6_range ?v pre bits) forbidden_ipv6_ranges \<longleftrightarrow> list_ex (in_block 16 ws) special_ipv6"
      if "in_block 16 ws unicast"
    proof -
      have "\<not> in_block 16 ws ([0x64, 0xff9b, 1, 0, 0, 0, 0, 0], 48)" "\<not> in_block 16 ws ([0x100, 0, 0, 0, 0, 0, 0, 0], 64)"
        "\<not> in_block 16 ws ([0x5f00, 0, 0, 0, 0, 0, 0, 0], 16)" "\<not> in_block 16 ws ([0xfec0, 0, 0, 0, 0, 0, 0, 0], 10)"
        "\<not> in_block 16 ws ([0xff00, 0, 0, 0, 0, 0, 0, 0], 8)"
        by (rule notI, drule outside_unicast, simp_all add: number_of_def that)+
      then show ?thesis
        by (simp add: forbidden_ipv6_ranges_def special_ipv6_def range_block [OF prefix_values(5) eight] range_block [OF prefix_values(6) eight]
            range_block [OF prefix_values(7) eight] range_block [OF prefix_values(8) eight] range_block [OF prefix_values(9) eight]
            range_block [OF prefix_values(10) eight] range_block [OF prefix_values(11) eight] range_block [OF prefix_values(12) eight]
            range_block [OF prefix_values(13) eight] range_block [OF prefix_values(14) eight] range_block [OF prefix_values(15) eight] range_block [OF prefix_values(16) eight])
    qed
    have "in_ipv6_range ?v ''2000::'' 3 \<longleftrightarrow> in_block 16 ws unicast" by (simp add: range_block [OF prefix_values(4) eight])
    then show ?thesis using None none parsed small metadata private_range link_local forbidden
      by (simp add: classify_ipv6_def global_ipv6_def split: if_splits)
  qed
qed

lemma bracket_is_no_address:
  "hex_piece (CHR ''['' # p) = None" "ipv4_octets (CHR ''['' # p) = None"
proof -
  show "hex_piece (CHR ''['' # p) = None" by (simp add: hex_piece_def hex_digit_value_def)
  have "octet_piece (CHR ''['' # q) = None" for q by (simp add: octet_piece_def all_digits_def js_digit_def)
  then show "ipv4_octets (CHR ''['' # p) = None" by (auto simp: ipv4_octets_def Let_def split: list.splits)
qed

lemma bracket_side: "side_words dotted (colon_pieces (CHR ''['' # p)) = None"
proof -
  obtain y ys where "split_on CHR '':'' p = y # ys" by (cases "split_on CHR '':'' p") auto
  then have "colon_pieces (CHR ''['' # p) = (CHR ''['' # y) # ys" by (simp add: colon_pieces_def)
  then show ?thesis by (cases ys) (simp_all add: bracket_is_no_address)
qed

lemma ipv6_words_no_bracket: "ipv6_words (CHR ''['' # s) = None"
proof -
  obtain h hs where "split_double_colon (CHR ''['' # s) = (CHR ''['' # h) # hs"
    using split_double_colon_char [of "CHR ''[''" s] by (simp add: attach_def)
  then show ?thesis by (auto simp: ipv6_words_def bracket_side split: list.split)
qed

lemma bare_hostname_again:
  assumes "ipv6_words (bare_hostname a) \<noteq> None" shows "bare_hostname (bare_hostname a) = bare_hostname a"
proof -
  have lower: "to_lower_case (bare_hostname a) = bare_hostname a"
  proof -
    have "to_lower_case (butlast (tl (to_lower_case a))) = butlast (tl (to_lower_case a))"
      by (simp add: to_lower_case_def flip: map_tl map_butlast)
    then show ?thesis by (simp add: bare_hostname_def Let_def)
  qed
  have "\<not> js_starts_with ''['' (bare_hostname a)"
    using assms ipv6_words_no_bracket by (auto simp: js_starts_with_iff)
  then show ?thesis using lower by (simp add: bare_hostname_def [of "bare_hostname a"] Let_def)
qed

lemma public_iff_globally_routable: "classify_network_address address = Public \<longleftrightarrow> globally_routable address"
proof (cases "ipv4_octets (bare_hostname address)")
  case (Some os)
  then show ?thesis using classify_ipv4_public [OF Some]
    by (simp add: classify_network_address_def Let_def is_ip_def globally_routable_def)
next
  case None
  then show ?thesis
    using classify_ipv6_public [of "bare_hostname address"] bare_hostname_again [of address]
    by (cases "ipv6_words (bare_hostname address)")
       (simp_all add: classify_network_address_def Let_def is_ip_def globally_routable_def)
qed

text \<open>C27: An address is classified as public exactly when it is globally routable: an IPv4 address outside every special-purpose
  block, an IPv6 address that embeds such an IPv4 address, or one of the global unicast range outside every special-purpose
  block.  In particular no embedding, spelling or abbreviation makes a private IPv4 address pass.
\<close>

theorem public_means_globally_routable:
  "classify_network_address address = Public \<longleftrightarrow> globally_routable address"
  by (rule public_iff_globally_routable)

end
