(* ===== verification/Guarded_Fetch.thy ===== *)
theory Guarded_Fetch
  imports Network_Policy
begin

text \<open>
  The guarded fetch of \<^verbatim>\<open>src/sources/snapshot-fetchers/host-guard.ts\<close> over the retrying fetch of \<^verbatim>\<open>src/core/common.ts\<close>:
  the checks before every hop of a redirect chain, the headers each hop carries and the bound on the chain.  The URL
  parser, the resolver and the network are an environment; the lookups and requests are the trace.
\<close>

section \<open>The environment\<close>

record url =
  username :: string
  password :: string
  protocol :: string
  hostname :: string
  origin :: string

type_synonym headers = "(string \<times> string) list"

record request =
  request_url :: string
  request_headers :: headers
  redirect_manual :: bool

record response =
  response_status :: nat
  location_header :: "string option"

record 'w network =
  parse_url :: "string \<Rightarrow> url option"
  join_url :: "string \<Rightarrow> string \<Rightarrow> string option"
  lookup_addresses :: "string \<Rightarrow> 'w \<Rightarrow> string list option \<times> 'w"
  send_request :: "request \<Rightarrow> 'w \<Rightarrow> response option \<times> 'w"
  wait_before_retry :: "'w \<Rightarrow> 'w"
  is_aborted :: "'w \<Rightarrow> bool"

datatype event = Looked_Up string "string list option" | Sent request

datatype guard_error = Invalid_Url | Embedded_Credentials | Not_Http | Reserved_Hostname | Non_Public_Host | Resolution_Failed
  | No_Addresses | Non_Public_Address string | Too_Many_Redirects | No_Location | Fetch_Failed

section \<open>Fetching with retries\<close>

definition should_retry :: "nat \<Rightarrow> bool" where
  "should_retry s \<longleftrightarrow> s = 429 \<or> s \<ge> 500"

text \<open>The attempts left after this one; an abort ends the waiting and every later attempt.\<close>

primrec fetch_with_retry :: "'w network \<Rightarrow> request \<Rightarrow> nat \<Rightarrow> 'w \<Rightarrow> response option \<times> event list \<times> 'w" where
  "fetch_with_retry net rq 0 w = (case send_request net rq w of (answer, w) \<Rightarrow> (answer, [Sent rq], w))"
| "fetch_with_retry net rq (Suc n) w = (case send_request net rq w of (answer, w) \<Rightarrow>
     if (case answer of None \<Rightarrow> False | Some response \<Rightarrow> \<not> should_retry (response_status response)) then (answer, [Sent rq], w)
     else if answer = None \<and> is_aborted net w then (None, [Sent rq], w)
     else let w = wait_before_retry net w
       in if is_aborted net w then (None, [Sent rq], w)
          else case fetch_with_retry net rq n w of (result, es, w) \<Rightarrow> (result, Sent rq # es, w))"

section \<open>The guards\<close>

definition is_forbidden_website_hostname :: "bool \<Rightarrow> string \<Rightarrow> bool" where
  "is_forbidden_website_hostname allow_private host \<longleftrightarrow> \<not> allow_private \<and> classify_network_hostname host \<noteq> Public"

definition assert_website_request_url :: "'w network \<Rightarrow> bool \<Rightarrow> string \<Rightarrow> guard_error + url" where
  "assert_website_request_url net allow_private raw = (case parse_url net raw of
     None \<Rightarrow> Inl Invalid_Url
   | Some u \<Rightarrow>
       if username u \<noteq> '''' \<or> password u \<noteq> '''' then Inl Embedded_Credentials
       else if protocol u \<noteq> ''http:'' \<and> protocol u \<noteq> ''https:'' then Inl Not_Http
       else if js_ends_with ''.invalid'' (to_lower_case (hostname u)) then Inl Reserved_Hostname
       else if is_forbidden_website_hostname allow_private (to_lower_case (hostname u)) then Inl Non_Public_Host
       else Inr u)"

definition assert_resolved_host_allowed :: "'w network \<Rightarrow> bool \<Rightarrow> string \<Rightarrow> 'w \<Rightarrow> (guard_error + unit) \<times> event list \<times> 'w" where
  "assert_resolved_host_allowed net allow_private host w =
     (if allow_private then (Inr (), [], w)
      else let bare = bare_hostname (to_lower_case host); literal = classify_network_address bare
        in if literal \<noteq> Invalid then (if literal \<noteq> Public then Inl Non_Public_Host else Inr (), [], w)
           else case lookup_addresses net (bare_hostname bare) w of (answer, w) \<Rightarrow>
             (case answer of
                None \<Rightarrow> Inl Resolution_Failed
              | Some [] \<Rightarrow> Inl No_Addresses
              | Some addresses \<Rightarrow> (case find (\<lambda>a. classify_network_address a \<noteq> Public) addresses of
                  Some a \<Rightarrow> Inl (Non_Public_Address a) | None \<Rightarrow> Inr ()),
              [Looked_Up (bare_hostname bare) answer], w))"

section \<open>The chain of redirects\<close>

definition credential_header :: "string \<Rightarrow> bool" where
  "credential_header name \<longleftrightarrow> to_lower_case name \<in> {''authorization'', ''cookie'', ''proxy-authorization''}"

definition redirect_init :: "'w network \<Rightarrow> headers \<Rightarrow> string \<Rightarrow> string \<Rightarrow> headers" where
  "redirect_init net hs current next_url =
     (if map_option origin (parse_url net current) = map_option origin (parse_url net next_url) then hs
      else filter (\<lambda>(name, v). \<not> credential_header name) hs)"

definition max_guarded_redirects :: nat where
  "max_guarded_redirects = 8"

record guard_options =
  allow_private_hosts :: bool
  retry_limit :: nat

function fetch_guarded_response ::
  "'w network \<Rightarrow> guard_options \<Rightarrow> string \<Rightarrow> headers \<Rightarrow> nat \<Rightarrow> 'w \<Rightarrow> (guard_error + response \<times> string) \<times> event list \<times> 'w" where
  "fetch_guarded_response net opts url hs redirects w =
     (case assert_website_request_url net (allow_private_hosts opts) url of
        Inl e \<Rightarrow> (Inl e, [], w)
      | Inr u \<Rightarrow> (case assert_resolved_host_allowed net (allow_private_hosts opts) (hostname u) w of
          (Inl e, es, w) \<Rightarrow> (Inl e, es, w)
        | (Inr _, es, w) \<Rightarrow>
            (case fetch_with_retry net \<lparr>request_url = url, request_headers = hs, redirect_manual = True\<rparr> (retry_limit opts) w of
               (None, es', w) \<Rightarrow> (Inl Fetch_Failed, es @ es', w)
             | (Some response, es', w) \<Rightarrow>
                 if \<not> (300 \<le> response_status response \<and> response_status response < 400) then (Inr (response, url), es @ es', w)
                 else if redirects \<ge> max_guarded_redirects then (Inl Too_Many_Redirects, es @ es', w)
                 else (case location_header response of
                   None \<Rightarrow> (Inl No_Location, es @ es', w)
                 | Some location \<Rightarrow>
                     if location = '''' then (Inl No_Location, es @ es', w)
                     else (case join_url net location url of
                       None \<Rightarrow> (Inl Invalid_Url, es @ es', w)
                     | Some next_url \<Rightarrow>
                         (case fetch_guarded_response net opts next_url (redirect_init net hs url next_url) (Suc redirects) w of
                            (result, es'', w) \<Rightarrow> (result, es @ es' @ es'', w)))))))"
  by pat_completeness auto
termination
  by (relation "measure (\<lambda>(net, opts, url, hs, redirects, w). max_guarded_redirects - redirects)") auto

declare fetch_guarded_response.simps [simp del]

section \<open>What the trace promises\<close>

definition requests :: "event list \<Rightarrow> request list" where
  "requests es = concat (map (\<lambda>e. case e of Sent rq \<Rightarrow> [rq] | Looked_Up _ _ \<Rightarrow> []) es)"

lemma requests_simps [simp]:
  "requests [] = []" "requests (Sent rq # es) = rq # requests es" "requests (Looked_Up h a # es) = requests es"
  "requests (es @ es') = requests es @ requests es'" "requests (replicate n (Sent rq)) = replicate n rq"
  by (induction n) (simp_all add: requests_def)

text \<open>Names that stand for the machine itself, for cloud metadata or for nothing.\<close>

definition special_name :: "string \<Rightarrow> bool" where
  "special_name host \<longleftrightarrow> host \<in> {''metadata.google.internal'', ''metadata.goog'', ''localhost''}
     \<or> js_ends_with ''.localhost'' host \<or> js_ends_with ''.invalid'' host"

text \<open>What is demanded of a request: an http(s) URL without credentials whose host is a globally routable address, or a name
  that was looked up last and of whose addresses every one is globally routable.\<close>

definition request_allowed :: "'w network \<Rightarrow> (string \<times> string list) option \<Rightarrow> request \<Rightarrow> bool" where
  "request_allowed net looked rq = (case parse_url net (request_url rq) of
     None \<Rightarrow> False
   | Some u \<Rightarrow>
       let host = bare_hostname (to_lower_case (hostname u)) in
       redirect_manual rq \<and> username u = '''' \<and> password u = '''' \<and> (protocol u = ''http:'' \<or> protocol u = ''https:'')
       \<and> \<not> special_name host
       \<and> (globally_routable host \<or> (case looked of
            Some (h, addresses) \<Rightarrow> h = bare_hostname host \<and> addresses \<noteq> [] \<and> list_all globally_routable addresses
          | None \<Rightarrow> False)))"

fun guarded_trace :: "'w network \<Rightarrow> (string \<times> string list) option \<Rightarrow> event list \<Rightarrow> bool" where
  "guarded_trace net looked [] \<longleftrightarrow> True"
| "guarded_trace net looked (Looked_Up h answer # es) \<longleftrightarrow> guarded_trace net (map_option (Pair h) answer) es"
| "guarded_trace net looked (Sent rq # es) \<longleftrightarrow> request_allowed net looked rq \<and> guarded_trace net looked es"

definition origin_of :: "'w network \<Rightarrow> request \<Rightarrow> string option" where
  "origin_of net rq = map_option origin (parse_url net (request_url rq))"

definition carries_credentials :: "request \<Rightarrow> bool" where
  "carries_credentials rq = list_ex (\<lambda>(name, v). credential_header name) (request_headers rq)"

lemma guarded_trace_sent:
  "request_allowed net looked rq \<Longrightarrow> guarded_trace net looked (replicate n (Sent rq) @ es) \<longleftrightarrow> guarded_trace net looked es"
  by (induction n) auto

section \<open>One hop\<close>

lemma fetch_with_retry_sends:
  "fetch_with_retry net rq n w = (answer, es, w') \<Longrightarrow> \<exists>k \<le> n. es = replicate (Suc k) (Sent rq)"
proof (induction n arbitrary: w answer es w')
  case 0
  then show ?case by (auto split: prod.splits)
next
  case (Suc n)
  then consider "es = [Sent rq]" | w1 answer' es' w2 where "fetch_with_retry net rq n w1 = (answer', es', w2)" "es = Sent rq # es'"
    by (auto simp: Let_def split: prod.splits if_splits)
  then show ?case
  proof cases
    case 1
    then show ?thesis by (intro exI [of _ 0]) simp
  next
    case 2
    then obtain k where "k \<le> n" "es' = replicate (Suc k) (Sent rq)" using Suc.IH by blast
    then show ?thesis using 2 by (intro exI [of _ "Suc k"]) simp
  qed
qed

lemma public_hostname_not_special: "classify_network_hostname host = Public \<Longrightarrow> \<not> special_name (bare_hostname host)"
  by (auto simp: classify_network_hostname_def special_name_def Let_def split: if_splits)

text \<open>The lookups that admit a URL: after them its request is allowed.\<close>

definition admitted :: "'w network \<Rightarrow> string \<Rightarrow> event list \<Rightarrow> bool" where
  "admitted net url looked \<longleftrightarrow> requests looked = []
     \<and> (\<forall>before. \<exists>seen. (\<forall>es. guarded_trace net before (looked @ es) \<longleftrightarrow> guarded_trace net seen es)
          \<and> (\<forall>hs. request_allowed net seen \<lparr>request_url = url, request_headers = hs, redirect_manual = True\<rparr>))"

lemma resolved_host_no_requests: "assert_resolved_host_allowed net allow host w = (r, es, w') \<Longrightarrow> requests es = []"
  by (auto simp: assert_resolved_host_allowed_def Let_def split: if_splits prod.splits option.splits list.splits)

lemma guards_admit:
  assumes u: "assert_website_request_url net False url = Inr u"
    and host: "assert_resolved_host_allowed net False (hostname u) w = (Inr x, es, w')"
  shows "admitted net url es"
proof -
  let ?host = "bare_hostname (to_lower_case (hostname u))"
  have url: "parse_url net url = Some u" "username u = ''''" "password u = ''''" "protocol u = ''http:'' \<or> protocol u = ''https:''"
    "classify_network_hostname (to_lower_case (hostname u)) = Public"
    using u by (auto simp: assert_website_request_url_def is_forbidden_website_hostname_def split: option.splits if_splits)
  have name: "\<not> special_name ?host" using public_hostname_not_special [OF url(5)] .
  show ?thesis
  proof (cases "classify_network_address ?host = Invalid")
    case False
    then have "es = []" "globally_routable ?host"
      using host public_iff_globally_routable by (auto simp: assert_resolved_host_allowed_def Let_def split: if_splits)
    then show ?thesis using url name by (auto simp: admitted_def request_allowed_def)
  next
    case True
    then obtain addresses where addresses: "es = [Looked_Up (bare_hostname ?host) (Some addresses)]" "addresses \<noteq> []"
      "find (\<lambda>a. classify_network_address a \<noteq> Public) addresses = None"
      using host by (auto simp: assert_resolved_host_allowed_def Let_def split: prod.splits option.splits list.splits)
    then have "list_all globally_routable addresses"
      using public_iff_globally_routable by (auto simp: find_None_iff list_all_iff)
    then show ?thesis using url name addresses by (auto simp: admitted_def request_allowed_def)
  qed
qed

lemma fetch_hop:
  assumes fetch: "fetch_guarded_response net opts url hs redirects w = (result, es, w')" and public: "\<not> allow_private_hosts opts"
  obtains (refused) e where "result = Inl e" "requests es = []" "\<And>before. guarded_trace net before es"
  | (ended) looked k where "admitted net url looked" "k \<le> retry_limit opts"
      "es = looked @ replicate (Suc k) (Sent \<lparr>request_url = url, request_headers = hs, redirect_manual = True\<rparr>)"
      "case result of Inl _ \<Rightarrow> True | Inr (response, final) \<Rightarrow> final = url \<and> \<not> (300 \<le> response_status response \<and> response_status response < 400)"
  | (redirected) looked k next_url w1 rest where "admitted net url looked" "k \<le> retry_limit opts" "redirects < max_guarded_redirects"
      "es = looked @ replicate (Suc k) (Sent \<lparr>request_url = url, request_headers = hs, redirect_manual = True\<rparr>) @ rest"
      "fetch_guarded_response net opts next_url (redirect_init net hs url next_url) (Suc redirects) w1 = (result, rest, w')"
proof -
  let ?rq = "\<lparr>request_url = url, request_headers = hs, redirect_manual = True\<rparr>"
  have quiet: "guarded_trace net before es" if "requests es = []" for before es
    using that by (induction net before es rule: guarded_trace.induct) auto
  have step: "fetch_guarded_response net opts url hs redirects w = (result, es, w')" by (rule fetch)
  note step = step [unfolded fetch_guarded_response.simps [of net opts url]]
  show thesis
  proof (cases "assert_website_request_url net (allow_private_hosts opts) url")
    case (Inl e)
    then show ?thesis using step refused [of e] by simp
  next
    case (Inr u)
    obtain r es1 w1 where r: "assert_resolved_host_allowed net (allow_private_hosts opts) (hostname u) w = (r, es1, w1)"
      by (metis prod_cases3)
    show ?thesis
    proof (cases r)
      case (Inl e)
      then show ?thesis using step Inr r refused [of e] resolved_host_no_requests [OF r] quiet by auto
    next
      case (Inr x)
      then have admitted: "admitted net url es1" using guards_admit r \<open>assert_website_request_url _ _ _ = _\<close> public by simp
      obtain answer es2 w2 where answer: "fetch_with_retry net ?rq (retry_limit opts) w1 = (answer, es2, w2)" by (metis prod_cases3)
      obtain k where k: "k \<le> retry_limit opts" "es2 = replicate (Suc k) (Sent ?rq)" using fetch_with_retry_sends [OF answer] by blast
      note step = step [unfolded \<open>assert_website_request_url _ _ _ = _\<close> sum.case r Inr prod.case answer]
      have last_hop: thesis
        if "es = es1 @ es2" "case result of Inl _ \<Rightarrow> True | Inr (response, final) \<Rightarrow> final = url \<and> \<not> (300 \<le> response_status response \<and> response_status response < 400)"
        using ended [OF admitted k(1)] k(2) that by simp
      show ?thesis
      proof (cases answer)
        case None
        then show ?thesis using step last_hop by auto
      next
        case (Some response)
        note step = step [unfolded Some option.case]
        show ?thesis
        proof (cases "300 \<le> response_status response \<and> response_status response < 400 \<and> redirects < max_guarded_redirects")
          case False
          then show ?thesis using step last_hop by (auto split: if_splits)
        next
          case True
          then have limits: "\<not> \<not> (300 \<le> response_status response \<and> response_status response < 400)" "\<not> redirects \<ge> max_guarded_redirects"
            by auto
          note step = step [unfolded if_not_P [OF limits(1)] if_not_P [OF limits(2)]]
          show ?thesis
          proof (cases "case location_header response of None \<Rightarrow> None | Some location \<Rightarrow> if location = '''' then None else join_url net location url")
            case None
            then show ?thesis using step last_hop by (auto split: option.splits if_splits)
          next
            case (Some next_url)
            then obtain location where location: "location_header response = Some location" "location \<noteq> ''''" "join_url net location url = Some next_url"
              by (auto split: option.splits if_splits)
            obtain result' rest w3 where rest:
              "fetch_guarded_response net opts next_url (redirect_init net hs url next_url) (Suc redirects) w2 = (result', rest, w3)"
              by (metis prod_cases3)
            then have "result' = result" "w3 = w'" "es = es1 @ es2 @ rest" using step location by auto
            then show ?thesis using redirected [OF admitted k(1)] rest k(2) True by simp
          qed
        qed
      qed
    qed
  qed
qed

section \<open>The whole chain\<close>

lemma redirect_init_credentials:
  "map_option origin (parse_url net url) \<noteq> map_option origin (parse_url net next_url) \<Longrightarrow>
    \<not> list_ex (\<lambda>(name, v). credential_header name) (redirect_init net hs url next_url)"
  "\<not> list_ex (\<lambda>(name, v). credential_header name) hs \<Longrightarrow> \<not> list_ex (\<lambda>(name, v). credential_header name) (redirect_init net hs url next_url)"
  by (auto simp: redirect_init_def list_ex_iff)

lemma admitted_trace:
  assumes "admitted net url looked" "\<And>seen. guarded_trace net seen es"
  shows "guarded_trace net before (looked @ replicate n (Sent \<lparr>request_url = url, request_headers = hs, redirect_manual = True\<rparr>) @ es)"
proof -
  obtain seen where "\<forall>es. guarded_trace net before (looked @ es) \<longleftrightarrow> guarded_trace net seen es"
    "request_allowed net seen \<lparr>request_url = url, request_headers = hs, redirect_manual = True\<rparr>"
    using assms(1) unfolding admitted_def by meson
  then show ?thesis using assms(2) by (simp add: guarded_trace_sent)
qed

definition chain_ok :: "'w network \<Rightarrow> guard_options \<Rightarrow> string \<Rightarrow> headers \<Rightarrow> nat \<Rightarrow> (guard_error + response \<times> string) \<Rightarrow> event list \<Rightarrow> bool" where
  "chain_ok net opts url hs redirects result es \<longleftrightarrow>
     (\<forall>before. guarded_trace net before es)
     \<and> length (requests es) \<le> (Suc max_guarded_redirects - redirects) * Suc (retry_limit opts)
     \<and> (\<not> list_ex (\<lambda>(name, v). credential_header name) hs \<longrightarrow> list_all (\<lambda>rq. \<not> carries_credentials rq) (requests es))
     \<and> list_all (\<lambda>rq. \<not> carries_credentials rq)
         (dropWhile (\<lambda>rq. origin_of net rq = map_option origin (parse_url net url)) (requests es))
     \<and> (case result of Inl _ \<Rightarrow> True | Inr (response, final) \<Rightarrow>
          requests es \<noteq> [] \<and> final = request_url (last (requests es)) \<and> \<not> (300 \<le> response_status response \<and> response_status response < 400))"

lemma fetch_chain_ok:
  assumes "\<not> allow_private_hosts opts"
  shows "redirects \<le> max_guarded_redirects \<Longrightarrow>
    fetch_guarded_response net opts url hs redirects w = (result, es, w') \<Longrightarrow> chain_ok net opts url hs redirects result es"
proof (induction "max_guarded_redirects - redirects" arbitrary: redirects url hs w es rule: less_induct)
  case less
  let ?rq = "\<lparr>request_url = url, request_headers = hs, redirect_manual = True\<rparr>"
  have own: "origin_of net ?rq = map_option origin (parse_url net url)"
    "carries_credentials ?rq \<longleftrightarrow> list_ex (\<lambda>(name, v). credential_header name) hs"
    by (simp_all add: origin_of_def carries_credentials_def)
  from less.prems(2) assms show ?case
  proof (cases rule: fetch_hop)
    case (refused e)
    then show ?thesis by (simp add: chain_ok_def)
  next
    case (ended looked k)
    have "requests looked = []" using ended(1) by (simp add: admitted_def)
    moreover have "Suc k \<le> (Suc max_guarded_redirects - redirects) * Suc (retry_limit opts)"
      using ended(2) less.prems(1) by (cases "Suc max_guarded_redirects - redirects") auto
    moreover have "guarded_trace net before es" for before
      using admitted_trace [OF ended(1), of "[]" before "Suc k" hs] unfolding ended(3) append_Nil2 by (simp only: guarded_trace.simps)
    ultimately show ?thesis using ended(3,4) own
      by (auto simp: chain_ok_def dropWhile_eq_Nil_conv[THEN iffD2] list_all_iff split: sum.splits dest: set_dropWhileD)
  next
    case (redirected looked k next_url w1 rest)
    have shorter: "max_guarded_redirects - Suc redirects < max_guarded_redirects - redirects" "Suc redirects \<le> max_guarded_redirects"
      using redirected(3) by auto
    have IH: "chain_ok net opts next_url (redirect_init net hs url next_url) (Suc redirects) result rest"
      by (rule less.hyps [OF shorter redirected(5)])
    have reqs: "requests es = replicate (Suc k) ?rq @ requests rest"
      using redirected(1,4) by (simp add: admitted_def)
    have trace: "guarded_trace net before es" for before
      unfolding redirected(4) using redirected(1) IH by (intro admitted_trace) (auto simp: chain_ok_def)
    define hops where "hops = Suc max_guarded_redirects - Suc redirects"
    have "Suc max_guarded_redirects - redirects = Suc hops" using redirected(3) by (simp add: hops_def)
    moreover have "length (requests rest) \<le> hops * Suc (retry_limit opts)" using IH by (simp only: chain_ok_def hops_def)
    ultimately have count: "length (requests es) \<le> (Suc max_guarded_redirects - redirects) * Suc (retry_limit opts)"
      using redirected(2) reqs by simp
    have none: "list_all (\<lambda>rq. \<not> carries_credentials rq) (requests es)" if "\<not> list_ex (\<lambda>(name, v). credential_header name) hs"
      using that IH own reqs redirect_init_credentials(2) [OF that] by (auto simp: chain_ok_def list_all_iff)
    have drop: "dropWhile (\<lambda>rq. origin_of net rq = map_option origin (parse_url net url)) (requests es)
      = dropWhile (\<lambda>rq. origin_of net rq = map_option origin (parse_url net url)) (requests rest)"
      unfolding reqs using own by (subst dropWhile_append2) auto
    have later: "list_all (\<lambda>rq. \<not> carries_credentials rq) (dropWhile (\<lambda>rq. origin_of net rq = map_option origin (parse_url net url)) (requests es))"
    proof (cases "map_option origin (parse_url net url) = map_option origin (parse_url net next_url)")
      case True
      then show ?thesis unfolding drop using IH by (simp only: chain_ok_def)
    next
      case False
      then have "list_all (\<lambda>rq. \<not> carries_credentials rq) (requests rest)"
        using IH redirect_init_credentials(1) by (auto simp: chain_ok_def)
      then show ?thesis unfolding drop by (auto simp: list_all_iff dest: set_dropWhileD)
    qed
    have "case result of Inl _ \<Rightarrow> True | Inr (response, final) \<Rightarrow>
        requests es \<noteq> [] \<and> final = request_url (last (requests es)) \<and> \<not> (300 \<le> response_status response \<and> response_status response < 400)"
      using IH reqs by (auto simp: chain_ok_def split: sum.splits)
    then show ?thesis using trace count none later by (simp only: chain_ok_def) blast
  qed
qed


text \<open>A chain from one host to a second and on to a name with a private address: two requests, the second without the cookie.\<close>

definition example_network :: "nat network" where
  "example_network = \<lparr>
     parse_url = (\<lambda>s. if s \<in> {''http://a.test/'', ''http://b.test/'', ''http://c.test/''}
       then Some \<lparr>username = '''', password = '''', protocol = ''http:'', hostname = take 6 (drop 7 s), origin = take 13 s\<rparr> else None),
     join_url = (\<lambda>location base. Some location),
     lookup_addresses = (\<lambda>host w. (Some [if host = ''c.test'' then ''10.0.0.1'' else ''8.8.8.8''], w)),
     send_request = (\<lambda>rq w. (Some \<lparr>response_status = 302, location_header = Some (if request_url rq = ''http://a.test/'' then ''http://b.test/'' else ''http://c.test/'')\<rparr>, Suc w)),
     wait_before_retry = (\<lambda>w. w), is_aborted = (\<lambda>w. False)\<rparr>"

definition example_options :: guard_options where
  "example_options = \<lparr>allow_private_hosts = False, retry_limit = 1\<rparr>"


end
