(* ===== verification/Crash_Monad.thy ===== *)
theory Crash_Monad
  imports Main
begin

text \<open>
  Programs that run against a durable store and may stop at any moment.  A program is a function from the store
  to an outcome and the store it leaves: it returned, it threw, or the process died.  The machine carries the
  number of durable steps it still survives; each durable step is announced by \<open>step_durably\<close>, which dies when
  none is left, so quantifying over that number is quantifying over the moment of the crash.  A
  thrown error can be caught, a crash cannot.
\<close>

named_theorems prog_wp \<open>weakest preconditions of programs\<close>

datatype 'a outcome = Done 'a | Threw string | Crashed

record machine =
  steps_left :: nat

type_synonym ('a, 'w) prog = "'w \<Rightarrow> 'a outcome \<times> 'w"

definition ret :: "'a \<Rightarrow> ('a, 'w) prog" where
  "ret a = (\<lambda>w. (Done a, w))"

definition raise :: "string \<Rightarrow> ('a, 'w) prog" where
  "raise e = (\<lambda>w. (Threw e, w))"

definition andthen :: "('a, 'w) prog \<Rightarrow> ('a \<Rightarrow> ('b, 'w) prog) \<Rightarrow> ('b, 'w) prog" where
  "andthen m k = (\<lambda>w. case m w of
     (Done a, w') \<Rightarrow> k a w'
   | (Threw e, w') \<Rightarrow> (Threw e, w')
   | (Crashed, w') \<Rightarrow> (Crashed, w'))"

definition catching :: "('a, 'w) prog \<Rightarrow> (string \<Rightarrow> ('a, 'w) prog) \<Rightarrow> ('a, 'w) prog" where
  "catching m h = (\<lambda>w. case m w of
     (Done a, w') \<Rightarrow> (Done a, w')
   | (Threw e, w') \<Rightarrow> h e w'
   | (Crashed, w') \<Rightarrow> (Crashed, w'))"

definition reading :: "('w \<Rightarrow> 'a) \<Rightarrow> ('a, 'w) prog" where
  "reading f = (\<lambda>w. (Done (f w), w))"

definition changing :: "('w \<Rightarrow> 'w) \<Rightarrow> (unit, 'w) prog" where
  "changing f = (\<lambda>w. (Done (), f w))"

definition step_durably :: "('m machine_scheme \<Rightarrow> 'm machine_scheme) \<Rightarrow> (unit, 'm machine_scheme) prog" where
  "step_durably f = (\<lambda>w. if steps_left w = 0 then (Crashed, w)
     else (Done (), f (w\<lparr>steps_left := steps_left w - 1\<rparr>)))"

fun for_each :: "'x list \<Rightarrow> ('x \<Rightarrow> (unit, 'w) prog) \<Rightarrow> (unit, 'w) prog" where
  "for_each [] f = ret ()"
| "for_each (x # xs) f = andthen (f x) (\<lambda>_. for_each xs f)"

text \<open>The monad laws.\<close>

lemma andthen_assoc: "andthen (andthen m f) g = andthen m (\<lambda>a. andthen (f a) g)"
  by (auto simp: andthen_def fun_eq_iff split: prod.splits outcome.splits)

lemma andthen_ret: "andthen (ret a) f = f a" "andthen m ret = m"
  by (auto simp: andthen_def ret_def fun_eq_iff split: prod.splits outcome.splits)

lemma andthen_raise: "andthen (raise e) f = raise e"
  by (simp add: andthen_def raise_def)

lemmas prog_laws = andthen_assoc andthen_ret andthen_raise

section \<open>Weakest preconditions\<close>

definition wp :: "('a, 'w) prog \<Rightarrow> ('a outcome \<Rightarrow> 'w \<Rightarrow> bool) \<Rightarrow> 'w \<Rightarrow> bool" where
  "wp m Q w \<longleftrightarrow> (case m w of (r, w') \<Rightarrow> Q r w')"

definition on_done :: "('a \<Rightarrow> 'w \<Rightarrow> bool) \<Rightarrow> ('b outcome \<Rightarrow> 'w \<Rightarrow> bool) \<Rightarrow> 'a outcome \<Rightarrow> 'w \<Rightarrow> bool" where
  "on_done k Q r w = (case r of Done a \<Rightarrow> k a w | Threw e \<Rightarrow> Q (Threw e) w | Crashed \<Rightarrow> Q Crashed w)"

definition on_throw :: "(string \<Rightarrow> 'w \<Rightarrow> bool) \<Rightarrow> ('a outcome \<Rightarrow> 'w \<Rightarrow> bool) \<Rightarrow> 'a outcome \<Rightarrow> 'w \<Rightarrow> bool" where
  "on_throw h Q r w = (case r of Done a \<Rightarrow> Q (Done a) w | Threw e \<Rightarrow> h e w | Crashed \<Rightarrow> Q Crashed w)"

lemma on_done_simps [simp]:
  "on_done k Q (Done a) w = k a w"
  "on_done k Q (Threw e) w = Q (Threw e) w"
  "on_done k Q Crashed w = Q Crashed w"
  by (simp_all add: on_done_def)

lemma on_throw_simps [simp]:
  "on_throw h Q (Done a) w = Q (Done a) w"
  "on_throw h Q (Threw e) w = h e w"
  "on_throw h Q Crashed w = Q Crashed w"
  by (simp_all add: on_throw_def)

text \<open>
  The continuation of a program is looked at only once the program before it has been evaluated; without
  these congruences the simplifier would work through every continuation for an unknown store first.
\<close>

lemma wp_cong [cong]: "m = m' \<Longrightarrow> w = w' \<Longrightarrow> wp m Q w = wp m' Q w'"
  by simp

lemma andthen_cong [cong]: "m = m' \<Longrightarrow> andthen m k = andthen m' k"
  by simp

lemma catching_cong [cong]: "m = m' \<Longrightarrow> catching m h = catching m' h"
  by simp

lemma on_done_cong [cong]: "r = r' \<Longrightarrow> w = w' \<Longrightarrow> on_done k Q r w = on_done k Q r' w'"
  by simp

lemma on_throw_cong [cong]: "r = r' \<Longrightarrow> w = w' \<Longrightarrow> on_throw h Q r w = on_throw h Q r' w'"
  by simp

lemma wp_ret [prog_wp]: "wp (ret a) Q w \<longleftrightarrow> Q (Done a) w"
  by (simp add: wp_def ret_def)

lemma wp_raise [prog_wp]: "wp (raise e) Q w \<longleftrightarrow> Q (Threw e) w"
  by (simp add: wp_def raise_def)

lemma wp_andthen [prog_wp]: "wp (andthen m k) Q w \<longleftrightarrow> wp m (on_done (\<lambda>a. wp (k a) Q) Q) w"
  by (simp add: wp_def andthen_def on_done_def split: prod.splits outcome.splits)

lemma wp_catching [prog_wp]: "wp (catching m h) Q w \<longleftrightarrow> wp m (on_throw (\<lambda>e. wp (h e) Q) Q) w"
  by (simp add: wp_def catching_def on_throw_def split: prod.splits outcome.splits)

lemma wp_reading [prog_wp]: "wp (reading f) Q w \<longleftrightarrow> Q (Done (f w)) w"
  by (simp add: wp_def reading_def)

lemma wp_changing [prog_wp]: "wp (changing f) Q w \<longleftrightarrow> Q (Done ()) (f w)"
  by (simp add: wp_def changing_def)

lemma wp_step_durably [prog_wp]:
  "wp (step_durably f) Q w \<longleftrightarrow>
     (if steps_left w = 0 then Q Crashed w else Q (Done ()) (f (w\<lparr>steps_left := steps_left w - 1\<rparr>)))"
  by (simp add: wp_def step_durably_def)

lemma wp_if [prog_wp]: "wp (if b then m else m') Q w \<longleftrightarrow> (if b then wp m Q w else wp m' Q w)"
  by simp

lemma wp_case_option [prog_wp]:
  "wp (case x of None \<Rightarrow> m | Some a \<Rightarrow> f a) Q w \<longleftrightarrow> (case x of None \<Rightarrow> wp m Q w | Some a \<Rightarrow> wp (f a) Q w)"
  by (simp split: option.splits)

lemma wp_case_prod [prog_wp]: "wp (case x of (a, b) \<Rightarrow> f a b) Q w = (case x of (a, b) \<Rightarrow> wp (f a b) Q w)"
  by (simp split: prod.split)

lemma wp_mono: "wp m Q w \<Longrightarrow> (\<And>r w'. Q r w' \<Longrightarrow> R r w') \<Longrightarrow> wp m R w"
  by (auto simp: wp_def split: prod.splits)

lemma wp_conj: "wp m Q w \<Longrightarrow> wp m R w \<Longrightarrow> wp m (\<lambda>r w. Q r w \<and> R r w) w"
  by (auto simp: wp_def split: prod.splits)

lemma wp_result: "wp m Q w \<Longrightarrow> m w = (r, w') \<Longrightarrow> Q r w'"
  by (simp add: wp_def)

lemma wp_run: "(\<And>r w'. m w = (r, w') \<Longrightarrow> Q r w') \<Longrightarrow> wp m Q w"
  by (cases "m w") (simp add: wp_def)

section \<open>Runs that survive a crash\<close>

text \<open>
  The price of a run in durable steps: what it may have used up, or what it would have needed.  \<open>runs_within\<close> says
  that a run never throws, takes at most \<open>k\<close> steps, leaves a store with \<open>done\<close> when it returns, and one with
  \<open>crash\<close> wherever it dies.
\<close>

definition costs :: "nat \<Rightarrow> 'm machine_scheme \<Rightarrow> 'a outcome \<Rightarrow> 'm machine_scheme \<Rightarrow> bool" where
  "costs k w r w' \<longleftrightarrow> (if r = Crashed then steps_left w < k else steps_left w \<le> steps_left w' + k)"

definition runs_within ::
  "nat \<Rightarrow> ('a, 'm machine_scheme) prog \<Rightarrow> ('m machine_scheme \<Rightarrow> bool) \<Rightarrow> ('a \<Rightarrow> 'm machine_scheme \<Rightarrow> bool) \<Rightarrow>
   'm machine_scheme \<Rightarrow> bool" where
  "runs_within k m crash done w \<longleftrightarrow>
     wp m (\<lambda>r w'. costs k w r w' \<and> (case r of Done a \<Rightarrow> done a w' | Crashed \<Rightarrow> crash w' | Threw e \<Rightarrow> False)) w"

lemma runs_within_ret: "done a w \<Longrightarrow> runs_within k (ret a) crash done w"
  by (simp add: runs_within_def prog_wp costs_def)

lemma runs_within_andthen:
  assumes "runs_within k m crash mid w" "\<And>a w'. mid a w' \<Longrightarrow> runs_within l (f a) crash done w'"
  shows "runs_within (k + l) (andthen m f) crash done w"
proof (cases "m w")
  case (Pair r w')
  then show ?thesis
  proof (cases r)
    case (Done a)
    then have c: "steps_left w \<le> steps_left w' + k" and "mid a w'"
      using assms(1) Pair by (auto simp: runs_within_def wp_def costs_def)
    then have "runs_within l (f a) crash done w'" using assms(2) by blast
    then show ?thesis using Pair Done c
      unfolding runs_within_def wp_def andthen_def costs_def
      by (cases "f a w'") (auto split: outcome.splits if_splits)
  qed (use assms(1) Pair in \<open>auto simp: runs_within_def wp_def andthen_def costs_def\<close>)
qed

lemma runs_within_returning:
  "runs_within k m crash (\<lambda>_. done x) w \<Longrightarrow> runs_within k (andthen m (\<lambda>_. ret x)) crash done w"
  unfolding runs_within_def wp_def andthen_def ret_def costs_def
  by (cases "m w") (auto split: outcome.splits)

lemma runs_within_mapping:
  "runs_within k m crash (\<lambda>a. done (f a)) w \<Longrightarrow> runs_within k (andthen m (\<lambda>a. ret (f a))) crash done w"
  unfolding runs_within_def wp_def andthen_def ret_def costs_def
  by (cases "m w") (auto split: outcome.splits)

lemma runs_within_at: "m w = m' w \<Longrightarrow> runs_within k m' crash done w \<Longrightarrow> runs_within k m crash done w"
  by (simp add: runs_within_def wp_def)

lemma runs_within_mono:
  assumes "runs_within k m crash done w" "k \<le> l" "\<And>w'. crash w' \<Longrightarrow> crash' w'" "\<And>a w'. done a w' \<Longrightarrow> done' a w'"
  shows "runs_within l m crash' done' w"
  using assms unfolding runs_within_def wp_def costs_def
  by (auto split: prod.splits outcome.splits)

lemma runs_within_step:
  assumes "crash w" "steps_left w > 0 \<Longrightarrow> done () (f (w\<lparr>steps_left := steps_left w - 1\<rparr>))"
    "\<And>v. steps_left (f v) = steps_left v"
  shows "runs_within 1 (step_durably f) crash done w"
  using assms by (auto simp: runs_within_def costs_def prog_wp)

lemma runs_within_more: "runs_within k m crash done w \<Longrightarrow> k \<le> l \<Longrightarrow> runs_within l m crash done w"
  by (rule runs_within_mono)

text \<open>With enough steps left the run returns; with fewer it may also die.\<close>

lemma runs_within_returns:
  assumes "runs_within k m crash done w" "k \<le> steps_left w"
  obtains a w' where "m w = (Done a, w')" "done a w'" "steps_left w \<le> steps_left w' + k"
  using assms unfolding runs_within_def wp_def costs_def
  by (cases "m w") (auto split: outcome.splits)

lemma runs_within_result:
  assumes "runs_within k m crash done w" "m w = (r, w')"
  shows "(\<exists>a. r = Done a \<and> done a w') \<or> r = Crashed \<and> crash w'"
  using assms unfolding runs_within_def wp_def by (auto split: outcome.splits)

text \<open>
  What a program keeps: a relation between the store before and after, whatever the outcome, and a fact on the
  value it returns.
\<close>

definition keeps :: "('w \<Rightarrow> 'w \<Rightarrow> bool) \<Rightarrow> ('a \<Rightarrow> bool) \<Rightarrow> ('a, 'w) prog \<Rightarrow> bool" where
  "keeps rel ok m \<longleftrightarrow> (\<forall>w r w'. m w = (r, w') \<longrightarrow> rel w w' \<and> (\<forall>a. r = Done a \<longrightarrow> ok a))"

lemma keepsD: "keeps rel ok m \<Longrightarrow> m w = (r, w') \<Longrightarrow> rel w w'"
  by (auto simp: keeps_def)

lemma keeps_value: "keeps rel ok m \<Longrightarrow> m w = (Done a, w') \<Longrightarrow> ok a"
  by (auto simp: keeps_def)

lemma keeps_weaken: "keeps rel ok m \<Longrightarrow> (\<And>a. ok a \<Longrightarrow> ok' a) \<Longrightarrow> keeps rel ok' m"
  by (auto simp: keeps_def)

locale kept_relation =
  fixes rel :: "'w \<Rightarrow> 'w \<Rightarrow> bool"
  assumes rel_refl: "rel w w"
    and rel_trans: "rel u v \<Longrightarrow> rel v w \<Longrightarrow> rel u w"
begin

lemma keeps_ret: "ok a \<Longrightarrow> keeps rel ok (ret a)"
  by (simp add: keeps_def ret_def rel_refl)

lemma keeps_raise: "keeps rel ok (raise e)"
  by (simp add: keeps_def raise_def rel_refl)

lemma keeps_reading: "keeps rel (\<lambda>_. True) (reading f)"
  by (simp add: keeps_def reading_def rel_refl)

lemma keeps_andthen:
  assumes "keeps rel mid m" "\<And>a. mid a \<Longrightarrow> keeps rel ok (k a)"
  shows "keeps rel ok (andthen m k)"
  unfolding keeps_def
proof (intro allI impI)
  fix w r w'
  assume run: "andthen m k w = (r, w')"
  obtain x v where m: "m w = (x, v)" by fastforce
  have "rel w v" using assms(1) m by (rule keepsD)
  then show "rel w w' \<and> (\<forall>a. r = Done a \<longrightarrow> ok a)"
  proof (cases x)
    case (Done a)
    then have "mid a" "k a v = (r, w')" using keeps_value [OF assms(1)] m run by (auto simp: andthen_def)
    then show ?thesis using \<open>rel w v\<close> keepsD [OF assms(2)] keeps_value [OF assms(2)] rel_trans by blast
  qed (use m run \<open>rel w v\<close> in \<open>auto simp: andthen_def\<close>)
qed

lemma keeps_catching:
  assumes "keeps rel ok m" "\<And>e. keeps rel ok (h e)"
  shows "keeps rel ok (catching m h)"
  unfolding keeps_def
proof (intro allI impI)
  fix w r w'
  assume run: "catching m h w = (r, w')"
  obtain x v where m: "m w = (x, v)" by fastforce
  have "rel w v" using assms(1) m by (rule keepsD)
  then show "rel w w' \<and> (\<forall>a. r = Done a \<longrightarrow> ok a)"
  proof (cases x)
    case (Threw e)
    then have "h e v = (r, w')" using m run by (simp add: catching_def)
    then show ?thesis using \<open>rel w v\<close> keepsD [OF assms(2)] keeps_value [OF assms(2)] rel_trans by blast
  qed (use m run \<open>rel w v\<close> keeps_value [OF assms(1)] in \<open>auto simp: catching_def\<close>)
qed

lemma keeps_for_each: "(\<And>x. keeps rel (\<lambda>_. True) (f x)) \<Longrightarrow> keeps rel (\<lambda>_. True) (for_each xs f)"
  by (induction xs) (auto intro: keeps_andthen keeps_ret)

end

lemma keeps_step_durably:
  assumes "\<And>w. rel w w" "\<And>w n. rel w (f (w\<lparr>steps_left := n\<rparr>))"
  shows "keeps rel (\<lambda>_. True) (step_durably f)"
  using assms by (simp add: keeps_def step_durably_def)

end
