(* ===== verification/Posix_Path.thy ===== *)
theory Posix_Path
  imports Js_Prelude
begin

text \<open>
  The functions of Node's \<open>path.posix\<close> that the program calls, on the strings of the prelude: \<open>isAbsolute\<close>,
  \<open>normalize\<close>, \<open>resolve\<close> against a given working directory, and \<open>relative\<close>.  Paths are read segment by
  segment, the way Node's \<open>normalizeString\<close> scans them: empty and \<open>.\<close> segments are skipped and \<open>..\<close>
  removes the segment before it, or stays when the path is relative and there is none.
\<close>

named_theorems posix_path \<open>facts on the path functions\<close>

definition is_absolute :: "string \<Rightarrow> bool" where
  "is_absolute p \<longleftrightarrow> js_starts_with ''/'' p"

text \<open>One segment of \<open>normalizeString\<close>; the stack holds the kept segments, last one first.\<close>

definition norm_segment :: "bool \<Rightarrow> string list \<Rightarrow> string \<Rightarrow> string list" where
  "norm_segment allow_above stack seg =
     (if seg = '''' \<or> seg = ''.'' then stack
      else if seg = ''..'' then
        (case stack of
           [] \<Rightarrow> (if allow_above then [''..''] else [])
         | prev # rest \<Rightarrow> (if prev = ''..'' then (if allow_above then ''..'' # stack else stack) else rest))
      else seg # stack)"

definition norm_segments :: "bool \<Rightarrow> string list \<Rightarrow> string list" where
  "norm_segments allow_above segs = rev (foldl (norm_segment allow_above) [] segs)"

definition posix_normalize :: "string \<Rightarrow> string" where
  "posix_normalize p =
     (if p = '''' then ''.''
      else
        (let absolute = is_absolute p;
             trailing = js_ends_with ''/'' p;
             body = join_with ''/'' (norm_segments (\<not> absolute) (split_on CHR ''/'' p))
         in if body = '''' then (if absolute then ''/'' else if trailing then ''./'' else ''.'')
            else (if absolute then ''/'' else '''') @ body @ (if trailing then ''/'' else '''')))"

text \<open>\<open>resolve(cwd, p)\<close> as the list of segments of the absolute result, and \<open>relative\<close> on two such lists:
  the segments that remain after the common prefix, behind one \<open>..\<close> for every segment to leave.\<close>

definition resolve_segs :: "string list \<Rightarrow> string \<Rightarrow> string list" where
  "resolve_segs cwd p =
     (if is_absolute p then norm_segments False (split_on CHR ''/'' p)
      else norm_segments False (cwd @ split_on CHR ''/'' p))"

fun relative_segs :: "string list \<Rightarrow> string list \<Rightarrow> string list" where
  "relative_segs (f # fs) (t # ts) =
     (if f = t then relative_segs fs ts
      else replicate (length (f # fs)) ''..'' @ t # ts)"
| "relative_segs fs ts = replicate (length fs) ''..'' @ ts"

text \<open>
  \<open>dirname\<close>: everything before the last slash that is followed by something, never counting a slash at
  position 0 as a separator.
\<close>

definition posix_dirname :: "string \<Rightarrow> string" where
  "posix_dirname p =
     (if p = '''' then ''.''
      else (case dropWhile (\<lambda>c. c \<noteq> CHR ''/'') (dropWhile (\<lambda>c. c = CHR ''/'') (rev (tl p))) of
              [] \<Rightarrow> (if is_absolute p then ''/'' else ''.'')
            | slash # front \<Rightarrow>
                (if front = [] \<and> is_absolute p then ''//'' else hd p # rev front)))"

section \<open>Plain segments\<close>

text \<open>A segment that names an entry: not empty, not \<open>.\<close> or \<open>..\<close>, no slash.\<close>

definition plain_seg :: "string \<Rightarrow> bool" where
  "plain_seg s \<longleftrightarrow> s \<noteq> '''' \<and> s \<noteq> ''.'' \<and> s \<noteq> ''..'' \<and> CHR ''/'' \<notin> set s"

lemma norm_segment_plain: "plain_seg s \<Longrightarrow> norm_segment allow_above st s = s # st"
  by (simp add: norm_segment_def plain_seg_def)

lemma norm_segment_empty [simp]: "norm_segment allow_above st '''' = st"
  by (simp add: norm_segment_def)

lemma foldl_norm_segment_plain:
  "\<forall>s \<in> set segs. s = '''' \<or> plain_seg s \<Longrightarrow>
     foldl (norm_segment allow_above) st segs = rev (List.filter (\<lambda>s. s \<noteq> '''') segs) @ st"
proof (induction segs arbitrary: st)
  case Nil
  then show ?case by simp
next
  case (Cons s segs)
  then show ?case
    by (cases "s = ''''") (simp_all add: norm_segment_plain)
qed

lemma norm_segments_plain [posix_path]:
  "\<forall>s \<in> set segs. s = '''' \<or> plain_seg s \<Longrightarrow>
     norm_segments allow_above segs = List.filter (\<lambda>s. s \<noteq> '''') segs"
  by (simp add: norm_segments_def foldl_norm_segment_plain)

text \<open>An absolute path resolves to plain segments only.\<close>

lemma norm_segment_keeps_plain:
  assumes "\<forall>s \<in> set st. plain_seg s" and "CHR ''/'' \<notin> set seg"
  shows "\<forall>s \<in> set (norm_segment False st seg). plain_seg s"
proof (cases st)
  case Nil
  with assms show ?thesis by (auto simp: norm_segment_def plain_seg_def)
next
  case (Cons prev rest)
  with assms have "prev \<noteq> ''..''" by (auto simp: plain_seg_def)
  with assms Cons show ?thesis by (auto simp: norm_segment_def plain_seg_def)
qed

lemma foldl_norm_segment_keeps_plain:
  "\<forall>s \<in> set st. plain_seg s \<Longrightarrow> \<forall>s \<in> set segs. CHR ''/'' \<notin> set s \<Longrightarrow>
     \<forall>s \<in> set (foldl (norm_segment False) st segs). plain_seg s"
proof (induction segs arbitrary: st)
  case Nil
  then show ?case by simp
next
  case (Cons s segs)
  have "\<forall>u \<in> set (norm_segment False st s). plain_seg u"
    by (rule norm_segment_keeps_plain) (use Cons.prems in auto)
  with Cons show ?case by simp
qed

lemma resolve_segs_plain:
  assumes "\<forall>s \<in> set cwd. plain_seg s"
  shows "\<forall>s \<in> set (resolve_segs cwd p). plain_seg s"
proof -
  have sp: "\<forall>s \<in> set (split_on CHR ''/'' p). CHR ''/'' \<notin> set s"
    by (auto dest: split_on_no_sep)
  moreover have "\<forall>s \<in> set cwd. CHR ''/'' \<notin> set s"
    using assms by (auto simp: plain_seg_def)
  ultimately have both: "\<forall>s \<in> set (cwd @ split_on CHR ''/'' p). CHR ''/'' \<notin> set s" by auto
  have keep: "\<forall>s \<in> set segs. CHR ''/'' \<notin> set s \<Longrightarrow> \<forall>s \<in> set (norm_segments False segs). plain_seg s"
    for segs
    using foldl_norm_segment_keeps_plain [of "[]" segs] by (simp add: norm_segments_def)
  from keep [OF sp] keep [OF both] show ?thesis by (simp add: resolve_segs_def)
qed

section \<open>Containment\<close>

text \<open>\<open>relative\<close> has no leading \<open>..\<close> exactly when the second path lies below the first.\<close>

lemma relative_segs_append [simp]: "relative_segs ps (ps @ qs) = qs"
  by (induction ps) simp_all

lemma relative_segs_below:
  assumes "\<forall>s \<in> set ts. s \<noteq> ''..''"
  shows "(relative_segs fs ts = [] \<or> hd (relative_segs fs ts) \<noteq> ''..'') \<longleftrightarrow> (\<exists>qs. ts = fs @ qs)"
  using assms
proof (induction fs ts rule: relative_segs.induct, goal_cases)
  case (1 f fs t ts)
  then show ?case by (cases "f = t") auto
next
  case (2 ts)
  then show ?case by (cases ts) auto
next
  case (3 fs)
  then show ?case by (cases fs) auto
qed

end
