(* ===== verification/Website_Crawl.thy ===== *)
theory Website_Crawl
  imports Robots Guarded_Fetch Crash_Monad Posix_Path "HOL-Library.While_Combinator"
begin

text \<open>
  The website crawl of \<^verbatim>\<open>src/sources/snapshot-fetchers/website-ingest.ts\<close>: the fetch of a page along its redirects, the
  load of robots.txt, the decision between the normalized and the raw form of a URL, the manifest \<^verbatim>\<open>llms.txt\<close> and the loop
  over the queue with its delays and its deadline.  The URL parser, the network, the clock and the extraction of text and
  links from a page are an environment; lookups, requests, loads, pauses and the pages fetched are the trace.
\<close>

section \<open>The environment\<close>

record page_url = url +
  page_path :: string
  page_query :: string
  page_hash :: string

datatype body_failure = Too_Large | Body_Failed

text \<open>A link of a page is given by the text of its URL.\<close>

record website_page =
  page_address :: string
  page_title :: string
  page_markdown :: string

record 'w web =
  read_url :: "string \<Rightarrow> page_url option"
  write_url :: "page_url \<Rightarrow> string"
  resolve_url :: "string \<Rightarrow> string \<Rightarrow> string option"
  web_lookup :: "string \<Rightarrow> 'w \<Rightarrow> string list option \<times> 'w"
  web_send :: "request \<Rightarrow> 'w \<Rightarrow> response option \<times> 'w"
  web_wait :: "'w \<Rightarrow> 'w"
  web_aborted :: "'w \<Rightarrow> bool"
  web_body :: "response \<Rightarrow> int \<Rightarrow> 'w \<Rightarrow> (body_failure + string) \<times> 'w"
  web_clock :: "'w \<Rightarrow> int \<times> 'w"
  web_pause :: "int \<Rightarrow> 'w \<Rightarrow> 'w"
  render_page :: "response \<Rightarrow> string \<Rightarrow> string \<Rightarrow> website_page \<times> string list"

definition web_network :: "'w web \<Rightarrow> 'w network" where
  "web_network web = \<lparr>parse_url = (\<lambda>t. map_option url.truncate (read_url web t)), join_url = resolve_url web,
     lookup_addresses = web_lookup web, send_request = web_send web, wait_before_retry = web_wait web, is_aborted = web_aborted web\<rparr>"

definition url_target :: "'w web \<Rightarrow> string \<Rightarrow> target_url option" where
  "url_target web t = map_option (\<lambda>u. \<lparr>url_pathname = page_path u, url_search = page_query u\<rparr>) (read_url web t)"

definition url_origin :: "'w web \<Rightarrow> string \<Rightarrow> string option" where
  "url_origin web t = map_option origin (read_url web t)"

datatype robots_fetch_outcome = Robots_Body string | Unavailable | Unreachable

datatype crawl_event =
  Robots_Net event | Page_Net event | Robots_Loaded string robots_fetch_outcome | Paused int | Page_Started string

record 'w crawl_world =
  outside :: 'w
  robots_cache :: "(string \<times> robots_rule_set) list"
  trace :: "crawl_event list"

type_synonym ('a, 'w) crawl = "('a, 'w crawl_world) prog"

definition net_action :: "(event \<Rightarrow> crawl_event) \<Rightarrow> ('w \<Rightarrow> 'a \<times> event list \<times> 'w) \<Rightarrow> ('a, 'w) crawl" where
  "net_action tag f = (\<lambda>s. case f (outside s) of (a, es, w) \<Rightarrow> (Done a, s\<lparr>outside := w, trace := trace s @ map tag es\<rparr>))"

definition outside_action :: "('w \<Rightarrow> 'a \<times> 'w) \<Rightarrow> ('a, 'w) crawl" where
  "outside_action f = (\<lambda>s. case f (outside s) of (a, w) \<Rightarrow> (Done a, s\<lparr>outside := w\<rparr>))"

definition emit :: "crawl_event \<Rightarrow> (unit, 'w) crawl" where
  "emit e = changing (\<lambda>s. s\<lparr>trace := trace s @ [e]\<rparr>)"

text \<open>\<open>Date.now()\<close> and \<open>sleep\<close>.\<close>

definition now_ms :: "'w web \<Rightarrow> (int, 'w) crawl" where
  "now_ms web = outside_action (web_clock web)"

definition sleep_ms :: "'w web \<Rightarrow> int \<Rightarrow> (unit, 'w) crawl" where
  "sleep_ms web ms = andthen (emit (Paused ms)) (\<lambda>_. changing (\<lambda>s. s\<lparr>outside := web_pause web ms (outside s)\<rparr>))"

section \<open>Options and constants\<close>

record crawl_options =
  max_pages :: nat
  max_depth :: nat
  respect_robots :: bool
  allow_private :: bool
  wall_clock_cap_ms :: "int option"
  crawl_timeout_ms :: "int option option"
  raw_start_url :: "string option"

definition website_max_redirects :: nat where "website_max_redirects = 8"
definition queue_expansion_factor :: nat where "queue_expansion_factor = 5"
definition max_crawl_deferrals :: nat where "max_crawl_deferrals = 3"
definition website_crawl_wall_clock_ms :: int where "website_crawl_wall_clock_ms = 600000"
definition robots_byte_cap :: int where "robots_byte_cap = 524288"
definition website_page_byte_cap :: int where "website_page_byte_cap = 5242880"
definition llms_txt_byte_cap :: int where "llms_txt_byte_cap = 524288"

definition robots_disallowed_redirect :: string where
  "robots_disallowed_redirect = ''RobotsDisallowedRedirectError''"

text \<open>The errors of the guards, told apart from the one above.\<close>

definition guard_failure :: "guard_error \<Rightarrow> string" where
  "guard_failure e = (case e of
     Invalid_Url \<Rightarrow> ''Invalid URL'' | Resolution_Failed \<Rightarrow> ''Failed to resolve host'' | No_Addresses \<Rightarrow> ''No addresses''
   | Non_Public_Address a \<Rightarrow> ''Refusing to fetch: host resolves to '' @ a | _ \<Rightarrow> ''Unsafe URL'')"

section \<open>One page along its redirects\<close>

definition page_headers :: headers where
  "page_headers = [(''Accept'', ''text/html, text/markdown, text/plain;q=0.9, application/xhtml+xml;q=0.8''),
     (''User-Agent'', ''akm-cli website provider'')]"

text \<open>The checks and the request of one hop: the response, or where it redirects to.\<close>

definition website_hop :: "'w web \<Rightarrow> bool \<Rightarrow> (event \<Rightarrow> crawl_event) \<Rightarrow> bool \<Rightarrow> string \<Rightarrow> (response + string, 'w) crawl" where
  "website_hop web private tag further url =
     (case assert_website_request_url (web_network web) private url of
        Inl e \<Rightarrow> raise (guard_failure e)
      | Inr u \<Rightarrow> andthen (net_action tag (assert_resolved_host_allowed (web_network web) private (hostname u))) (\<lambda>checked.
          case checked of
            Inl e \<Rightarrow> raise (guard_failure e)
          | Inr _ \<Rightarrow> andthen (net_action tag (fetch_with_retry (web_network web)
                \<lparr>request_url = url, request_headers = page_headers, redirect_manual = True\<rparr> 1)) (\<lambda>answer.
              case answer of
                None \<Rightarrow> raise ''Fetch failed''
              | Some response \<Rightarrow>
                  if \<not> (300 \<le> response_status response \<and> response_status response < 400) then ret (Inl response)
                  else if \<not> further then raise ''Too many redirects''
                  else (case location_header response of
                      None \<Rightarrow> raise ''Redirect without Location''
                    | Some location \<Rightarrow>
                        if location = '''' then raise ''Redirect without Location''
                        else (case resolve_url web location url of
                            None \<Rightarrow> raise ''Invalid URL'' | Some next_url \<Rightarrow> ret (Inr next_url))))))"

definition strip_trailing_slashes :: "string \<Rightarrow> string" where
  "strip_trailing_slashes p = (let q = rev (dropWhile (\<lambda>c. c = CHR ''/'') (rev p)) in if q = '''' then ''/'' else q)"

text \<open>Assigning \<open>hash\<close> and \<open>pathname\<close>; an empty path of an http(s) URL reads as a slash.\<close>

definition normalized_parts :: "page_url \<Rightarrow> page_url" where
  "normalized_parts u = (let v = u\<lparr>page_hash := ''''\<rparr> in
     if page_path u \<noteq> ''/'' \<and> js_ends_with ''/'' (page_path u) then v\<lparr>page_path := strip_trailing_slashes (page_path u)\<rparr> else v)"

definition normalize_crawl_url :: "'w web \<Rightarrow> string \<Rightarrow> string option" where
  "normalize_crawl_url web raw = (case read_url web raw of
     None \<Rightarrow> None
   | Some u \<Rightarrow> if protocol u \<noteq> ''http:'' \<and> protocol u \<noteq> ''https:'' then None else Some (write_url web (normalized_parts u)))"

definition normalize_site_url :: "'w web \<Rightarrow> string \<Rightarrow> string option" where
  "normalize_site_url web raw = map_option (\<lambda>u. write_url web (normalized_parts u)) (read_url web raw)"

text \<open>The checks of a redirect target; with a policy, whatever is wrong with it means that the page is skipped.\<close>

definition redirect_gate :: "'w web \<Rightarrow> bool \<Rightarrow> (string \<Rightarrow> string \<Rightarrow> (bool, 'w) crawl) option \<Rightarrow> string \<Rightarrow> (unit, 'w) crawl" where
  "redirect_gate web private robots next_url =
     (case assert_website_request_url (web_network web) private next_url of
        Inl e \<Rightarrow> (case robots of Some check \<Rightarrow> raise robots_disallowed_redirect | None \<Rightarrow> raise (guard_failure e))
      | Inr _ \<Rightarrow> (case robots of
          None \<Rightarrow> ret ()
        | Some check \<Rightarrow> (case normalize_crawl_url web next_url of
            None \<Rightarrow> raise robots_disallowed_redirect
          | Some normalized \<Rightarrow> andthen (check normalized next_url) (\<lambda>ok.
              if ok then ret () else raise robots_disallowed_redirect))))"

text \<open>The number is how many redirects may still be followed.\<close>

primrec fetch_website_response ::
  "'w web \<Rightarrow> bool \<Rightarrow> (event \<Rightarrow> crawl_event) \<Rightarrow> (string \<Rightarrow> string \<Rightarrow> (bool, 'w) crawl) option \<Rightarrow> nat \<Rightarrow> string \<Rightarrow>
   (response \<times> string, 'w) crawl" where
  "fetch_website_response web private tag robots 0 page = andthen (website_hop web private tag False page) (\<lambda>hop.
     case hop of Inl response \<Rightarrow> ret (response, page) | Inr next_url \<Rightarrow> raise ''Too many redirects'')"
| "fetch_website_response web private tag robots (Suc n) page = andthen (website_hop web private tag True page) (\<lambda>hop.
     case hop of
       Inl response \<Rightarrow> ret (response, page)
     | Inr next_url \<Rightarrow> andthen (redirect_gate web private robots next_url) (\<lambda>_.
         fetch_website_response web private tag robots n next_url))"

section \<open>Robots\<close>

definition load_robots_txt :: "'w web \<Rightarrow> bool \<Rightarrow> string \<Rightarrow> (robots_fetch_outcome, 'w) crawl" where
  "load_robots_txt web private robots_url =
     (case assert_website_request_url (web_network web) private robots_url of
        Inl e \<Rightarrow> raise (guard_failure e)
      | Inr u \<Rightarrow> andthen (net_action Robots_Net (assert_resolved_host_allowed (web_network web) private (hostname u))) (\<lambda>checked.
          case checked of
            Inl e \<Rightarrow> raise (guard_failure e)
          | Inr _ \<Rightarrow> catching
              (andthen (fetch_website_response web private Robots_Net None website_max_redirects robots_url) (\<lambda>(response, final_url).
                 if 200 \<le> response_status response \<and> response_status response < 300 then
                   andthen (outside_action (web_body web response robots_byte_cap)) (\<lambda>body. case body of
                     Inr txt \<Rightarrow> ret (Robots_Body txt) | Inl Too_Large \<Rightarrow> ret Unavailable | Inl Body_Failed \<Rightarrow> raise ''Body failed'')
                 else ret Unavailable))
              (\<lambda>e. andthen (reading (\<lambda>s. web_aborted web (outside s))) (\<lambda>aborted. if aborted then raise e else ret Unavailable))))"

definition outcome_to_rule_set :: "robots_fetch_outcome \<Rightarrow> robots_rule_set" where
  "outcome_to_rule_set outcome = (case outcome of
     Robots_Body txt \<Rightarrow> parse_robots_txt txt | Unavailable \<Rightarrow> allow_all_rules | Unreachable \<Rightarrow> disallow_all_rules)"

text \<open>The policy of a crawl: one load per origin, kept unless it fails; or no policy at all.\<close>

definition rules_for_origin :: "'w web \<Rightarrow> bool \<Rightarrow> string \<Rightarrow> (robots_rule_set, 'w) crawl" where
  "rules_for_origin web private from = andthen (reading (\<lambda>s. map_of (robots_cache s) from)) (\<lambda>cached. case cached of
     Some rules \<Rightarrow> ret rules
   | None \<Rightarrow> (case resolve_url web ''/robots.txt'' from of
       None \<Rightarrow> raise ''Invalid URL''
     | Some robots_url \<Rightarrow> andthen (load_robots_txt web private robots_url) (\<lambda>outcome.
         andthen (changing (\<lambda>s. s\<lparr>robots_cache := (from, outcome_to_rule_set outcome) # robots_cache s,
                                 trace := trace s @ [Robots_Loaded from outcome]\<rparr>)) (\<lambda>_.
           ret (outcome_to_rule_set outcome)))))"

definition rules_for :: "'w web \<Rightarrow> crawl_options \<Rightarrow> bool \<Rightarrow> string \<Rightarrow> (robots_rule_set, 'w) crawl" where
  "rules_for web opts private url =
     (if \<not> respect_robots opts then ret allow_all_rules
      else case url_origin web url of None \<Rightarrow> raise ''Invalid URL'' | Some from \<Rightarrow> rules_for_origin web private from)"

definition robots_crawl_delay_ms :: "'w web \<Rightarrow> crawl_options \<Rightarrow> bool \<Rightarrow> string \<Rightarrow> (int, 'w) crawl" where
  "robots_crawl_delay_ms web opts private url =
     andthen (rules_for web opts private url) (\<lambda>rules. ret (case crawl_delay_ms rules of Some ms \<Rightarrow> ms | None \<Rightarrow> 0))"

text \<open>The normalized form is asked first; a raw form that differs may forbid it, or be fetched in its place.\<close>

definition decide_robots_allowance :: "'w web \<Rightarrow> robots_rule_set \<Rightarrow> string \<Rightarrow> string option \<Rightarrow> bool \<times> string" where
  "decide_robots_allowance web rules normalized raw =
     (let normalized_allowed = is_path_allowed_by_robots (url_target web) rules normalized in
      case raw of
        None \<Rightarrow> (normalized_allowed, normalized)
      | Some r \<Rightarrow>
          if r = '''' \<or> r = normalized then (normalized_allowed, normalized)
          else let raw_allowed = is_path_allowed_by_robots (url_target web) rules r
            in if \<not> normalized_allowed \<and> raw_allowed then (True, r) else (normalized_allowed \<and> raw_allowed, normalized))"

definition resolve_crawl_robots_decision :: "'w web \<Rightarrow> crawl_options \<Rightarrow> bool \<Rightarrow> string \<Rightarrow> string option \<Rightarrow> (bool \<times> string, 'w) crawl" where
  "resolve_crawl_robots_decision web opts private normalized raw =
     andthen (rules_for web opts private normalized) (\<lambda>rules. ret (decide_robots_allowance web rules normalized raw))"

definition is_crawl_url_allowed :: "'w web \<Rightarrow> crawl_options \<Rightarrow> bool \<Rightarrow> string \<Rightarrow> string \<Rightarrow> (bool, 'w) crawl" where
  "is_crawl_url_allowed web opts private normalized raw =
     andthen (resolve_crawl_robots_decision web opts private normalized (Some raw)) (\<lambda>(allowed, fetch_url). ret allowed)"

definition assert_start_url_allowed :: "'w web \<Rightarrow> crawl_options \<Rightarrow> bool \<Rightarrow> string \<Rightarrow> (unit, 'w) crawl" where
  "assert_start_url_allowed web opts private start_url =
     andthen (rules_for web opts private start_url) (\<lambda>rules.
       if disallow_all rules then raise ''Refusing to crawl: robots.txt returned a server error''
       else let raw = (case raw_start_url opts of
                None \<Rightarrow> None | Some r \<Rightarrow> if r = '''' then None else map_option (write_url web) (read_url web r))
         in if fst (decide_robots_allowance web rules start_url raw) then ret () else raise ''Refusing to crawl: disallowed'')"

section \<open>A page\<close>

definition website_page_from_response :: "'w web \<Rightarrow> crawl_options \<Rightarrow> bool \<Rightarrow> response \<Rightarrow> string \<Rightarrow> string \<Rightarrow>
    ((website_page \<times> string list) option, 'w) crawl" where
  "website_page_from_response web opts private response raw_final_url page =
     (if \<not> (200 \<le> response_status response \<and> response_status response < 300) then
        (if response_status response = 404 then ret None else raise ''Failed to fetch website content'')
      else andthen (outside_action (web_body web response website_page_byte_cap)) (\<lambda>answer. case answer of
          Inl Too_Large \<Rightarrow> ret None
        | Inl Body_Failed \<Rightarrow> raise ''Body failed''
        | Inr body \<Rightarrow>
            let final_url = (case normalize_crawl_url web raw_final_url of Some n \<Rightarrow> n | None \<Rightarrow> page) in
            (case assert_website_request_url (web_network web) private final_url of
               Inl e \<Rightarrow> raise (guard_failure e)
             | Inr _ \<Rightarrow> andthen (is_crawl_url_allowed web opts private final_url raw_final_url) (\<lambda>ok.
                 if \<not> ok then ret None
                 else (case render_page web response body final_url of (p, links) \<Rightarrow> ret (Some (p\<lparr>page_address := final_url\<rparr>, links)))))))"

definition fetch_website_page :: "'w web \<Rightarrow> crawl_options \<Rightarrow> bool \<Rightarrow> string \<Rightarrow> ((website_page \<times> string list) option, 'w) crawl" where
  "fetch_website_page web opts private page =
     andthen
       (catching
         (andthen (fetch_website_response web private Page_Net (Some (is_crawl_url_allowed web opts private)) website_max_redirects page)
            (\<lambda>r. ret (Some r)))
         (\<lambda>e. if e = robots_disallowed_redirect then ret None else raise e))
       (\<lambda>fetched. case fetched of
          None \<Rightarrow> ret None | Some (response, final_url) \<Rightarrow> website_page_from_response web opts private response final_url page)"

section \<open>The manifest\<close>

text \<open>\<open>match(/^-\s*\[[^\]]*\]\(([^)\s]+)\)/)\<close>: the target of a list item.\<close>

definition list_item_target :: "string \<Rightarrow> string option" where
  "list_item_target line = (case line of
     c # cs \<Rightarrow> if c \<noteq> CHR ''-'' then None
       else (case dropWhile js_space cs of
           b # label \<Rightarrow> if b \<noteq> CHR ''['' then None
             else (case dropWhile (\<lambda>c. c \<noteq> CHR '']'') label of
                 close # p # target \<Rightarrow> if p \<noteq> CHR ''('' then None
                   else (let href = takeWhile (\<lambda>c. c \<noteq> CHR '')'' \<and> \<not> js_space c) target; rest = drop (length href) target in
                     if href = '''' \<or> rest = '''' \<or> hd rest \<noteq> CHR '')'' then None else Some href)
               | _ \<Rightarrow> None)
         | [] \<Rightarrow> None)
   | [] \<Rightarrow> None)"

fun parse_llms_lines :: "'w web \<Rightarrow> string \<Rightarrow> string list \<Rightarrow> string list \<Rightarrow> string list" where
  "parse_llms_lines web base seen [] = []"
| "parse_llms_lines web base seen (line # lines) =
     (case list_item_target (js_trim line) of
        None \<Rightarrow> parse_llms_lines web base seen lines
      | Some href \<Rightarrow> (case resolve_url web href base of
          None \<Rightarrow> parse_llms_lines web base seen lines
        | Some key \<Rightarrow> (case read_url web key of
            None \<Rightarrow> parse_llms_lines web base seen lines
          | Some u \<Rightarrow>
              if protocol u \<noteq> ''http:'' \<and> protocol u \<noteq> ''https:'' \<or> key \<in> set seen then parse_llms_lines web base seen lines
              else key # parse_llms_lines web base (key # seen) lines)))"

text \<open>The lines are trimmed one by one, so that a carriage return before a line feed goes away there.\<close>

definition parse_llms_txt_links :: "'w web \<Rightarrow> string \<Rightarrow> string \<Rightarrow> string list" where
  "parse_llms_txt_links web txt base = parse_llms_lines web base [] (split_on CHR 0x0A txt)"

definition is_origin_root_url :: "page_url \<Rightarrow> bool" where
  "is_origin_root_url u \<longleftrightarrow> page_path u = ''/'' \<and> page_query u = ''''"

definition fetch_llms_manifest :: "'w web \<Rightarrow> crawl_options \<Rightarrow> bool \<Rightarrow> string \<Rightarrow> (string list option, 'w) crawl" where
  "fetch_llms_manifest web opts private from = (case resolve_url web ''/llms.txt'' from of
     None \<Rightarrow> raise ''Invalid URL''
   | Some manifest_url \<Rightarrow> andthen (resolve_crawl_robots_decision web opts private manifest_url None) (\<lambda>(allowed, fetch_url).
       if \<not> allowed then ret None
       else andthen
         (catching
           (andthen (fetch_website_response web private Page_Net (Some (is_crawl_url_allowed web opts private)) website_max_redirects fetch_url)
              (\<lambda>r. ret (Some r)))
           (\<lambda>e. ret None))
         (\<lambda>fetched. case fetched of
            None \<Rightarrow> ret None
          | Some (response, final_url) \<Rightarrow>
              if \<not> (200 \<le> response_status response \<and> response_status response < 300) then ret None
              else andthen (outside_action (web_body web response llms_txt_byte_cap)) (\<lambda>body. case body of
                  Inl failure \<Rightarrow> ret None
                | Inr txt \<Rightarrow> let links = parse_llms_txt_links web txt final_url in if links = [] then ret None else ret (Some links)))))"

section \<open>The crawl\<close>

record crawl_entry =
  entry_url :: string
  entry_raw :: string
  entry_depth :: nat
  entry_deferrals :: nat

record crawl_progress =
  queue :: "crawl_entry list"
  visited :: "string list"
  pages :: "website_page list"
  fetch_attempts :: nat
  deferred :: "string list"
  unfetched :: "string list"

definition asset_extensions :: "string list" where
  "asset_extensions = [''.css'', ''.js'', ''.json'', ''.png'', ''.jpg'', ''.jpeg'', ''.gif'', ''.svg'', ''.ico'', ''.webp'',
     ''.pdf'', ''.zip'', ''.tar'', ''.gz'', ''.mp4'', ''.mp3'', ''.woff'', ''.woff2'']"

definition is_asset_like_path :: "string \<Rightarrow> bool" where
  "is_asset_like_path p = list_ex (\<lambda>ext. js_ends_with ext (to_lower_case p)) asset_extensions"

text \<open>The links of a page that join the queue, up to the bound on queue and pages.\<close>

fun enqueue_links :: "'w web \<Rightarrow> crawl_options \<Rightarrow> string \<Rightarrow> nat \<Rightarrow> string list \<Rightarrow> crawl_progress \<Rightarrow> crawl_progress" where
  "enqueue_links web opts allowed_origin depth [] p = p"
| "enqueue_links web opts allowed_origin depth (link # links) p =
     (if length (queue p) + length (pages p) \<ge> max_pages opts * queue_expansion_factor then p
      else (case read_url web link of
          None \<Rightarrow> enqueue_links web opts allowed_origin depth links p
        | Some u \<Rightarrow>
            if origin u \<noteq> allowed_origin then enqueue_links web opts allowed_origin depth links p
            else (case normalize_crawl_url web link of
                None \<Rightarrow> enqueue_links web opts allowed_origin depth links p
              | Some candidate \<Rightarrow>
                  if candidate \<in> set (visited p) \<or> is_asset_like_path (page_path u)
                  then enqueue_links web opts allowed_origin depth links p
                  else enqueue_links web opts allowed_origin depth links
                    (p\<lparr>queue := queue p @ [\<lparr>entry_url = candidate, entry_raw = link, entry_depth = depth + 1, entry_deferrals = 0\<rparr>]\<rparr>))))"

definition manifest_entries :: "'w web \<Rightarrow> crawl_options \<Rightarrow> string \<Rightarrow> string list \<Rightarrow> crawl_entry list" where
  "manifest_entries web opts allowed_origin links = List.map_filter (\<lambda>link.
     if url_origin web link \<noteq> Some allowed_origin then None
     else map_option (\<lambda>candidate. \<lparr>entry_url = candidate, entry_raw = link, entry_depth = max_depth opts, entry_deferrals = 0\<rparr>)
       (normalize_crawl_url web link)) links"

definition past :: "int \<Rightarrow> int option \<Rightarrow> bool" where
  "past t deadline = (case deadline of None \<Rightarrow> False | Some d \<Rightarrow> t > d)"

definition does_not_fit :: "int \<Rightarrow> int \<Rightarrow> int option \<Rightarrow> bool" where
  "does_not_fit t ms deadline = (case deadline of None \<Rightarrow> False | Some d \<Rightarrow> t + ms \<ge> d)"

text \<open>The fetch of a URL that was admitted, and what it adds.\<close>

definition crawl_page :: "'w web \<Rightarrow> crawl_options \<Rightarrow> bool \<Rightarrow> string \<Rightarrow> crawl_entry \<Rightarrow> string \<Rightarrow> string \<Rightarrow> crawl_progress \<Rightarrow>
    (bool \<times> crawl_progress, 'w) crawl" where
  "crawl_page web opts private allowed_origin entry normalized fetch_url p =
     (let p = p\<lparr>visited := normalized # visited p, deferred := removeAll normalized (deferred p), fetch_attempts := fetch_attempts p + 1\<rparr> in
      andthen (emit (Page_Started normalized)) (\<lambda>_.
      andthen (fetch_website_page web opts private fetch_url) (\<lambda>fetched. case fetched of
          None \<Rightarrow> ret (True, p)
        | Some (page, links) \<Rightarrow>
            let p = p\<lparr>pages := pages p @ [page]\<rparr> in
            ret (True, if entry_depth entry \<ge> max_depth opts then p
                       else enqueue_links web opts allowed_origin (entry_depth entry) links p))))"

text \<open>The delay before a fetch that is not the first: it is waited for, or the entry goes to the back of the queue.\<close>

definition crawl_paced :: "'w web \<Rightarrow> crawl_options \<Rightarrow> bool \<Rightarrow> string \<Rightarrow> int option \<Rightarrow> crawl_entry \<Rightarrow> string \<Rightarrow> string \<Rightarrow> crawl_progress \<Rightarrow>
    (bool \<times> crawl_progress, 'w) crawl" where
  "crawl_paced web opts private allowed_origin deadline entry normalized fetch_url p =
     (if fetch_attempts p = 0 then crawl_page web opts private allowed_origin entry normalized fetch_url p
      else andthen (robots_crawl_delay_ms web opts private normalized) (\<lambda>delay.
        if \<not> delay > 0 then crawl_page web opts private allowed_origin entry normalized fetch_url p
        else andthen (now_ms web) (\<lambda>t.
          if does_not_fit t delay deadline then
            ret (True, if entry_deferrals entry < max_crawl_deferrals
              then p\<lparr>queue := queue p @ [entry\<lparr>entry_deferrals := entry_deferrals entry + 1\<rparr>], deferred := normalized # removeAll normalized (deferred p)\<rparr>
              else p\<lparr>unfetched := normalized # removeAll normalized (unfetched p)\<rparr>)
          else andthen (sleep_ms web delay) (\<lambda>_. crawl_page web opts private allowed_origin entry normalized fetch_url p))))"

text \<open>One turn of the loop; the flag says whether the loop goes on.\<close>

definition crawl_turn :: "'w web \<Rightarrow> crawl_options \<Rightarrow> bool \<Rightarrow> string \<Rightarrow> int option \<Rightarrow> crawl_progress \<Rightarrow> (bool \<times> crawl_progress, 'w) crawl" where
  "crawl_turn web opts private allowed_origin deadline p = andthen (now_ms web) (\<lambda>t.
     if past t deadline then ret (False, p)
     else (case queue p of
         [] \<Rightarrow> ret (False, p)
       | entry # rest \<Rightarrow>
           let p = p\<lparr>queue := rest\<rparr> in
           (case normalize_crawl_url web (entry_url entry) of
              None \<Rightarrow> ret (True, p)
            | Some normalized \<Rightarrow>
                if normalized \<in> set (visited p) then ret (True, p)
                else andthen (resolve_crawl_robots_decision web opts private normalized (Some (entry_raw entry))) (\<lambda>(allowed, fetch_url).
                  if \<not> allowed then ret (True, p)
                  else crawl_paced web opts private allowed_origin deadline entry normalized fetch_url p))))"

definition crawl_goes_on :: "crawl_options \<Rightarrow> (bool \<times> crawl_progress) outcome \<times> 'w crawl_world \<Rightarrow> bool" where
  "crawl_goes_on opts = (\<lambda>(r, s). case r of
     Done (running, p) \<Rightarrow> running \<and> queue p \<noteq> [] \<and> length (pages p) < max_pages opts | _ \<Rightarrow> False)"

definition crawl_advance :: "'w web \<Rightarrow> crawl_options \<Rightarrow> bool \<Rightarrow> string \<Rightarrow> int option \<Rightarrow>
    (bool \<times> crawl_progress) outcome \<times> 'w crawl_world \<Rightarrow> (bool \<times> crawl_progress) outcome \<times> 'w crawl_world" where
  "crawl_advance web opts private allowed_origin deadline = (\<lambda>(r, s). case r of
     Done (running, p) \<Rightarrow> crawl_turn web opts private allowed_origin deadline p s | _ \<Rightarrow> (r, s))"

definition crawl_loop :: "'w web \<Rightarrow> crawl_options \<Rightarrow> bool \<Rightarrow> string \<Rightarrow> int option \<Rightarrow> crawl_progress \<Rightarrow> 'w crawl_world \<Rightarrow>
    ((bool \<times> crawl_progress) outcome \<times> 'w crawl_world) option" where
  "crawl_loop web opts private allowed_origin deadline p s =
     while_option (crawl_goes_on opts) (crawl_advance web opts private allowed_origin deadline) (Done (True, p), s)"

definition resolve_allow_private_start_host :: "'w web \<Rightarrow> crawl_options \<Rightarrow> page_url \<Rightarrow> (bool, 'w) crawl" where
  "resolve_allow_private_start_host web opts start =
     (if allow_private opts then ret True
      else andthen (net_action Page_Net (assert_resolved_host_allowed (web_network web) False (hostname start))) (\<lambda>checked.
        case checked of Inr _ \<Rightarrow> ret False | Inl e \<Rightarrow> ret True))"

definition crawl_cap :: "crawl_options \<Rightarrow> int option" where
  "crawl_cap opts = (case wall_clock_cap_ms opts of
     Some ms \<Rightarrow> Some ms
   | None \<Rightarrow> (case crawl_timeout_ms opts of
       None \<Rightarrow> Some website_crawl_wall_clock_ms | Some timeout \<Rightarrow> timeout))"

text \<open>What comes before the loop: the trust in the start host, the deadline, the check of the start URL and the queue.\<close>

definition prepare_crawl :: "'w web \<Rightarrow> crawl_options \<Rightarrow> string \<Rightarrow> (bool \<times> string \<times> int option \<times> crawl_progress, 'w) crawl" where
  "prepare_crawl web opts start_url = (case map_option (read_url web) (normalize_site_url web start_url) of
     Some (Some start) \<Rightarrow>
       let start_text = write_url web start in
       andthen (resolve_allow_private_start_host web opts start) (\<lambda>private.
       andthen (case crawl_cap opts of None \<Rightarrow> ret None | Some ms \<Rightarrow> andthen (now_ms web) (\<lambda>t. ret (Some (t + ms)))) (\<lambda>deadline.
       andthen (assert_start_url_allowed web opts private start_text) (\<lambda>_.
       andthen (if is_origin_root_url start then fetch_llms_manifest web opts private (origin start) else ret None) (\<lambda>manifest.
         ret (private, origin start, deadline,
           \<lparr>queue = (case manifest of
               Some links \<Rightarrow> manifest_entries web opts (origin start) links
             | None \<Rightarrow> [\<lparr>entry_url = start_text, entry_raw = (case raw_start_url opts of Some r \<Rightarrow> r | None \<Rightarrow> start_text),
                          entry_depth = 0, entry_deferrals = 0\<rparr>]),
            visited = [], pages = [], fetch_attempts = 0, deferred = [], unfetched = []\<rparr>)))))
   | _ \<Rightarrow> raise ''Invalid URL'')"

text \<open>The pages and the URLs reported as not fetched; nothing when the loop does not end.\<close>

definition finish_crawl :: "(bool \<times> crawl_progress) outcome \<times> 'w crawl_world \<Rightarrow> (website_page list \<times> string list) outcome \<times> 'w crawl_world" where
  "finish_crawl = (\<lambda>(r, s). (case r of
     Done (running, p) \<Rightarrow> Done (pages p, unfetched p @ filter (\<lambda>u. u \<notin> set (unfetched p)) (deferred p))
   | Threw e \<Rightarrow> Threw e | Crashed \<Rightarrow> Crashed, s))"

definition crawl_website :: "'w web \<Rightarrow> crawl_options \<Rightarrow> string \<Rightarrow> 'w \<Rightarrow> ((website_page list \<times> string list) outcome \<times> 'w crawl_world) option" where
  "crawl_website web opts start_url w =
     (case prepare_crawl web opts start_url \<lparr>outside = w, robots_cache = [], trace = []\<rparr> of
        (Done (private, allowed_origin, deadline, p), s) \<Rightarrow>
          map_option finish_crawl (crawl_loop web opts private allowed_origin deadline p s)
      | (Threw e, s) \<Rightarrow> Some (Threw e, s)
      | (Crashed, s) \<Rightarrow> Some (Crashed, s))"

end
