(* ===== verification/Program_Logic.thy ===== *)
theory Program_Logic
  imports Crash_Monad
begin

text \<open>
  A logic for programs over a store with an invariant: \<open>triple good grows P m Q\<close> says that a run of \<open>m\<close> from a good store
  with \<open>P\<close> leaves a good store to which the first one grows, and one with \<open>Q\<close> when it returns.  What is stable under
  growth may be carried over any program.
\<close>

definition triple :: "('w \<Rightarrow> bool) \<Rightarrow> ('w \<Rightarrow> 'w \<Rightarrow> bool) \<Rightarrow> ('w \<Rightarrow> bool) \<Rightarrow> ('a, 'w) prog \<Rightarrow> ('a \<Rightarrow> 'w \<Rightarrow> bool) \<Rightarrow> bool" where
  "triple good grows P m Q \<longleftrightarrow> (\<forall>s r s'. good s \<longrightarrow> P s \<longrightarrow> m s = (r, s') \<longrightarrow>
     good s' \<and> grows s s' \<and> (\<forall>a. r = Done a \<longrightarrow> Q a s'))"

locale growing_store =
  fixes good :: "'w \<Rightarrow> bool" and grows :: "'w \<Rightarrow> 'w \<Rightarrow> bool"
  assumes grows_refl: "grows s s"
    and grows_trans: "grows s t \<Longrightarrow> grows t u \<Longrightarrow> grows s u"
begin

lemma triple_ret: "(\<And>s. good s \<Longrightarrow> P s \<Longrightarrow> Q a s) \<Longrightarrow> triple good grows P (ret a) Q"
  by (simp add: triple_def ret_def grows_refl)

lemma triple_raise: "triple good grows P (raise e) Q"
  by (simp add: triple_def raise_def grows_refl)

lemma triple_reading: "(\<And>s. good s \<Longrightarrow> P s \<Longrightarrow> Q (f s) s) \<Longrightarrow> triple good grows P (reading f) Q"
  by (simp add: triple_def reading_def grows_refl)

lemma triple_post: "triple good grows P m Q \<Longrightarrow> (\<And>a s. good s \<Longrightarrow> Q a s \<Longrightarrow> R a s) \<Longrightarrow> triple good grows P m R"
  unfolding triple_def by blast

lemma triple_pre: "triple good grows P m Q \<Longrightarrow> (\<And>s. good s \<Longrightarrow> R s \<Longrightarrow> P s) \<Longrightarrow> triple good grows R m Q"
  unfolding triple_def by blast

lemma triple_andthen:
  assumes "triple good grows P m R" "\<And>a. triple good grows (R a) (k a) Q"
  shows "triple good grows P (andthen m k) Q"
  unfolding triple_def
proof (intro allI impI)
  fix s r s' assume s: "good s" "P s" and run: "andthen m k s = (r, s')"
  obtain x t where m: "m s = (x, t)" by fastforce
  have t: "good t" "grows s t" "\<And>a. x = Done a \<Longrightarrow> R a t" using assms(1) s m unfolding triple_def by blast+
  show "good s' \<and> grows s s' \<and> (\<forall>a. r = Done a \<longrightarrow> Q a s')"
  proof (cases x)
    case (Done a)
    then have "k a t = (r, s')" using m run by (simp add: andthen_def)
    then have "good s'" "grows t s'" "\<And>a. r = Done a \<Longrightarrow> Q a s'" using assms(2) t Done unfolding triple_def by blast+
    then show ?thesis using t(2) grows_trans by blast
  qed (use m run t in \<open>auto simp: andthen_def\<close>)
qed

lemma triple_catching:
  assumes "triple good grows P m Q" "\<And>e. triple good grows P (h e) Q" "\<And>s t. P s \<Longrightarrow> grows s t \<Longrightarrow> P t"
  shows "triple good grows P (catching m h) Q"
  unfolding triple_def
proof (intro allI impI)
  fix s r s' assume s: "good s" "P s" and run: "catching m h s = (r, s')"
  obtain x t where m: "m s = (x, t)" by fastforce
  have t: "good t" "grows s t" "\<And>a. x = Done a \<Longrightarrow> Q a t" using assms(1) s m unfolding triple_def by blast+
  show "good s' \<and> grows s s' \<and> (\<forall>a. r = Done a \<longrightarrow> Q a s')"
  proof (cases x)
    case (Threw e)
    then have "h e t = (r, s')" using m run by (simp add: catching_def)
    moreover have "P t" using assms(3) s(2) t(2) by blast
    ultimately have "good s'" "grows t s'" "\<And>a. r = Done a \<Longrightarrow> Q a s'" using assms(2) t(1) unfolding triple_def by blast+
    then show ?thesis using t(2) grows_trans by blast
  qed (use m run t in \<open>auto simp: catching_def\<close>)
qed

lemma triple_frame:
  assumes "triple good grows P m Q" "\<And>s t. F s \<Longrightarrow> grows s t \<Longrightarrow> F t"
  shows "triple good grows (\<lambda>s. P s \<and> F s) m (\<lambda>a s. Q a s \<and> F s)"
  using assms unfolding triple_def by metis

lemma triple_run: "triple good grows P m Q \<Longrightarrow> good s \<Longrightarrow> P s \<Longrightarrow> m s = (r, s') \<Longrightarrow> good s' \<and> grows s s'"
  unfolding triple_def by blast

lemma triple_value: "triple good grows P m Q \<Longrightarrow> good s \<Longrightarrow> P s \<Longrightarrow> m s = (Done a, s') \<Longrightarrow> Q a s'"
  unfolding triple_def by blast

end

end
