(* ===== verification/Crawl_Compliance.thy ===== *)
theory Crawl_Compliance
  imports Website_Crawl Program_Logic
begin

text \<open>
  What the trace of a crawl shows: the robots.txt of an origin is loaded once at most, every request for a page, redirects
  included, goes to a URL that the rules loaded for its origin allow, the URLs the queue hands out for a fetch are those of the start
  origin, each once, and one after the first waits for the delay the origin asks for.  A redirect may lead to another origin.
\<close>

section \<open>Compliant traces\<close>

text \<open>What has been seen of a trace: the rules per origin, the normalized URLs of the queue whose fetch was started, the pause since the
  last of them.\<close>

record observed =
  known :: "string \<Rightarrow> robots_rule_set option"
  started :: "string list"
  rested :: int

definition observe :: "crawl_event \<Rightarrow> observed \<Rightarrow> observed" where
  "observe e ob = (case e of
     Robots_Loaded from outcome \<Rightarrow> ob\<lparr>known := (known ob)(from := Some (outcome_to_rule_set outcome))\<rparr>
   | Paused ms \<Rightarrow> ob\<lparr>rested := rested ob + max 0 ms\<rparr>
   | Page_Started url \<Rightarrow> ob\<lparr>started := url # started ob, rested := 0\<rparr>
   | _ \<Rightarrow> ob)"

definition unobserved :: observed where
  "unobserved = \<lparr>known = (\<lambda>from. None), started = [], rested = 0\<rparr>"

definition permitted :: "'w web \<Rightarrow> (string \<Rightarrow> robots_rule_set option) \<Rightarrow> string \<Rightarrow> bool" where
  "permitted web rules url = (case read_url web url of
     None \<Rightarrow> False
   | Some u \<Rightarrow> (case rules (origin u) of None \<Rightarrow> False | Some rs \<Rightarrow> is_path_allowed_by_robots (url_target web) rs url))"

definition delay_of :: "robots_rule_set option \<Rightarrow> int" where
  "delay_of rules = (case rules of
     None \<Rightarrow> 0 | Some rs \<Rightarrow> (case crawl_delay_ms rs of Some ms \<Rightarrow> ms | None \<Rightarrow> 0))"

definition admissible :: "'w web \<Rightarrow> string \<Rightarrow> crawl_event \<Rightarrow> observed \<Rightarrow> bool" where
  "admissible web home e ob = (case e of
     Robots_Loaded from outcome \<Rightarrow> known ob from = None
   | Page_Net (Sent rq) \<Rightarrow> permitted web (known ob) (request_url rq)
   | Page_Started url \<Rightarrow> url_origin web url = Some home \<and> url \<notin> set (started ob)
       \<and> (started ob = [] \<or> delay_of (known ob home) \<le> rested ob)
   | _ \<Rightarrow> True)"

fun compliant :: "'w web \<Rightarrow> string \<Rightarrow> crawl_event list \<Rightarrow> observed \<Rightarrow> bool" where
  "compliant web home [] ob = True"
| "compliant web home (e # es) ob = (admissible web home e ob \<and> compliant web home es (observe e ob))"

lemma compliant_append:
  "compliant web home (es @ fs) ob \<longleftrightarrow> compliant web home es ob \<and> compliant web home fs (fold observe es ob)"
  by (induction es arbitrary: ob) auto

lemma quiet_events: "(\<And>e. e \<in> set es \<Longrightarrow> observe e ob = ob \<and> admissible web home e ob) \<Longrightarrow>
    fold observe es ob = ob \<and> compliant web home es ob"
  by (induction es) auto

section \<open>The invariant\<close>

definition seen :: "'w crawl_world \<Rightarrow> observed" where
  "seen s = fold observe (trace s) unobserved"

definition good_world :: "'w web \<Rightarrow> string \<Rightarrow> 'w crawl_world \<Rightarrow> bool" where
  "good_world web home s \<longleftrightarrow> compliant web home (trace s) unobserved \<and> known (seen s) = map_of (robots_cache s)"

definition world_grows :: "'w crawl_world \<Rightarrow> 'w crawl_world \<Rightarrow> bool" where
  "world_grows s t \<longleftrightarrow> (\<forall>from rules. map_of (robots_cache s) from = Some rules \<longrightarrow> map_of (robots_cache t) from = Some rules)
     \<and> started (seen t) = started (seen s) \<and> rested (seen s) \<le> rested (seen t)"

interpretation crawl: growing_store "good_world web home" world_grows for web home
  by unfold_locales (auto simp: world_grows_def)

abbreviation crawls :: "'w web \<Rightarrow> string \<Rightarrow> ('w crawl_world \<Rightarrow> bool) \<Rightarrow> ('a, 'w) crawl \<Rightarrow> ('a \<Rightarrow> 'w crawl_world \<Rightarrow> bool) \<Rightarrow> bool" where
  "crawls web home \<equiv> triple (good_world web home) world_grows"

abbreviation anything :: "'w crawl_world \<Rightarrow> bool" where
  "anything s \<equiv> True"

lemma crawls_net:
  assumes "\<And>s a es w. P s \<Longrightarrow> good_world web home s \<Longrightarrow> f (outside s) = (a, es, w) \<Longrightarrow>
      \<forall>e \<in> set es. admissible web home (tag e) (seen s)"
    and "\<And>e ob. observe (tag e) ob = ob"
  shows "crawls web home P (net_action tag f) (\<lambda>a s. True)"
  unfolding triple_def
proof (intro allI impI)
  fix s r s' assume s: "good_world web home s" "P s" and run: "net_action tag f s = (r, s')"
  obtain a es w where f: "f (outside s) = (a, es, w)" by (metis prod_cases3)
  have "fold observe (map tag es) (seen s) = seen s \<and> compliant web home (map tag es) (seen s)"
    by (rule quiet_events) (use assms(1) [OF s(2,1) f] assms(2) in auto)
  then show "good_world web home s' \<and> world_grows s s' \<and> (\<forall>a. r = Done a \<longrightarrow> True)"
    using s(1) run f by (auto simp: net_action_def good_world_def world_grows_def seen_def compliant_append)
qed

lemma crawls_outside: "crawls web home P (outside_action f) (\<lambda>a s. True)"
  by (auto simp: triple_def outside_action_def good_world_def world_grows_def seen_def split: prod.splits)

lemma crawls_now: "crawls web home P (now_ms web) (\<lambda>a s. True)"
  unfolding now_ms_def by (rule crawls_outside)

definition permitted_in :: "'w web \<Rightarrow> string \<Rightarrow> 'w crawl_world \<Rightarrow> bool" where
  "permitted_in web url s \<longleftrightarrow> permitted web (map_of (robots_cache s)) url"

lemma permitted_in_grows: "permitted_in web url s \<Longrightarrow> world_grows s t \<Longrightarrow> permitted_in web url t"
  by (auto simp: permitted_in_def permitted_def world_grows_def split: option.splits)

section \<open>Loading the rules\<close>

text \<open>A load of robots.txt leaves nothing but lookups and requests for it in the trace.\<close>

definition robots_only :: "'w crawl_world \<Rightarrow> 'w crawl_world \<Rightarrow> bool" where
  "robots_only s t \<longleftrightarrow> robots_cache t = robots_cache s \<and> (\<exists>es. trace t = trace s @ map Robots_Net es)"

interpretation quiet: kept_relation robots_only
proof
  show "robots_only s s" for s :: "'w crawl_world"
    unfolding robots_only_def by (intro conjI exI [of _ "[]"]) simp_all
  show "robots_only s u" if "robots_only s t" "robots_only t u" for s t u :: "'w crawl_world"
    using that unfolding robots_only_def by (auto simp flip: map_append)
qed

lemmas quiet_rules = quiet.keeps_ret quiet.keeps_raise quiet.keeps_reading

lemma quiet_net: "keeps robots_only (\<lambda>_. True) (net_action Robots_Net f)"
  by (auto simp: keeps_def net_action_def robots_only_def split: prod.splits)

lemma quiet_outside: "keeps robots_only (\<lambda>_. True) (outside_action f)"
  unfolding keeps_def outside_action_def robots_only_def
  by (auto split: prod.splits intro: exI [of _ "[]"])

lemma quiet_hop: "keeps robots_only (\<lambda>_. True) (website_hop web priv Robots_Net further url)"
  unfolding website_hop_def
  by (auto split: sum.splits option.splits intro!: quiet.keeps_andthen [OF quiet_net] quiet_rules)

lemma quiet_gate: "keeps robots_only (\<lambda>_. True) (redirect_gate web priv None url)"
  unfolding redirect_gate_def by (auto split: sum.splits intro!: quiet_rules)

lemma quiet_response: "keeps robots_only (\<lambda>_. True) (fetch_website_response web priv Robots_Net None n url)"
proof (induction n arbitrary: url)
  case 0
  then show ?case by (auto split: sum.splits intro!: quiet.keeps_andthen [OF quiet_hop] quiet_rules)
next
  case (Suc n)
  then show ?case
    by (auto split: sum.splits intro!: quiet.keeps_andthen [OF quiet_hop] quiet.keeps_andthen [OF quiet_gate] quiet_rules)
qed

lemma quiet_load: "keeps robots_only (\<lambda>_. True) (load_robots_txt web priv url)"
  unfolding load_robots_txt_def
  by (auto split: sum.splits prod.splits if_splits body_failure.splits
      intro!: quiet.keeps_andthen [OF quiet_net] quiet.keeps_catching quiet.keeps_andthen [OF quiet_response]
        quiet.keeps_andthen [OF quiet_outside] quiet.keeps_andthen [OF quiet.keeps_reading] quiet_rules)

lemma robots_only_good:
  assumes "robots_only s t" "good_world web home s" shows "good_world web home t \<and> world_grows s t \<and> seen t = seen s"
proof -
  obtain es where t: "robots_cache t = robots_cache s" "trace t = trace s @ map Robots_Net es"
    using assms(1) unfolding robots_only_def by blast
  have "fold observe (map Robots_Net es) ob = ob \<and> compliant web home (map Robots_Net es) ob" for ob
    by (rule quiet_events) (auto simp: observe_def admissible_def)
  then show ?thesis using t assms(2) by (simp add: good_world_def world_grows_def seen_def compliant_append)
qed

lemma crawls_rules_for_origin:
  "crawls web home anything (rules_for_origin web priv site) (\<lambda>rules s. map_of (robots_cache s) site = Some rules)"
  unfolding triple_def
proof (intro allI impI)
  fix s r s' assume good: "good_world web home s" and run: "rules_for_origin web priv site s = (r, s')"
  let ?ok = "good_world web home s' \<and> world_grows s s' \<and> (\<forall>a. r = Done a \<longrightarrow> map_of (robots_cache s') site = Some a)"
  show ?ok
  proof (cases "map_of (robots_cache s) site")
    case (Some rules)
    then show ?thesis using run good
      by (auto simp: rules_for_origin_def andthen_def reading_def ret_def crawl.grows_refl)
  next
    case None
    show ?thesis
    proof (cases "resolve_url web ''/robots.txt'' site")
      case None
      then show ?thesis using run good \<open>map_of (robots_cache s) site = None\<close>
        by (auto simp: rules_for_origin_def andthen_def reading_def raise_def crawl.grows_refl)
    next
      case (Some url)
      obtain x t where load: "load_robots_txt web priv url s = (x, t)" by fastforce
      have quiet: "robots_only s t" using quiet_load load by (rule keepsD)
      then have t: "good_world web home t" "world_grows s t" "robots_cache t = robots_cache s"
        using robots_only_good [OF quiet good] by (auto simp: robots_only_def)
      show ?thesis
      proof (cases x)
        case (Done outcome)
        let ?t = "t\<lparr>robots_cache := (site, outcome_to_rule_set outcome) # robots_cache t, trace := trace t @ [Robots_Loaded site outcome]\<rparr>"
        have s': "r = Done (outcome_to_rule_set outcome)" "s' = ?t"
          using run load Done Some None
          by (auto simp: rules_for_origin_def andthen_def reading_def changing_def ret_def)
        have unknown: "known (seen t) site = None" using t None by (simp add: good_world_def)
        have "good_world web home ?t"
          using t(1) unknown by (auto simp: good_world_def seen_def compliant_append admissible_def observe_def fun_eq_iff)
        moreover have "world_grows t ?t"
          using None t(3) by (auto simp: world_grows_def seen_def observe_def)
        ultimately show ?thesis using s' t(2) crawl.grows_trans by auto
      qed (use run load Some None t in \<open>auto simp: rules_for_origin_def andthen_def reading_def\<close>)
    qed
  qed
qed

lemma crawls_rules_for:
  assumes "respect_robots opts"
  shows "crawls web home anything (rules_for web opts priv url)
    (\<lambda>rules s. \<exists>site. url_origin web url = Some site \<and> map_of (robots_cache s) site = Some rules)"
proof (cases "url_origin web url")
  case None
  then show ?thesis using assms by (simp add: rules_for_def crawl.triple_raise)
next
  case (Some site)
  then have "rules_for web opts priv url = rules_for_origin web priv site" using assms by (simp add: rules_for_def)
  then show ?thesis by (simp only:) (rule crawl.triple_post [OF crawls_rules_for_origin], simp add: Some)
qed

section \<open>URLs\<close>

text \<open>What is relied on of the URL parser: the empty text is no URL, and writing a URL with another path and fragment keeps
  its origin.\<close>

definition url_laws :: "'w web \<Rightarrow> bool" where
  "url_laws web \<longleftrightarrow> read_url web '''' = None \<and> (\<forall>t u v p h. read_url web t = Some u \<longrightarrow>
     read_url web (write_url web (u\<lparr>page_path := p, page_hash := h\<rparr>)) = Some v \<longrightarrow> origin v = origin u)"

lemma normalized_parts_edit: "\<exists>p h. normalized_parts u = u\<lparr>page_path := p, page_hash := h\<rparr>"
proof (cases "page_path u \<noteq> ''/'' \<and> js_ends_with ''/'' (page_path u)")
  case True
  then have "normalized_parts u = u\<lparr>page_path := strip_trailing_slashes (page_path u), page_hash := ''''\<rparr>"
    by (simp add: normalized_parts_def)
  then show ?thesis by blast
next
  case False
  then have "normalized_parts u = u\<lparr>page_path := page_path u, page_hash := ''''\<rparr>" by (auto simp: normalized_parts_def Let_def)
  then show ?thesis by blast
qed

lemma normalized_origin:
  assumes "url_laws web" "read_url web t = Some u" "url_origin web (write_url web (normalized_parts u)) = Some site"
  shows "origin u = site"
  using assms normalized_parts_edit [of u] unfolding url_laws_def url_origin_def by auto metis

lemma normalize_crawl_url_origin:
  assumes "url_laws web" "normalize_crawl_url web t = Some n" "url_origin web n = Some site"
  obtains u where "read_url web t = Some u" "origin u = site"
  using assms normalized_origin [OF assms(1)] by (auto simp: normalize_crawl_url_def split: option.splits if_splits)

lemma decided_url:
  assumes "decide_robots_allowance web rules normalized raw = (True, url)"
  shows "is_path_allowed_by_robots (url_target web) rules url"
    and "url = normalized \<or> (raw = Some url \<and> url \<noteq> '''')"
  using assms by (auto simp: decide_robots_allowance_def Let_def split: option.splits if_splits)

lemma permitted_inI:
  "read_url web url = Some u \<Longrightarrow> map_of (robots_cache s) (origin u) = Some rules \<Longrightarrow>
   is_path_allowed_by_robots (url_target web) rules url \<Longrightarrow> permitted_in web url s"
  by (simp add: permitted_in_def permitted_def)

text \<open>The check of a redirect target admits only URLs that may be requested as they are.\<close>

lemma crawls_allowed_check:
  assumes "respect_robots opts" "url_laws web" "normalize_crawl_url web next_url = Some normalized"
  shows "crawls web home anything (is_crawl_url_allowed web opts priv normalized next_url) (\<lambda>ok s. ok \<longrightarrow> permitted_in web next_url s)"
  unfolding is_crawl_url_allowed_def resolve_crawl_robots_decision_def andthen_assoc
proof (rule crawl.triple_andthen [OF crawls_rules_for [OF assms(1)]])
  fix rules
  show "crawls web home (\<lambda>s. \<exists>site. url_origin web normalized = Some site \<and> map_of (robots_cache s) site = Some rules)
    (andthen (ret (decide_robots_allowance web rules normalized (Some next_url))) (\<lambda>(allowed, fetch_url). ret allowed))
    (\<lambda>ok s. ok \<longrightarrow> permitted_in web next_url s)"
    unfolding andthen_ret
  proof (cases "decide_robots_allowance web rules normalized (Some next_url)")
    case (Pair allowed url)
    have "permitted_in web next_url s" if "allowed" "url_origin web normalized = Some site" "map_of (robots_cache s) site = Some rules" for s site
    proof -
      note prems = that
      obtain u where u: "read_url web next_url = Some u" "origin u = site"
        using normalize_crawl_url_origin [OF assms(2,3) prems(2)] .
      have "next_url \<noteq> ''''" using u(1) assms(2) by (auto simp: url_laws_def)
      then have "is_path_allowed_by_robots (url_target web) rules next_url"
        using Pair prems(1) by (auto simp: decide_robots_allowance_def Let_def split: if_splits)
      then show ?thesis using u prems(3) by (intro permitted_inI) auto
    qed
    then show "crawls web home (\<lambda>s. \<exists>site. url_origin web normalized = Some site \<and> map_of (robots_cache s) site = Some rules)
      (case decide_robots_allowance web rules normalized (Some next_url) of (allowed, fetch_url) \<Rightarrow> ret allowed)
      (\<lambda>ok s. ok \<longrightarrow> permitted_in web next_url s)"
      unfolding Pair by (auto intro: crawl.triple_ret)
  qed
qed


text \<open>The decision on a URL of the queue: what may be fetched may be requested as it is.\<close>

lemma crawls_decision:
  fixes web :: "'w web"
  assumes "respect_robots opts"
    and raw: "\<And>r site. raw = Some r \<Longrightarrow> r \<noteq> '''' \<Longrightarrow> r \<noteq> normalized \<Longrightarrow> url_origin web normalized = Some site \<Longrightarrow> url_origin web r = Some site"
  shows "crawls web home anything (resolve_crawl_robots_decision web opts priv normalized raw)
    (\<lambda>(allowed, url) s. allowed \<longrightarrow> permitted_in web url s \<and> (\<exists>site. url_origin web normalized = Some site))"
  unfolding resolve_crawl_robots_decision_def
proof (rule crawl.triple_andthen [OF crawls_rules_for [OF assms(1)]], rule crawl.triple_ret)
  fix rules and s :: "'w crawl_world"
  assume "\<exists>site. url_origin web normalized = Some site \<and> map_of (robots_cache s) site = Some rules"
  then obtain site where site: "url_origin web normalized = Some site" "map_of (robots_cache s) site = Some rules" by blast
  obtain allowed url where d: "decide_robots_allowance web rules normalized raw = (allowed, url)" by fastforce
  have "permitted_in web url s" if "allowed"
  proof -
    have yes: "decide_robots_allowance web rules normalized raw = (True, url)" using d that by simp
    have "url_origin web url = Some site" using decided_url(2) [OF yes] site(1) raw by blast
    then obtain u where "read_url web url = Some u" "origin u = site" by (auto simp: url_origin_def)
    then show ?thesis using decided_url(1) [OF yes] site(2) by (intro permitted_inI) auto
  qed
  then show "(case decide_robots_allowance web rules normalized raw of
      (allowed, url) \<Rightarrow> \<lambda>s. allowed \<longrightarrow> permitted_in web url s \<and> (\<exists>site. url_origin web normalized = Some site)) s"
    using d site(1) by simp
qed

section \<open>Requests\<close>

lemma lookups_admissible: "requests es = [] \<Longrightarrow> e \<in> set es \<Longrightarrow> admissible web home (Page_Net e) ob"
proof (induction es)
  case (Cons x es)
  then show ?case by (cases x) (auto simp: admissible_def)
qed simp

lemma crawls_lookup:
  fixes web :: "'w web"
  shows "crawls web home P (net_action Page_Net (assert_resolved_host_allowed (web_network web) priv host)) (\<lambda>a s. True)"
proof (rule crawls_net)
  fix s :: "'w crawl_world" and a es w assume run: "assert_resolved_host_allowed (web_network web) priv host (outside s) = (a, es, w)"
  then show "\<forall>e \<in> set es. admissible web home (Page_Net e) (seen s)"
    using lookups_admissible [OF resolved_host_no_requests [OF run]] by blast
qed (simp add: observe_def)

lemma crawls_request:
  fixes web :: "'w web"
  shows "crawls web home (permitted_in web (request_url rq)) (net_action Page_Net (fetch_with_retry net rq n)) (\<lambda>a s. True)"
proof (rule crawls_net)
  fix s :: "'w crawl_world" and a es w
  assume p: "permitted_in web (request_url rq) s" and good: "good_world web home s"
    and run: "fetch_with_retry net rq n (outside s) = (a, es, w)"
  obtain k where "es = replicate (Suc k) (Sent rq)" using fetch_with_retry_sends [OF run] by blast
  then have all: "e = Sent rq" if "e \<in> set es" for e using that by (simp only: in_set_replicate)
  have "known (seen s) = map_of (robots_cache s)" using good by (simp add: good_world_def)
  then have "admissible web home (Page_Net (Sent rq)) (seen s)" using p by (simp add: admissible_def permitted_in_def)
  then show "\<forall>e \<in> set es. admissible web home (Page_Net e) (seen s)" using all by metis
qed (simp add: observe_def)

lemma crawls_hop: "crawls web home (permitted_in web url) (website_hop web priv Page_Net further url) (\<lambda>r s. True)"
proof (cases "assert_website_request_url (web_network web) priv url")
  case (Inl e)
  then show ?thesis by (simp add: website_hop_def crawl.triple_raise)
next
  case (Inr u)
  have look: "crawls web home (permitted_in web url)
      (net_action Page_Net (assert_resolved_host_allowed (web_network web) priv (hostname u))) (\<lambda>a s. permitted_in web url s)"
    by (rule crawl.triple_pre [OF crawl.triple_post [OF crawl.triple_frame [OF crawls_lookup permitted_in_grows]]]) simp_all
  have send: "crawls web home (permitted_in web url) (net_action Page_Net (fetch_with_retry (web_network web)
      \<lparr>request_url = url, request_headers = page_headers, redirect_manual = True\<rparr> 1)) (\<lambda>a s. True)"
    using crawls_request [of web home "\<lparr>request_url = url, request_headers = page_headers, redirect_manual = True\<rparr>"] by simp
  show ?thesis
    unfolding website_hop_def Inr sum.case
  proof (rule crawl.triple_andthen [OF look])
    fix checked :: "guard_error + unit"
    show "crawls web home (permitted_in web url) (case checked of Inl e \<Rightarrow> raise (guard_failure e)
      | Inr _ \<Rightarrow> andthen (net_action Page_Net (fetch_with_retry (web_network web)
          \<lparr>request_url = url, request_headers = page_headers, redirect_manual = True\<rparr> 1)) (\<lambda>answer.
        case answer of None \<Rightarrow> raise ''Fetch failed''
        | Some response \<Rightarrow>
            if \<not> (300 \<le> response_status response \<and> response_status response < 400) then ret (Inl response)
            else if \<not> further then raise ''Too many redirects''
            else (case location_header response of None \<Rightarrow> raise ''Redirect without Location''
              | Some location \<Rightarrow> if location = '''' then raise ''Redirect without Location''
                  else (case resolve_url web location url of None \<Rightarrow> raise ''Invalid URL'' | Some next_url \<Rightarrow> ret (Inr next_url)))))
      (\<lambda>r s. True)"
    proof (cases checked)
      case (Inr x)
      show ?thesis
        unfolding Inr sum.case
        by (rule crawl.triple_andthen [OF send]) (auto split: option.splits intro: crawl.triple_ret crawl.triple_raise)
    qed (simp add: crawl.triple_raise)
  qed
qed

lemma crawls_gate:
  assumes "respect_robots opts" "url_laws web"
  shows "crawls web home anything (redirect_gate web priv (Some (is_crawl_url_allowed web opts priv)) next_url)
    (\<lambda>_. permitted_in web next_url)"
proof -
  have "crawls web home anything (andthen (is_crawl_url_allowed web opts priv normalized next_url)
      (\<lambda>ok. if ok then ret () else raise robots_disallowed_redirect)) (\<lambda>_. permitted_in web next_url)"
    if "normalize_crawl_url web next_url = Some normalized" for normalized
    by (rule crawl.triple_andthen [OF crawls_allowed_check [OF assms that]])
      (auto intro: crawl.triple_ret crawl.triple_raise)
  then show ?thesis
    by (auto simp: redirect_gate_def split: sum.splits option.splits intro: crawl.triple_raise)
qed

lemma crawls_response:
  assumes "respect_robots opts" "url_laws web"
  shows "crawls web home (permitted_in web url)
    (fetch_website_response web priv Page_Net (Some (is_crawl_url_allowed web opts priv)) n url) (\<lambda>r s. True)"
proof (induction n arbitrary: url)
  case 0
  then show ?case by (auto split: sum.splits intro!: crawl.triple_andthen [OF crawls_hop] crawl.triple_ret crawl.triple_raise)
next
  case (Suc n)
  have gate: "crawls web home anything (andthen (redirect_gate web priv (Some (is_crawl_url_allowed web opts priv)) next_url)
      (\<lambda>_. fetch_website_response web priv Page_Net (Some (is_crawl_url_allowed web opts priv)) n next_url)) (\<lambda>r s. True)" for next_url
    by (rule crawl.triple_andthen [OF crawls_gate [OF assms]]) (rule Suc.IH)
  show ?case
    unfolding fetch_website_response.simps
    by (rule crawl.triple_andthen [OF crawls_hop]) (auto split: sum.splits intro: crawl.triple_ret gate)
qed

lemma crawls_permission:
  assumes "respect_robots opts"
  shows "crawls web home anything (is_crawl_url_allowed web opts priv normalized raw) (\<lambda>ok s. True)"
  unfolding is_crawl_url_allowed_def resolve_crawl_robots_decision_def andthen_assoc andthen_ret
  by (rule crawl.triple_andthen [OF crawls_rules_for [OF assms]]) (auto split: prod.splits intro: crawl.triple_ret)

lemma crawls_page_content:
  assumes "respect_robots opts"
  shows "crawls web home anything (website_page_from_response web opts priv response final_url page) (\<lambda>r s. True)"
  unfolding website_page_from_response_def Let_def
  by (auto split: sum.splits body_failure.splits prod.splits intro!: crawl.triple_andthen [OF crawls_outside]
      crawl.triple_andthen [OF crawls_permission [OF assms]] crawl.triple_ret crawl.triple_raise)

lemma crawls_fetched:
  assumes "respect_robots opts" "url_laws web" "\<And>e. crawls web home (permitted_in web url) (h e) (\<lambda>r s. True)"
  shows "crawls web home (permitted_in web url)
    (catching (andthen (fetch_website_response web priv Page_Net (Some (is_crawl_url_allowed web opts priv)) n url)
       (\<lambda>r. ret (Some r))) h) (\<lambda>r s. True)"
  by (rule crawl.triple_catching [OF _ assms(3) permitted_in_grows])
    (auto intro: crawl.triple_andthen [OF crawls_response [OF assms(1,2)]] crawl.triple_ret)

lemma crawls_page:
  assumes "respect_robots opts" "url_laws web"
  shows "crawls web home (permitted_in web url) (fetch_website_page web opts priv url) (\<lambda>r s. True)"
  unfolding fetch_website_page_def
  by (rule crawl.triple_andthen [OF crawls_fetched [OF assms]])
    (auto split: option.splits intro: crawl.triple_ret crawl.triple_raise crawls_page_content [OF assms(1)])

lemma crawls_manifest:
  assumes "respect_robots opts" "url_laws web"
  shows "crawls web home anything (fetch_llms_manifest web opts priv site) (\<lambda>r s. True)"
proof (cases "resolve_url web ''/llms.txt'' site")
  case None
  then show ?thesis by (simp add: fetch_llms_manifest_def crawl.triple_raise)
next
  case (Some url)
  have body: "crawls web home anything (andthen (outside_action f) (\<lambda>body. case body of
      Inl failure \<Rightarrow> ret None | Inr txt \<Rightarrow> let links = parse_llms_txt_links web txt final_url in if links = [] then ret None else ret (Some links)))
      (\<lambda>r s. True)" for f :: "'a \<Rightarrow> (body_failure + string) \<times> 'a" and final_url
    by (rule crawl.triple_andthen [OF crawls_outside]) (auto simp: Let_def split: sum.splits intro: crawl.triple_ret)
  show ?thesis
    unfolding fetch_llms_manifest_def Some option.case
    by (rule crawl.triple_andthen [OF crawls_decision [OF assms(1)]], simp)
      (auto split: option.splits prod.splits if_splits
        intro!: crawl.triple_ret body crawl.triple_andthen [OF crawl.triple_pre [OF crawls_fetched [OF assms]]])
qed


section \<open>The loop\<close>

definition entry_ok :: "'w web \<Rightarrow> string \<Rightarrow> crawl_entry \<Rightarrow> bool" where
  "entry_ok web home e \<longleftrightarrow> (\<forall>site. url_origin web (entry_url e) = Some site \<longrightarrow> site = home)
     \<and> (url_origin web (entry_raw e) = Some home \<or> entry_raw e = entry_url e)"

definition progress_ok :: "'w web \<Rightarrow> string \<Rightarrow> crawl_progress \<Rightarrow> 'w crawl_world \<Rightarrow> bool" where
  "progress_ok web home p s \<longleftrightarrow> set (visited p) = set (started (seen s)) \<and> (fetch_attempts p = 0 \<longleftrightarrow> visited p = [])
     \<and> (\<forall>e \<in> set (queue p). entry_ok web home e)"

definition turn_ok :: "'w web \<Rightarrow> string \<Rightarrow> (bool \<times> crawl_progress) outcome \<times> 'w crawl_world \<Rightarrow> bool" where
  "turn_ok web home = (\<lambda>(r, s). good_world web home s \<and> (\<forall>b p. r = Done (b, p) \<longrightarrow> progress_ok web home p s))"

lemma progress_ok_grows: "progress_ok web home p s \<Longrightarrow> world_grows s t \<Longrightarrow> progress_ok web home p t"
  by (simp add: progress_ok_def world_grows_def)

lemma turn_ret: "good_world web home s \<Longrightarrow> progress_ok web home p s \<Longrightarrow> turn_ok web home (ret (b, p) s)"
  by (simp add: turn_ok_def ret_def)

lemma turn_andthen:
  assumes "crawls web home P m Q" "good_world web home s" "P s"
    and "\<And>a t. good_world web home t \<Longrightarrow> world_grows s t \<Longrightarrow> Q a t \<Longrightarrow> turn_ok web home (k a t)"
  shows "turn_ok web home (andthen m k s)"
proof -
  obtain x t where m: "m s = (x, t)" by fastforce
  have t: "good_world web home t" "world_grows s t" "\<And>a. x = Done a \<Longrightarrow> Q a t"
    using assms(1-3) m unfolding triple_def by blast+
  show ?thesis using m t assms(4) by (cases x) (auto simp: andthen_def turn_ok_def)
qed

lemma rested_nonneg: "0 \<le> rested ob \<Longrightarrow> 0 \<le> rested (fold observe es ob)"
proof (induction es arbitrary: ob)
  case (Cons e es)
  then have "0 \<le> rested (observe e ob)" by (cases e) (simp_all add: observe_def)
  then show ?case using Cons.IH by simp
qed simp

lemma seen_rested: "0 \<le> rested (seen s)"
  unfolding seen_def by (rule rested_nonneg) (simp add: unobserved_def)

lemma crawls_sleep: "crawls web home anything (sleep_ms web ms) (\<lambda>_ s. ms \<le> rested (seen s))"
proof -
  have "ms \<le> rested (seen s) + max 0 ms" for s :: "'a crawl_world" using seen_rested [of s] by linarith
  then show ?thesis by (auto simp: triple_def sleep_ms_def emit_def andthen_def changing_def good_world_def world_grows_def seen_def
      compliant_append admissible_def observe_def)
qed

lemma enqueue_links_keeps:
  "url_laws web \<Longrightarrow> \<forall>e \<in> set (queue p). entry_ok web home e \<Longrightarrow>
   visited (enqueue_links web opts home depth links p) = visited p
   \<and> fetch_attempts (enqueue_links web opts home depth links p) = fetch_attempts p
   \<and> (\<forall>e \<in> set (queue (enqueue_links web opts home depth links p)). entry_ok web home e)"
proof (induction links arbitrary: p)
  case (Cons link links)
  show ?case
  proof (cases "read_url web link")
    case None
    then show ?thesis using Cons by simp
  next
    case (Some u)
    show ?thesis
    proof (cases "normalize_crawl_url web link")
      case None
      then show ?thesis using Cons Some by simp
    next
      case (Some candidate)
      have "site = origin u" if "url_origin web candidate = Some site" for site
        using normalize_crawl_url_origin [OF Cons.prems(1) Some that] \<open>read_url web link = Some u\<close> by auto
      then have e: "entry_ok web home \<lparr>entry_url = candidate, entry_raw = link, entry_depth = depth + 1, entry_deferrals = 0\<rparr>" if "origin u = home"
        using that \<open>read_url web link = Some u\<close> by (simp add: entry_ok_def url_origin_def)
      let ?q = "p\<lparr>queue := queue p @ [\<lparr>entry_url = candidate, entry_raw = link, entry_depth = depth + 1, entry_deferrals = 0\<rparr>]\<rparr>"
      have ok: "\<forall>e \<in> set (queue ?q). entry_ok web home e" if "origin u = home" using Cons.prems(2) e [OF that] by simp
      have added: "visited (enqueue_links web opts home depth links ?q) = visited p
          \<and> fetch_attempts (enqueue_links web opts home depth links ?q) = fetch_attempts p
          \<and> (\<forall>e \<in> set (queue (enqueue_links web opts home depth links ?q)). entry_ok web home e)" if "origin u = home"
        using Cons.IH [OF Cons.prems(1) ok [OF that]] by (simp del: Suc_eq_plus1 Suc_eq_plus1_left add: add.commute)
      consider "enqueue_links web opts home depth (link # links) p = p"
        | "enqueue_links web opts home depth (link # links) p = enqueue_links web opts home depth links p"
        | "origin u = home" "enqueue_links web opts home depth (link # links) p = enqueue_links web opts home depth links ?q"
        using \<open>read_url web link = Some u\<close> Some
        by (cases "length (queue p) + length (pages p) \<ge> max_pages opts * queue_expansion_factor"; cases "origin u = home";
            cases "candidate \<in> set (visited p) \<or> is_asset_like_path (page_path u)") simp_all
      then show ?thesis
      proof cases
        case 1
        then show ?thesis using Cons.prems(2) by (simp only:)
      next
        case 2
        then show ?thesis using Cons.IH [OF Cons.prems] by (simp only:) simp
      next
        case 3
        then show ?thesis using added by (simp only:) simp
      qed
    qed
  qed
qed simp

lemma andthen_emit: "andthen (emit e) k s = k () (s\<lparr>trace := trace s @ [e]\<rparr>)"
  by (simp add: emit_def andthen_def changing_def)

lemma crawl_page_ok:
  assumes laws: "respect_robots opts" "url_laws web" and good: "good_world web home s"
    and p: "progress_ok web home p s" "normalized \<notin> set (visited p)"
    and url: "permitted_in web url s" "url_origin web normalized = Some home"
    and pause: "visited p = [] \<or> delay_of (map_of (robots_cache s) home) \<le> rested (seen s)"
  shows "turn_ok web home (crawl_page web opts priv home entry normalized url p s)"
proof -
  let ?p = "p\<lparr>visited := normalized # visited p, deferred := removeAll normalized (deferred p), fetch_attempts := fetch_attempts p + 1\<rparr>"
  let ?s = "s\<lparr>trace := trace s @ [Page_Started normalized]\<rparr>"
  have vis: "set (started (seen s)) = set (visited p)" using p(1) by (simp add: progress_ok_def)
  then have "started (seen s) = [] \<longleftrightarrow> visited p = []" by (metis set_empty)
  moreover have k: "known (seen s) = map_of (robots_cache s)" using good by (simp add: good_world_def)
  ultimately have "admissible web home (Page_Started normalized) (seen s)"
    using p(2) url(2) pause vis by (auto simp: admissible_def)
  then have good': "good_world web home ?s"
    using good by (simp add: good_world_def seen_def compliant_append observe_def)
  have p': "progress_ok web home ?p ?s" using p(1) by (simp add: progress_ok_def seen_def observe_def)
  have url': "permitted_in web url ?s" using url(1) by (simp add: permitted_in_def)
  have "turn_ok web home (andthen (fetch_website_page web opts priv url) (\<lambda>fetched. case fetched of
          None \<Rightarrow> ret (True, ?p)
        | Some (page, links) \<Rightarrow> let q = ?p\<lparr>pages := pages ?p @ [page]\<rparr> in
            ret (True, if entry_depth entry \<ge> max_depth opts then q else enqueue_links web opts home (entry_depth entry) links q)) ?s)"
  proof (rule turn_andthen [OF crawls_page [OF laws] good' url'])
    fix fetched t assume t: "good_world web home t" "world_grows ?s t"
    have q: "progress_ok web home ?p t" using progress_ok_grows [OF p' t(2)] .
    have links: "progress_ok web home (enqueue_links web opts home d links (?p\<lparr>pages := ps\<rparr>)) t" for d links ps
      using enqueue_links_keeps [OF laws(2), of "?p\<lparr>pages := ps\<rparr>" home opts d links] q by (simp add: progress_ok_def)
    show "turn_ok web home ((case fetched of None \<Rightarrow> ret (True, ?p)
        | Some (page, links) \<Rightarrow> let q = ?p\<lparr>pages := pages ?p @ [page]\<rparr> in
            ret (True, if entry_depth entry \<ge> max_depth opts then q else enqueue_links web opts home (entry_depth entry) links q)) t)"
      using q links t(1) by (auto simp: Let_def progress_ok_def split: option.splits intro!: turn_ret)
  qed
  then show ?thesis unfolding crawl_page_def Let_def andthen_emit .
qed


lemma crawls_delay:
  assumes "respect_robots opts" "url_origin web normalized = Some home"
  shows "crawls web home anything (robots_crawl_delay_ms web opts priv normalized)
    (\<lambda>delay s. \<exists>rules. map_of (robots_cache s) home = Some rules \<and> delay = delay_of (Some rules))"
  unfolding robots_crawl_delay_ms_def
  by (rule crawl.triple_andthen [OF crawls_rules_for [OF assms(1)]], rule crawl.triple_ret)
    (use assms(2) in \<open>auto simp: delay_of_def\<close>)

lemma crawl_paced_ok:
  assumes laws: "respect_robots opts" "url_laws web" and good: "good_world web home s"
    and p: "progress_ok web home p s" "normalized \<notin> set (visited p)"
    and url: "permitted_in web url s" "url_origin web normalized = Some home" and entry: "entry_ok web home entry"
  shows "turn_ok web home (crawl_paced web opts priv home deadline entry normalized url p s)"
proof (cases "fetch_attempts p = 0")
  case True
  then have "visited p = []" using p(1) by (simp add: progress_ok_def)
  then show ?thesis using crawl_page_ok [OF laws good p url] True by (simp add: crawl_paced_def)
next
  case False
  have "turn_ok web home (andthen (robots_crawl_delay_ms web opts priv normalized) (\<lambda>delay.
        if \<not> delay > 0 then crawl_page web opts priv home entry normalized url p
        else andthen (now_ms web) (\<lambda>t.
          if does_not_fit t delay deadline then
            ret (True, if entry_deferrals entry < max_crawl_deferrals
              then p\<lparr>queue := queue p @ [entry\<lparr>entry_deferrals := entry_deferrals entry + 1\<rparr>], deferred := normalized # removeAll normalized (deferred p)\<rparr>
              else p\<lparr>unfetched := normalized # removeAll normalized (unfetched p)\<rparr>)
          else andthen (sleep_ms web delay) (\<lambda>_. crawl_page web opts priv home entry normalized url p))) s)"
  proof (rule turn_andthen [OF crawls_delay [OF laws(1) url(2)] good TrueI])
    fix delay t
    assume t: "good_world web home t" "world_grows s t"
      and "\<exists>rules. map_of (robots_cache t) home = Some rules \<and> delay = delay_of (Some rules)"
    then obtain rules where rules: "map_of (robots_cache t) home = Some rules" "delay = delay_of (Some rules)" by blast
    have pt: "progress_ok web home p t" using progress_ok_grows [OF p(1) t(2)] .
    have ut: "permitted_in web url t" using permitted_in_grows [OF url(1) t(2)] .
    have timed: "turn_ok web home (andthen (now_ms web) (\<lambda>n.
          if does_not_fit n delay deadline then
            ret (True, if entry_deferrals entry < max_crawl_deferrals
              then p\<lparr>queue := queue p @ [entry\<lparr>entry_deferrals := entry_deferrals entry + 1\<rparr>], deferred := normalized # removeAll normalized (deferred p)\<rparr>
              else p\<lparr>unfetched := normalized # removeAll normalized (unfetched p)\<rparr>)
          else andthen (sleep_ms web delay) (\<lambda>_. crawl_page web opts priv home entry normalized url p)) t)"
    proof (rule turn_andthen [OF crawls_now t(1)])
      fix n :: int and u assume u: "good_world web home u" "world_grows t u"
      have pu: "progress_ok web home p u" using progress_ok_grows [OF pt u(2)] .
      have uu: "permitted_in web url u" using permitted_in_grows [OF ut u(2)] .
      have slept: "turn_ok web home (andthen (sleep_ms web delay) (\<lambda>_. crawl_page web opts priv home entry normalized url p) u)"
      proof (rule turn_andthen [OF crawls_sleep u(1) TrueI])
        fix v assume v: "good_world web home v" "world_grows u v" "delay \<le> rested (seen v)"
        have "map_of (robots_cache v) home = Some rules" using rules(1) u(2) v(2) by (auto simp: world_grows_def)
        then show "turn_ok web home (crawl_page web opts priv home entry normalized url p v)"
          using crawl_page_ok [OF laws v(1) progress_ok_grows [OF pu v(2)] p(2) permitted_in_grows [OF uu v(2)] url(2)] v(3) rules(2)
          by simp
      qed
      have later: "entry_ok web home (entry\<lparr>entry_deferrals := entry_deferrals entry + 1\<rparr>)" using entry by (simp add: entry_ok_def)
      show "turn_ok web home ((if does_not_fit n delay deadline then
            ret (True, if entry_deferrals entry < max_crawl_deferrals
              then p\<lparr>queue := queue p @ [entry\<lparr>entry_deferrals := entry_deferrals entry + 1\<rparr>], deferred := normalized # removeAll normalized (deferred p)\<rparr>
              else p\<lparr>unfetched := normalized # removeAll normalized (unfetched p)\<rparr>)
          else andthen (sleep_ms web delay) (\<lambda>_. crawl_page web opts priv home entry normalized url p)) u)"
        using slept pu later by (auto intro!: turn_ret u(1) simp: progress_ok_def)
    qed simp
    show "turn_ok web home ((if \<not> delay > 0 then crawl_page web opts priv home entry normalized url p
        else andthen (now_ms web) (\<lambda>t.
          if does_not_fit t delay deadline then
            ret (True, if entry_deferrals entry < max_crawl_deferrals
              then p\<lparr>queue := queue p @ [entry\<lparr>entry_deferrals := entry_deferrals entry + 1\<rparr>], deferred := normalized # removeAll normalized (deferred p)\<rparr>
              else p\<lparr>unfetched := normalized # removeAll normalized (unfetched p)\<rparr>)
          else andthen (sleep_ms web delay) (\<lambda>_. crawl_page web opts priv home entry normalized url p))) t)"
      using timed crawl_page_ok [OF laws t(1) pt p(2) ut url(2)] rules seen_rested [of t] by (cases "delay > 0") auto
  qed
  then show ?thesis using False unfolding crawl_paced_def by simp
qed

lemma crawl_turn_ok:
  assumes laws: "respect_robots opts" "url_laws web" and good: "good_world web home s" and p: "progress_ok web home p s"
  shows "turn_ok web home (crawl_turn web opts priv home deadline p s)"
  unfolding crawl_turn_def
proof (rule turn_andthen [OF crawls_now good])
  fix n :: int and t assume t: "good_world web home t" "world_grows s t"
  have pt: "progress_ok web home p t" using progress_ok_grows [OF p t(2)] .
  show "turn_ok web home ((if past n deadline then ret (False, p) else (case queue p of [] \<Rightarrow> ret (False, p) | entry # rest \<Rightarrow>
      let p = p\<lparr>queue := rest\<rparr> in (case normalize_crawl_url web (entry_url entry) of None \<Rightarrow> ret (True, p)
      | Some normalized \<Rightarrow> if normalized \<in> set (visited p) then ret (True, p)
          else andthen (resolve_crawl_robots_decision web opts priv normalized (Some (entry_raw entry))) (\<lambda>(allowed, fetch_url).
            if \<not> allowed then ret (True, p) else crawl_paced web opts priv home deadline entry normalized fetch_url p)))) t)"
  proof (cases "past n deadline \<or> queue p = []")
    case True
    then show ?thesis using turn_ret [OF t(1) pt] by auto
  next
    case False
    then obtain entry rest where q: "queue p = entry # rest" by (cases "queue p") auto
    let ?p = "p\<lparr>queue := rest\<rparr>"
    have p': "progress_ok web home ?p t" and entry: "entry_ok web home entry" using pt q by (auto simp: progress_ok_def)
    show ?thesis
    proof (cases "normalize_crawl_url web (entry_url entry)")
      case None
      then show ?thesis using False q turn_ret [OF t(1) p'] by simp
    next
      case (Some normalized)
      show ?thesis
      proof (cases "normalized \<in> set (visited p)")
        case True
        then show ?thesis using False q Some turn_ret [OF t(1) p'] by simp
      next
        case fresh: False
        have site: "url_origin web (entry_url entry) = Some site \<and> site = home" if "url_origin web normalized = Some site" for site
        proof -
          note site = that
          obtain u where "read_url web (entry_url entry) = Some u" "origin u = site"
            by (rule normalize_crawl_url_origin [OF laws(2) Some site])
          then have "url_origin web (entry_url entry) = Some site" by (simp add: url_origin_def)
          then show ?thesis using entry by (simp add: entry_ok_def)
        qed
        have "turn_ok web home (andthen (resolve_crawl_robots_decision web opts priv normalized (Some (entry_raw entry)))
          (\<lambda>(allowed, fetch_url). if \<not> allowed then ret (True, ?p) else crawl_paced web opts priv home deadline entry normalized fetch_url ?p) t)"
        proof (rule turn_andthen [OF crawls_decision [OF laws(1)] t(1) TrueI])
          fix r site assume "Some (entry_raw entry) = Some r" "url_origin web normalized = Some site"
          then show "url_origin web r = Some site" using site entry by (auto simp: entry_ok_def)
        next
          fix decision v assume v: "good_world web home v" "world_grows t v"
            and d: "(case decision of (allowed, url) \<Rightarrow> \<lambda>s. allowed \<longrightarrow> permitted_in web url s \<and> (\<exists>site. url_origin web normalized = Some site)) v"
          obtain allowed url where a: "decision = (allowed, url)" by fastforce
          have pv: "progress_ok web home ?p v" using progress_ok_grows [OF p' v(2)] .
          have "turn_ok web home (crawl_paced web opts priv home deadline entry normalized url ?p v)" if "allowed"
            by (rule crawl_paced_ok [OF laws v(1) pv _ _ _ entry]) (use d a that fresh site in auto)
          then show "turn_ok web home ((case decision of (allowed, fetch_url) \<Rightarrow>
              if \<not> allowed then ret (True, ?p) else crawl_paced web opts priv home deadline entry normalized fetch_url ?p) v)"
            using a turn_ret [OF v(1) pv] by simp
        qed
        then show ?thesis using False q Some fresh by (simp add: Let_def)
      qed
    qed
  qed
qed simp


section \<open>The whole crawl\<close>

definition crawl_home :: "'w web \<Rightarrow> string \<Rightarrow> string" where
  "crawl_home web start_url = (case map_option (read_url web) (normalize_site_url web start_url) of
     Some (Some start) \<Rightarrow> origin start | _ \<Rightarrow> '''')"

lemma manifest_entries_ok:
  assumes "url_laws web" "e \<in> set (manifest_entries web opts home links)" shows "entry_ok web home e"
  using assms(2)
proof (induction links)
  case (Cons link links)
  show ?case
  proof (cases "url_origin web link = Some home \<and> normalize_crawl_url web link \<noteq> None \<and> e \<notin> set (manifest_entries web opts home links)")
    case True
    then obtain candidate where c: "normalize_crawl_url web link = Some candidate" by auto
    have e: "entry_url e = candidate" "entry_raw e = link"
      using Cons.prems True c by (auto simp: manifest_entries_def List.map_filter_simps)
    have "site = home" if "url_origin web candidate = Some site" for site
    proof -
      note site = that
      obtain u where "read_url web link = Some u" "origin u = site" by (rule normalize_crawl_url_origin [OF assms(1) c site])
      then show ?thesis using True by (simp add: url_origin_def)
    qed
    then show ?thesis using e True by (simp add: entry_ok_def)
  next
    case False
    then have "e \<in> set (manifest_entries web opts home links)"
      using Cons.prems by (auto simp: manifest_entries_def List.map_filter_simps split: if_splits option.splits)
    then show ?thesis by (rule Cons.IH)
  qed
qed (simp add: manifest_entries_def List.map_filter_simps)

lemma crawls_start_check:
  assumes "respect_robots opts"
  shows "crawls web home anything (assert_start_url_allowed web opts priv url) (\<lambda>_ s. True)"
  unfolding assert_start_url_allowed_def Let_def
  by (rule crawl.triple_andthen [OF crawls_rules_for [OF assms]]) (auto intro: crawl.triple_ret crawl.triple_raise)

lemma crawls_trust: "crawls web home anything (resolve_allow_private_start_host web opts start) (\<lambda>_ s. True)"
  unfolding resolve_allow_private_start_host_def
  by (auto split: sum.splits intro!: crawl.triple_andthen [OF crawls_lookup] crawl.triple_ret)

lemma crawls_deadline:
  "crawls web home anything (case crawl_cap opts of None \<Rightarrow> ret None | Some ms \<Rightarrow> andthen (now_ms web) (\<lambda>t. ret (Some (t + ms)))) (\<lambda>_ s. True)"
  by (auto split: option.splits intro!: crawl.triple_andthen [OF crawls_now] crawl.triple_ret)

definition fresh_entries :: "'w web \<Rightarrow> string \<Rightarrow> crawl_progress \<Rightarrow> bool" where
  "fresh_entries web home p \<longleftrightarrow> visited p = [] \<and> fetch_attempts p = 0 \<and> (\<forall>e \<in> set (queue p). entry_ok web home e)"

text \<open>The raw start URL is the text whose normal form is the start URL.\<close>

definition raw_start_ok :: "'w web \<Rightarrow> crawl_options \<Rightarrow> string \<Rightarrow> bool" where
  "raw_start_ok web opts start_url \<longleftrightarrow> (case raw_start_url opts of None \<Rightarrow> True | Some r \<Rightarrow> normalize_site_url web r = Some start_url)"

lemma normalize_site_origin:
  assumes "url_laws web" "normalize_site_url web t = Some n" "read_url web n = Some v"
  obtains u where "read_url web t = Some u" "origin u = origin v"
proof -
  obtain u where u: "read_url web t = Some u" "n = write_url web (normalized_parts u)"
    using assms(2) by (auto simp: normalize_site_url_def)
  have "origin u = origin v"
    by (rule normalized_origin [OF assms(1) u(1)]) (use u(2) assms(3) in \<open>simp add: url_origin_def\<close>)
  then show ?thesis using u(1) that by blast
qed

lemma start_entry_ok:
  assumes "url_laws web" "raw_start_ok web opts start_url"
    and "normalize_site_url web start_url = Some n" "read_url web n = Some start"
  shows "entry_ok web (origin start) \<lparr>entry_url = write_url web start,
    entry_raw = (case raw_start_url opts of Some r \<Rightarrow> r | None \<Rightarrow> write_url web start), entry_depth = 0, entry_deferrals = 0\<rparr>"
proof -
  have law: "origin v = origin start"
    if "read_url web (write_url web (start\<lparr>page_path := page_path start, page_hash := page_hash start\<rparr>)) = Some v" for v
    using assms(1,4) that unfolding url_laws_def by blast
  have "site = origin start" if "url_origin web (write_url web start) = Some site" for site
    using law that by (auto simp: url_origin_def)
  moreover have "url_origin web r = Some (origin start)" if "raw_start_url opts = Some r" for r
  proof -
    note raw = that
    obtain u where u: "read_url web start_url = Some u" "origin u = origin start"
      by (rule normalize_site_origin [OF assms(1,3,4)])
    have "normalize_site_url web r = Some start_url" using assms(2) raw by (simp add: raw_start_ok_def)
    then obtain v where "read_url web r = Some v" "origin v = origin u" by (rule normalize_site_origin [OF assms(1) _ u(1)])
    then show ?thesis using u(2) by (simp add: url_origin_def)
  qed
  ultimately show ?thesis by (simp add: entry_ok_def split: option.splits)
qed

lemma crawls_prepare:
  assumes laws: "respect_robots opts" "url_laws web" "raw_start_ok web opts start_url"
  shows "crawls web (crawl_home web start_url) anything (prepare_crawl web opts start_url)
    (\<lambda>(priv, home, deadline, p) s. home = crawl_home web start_url \<and> fresh_entries web home p)"
proof (cases "map_option (read_url web) (normalize_site_url web start_url)")
  case None
  show ?thesis unfolding prepare_crawl_def None option.case by (rule crawl.triple_raise)
next
  case (Some parsed)
  show ?thesis
  proof (cases parsed)
    case None
    show ?thesis unfolding prepare_crawl_def Some None option.case by (rule crawl.triple_raise)
  next
    case start: (Some start)
    obtain n where n: "normalize_site_url web start_url = Some n" "read_url web n = Some start" using Some start by auto
    have home: "crawl_home web start_url = origin start" unfolding crawl_home_def Some start option.case ..
    have manifest: "crawls web home anything (if is_origin_root_url start then fetch_llms_manifest web opts priv (origin start) else ret None)
        (\<lambda>_ s. True)" for home priv
      by (auto intro: crawls_manifest [OF laws(1,2)] crawl.triple_ret)
    show ?thesis
      unfolding prepare_crawl_def Some start home Let_def option.case
      by (intro crawl.triple_andthen [OF crawls_trust] crawl.triple_andthen [OF crawls_deadline]
          crawl.triple_andthen [OF crawls_start_check [OF laws(1)]] crawl.triple_andthen [OF manifest] crawl.triple_ret)
        (use start_entry_ok [OF laws(2,3) n] manifest_entries_ok [OF laws(2)] in \<open>auto simp: fresh_entries_def split: option.splits\<close>)
  qed
qed

lemma crawl_loop_ok:
  assumes laws: "respect_robots opts" "url_laws web"
    and start: "good_world web home s" "progress_ok web home p s"
    and run: "crawl_loop web opts priv home deadline p s = Some st"
  shows "turn_ok web home st"
proof (rule while_option_rule [OF _ run [unfolded crawl_loop_def]])
  show "turn_ok web home (Done (True, p), s)" using start by (simp add: turn_ok_def)
next
  fix st :: "(bool \<times> crawl_progress) outcome \<times> 'a crawl_world"
  assume ok: "turn_ok web home st" and "crawl_goes_on opts st"
  then obtain b q t where "st = (Done (b, q), t)" by (cases st) (auto simp: crawl_goes_on_def split: outcome.splits)
  then show "turn_ok web home (crawl_advance web opts priv home deadline st)"
    using ok crawl_turn_ok [OF laws] by (simp add: crawl_advance_def turn_ok_def)
qed



section \<open>A small site\<close>

text \<open>A site with a page, a forbidden page, and a page that redirects to a forbidden one.\<close>

definition small_site_url :: "string \<Rightarrow> page_url" where
  "small_site_url p = \<lparr>username = '''', password = '''', protocol = ''http:'', hostname = ''h.io'', origin = ''http://h.io'',
     page_path = p, page_query = '''', page_hash = ''''\<rparr>"

definition small_site_read :: "string \<Rightarrow> page_url option" where
  "small_site_read t = (if js_starts_with ''http://h.io/'' t then Some (small_site_url (drop 11 t)) else None)"

definition small_site_answer :: "string \<Rightarrow> response" where
  "small_site_answer t =
     (if t = ''http://h.io/robots.txt'' \<or> t = ''http://h.io/a'' then \<lparr>response_status = 200, location_header = None\<rparr>
      else if t = ''http://h.io/b'' then \<lparr>response_status = 302, location_header = Some ''http://h.io/secret/b''\<rparr>
      else \<lparr>response_status = 404, location_header = None\<rparr>)"

definition small_site :: "string web" where
  "small_site = \<lparr>read_url = small_site_read, write_url = (\<lambda>u. origin u @ page_path u),
     resolve_url = (\<lambda>href base. if js_starts_with ''/'' href then Some (''http://h.io'' @ href) else Some href),
     web_lookup = (\<lambda>host w. (None, w)), web_send = (\<lambda>rq w. (Some (small_site_answer (request_url rq)), request_url rq)),
     web_wait = (\<lambda>w. w), web_aborted = (\<lambda>w. False),
     web_body = (\<lambda>response cap w. (Inr (if w = ''http://h.io/robots.txt''
       then ''User-agent: akm'' @ [CHR 0x0A] @ ''Disallow: /secret/'' else ''page''), w)),
     web_clock = (\<lambda>w. (0, w)), web_pause = (\<lambda>ms w. w),
     render_page = (\<lambda>response body url. (\<lparr>page_address = url, page_title = body, page_markdown = body\<rparr>,
       [''http://h.io/secret/'', ''http://h.io/b'']))\<rparr>"

definition small_options :: crawl_options where
  "small_options = \<lparr>max_pages = 5, max_depth = 2, respect_robots = True, allow_private = True, wall_clock_cap_ms = None,
     crawl_timeout_ms = None, raw_start_url = Some ''http://h.io/a/''\<rparr>"

text \<open>The requests for pages and the pauses, in order.\<close>

definition visits :: "crawl_event list \<Rightarrow> (string + int) list" where
  "visits es = List.map_filter (\<lambda>e. case e of Page_Net (Sent rq) \<Rightarrow> Some (Inl (request_url rq)) | Paused ms \<Rightarrow> Some (Inr ms) | _ \<Rightarrow> None) es"

lemma small_site_visits:
  "map_option (\<lambda>(r, s). visits (trace s)) (crawl_website small_site small_options ''http://h.io/a'' '''') =
     Some [Inl ''http://h.io/a'', Inl ''http://h.io/b'']"
  by code_simp

lemma small_site_laws: "url_laws small_site"
  by (auto simp: url_laws_def small_site_def small_site_read_def small_site_url_def js_starts_with_def split: if_splits)


text \<open>A site one page of which redirects to another origin: the page stored for it is that of the other origin.\<close>

definition moved_site :: "string web" where
  "moved_site = small_site\<lparr>read_url := (\<lambda>t. if js_starts_with ''http://o.io/'' t then Some (small_site_url (drop 11 t)\<lparr>hostname := ''o.io'', origin := ''http://o.io''\<rparr>)
       else small_site_read t),
     resolve_url := (\<lambda>href base. if href = ''/robots.txt'' then Some (base @ href) else Some href),
     web_send := (\<lambda>rq w. (Some (if request_url rq = ''http://h.io/a'' then \<lparr>response_status = 302, location_header = Some ''http://o.io/x''\<rparr>
       else \<lparr>response_status = 200, location_header = None\<rparr>), request_url rq))\<rparr>"

lemma redirects_may_leave_the_origin:
  "map_option (\<lambda>(r, s). (case r of Done (ps, _) \<Rightarrow> map page_address ps | _ \<Rightarrow> [], visits (trace s)))
     (crawl_website moved_site (small_options\<lparr>max_pages := 1\<rparr>) ''http://h.io/a'' '''')
   = Some ([''http://o.io/x''], [Inl ''http://h.io/a'', Inl ''http://o.io/x''])"
  by code_simp

text \<open>The same site with a cap that expires during the second page: the page that was collected is lost with the error.\<close>

definition expiring_site :: "string web" where
  "expiring_site = small_site\<lparr>web_send := (\<lambda>rq w. if request_url rq = ''http://h.io/b'' then (None, ''expired'')
     else (Some (small_site_answer (request_url rq)), request_url rq)), web_aborted := (\<lambda>w. w = ''expired'')\<rparr>"

lemma expiry_during_a_fetch_loses_the_pages:
  "map_option (\<lambda>(r, s). (r, visits (trace s))) (crawl_website expiring_site small_options ''http://h.io/a'' '''') =
     Some (Threw ''Fetch failed'', [Inl ''http://h.io/a'', Inl ''http://h.io/b''])"
  by code_simp

end
