(* ===== verification/Crawl_Termination.thy ===== *)
theory Crawl_Termination
  imports Website_Crawl
begin

text \<open>
  The crawl ends: every turn either takes an entry off the queue for good, defers it with one deferral less to go, or
  adds a page, and the pages are bounded.
\<close>

section \<open>What a turn does to the queue and the pages\<close>

definition deferral_budget :: "crawl_entry \<Rightarrow> nat" where
  "deferral_budget e = Suc (max_crawl_deferrals - entry_deferrals e)"

definition queue_budget :: "crawl_progress \<Rightarrow> nat" where
  "queue_budget p = sum_list (map deferral_budget (queue p))"

definition goes_down :: "crawl_progress \<Rightarrow> crawl_progress \<Rightarrow> bool" where
  "goes_down p q \<longleftrightarrow> (pages q = pages p \<and> queue_budget q < queue_budget p) \<or> length (pages q) = Suc (length (pages p))"

lemma enqueue_links_pages [simp]: "pages (enqueue_links web opts home depth links p) = pages p"
  by (induction links arbitrary: p) (auto split: option.splits)

lemma value_andthen:
  assumes "andthen m k s = (Done b, s')"
  obtains a t where "m s = (Done a, t)" "k a t = (Done b, s')"
  using assms by (auto simp: andthen_def split: prod.splits outcome.splits)

lemma crawl_page_down:
  assumes "crawl_page web opts private home entry normalized url p s = (Done (running, q), s')"
  shows "(pages q = pages p \<and> queue q = queue p) \<or> length (pages q) = Suc (length (pages p))"
  using assms unfolding crawl_page_def Let_def
  by (elim value_andthen) (auto simp: ret_def split: option.splits prod.splits if_splits)

lemma crawl_paced_down:
  assumes "crawl_paced web opts private home deadline entry normalized url p s = (Done (running, q), s')"
  shows "(pages q = pages p \<and> queue_budget q < queue_budget p + deferral_budget entry) \<or> length (pages q) = Suc (length (pages p))"
proof -
  have page: ?thesis if "crawl_page web opts private home entry normalized url p t = (Done (running, q), s')" for t
    using crawl_page_down [OF that] by (auto simp: queue_budget_def deferral_budget_def)
  show ?thesis
  proof (cases "fetch_attempts p = 0")
    case True
    then show ?thesis using assms page by (simp add: crawl_paced_def)
  next
    case False
    then obtain delay t where d: "(if \<not> delay > 0 then crawl_page web opts private home entry normalized url p
        else andthen (now_ms web) (\<lambda>t. if does_not_fit t delay deadline then
            ret (True, if entry_deferrals entry < max_crawl_deferrals
              then p\<lparr>queue := queue p @ [entry\<lparr>entry_deferrals := entry_deferrals entry + 1\<rparr>], deferred := normalized # removeAll normalized (deferred p)\<rparr>
              else p\<lparr>unfetched := normalized # removeAll normalized (unfetched p)\<rparr>)
          else andthen (sleep_ms web delay) (\<lambda>_. crawl_page web opts private home entry normalized url p))) t = (Done (running, q), s')"
      using assms unfolding crawl_paced_def by (auto elim: value_andthen)
    show ?thesis
    proof (cases "\<not> delay > 0")
      case True
      then show ?thesis using d page by simp
    next
      case False
      then obtain now u where n: "(if does_not_fit now delay deadline then
            ret (True, if entry_deferrals entry < max_crawl_deferrals
              then p\<lparr>queue := queue p @ [entry\<lparr>entry_deferrals := entry_deferrals entry + 1\<rparr>], deferred := normalized # removeAll normalized (deferred p)\<rparr>
              else p\<lparr>unfetched := normalized # removeAll normalized (unfetched p)\<rparr>)
          else andthen (sleep_ms web delay) (\<lambda>_. crawl_page web opts private home entry normalized url p)) u = (Done (running, q), s')"
        using d by (auto elim: value_andthen)
      show ?thesis
      proof (cases "does_not_fit now delay deadline")
        case True
        then show ?thesis using n by (auto simp: ret_def queue_budget_def deferral_budget_def split: if_splits)
      next
        case False
        then show ?thesis using n page by (auto elim: value_andthen)
      qed
    qed
  qed
qed

lemma crawl_turn_down:
  assumes "crawl_turn web opts private home deadline p s = (Done (True, q), s')"
  shows "goes_down p q"
proof -
  obtain t u where t: "(if past t deadline then ret (False, p) else (case queue p of [] \<Rightarrow> ret (False, p) | entry # rest \<Rightarrow>
      let p = p\<lparr>queue := rest\<rparr> in (case normalize_crawl_url web (entry_url entry) of None \<Rightarrow> ret (True, p)
      | Some normalized \<Rightarrow> if normalized \<in> set (visited p) then ret (True, p)
          else andthen (resolve_crawl_robots_decision web opts private normalized (Some (entry_raw entry))) (\<lambda>(allowed, fetch_url).
            if \<not> allowed then ret (True, p) else crawl_paced web opts private home deadline entry normalized fetch_url p)))) u = (Done (True, q), s')"
    using assms unfolding crawl_turn_def by (auto elim: value_andthen)
  then obtain entry rest where q: "queue p = entry # rest" and "\<not> past t deadline"
    by (cases "queue p") (auto simp: ret_def split: if_splits)
  let ?p = "p\<lparr>queue := rest\<rparr>"
  have budget: "queue_budget p = queue_budget ?p + deferral_budget entry" "pages ?p = pages p"
    using q by (simp_all add: queue_budget_def)
  have popped: "goes_down p ?p" using budget by (simp add: goes_down_def deferral_budget_def)
  have paced: "goes_down p q" if "crawl_paced web opts private home deadline entry normalized url ?p v = (Done (True, q), s')" for normalized url v
    using crawl_paced_down [OF that] budget by (auto simp: goes_down_def)
  show ?thesis
    using t q \<open>\<not> past t deadline\<close> popped paced
    by (auto simp: ret_def Let_def split: option.splits if_splits prod.splits elim!: value_andthen)
qed

section \<open>Termination\<close>

definition crawl_measure :: "crawl_options \<Rightarrow> (bool \<times> crawl_progress) outcome \<times> 'w crawl_world \<Rightarrow> nat \<times> nat" where
  "crawl_measure opts = (\<lambda>(r, s). case r of
     Done (running, p) \<Rightarrow> if running then (max_pages opts - length (pages p), queue_budget p) else (0, 0) | _ \<Rightarrow> (0, 0))"

lemma crawl_advance_down:
  assumes "crawl_goes_on opts st"
  shows "(crawl_measure opts (crawl_advance web opts private home deadline st), crawl_measure opts st) \<in> less_than <*lex*> less_than"
proof -
  obtain p s where st: "st = (Done (True, p), s)" "queue p \<noteq> []" "length (pages p) < max_pages opts"
    using assms by (auto simp: crawl_goes_on_def split: outcome.splits)
  obtain r s' where turn: "crawl_turn web opts private home deadline p s = (r, s')" by fastforce
  show ?thesis
  proof (cases "\<exists>q. r = Done (True, q)")
    case True
    then obtain q where r: "r = Done (True, q)" by blast
    show ?thesis using crawl_turn_down [OF turn [unfolded r]] turn st r
      by (auto simp: crawl_measure_def crawl_advance_def goes_down_def)
  next
    case False
    then have "crawl_measure opts (r, s') = (0, 0)" by (auto simp: crawl_measure_def split: outcome.splits)
    then show ?thesis using st turn by (simp add: crawl_measure_def crawl_advance_def)
  qed
qed

lemma crawl_loop_ends: "\<exists>st. crawl_loop web opts private home deadline p s = Some st"
proof -
  have "\<exists>t. while_option (crawl_goes_on opts) (crawl_advance web opts private home deadline) (Done (True, p), s) = Some t"
  proof (rule wf_while_option_Some [where P = "\<lambda>_. True"])
    show "wf {(t, s). (True \<and> crawl_goes_on opts s) \<and> t = crawl_advance web opts private home deadline s}"
      by (rule wf_subset [OF wf_inv_image [of "less_than <*lex*> less_than" "crawl_measure opts"]])
        (auto simp: inv_image_def dest: crawl_advance_down)
  qed simp_all
  then show ?thesis by (simp add: crawl_loop_def)
qed

section \<open>Pages\<close>

lemma crawl_page_runs: "crawl_page web opts priv home entry normalized url p s = (Done (b, q), s') \<Longrightarrow> b"
  unfolding crawl_page_def Let_def
  by (elim value_andthen) (auto simp: ret_def split: option.splits prod.splits if_splits)

lemma crawl_paced_runs:
  assumes "crawl_paced web opts priv home deadline entry normalized url p s = (Done (b, q), s')" shows "b"
proof (cases "fetch_attempts p = 0")
  case False
  show ?thesis using assms False crawl_page_runs unfolding crawl_paced_def
    by (auto simp: ret_def split: if_splits elim!: value_andthen) blast+
qed (use assms crawl_page_runs in \<open>auto simp: crawl_paced_def\<close>)

lemma crawl_turn_pages:
  assumes "crawl_turn web opts priv home deadline p s = (Done (b, q), s')" shows "length (pages q) \<le> Suc (length (pages p))"
proof (cases b)
  case True
  then show ?thesis using crawl_turn_down [OF assms [unfolded True [THEN eqTrueI]]] by (auto simp: goes_down_def)
next
  case False
  then have "q = p" using assms crawl_paced_runs unfolding crawl_turn_def
    by (auto simp: ret_def Let_def split: if_splits list.splits option.splits prod.splits elim!: value_andthen) blast+
  then show ?thesis by simp
qed

definition pages_within :: "crawl_options \<Rightarrow> (bool \<times> crawl_progress) outcome \<times> 'w crawl_world \<Rightarrow> bool" where
  "pages_within opts = (\<lambda>(r, s). case r of Done (b, p) \<Rightarrow> length (pages p) \<le> max_pages opts | _ \<Rightarrow> True)"

lemma crawl_advance_within:
  assumes "crawl_goes_on opts st" shows "pages_within opts (crawl_advance web opts priv home deadline st)"
proof -
  obtain p s where st: "st = (Done (True, p), s)" "length (pages p) < max_pages opts"
    using assms by (auto simp: crawl_goes_on_def split: outcome.splits)
  obtain r t where turn: "crawl_turn web opts priv home deadline p s = (r, t)" by fastforce
  then show ?thesis
    using st crawl_turn_pages [of web opts _ home deadline p s] by (cases r) (fastforce simp: crawl_advance_def pages_within_def)+
qed

lemma prepared_pages:
  assumes "prepare_crawl web opts start_url s = (Done (priv, home, deadline, p), t)" shows "pages p = []"
  using assms unfolding prepare_crawl_def Let_def
  by (auto simp: raise_def ret_def split: option.splits elim!: value_andthen)

text \<open>C33: a crawl ends, however the sites answer and however many links they give: with an error, or with no more pages than
  asked for.\<close>

theorem crawl_ends:
  "\<exists>r s. crawl_website web opts start_url w = Some (r, s)
     \<and> (case r of Done (ps, skipped) \<Rightarrow> length ps \<le> max_pages opts | _ \<Rightarrow> True)"
proof (cases "prepare_crawl web opts start_url \<lparr>outside = w, robots_cache = [], trace = []\<rparr>")
  case (Pair x s)
  show ?thesis
  proof (cases x)
    case (Done a)
    then obtain priv home deadline p where a: "x = Done (priv, home, deadline, p)" by (metis prod_cases4)
    obtain st where loop: "crawl_loop web opts priv home deadline p s = Some st" using crawl_loop_ends by blast
    have "pages_within opts st"
    proof (rule while_option_rule [OF _ loop [unfolded crawl_loop_def]])
      show "pages_within opts (Done (True, p), s)" using prepared_pages [OF Pair [unfolded a]] by (simp add: pages_within_def)
    qed (rule crawl_advance_within)
    then show ?thesis using Pair a loop
      by (cases st) (auto simp: crawl_website_def finish_crawl_def pages_within_def split: outcome.splits)
  qed (use Pair in \<open>auto simp: crawl_website_def\<close>)
qed

end
