(* ===== verification/Schedule.thy ===== *)
theory Schedule
  imports Js_Prelude
begin

text \<open>
  Schedule parsing and translation, \<^verbatim>\<open>src/tasks/schedule.ts\<close>, with the native trigger expansion of
  \<^verbatim>\<open>src/tasks/backends/schtasks.ts\<close>.  The five cron fields are parsed into \<open>schedule_field\<close> values; a
  parsed schedule is translated to a launchd calendar trigger or to a Windows Task Scheduler trigger.

  The loop of \<open>expandFieldValues\<close> does not end on a zero step, so it is a partial function and the
  translators return an option: \<open>None\<close> stands for not returning.  Every throw site is one constructor of
  \<open>schedule_error\<close>.
\<close>

section \<open>Data\<close>

datatype schedule_backend = Cron | Launchd | Schtasks

datatype field_name = FMinute | FHour | FDom | FMonth | FDow

datatype schedule_field =
    Star
  | FieldValue nat
  | Step nat
  | RangeStep nat nat nat
  | ValueList "nat list"

record schedule_fields =
  minute :: schedule_field
  hour :: schedule_field
  dom_field :: schedule_field
  month :: schedule_field
  dow :: schedule_field

record schedule_spec =
  raw_schedule :: string
  cron_text :: string
  spec_fields :: schedule_fields

datatype schedule_error =
    ScheduleEmpty
  | RebootUnsupported schedule_backend
  | NotAString
  | FieldCount nat
  | InvalidStep field_name
  | InvalidRangeStep field_name
  | InvalidRange field_name
  | InvalidValue field_name
  | InvalidListValue field_name nat
  | UnsupportedExpression field_name
  | DomDowCombination
  | StepInCalendar field_name
  | RangeInCalendar field_name
  | ListInCalendar field_name
  | NoSchtasksTrigger
  | TooManyTriggers nat

definition field_min :: "field_name \<Rightarrow> nat" where
  "field_min f = (case f of FDom \<Rightarrow> 1 | FMonth \<Rightarrow> 1 | _ \<Rightarrow> 0)"

definition field_max :: "field_name \<Rightarrow> nat" where
  "field_max f = (case f of FMinute \<Rightarrow> 59 | FHour \<Rightarrow> 23 | FDom \<Rightarrow> 31 | FMonth \<Rightarrow> 12 | FDow \<Rightarrow> 6)"

lemmas field_limits = field_min_def field_max_def

section \<open>Parsing\<close>

definition alias_to_cron :: "string \<Rightarrow> string option" where
  "alias_to_cron = map_of
     [(''@hourly'', ''0 * * * *''), (''@daily'', ''0 0 * * *''), (''@midnight'', ''0 0 * * *''),
      (''@weekly'', ''0 0 * * 0''), (''@monthly'', ''0 0 1 * *''), (''@yearly'', ''0 0 1 1 *''),
      (''@annually'', ''0 0 1 1 *'')]"

text \<open>The lower-case names the alias table inherits from \<open>Object.prototype\<close>: the \<open>in\<close> test of \<open>expandAlias\<close>
  is true for them, and the value found is not a string.\<close>

definition inherited_names :: "string list" where
  "inherited_names = [''constructor'', ''__proto__'']"

definition expand_alias :: "string \<Rightarrow> (schedule_error, string) result" where
  "expand_alias raw =
     (let t = js_trim raw in
      if t = '''' then Inl ScheduleEmpty
      else
        (let lower = to_lower_case t in
         case alias_to_cron lower of
           Some cron \<Rightarrow> Inr cron
         | None \<Rightarrow> if lower \<in> set inherited_names then Inl NotAString else Inr t))"

definition dow_names :: "string list" where
  "dow_names = [''sun'', ''mon'', ''tue'', ''wed'', ''thu'', ''fri'', ''sat'']"

definition month_names :: "string list" where
  "month_names = [''jan'', ''feb'', ''mar'', ''apr'', ''may'', ''jun'', ''jul'', ''aug'', ''sep'', ''oct'', ''nov'', ''dec'']"

definition name_index :: "field_name \<Rightarrow> string \<Rightarrow> nat option" where
  "name_index f token =
     map_option (\<lambda>i. i + (if f = FMonth then 1 else 0))
       (list_index (to_lower_case token) (if f = FMonth then month_names else dow_names))"

definition three_letters :: "string \<Rightarrow> bool" where
  "three_letters s \<longleftrightarrow> length s = 3 \<and> list_all js_letter s"

definition substitute_part :: "field_name \<Rightarrow> string \<Rightarrow> string" where
  "substitute_part f part =
     (if length part = 7 \<and> three_letters (take 3 part) \<and> part ! 3 = CHR ''-'' \<and> three_letters (drop 4 part)
      then (case (name_index f (take 3 part), name_index f (drop 4 part)) of
              (Some a, Some b) \<Rightarrow> nat_to_string a @ ''-'' @ nat_to_string b
            | _ \<Rightarrow> part)
      else
        (case (if three_letters part then name_index f part else None) of
           Some i \<Rightarrow> nat_to_string i
         | None \<Rightarrow> part))"

definition substitute_named_tokens :: "string \<Rightarrow> field_name \<Rightarrow> string" where
  "substitute_named_tokens raw f = join_with '','' (List.map (substitute_part f) (split_on CHR '','' raw))"

text \<open>The regular expressions of \<open>parseField\<close>, each returning its captured numerals.\<close>

definition match_step :: "string \<Rightarrow> nat option" where
  "match_step raw =
     (if js_starts_with ''*/'' raw \<and> all_digits (drop 2 raw) then Some (nat_of_digits (drop 2 raw)) else None)"

definition match_range_step :: "string \<Rightarrow> (nat \<times> nat \<times> nat) option" where
  "match_range_step raw =
     (case split_on CHR ''-'' raw of
        [a, rest] \<Rightarrow>
          (case split_on CHR ''/'' rest of
             [b, c] \<Rightarrow>
               if all_digits a \<and> all_digits b \<and> all_digits c
               then Some (nat_of_digits a, nat_of_digits b, nat_of_digits c) else None
           | _ \<Rightarrow> None)
      | _ \<Rightarrow> None)"

definition match_range :: "string \<Rightarrow> (nat \<times> nat) option" where
  "match_range raw =
     (case split_on CHR ''-'' raw of
        [a, b] \<Rightarrow> if all_digits a \<and> all_digits b then Some (nat_of_digits a, nat_of_digits b) else None
      | _ \<Rightarrow> None)"

definition match_list :: "string \<Rightarrow> nat list option" where
  "match_list raw =
     (let parts = split_on CHR '','' raw in
      if 2 \<le> length parts \<and> list_all all_digits parts then Some (List.map nat_of_digits parts) else None)"

definition parse_field :: "string \<Rightarrow> field_name \<Rightarrow> (schedule_error, schedule_field) result" where
  "parse_field raw_input name =
     (let raw = (if name = FMonth \<or> name = FDow then substitute_named_tokens raw_input name else raw_input) in
      if raw = ''*'' then Inr Star
      else
        (case match_step raw of
           Some n \<Rightarrow>
             if n = 0 \<or> n > field_max name - field_min name + 1 then Inl (InvalidStep name) else Inr (Step n)
         | None \<Rightarrow>
        (case match_range_step raw of
           Some (a, b, n) \<Rightarrow>
             if a < field_min name \<or> b > field_max name \<or> a > b \<or> n = 0 then Inl (InvalidRangeStep name)
             else Inr (RangeStep a b n)
         | None \<Rightarrow>
        (case match_range raw of
           Some (a, b) \<Rightarrow>
             if a < field_min name \<or> b > field_max name \<or> a > b then Inl (InvalidRange name)
             else Inr (RangeStep a b 1)
         | None \<Rightarrow>
        (if all_digits raw
         then (let v = nat_of_digits raw in
               if v < field_min name \<or> v > field_max name then Inl (InvalidValue name) else Inr (FieldValue v))
         else
        (case match_list raw of
           Some ns \<Rightarrow>
             (let values = sort (js_unique ns) in
              case find (\<lambda>v. v < field_min name \<or> v > field_max name) values of
                Some v \<Rightarrow> Inl (InvalidListValue name v)
              | None \<Rightarrow> Inr (ValueList values))
         | None \<Rightarrow> Inl (UnsupportedExpression name)))))))"

definition parse_cron_fields :: "string \<Rightarrow> (schedule_error, schedule_fields) result" where
  "parse_cron_fields cron =
     (case split_ws cron of
        [m, h, d, mon, w] \<Rightarrow>
          bind_result (parse_field m FMinute) (\<lambda>m'.
          bind_result (parse_field h FHour) (\<lambda>h'.
          bind_result (parse_field d FDom) (\<lambda>d'.
          bind_result (parse_field mon FMonth) (\<lambda>mon'.
          bind_result (parse_field w FDow) (\<lambda>w'.
            Inr \<lparr>minute = m', hour = h', dom_field = d', month = mon', dow = w'\<rparr>)))))
      | parts \<Rightarrow> Inl (FieldCount (length parts)))"

section \<open>Expanding fields\<close>

partial_function (option) expand_from :: "nat \<Rightarrow> nat \<Rightarrow> nat \<Rightarrow> nat list option" where
  "expand_from v bound step =
     (if v \<le> bound then Option.bind (expand_from (v + step) bound step) (\<lambda>vs. Some (v # vs)) else Some [])"

declare expand_from.simps [code]

definition expand_field_values :: "schedule_field \<Rightarrow> field_name \<Rightarrow> nat list option" where
  "expand_field_values f name =
     (case f of
        RangeStep a b n \<Rightarrow> expand_from a b n
      | Step n \<Rightarrow> expand_from (field_min name) (field_max name) n
      | _ \<Rightarrow> Some [])"

text \<open>\<open>expandListLikeField\<close>: the inner option is the \<open>null\<close> of the source.\<close>

definition expand_list_like :: "schedule_field \<Rightarrow> field_name \<Rightarrow> nat list option option" where
  "expand_list_like f name =
     (case f of
        ValueList vs \<Rightarrow> Some (Some vs)
      | RangeStep a b n \<Rightarrow> map_option Some (expand_field_values f name)
      | _ \<Rightarrow> Some None)"

abbreviation is_value :: "schedule_field \<Rightarrow> bool" where
  "is_value f \<equiv> (case f of FieldValue _ \<Rightarrow> True | _ \<Rightarrow> False)"

abbreviation is_step :: "schedule_field \<Rightarrow> bool" where
  "is_step f \<equiv> (case f of Step _ \<Rightarrow> True | _ \<Rightarrow> False)"

abbreviation is_range_step :: "schedule_field \<Rightarrow> bool" where
  "is_range_step f \<equiv> (case f of RangeStep _ _ _ \<Rightarrow> True | _ \<Rightarrow> False)"

abbreviation is_list :: "schedule_field \<Rightarrow> bool" where
  "is_list f \<equiv> (case f of ValueList _ \<Rightarrow> True | _ \<Rightarrow> False)"

definition value_of :: "schedule_field \<Rightarrow> nat option" where
  "value_of f = (case f of FieldValue v \<Rightarrow> Some v | _ \<Rightarrow> None)"

definition reject_dom_dow :: "schedule_fields \<Rightarrow> bool" where
  "reject_dom_dow f \<longleftrightarrow> dom_field f \<noteq> Star \<and> dow f \<noteq> Star"

section \<open>launchd\<close>

record launchd_calendar =
  cal_minute :: "nat option"
  cal_hour :: "nat option"
  cal_day :: "nat option"
  cal_month :: "nat option"
  cal_weekday :: "nat option"

datatype launchd_trigger = Calendar launchd_calendar | Calendars "launchd_calendar list"

definition empty_calendar :: launchd_calendar where
  "empty_calendar = \<lparr>cal_minute = None, cal_hour = None, cal_day = None, cal_month = None, cal_weekday = None\<rparr>"

definition reject_in_calendar :: "schedule_field \<Rightarrow> field_name \<Rightarrow> (schedule_error, unit) result" where
  "reject_in_calendar f name =
     (case f of
        Step _ \<Rightarrow> Inl (StepInCalendar name)
      | RangeStep _ _ _ \<Rightarrow> Inl (RangeInCalendar name)
      | ValueList _ \<Rightarrow> Inl (ListInCalendar name)
      | _ \<Rightarrow> Inr ())"

definition minute_calendars :: "nat list \<Rightarrow> launchd_calendar list" where
  "minute_calendars = List.map (\<lambda>m. empty_calendar\<lparr>cal_minute := Some m\<rparr>)"

definition launchd_list_like :: "schedule_fields \<Rightarrow> nat list option \<Rightarrow> nat list option \<Rightarrow> launchd_calendar list" where
  "launchd_list_like f month_values dow_values =
     (let base = empty_calendar\<lparr>cal_minute := value_of (minute f), cal_hour := value_of (hour f),
                   cal_day := value_of (dom_field f)\<rparr>;
          months = (case month_values of Some ms \<Rightarrow> List.map Some ms | None \<Rightarrow> [value_of (month f)]);
          weekdays = (case dow_values of Some ws \<Rightarrow> List.map Some ws | None \<Rightarrow> [value_of (dow f)])
      in concat (List.map (\<lambda>m. List.map (\<lambda>w. base\<lparr>cal_month := m, cal_weekday := w\<rparr>) weekdays) months))"

definition launchd_generic :: "schedule_fields \<Rightarrow> (schedule_error, launchd_trigger) result option" where
  "launchd_generic f =
     (case bind_result (reject_in_calendar (minute f) FMinute) (\<lambda>_.
           bind_result (reject_in_calendar (hour f) FHour) (\<lambda>_.
           bind_result (reject_in_calendar (dom_field f) FDom) (\<lambda>_.
           bind_result (reject_in_calendar (month f) FMonth) (\<lambda>_.
           reject_in_calendar (dow f) FDow)))) of
        Inl e \<Rightarrow> Some (Inl e)
      | Inr _ \<Rightarrow>
          (let calendar = \<lparr>cal_minute = value_of (minute f), cal_hour = value_of (hour f),
                 cal_day = value_of (dom_field f), cal_month = value_of (month f), cal_weekday = value_of (dow f)\<rparr>
           in if calendar = empty_calendar
              then map_option (\<lambda>vs. Inr (Calendars (minute_calendars vs))) (expand_field_values (Step 1) FMinute)
              else Some (Inr (Calendar calendar))))"

definition translate_to_launchd :: "schedule_fields \<Rightarrow> (schedule_error, launchd_trigger) result option" where
  "translate_to_launchd f =
     (if reject_dom_dow f then Some (Inl DomDowCombination)
      else if (is_step (minute f) \<or> is_range_step (minute f)) \<and> hour f = Star \<and> dom_field f = Star \<and>
              month f = Star \<and> dow f = Star
        then map_option (\<lambda>vs. Inr (Calendars (minute_calendars vs))) (expand_field_values (minute f) FMinute)
      else if is_value (minute f) \<and> (is_step (hour f) \<or> is_range_step (hour f)) \<and> dom_field f = Star \<and>
              month f = Star \<and> dow f = Star
        then map_option
          (\<lambda>vs. Inr (Calendars
             (List.map (\<lambda>h. empty_calendar\<lparr>cal_minute := value_of (minute f), cal_hour := Some h\<rparr>) vs)))
          (expand_field_values (hour f) FHour)
      else
        Option.bind (expand_list_like (dow f) FDow) (\<lambda>dow_values.
        Option.bind (expand_list_like (month f) FMonth) (\<lambda>month_values.
          if (dow_values \<noteq> None \<or> month_values \<noteq> None) \<and>
             (is_value (minute f) \<or> minute f = Star) \<and> (is_value (hour f) \<or> hour f = Star) \<and>
             (is_value (dom_field f) \<or> dom_field f = Star)
          then Some (Inr (Calendars (launchd_list_like f month_values dow_values)))
          else launchd_generic f)))"

section \<open>Windows Task Scheduler\<close>

datatype schtasks_trigger =
    EveryMinutes nat
  | MinuteValues "nat list"
  | EveryHours nat nat
  | HourValues "nat list" nat
  | Daily nat nat
  | Weekly nat nat "nat list"
  | Monthly nat nat "nat list" "nat list"

definition max_schtasks_triggers :: nat where
  "max_schtasks_triggers = 48"

definition minute_values_trigger :: "nat list \<Rightarrow> (schedule_error, schtasks_trigger) result" where
  "minute_values_trigger minutes =
     (if length minutes > max_schtasks_triggers then Inl (TooManyTriggers (length minutes))
      else Inr (MinuteValues minutes))"

definition hour_step_trigger :: "nat \<Rightarrow> schedule_field \<Rightarrow> nat \<Rightarrow> bool \<Rightarrow> (schedule_error, schtasks_trigger) result option" where
  "hour_step_trigger m h n full =
     (if full \<and> 24 mod n = 0 \<and> n < 24 then Some (Inr (EveryHours n m))
      else map_option (\<lambda>vs. Inr (HourValues vs m)) (expand_field_values h FHour))"

definition schtasks_by_day :: "schedule_fields \<Rightarrow> nat \<Rightarrow> nat \<Rightarrow> (schedule_error, schtasks_trigger) result option" where
  "schtasks_by_day f m h =
     (if dom_field f = Star \<and> month f = Star \<and> dow f = Star then Some (Inr (Daily h m))
      else if dom_field f = Star \<and> month f = Star \<and> (is_value (dow f) \<or> is_list (dow f) \<or> is_range_step (dow f))
        then (case dow f of
                FieldValue w \<Rightarrow> Some (Inr (Weekly h m [w]))
              | _ \<Rightarrow> map_option (\<lambda>ws. Inr (Weekly h m (case ws of Some l \<Rightarrow> l | None \<Rightarrow> [])))
                       (expand_list_like (dow f) FDow))
      else
        (case (dom_field f, month f, dow f) of
           (FieldValue d, Star, Star) \<Rightarrow> Some (Inr (Monthly h m [d] [1..<13]))
         | (FieldValue d, FieldValue mon, Star) \<Rightarrow> Some (Inr (Monthly h m [d] [mon]))
         | (FieldValue d, ValueList mons, Star) \<Rightarrow> Some (Inr (Monthly h m [d] mons))
         | (ValueList ds, Star, Star) \<Rightarrow> Some (Inr (Monthly h m ds [1..<13]))
         | (ValueList ds, FieldValue mon, Star) \<Rightarrow> Some (Inr (Monthly h m ds [mon]))
         | (ValueList ds, ValueList mons, Star) \<Rightarrow> Some (Inr (Monthly h m ds mons))
         | _ \<Rightarrow> Some (Inl NoSchtasksTrigger)))"

definition translate_to_schtasks :: "schedule_fields \<Rightarrow> (schedule_error, schtasks_trigger) result option" where
  "translate_to_schtasks f =
     (let every_day = (dom_field f = Star \<and> month f = Star \<and> dow f = Star) in
      if reject_dom_dow f then Some (Inl DomDowCombination)
      else
        (case (minute f, hour f) of
           (Step n, Star) \<Rightarrow>
             if every_day
             then (if 60 mod n \<noteq> 0
                   then map_option minute_values_trigger (expand_field_values (minute f) FMinute)
                   else Some (Inr (EveryMinutes n)))
             else Some (Inl NoSchtasksTrigger)
         | (RangeStep a b n, Star) \<Rightarrow>
             if every_day
             then (if a = field_min FMinute \<and> b = field_max FMinute \<and> 60 mod n = 0
                   then Some (Inr (EveryMinutes n))
                   else map_option minute_values_trigger (expand_field_values (minute f) FMinute))
             else Some (Inl NoSchtasksTrigger)
         | (FieldValue m, Step n) \<Rightarrow>
             if every_day then hour_step_trigger m (hour f) n True else Some (Inl NoSchtasksTrigger)
         | (FieldValue m, RangeStep a b n) \<Rightarrow>
             if every_day then hour_step_trigger m (hour f) n (a = field_min FHour \<and> b = field_max FHour)
             else Some (Inl NoSchtasksTrigger)
         | (FieldValue m, Star) \<Rightarrow>
             if every_day then Some (Inr (EveryHours 1 m)) else Some (Inl NoSchtasksTrigger)
         | (FieldValue m, FieldValue h) \<Rightarrow> schtasks_by_day f m h
         | _ \<Rightarrow> Some (Inl NoSchtasksTrigger)))"

text \<open>The native triggers the backend renders: \<open>expandNativeTriggers\<close>.\<close>

datatype native_trigger =
    NativeDaily nat nat "nat option"
  | NativeWeekly nat nat "nat list"
  | NativeMonthly nat nat "nat list" "nat list"

fun expand_native_triggers :: "schtasks_trigger \<Rightarrow> native_trigger list" where
  "expand_native_triggers (EveryMinutes n) = [NativeDaily 0 0 (Some n)]"
| "expand_native_triggers (MinuteValues ms) = List.map (\<lambda>m. NativeDaily 0 m (Some 60)) ms"
| "expand_native_triggers (EveryHours n m) = [NativeDaily 0 m (Some (n * 60))]"
| "expand_native_triggers (HourValues hs m) = List.map (\<lambda>h. NativeDaily h m None) hs"
| "expand_native_triggers (Daily h m) = [NativeDaily h m None]"
| "expand_native_triggers (Weekly h m ws) = [NativeWeekly h m ws]"
| "expand_native_triggers (Monthly h m ds mons) = [NativeMonthly h m ds mons]"

definition translate_for :: "schedule_backend \<Rightarrow> schedule_fields \<Rightarrow> (schedule_error, unit) result option" where
  "translate_for b f =
     (case b of
        Cron \<Rightarrow> Some (Inr ())
      | Launchd \<Rightarrow> map_option (map_result (\<lambda>_. ())) (translate_to_launchd f)
      | Schtasks \<Rightarrow> map_option (map_result (\<lambda>_. ())) (translate_to_schtasks f))"

definition reboot_fields :: schedule_fields where
  "reboot_fields = \<lparr>minute = Star, hour = Star, dom_field = Star, month = Star, dow = Star\<rparr>"

definition parse_schedule :: "string \<Rightarrow> schedule_backend \<Rightarrow> (schedule_error, schedule_spec) result option" where
  "parse_schedule input backend =
     (if to_lower_case (js_trim input) = ''@reboot''
      then Some (if backend \<noteq> Cron then Inl (RebootUnsupported backend)
                 else Inr \<lparr>raw_schedule = input, cron_text = ''@reboot'', spec_fields = reboot_fields\<rparr>)
      else
        (case bind_result (expand_alias input) (\<lambda>cron. map_result (\<lambda>f. (cron, f)) (parse_cron_fields cron)) of
           Inl e \<Rightarrow> Some (Inl e)
         | Inr (cron, f) \<Rightarrow>
             map_option (map_result (\<lambda>_. \<lparr>raw_schedule = input, cron_text = cron, spec_fields = f\<rparr>))
               (translate_for backend f)))"

section \<open>What a schedule means\<close>

text \<open>The values a field selects, and the minutes of the calendar at which a schedule fires.\<close>

definition field_matches :: "field_name \<Rightarrow> schedule_field \<Rightarrow> nat \<Rightarrow> bool" where
  "field_matches name f v \<longleftrightarrow>
     (case f of
        Star \<Rightarrow> True
      | FieldValue x \<Rightarrow> v = x
      | Step n \<Rightarrow> field_min name \<le> v \<and> (v - field_min name) mod n = 0
      | RangeStep a b n \<Rightarrow> a \<le> v \<and> v \<le> b \<and> (v - a) mod n = 0
      | ValueList vs \<Rightarrow> v \<in> set vs)"

definition field_ok :: "field_name \<Rightarrow> schedule_field \<Rightarrow> bool" where
  "field_ok name f \<longleftrightarrow>
     (case f of
        Star \<Rightarrow> True
      | FieldValue x \<Rightarrow> field_min name \<le> x \<and> x \<le> field_max name
      | Step n \<Rightarrow> 1 \<le> n \<and> n \<le> field_max name - field_min name + 1
      | RangeStep a b n \<Rightarrow> field_min name \<le> a \<and> a \<le> b \<and> b \<le> field_max name \<and> 1 \<le> n
      | ValueList vs \<Rightarrow> vs \<noteq> [] \<and> sorted vs \<and> distinct vs \<and> (\<forall>v \<in> set vs. field_min name \<le> v \<and> v \<le> field_max name))"

definition fields_ok :: "schedule_fields \<Rightarrow> bool" where
  "fields_ok f \<longleftrightarrow> field_ok FMinute (minute f) \<and> field_ok FHour (hour f) \<and> field_ok FDom (dom_field f) \<and>
     field_ok FMonth (month f) \<and> field_ok FDow (dow f)"

record clock_time =
  at_minute :: nat
  at_hour :: nat
  at_day :: nat
  at_month :: nat
  at_weekday :: nat

definition valid_time :: "clock_time \<Rightarrow> bool" where
  "valid_time t \<longleftrightarrow> at_minute t < 60 \<and> at_hour t < 24 \<and> 1 \<le> at_day t \<and> at_day t \<le> 31 \<and>
     1 \<le> at_month t \<and> at_month t \<le> 12 \<and> at_weekday t < 7"

definition cron_fires :: "schedule_fields \<Rightarrow> clock_time \<Rightarrow> bool" where
  "cron_fires f t \<longleftrightarrow> field_matches FMinute (minute f) (at_minute t) \<and> field_matches FHour (hour f) (at_hour t) \<and>
     field_matches FDom (dom_field f) (at_day t) \<and> field_matches FMonth (month f) (at_month t) \<and>
     field_matches FDow (dow f) (at_weekday t)"

definition key_matches :: "nat option \<Rightarrow> nat \<Rightarrow> bool" where
  "key_matches k v \<longleftrightarrow> (case k of None \<Rightarrow> True | Some x \<Rightarrow> v = x)"

definition calendar_fires :: "launchd_calendar \<Rightarrow> clock_time \<Rightarrow> bool" where
  "calendar_fires c t \<longleftrightarrow> key_matches (cal_minute c) (at_minute t) \<and> key_matches (cal_hour c) (at_hour t) \<and>
     key_matches (cal_day c) (at_day t) \<and> key_matches (cal_month c) (at_month t) \<and>
     key_matches (cal_weekday c) (at_weekday t)"

definition trigger_calendars :: "launchd_trigger \<Rightarrow> launchd_calendar list" where
  "trigger_calendars tr = (case tr of Calendar c \<Rightarrow> [c] | Calendars cs \<Rightarrow> cs)"

definition launchd_fires :: "launchd_trigger \<Rightarrow> clock_time \<Rightarrow> bool" where
  "launchd_fires tr t \<longleftrightarrow> (\<exists>c \<in> set (trigger_calendars tr). calendar_fires c t)"

text \<open>A native daily trigger starts at its time of day and repeats, when it has an interval, for the
  duration \<open>24 * 60 - interval\<close> the backend renders.\<close>

definition native_fires :: "native_trigger \<Rightarrow> clock_time \<Rightarrow> bool" where
  "native_fires tr t \<longleftrightarrow>
     (case tr of
        NativeDaily h m None \<Rightarrow> at_hour t = h \<and> at_minute t = m
      | NativeDaily h m (Some i) \<Rightarrow>
          (\<exists>k \<le> (1440 - i) div i. (h * 60 + m + k * i) mod 1440 = at_hour t * 60 + at_minute t)
      | NativeWeekly h m ws \<Rightarrow> at_hour t = h \<and> at_minute t = m \<and> at_weekday t \<in> set ws
      | NativeMonthly h m ds mons \<Rightarrow> at_hour t = h \<and> at_minute t = m \<and> at_day t \<in> set ds \<and> at_month t \<in> set mons)"

definition schtasks_fires :: "schtasks_trigger \<Rightarrow> clock_time \<Rightarrow> bool" where
  "schtasks_fires tr t \<longleftrightarrow> (\<exists>n \<in> set (expand_native_triggers tr). native_fires n t)"

section \<open>Parsing stays within the limits\<close>

lemma find_None_all: "find P xs = None \<longleftrightarrow> (\<forall>x \<in> set xs. \<not> P x)"
  by (induction xs) auto

lemma js_unique_Nil [simp]: "js_unique xs = [] \<longleftrightarrow> xs = []"
  by (cases xs) auto

lemma sort_js_unique_Nil [simp]: "sort (js_unique xs) = [] \<longleftrightarrow> xs = []"
  by (metis js_unique_Nil length_0_conv length_sort)

lemma match_list_nonempty: "match_list raw = Some ns \<Longrightarrow> ns \<noteq> []"
  by (auto simp: match_list_def Let_def split: if_splits)

lemma parse_field_ok: "parse_field raw name = Inr f \<Longrightarrow> field_ok name f"
  by (auto simp: parse_field_def field_ok_def Let_def find_None_all not_less dest: match_list_nonempty
      split: if_splits option.splits)

lemma parse_cron_fields_ok: "parse_cron_fields cron = Inr f \<Longrightarrow> fields_ok f"
  by (auto simp: parse_cron_fields_def fields_ok_def bind_result_Inr_iff dest: parse_field_ok split: list.splits)

section \<open>Expansion\<close>

lemma expand_from_Some:
  assumes "0 < step"
  shows "\<exists>vs. expand_from v b step = Some vs \<and> sorted_wrt (<) vs \<and>
    set vs = {x. v \<le> x \<and> x \<le> b \<and> step dvd x - v}"
proof (induction "b + 1 - v" arbitrary: v rule: less_induct)
  case less
  show ?case
  proof (cases "v \<le> b")
    case False
    then show ?thesis by (subst expand_from.simps) auto
  next
    case True
    then have "b + 1 - (v + step) < b + 1 - v" using assms by simp
    then obtain vs where vs: "expand_from (v + step) b step = Some vs" "sorted_wrt (<) vs"
      and set: "set vs = {x. v + step \<le> x \<and> x \<le> b \<and> step dvd x - (v + step)}"
      using less by blast
    have dvd: "step dvd x - v \<longleftrightarrow> x = v \<or> v + step \<le> x \<and> step dvd x - (v + step)" if "v \<le> x" for x
    proof (cases "v + step \<le> x")
      case True
      then have "x - v = (x - (v + step)) + step" by simp
      then show ?thesis using True assms by (metis dvd_add_triv_right_iff less_add_same_cancel1 linorder_not_le)
    next
      case False
      then show ?thesis using that nat_dvd_not_less [of "x - v" step] by (cases "x = v") auto
    qed
    have "x \<in> set (v # vs) \<longleftrightarrow> v \<le> x \<and> x \<le> b \<and> step dvd x - v" for x
      using set dvd [of x] True assms by (cases "v \<le> x") auto
    then have "set (v # vs) = {x. v \<le> x \<and> x \<le> b \<and> step dvd x - v}" by blast
    moreover have "sorted_wrt (<) (v # vs)" using vs(2) set assms by auto
    ultimately show ?thesis using vs(1) True by (subst expand_from.simps) simp
  qed
qed

lemma expand_field_values_ok:
  assumes "field_ok name f" "is_step f \<or> is_range_step f"
  shows "\<exists>vs. expand_field_values f name = Some vs \<and> sorted_wrt (<) vs \<and>
    (\<forall>x. x \<in> set vs \<longleftrightarrow> x \<le> field_max name \<and> field_matches name f x)"
proof (cases f)
  case (Step n)
  with assms have "0 < n" by (simp add: field_ok_def)
  from expand_from_Some [OF this, of "field_min name" "field_max name"] show ?thesis
    using Step by (auto simp: expand_field_values_def field_matches_def)
next
  case (RangeStep a b n)
  with assms have "0 < n" "b \<le> field_max name" by (auto simp: field_ok_def)
  with expand_from_Some [of n a b] show ?thesis
    using RangeStep by (fastforce simp: expand_field_values_def field_matches_def)
qed (use assms in auto)

lemma expand_list_like_ok:
  assumes "field_ok name f"
  shows "\<exists>r. expand_list_like f name = Some r \<and>
    (case r of
       None \<Rightarrow> \<not> is_list f \<and> \<not> is_range_step f
     | Some vs \<Rightarrow> (is_list f \<or> is_range_step f) \<and> (\<forall>x. x \<in> set vs \<longleftrightarrow> x \<le> field_max name \<and> field_matches name f x))"
proof (cases f)
  case (RangeStep a b n)
  then show ?thesis using expand_field_values_ok [OF assms] by (auto simp: expand_list_like_def)
next
  case (ValueList vs)
  then show ?thesis using assms by (auto simp: expand_list_like_def field_matches_def field_ok_def)
qed (auto simp: expand_list_like_def)


section \<open>launchd\<close>

abbreviation list_like :: "schedule_field \<Rightarrow> bool" where
  "list_like f \<equiv> is_list f \<or> is_range_step f"

text \<open>The two combinations whose step the list-like branch loses.\<close>

definition launchd_loses_step :: "schedule_fields \<Rightarrow> bool" where
  "launchd_loses_step f \<longleftrightarrow> is_step (month f) \<and> list_like (dow f) \<or> is_step (dow f) \<and> list_like (month f)"

lemma key_matches_value_of:
  "is_value f \<or> f = Star \<Longrightarrow> key_matches (value_of f) v = field_matches name f v"
  by (cases f) (auto simp: key_matches_def value_of_def field_matches_def)

lemma key_matches_list:
  assumes "\<forall>x. x \<in> set vs \<longleftrightarrow> x \<le> field_max name \<and> field_matches name f x" "v \<le> field_max name"
  shows "(\<exists>k \<in> set (List.map Some vs). key_matches k v) = field_matches name f v"
  using assms by (auto simp: key_matches_def)

lemma empty_calendar_simps [simp]:
  "cal_minute empty_calendar = None" "cal_hour empty_calendar = None" "cal_day empty_calendar = None"
  "cal_month empty_calendar = None" "cal_weekday empty_calendar = None"
  by (simp_all add: empty_calendar_def)

lemma key_matches_simps [simp]: "key_matches None v" "key_matches (Some x) v = (v = x)"
  by (simp_all add: key_matches_def)

lemma field_matches_Star [simp]: "field_matches name Star v"
  by (simp add: field_matches_def)

lemma valid_time_limits:
  "valid_time t \<Longrightarrow> at_minute t \<le> field_max FMinute" "valid_time t \<Longrightarrow> at_hour t \<le> field_max FHour"
  "valid_time t \<Longrightarrow> at_month t \<le> field_max FMonth" "valid_time t \<Longrightarrow> at_weekday t \<le> field_max FDow"
  by (auto simp: valid_time_def field_max_def)

lemma minute_calendars_fire:
  assumes "\<forall>x. x \<in> set vs \<longleftrightarrow> x \<le> field_max FMinute \<and> field_matches FMinute f x" "valid_time t"
  shows "launchd_fires (Calendars (minute_calendars vs)) t = field_matches FMinute f (at_minute t)"
  using assms valid_time_limits [OF assms(2)]
  by (auto simp: launchd_fires_def trigger_calendars_def minute_calendars_def calendar_fires_def)

lemma hour_calendars_fire:
  assumes "\<forall>x. x \<in> set vs \<longleftrightarrow> x \<le> field_max FHour \<and> field_matches FHour f x" "valid_time t"
  shows "launchd_fires (Calendars (List.map
      (\<lambda>h. empty_calendar\<lparr>cal_minute := m, cal_hour := Some h\<rparr>) vs)) t \<longleftrightarrow>
    key_matches m (at_minute t) \<and> field_matches FHour f (at_hour t)"
  using assms valid_time_limits [OF assms(2)]
  by (auto simp: launchd_fires_def trigger_calendars_def calendar_fires_def)

lemma list_like_calendars_fire:
  assumes m: "\<And>v. v \<le> field_max FMonth \<Longrightarrow>
      (\<exists>k \<in> set (case mv of Some ms \<Rightarrow> List.map Some ms | None \<Rightarrow> [value_of (month f)]). key_matches k v) =
      field_matches FMonth (month f) v"
    and w: "\<And>v. v \<le> field_max FDow \<Longrightarrow>
      (\<exists>k \<in> set (case wv of Some ws \<Rightarrow> List.map Some ws | None \<Rightarrow> [value_of (dow f)]). key_matches k v) =
      field_matches FDow (dow f) v"
    and s: "is_value (minute f) \<or> minute f = Star" "is_value (hour f) \<or> hour f = Star"
      "is_value (dom_field f) \<or> dom_field f = Star"
    and t: "valid_time t"
  shows "launchd_fires (Calendars (launchd_list_like f mv wv)) t = cron_fires f t"
proof -
  let ?ms = "set (case mv of Some ms \<Rightarrow> List.map Some ms | None \<Rightarrow> [value_of (month f)])"
  let ?ws = "set (case wv of Some ws \<Rightarrow> List.map Some ws | None \<Rightarrow> [value_of (dow f)])"
  have "launchd_fires (Calendars (launchd_list_like f mv wv)) t \<longleftrightarrow>
      key_matches (value_of (minute f)) (at_minute t) \<and> key_matches (value_of (hour f)) (at_hour t) \<and>
      key_matches (value_of (dom_field f)) (at_day t) \<and>
      (\<exists>k \<in> ?ms. key_matches k (at_month t)) \<and> (\<exists>k \<in> ?ws. key_matches k (at_weekday t))"
    by (auto simp: launchd_fires_def trigger_calendars_def launchd_list_like_def Let_def calendar_fires_def)
  then show ?thesis
    using m [OF valid_time_limits(3) [OF t]] w [OF valid_time_limits(4) [OF t]]
      key_matches_value_of [OF s(1), of _ FMinute] key_matches_value_of [OF s(2), of _ FHour]
      key_matches_value_of [OF s(3), of _ FDom]
    by (simp add: cron_fires_def)
qed

lemma reject_in_calendar_Inr: "reject_in_calendar f name = Inr u \<longleftrightarrow> is_value f \<or> f = Star"
  by (cases f) (auto simp: reject_in_calendar_def)

lemma launchd_generic_fires:
  assumes g: "launchd_generic f = Some (Inr tr)" and t: "valid_time t"
  shows "launchd_fires tr t = cron_fires f t"
proof -
  have simple: "is_value (minute f) \<or> minute f = Star" "is_value (hour f) \<or> hour f = Star"
    "is_value (dom_field f) \<or> dom_field f = Star" "is_value (month f) \<or> month f = Star"
    "is_value (dow f) \<or> dow f = Star"
    using g by (auto simp: launchd_generic_def bind_result_Inr_iff reject_in_calendar_Inr split: sum.splits)
  let ?c = "\<lparr>cal_minute = value_of (minute f), cal_hour = value_of (hour f),
    cal_day = value_of (dom_field f), cal_month = value_of (month f), cal_weekday = value_of (dow f)\<rparr>"
  have c: "calendar_fires ?c t = cron_fires f t"
    using key_matches_value_of [OF simple(1), of _ FMinute] key_matches_value_of [OF simple(2), of _ FHour]
      key_matches_value_of [OF simple(3), of _ FDom] key_matches_value_of [OF simple(4), of _ FMonth]
      key_matches_value_of [OF simple(5), of _ FDow]
    by (simp add: calendar_fires_def cron_fires_def)
  show ?thesis
  proof (cases "?c = empty_calendar")
    case False
    then have "tr = Calendar ?c"
      using g by (auto simp: launchd_generic_def Let_def split: sum.splits)
    then show ?thesis using c by (simp add: launchd_fires_def trigger_calendars_def)
  next
    case True
    then have all: "cron_fires f t" using c by (simp add: calendar_fires_def)
    have "field_ok FMinute (Step 1)" by (simp add: field_ok_def field_limits)
    with expand_field_values_ok [of FMinute "Step 1"] obtain vs
      where vs: "expand_field_values (Step 1) FMinute = Some vs"
        "\<forall>x. x \<in> set vs \<longleftrightarrow> x \<le> field_max FMinute \<and> field_matches FMinute (Step 1) x" by auto
    then have "tr = Calendars (minute_calendars vs)"
      using g True by (auto simp: launchd_generic_def Let_def split: sum.splits)
    then show ?thesis using minute_calendars_fire [OF vs(2) t] all
      by (simp add: field_matches_def field_limits)
  qed
qed

lemma translate_to_launchd_fires:
  assumes ok: "fields_ok f" and g: "translate_to_launchd f = Some (Inr tr)"
    and l: "\<not> launchd_loses_step f" and t: "valid_time t"
  shows "launchd_fires tr t = cron_fires f t"
proof -
  have okm: "field_ok FMinute (minute f)" and okh: "field_ok FHour (hour f)"
    and okw: "field_ok FDow (dow f)" and okmon: "field_ok FMonth (month f)"
    using ok by (auto simp: fields_ok_def)
  have nd: "\<not> reject_dom_dow f" using g by (auto simp: translate_to_launchd_def)
  consider (minute) "is_step (minute f) \<or> is_range_step (minute f)" "hour f = Star" "dom_field f = Star" "month f = Star" "dow f = Star"
    | (hour) "is_value (minute f)" "is_step (hour f) \<or> is_range_step (hour f)" "dom_field f = Star" "month f = Star" "dow f = Star"
    | (rest) "\<not> ((is_step (minute f) \<or> is_range_step (minute f)) \<and> hour f = Star \<and> dom_field f = Star \<and> month f = Star \<and> dow f = Star)"
      "\<not> (is_value (minute f) \<and> (is_step (hour f) \<or> is_range_step (hour f)) \<and> dom_field f = Star \<and> month f = Star \<and> dow f = Star)"
    by blast
  then show ?thesis
  proof cases
    case minute
    obtain vs where vs: "expand_field_values (minute f) FMinute = Some vs"
        "\<forall>x. x \<in> set vs \<longleftrightarrow> x \<le> field_max FMinute \<and> field_matches FMinute (minute f) x"
      using expand_field_values_ok [OF okm minute(1)] by blast
    then have "tr = Calendars (minute_calendars vs)"
      using g minute nd by (simp add: translate_to_launchd_def)
    then show ?thesis using minute_calendars_fire [OF vs(2) t] minute by (simp add: cron_fires_def)
  next
    case hour
    obtain vs where vs: "expand_field_values (hour f) FHour = Some vs"
        "\<forall>x. x \<in> set vs \<longleftrightarrow> x \<le> field_max FHour \<and> field_matches FHour (hour f) x"
      using expand_field_values_ok [OF okh hour(2)] by blast
    have "\<not> (is_step (minute f) \<or> is_range_step (minute f))" using hour(1) by (cases "minute f") auto
    then have "tr = Calendars (List.map
        (\<lambda>h. empty_calendar\<lparr>cal_minute := value_of (minute f), cal_hour := Some h\<rparr>) vs)"
      using g hour nd vs by (simp add: translate_to_launchd_def)
    then show ?thesis
      using hour_calendars_fire [OF vs(2) t] hour key_matches_value_of [of "minute f" _ FMinute]
      by (simp add: cron_fires_def)
  next
    case rest
    obtain wv where wv: "expand_list_like (dow f) FDow = Some wv" and
      w: "case wv of None \<Rightarrow> \<not> list_like (dow f)
        | Some vs \<Rightarrow> list_like (dow f) \<and> (\<forall>x. x \<in> set vs \<longleftrightarrow> x \<le> field_max FDow \<and> field_matches FDow (dow f) x)"
      using expand_list_like_ok [OF okw] by (auto split: option.splits)
    obtain mv where mv: "expand_list_like (month f) FMonth = Some mv" and
      m: "case mv of None \<Rightarrow> \<not> list_like (month f)
        | Some vs \<Rightarrow> list_like (month f) \<and> (\<forall>x. x \<in> set vs \<longleftrightarrow> x \<le> field_max FMonth \<and> field_matches FMonth (month f) x)"
      using expand_list_like_ok [OF okmon] by (auto split: option.splits)
    let ?simple = "(is_value (minute f) \<or> minute f = Star) \<and> (is_value (hour f) \<or> hour f = Star) \<and>
      (is_value (dom_field f) \<or> dom_field f = Star)"
    have red: "translate_to_launchd f =
        (if (wv \<noteq> None \<or> mv \<noteq> None) \<and> ?simple then Some (Inr (Calendars (launchd_list_like f mv wv)))
         else launchd_generic f)"
      unfolding translate_to_launchd_def if_not_P [OF nd] if_not_P [OF rest(1)] if_not_P [OF rest(2)] wv mv by simp
    show ?thesis
    proof (cases "(wv \<noteq> None \<or> mv \<noteq> None) \<and> ?simple")
      case False
      have "launchd_generic f = Some (Inr tr)" using g unfolding red if_not_P [OF False] .
      then show ?thesis using t by (rule launchd_generic_fires)
    next
      case True
      have tr: "tr = Calendars (launchd_list_like f mv wv)"
        using g unfolding red if_P [OF True] by simp
      have fw: "(\<exists>k \<in> set (case wv of Some ws \<Rightarrow> List.map Some ws | None \<Rightarrow> [value_of (dow f)]). key_matches k v) =
          field_matches FDow (dow f) v" if "v \<le> field_max FDow" for v
      proof (cases wv)
        case None
        then have "mv \<noteq> None" using True by simp
        then have "list_like (month f)" using m by auto
        then have "\<not> is_step (dow f)" using l by (simp add: launchd_loses_step_def)
        then have "is_value (dow f) \<or> dow f = Star" using w None by (cases "dow f") auto
        then show ?thesis using None by (simp add: key_matches_value_of)
      next
        case (Some vs)
        then show ?thesis using w key_matches_list [OF _ that, of vs "dow f"] by simp
      qed
      have fm: "(\<exists>k \<in> set (case mv of Some ws \<Rightarrow> List.map Some ws | None \<Rightarrow> [value_of (month f)]). key_matches k v) =
          field_matches FMonth (month f) v" if "v \<le> field_max FMonth" for v
      proof (cases mv)
        case None
        then have "wv \<noteq> None" using True by simp
        then have "list_like (dow f)" using w by auto
        then have "\<not> is_step (month f)" using l by (simp add: launchd_loses_step_def)
        then have "is_value (month f) \<or> month f = Star" using m None by (cases "month f") auto
        then show ?thesis using None by (simp add: key_matches_value_of)
      next
        case (Some vs)
        then show ?thesis using m key_matches_list [OF _ that, of vs "month f"] by simp
      qed
      show ?thesis
        unfolding tr by (rule list_like_calendars_fire [OF fm fw _ _ _ t]) (use True in auto)
    qed
  qed
qed


section \<open>Task Scheduler\<close>

text \<open>A repetition whose interval divides the day covers every time that is congruent to its start.\<close>

lemma repetition_covers:
  assumes i: "0 < i" "i dvd 1440" and s: "s < i" and x: "x < (1440::nat)"
  shows "(\<exists>k \<le> (1440 - i) div i. (s + k * i) mod 1440 = x) \<longleftrightarrow> x mod i = s"
proof -
  obtain q where q: "1440 = i * q" using i by (auto elim: dvdE)
  have qp: "0 < q" using q by (cases q) auto
  have bound: "(1440 - i) div i = q - 1"
  proof -
    have "1440 - i = i * (q - 1)" unfolding q by (simp add: right_diff_distrib')
    then show ?thesis using i by simp
  qed
  show ?thesis
  proof
    assume "\<exists>k \<le> (1440 - i) div i. (s + k * i) mod 1440 = x"
    then obtain k where k: "(s + k * i) mod 1440 = x" by blast
    have "x mod i = (s + k * i) mod i" using k i by (metis mod_mod_cancel)
    then show "x mod i = s" using s by simp
  next
    assume m: "x mod i = s"
    let ?k = "x div i"
    have e: "s + ?k * i = x" using m by (metis add.commute div_mult_mod_eq)
    have "?k < q" using x q i by (simp add: less_mult_imp_div_less mult.commute)
    then have "?k \<le> (1440 - i) div i" using bound by simp
    then show "\<exists>k \<le> (1440 - i) div i. (s + k * i) mod 1440 = x" using e x by (intro exI [of _ ?k]) simp
  qed
qed

lemma native_daily_repeat:
  assumes "0 < i" "i dvd 1440" "h * 60 + m < i" "valid_time t"
  shows "native_fires (NativeDaily h m (Some i)) t \<longleftrightarrow> (at_hour t * 60 + at_minute t) mod i = h * 60 + m"
proof -
  have "at_hour t * 60 + at_minute t < 1440" using assms(4) by (auto simp: valid_time_def)
  from repetition_covers [OF assms(1-3) this] show ?thesis by (simp add: native_fires_def)
qed

lemma minute_of_day_mod:
  assumes "i dvd 60" shows "((h::nat) * 60 + m) mod i = m mod i"
proof -
  have "(h * 60) mod i = 0" using assms by (metis dvd_imp_mod_0 dvd_mult)
  then show ?thesis by (metis add_0 mod_add_left_eq)
qed

lemma every_minutes_fires:
  assumes "0 < n" "60 mod n = 0" "valid_time t"
  shows "schtasks_fires (EveryMinutes n) t \<longleftrightarrow> at_minute t mod n = 0"
proof -
  have d: "n dvd 60" using assms(2) by auto
  then have "n dvd 1440" by (rule dvd_trans) simp
  then show ?thesis
    using native_daily_repeat [of n 0 0 t] assms minute_of_day_mod [OF d] by (simp add: schtasks_fires_def)
qed

lemma minute_values_fires:
  assumes "\<forall>m \<in> set ms. m < 60" "valid_time t"
  shows "schtasks_fires (MinuteValues ms) t \<longleftrightarrow> at_minute t \<in> set ms"
proof -
  have "native_fires (NativeDaily 0 m (Some 60)) t \<longleftrightarrow> at_minute t = m" if "m < 60" for m
    using native_daily_repeat [of 60 0 m t] that assms(2) by (auto simp: valid_time_def)
  then show ?thesis using assms(1) by (auto simp: schtasks_fires_def)
qed

lemma every_hours_fires:
  assumes "0 < n" "24 mod n = 0" "m < 60" "valid_time t"
  shows "schtasks_fires (EveryHours n m) t \<longleftrightarrow> at_minute t = m \<and> at_hour t mod n = 0"
proof -
  obtain q where "24 = n * q" using assms(2) by (metis dvd_def mod_0_imp_dvd)
  then have "1440 = (n * 60) * q" by simp
  then have d: "n * 60 dvd 1440" by (metis dvd_triv_left)
  have lt: "0 * 60 + m < n * 60" using assms(1,3) by (cases n) auto
  have mn: "at_minute t < 60" using assms(4) by (simp add: valid_time_def)
  have "(at_hour t * 60 + at_minute t) mod (n * 60) = (at_hour t mod n) * 60 + at_minute t"
    using mn by (simp add: mod_mult2_eq mult.commute [of n 60])
  then have "native_fires (NativeDaily 0 m (Some (n * 60))) t \<longleftrightarrow> (at_hour t mod n) * 60 + at_minute t = m"
    using native_daily_repeat [OF _ d lt assms(4)] assms(1) by simp
  then show ?thesis using assms(3) by (auto simp: schtasks_fires_def)
qed


lemma hour_values_fires:
  "schtasks_fires (HourValues hs m) t \<longleftrightarrow> at_minute t = m \<and> at_hour t \<in> set hs"
  by (auto simp: schtasks_fires_def native_fires_def)

lemma calendar_triggers_fire:
  "schtasks_fires (Daily h m) t \<longleftrightarrow> at_hour t = h \<and> at_minute t = m"
  "schtasks_fires (Weekly h m ws) t \<longleftrightarrow> at_hour t = h \<and> at_minute t = m \<and> at_weekday t \<in> set ws"
  "schtasks_fires (Monthly h m ds mons) t \<longleftrightarrow>
     at_hour t = h \<and> at_minute t = m \<and> at_day t \<in> set ds \<and> at_month t \<in> set mons"
  by (auto simp: schtasks_fires_def native_fires_def)

lemmas field_matches_simps =
  field_matches_def [of _ "FieldValue x" for x, simplified] field_matches_def [of _ "Step n" for n, simplified]
  field_matches_def [of _ "ValueList vs" for vs, simplified]

lemma expanded_minutes_fire:
  assumes ok: "field_ok FMinute f" "is_step f \<or> is_range_step f"
    and g: "map_option minute_values_trigger (expand_field_values f FMinute) = Some (Inr tr)" and t: "valid_time t"
  shows "schtasks_fires tr t = field_matches FMinute f (at_minute t)"
proof -
  obtain vs where vs: "expand_field_values f FMinute = Some vs"
      "\<forall>x. x \<in> set vs \<longleftrightarrow> x \<le> field_max FMinute \<and> field_matches FMinute f x"
    using expand_field_values_ok [OF ok] by blast
  have tr: "tr = MinuteValues vs"
    using g vs(1) by (auto simp: minute_values_trigger_def split: if_splits)
  have "\<forall>m \<in> set vs. m < 60" using vs(2) by (auto simp: field_max_def)
  then show ?thesis unfolding tr using minute_values_fires [OF _ t] vs(2) valid_time_limits(1) [OF t] by simp
qed

lemma hour_step_trigger_fires:
  assumes ok: "field_ok FHour h" "is_step h \<or> is_range_step h" and m: "m < 60"
    and g: "hour_step_trigger m h n full = Some (Inr tr)" and t: "valid_time t"
    and n: "0 < n" "full \<Longrightarrow> field_matches FHour h (at_hour t) \<longleftrightarrow> at_hour t mod n = 0"
  shows "schtasks_fires tr t \<longleftrightarrow> at_minute t = m \<and> field_matches FHour h (at_hour t)"
proof (cases "full \<and> 24 mod n = 0 \<and> n < 24")
  case True
  then have "tr = EveryHours n m" using g by (simp add: hour_step_trigger_def)
  then show ?thesis using every_hours_fires [of n m t] True n m t by simp
next
  case False
  obtain vs where vs: "expand_field_values h FHour = Some vs"
      "\<forall>x. x \<in> set vs \<longleftrightarrow> x \<le> field_max FHour \<and> field_matches FHour h x"
    using expand_field_values_ok [OF ok] by blast
  have "tr = HourValues vs m" using g vs(1) unfolding hour_step_trigger_def if_not_P [OF False] by simp
  then show ?thesis using vs(2) valid_time_limits(2) [OF t] by (simp add: hour_values_fires)
qed

lemma schtasks_by_day_fires:
  assumes ok: "fields_ok f" and g: "schtasks_by_day f m h = Some (Inr tr)" and t: "valid_time t"
  shows "schtasks_fires tr t \<longleftrightarrow> at_minute t = m \<and> at_hour t = h \<and> field_matches FDom (dom_field f) (at_day t) \<and>
    field_matches FMonth (month f) (at_month t) \<and> field_matches FDow (dow f) (at_weekday t)"
proof -
  consider (daily) "dom_field f = Star \<and> month f = Star \<and> dow f = Star"
    | (weekly) "dow f \<noteq> Star" "dom_field f = Star \<and> month f = Star \<and> (is_value (dow f) \<or> is_list (dow f) \<or> is_range_step (dow f))"
    | (monthly) "\<not> (dom_field f = Star \<and> month f = Star \<and> dow f = Star)"
        "\<not> (dom_field f = Star \<and> month f = Star \<and> (is_value (dow f) \<or> is_list (dow f) \<or> is_range_step (dow f)))"
    by blast
  then show ?thesis
  proof cases
    case daily
    then have "tr = Daily h m" using g by (simp add: schtasks_by_day_def)
    then show ?thesis using daily by (auto simp: calendar_triggers_fire)
  next
    case weekly
    have okw: "field_ok FDow (dow f)" using ok by (simp add: fields_ok_def)
    show ?thesis
    proof (cases "dow f")
      case (FieldValue w)
      then have "tr = Weekly h m [w]" using g weekly by (simp add: schtasks_by_day_def)
      then show ?thesis using weekly FieldValue by (auto simp: calendar_triggers_fire field_matches_simps)
    next
      case (RangeStep a b n)
      then obtain vs where vs: "expand_list_like (dow f) FDow = Some (Some vs)"
          "\<forall>x. x \<in> set vs \<longleftrightarrow> x \<le> field_max FDow \<and> field_matches FDow (dow f) x"
        using expand_list_like_ok [OF okw] by (auto split: option.splits)
      then have "tr = Weekly h m vs" using g weekly RangeStep by (simp add: schtasks_by_day_def)
      then show ?thesis using weekly vs(2) valid_time_limits(4) [OF t] by (auto simp: calendar_triggers_fire)
    next
      case (ValueList vs)
      then have "tr = Weekly h m vs" using g weekly by (simp add: schtasks_by_day_def expand_list_like_def)
      then show ?thesis using weekly ValueList by (auto simp: calendar_triggers_fire field_matches_simps)
    qed (use weekly in auto)
  next
    case monthly
    have "at_month t \<in> set [1..<13]" using t by (auto simp: valid_time_def)
    moreover have "schtasks_by_day f m h =
        (case (dom_field f, month f, dow f) of
           (FieldValue d, Star, Star) \<Rightarrow> Some (Inr (Monthly h m [d] [1..<13]))
         | (FieldValue d, FieldValue mon, Star) \<Rightarrow> Some (Inr (Monthly h m [d] [mon]))
         | (FieldValue d, ValueList mons, Star) \<Rightarrow> Some (Inr (Monthly h m [d] mons))
         | (ValueList ds, Star, Star) \<Rightarrow> Some (Inr (Monthly h m ds [1..<13]))
         | (ValueList ds, FieldValue mon, Star) \<Rightarrow> Some (Inr (Monthly h m ds [mon]))
         | (ValueList ds, ValueList mons, Star) \<Rightarrow> Some (Inr (Monthly h m ds mons))
         | _ \<Rightarrow> Some (Inl NoSchtasksTrigger))"
      unfolding schtasks_by_day_def if_not_P [OF monthly(1)] if_not_P [OF monthly(2)] ..
    ultimately show ?thesis
      using g by (auto simp: calendar_triggers_fire field_matches_simps split: schedule_field.splits)
  qed
qed

lemma translate_to_schtasks_fires:
  assumes ok: "fields_ok f" and g: "translate_to_schtasks f = Some (Inr tr)" and t: "valid_time t"
  shows "schtasks_fires tr t = cron_fires f t"
proof -
  have okm: "field_ok FMinute (minute f)" and okh: "field_ok FHour (hour f)"
    using ok by (auto simp: fields_ok_def)
  let ?e = "dom_field f = Star \<and> month f = Star \<and> dow f = Star"
  have nd: "\<not> reject_dom_dow f" using g by (auto simp: translate_to_schtasks_def)
  note red = g [unfolded translate_to_schtasks_def Let_def if_not_P [OF nd]]
  show ?thesis
  proof (cases "minute f")
    case (Step n)
    then have h: "hour f = Star" and e: ?e using red by (auto split: schedule_field.splits if_splits)
    have n: "0 < n" using okm Step by (simp add: field_ok_def)
    show ?thesis
    proof (cases "60 mod n = 0")
      case True
      then have "tr = EveryMinutes n" using red Step h e by simp
      then show ?thesis using every_minutes_fires [OF n True t] Step h e
        by (simp add: cron_fires_def field_matches_simps field_min_def dvd_eq_mod_eq_0)
    next
      case False
      then have "map_option minute_values_trigger (expand_field_values (minute f) FMinute) = Some (Inr tr)"
        using red Step h e by simp
      from expanded_minutes_fire [OF okm _ this t] show ?thesis using Step h e by (simp add: cron_fires_def)
    qed
  next
    case (RangeStep a b n)
    then have h: "hour f = Star" and e: ?e using red by (auto split: schedule_field.splits if_splits)
    have n: "0 < n" using okm RangeStep by (simp add: field_ok_def)
    show ?thesis
    proof (cases "a = field_min FMinute \<and> b = field_max FMinute \<and> 60 mod n = 0")
      case True
      then have d: "60 mod n = 0" by simp
      have "tr = EveryMinutes n" using red RangeStep h e True by simp
      then show ?thesis using every_minutes_fires [OF n d t] RangeStep h e True t
        by (auto simp: cron_fires_def field_matches_def field_limits valid_time_def)
    next
      case False
      have "map_option minute_values_trigger (expand_field_values (minute f) FMinute) = Some (Inr tr)"
        using red RangeStep h e False by (auto split: if_splits)
      from expanded_minutes_fire [OF okm _ this t] show ?thesis using RangeStep h e by (simp add: cron_fires_def)
    qed
  next
    case (FieldValue m)
    have m: "m < 60" using okm FieldValue by (simp add: field_ok_def field_max_def)
    show ?thesis
    proof (cases "hour f")
      case Star
      then have e: ?e and "tr = EveryHours 1 m" using red FieldValue by (auto split: if_splits)
      then show ?thesis using every_hours_fires [of 1 m t] m t FieldValue Star
        by (simp add: cron_fires_def field_matches_simps)
    next
      case (FieldValue h)
      then have "schtasks_by_day f m h = Some (Inr tr)" using red \<open>minute f = FieldValue m\<close> by simp
      from schtasks_by_day_fires [OF ok this t] show ?thesis
        using FieldValue \<open>minute f = FieldValue m\<close> by (simp add: cron_fires_def field_matches_simps)
    next
      case (Step n)
      then have e: ?e and g': "hour_step_trigger m (hour f) n True = Some (Inr tr)"
        using red FieldValue by (auto split: if_splits)
      have n: "0 < n" using okh Step by (simp add: field_ok_def)
      have "field_matches FHour (hour f) (at_hour t) \<longleftrightarrow> at_hour t mod n = 0"
        using Step by (simp add: field_matches_simps field_min_def dvd_eq_mod_eq_0)
      with hour_step_trigger_fires [OF okh _ m g' t n] show ?thesis
        using Step FieldValue e by (simp add: cron_fires_def field_matches_def)
    next
      case (RangeStep a b n)
      then have e: ?e
        and g': "hour_step_trigger m (hour f) n (a = field_min FHour \<and> b = field_max FHour) = Some (Inr tr)"
        using red FieldValue by (auto split: if_splits)
      have n: "0 < n" using okh RangeStep by (simp add: field_ok_def)
      have "field_matches FHour (hour f) (at_hour t) \<longleftrightarrow> at_hour t mod n = 0"
        if "a = field_min FHour \<and> b = field_max FHour"
        using RangeStep that t by (auto simp: field_matches_def field_limits valid_time_def)
      with hour_step_trigger_fires [OF okh _ m g' t n] show ?thesis
        using RangeStep FieldValue e by (simp add: cron_fires_def field_matches_def)
    next
      case (ValueList vs)
      then show ?thesis using red FieldValue by simp
    qed
  qed (use red in \<open>auto split: schedule_field.splits\<close>)
qed


section \<open>The translators return\<close>

lemma expand_returns: "field_ok name f \<Longrightarrow> \<exists>vs. expand_field_values f name = Some vs"
  using expand_field_values_ok [of name f] by (cases f) (auto simp: expand_field_values_def)

lemma expand_list_like_returns: "field_ok name f \<Longrightarrow> \<exists>r. expand_list_like f name = Some r"
  using expand_list_like_ok by blast

lemma launchd_generic_returns: "\<exists>r. launchd_generic f = Some r"
proof -
  have "field_ok FMinute (Step 1)" by (simp add: field_ok_def field_limits)
  with expand_returns obtain vs where "expand_field_values (Step 1) FMinute = Some vs" by blast
  then show ?thesis by (auto simp: launchd_generic_def Let_def split: sum.splits)
qed

lemma translate_to_launchd_returns:
  assumes "fields_ok f" shows "\<exists>r. translate_to_launchd f = Some r"
proof -
  have "\<exists>vs. expand_field_values (minute f) FMinute = Some vs" "\<exists>vs. expand_field_values (hour f) FHour = Some vs"
    "\<exists>r. expand_list_like (dow f) FDow = Some r" "\<exists>r. expand_list_like (month f) FMonth = Some r"
    using assms expand_returns expand_list_like_returns by (simp_all add: fields_ok_def)
  then show ?thesis
    using launchd_generic_returns [of f] by (elim exE) (simp add: translate_to_launchd_def)
qed

lemma schtasks_by_day_returns:
  assumes "fields_ok f" shows "\<exists>r. schtasks_by_day f m h = Some r"
proof -
  have "\<exists>r. expand_list_like (dow f) FDow = Some r"
    using assms expand_list_like_returns by (simp add: fields_ok_def)
  then show ?thesis
    by (auto simp: schtasks_by_day_def split: schedule_field.splits)
qed

lemma translate_to_schtasks_returns:
  assumes "fields_ok f" shows "\<exists>r. translate_to_schtasks f = Some r"
proof -
  obtain vs ws where e: "expand_field_values (minute f) FMinute = Some vs"
      "expand_field_values (hour f) FHour = Some ws"
    using assms expand_returns by (meson fields_ok_def)
  have h: "\<exists>r. hour_step_trigger m (hour f) n full = Some r" for m n full
    using e(2) by (simp add: hour_step_trigger_def)
  show ?thesis
  proof (cases "minute f")
    case (FieldValue m)
    then show ?thesis
      using h schtasks_by_day_returns [OF assms]
      by (cases "hour f") (simp_all add: translate_to_schtasks_def Let_def)
  next
    case (Step n)
    then show ?thesis using e by (cases "hour f") (simp_all add: translate_to_schtasks_def Let_def)
  next
    case (RangeStep a b n)
    then show ?thesis using e by (cases "hour f") (simp_all add: translate_to_schtasks_def Let_def)
  qed (simp_all add: translate_to_schtasks_def Let_def)
qed

lemma translate_for_returns: "fields_ok f \<Longrightarrow> \<exists>r. translate_for b f = Some r"
  using translate_to_launchd_returns translate_to_schtasks_returns
  by (cases b) (auto simp: translate_for_def)

lemma parse_schedule_Inr:
  assumes "parse_schedule s b = Some (Inr spec)"
  shows "fields_ok (spec_fields spec) \<and>
    (cron_text spec = ''@reboot'' \<and> b = Cron \<or>
     (\<exists>u. translate_for b (spec_fields spec) = Some (Inr u)) \<and> parse_cron_fields (cron_text spec) = Inr (spec_fields spec))"
proof (cases "to_lower_case (js_trim s) = ''@reboot''")
  case True
  then show ?thesis
    using assms by (auto simp: parse_schedule_def reboot_fields_def fields_ok_def field_ok_def split: if_splits)
next
  case False
  then obtain cron f where c: "parse_cron_fields cron = Inr f"
      and t: "map_option (map_result (\<lambda>_. \<lparr>raw_schedule = s, cron_text = cron, spec_fields = f\<rparr>)) (translate_for b f)
        = Some (Inr spec)"
    using assms by (auto simp: parse_schedule_def bind_result_Inr_iff map_result_def split: sum.splits)
  have "fields_ok f" using c by (rule parse_cron_fields_ok)
  then show ?thesis using t c by (auto simp: map_result_def bind_result_Inr_iff)
qed

section \<open>Properties\<close>

text \<open>Parsing a schedule always returns, on every input and backend: no accepted field has a zero step,
  so the loop that expands a field ends.\<close>

theorem parse_schedule_returns: "\<exists>r. parse_schedule input backend = Some r"
proof (cases "to_lower_case (js_trim input) = ''@reboot''")
  case False
  show ?thesis
  proof (cases "bind_result (expand_alias input) (\<lambda>cron. map_result (\<lambda>f. (cron, f)) (parse_cron_fields cron))")
    case (Inr p)
    then obtain cron f where "p = (cron, f)" "parse_cron_fields cron = Inr f"
      by (auto simp: bind_result_Inr_iff map_result_def)
    then show ?thesis using False Inr translate_for_returns [of f backend] parse_cron_fields_ok
      by (auto simp: parse_schedule_def)
  qed (simp add: parse_schedule_def False)
qed (simp add: parse_schedule_def)

text \<open>Every schedule the parser accepts has all five fields within the limits of their units: values,
  range ends and list elements inside the unit, steps positive, lists sorted and free of duplicates.\<close>

theorem parsed_fields_within_limits:
  "parse_schedule input backend = Some (Inr spec) \<Longrightarrow> fields_ok (spec_fields spec)"
  using parse_schedule_Inr by blast

theorem parsed_fields_within_limits_witness:
  "\<exists>spec. parse_schedule ''10-50/7 9,3,9 * jan-MAR tue'' Cron = Some (Inr spec) \<and> fields_ok (spec_fields spec)"
proof -
  let ?f = "\<lparr>minute = RangeStep 10 50 7, hour = ValueList [3, 9], dom_field = Star, month = RangeStep 1 3 1, dow = FieldValue 2\<rparr>"
  have p: "parse_schedule ''10-50/7 9,3,9 * jan-MAR tue'' Cron =
      Some (Inr \<lparr>raw_schedule = ''10-50/7 9,3,9 * jan-MAR tue'', cron_text = ''10-50/7 9,3,9 * jan-MAR tue'', spec_fields = ?f\<rparr>)"
    by code_simp
  then show ?thesis using parsed_fields_within_limits [OF p] by blast
qed

text \<open>C3: The Task Scheduler triggers of an accepted schedule fire at exactly the minutes of the calendar the
  cron expression selects: repetition intervals, weekday and month sets included.\<close>

theorem schtasks_triggers_fire_like_cron:
  assumes "parse_schedule input Schtasks = Some (Inr spec)"
    and "translate_to_schtasks (spec_fields spec) = Some (Inr tr)" and "valid_time t"
  shows "(\<exists>n \<in> set (expand_native_triggers tr). native_fires n t) \<longleftrightarrow> cron_fires (spec_fields spec) t"
  using translate_to_schtasks_fires [OF _ assms(2,3)] parse_schedule_Inr [OF assms(1)]
  by (simp add: schtasks_fires_def)

definition at_9_45_on_tuesday :: clock_time where
  "at_9_45_on_tuesday = \<lparr>at_minute = 45, at_hour = 9, at_day = 3, at_month = 2, at_weekday = 2\<rparr>"

theorem schtasks_triggers_fire_like_cron_witness:
  "\<exists>spec :: schedule_spec. (\<exists>n \<in> set (expand_native_triggers (EveryMinutes 15)). native_fires n at_9_45_on_tuesday) \<longleftrightarrow>
     cron_fires (spec_fields spec) at_9_45_on_tuesday"
proof -
  let ?s = "''*/15 * * * *''"
  let ?f = "\<lparr>minute = Step 15, hour = Star, dom_field = Star, month = Star, dow = Star\<rparr>"
  have p: "parse_schedule ?s Schtasks = Some (Inr \<lparr>raw_schedule = ?s, cron_text = ?s, spec_fields = ?f\<rparr>)"
    by code_simp
  have tr: "translate_to_schtasks (spec_fields \<lparr>raw_schedule = ?s, cron_text = ?s, spec_fields = ?f\<rparr>) =
      Some (Inr (EveryMinutes 15))"
    by code_simp
  have v: "valid_time at_9_45_on_tuesday" by code_simp
  show ?thesis by (rule exI, rule schtasks_triggers_fire_like_cron [OF p tr v])
qed

text \<open>C4: The launchd calendars of an accepted schedule fire at exactly the minutes of the calendar the cron
  expression selects, unless a month step meets a weekday list or a weekday step meets a month list.\<close>

theorem launchd_calendars_fire_like_cron:
  assumes "parse_schedule input Launchd = Some (Inr spec)"
    and "translate_to_launchd (spec_fields spec) = Some (Inr tr)" and "valid_time t"
    and "\<not> launchd_loses_step (spec_fields spec)"
  shows "(\<exists>c \<in> set (trigger_calendars tr). calendar_fires c t) \<longleftrightarrow> cron_fires (spec_fields spec) t"
  using translate_to_launchd_fires [OF _ assms(2,4,3)] parse_schedule_Inr [OF assms(1)]
  by (simp add: launchd_fires_def)

theorem launchd_calendars_fire_like_cron_witness:
  "\<exists>(spec :: schedule_spec) tr. translate_to_launchd (spec_fields spec) = Some (Inr tr) \<and>
     ((\<exists>c \<in> set (trigger_calendars tr). calendar_fires c at_9_45_on_tuesday) \<longleftrightarrow>
      cron_fires (spec_fields spec) at_9_45_on_tuesday)"
proof -
  let ?s = "''45 9 * 2 tue,wed''"
  let ?t = "''45 9 * 2 2,3''"
  let ?f = "\<lparr>minute = FieldValue 45, hour = FieldValue 9, dom_field = Star, month = FieldValue 2, dow = ValueList [2, 3]\<rparr>"
  let ?c = "\<lambda>w. \<lparr>cal_minute = Some 45, cal_hour = Some 9, cal_day = None, cal_month = Some 2, cal_weekday = Some w\<rparr>"
  let ?spec = "\<lparr>raw_schedule = ?s, cron_text = ?s, spec_fields = ?f\<rparr>"
  have p: "parse_schedule ?s Launchd = Some (Inr ?spec)" by code_simp
  have tr: "translate_to_launchd (spec_fields ?spec) = Some (Inr (Calendars [?c 2, ?c 3]))" by code_simp
  have v: "valid_time at_9_45_on_tuesday" by code_simp
  have l: "\<not> launchd_loses_step (spec_fields ?spec)" by code_simp
  show ?thesis by (rule exI, rule exI, rule conjI, rule tr, rule launchd_calendars_fire_like_cron [OF p tr v l])
qed

text \<open>The exception is real: \<open>0 9 * */3 1-5\<close> is accepted for launchd and fires in February.\<close>

definition nine_on_a_tuesday_in_february :: clock_time where
  "nine_on_a_tuesday_in_february = \<lparr>at_minute = 0, at_hour = 9, at_day = 3, at_month = 2, at_weekday = 2\<rparr>"

theorem launchd_drops_the_month_step:
  "case parse_schedule ''0 9 * */3 1-5'' Launchd of
     Some (Inr spec) \<Rightarrow>
       (case translate_to_launchd (spec_fields spec) of
          Some (Inr tr) \<Rightarrow> launchd_fires tr nine_on_a_tuesday_in_february \<and>
                         \<not> cron_fires (spec_fields spec) nine_on_a_tuesday_in_february
        | _ \<Rightarrow> False)
   | _ \<Rightarrow> False"
  by code_simp

text \<open>\<open>expandAlias\<close> looks its input up with \<open>in\<close>, which also finds the properties every object inherits.\<close>

theorem inherited_property_is_no_schedule:
  "parse_schedule ''constructor'' b = Some (Inl NotAString)"
  by (cases b) (code_simp+)

end
