(* ===== verification/Crontab.thy ===== *)
theory Crontab
  imports Js_Prelude
begin

text \<open>
  The text side of the crontab backend, \<^verbatim>\<open>src/tasks/backends/cron.ts\<close>: quoting of a cron command line and its
  reversal, the marked blocks the backend owns in the user's crontab (\<open>parseBlocks\<close>, \<open>upsertBlock\<close>,
  \<open>removeBlock\<close>, \<open>toggleBlock\<close>), and reading and replacing the crontab through the external program.  The
  crontab program is a parameter: a function from its state and the text written to its new state and its
  exit result.
\<close>

datatype cron_error =
    ControlCharacter
  | MalformedBlock string
  | LineTooLong nat
  | CrontabNotFound
  | CrontabReadFailed nat
  | CrontabWriteFailed
  | CrontabRestoreFailed

section \<open>Quoting\<close>

definition control_char :: "char \<Rightarrow> bool" where
  "control_char c \<longleftrightarrow> code_of c < 32 \<or> (127 \<le> code_of c \<and> code_of c \<le> 159)"

definition assert_cron_value :: "string \<Rightarrow> (cron_error, string) result" where
  "assert_cron_value value = (if list_ex control_char value then Inl ControlCharacter else Inr value)"

definition plain_cron_char :: "char \<Rightarrow> bool" where
  "plain_cron_char c \<longleftrightarrow> js_letter c \<or> js_digit c \<or> c \<in> set ''_-./@:%=+,''"

definition escape_percent :: "char \<Rightarrow> string" where
  "escape_percent c = (if c = CHR ''%'' then [CHR 0x5C, CHR ''%''] else [c])"

text \<open>A character inside the single quotes: a quote closes, escapes itself and opens again, and so does \<open>%\<close>.\<close>

definition quote_char :: "char \<Rightarrow> string" where
  "quote_char c =
     (if c = CHR 0x27 then [CHR 0x27, CHR 0x5C, CHR 0x27, CHR 0x27]
      else if c = CHR ''%'' then [CHR 0x27, CHR 0x5C, CHR ''%'', CHR 0x27]
      else [c])"

definition quote_text :: "string \<Rightarrow> string" where
  "quote_text part =
     (if part \<noteq> '''' \<and> list_all plain_cron_char part then concat (List.map escape_percent part)
      else [CHR 0x27] @ concat (List.map quote_char part) @ [CHR 0x27])"

definition quote_for_cron :: "string \<Rightarrow> (cron_error, string) result" where
  "quote_for_cron part = bind_result (assert_cron_value part) (\<lambda>p. Inr (quote_text p))"

text \<open>The loop of \<open>splitCronShellWords\<close>, with the word being read and the quotation state.\<close>

definition push_word :: "string \<Rightarrow> string list \<Rightarrow> string list" where
  "push_word current words = (if current = '''' then words else current # words)"

fun split_words_from :: "string \<Rightarrow> bool \<Rightarrow> string \<Rightarrow> string list" where
  "split_words_from current quoted [] = push_word current []"
| "split_words_from current quoted (c # cs) =
     (if c = CHR 0x27 then split_words_from current (\<not> quoted) cs
      else if c = CHR 0x5C \<and> cs \<noteq> [] then split_words_from (current @ [hd cs]) quoted (tl cs)
      else if \<not> quoted \<and> js_space c then push_word current (split_words_from '''' quoted cs)
      else split_words_from (current @ [c]) quoted cs)"

definition split_cron_shell_words :: "string \<Rightarrow> string list" where
  "split_cron_shell_words value = split_words_from '''' False value"

section \<open>Lines and blocks\<close>

text \<open>\<open>split(/\r?\n/)\<close>: a carriage return before a line feed belongs to the separator.\<close>

definition drop_cr :: "string \<Rightarrow> string" where
  "drop_cr l = (if js_ends_with [CHR 0x0D] l then butlast l else l)"

definition split_lines :: "string \<Rightarrow> string list" where
  "split_lines s =
     (let segs = split_on CHR 0x0A s in List.map drop_cr (butlast segs) @ [last segs])"

abbreviation newline :: string where
  "newline \<equiv> [CHR 0x0A]"

definition block_id_char :: "char \<Rightarrow> bool" where
  "block_id_char c \<longleftrightarrow> js_letter c \<or> js_digit c \<or> c \<in> set ''_.@:-''"

definition valid_block_id :: "string \<Rightarrow> bool" where
  "valid_block_id i \<longleftrightarrow> i \<noteq> '''' \<and> list_all block_id_char i"

definition match_marker :: "string \<Rightarrow> string \<Rightarrow> string option" where
  "match_marker sfx line =
     (let pre = ''# akm:task ''; i = take (length line - length pre - length sfx) (drop (length pre) line) in
      if valid_block_id i \<and> line = pre @ i @ sfx then Some i else None)"

definition begin_text :: "string \<Rightarrow> string" where
  "begin_text i = ''# akm:task '' @ i @ '' BEGIN''"

definition end_text :: "string \<Rightarrow> string" where
  "end_text i = ''# akm:task '' @ i @ '' END''"

definition begin_marker :: "string \<Rightarrow> (cron_error, string) result" where
  "begin_marker i = bind_result (assert_cron_value i) (\<lambda>v. Inr (begin_text v))"

definition end_marker :: "string \<Rightarrow> (cron_error, string) result" where
  "end_marker i = bind_result (assert_cron_value i) (\<lambda>v. Inr (end_text v))"

definition disabled_prefix :: string where
  "disabled_prefix = ''# akm:disabled ''"

record cron_block =
  block_id :: string
  block_body :: string
  block_start :: nat
  block_end :: nat

fun parse_block_lines ::
  "nat \<Rightarrow> (string \<times> nat \<times> string list) option \<Rightarrow> string list \<Rightarrow> (cron_error, cron_block list) result" where
  "parse_block_lines index None [] = Inr []"
| "parse_block_lines index (Some (c, st, body)) [] = Inl (MalformedBlock c)"
| "parse_block_lines index cur (l # ls) =
     (case match_marker '' BEGIN'' l of
        Some i \<Rightarrow>
          (case cur of
             Some (c, st, body) \<Rightarrow> Inl (MalformedBlock c)
           | None \<Rightarrow> parse_block_lines (Suc index) (Some (i, index, [])) ls)
      | None \<Rightarrow>
          (case match_marker '' END'' l of
             Some e \<Rightarrow>
               (case cur of
                  None \<Rightarrow> Inl (MalformedBlock e)
                | Some (c, st, body) \<Rightarrow>
                    if e \<noteq> c then Inl (MalformedBlock c)
                    else map_result
                      (\<lambda>bs. \<lparr>block_id = c, block_body = join_with newline body, block_start = st, block_end = index\<rparr> # bs)
                      (parse_block_lines (Suc index) None ls))
           | None \<Rightarrow>
               parse_block_lines (Suc index)
                 (case cur of None \<Rightarrow> None | Some (c, st, body) \<Rightarrow> Some (c, st, body @ [l])) ls))"

definition parse_blocks :: "string \<Rightarrow> (cron_error, cron_block list) result" where
  "parse_blocks existing = parse_block_lines 0 None (split_lines existing)"

definition list_blocks :: "string \<Rightarrow> (cron_error, (string \<times> string) list) result" where
  "list_blocks existing = map_result (List.map (\<lambda>b. (block_id b, block_body b))) (parse_blocks existing)"

section \<open>Editing\<close>

definition cron_block_body :: "string \<Rightarrow> bool \<Rightarrow> string option \<Rightarrow> string" where
  "cron_block_body line enabled evidence =
     (let ls = line # (case evidence of None \<Rightarrow> [] | Some d \<Rightarrow> [''# akm:workflow-evidence '' @ d]) in
      join_with newline (if enabled then ls else List.map (\<lambda>l. disabled_prefix @ l) ls))"

definition render_block :: "string \<Rightarrow> string \<Rightarrow> bool \<Rightarrow> string option \<Rightarrow> (cron_error, string) result" where
  "render_block i line enabled evidence =
     bind_result (begin_marker i) (\<lambda>b.
     bind_result (end_marker i) (\<lambda>e.
       Inr (join_with newline [b, cron_block_body line enabled evidence, e])))"

definition in_block :: "nat \<Rightarrow> cron_block \<Rightarrow> bool" where
  "in_block k b \<longleftrightarrow> block_start b \<le> k \<and> k \<le> block_end b"

definition pop_blank_lines :: "string list \<Rightarrow> string list" where
  "pop_blank_lines ls = rev (dropWhile (\<lambda>l. l = '''') (rev ls))"

definition remove_block :: "string \<Rightarrow> string \<Rightarrow> (cron_error, string) result" where
  "remove_block existing i =
     bind_result (parse_blocks existing) (\<lambda>bs.
       let blocks = List.filter (\<lambda>b. block_id b = i) bs in
       Inr (if blocks = [] then existing
            else join_with newline
              (pop_blank_lines
                (List.map snd (List.filter (\<lambda>(k, l). \<not> list_ex (in_block k) blocks)
                  (enumerate 0 (split_lines existing)))))))"

definition upsert_block :: "string \<Rightarrow> string \<Rightarrow> string \<Rightarrow> (cron_error, string) result" where
  "upsert_block existing i block =
     bind_result (remove_block (trim_end existing) i) (\<lambda>removed.
       Inr (removed @ (if removed = '''' then '''' else newline) @ block @ newline))"

definition toggle_line :: "bool \<Rightarrow> string \<Rightarrow> string" where
  "toggle_line enabled line =
     (let is_comment = js_starts_with disabled_prefix line in
      if enabled \<and> is_comment then drop (length disabled_prefix) line
      else if \<not> enabled \<and> \<not> is_comment then disabled_prefix @ line
      else line)"

fun toggle_lines :: "string \<Rightarrow> bool \<Rightarrow> bool \<Rightarrow> string list \<Rightarrow> string list" where
  "toggle_lines i enabled inside [] = []"
| "toggle_lines i enabled inside (l # ls) =
     (if \<not> inside \<and> l = begin_text i then l # toggle_lines i enabled True ls
      else if inside \<and> l = end_text i then l # toggle_lines i enabled False ls
      else if inside then toggle_line enabled l # toggle_lines i enabled inside ls
      else l # toggle_lines i enabled inside ls)"

definition toggle_block :: "string \<Rightarrow> string \<Rightarrow> bool \<Rightarrow> (cron_error, string) result" where
  "toggle_block existing i enabled =
     bind_result (parse_blocks existing) (\<lambda>_.
     bind_result (assert_cron_value i) (\<lambda>v.
       Inr (join_with newline (toggle_lines v enabled False (split_lines existing)))))"

section \<open>The crontab program\<close>

record exec_result =
  exec_status :: nat
  exec_stdout :: string
  exec_stderr :: string
  exec_enoent :: bool

definition read_crontab :: "exec_result \<Rightarrow> (cron_error, string) result" where
  "read_crontab r =
     (if exec_status r = 0 then Inr (exec_stdout r)
      else if exec_enoent r then Inl CrontabNotFound
      else if (js_trim (exec_stdout r) = '''' \<and> js_trim (exec_stderr r) = '''') \<or>
              js_includes ''no crontab'' (to_lower_case (js_trim (exec_stderr r)))
        then Inr ''''
      else Inl (CrontabReadFailed (exec_status r)))"

definition write_crontab ::
  "('w \<Rightarrow> string \<Rightarrow> 'w \<times> exec_result) \<Rightarrow> 'w \<Rightarrow> string \<Rightarrow> 'w \<times> (cron_error, unit) result" where
  "write_crontab prog w content =
     (let normalised = (if js_ends_with newline content \<or> content = '''' then content else content @ newline);
          (w', r) = prog w normalised
      in (w', if exec_status r = 0 then Inr () else Inl CrontabWriteFailed))"

definition replace_crontab ::
  "('w \<Rightarrow> string \<Rightarrow> 'w \<times> exec_result) \<Rightarrow> 'w \<Rightarrow> string \<Rightarrow> string \<Rightarrow> 'w \<times> (cron_error, unit) result" where
  "replace_crontab prog w existing next =
     (case write_crontab prog w next of
        (w1, Inr _) \<Rightarrow> (w1, Inr ())
      | (w1, Inl e) \<Rightarrow>
          (case write_crontab prog w1 existing of
             (w2, Inr _) \<Rightarrow> (w2, Inl e)
           | (w2, Inl e2) \<Rightarrow> (w2, Inl CrontabRestoreFailed)))"

text \<open>\<open>setEnabled\<close> of the backend: read, edit, replace.\<close>

definition set_enabled ::
  "('w \<Rightarrow> exec_result) \<Rightarrow> ('w \<Rightarrow> string \<Rightarrow> 'w \<times> exec_result) \<Rightarrow> 'w \<Rightarrow> string \<Rightarrow> bool \<Rightarrow>
     'w \<times> (cron_error, unit) result" where
  "set_enabled read prog w i enabled =
     (case bind_result (read_crontab (read w)) (\<lambda>existing.
             map_result (\<lambda>next. (existing, next)) (toggle_block existing i enabled)) of
        Inl e \<Rightarrow> (w, Inl e)
      | Inr (existing, next) \<Rightarrow> replace_crontab prog w existing next)"

section \<open>Reading a quoted command back\<close>

lemma split_quoted_char:
  "c \<noteq> CHR 0x5C \<Longrightarrow>
     split_words_from cur True (quote_char c @ rest) = split_words_from (cur @ [c]) True rest"
  by (simp add: quote_char_def)

lemma split_quoted_body:
  "CHR 0x5C \<notin> set p \<Longrightarrow>
     split_words_from cur True (concat (List.map quote_char p) @ rest) = split_words_from (cur @ p) True rest"
proof (induction p arbitrary: cur)
  case Nil
  then show ?case by simp
next
  case (Cons c p)
  then have "c \<noteq> CHR 0x5C" by auto
  then show ?case using Cons split_quoted_char [of c cur] by simp
qed

lemma plain_cron_char_not:
  "plain_cron_char c \<Longrightarrow> c \<noteq> CHR 0x27 \<and> c \<noteq> CHR 0x5C \<and> \<not> js_space c"
  by (auto simp: plain_cron_char_def js_char_defs)

lemma split_escaped_char:
  "plain_cron_char c \<Longrightarrow>
     split_words_from cur False (escape_percent c @ rest) = split_words_from (cur @ [c]) False rest"
  using plain_cron_char_not [of c] by (auto simp: escape_percent_def)

lemma split_escaped_body:
  "list_all plain_cron_char p \<Longrightarrow>
     split_words_from cur False (concat (List.map escape_percent p) @ rest) = split_words_from (cur @ p) False rest"
proof (induction p arbitrary: cur)
  case Nil
  then show ?case by simp
next
  case (Cons c p)
  then show ?case using split_escaped_char [of c cur] by simp
qed

lemma split_quote_text:
  assumes "CHR 0x5C \<notin> set p"
  shows "split_words_from cur False (quote_text p @ rest) = split_words_from (cur @ p) False rest"
proof (cases "p \<noteq> '''' \<and> list_all plain_cron_char p")
  case True
  then show ?thesis using split_escaped_body by (simp add: quote_text_def)
next
  case False
  have "quote_text p = [CHR 0x27] @ concat (List.map quote_char p) @ [CHR 0x27]"
    unfolding quote_text_def if_not_P [OF False] ..
  then show ?thesis using split_quoted_body [OF assms] by simp
qed

lemma split_quoted_words:
  "\<forall>p \<in> set ps. p \<noteq> '''' \<and> CHR 0x5C \<notin> set p \<Longrightarrow>
     split_cron_shell_words (join_with '' '' (List.map quote_text ps)) = ps"
  unfolding split_cron_shell_words_def
proof (induction ps)
  case Nil
  then show ?case by (simp add: push_word_def)
next
  case (Cons p ps)
  show ?case
  proof (cases ps)
    case Nil
    then show ?thesis using Cons.prems split_quote_text [of p "''''" "''''"] by (simp add: push_word_def)
  next
    case (Cons q qs)
    then have "join_with '' '' (List.map quote_text (p # ps)) =
        quote_text p @ CHR '' '' # join_with '' '' (List.map quote_text ps)" by simp
    then show ?thesis
      using Cons.IH Cons.prems split_quote_text [of p]
      by (simp add: push_word_def js_space_def)
  qed
qed

lemma quote_for_cron_Inr: "quote_for_cron p = Inr q \<longleftrightarrow> list_all (\<lambda>c. \<not> control_char c) p \<and> q = quote_text p"
  by (auto simp: quote_for_cron_def assert_cron_value_def list_all_iff list_ex_iff)

lemma mapM_quote: "mapM_result quote_for_cron ps = Inr qs \<Longrightarrow> qs = List.map quote_text ps"
  by (induction ps arbitrary: qs) (auto simp: bind_result_Inr_iff quote_for_cron_Inr)

section \<open>A crontab as a document\<close>

text \<open>The abstract view: lines the user owns, and marked blocks with their body lines.\<close>

datatype cron_item = UserLine string | AkmBlock string "string list"

fun item_lines :: "cron_item \<Rightarrow> string list" where
  "item_lines (UserLine l) = [l]"
| "item_lines (AkmBlock i body) = begin_text i # body @ [end_text i]"

definition document_lines :: "cron_item list \<Rightarrow> string list" where
  "document_lines items = concat (List.map item_lines items)"

definition no_marker :: "string \<Rightarrow> bool" where
  "no_marker l \<longleftrightarrow> match_marker '' BEGIN'' l = None \<and> match_marker '' END'' l = None"

fun item_ok :: "cron_item \<Rightarrow> bool" where
  "item_ok (UserLine l) = no_marker l"
| "item_ok (AkmBlock i body) = (valid_block_id i \<and> (\<forall>l \<in> set body. no_marker l))"

fun item_length :: "cron_item \<Rightarrow> nat" where
  "item_length (UserLine l) = 1"
| "item_length (AkmBlock i body) = length body + 2"

fun item_blocks :: "nat \<Rightarrow> cron_item list \<Rightarrow> cron_block list" where
  "item_blocks k [] = []"
| "item_blocks k (UserLine l # items) = item_blocks (Suc k) items"
| "item_blocks k (AkmBlock i body # items) =
     \<lparr>block_id = i, block_body = join_with newline body, block_start = k, block_end = k + length body + 1\<rparr> #
       item_blocks (k + length body + 2) items"

lemma document_simps [simp]:
  "document_lines [] = []"
  "document_lines (it # items) = item_lines it @ document_lines items"
  "document_lines (items @ items') = document_lines items @ document_lines items'"
  by (simp_all add: document_lines_def)

lemma match_marker_Some: "match_marker sfx l = Some i \<longleftrightarrow> valid_block_id i \<and> l = ''# akm:task '' @ i @ sfx"
  by (auto simp: match_marker_def Let_def)

lemma block_id_char_not: "block_id_char c \<Longrightarrow> c \<noteq> CHR '' ''"
  by (auto simp: block_id_char_def js_char_defs)

lemma marker_text [simp]:
  assumes "valid_block_id i"
  shows "match_marker '' BEGIN'' (begin_text i) = Some i" "match_marker '' END'' (end_text i) = Some i"
    "match_marker '' BEGIN'' (end_text i) = None"
proof -
  show "match_marker '' BEGIN'' (begin_text i) = Some i" "match_marker '' END'' (end_text i) = Some i"
    using assms by (auto simp: match_marker_Some begin_text_def end_text_def)
  have "j @ '' BEGIN'' \<noteq> i @ '' END''" for j
  proof
    assume "j @ '' BEGIN'' = i @ '' END''"
    then have "last (j @ '' BEGIN'') = last (i @ '' END'')" by simp
    then show False by simp
  qed
  then have "match_marker '' BEGIN'' (end_text i) \<noteq> Some j" for j
    by (auto simp: match_marker_Some end_text_def)
  then show "match_marker '' BEGIN'' (end_text i) = None" by fast
qed

lemma no_marker_texts: "no_marker l \<Longrightarrow> valid_block_id i \<Longrightarrow> l \<noteq> begin_text i \<and> l \<noteq> end_text i"
  by (auto simp: no_marker_def)

text \<open>Parsing reads a document back, and every text that parses is a document.\<close>

lemma parse_body_lines:
  "\<forall>l \<in> set body. no_marker l \<Longrightarrow>
     parse_block_lines k (Some (i, st, acc)) (body @ rest) =
     parse_block_lines (k + length body) (Some (i, st, acc @ body)) rest"
  by (induction body arbitrary: k acc) (auto simp: no_marker_def)

lemma parse_document:
  "list_all item_ok items \<Longrightarrow> parse_block_lines k None (document_lines items) = Inr (item_blocks k items)"
proof (induction items arbitrary: k)
  case Nil
  then show ?case by simp
next
  case (Cons it items)
  show ?case
  proof (cases it)
    case (UserLine l)
    then show ?thesis using Cons by (simp add: no_marker_def)
  next
    case (AkmBlock i body)
    have v: "valid_block_id i" and b: "\<forall>l \<in> set body. no_marker l" using Cons.prems AkmBlock by auto
    have "parse_block_lines k None (document_lines (it # items)) =
        parse_block_lines (Suc k + length body) (Some (i, k, body)) (end_text i # document_lines items)"
      using v AkmBlock parse_body_lines [OF b, of "Suc k" i k "[]"] by simp
    then show ?thesis
      using v AkmBlock Cons by (simp add: map_result_def)
  qed
qed

lemma parse_blocks_document:
  "parse_block_lines k cur ls = Inr bs \<Longrightarrow>
     (case cur of
        None \<Rightarrow> \<exists>items. list_all item_ok items \<and> ls = document_lines items
      | Some (i, st, acc) \<Rightarrow>
          \<exists>body items. (\<forall>l \<in> set body. no_marker l) \<and> list_all item_ok items \<and>
            ls = body @ end_text i # document_lines items)"
proof (induction k cur ls arbitrary: bs rule: parse_block_lines.induct)
  case (1 index)
  then show ?case by (auto intro: exI [of _ "[]"])
next
  case (2 index c st body)
  then show ?case by simp
next
  case (3 index cur l ls)
  show ?case
  proof (cases "match_marker '' BEGIN'' l")
    case (Some i)
    then have l: "valid_block_id i" "l = begin_text i" by (auto simp: match_marker_Some begin_text_def)
    have cur: "cur = None" using 3 Some by (auto split: option.splits)
    then have "parse_block_lines (Suc index) (Some (i, index, [])) ls = Inr bs" using 3 Some by simp
    then obtain body items where "\<forall>l \<in> set body. no_marker l" "list_all item_ok items"
        "ls = body @ end_text i # document_lines items"
      using 3(3) [OF Some cur] by auto
    then show ?thesis using cur l by (auto intro!: exI [of _ "AkmBlock i body # items"])
  next
    case None
    show ?thesis
    proof (cases "match_marker '' END'' l")
      case (Some e)
      then have l: "valid_block_id e" "l = end_text e" by (auto simp: match_marker_Some end_text_def)
      obtain c st body where cur: "cur = Some (c, st, body)" and e: "e = c"
        using 3 None Some by (auto split: option.splits if_splits)
      then obtain bs' where "parse_block_lines (Suc index) None ls = Inr bs'"
        using 3 None Some by (auto simp: map_result_def bind_result_Inr_iff)
      then have "\<exists>items. list_all item_ok items \<and> ls = document_lines items"
        using 3(2) [OF None Some cur refl refl] e by simp
      then obtain items where "list_all item_ok items" "ls = document_lines items" by blast
      then have "(\<forall>l \<in> set []. no_marker l) \<and> list_all item_ok items \<and>
          l # ls = [] @ end_text c # document_lines items" using l e by simp
      then show ?thesis unfolding cur option.case prod.case by blast
    next
      case none: None
      then have nm: "no_marker l" using None by (simp add: no_marker_def)
      show ?thesis
      proof (cases cur)
        case n: None
        then obtain items where "list_all item_ok items" "ls = document_lines items"
          using 3 None none by auto
        then show ?thesis using n nm by (auto intro!: exI [of _ "UserLine l # items"])
      next
        case (Some c)
        obtain i st acc where c: "c = (i, st, acc)" by (cases c)
        then obtain body items where "\<forall>l \<in> set body. no_marker l" "list_all item_ok items"
            "ls = body @ end_text i # document_lines items"
          using 3 None none Some by auto
        then show ?thesis using Some c nm by (auto intro!: exI [of _ "l # body"])
      qed
    qed
  qed
qed


lemma parsed_document:
  assumes "parse_blocks s = Inr bs"
  obtains items where "list_all item_ok items" "split_lines s = document_lines items" "bs = item_blocks 0 items"
proof -
  have p: "parse_block_lines 0 None (split_lines s) = Inr bs" using assms by (simp add: parse_blocks_def)
  then obtain items where i: "list_all item_ok items" "split_lines s = document_lines items"
    using parse_blocks_document [OF p] by auto
  then have "bs = item_blocks 0 items" using p parse_document [OF i(1), of 0] by simp
  then show thesis using that i by blast
qed

section \<open>Editing a document\<close>

definition keep_items :: "string \<Rightarrow> cron_item list \<Rightarrow> cron_item list" where
  "keep_items i items = List.filter (\<lambda>it. case it of AkmBlock j _ \<Rightarrow> j \<noteq> i | UserLine _ \<Rightarrow> True) items"

definition pop_blank_items :: "cron_item list \<Rightarrow> cron_item list" where
  "pop_blank_items items = rev (dropWhile (\<lambda>it. it = UserLine '''') (rev items))"

lemma item_blocks_start: "b \<in> set (item_blocks k items) \<Longrightarrow> k \<le> block_start b"
proof (induction k items rule: item_blocks.induct)
  case (2 k l items)
  then show ?case by fastforce
next
  case (3 k i body items)
  then show ?case by fastforce
qed simp

lemma keep_document_lines:
  "List.map snd (List.filter (\<lambda>(k, l). \<not> list_ex (in_block k) (List.filter (\<lambda>b. block_id b = i) (item_blocks s items)))
     (enumerate s (document_lines items))) = document_lines (keep_items i items)"
proof (induction items arbitrary: s)
  case Nil
  then show ?case by (simp add: keep_items_def)
next
  case (Cons it items)
  show ?case
  proof (cases it)
    case (UserLine l)
    have "\<not> list_ex (in_block s) (List.filter (\<lambda>b. block_id b = i) (item_blocks (Suc s) items))"
      using item_blocks_start by (fastforce simp: list_ex_iff in_block_def)
    then show ?thesis using UserLine Cons by (simp add: keep_items_def)
  next
    case (AkmBlock j body)
    let ?n = "length body + 2"
    let ?b = "\<lparr>block_id = j, block_body = join_with newline body, block_start = s, block_end = s + length body + 1\<rparr>"
    let ?later = "List.filter (\<lambda>b. block_id b = i) (item_blocks (s + ?n) items)"
    let ?all = "List.filter (\<lambda>b. block_id b = i) (item_blocks s (it # items))"
    have all: "?all = (if j = i then ?b # ?later else ?later)" using AkmBlock by simp
    have len: "length (item_lines it) = ?n" using AkmBlock by simp
    have later: "\<not> list_ex (in_block k) ?later" if "k < s + ?n" for k
      using item_blocks_start [of _ "s + ?n" items] that by (fastforce simp: list_ex_iff in_block_def)
    have first: "in_block k ?b \<longleftrightarrow> s \<le> k \<and> k < s + ?n" for k by (auto simp: in_block_def)
    have en: "enumerate s (document_lines (it # items)) =
        enumerate s (item_lines it) @ enumerate (s + ?n) (document_lines items)"
      using len by (simp add: enumerate_append_eq)
    have hit: "list_ex (in_block k) ?all \<longleftrightarrow> (j = i \<and> s \<le> k \<and> k < s + ?n) \<or> list_ex (in_block k) ?later" for k
      unfolding all using first [of k] by (cases "j = i") simp_all
    have low: "s \<le> k \<and> k < s + ?n" if "(k, l) \<in> set (enumerate s (item_lines it))" for k l
      using that unfolding in_set_enumerate_eq len [symmetric] by simp
    have high: "s + ?n \<le> k" if "(k, l) \<in> set (enumerate (s + ?n) (document_lines items))" for k l
      using that unfolding in_set_enumerate_eq by simp
    have "list_ex (in_block k) ?all \<longleftrightarrow> j = i" if "(k, l) \<in> set (enumerate s (item_lines it))" for k l
      using hit [of k] low [OF that] later [of k] by blast
    then have "List.filter (\<lambda>(k, l). \<not> list_ex (in_block k) ?all) (enumerate s (item_lines it)) =
        List.filter (\<lambda>(k, l). j \<noteq> i) (enumerate s (item_lines it))"
      by (intro filter_cong [OF refl]) blast
    then have head: "List.filter (\<lambda>(k, l). \<not> list_ex (in_block k) ?all) (enumerate s (item_lines it)) =
        (if j = i then [] else enumerate s (item_lines it))" by simp
    have "list_ex (in_block k) ?all \<longleftrightarrow> list_ex (in_block k) ?later"
      if "(k, l) \<in> set (enumerate (s + ?n) (document_lines items))" for k l
      using hit [of k] high [OF that] by auto
    then have tail: "List.filter (\<lambda>(k, l). \<not> list_ex (in_block k) ?all) (enumerate (s + ?n) (document_lines items)) =
        List.filter (\<lambda>(k, l). \<not> list_ex (in_block k) ?later) (enumerate (s + ?n) (document_lines items))"
      by (intro filter_cong [OF refl]) blast
    show ?thesis
      unfolding en filter_append map_append head tail Cons.IH
      using AkmBlock by (auto simp: keep_items_def)
  qed
qed

lemma pop_blank_document:
  "list_all item_ok items \<Longrightarrow> pop_blank_lines (document_lines items) = document_lines (pop_blank_items items)"
proof (induction items rule: rev_induct)
  case Nil
  then show ?case by (simp add: pop_blank_lines_def pop_blank_items_def)
next
  case (snoc it items)
  show ?case
  proof (cases it)
    case (UserLine l)
    then show ?thesis using snoc
      by (cases "l = ''''") (simp_all add: pop_blank_lines_def pop_blank_items_def)
  next
    case (AkmBlock i body)
    then show ?thesis by (simp add: pop_blank_lines_def pop_blank_items_def end_text_def)
  qed
qed

lemma list_all_keep: "list_all P items \<Longrightarrow> list_all P (pop_blank_items (keep_items i items))"
  by (auto simp: list_all_iff keep_items_def pop_blank_items_def dest: set_dropWhileD)

lemma item_blocks_keep:
  "List.map (\<lambda>b. (block_id b, block_body b)) (item_blocks k (pop_blank_items (keep_items i items))) =
   List.filter (\<lambda>(j, _). j \<noteq> i) (List.map (\<lambda>b. (block_id b, block_body b)) (item_blocks k' items))"
proof -
  let ?l = "\<lambda>items. concat (List.map (\<lambda>it. case it of UserLine _ \<Rightarrow> [] | AkmBlock i body \<Rightarrow> [(i, join_with newline body)]) items)"
  have blocks: "List.map (\<lambda>b. (block_id b, block_body b)) (item_blocks k items) = ?l items" for k items
    by (induction k items rule: item_blocks.induct) simp_all
  have pop: "?l (pop_blank_items items) = ?l items" for items
    by (induction items rule: rev_induct) (auto simp: pop_blank_items_def)
  have keep: "?l (keep_items i items) = List.filter (\<lambda>(j, _). j \<noteq> i) (?l items)"
    by (induction items) (auto simp: keep_items_def split: cron_item.splits)
  show ?thesis unfolding blocks pop keep ..
qed


section \<open>Editing the text\<close>

lemma split_on_append_sep: "split_on c (u @ c # v) = split_on c u @ split_on c v"
proof (induction u)
  case Nil
  then show ?case by simp
next
  case (Cons x u)
  obtain y ys where "split_on c u = y # ys" by (cases "split_on c u") auto
  with Cons show ?case by simp
qed

lemma split_lines_no_cr:
  assumes "CHR 0x0D \<notin> set s" shows "split_lines s = split_on CHR 0x0A s"
proof -
  let ?segs = "split_on CHR 0x0A s"
  have "drop_cr l = l" if "l \<in> set ?segs" for l
    using split_on_subset [OF that] assms by (auto simp: drop_cr_def js_string)
  then have "List.map drop_cr (butlast ?segs) = butlast ?segs"
    by (auto intro!: map_idI dest: in_set_butlastD)
  then show ?thesis by (simp add: split_lines_def Let_def)
qed

lemma split_lines_one_line: "CHR 0x0D \<notin> set s \<Longrightarrow> \<forall>l \<in> set (split_lines s). CHR 0x0A \<notin> set l \<and> CHR 0x0D \<notin> set l"
  by (auto simp: split_lines_no_cr dest: split_on_no_sep split_on_subset)

lemma join_split_lines: "CHR 0x0D \<notin> set s \<Longrightarrow> join_with newline (split_lines s) = s"
  by (simp add: split_lines_no_cr join_split_on)

lemma join_subset: "set (join_with sep ls) \<subseteq> (\<Union>l \<in> set ls. set l) \<union> set sep"
  by (induction sep ls rule: join_with.induct) auto

definition body_lines :: "string \<Rightarrow> bool \<Rightarrow> string option \<Rightarrow> string list" where
  "body_lines line enabled evidence =
     (let ls = line # (case evidence of None \<Rightarrow> [] | Some d \<Rightarrow> [''# akm:workflow-evidence '' @ d]) in
      if enabled then ls else List.map (\<lambda>l. disabled_prefix @ l) ls)"

text \<open>Text on one line, and text that cannot be taken for a marker.\<close>

definition one_line :: "string \<Rightarrow> bool" where
  "one_line l \<longleftrightarrow> CHR 0x0A \<notin> set l \<and> CHR 0x0D \<notin> set l"

lemma no_marker_disabled: "no_marker (disabled_prefix @ l)"
  by (auto simp: no_marker_def match_marker_def Let_def disabled_prefix_def)

lemma body_lines_ok:
  assumes "one_line line" "\<not> js_starts_with ''#'' line" "pred_option one_line evidence"
  shows "\<forall>l \<in> set (body_lines line enabled evidence). no_marker l \<and> one_line l"
proof -
  have 1: "no_marker line" using assms(2) by (auto simp: no_marker_def match_marker_def Let_def js_string)
  have 2: "no_marker (''# akm:workflow-evidence '' @ d)" for d
    by (auto simp: no_marker_def match_marker_def Let_def)
  have 3: "one_line (disabled_prefix @ l) = one_line l" "one_line (''# akm:workflow-evidence '' @ l) = one_line l" for l
    by (auto simp: one_line_def disabled_prefix_def)
  show ?thesis using assms 1 2 3 no_marker_disabled
    by (auto simp: body_lines_def Let_def split: option.splits)
qed

lemma valid_id_one_line: "valid_block_id i \<Longrightarrow> one_line (begin_text i) \<and> one_line (end_text i) \<and> list_all (\<lambda>c. \<not> control_char c) i"
proof -
  have "block_id_char c \<Longrightarrow> \<not> control_char c \<and> c \<noteq> CHR 0x0A \<and> c \<noteq> CHR 0x0D" for c
    by (auto simp: block_id_char_def js_char_defs control_char_def)
  then show "valid_block_id i \<Longrightarrow> ?thesis"
    by (fastforce simp: valid_block_id_def list_all_iff one_line_def begin_text_def end_text_def)
qed

lemma valid_id_markers:
  assumes "valid_block_id i"
  shows "assert_cron_value i = Inr i" "begin_marker i = Inr (begin_text i)" "end_marker i = Inr (end_text i)"
  using valid_id_one_line [OF assms]
  by (auto simp: begin_marker_def end_marker_def assert_cron_value_def list_all_iff list_ex_iff)

lemma render_block_lines:
  assumes i: "valid_block_id i" and b: "\<forall>l \<in> set (body_lines line enabled evidence). one_line l"
  shows "\<exists>block. render_block i line enabled evidence = Inr block \<and> CHR 0x0D \<notin> set block \<and>
    split_on CHR 0x0A block = item_lines (AkmBlock i (body_lines line enabled evidence))"
proof -
  let ?ls = "item_lines (AkmBlock i (body_lines line enabled evidence))"
  have ne: "body_lines line enabled evidence \<noteq> []" by (simp add: body_lines_def Let_def)
  have body: "cron_block_body line enabled evidence = join_with newline (body_lines line enabled evidence)"
    by (simp add: cron_block_body_def body_lines_def Let_def)
  have app: "join_with newline (xs @ [e]) = join_with newline xs @ newline @ e" if "xs \<noteq> []" for xs e
    using that by (induction newline xs rule: join_with.induct) auto
  have join: "join_with newline [begin_text i, cron_block_body line enabled evidence, end_text i] = join_with newline ?ls"
    using ne app [OF ne] by (simp add: body join_with_Cons)
  have one: "\<forall>l \<in> set ?ls. one_line l" using b valid_id_one_line [OF i] by auto
  have "split_on CHR 0x0A (join_with newline ?ls) = ?ls"
    by (rule split_on_join) (use one in \<open>auto simp: one_line_def\<close>)
  moreover have "CHR 0x0D \<notin> set (join_with newline ?ls)"
    using join_subset [of newline ?ls] one by (auto simp: one_line_def)
  ultimately show ?thesis
    unfolding render_block_def valid_id_markers [OF i] bind_result.simps join by blast
qed

lemma keep_all: "List.filter (\<lambda>b. block_id b = i) (item_blocks k items) = [] \<Longrightarrow> keep_items i items = items"
  by (induction k items rule: item_blocks.induct) (auto simp: keep_items_def split: if_splits)

lemma pop_blank_lines_id: "ls = [] \<or> last ls \<noteq> '''' \<Longrightarrow> pop_blank_lines ls = ls"
  by (cases ls rule: rev_cases) (auto simp: pop_blank_lines_def)

lemma pop_blank_lines_last: "pop_blank_lines ls = [] \<or> last (pop_blank_lines ls) \<noteq> ''''"
  using hd_dropWhile [of "\<lambda>l. l = ''''" "rev ls"]
  by (cases "dropWhile (\<lambda>l. l = '''') (rev ls) = []") (auto simp: pop_blank_lines_def last_rev)

lemma last_split_on: "last (split_on c s) = '''' \<Longrightarrow> s = '''' \<or> last s = c"
proof -
  assume a: "last (split_on c s) = ''''"
  obtain xs x where sp: "split_on c s = xs @ [x]" by (cases "split_on c s" rule: rev_cases) auto
  then have x: "x = ''''" using a by simp
  show ?thesis
  proof (cases xs rule: rev_cases)
    case Nil
    then show ?thesis using sp x join_split_on [of c s] by simp
  next
    case (snoc ys y)
    then have "s = join_with [c] ((ys @ [y]) @ [''''])" using sp x join_split_on [of c s] by simp
    also have "\<dots> = join_with [c] (ys @ [y]) @ [c]"
      by (induction ys) (auto simp: join_with_Cons)
    finally show ?thesis by simp
  qed
qed

lemma remove_block_text:
  assumes p: "parse_blocks s = Inr bs" and cr: "CHR 0x0D \<notin> set s" and t: "s = '''' \<or> \<not> js_space (last s)"
  obtains items where "list_all item_ok items" "split_lines s = document_lines items" "bs = item_blocks 0 items"
    "remove_block s i = Inr (join_with newline (document_lines (pop_blank_items (keep_items i items))))"
proof -
  obtain items where it: "list_all item_ok items" "split_lines s = document_lines items" "bs = item_blocks 0 items"
    using p by (rule parsed_document)
  have ok: "list_all item_ok (keep_items i items)" using it(1) by (auto simp: keep_items_def list_all_iff)
  let ?blocks = "List.filter (\<lambda>b. block_id b = i) bs"
  have "remove_block s i = Inr (join_with newline (pop_blank_lines (document_lines (keep_items i items))))"
  proof (cases "?blocks = []")
    case False
    then show ?thesis
      using p it keep_document_lines [of i 0 items] by (simp add: remove_block_def Let_def)
  next
    case True
    then have k: "keep_items i items = items" using keep_all it(3) by blast
    have sp: "document_lines items = split_on CHR 0x0A s" using it(2) split_lines_no_cr [OF cr] by simp
    have "join_with newline (pop_blank_lines (split_on CHR 0x0A s)) = s"
    proof (cases "s = ''''")
      case True
      then show ?thesis by (simp add: pop_blank_lines_def)
    next
      case False
      then have "last s \<noteq> CHR 0x0A" using t by (auto simp: js_space_def)
      then have "last (split_on CHR 0x0A s) \<noteq> ''''" using last_split_on False by blast
      then show ?thesis using pop_blank_lines_id join_split_on by metis
    qed
    then show ?thesis using True p k sp by (simp add: remove_block_def)
  qed
  then show thesis using that it pop_blank_document [OF ok] by simp
qed

lemma upsert_block_text:
  assumes p: "parse_blocks (trim_end s) = Inr bs" and cr: "CHR 0x0D \<notin> set s"
    and b: "CHR 0x0D \<notin> set block"
  obtains items t where "list_all item_ok items" "split_lines (trim_end s) = document_lines items"
    "bs = item_blocks 0 items" "upsert_block s i block = Inr t"
    "split_lines t = document_lines (pop_blank_items (keep_items i items)) @ split_on CHR 0x0A block @ ['''']"
proof -
  obtain w where w: "s = trim_end s @ w" using trim_end_split by blast
  have "set (trim_end s) \<subseteq> set s" by (metis w Un_iff set_append subsetI)
  then have cr': "CHR 0x0D \<notin> set (trim_end s)" using cr by auto
  have te: "trim_end s = '''' \<or> \<not> js_space (last (trim_end s))" using trim_end_last by blast
  obtain items where it: "list_all item_ok items" "split_lines (trim_end s) = document_lines items"
    "bs = item_blocks 0 items"
    "remove_block (trim_end s) i = Inr (join_with newline (document_lines (pop_blank_items (keep_items i items))))"
    using remove_block_text [OF p cr' te] by blast
  let ?D = "document_lines (pop_blank_items (keep_items i items))"
  have ok: "list_all item_ok (keep_items i items)" using it(1) by (auto simp: keep_items_def list_all_iff)
  have D: "?D = pop_blank_lines (document_lines (keep_items i items))" using pop_blank_document [OF ok] by simp
  have "set (document_lines (keep_items i items)) \<subseteq> set (document_lines items)"
    by (auto simp: keep_items_def document_lines_def)
  moreover have "set ?D \<subseteq> set (document_lines (keep_items i items))"
    unfolding D by (auto simp: pop_blank_lines_def dest: set_dropWhileD)
  ultimately have sub: "set ?D \<subseteq> set (split_on CHR 0x0A (trim_end s))"
    using it(2) split_lines_no_cr [OF cr'] by auto
  have nl: "\<forall>l \<in> set ?D. CHR 0x0A \<notin> set l" using sub split_on_no_sep by blast
  have dcr: "\<forall>l \<in> set ?D. CHR 0x0D \<notin> set l" using sub split_on_subset cr' by blast
  let ?R = "join_with newline ?D"
  let ?t = "?R @ (if ?R = '''' then '''' else newline) @ block @ newline"
  have ends: "split_on CHR 0x0A (block @ newline) = split_on CHR 0x0A block @ ['''']"
    using split_on_append_sep [of "CHR 0x0A" block "''''"] by simp
  have "split_on CHR 0x0A ?t = ?D @ split_on CHR 0x0A block @ ['''']"
  proof (cases "?D = []")
    case True
    then show ?thesis using ends by simp
  next
    case False
    then have "last ?D \<noteq> ''''" using pop_blank_lines_last D by metis
    then have "?R \<noteq> ''''"
    proof (cases ?D rule: rev_cases)
      case (snoc ys y)
      then show ?thesis using \<open>last ?D \<noteq> ''''\<close> by (cases ys) (auto simp: join_with_Cons)
    qed (use False in simp)
    then have "split_on CHR 0x0A ?t = split_on CHR 0x0A ?R @ split_on CHR 0x0A (block @ newline)"
      using split_on_append_sep [of "CHR 0x0A" ?R "block @ newline"] by simp
    then show ?thesis using split_on_join [OF False nl] ends by simp
  qed
  moreover have "CHR 0x0D \<notin> set ?t"
    using join_subset [of newline ?D] dcr b by auto
  ultimately have "split_lines ?t = ?D @ split_on CHR 0x0A block @ ['''']" by (simp add: split_lines_no_cr)
  then show thesis using that [OF it(1-3)] it(4) by (simp add: upsert_block_def)
qed


subsection \<open>Enabling and disabling\<close>

fun toggle_item :: "string \<Rightarrow> bool \<Rightarrow> cron_item \<Rightarrow> cron_item" where
  "toggle_item i enabled (UserLine l) = UserLine l"
| "toggle_item i enabled (AkmBlock j body) =
     AkmBlock j (if j = i then List.map (toggle_line enabled) body else body)"

lemma texts_inj [simp]: "begin_text i = begin_text j \<longleftrightarrow> i = j" "end_text i = end_text j \<longleftrightarrow> i = j"
  by (simp_all add: begin_text_def end_text_def)

lemma end_not_begin: "end_text i \<noteq> begin_text j"
proof
  assume "end_text i = begin_text j"
  then have "last (end_text i) = last (begin_text j)" by simp
  then show False by (simp add: end_text_def begin_text_def)
qed

lemma toggle_outside:
  "valid_block_id i \<Longrightarrow> \<forall>l \<in> set body. no_marker l \<Longrightarrow>
     toggle_lines i enabled False (body @ rest) = body @ toggle_lines i enabled False rest"
proof (induction body)
  case (Cons l body)
  then have "l \<noteq> begin_text i" using no_marker_texts [of l i] by simp
  with Cons show ?case by simp
qed simp

lemma toggle_inside:
  "valid_block_id i \<Longrightarrow> \<forall>l \<in> set body. no_marker l \<Longrightarrow>
     toggle_lines i enabled True (body @ rest) = List.map (toggle_line enabled) body @ toggle_lines i enabled True rest"
proof (induction body)
  case (Cons l body)
  then have "l \<noteq> end_text i" using no_marker_texts [of l i] by simp
  with Cons show ?case by simp
qed simp

lemma toggle_document:
  "valid_block_id i \<Longrightarrow> list_all item_ok items \<Longrightarrow>
     toggle_lines i enabled False (document_lines items) = document_lines (List.map (toggle_item i enabled) items)"
proof (induction items)
  case Nil
  then show ?case by simp
next
  case (Cons it items)
  show ?case
  proof (cases it)
    case (UserLine l)
    then show ?thesis using Cons toggle_outside [of i "[l]" enabled] by simp
  next
    case (AkmBlock j body)
    have b: "\<forall>l \<in> set body. no_marker l" using Cons.prems AkmBlock by simp
    note IH = Cons.IH [OF Cons.prems(1)]
    show ?thesis
    proof (cases "j = i")
      case True
      then show ?thesis
        using AkmBlock Cons.prems IH toggle_inside [OF Cons.prems(1) b] by simp
    next
      case False
      then show ?thesis
        using AkmBlock Cons.prems IH toggle_outside [OF Cons.prems(1) b] by (simp add: end_not_begin)
    qed
  qed
qed

lemma toggle_item_ok: "item_ok it \<Longrightarrow> item_ok (toggle_item i False it)"
  by (cases it) (auto simp: toggle_line_def Let_def no_marker_disabled)

lemma toggle_line_back: "\<not> js_starts_with disabled_prefix l \<Longrightarrow> toggle_line True (toggle_line False l) = l"
  by (auto simp: toggle_line_def Let_def js_string)

lemma toggle_item_back:
  "\<forall>l \<in> set (item_lines it). \<not> js_starts_with disabled_prefix l \<Longrightarrow> toggle_item i True (toggle_item i False it) = it"
  by (cases it) (auto simp: toggle_line_back intro!: map_idI)

section \<open>Properties\<close>

interpretation cron_words: codec "\<lambda>ps. join_with '' '' (List.map quote_text ps)"
    "\<lambda>t. Some (split_cron_shell_words t)" "\<lambda>ps. \<forall>p \<in> set ps. p \<noteq> '''' \<and> CHR 0x5C \<notin> set p"
  by unfold_locales (simp add: split_quoted_words)

text \<open>The reader of installed cron lines undoes the quoting: the words of a quoted command line are the
  arguments it was built from, percent signs, blanks and quotes included, when none is empty or holds a backslash.\<close>

theorem quoted_command_reads_back:
  assumes "mapM_result quote_for_cron args = Inr quoted"
    and "\<forall>p \<in> set args. p \<noteq> '''' \<and> CHR 0x5C \<notin> set p"
  shows "split_cron_shell_words (join_with '' '' quoted) = args"
  using cron_words.dec_enc [OF assms(2)] mapM_quote [OF assms(1)] by simp

theorem quoted_command_reads_back_witness:
  "split_cron_shell_words (join_with '' '' [''run'', [CHR 0x27] @ ''50'' @ [CHR 0x27, CHR 0x5C, CHR ''%'', CHR 0x27] @ '' off'' @ [CHR 0x27]]) =
     [''run'', ''50% off'']"
  by (rule quoted_command_reads_back) (code_simp, simp)

text \<open>A backslash inside a quoted argument is lost on the way back.\<close>

theorem quoted_backslash_is_lost:
  "quote_for_cron (''a b'' @ [CHR 0x5C] @ ''c'') = Inr ([CHR 0x27] @ ''a b'' @ [CHR 0x5C] @ ''c'' @ [CHR 0x27]) \<and>
   split_cron_shell_words ([CHR 0x27] @ ''a b'' @ [CHR 0x5C] @ ''c'' @ [CHR 0x27]) = [''a bc'']"
  by code_simp

text \<open>C5: Installing a task rewrites exactly its own block.  Read as a document, the new crontab has the old
  lines and blocks in order, up to trailing blank text and without the old block of this task, then
  the new block; its block listing is the old one with this task's entry moved to the end.\<close>

theorem upsert_keeps_the_rest:
  assumes "parse_blocks (trim_end existing) = Inr bs" and "CHR 0x0D \<notin> set existing"
    and "valid_block_id i" and "one_line line" and "\<not> js_starts_with ''#'' line" and "pred_option one_line evidence"
  shows "\<exists>block t items. render_block i line enabled evidence = Inr block \<and> upsert_block existing i block = Inr t \<and>
    split_lines (trim_end existing) = document_lines items \<and>
    split_lines t = document_lines (pop_blank_items (keep_items i items) @
      [AkmBlock i (body_lines line enabled evidence), UserLine '''']) \<and>
    list_blocks t = Inr (List.filter (\<lambda>(j, _). j \<noteq> i) (List.map (\<lambda>b. (block_id b, block_body b)) bs) @
      [(i, cron_block_body line enabled evidence)])"
proof -
  let ?body = "body_lines line enabled evidence"
  have body: "\<forall>l \<in> set ?body. no_marker l \<and> one_line l" by (rule body_lines_ok) (use assms in auto)
  obtain block where b: "render_block i line enabled evidence = Inr block" "CHR 0x0D \<notin> set block"
      "split_on CHR 0x0A block = item_lines (AkmBlock i ?body)"
    using render_block_lines [OF assms(3)] body by blast
  obtain items t where it: "list_all item_ok items" "split_lines (trim_end existing) = document_lines items"
      "bs = item_blocks 0 items" "upsert_block existing i block = Inr t"
      "split_lines t = document_lines (pop_blank_items (keep_items i items)) @ split_on CHR 0x0A block @ ['''']"
    using upsert_block_text [OF assms(1,2) b(2)] by blast
  let ?new = "pop_blank_items (keep_items i items) @ [AkmBlock i ?body, UserLine '''']"
  have lines: "split_lines t = document_lines ?new" using it(5) b(3) by simp
  have "no_marker ''''" by (auto simp: no_marker_def match_marker_def Let_def)
  then have ok: "list_all item_ok ?new" using list_all_keep [OF it(1)] assms(3) body by simp
  have "List.map (\<lambda>b. (block_id b, block_body b)) (item_blocks k (xs @ ys)) =
      List.map (\<lambda>b. (block_id b, block_body b)) (item_blocks k xs) @
      List.map (\<lambda>b. (block_id b, block_body b)) (item_blocks (k + length (document_lines xs)) ys)" for k xs ys
    by (induction k xs rule: item_blocks.induct) (simp_all add: add.assoc add.commute add.left_commute)
  note append = this [of 0 "pop_blank_items (keep_items i items)" "[AkmBlock i ?body, UserLine '''']"]
  have "cron_block_body line enabled evidence = join_with newline ?body"
    by (simp add: cron_block_body_def body_lines_def Let_def)
  then have "list_blocks t = Inr (List.filter (\<lambda>(j, _). j \<noteq> i) (List.map (\<lambda>b. (block_id b, block_body b)) bs) @
      [(i, cron_block_body line enabled evidence)])"
    using parse_document [OF ok, of 0] append item_blocks_keep [of 0 i items 0]
    by (simp add: list_blocks_def parse_blocks_def lines map_result_def it(3))
  then show ?thesis using b(1) it(2,4) lines by blast
qed

text \<open>Disabling a task and enabling it again gives back the very same crontab, the schedule of the
  task and every line of the user included.\<close>

theorem disable_then_enable:
  assumes "parse_blocks existing = Inr bs" and "CHR 0x0D \<notin> set existing" and "valid_block_id i"
    and "\<forall>l \<in> set (split_lines existing). \<not> js_starts_with disabled_prefix l"
  shows "\<exists>t. toggle_block existing i False = Inr t \<and> toggle_block t i True = Inr existing"
proof -
  obtain items where it: "list_all item_ok items" "split_lines existing = document_lines items"
    using assms(1) by (rule parsed_document)
  let ?off = "List.map (toggle_item i False) items"
  let ?t = "join_with newline (document_lines ?off)"
  have off: "toggle_block existing i False = Inr ?t"
    using assms(1) it toggle_document [OF assms(3) it(1)] valid_id_markers [OF assms(3)]
    by (simp add: toggle_block_def)
  have ok: "list_all item_ok ?off" using it(1) toggle_item_ok by (auto simp: list_all_iff)
  have sub: "\<forall>l \<in> set (document_lines items). one_line l"
    using split_lines_one_line [OF assms(2)] it(2) by (simp add: one_line_def)
  have "one_line l \<Longrightarrow> one_line (toggle_line False l)" for l
    by (auto simp: toggle_line_def Let_def one_line_def disabled_prefix_def)
  then have "\<forall>l \<in> set (item_lines it). one_line l \<Longrightarrow> \<forall>l \<in> set (item_lines (toggle_item i False it)). one_line l" for it
    by (cases it) auto
  then have one: "\<forall>l \<in> set (document_lines ?off). one_line l"
    using sub by (fastforce simp: document_lines_def)
  have ne: "document_lines ?off \<noteq> []"
  proof -
    have "document_lines items \<noteq> []" using it(2) by (metis split_lines_no_cr [OF assms(2)] split_on_nonempty)
    then show ?thesis by (cases items; cases "hd items") auto
  qed
  have sp: "split_on CHR 0x0A ?t = document_lines ?off"
    by (rule split_on_join) (use ne one in \<open>auto simp: one_line_def\<close>)
  have "CHR 0x0D \<notin> set ?t" using join_subset [of newline "document_lines ?off"] one by (auto simp: one_line_def)
  then have lines: "split_lines ?t = document_lines ?off" using sp by (simp add: split_lines_no_cr)
  have "List.map (toggle_item i True) ?off = items"
  proof (rule trans [OF map_map], rule map_idI)
    fix it' assume "it' \<in> set items"
    then have "\<forall>l \<in> set (item_lines it'). \<not> js_starts_with disabled_prefix l"
      using assms(4) it(2) by (auto simp: document_lines_def)
    then show "(toggle_item i True \<circ> toggle_item i False) it' = it'" using toggle_item_back by simp
  qed
  then have "toggle_block ?t i True = Inr (join_with newline (document_lines items))"
    using parse_document [OF ok, of 0] toggle_document [OF assms(3) ok, of True] valid_id_markers [OF assms(3)]
    by (simp add: toggle_block_def parse_blocks_def lines)
  then have "toggle_block ?t i True = Inr existing"
    using it(2) join_split_lines [OF assms(2)] by metis
  then show ?thesis using off by blast
qed

definition sample_crontab :: string where
  "sample_crontab = join_with newline
     [''0 1 * * * backup'', ''# akm:task nightly BEGIN'', ''0 3 * * * akm task run nightly'', ''# akm:task nightly END'', '''']"

theorem upsert_keeps_the_rest_witness:
  "\<exists>block t items. render_block ''nightly'' ''5 4 * * * akm'' False None = Inr block \<and>
    upsert_block sample_crontab ''nightly'' block = Inr t \<and>
    split_lines (trim_end sample_crontab) = document_lines items \<and>
    split_lines t = document_lines (pop_blank_items (keep_items ''nightly'' items) @
      [AkmBlock ''nightly'' (body_lines ''5 4 * * * akm'' False None), UserLine '''']) \<and>
    list_blocks t = Inr (List.filter (\<lambda>(j, _). j \<noteq> ''nightly'')
        (List.map (\<lambda>b. (block_id b, block_body b))
          [\<lparr>block_id = ''nightly'', block_body = ''0 3 * * * akm task run nightly'', block_start = 1, block_end = 3\<rparr>]) @
      [(''nightly'', cron_block_body ''5 4 * * * akm'' False None)])"
  by (rule upsert_keeps_the_rest) (code_simp+, simp)

theorem disable_then_enable_witness:
  "\<exists>t. toggle_block sample_crontab ''nightly'' False = Inr t \<and> toggle_block t ''nightly'' True = Inr sample_crontab"
  by (rule disable_then_enable
        [of _ "[\<lparr>block_id = ''nightly'', block_body = ''0 3 * * * akm task run nightly'', block_start = 1, block_end = 3\<rparr>]"])
     code_simp+

end
