(* ===== verification/Step_System.thy ===== *)
theory Step_System
  imports Main
begin

text \<open>
  Contracts for components that are driven by a sequence of actions: an invariant every allowed action keeps,
  and a relation every allowed action can only extend.  The component theories interpret them on their own
  actions and states.
\<close>

locale step_invariant =
  fixes act :: "'a \<Rightarrow> 's \<Rightarrow> 's"
    and allowed :: "'a \<Rightarrow> bool"
    and ok :: "'s \<Rightarrow> bool"
  assumes act_ok: "ok s \<Longrightarrow> allowed a \<Longrightarrow> ok (act a s)"
begin

lemma acts_ok: "ok s \<Longrightarrow> list_all allowed as \<Longrightarrow> ok (fold act as s)"
  by (induction as arbitrary: s) (auto intro: act_ok)

end

locale step_monotone = step_invariant +
  fixes le :: "'s \<Rightarrow> 's \<Rightarrow> bool"
  assumes le_refl: "le s s"
    and le_trans: "le s t \<Longrightarrow> le t u \<Longrightarrow> le s u"
    and act_le: "ok s \<Longrightarrow> allowed a \<Longrightarrow> le s (act a s)"
begin

lemma acts_le: "ok s \<Longrightarrow> list_all allowed as \<Longrightarrow> le s (fold act as s)"
proof (induction as arbitrary: s)
  case Nil
  then show ?case by (simp add: le_refl)
next
  case (Cons a as)
  then have "le s (act a s)" "ok (act a s)" by (auto intro: act_le act_ok)
  then show ?case using Cons by (auto intro: le_trans)
qed

text \<open>What holds of a state and is passed on along the relation holds ever after.\<close>

lemma acts_preserve:
  assumes "ok s" "list_all allowed as" "P s" "\<And>t u. le t u \<Longrightarrow> P t \<Longrightarrow> P u"
  shows "P (fold act as s)"
  using acts_le [OF assms(1,2)] assms(3,4) by blast

end

text \<open>A measure that some sequence of allowed actions can always lower leads to a goal state; one action is a sequence.\<close>

locale sequence_progress =
  fixes act :: "'a \<Rightarrow> 's \<Rightarrow> 's"
    and allowed :: "'a \<Rightarrow> bool"
    and ok :: "'s \<Rightarrow> bool"
    and goal :: "'s \<Rightarrow> bool"
    and size_of :: "'s \<Rightarrow> nat"
  assumes progress: "ok s \<Longrightarrow> \<not> goal s \<Longrightarrow> \<exists>as. list_all allowed as \<and> ok (fold act as s) \<and> size_of (fold act as s) < size_of s"
begin

lemma reaches_goal: "ok s \<Longrightarrow> \<exists>as. list_all allowed as \<and> goal (fold act as s)"
proof (induction "size_of s" arbitrary: s rule: less_induct)
  case less
  show ?case
  proof (cases "goal s")
    case True
    then have "list_all allowed [] \<and> goal (fold act [] s)" by simp
    then show ?thesis by blast
  next
    case False
    then obtain as where as: "list_all allowed as" "ok (fold act as s)" "size_of (fold act as s) < size_of s" using progress less.prems by blast
    then obtain bs where "list_all allowed bs" "goal (fold act bs (fold act as s))"
      using less.hyps by blast
    then have "list_all allowed (as @ bs) \<and> goal (fold act (as @ bs) s)" using as by simp
    then show ?thesis by blast
  qed
qed

end

locale step_progress = step_invariant +
  fixes goal :: "'s \<Rightarrow> bool"
    and size_of :: "'s \<Rightarrow> nat"
  assumes one_step: "ok s \<Longrightarrow> \<not> goal s \<Longrightarrow> \<exists>a. allowed a \<and> size_of (act a s) < size_of s"

sublocale step_progress \<subseteq> sequence_progress
proof
  fix s assume "ok s" "\<not> goal s"
  then obtain a where "allowed a" "size_of (act a s) < size_of s" using one_step by blast
  then have "list_all allowed [a] \<and> ok (fold act [a] s) \<and> size_of (fold act [a] s) < size_of s"
    using act_ok \<open>ok s\<close> by simp
  then show "\<exists>as. list_all allowed as \<and> ok (fold act as s) \<and> size_of (fold act as s) < size_of s" by blast
qed

end
