(* ===== verification/Workflow_Run.thy ===== *)
theory Workflow_Run
  imports Js_Prelude Step_System
begin

text \<open>
  The durable state of one workflow run and the operations on it: \<^verbatim>\<open>src/workflows/runtime/runs.ts\<close> with the
  spine checks of \<^verbatim>\<open>src/workflows/runtime/plan-classifier.ts\<close>, the summary gate of
  \<^verbatim>\<open>src/workflows/validate-summary.ts\<close>, the check-in of \<^verbatim>\<open>src/workflows/runtime/checkin.ts\<close> and the
  statements on \<open>workflow_runs\<close> and \<open>workflow_run_steps\<close> of
  \<^verbatim>\<open>src/storage/repositories/workflow-runs-repository.ts\<close>.

  A run is a record of its row and its step rows in sequence order.  Instants are natural numbers; the code
  stores them as fixed-format UTC strings, which it compares as strings, in the same order.  Lease holders
  are non-empty random ids.  The judge and the resolution of declared outputs are parameters.
\<close>

section \<open>Data\<close>

datatype run_status = Active | Completed | Blocked | Failed

datatype step_status = Pending | StepCompleted | StepBlocked | StepFailed | Skipped

record plan_step =
  plan_step_id :: string
  plan_criteria :: "string list"

record run_step =
  step_id :: string
  step_state :: step_status
  step_notes :: "string option"
  step_evidence :: "string option"
  step_summary :: "string option"
  step_completed_at :: "nat option"

datatype run_error =
    UnsupportedPlanVersion
  | UnusablePlan
  | CorruptSpine
  | RunNotUpdatable run_status
  | LeaseHeld string
  | StepNotFound string
  | StepNotPending step_status
  | StepNotCurrent
  | SummaryRequired
  | NoJudge
  | Interrupted
  | AlreadyCompleted
  | AlreadyTerminal run_status
  | ActiveRunExists string

text \<open>The plan a run was frozen with.  Declared outputs are resolved from the final step rows, into the text
  that is stored and the warnings for outputs that did not resolve.\<close>

record workflow_plan =
  plan_steps :: "plan_step list"
  plan_outputs :: "(run_step list \<Rightarrow> string \<times> string list) option"

datatype stored_plan = Supported workflow_plan | UnsupportedVersion nat | MissingPlan | CorruptPlan

record workflow_run =
  run_id :: string
  run_ref :: string
  run_scope :: string
  run_parent :: "string option"
  run_status :: run_status
  current_step :: "string option"
  updated_at :: nat
  completed_at :: "nat option"
  checkin_armed_at :: "nat option"
  lease_holder :: "string option"
  lease_until :: "nat option"
  run_outputs :: "string option"
  run_plan :: stored_plan
  run_steps :: "run_step list"

section \<open>The spine\<close>

definition require_executable_plan :: "workflow_run \<Rightarrow> (run_error, workflow_plan) result" where
  "require_executable_plan r =
     (case run_plan r of
        Supported p \<Rightarrow> Inr p
      | UnsupportedVersion _ \<Rightarrow> Inl UnsupportedPlanVersion
      | _ \<Rightarrow> Inl UnusablePlan)"

definition spine_identity_ok :: "workflow_plan \<Rightarrow> run_step list \<Rightarrow> bool" where
  "spine_identity_ok p rows \<longleftrightarrow>
     length rows = length (plan_steps p) \<and>
     list_all (\<lambda>row. step_id row \<in> set (List.map plan_step_id (plan_steps p))) rows"

definition status_matches_spine :: "workflow_run \<Rightarrow> bool" where
  "status_matches_spine r \<longleftrightarrow>
     (let rows = run_steps r;
          current = (case current_step r of None \<Rightarrow> None | Some i \<Rightarrow> find (\<lambda>row. step_id row = i) rows)
      in (current_step r \<noteq> None \<longrightarrow> current \<noteq> None) \<and>
         (case run_status r of
            Active \<Rightarrow>
              (case current of
                 None \<Rightarrow> False
               | Some c \<Rightarrow> step_state c = Pending \<and>
                   map_option step_id (find (\<lambda>row. step_state row = Pending) rows) = Some (step_id c))
          | Blocked \<Rightarrow> (case current of None \<Rightarrow> False | Some c \<Rightarrow> step_state c = StepBlocked)
          | Failed \<Rightarrow>
              (case current of
                 None \<Rightarrow> False
               | Some c \<Rightarrow> step_state c = StepFailed \<or> step_state c = Pending \<or> step_state c = StepBlocked)
          | Completed \<Rightarrow>
              current_step r = None \<and>
              \<not> list_ex (\<lambda>row. step_state row = Pending \<or> step_state row = StepBlocked \<or> step_state row = StepFailed) rows))"

definition derive_run_state :: "run_step list \<Rightarrow> run_status \<times> string option \<times> nat option" where
  "derive_run_state steps =
     (case find (\<lambda>s. step_state s = StepFailed \<or> step_state s = StepBlocked) steps of
        Some u \<Rightarrow> (if step_state u = StepFailed then Failed else Blocked, Some (step_id u), None)
      | None \<Rightarrow>
          (case find (\<lambda>s. step_state s = Pending) steps of
             Some p \<Rightarrow> (Active, Some (step_id p), None)
           | None \<Rightarrow>
               (let times = sort (List.map the (List.filter (\<lambda>t. t \<noteq> None) (List.map step_completed_at steps)))
                in (Completed, None, if times = [] then None else Some (last times)))))"

section \<open>The engine lease\<close>

definition lease_blocks :: "workflow_run \<Rightarrow> string option \<Rightarrow> nat \<Rightarrow> bool" where
  "lease_blocks r holder now \<longleftrightarrow>
     (case (lease_holder r, lease_until r) of
        (Some h, Some u) \<Rightarrow> holder \<noteq> Some h \<and> \<not> u < now
      | _ \<Rightarrow> False)"

definition reclaim_orphaned_lease :: "nat \<Rightarrow> workflow_run \<Rightarrow> workflow_run" where
  "reclaim_orphaned_lease now r =
     (case (lease_holder r, lease_until r) of
        (Some h, Some u) \<Rightarrow> if now \<le> u then r else r\<lparr>lease_holder := None, lease_until := None\<rparr>
      | _ \<Rightarrow> r)"

definition acquire_engine_lease :: "string \<Rightarrow> nat \<Rightarrow> nat \<Rightarrow> workflow_run \<Rightarrow> bool \<times> workflow_run" where
  "acquire_engine_lease holder until now r =
     (if run_status r = Active \<and>
         (lease_holder r = None \<or> lease_until r = None \<or> (case lease_until r of Some u \<Rightarrow> u < now | None \<Rightarrow> False))
      then (True, r\<lparr>lease_holder := Some holder, lease_until := Some until\<rparr>)
      else (False, r))"

definition renew_engine_lease :: "string \<Rightarrow> nat \<Rightarrow> workflow_run \<Rightarrow> bool \<times> workflow_run" where
  "renew_engine_lease holder until r =
     (if lease_holder r = Some holder \<and> run_status r = Active then (True, r\<lparr>lease_until := Some until\<rparr>)
      else (False, r))"

definition release_engine_lease :: "string \<Rightarrow> workflow_run \<Rightarrow> workflow_run" where
  "release_engine_lease holder r =
     (if lease_holder r = Some holder \<and> run_status r \<noteq> Failed
      then r\<lparr>lease_holder := None, lease_until := None\<rparr> else r)"

section \<open>The summary gate\<close>

datatype judge_answer = JudgeError | MalformedVerdict | Verdict bool "string list" "string option"

record gate_result =
  gate_complete :: bool
  gate_missing :: "string list"

text \<open>The judge is a function of the step's criteria and the summary; it stands for the prompt, the model
  and the parsing of its answer.\<close>

definition validate_step_summary ::
  "(string list \<Rightarrow> string \<Rightarrow> judge_answer) option \<Rightarrow> string list \<Rightarrow> string \<Rightarrow> gate_result" where
  "validate_step_summary judge all_criteria summary =
     (let criteria = List.filter (\<lambda>c. js_trim c \<noteq> '''') all_criteria in
      if criteria = [] then \<lparr>gate_complete = True, gate_missing = []\<rparr>
      else
        (case judge of
           None \<Rightarrow> \<lparr>gate_complete = False, gate_missing = criteria\<rparr>
         | Some j \<Rightarrow>
             (case j criteria summary of
                JudgeError \<Rightarrow> \<lparr>gate_complete = False, gate_missing = criteria\<rparr>
              | MalformedVerdict \<Rightarrow> \<lparr>gate_complete = False, gate_missing = criteria\<rparr>
              | Verdict True _ _ \<Rightarrow> \<lparr>gate_complete = True, gate_missing = []\<rparr>
              | Verdict False ms _ \<Rightarrow>
                  \<lparr>gate_complete = False, gate_missing = List.filter (\<lambda>m. js_trim m \<noteq> '''') ms\<rparr>)))"

section \<open>Completing a step\<close>

record completion_input =
  in_step :: string
  in_status :: step_status
  in_notes :: "string option"
  in_evidence :: "string option"
  in_summary :: "string option"
  in_holder :: "string option"
  in_aborted :: bool

definition non_blank :: "string option \<Rightarrow> string option" where
  "non_blank s = (case s of None \<Rightarrow> None | Some t \<Rightarrow> if js_trim t = '''' then None else Some (js_trim t))"

text \<open>The checks the preflight and the write transaction share, in their order.\<close>

definition check_completion :: "completion_input \<Rightarrow> nat \<Rightarrow> workflow_run \<Rightarrow> (run_error, workflow_plan) result" where
  "check_completion inp now r =
     bind_result (require_executable_plan r) (\<lambda>plan.
       if \<not> spine_identity_ok plan (run_steps r) \<or> \<not> status_matches_spine r then Inl CorruptSpine
       else if run_status r \<noteq> Active then Inl (RunNotUpdatable (run_status r))
       else if lease_blocks r (in_holder inp) now then Inl (LeaseHeld (the (lease_holder r)))
       else
         (case find (\<lambda>row. step_id row = in_step inp) (run_steps r) of
            None \<Rightarrow> Inl (StepNotFound (in_step inp))
          | Some row \<Rightarrow>
              if step_state row \<noteq> Pending then Inl (StepNotPending (step_state row))
              else if current_step r \<noteq> Some (step_id row) then Inl StepNotCurrent
              else Inr plan))"

definition update_step :: "completion_input \<Rightarrow> nat \<Rightarrow> run_step \<Rightarrow> run_step" where
  "update_step inp now row =
     (if step_id row = in_step inp
      then row\<lparr>step_state := in_status inp, step_notes := non_blank (in_notes inp), step_evidence := in_evidence inp,
               step_summary := non_blank (in_summary inp), step_completed_at := Some now\<rparr>
      else row)"

text \<open>The write transaction: nothing is written when it throws.\<close>

definition commit_completion :: "completion_input \<Rightarrow> nat \<Rightarrow> workflow_run \<Rightarrow> (run_error, workflow_run) result" where
  "commit_completion inp now run0 =
     (let r = reclaim_orphaned_lease now run0 in
      bind_result (check_completion inp now r) (\<lambda>plan.
        if in_aborted inp then Inl Interrupted
        else
          (let steps = List.map (update_step inp now) (run_steps r);
               (status, current, done_at) = derive_run_state steps
           in Inr (r\<lparr>run_steps := steps,
                      run_outputs := (case plan_outputs plan of
                         Some resolve \<Rightarrow> if status = Completed then Some (fst (resolve steps)) else run_outputs r
                       | None \<Rightarrow> run_outputs r),
                      run_status := status, current_step := current,
                      updated_at := now, completed_at := done_at, checkin_armed_at := Some now\<rparr>))))"

datatype completion_outcome = Advanced | Rejected gate_result

text \<open>\<open>completeWorkflowStep\<close>: the preflight reads the run, the judge is asked outside any transaction, and the
  commit runs on the run as it is by then.\<close>

definition complete_workflow_step ::
  "(string list \<Rightarrow> string \<Rightarrow> judge_answer) option \<Rightarrow> completion_input \<Rightarrow> nat \<Rightarrow> nat \<Rightarrow> workflow_run \<Rightarrow> workflow_run \<Rightarrow>
     (run_error, completion_outcome) result \<times> workflow_run" where
  "complete_workflow_step judge inp t0 t1 r0 r1 =
     (case check_completion inp t0 (reclaim_orphaned_lease t0 r0) of
        Inl e \<Rightarrow> (Inl e, r1)
      | Inr plan \<Rightarrow>
          (case find (\<lambda>p. plan_step_id p = in_step inp) (plan_steps plan) of
             None \<Rightarrow> (Inl (StepNotFound (in_step inp)), r1)
           | Some ps \<Rightarrow>
               (let commit = (case commit_completion inp t1 r1 of
                                Inl e \<Rightarrow> (Inl e, r1)
                              | Inr r' \<Rightarrow> (Inr Advanced, r'))
                in if in_status inp \<noteq> StepCompleted then (if in_aborted inp then (Inl Interrupted, r1) else commit)
                   else
                     (case non_blank (in_summary inp) of
                        None \<Rightarrow> (Inl SummaryRequired, r1)
                      | Some summary \<Rightarrow>
                          if in_aborted inp then (Inl Interrupted, r1)
                          else if plan_criteria ps \<noteq> [] \<and> judge = None then (Inl NoJudge, r1)
                          else
                            (let g = validate_step_summary judge (plan_criteria ps) summary in
                             if \<not> gate_complete g then (Inr (Rejected g), r1\<lparr>checkin_armed_at := Some t1\<rparr>)
                             else commit)))))"

section \<open>Resuming and abandoning\<close>

definition reopen_step :: "string \<Rightarrow> run_step \<Rightarrow> run_step" where
  "reopen_step i row =
     (if step_id row = i \<and> (step_state row = StepBlocked \<or> step_state row = StepFailed)
      then row\<lparr>step_state := Pending, step_notes := None, step_evidence := None, step_completed_at := None\<rparr> else row)"

text \<open>
  \<open>resumeWorkflowRun\<close> is not one transaction: it selects the run row, reclaims an expired lease it saw, selects the step rows, decides,
  writes in a transaction of its own, and selects the step rows again for the final check.  Others may write between any two of these.
  A process is in one of these phases, with the row it has read.
\<close>

datatype resume_phase =
    Idle
  | Selected workflow_run
  | Row_Read workflow_run
  | To_Reopen workflow_run
  | Reopened workflow_run
  | Answered "(run_error, unit) result"

text \<open>The compare-and-swap on the lease that was seen.\<close>

definition reclaim_seen :: "nat \<Rightarrow> workflow_run \<Rightarrow> workflow_run \<Rightarrow> workflow_run" where
  "reclaim_seen now seen r =
     (if lease_holder r = lease_holder seen \<and> lease_until r = lease_until seen then reclaim_orphaned_lease now r else r)"

text \<open>What the rows that were read ask for: an error, nothing, or the write.\<close>

definition resume_decision :: "workflow_run \<Rightarrow> run_step list \<Rightarrow> (run_error, bool) result" where
  "resume_decision row rows =
     bind_result (require_executable_plan row) (\<lambda>plan.
       if \<not> spine_identity_ok plan rows then Inl CorruptSpine
       else if run_status row = Completed then Inl AlreadyCompleted
       else if run_status row = Active then (if status_matches_spine (row\<lparr>run_steps := rows\<rparr>) then Inr False else Inl CorruptSpine)
       else Inr True)"

text \<open>The transaction: the step that was current when the row was read is reopened, and the run marked active whatever its status.\<close>

definition reopen_run :: "nat \<Rightarrow> string option \<Rightarrow> workflow_run \<Rightarrow> workflow_run" where
  "reopen_run now cur r =
     r\<lparr>run_steps := (case cur of None \<Rightarrow> run_steps r | Some i \<Rightarrow> List.map (reopen_step i) (run_steps r)),
       run_status := Active, updated_at := now, lease_holder := None, lease_until := None\<rparr>"

text \<open>The next statement of a process, on the run as it is stored by then.\<close>

definition resume_workflow_run :: "nat \<Rightarrow> resume_phase \<Rightarrow> workflow_run \<Rightarrow> resume_phase \<times> workflow_run" where
  "resume_workflow_run now phase r =
     (case phase of
        Idle \<Rightarrow> (Selected r, r)
      | Selected seen \<Rightarrow> (Row_Read (reclaim_orphaned_lease now seen), reclaim_seen now seen r)
      | Row_Read row \<Rightarrow>
          ((case resume_decision row (run_steps r) of
              Inl e \<Rightarrow> Answered (Inl e)
            | Inr reopen \<Rightarrow> if reopen then To_Reopen row else Answered (Inr ())), r)
      | To_Reopen row \<Rightarrow> (Reopened row, reopen_run now (current_step row) r)
      | Reopened row \<Rightarrow>
          (Answered (if status_matches_spine (row\<lparr>run_status := Active, run_steps := run_steps r\<rparr>) then Inr () else Inl CorruptSpine), r)
      | Answered _ \<Rightarrow> (phase, r))"

text \<open>The whole of it with nobody in between.\<close>

definition resume_alone :: "nat \<Rightarrow> workflow_run \<Rightarrow> resume_phase \<times> workflow_run" where
  "resume_alone now r = ((\<lambda>(phase, r). resume_workflow_run now phase r) ^^ 5) (Idle, r)"

definition abandon_workflow_run :: "nat \<Rightarrow> workflow_run \<Rightarrow> (run_error, unit) result \<times> workflow_run" where
  "abandon_workflow_run now run0 =
     (let r = reclaim_orphaned_lease now run0 in
      if run_status r = Completed \<or> run_status r = Failed then (Inl (AlreadyTerminal (run_status r)), run0)
      else (Inr (), r\<lparr>run_status := Failed, updated_at := now, completed_at := Some now, checkin_armed_at := Some now\<rparr>))"

section \<open>Actions\<close>

text \<open>The writers of a run row, each with the instant at which it runs.  \<open>Commit\<close> is the write transaction of
  a completion, \<open>Rearm\<close> what a rejected gate writes, \<open>Reopen\<close> the one of a resume that read the given current step, \<open>Observe\<close> a
  read, which reclaims an expired lease.\<close>

datatype run_action =
    Commit completion_input
  | Rearm
  | Reopen "string option"
  | Abandon
  | Acquire string nat
  | Renew string nat
  | Release string
  | Observe

fun apply_action :: "run_action \<Rightarrow> nat \<Rightarrow> workflow_run \<Rightarrow> workflow_run" where
  "apply_action (Commit inp) now r = (case commit_completion inp now r of Inl _ \<Rightarrow> r | Inr r' \<Rightarrow> r')"
| "apply_action Rearm now r = r\<lparr>checkin_armed_at := Some now\<rparr>"
| "apply_action (Reopen cur) now r = reopen_run now cur r"
| "apply_action Abandon now r = snd (abandon_workflow_run now r)"
| "apply_action (Acquire h u) now r = snd (acquire_engine_lease h u now r)"
| "apply_action (Renew h u) now r = snd (renew_engine_lease h u r)"
| "apply_action (Release h) now r = release_engine_lease h r"
| "apply_action Observe now r = reclaim_orphaned_lease now r"

text \<open>
  A run with the processes that resume it.  The write of a resume is late when the run has been completed since its row was read,
  or has gone on to a step that is blocked or failed; \<open>overtaken\<close> records that this has happened.
\<close>

definition late :: "string option \<Rightarrow> workflow_run \<Rightarrow> bool" where
  "late cur r \<longleftrightarrow> run_status r = Completed \<or>
     (current_step r \<noteq> cur \<and>
      list_ex (\<lambda>row. current_step r = Some (step_id row) \<and> (step_state row = StepBlocked \<or> step_state row = StepFailed)) (run_steps r))"

record run_system =
  stored :: workflow_run
  resuming :: "nat \<Rightarrow> resume_phase"
  overtaken :: bool

datatype system_action = Do run_action | Resume_Next nat

fun system_step :: "system_action \<times> nat \<Rightarrow> run_system \<Rightarrow> run_system" where
  "system_step (Do a, now) s = s\<lparr>stored := apply_action a now (stored s)\<rparr>"
| "system_step (Resume_Next p, now) s =
     (case resume_workflow_run now (resuming s p) (stored s) of (phase, r) \<Rightarrow>
        s\<lparr>stored := r, resuming := (resuming s)(p := phase),
          overtaken := (overtaken s \<or> (case resuming s p of To_Reopen row \<Rightarrow> late (current_step row) (stored s) | _ \<Rightarrow> False))\<rparr>)"

section \<open>Publishing\<close>

definition pending_step :: "plan_step \<Rightarrow> run_step" where
  "pending_step p = \<lparr>step_id = plan_step_id p, step_state = Pending, step_notes = None, step_evidence = None,
     step_summary = None, step_completed_at = None\<rparr>"

definition new_run :: "string \<Rightarrow> string \<Rightarrow> string \<Rightarrow> string option \<Rightarrow> workflow_plan \<Rightarrow> nat \<Rightarrow> workflow_run" where
  "new_run i ref scope parent plan now =
     \<lparr>run_id = i, run_ref = ref, run_scope = scope, run_parent = parent, run_status = Active,
      current_step = (case plan_steps plan of [] \<Rightarrow> None | p # _ \<Rightarrow> Some (plan_step_id p)),
      updated_at = now, completed_at = None, checkin_armed_at = Some now, lease_holder = None, lease_until = None,
      run_outputs = None, run_plan = Supported plan, run_steps = List.map pending_step (plan_steps plan)\<rparr>"

definition active_in_scope :: "string list \<Rightarrow> string \<Rightarrow> workflow_run \<Rightarrow> bool" where
  "active_in_scope refs scope r \<longleftrightarrow>
     run_ref r \<in> set refs \<and> run_scope r = scope \<and> run_status r = Active \<and> run_parent r = None"

definition publish_workflow_run ::
  "bool \<Rightarrow> string list \<Rightarrow> workflow_run \<Rightarrow> workflow_run list \<Rightarrow> (run_error, workflow_run list) result" where
  "publish_workflow_run force refs r db =
     (case (if force then None else find (active_in_scope refs (run_scope r)) db) of
        Some old \<Rightarrow> Inl (ActiveRunExists (run_id old))
      | None \<Rightarrow> Inr (r # db))"

section \<open>Check-in\<close>

definition checkin_stall_ms :: nat where
  "checkin_stall_ms = 90000"

definition evaluate_checkin :: "workflow_run \<Rightarrow> nat \<Rightarrow> nat \<Rightarrow> nat option" where
  "evaluate_checkin r now stall =
     (if run_status r \<noteq> Active then None
      else
        (case checkin_armed_at r of
           None \<Rightarrow> None
         | Some armed \<Rightarrow>
             (let seen = max (updated_at r) armed in
              if int now - int seen < int stall then None else Some (now - seen))))"

section \<open>The shape of a spine\<close>

named_theorems run_simps \<open>how the operations change the fields of a run\<close>

definition settled :: "run_step \<Rightarrow> bool" where
  "settled s \<longleftrightarrow> step_state s = StepCompleted \<or> step_state s = Skipped"

definition state_fits :: "run_status \<Rightarrow> step_status \<Rightarrow> bool" where
  "state_fits st s \<longleftrightarrow>
     (case st of
        Active \<Rightarrow> s = Pending
      | Blocked \<Rightarrow> s = StepBlocked
      | Failed \<Rightarrow> s = StepFailed \<or> s = Pending \<or> s = StepBlocked
      | Completed \<Rightarrow> False)"

text \<open>Settled steps, then the current one, then pending ones; all settled when the run is completed.\<close>

definition spine_shape :: "run_status \<Rightarrow> string option \<Rightarrow> run_step list \<Rightarrow> bool" where
  "spine_shape st cur steps \<longleftrightarrow>
     (if st = Completed then cur = None \<and> (\<forall>s \<in> set steps. settled s)
      else (\<exists>pre c suf. steps = pre @ c # suf \<and> (\<forall>s \<in> set pre. settled s) \<and> (\<forall>s \<in> set suf. step_state s = Pending) \<and>
              cur = Some (step_id c) \<and> state_fits st (step_state c)))"

lemma spine_shapeI:
  "\<forall>s \<in> set pre. settled s \<Longrightarrow> \<forall>s \<in> set suf. step_state s = Pending \<Longrightarrow> state_fits st (step_state c) \<Longrightarrow>
     spine_shape st (Some (step_id c)) (pre @ c # suf)"
  by (auto simp: spine_shape_def state_fits_def)

definition run_ok :: "workflow_plan \<Rightarrow> workflow_run \<Rightarrow> bool" where
  "run_ok plan r \<longleftrightarrow>
     run_plan r = Supported plan \<and> distinct (List.map plan_step_id (plan_steps plan)) \<and>
     List.map step_id (run_steps r) = List.map plan_step_id (plan_steps plan) \<and>
     spine_shape (run_status r) (current_step r) (run_steps r)"

lemma find_append_None: "\<forall>x \<in> set pre. \<not> P x \<Longrightarrow> find P (pre @ xs) = find P xs"
  by (induction pre) auto

lemma find_distinct:
  assumes "distinct (List.map f (pre @ c # suf))"
  shows "find (\<lambda>x. f x = f c) (pre @ c # suf) = Some c"
proof -
  have "\<forall>x \<in> set pre. f x \<noteq> f c" using assms by (auto simp: image_iff)
  then show ?thesis by (simp add: find_append_None)
qed

lemma settled_not: "settled s \<Longrightarrow> step_state s \<noteq> Pending \<and> step_state s \<noteq> StepFailed \<and> step_state s \<noteq> StepBlocked"
  by (auto simp: settled_def)

lemma run_ok_identity: "run_ok plan r \<Longrightarrow> spine_identity_ok plan (run_steps r)"
proof -
  assume r: "run_ok plan r"
  then have e: "List.map step_id (run_steps r) = List.map plan_step_id (plan_steps plan)" by (simp add: run_ok_def)
  have "length (run_steps r) = length (plan_steps plan)" using arg_cong [OF e, of length] by simp
  moreover have "set (List.map step_id (run_steps r)) = set (List.map plan_step_id (plan_steps plan))" using e by simp
  then have "list_all (\<lambda>row. step_id row \<in> set (List.map plan_step_id (plan_steps plan))) (run_steps r)"
    by (auto simp: list_all_iff)
  ultimately show ?thesis by (simp add: spine_identity_ok_def)
qed

lemma run_ok_distinct: "run_ok plan r \<Longrightarrow> distinct (List.map step_id (run_steps r))"
  by (simp add: run_ok_def)

lemma run_ok_matches:
  assumes "run_ok plan r" shows "status_matches_spine r"
proof (cases "run_status r = Completed")
  case True
  then have "current_step r = None" "\<forall>s \<in> set (run_steps r). settled s"
    using assms by (auto simp: run_ok_def spine_shape_def)
  then show ?thesis using True settled_not by (fastforce simp: status_matches_spine_def list_ex_iff)
next
  case False
  then obtain pre c suf where s: "run_steps r = pre @ c # suf" "\<forall>s \<in> set pre. settled s"
      "current_step r = Some (step_id c)" "state_fits (run_status r) (step_state c)"
    using assms by (auto simp: run_ok_def spine_shape_def)
  have "distinct (List.map step_id (pre @ c # suf))" using run_ok_distinct [OF assms] s(1) by simp
  then have f: "find (\<lambda>row. step_id row = step_id c) (run_steps r) = Some c"
    unfolding s(1) by (rule find_distinct)
  have "find (\<lambda>row. step_state row = Pending) (run_steps r) = Some c" if "run_status r = Active"
    using s(2,4) that settled_not unfolding s(1)
    by (subst find_append_None) (auto simp: state_fits_def)
  then show ?thesis
    using s(3,4) f False by (cases "run_status r") (auto simp: status_matches_spine_def state_fits_def)
qed

lemma derive_shape:
  assumes "\<forall>s \<in> set pre. settled s" "\<forall>s \<in> set suf. step_state s = Pending" "step_state c \<noteq> Pending"
  shows "case derive_run_state (pre @ c # suf) of (st, cur, t) \<Rightarrow> spine_shape st cur (pre @ c # suf)"
proof (cases "settled c")
  case False
  then have c: "step_state c = StepFailed \<or> step_state c = StepBlocked"
    using assms(3) by (cases "step_state c") (auto simp: settled_def)
  have "find (\<lambda>s. step_state s = StepFailed \<or> step_state s = StepBlocked) (pre @ c # suf) = Some c"
    using assms(1) c settled_not by (subst find_append_None) auto
  then show ?thesis using c assms(1,2) by (auto simp: derive_run_state_def spine_shape_def state_fits_def)
next
  case True
  have pre: "\<forall>s \<in> set (pre @ [c]). settled s" using assms(1) True by simp
  have nf: "find (\<lambda>s. step_state s = StepFailed \<or> step_state s = StepBlocked) (pre @ c # suf) = None"
    using pre assms(2) settled_not by (fastforce simp: find_None_iff)
  show ?thesis
  proof (cases suf)
    case Nil
    then have "find (\<lambda>s. step_state s = Pending) (pre @ c # suf) = None"
      using pre settled_not by (fastforce simp: find_None_iff)
    then show ?thesis using nf pre Nil by (auto simp: derive_run_state_def spine_shape_def Let_def)
  next
    case (Cons d suf')
    have "find (\<lambda>s. step_state s = Pending) ((pre @ [c]) @ d # suf') = Some d"
      using pre assms(2) Cons settled_not by (subst find_append_None) auto
    then have "derive_run_state (pre @ c # suf) = (Active, Some (step_id d), None)"
      using nf Cons by (simp add: derive_run_state_def)
    moreover have "spine_shape Active (Some (step_id d)) ((pre @ [c]) @ d # suf')"
      by (rule spine_shapeI) (use pre assms(2) Cons in \<open>auto simp: state_fits_def\<close>)
    ultimately show ?thesis using Cons by simp
  qed
qed

section \<open>Operations keep the shape\<close>

lemma reclaim_fields [run_simps]:
  "run_status (reclaim_orphaned_lease now r) = run_status r" "current_step (reclaim_orphaned_lease now r) = current_step r"
  "run_steps (reclaim_orphaned_lease now r) = run_steps r" "run_plan (reclaim_orphaned_lease now r) = run_plan r"
  by (simp_all add: reclaim_orphaned_lease_def split: option.splits)

lemma reclaim_ok: "run_ok plan r \<Longrightarrow> run_ok plan (reclaim_orphaned_lease now r)"
  unfolding run_ok_def run_simps .

lemma map_update_step:
  assumes "distinct (List.map step_id (pre @ c # suf))" "in_step inp = step_id c"
  shows "List.map (update_step inp now) (pre @ c # suf) = pre @ update_step inp now c # suf"
proof -
  have "\<forall>s \<in> set pre \<union> set suf. step_id s \<noteq> step_id c" using assms(1) by (auto simp: image_iff)
  then show ?thesis using assms(2) by (auto simp: update_step_def intro!: map_idI)
qed

lemma update_step_id [simp]: "step_id (update_step inp now s) = step_id s"
  by (simp add: update_step_def)

lemma find_SomeD: "find P xs = Some x \<Longrightarrow> x \<in> set xs \<and> P x"
  by (induction xs) (auto split: if_splits)

lemma check_completion_Inr:
  assumes "check_completion inp now r = Inr plan"
  shows "require_executable_plan r = Inr plan \<and> run_status r = Active \<and> status_matches_spine r \<and>
    \<not> lease_blocks r (in_holder inp) now \<and> current_step r = Some (in_step inp) \<and>
    (\<exists>row \<in> set (run_steps r). step_id row = in_step inp \<and> step_state row = Pending)"
  using assms
  by (auto simp: check_completion_def bind_result_Inr_iff dest!: find_SomeD split: if_splits option.splits)

lemma commit_completion_Inr:
  assumes "commit_completion inp now r = Inr r'"
  obtains plan where "check_completion inp now (reclaim_orphaned_lease now r) = Inr plan" "\<not> in_aborted inp"
    "run_steps r' = List.map (update_step inp now) (run_steps r)"
    "(run_status r', current_step r', completed_at r') = derive_run_state (run_steps r')"
    "run_plan r' = run_plan r" "lease_holder r' = lease_holder (reclaim_orphaned_lease now r)"
    "lease_until r' = lease_until (reclaim_orphaned_lease now r)"
proof -
  obtain plan where plan: "check_completion inp now (reclaim_orphaned_lease now r) = Inr plan"
    using assms by (auto simp: commit_completion_def Let_def bind_result_Inr_iff)
  obtain st cur t where d: "derive_run_state (List.map (update_step inp now) (run_steps r)) = (st, cur, t)"
    by (cases "derive_run_state (List.map (update_step inp now) (run_steps r))")
  show thesis
    using assms plan d by (intro that [OF plan]) (auto simp: commit_completion_def Let_def run_simps split: if_splits)
qed

lemma commit_ok:
  assumes ok: "run_ok plan r" and c: "commit_completion inp now r = Inr r'" and np: "in_status inp \<noteq> Pending"
  shows "run_ok plan r'"
proof -
  obtain p where p: "check_completion inp now (reclaim_orphaned_lease now r) = Inr p"
    "run_steps r' = List.map (update_step inp now) (run_steps r)"
    "(run_status r', current_step r', completed_at r') = derive_run_state (run_steps r')" "run_plan r' = run_plan r"
    using c by (rule commit_completion_Inr)
  have act: "run_status r = Active" "current_step r = Some (in_step inp)"
    using check_completion_Inr [OF p(1)] by (simp_all add: run_simps)
  obtain pre d suf where s: "run_steps r = pre @ d # suf" "\<forall>s \<in> set pre. settled s"
      "\<forall>s \<in> set suf. step_state s = Pending" "in_step inp = step_id d"
    using ok act by (auto simp: run_ok_def spine_shape_def)
  have dist: "distinct (List.map step_id (pre @ d # suf))" using run_ok_distinct [OF ok] s(1) by simp
  have steps: "run_steps r' = pre @ update_step inp now d # suf"
    using p(2) map_update_step [OF dist s(4)] s(1) by simp
  have "step_state (update_step inp now d) = in_status inp" using s(4) by (simp add: update_step_def)
  then have "spine_shape (run_status r') (current_step r') (run_steps r')"
    using derive_shape [OF s(2,3), of "update_step inp now d"] np p(3) unfolding steps
    by (cases "derive_run_state (pre @ update_step inp now d # suf)") auto
  moreover have "List.map step_id (run_steps r') = List.map step_id (run_steps r)" using p(2) by simp
  ultimately show ?thesis using ok p(4) unfolding run_ok_def by metis
qed

lemma reopen_fits:
  "state_fits Blocked s \<or> state_fits Failed s \<Longrightarrow> s = StepFailed \<or> s = Pending \<or> s = StepBlocked"
  by (auto simp: state_fits_def)

text \<open>The write of a resume keeps the shape unless it is late, and never when it is.\<close>

lemma settled_reopen: "settled s \<or> step_state s = Pending \<Longrightarrow> reopen_step i s = s"
  using settled_not [of s] by (auto simp: reopen_step_def)

lemma reopen_step_id [simp]: "step_id (reopen_step i s) = step_id s"
  by (simp add: reopen_step_def)

lemma reopen_shape:
  assumes "run_ok plan r" "run_status r \<noteq> Completed"
  obtains pre c suf where "run_steps r = pre @ c # suf" "\<forall>s \<in> set pre. settled s" "\<forall>s \<in> set suf. step_state s = Pending"
    "current_step r = Some (step_id c)" "state_fits (run_status r) (step_state c)"
    "\<forall>i. List.map (reopen_step i) (run_steps r) = pre @ reopen_step i c # suf"
    "distinct (List.map step_id (pre @ c # suf))"
proof -
  obtain pre c suf where s: "run_steps r = pre @ c # suf" "\<forall>s \<in> set pre. settled s" "\<forall>s \<in> set suf. step_state s = Pending"
      "current_step r = Some (step_id c)" "state_fits (run_status r) (step_state c)"
    using assms by (auto simp: run_ok_def spine_shape_def)
  have "List.map (reopen_step i) (run_steps r) = pre @ reopen_step i c # suf" for i
    unfolding s(1) using s(2,3) settled_reopen by (auto intro!: map_idI)
  moreover have "distinct (List.map step_id (pre @ c # suf))" using run_ok_distinct [OF assms(1)] s(1) by simp
  ultimately show thesis using that s by blast
qed

lemma late_current:
  assumes "run_steps r = pre @ c # suf" "current_step r = Some (step_id c)" "distinct (List.map step_id (pre @ c # suf))"
    and "run_status r \<noteq> Completed"
  shows "late cur r \<longleftrightarrow> cur \<noteq> Some (step_id c) \<and> (step_state c = StepBlocked \<or> step_state c = StepFailed)"
proof -
  have "\<forall>s \<in> set pre \<union> set suf. step_id s \<noteq> step_id c" using assms(3) by (auto simp: image_iff)
  then show ?thesis using assms(1,2,4) by (auto simp: late_def list_ex_iff)
qed

lemma reopen_ok:
  assumes ok: "run_ok plan r" and timely: "\<not> late cur r"
  shows "run_ok plan (reopen_run now cur r)"
proof -
  have "run_status r \<noteq> Completed" using timely by (simp add: late_def)
  then obtain pre c suf where s: "run_steps r = pre @ c # suf" "\<forall>s \<in> set pre. settled s" "\<forall>s \<in> set suf. step_state s = Pending"
    "current_step r = Some (step_id c)" "state_fits (run_status r) (step_state c)"
    "\<forall>i. List.map (reopen_step i) (run_steps r) = pre @ reopen_step i c # suf"
    "distinct (List.map step_id (pre @ c # suf))" by (rule reopen_shape [OF ok])
  let ?c = "case cur of None \<Rightarrow> c | Some i \<Rightarrow> reopen_step i c"
  have steps: "run_steps (reopen_run now cur r) = pre @ ?c # suf" using s(1,6) by (cases cur) (simp_all add: reopen_run_def)
  have id: "step_id ?c = step_id c" by (cases cur) simp_all
  have timely: "cur = Some (step_id c) \<or> step_state c \<noteq> StepBlocked \<and> step_state c \<noteq> StepFailed"
    using timely late_current [OF s(1,4,7) \<open>run_status r \<noteq> Completed\<close>] by blast
  have "step_state ?c = Pending"
    using timely s(5) \<open>run_status r \<noteq> Completed\<close> by (cases cur; cases "run_status r") (auto simp: state_fits_def reopen_step_def)
  then have "spine_shape Active (Some (step_id ?c)) (pre @ ?c # suf)"
    by (intro spine_shapeI s(2,3)) (simp add: state_fits_def)
  moreover have "List.map step_id (pre @ ?c # suf) = List.map step_id (run_steps r)" using id s(1) by simp
  ultimately show ?thesis
    using ok s(4) id steps unfolding run_ok_def by (simp add: reopen_run_def)
qed

lemma late_breaks:
  assumes ok: "run_ok plan r" and late: "late cur r"
  shows "\<not> status_matches_spine (reopen_run now cur r)"
proof (cases "run_status r = Completed")
  case True
  then have "current_step (reopen_run now cur r) = None" using ok by (simp add: run_ok_def spine_shape_def reopen_run_def)
  then show ?thesis by (simp add: status_matches_spine_def reopen_run_def)
next
  case False
  obtain pre c suf where s: "run_steps r = pre @ c # suf" "\<forall>s \<in> set pre. settled s" "\<forall>s \<in> set suf. step_state s = Pending"
    "current_step r = Some (step_id c)" "state_fits (run_status r) (step_state c)"
    "\<forall>i. List.map (reopen_step i) (run_steps r) = pre @ reopen_step i c # suf"
    "distinct (List.map step_id (pre @ c # suf))" by (rule reopen_shape [OF ok False])
  have c: "cur \<noteq> Some (step_id c)" "step_state c = StepBlocked \<or> step_state c = StepFailed"
    using late late_current [OF s(1,4,7) False] by auto
  then have "run_steps (reopen_run now cur r) = pre @ c # suf"
    using s(1,6) by (cases cur) (auto simp: reopen_run_def reopen_step_def)
  moreover have "find (\<lambda>row. step_id row = step_id c) (pre @ c # suf) = Some c" by (rule find_distinct [OF s(7)])
  ultimately show ?thesis using c(2) s(4) by (auto simp: status_matches_spine_def Let_def reopen_run_def)
qed

lemma abandon_ok:
  assumes ok: "run_ok plan r" shows "run_ok plan (snd (abandon_workflow_run now r))"
proof (cases "run_status r = Completed \<or> run_status r = Failed")
  case True
  then show ?thesis using ok by (simp add: abandon_workflow_run_def run_simps)
next
  case False
  then show ?thesis
    using ok by (cases "run_status r")
      (auto simp: abandon_workflow_run_def run_simps run_ok_def spine_shape_def state_fits_def)
qed

lemma lease_ok:
  "run_ok plan r \<Longrightarrow> run_ok plan (snd (acquire_engine_lease h u now r))"
  "run_ok plan r \<Longrightarrow> run_ok plan (snd (renew_engine_lease h u r))"
  "run_ok plan r \<Longrightarrow> run_ok plan (release_engine_lease h r)"
  by (auto simp: acquire_engine_lease_def renew_engine_lease_def release_engine_lease_def run_ok_def)

text \<open>The inputs a caller may pass: the type of the status excludes \<open>pending\<close>.  The write of a resume is no action by itself; it
  comes after its reads.\<close>

fun action_allowed :: "run_action \<Rightarrow> bool" where
  "action_allowed (Commit inp) = (in_status inp \<noteq> Pending)"
| "action_allowed (Reopen cur) = False"
| "action_allowed _ = True"

lemma apply_action_ok:
  assumes "run_ok plan r" "action_allowed a" shows "run_ok plan (apply_action a now r)"
proof (cases a)
  case (Commit inp)
  then show ?thesis using assms commit_ok by (auto split: sum.splits)
next
  case Rearm
  then show ?thesis using assms by (simp add: run_ok_def)
qed (use assms in \<open>simp_all add: abandon_ok lease_ok reclaim_ok\<close>)

lemma new_run_ok:
  assumes "plan_steps plan \<noteq> []" "distinct (List.map plan_step_id (plan_steps plan))"
  shows "run_ok plan (new_run i ref scope parent plan now)"
proof -
  obtain p ps where ps: "plan_steps plan = p # ps" using assms(1) by (cases "plan_steps plan") auto
  have "spine_shape Active (Some (plan_step_id p)) ([] @ pending_step p # List.map pending_step ps)"
    using spine_shapeI [of "[]" "List.map pending_step ps" Active "pending_step p"]
    by (auto simp: state_fits_def pending_step_def)
  then show ?thesis using assms(2) ps
    by (simp add: run_ok_def new_run_def pending_step_def comp_def)
qed

section \<open>Reachable states\<close>

fun system_allowed :: "system_action \<times> nat \<Rightarrow> bool" where
  "system_allowed (Do a, now) = action_allowed a"
| "system_allowed (Resume_Next p, now) = True"

definition alone :: "workflow_run \<Rightarrow> run_system" where
  "alone r = \<lparr>stored = r, resuming = (\<lambda>p. Idle), overtaken = False\<rparr>"

inductive reachable :: "workflow_plan \<Rightarrow> run_system \<Rightarrow> bool" for plan where
  published: "plan_steps plan \<noteq> [] \<Longrightarrow> distinct (List.map plan_step_id (plan_steps plan)) \<Longrightarrow>
    reachable plan (alone (new_run i ref scope parent plan now))"
| acted: "reachable plan s \<Longrightarrow> system_allowed x \<Longrightarrow> reachable plan (system_step x s)"

inductive_cases reachableE: "reachable plan s"

text \<open>The identity of the steps is kept whatever happens; the shape of the spine until a resume writes too late.\<close>

definition ids_ok :: "workflow_plan \<Rightarrow> workflow_run \<Rightarrow> bool" where
  "ids_ok plan r \<longleftrightarrow> run_plan r = Supported plan \<and> distinct (List.map plan_step_id (plan_steps plan)) \<and>
     List.map step_id (run_steps r) = List.map plan_step_id (plan_steps plan)"

definition system_ok :: "workflow_plan \<Rightarrow> run_system \<Rightarrow> bool" where
  "system_ok plan s \<longleftrightarrow> ids_ok plan (stored s) \<and> (overtaken s \<or> run_ok plan (stored s)) \<and> finite {p. resuming s p \<noteq> Idle}"

lemma reopen_ids: "ids_ok plan r \<Longrightarrow> ids_ok plan (reopen_run now cur r)"
  by (cases cur) (auto simp: ids_ok_def reopen_run_def comp_def)

lemma reclaim_ids: "ids_ok plan r \<Longrightarrow> ids_ok plan (reclaim_orphaned_lease now r)"
  unfolding ids_ok_def run_simps .

lemma action_ids: "ids_ok plan r \<Longrightarrow> ids_ok plan (apply_action a now r)"
proof (cases a)
  case (Commit inp)
  assume "ids_ok plan r"
  then show ?thesis using Commit
    by (auto simp: ids_ok_def comp_def elim!: commit_completion_Inr split: sum.splits)
next
  case (Reopen cur)
  then show "ids_ok plan r \<Longrightarrow> ?thesis" by (simp add: reopen_ids)
next
  case Observe
  then show "ids_ok plan r \<Longrightarrow> ?thesis" by (simp add: reclaim_ids)
qed (auto simp: ids_ok_def abandon_workflow_run_def acquire_engine_lease_def renew_engine_lease_def
      release_engine_lease_def run_simps Let_def)

lemma reclaim_seen_cases: "reclaim_seen now seen r = r \<or> reclaim_seen now seen r = reclaim_orphaned_lease now r"
  by (simp add: reclaim_seen_def)

text \<open>What one statement of a resume does to the stored run.\<close>

lemma resume_statement:
  "snd (resume_workflow_run now phase r) \<in> {r, reclaim_orphaned_lease now r} \<or>
   (\<exists>row. phase = To_Reopen row \<and> snd (resume_workflow_run now phase r) = reopen_run now (current_step row) r)"
  using reclaim_seen_cases by (cases phase) (auto simp: resume_workflow_run_def)

lemma finite_others: "finite {q. f q \<noteq> y} \<Longrightarrow> finite {q. (f(p := x)) q \<noteq> y}"
  by (rule finite_subset [of _ "insert p {q. f q \<noteq> y}"]) auto

lemma system_step_ok:
  assumes ok: "system_ok plan s" and allowed: "system_allowed x"
  shows "system_ok plan (system_step x s)"
proof -
  obtain a now where x: "x = (a, now)" by (cases x)
  show ?thesis
  proof (cases a)
    case (Do b)
    then show ?thesis using assms x action_ids apply_action_ok by (auto simp: system_ok_def)
  next
    case (Resume_Next p)
    obtain phase r where step: "resume_workflow_run now (resuming s p) (stored s) = (phase, r)" by fastforce
    then consider "r = stored s \<or> r = reclaim_orphaned_lease now (stored s)"
      | row where "resuming s p = To_Reopen row" "r = reopen_run now (current_step row) (stored s)"
      using resume_statement [of now "resuming s p" "stored s"] by auto
    moreover have others: "finite {q. ((resuming s)(p := phase)) q \<noteq> Idle}"
      using ok by (intro finite_others) (simp add: system_ok_def)
    ultimately show ?thesis
    proof cases
      case 1
      then have "ids_ok plan r" "overtaken s \<or> run_ok plan r"
        using ok reclaim_ok reclaim_ids by (auto simp: system_ok_def)
      then show ?thesis using others step x Resume_Next by (simp add: system_ok_def) blast
    next
      case 2
      then have "ids_ok plan r" "overtaken s \<or> late (current_step row) (stored s) \<or> run_ok plan r"
        using ok reopen_ok reopen_ids by (auto simp: system_ok_def)
      then show ?thesis using others step x Resume_Next 2(1) by (simp add: system_ok_def)
    qed
  qed
qed

lemma alone_ok: "run_ok plan r \<Longrightarrow> system_ok plan (alone r)"
  by (simp add: system_ok_def alone_def ids_ok_def run_ok_def)

lemma reachable_ok: "reachable plan s \<Longrightarrow> system_ok plan s"
  by (induction rule: reachable.induct) (auto intro: alone_ok new_run_ok system_step_ok)

lemma reachable_run_ok: "reachable plan s \<Longrightarrow> \<not> overtaken s \<Longrightarrow> run_ok plan (stored s)"
  using reachable_ok by (auto simp: system_ok_def)

section \<open>Contracts\<close>

definition timed :: "run_action \<times> nat \<Rightarrow> workflow_run \<Rightarrow> workflow_run" where
  "timed p r = apply_action (fst p) (snd p) r"

lemma timed_eq: "timed = (\<lambda>(a, now). apply_action a now)"
  by (rule ext) (auto simp: timed_def)

interpretation wf: step_invariant system_step system_allowed "system_ok plan" for plan
  by unfold_locales (rule system_step_ok)

text \<open>
  Settled rows are final.  When every row is, so are the outputs; and a completed run keeps its status and completion time as
  long as no resume writes too late.
\<close>

definition keeps_work :: "run_system \<Rightarrow> run_system \<Rightarrow> bool" where
  "keeps_work s s' \<longleftrightarrow> (let r = stored s; r' = stored s' in
     length (run_steps r') = length (run_steps r) \<and>
     (\<forall>i < length (run_steps r). settled (run_steps r ! i) \<longrightarrow> run_steps r' ! i = run_steps r ! i) \<and>
     ((\<forall>row \<in> set (run_steps r). settled row) \<longrightarrow> run_outputs r' = run_outputs r) \<and>
     (run_status r = Completed \<and> \<not> overtaken s' \<longrightarrow>
        run_status r' = Completed \<and> current_step r' = current_step r \<and> completed_at r' = completed_at r) \<and>
     (overtaken s \<longrightarrow> overtaken s'))"

lemma reclaim_more [run_simps]:
  "run_outputs (reclaim_orphaned_lease now r) = run_outputs r" "completed_at (reclaim_orphaned_lease now r) = completed_at r"
  by (simp_all add: reclaim_orphaned_lease_def split: option.splits)

lemma reclaim_current [run_simps]: "current_step (reclaim_orphaned_lease now r) = current_step r"
  by (simp add: reclaim_orphaned_lease_def split: option.splits)

text \<open>The same for the run alone: \<open>late\<close> stands for the write that is too late.\<close>

definition run_keeps :: "bool \<Rightarrow> workflow_run \<Rightarrow> workflow_run \<Rightarrow> bool" where
  "run_keeps is_late r r' \<longleftrightarrow>
     length (run_steps r') = length (run_steps r) \<and>
     (\<forall>i < length (run_steps r). settled (run_steps r ! i) \<longrightarrow> run_steps r' ! i = run_steps r ! i) \<and>
     ((\<forall>row \<in> set (run_steps r). settled row) \<longrightarrow> run_outputs r' = run_outputs r) \<and>
     (run_status r = Completed \<and> \<not> is_late \<longrightarrow>
        run_status r' = Completed \<and> current_step r' = current_step r \<and> completed_at r' = completed_at r)"

lemma commit_keeps:
  assumes ids: "ids_ok plan r" and c: "commit_completion inp now r = Inr r'"
  shows "run_keeps b r r'"
proof -
  obtain p where p: "check_completion inp now (reclaim_orphaned_lease now r) = Inr p"
    "run_steps r' = List.map (update_step inp now) (run_steps r)"
    using c by (rule commit_completion_Inr)
  have act: "run_status r = Active"
    and row: "\<exists>row \<in> set (run_steps r). step_id row = in_step inp \<and> step_state row = Pending"
    using check_completion_Inr [OF p(1)] by (simp_all add: run_simps)
  obtain row where row: "row \<in> set (run_steps r)" "step_id row = in_step inp" "step_state row = Pending" using row by blast
  have dist: "distinct (List.map step_id (run_steps r))" using ids by (simp add: ids_ok_def)
  have "update_step inp now s = s" if s: "s \<in> set (run_steps r)" "settled s" for s
  proof -
    have "s \<noteq> row" using s(2) row(3) settled_not by auto
    then have "step_id s \<noteq> in_step inp" using dist s(1) row by (metis distinct_map inj_on_eq_iff)
    then show ?thesis by (simp add: update_step_def)
  qed
  moreover have "\<not> settled row" using row(3) by (simp add: settled_def)
  ultimately show ?thesis using act row(1) unfolding run_keeps_def p(2) by auto
qed

lemma reopen_keeps: "run_keeps (late cur r) r (reopen_run now cur r)"
  using settled_reopen by (cases cur) (auto simp: run_keeps_def reopen_run_def late_def)

lemma reclaim_keeps: "run_keeps b r (reclaim_orphaned_lease now r)"
  unfolding run_keeps_def run_simps by simp

lemma run_keeps_refl: "run_keeps b r r"
  by (simp add: run_keeps_def)

lemma action_keeps:
  assumes "ids_ok plan r" "action_allowed a" shows "run_keeps b r (apply_action a now r)"
proof (cases a)
  case (Commit inp)
  then show ?thesis using assms commit_keeps run_keeps_refl by (auto split: sum.splits)
qed (use assms(2) reclaim_keeps in \<open>auto simp: run_keeps_def abandon_workflow_run_def acquire_engine_lease_def renew_engine_lease_def
      release_engine_lease_def run_simps Let_def\<close>)

lemma keeps_workI:
  "run_keeps b (stored s) (stored s') \<Longrightarrow> (b \<or> overtaken s \<Longrightarrow> overtaken s') \<Longrightarrow> keeps_work s s'"
  by (auto simp: keeps_work_def run_keeps_def Let_def)

lemma step_keeps_work:
  assumes "system_ok plan s" "system_allowed x" shows "keeps_work s (system_step x s)"
proof -
  obtain a now where x: "x = (a, now)" by (cases x)
  have ids: "ids_ok plan (stored s)" using assms(1) by (simp add: system_ok_def)
  show ?thesis
  proof (cases a)
    case (Do b)
    then show ?thesis using assms(2) x action_keeps [OF ids] by (intro keeps_workI [where b = False]) auto
  next
    case (Resume_Next p)
    obtain phase r where step: "resume_workflow_run now (resuming s p) (stored s) = (phase, r)" by fastforce
    then consider "r = stored s \<or> r = reclaim_orphaned_lease now (stored s)"
      | row where "resuming s p = To_Reopen row" "r = reopen_run now (current_step row) (stored s)"
      using resume_statement [of now "resuming s p" "stored s"] by auto
    then show ?thesis
    proof cases
      case 1
      then show ?thesis using step x Resume_Next run_keeps_refl reclaim_keeps by (intro keeps_workI [where b = False]) auto
    next
      case 2
      then show ?thesis using step x Resume_Next reopen_keeps by (intro keeps_workI [where b = "late (current_step row) (stored s)"]) auto
    qed
  qed
qed

lemma keeps_work_rows: "keeps_work s t \<Longrightarrow> \<forall>row \<in> set (run_steps (stored s)). settled row \<Longrightarrow> run_steps (stored t) = run_steps (stored s)"
  by (auto simp: keeps_work_def Let_def intro: nth_equalityI)

lemma keeps_work_trans:
  assumes "keeps_work s t" "keeps_work t u" shows "keeps_work s u"
proof -
  have "run_outputs (stored u) = run_outputs (stored s)" if "\<forall>row \<in> set (run_steps (stored s)). settled row"
    using assms that keeps_work_rows [OF assms(1) that] by (simp add: keeps_work_def Let_def)
  moreover have "run_steps (stored u) ! i = run_steps (stored s) ! i"
    if "i < length (run_steps (stored s))" "settled (run_steps (stored s) ! i)" for i
  proof -
    have "run_steps (stored t) ! i = run_steps (stored s) ! i" "i < length (run_steps (stored t))"
      using assms(1) that by (simp_all add: keeps_work_def Let_def)
    then show ?thesis using assms(2) that by (simp add: keeps_work_def Let_def)
  qed
  moreover have "run_status (stored u) = Completed \<and> current_step (stored u) = current_step (stored s) \<and>
      completed_at (stored u) = completed_at (stored s)" if "run_status (stored s) = Completed" "\<not> overtaken u"
    using assms that by (auto simp: keeps_work_def Let_def)
  ultimately show ?thesis using assms by (auto simp: keeps_work_def Let_def)
qed

interpretation wf_settled: step_monotone system_step system_allowed "system_ok plan" keeps_work for plan
proof
  show "keeps_work s s" for s by (simp add: keeps_work_def)
  show "keeps_work s u" if "keeps_work s t" "keeps_work t u" for s t u using that by (rule keeps_work_trans)
  show "keeps_work s (system_step x s)" if "system_ok plan s" "system_allowed x" for s x using that by (rule step_keeps_work)
qed

subsection \<open>Progress\<close>

definition unsettled_count :: "workflow_run \<Rightarrow> nat" where
  "unsettled_count r = 2 * length (List.filter (\<lambda>s. \<not> settled s) (run_steps r)) + (if run_status r = Active then 0 else 1)"

definition finish_input :: "workflow_run \<Rightarrow> string \<Rightarrow> completion_input" where
  "finish_input r i = \<lparr>in_step = i, in_status = StepCompleted, in_notes = None, in_evidence = None,
     in_summary = Some ''done'', in_holder = lease_holder r, in_aborted = False\<rparr>"

lemma commit_current:
  assumes ok: "run_ok plan r" and act: "run_status r = Active" and cur: "current_step r = Some i"
  shows "\<exists>r'. commit_completion (finish_input (reclaim_orphaned_lease now r) i) now r = Inr r'"
proof -
  let ?r = "reclaim_orphaned_lease now r"
  let ?inp = "finish_input ?r i"
  have okr: "run_ok plan ?r" using ok by (rule reclaim_ok)
  obtain pre c suf where s: "run_steps r = pre @ c # suf" "step_state c = Pending" "i = step_id c"
    using ok act cur by (auto simp: run_ok_def spine_shape_def state_fits_def)
  have "distinct (List.map step_id (pre @ c # suf))" using run_ok_distinct [OF ok] s(1) by simp
  then have f: "find (\<lambda>row. step_id row = i) (run_steps r) = Some c" unfolding s(1,3) by (rule find_distinct)
  have "\<not> lease_blocks ?r (lease_holder ?r) now" by (auto simp: lease_blocks_def split: option.splits)
  moreover have "require_executable_plan ?r = Inr plan"
    using ok by (simp add: run_ok_def require_executable_plan_def run_simps)
  ultimately have "check_completion ?inp now ?r = Inr plan"
    using run_ok_identity [OF okr] run_ok_matches [OF okr] act cur s f
    by (simp add: check_completion_def finish_input_def run_simps)
  then show ?thesis
    by (simp add: commit_completion_def Let_def finish_input_def split: prod.splits)
qed

lemma commit_progress:
  assumes ok: "run_ok plan r" and act: "run_status r = Active"
  shows "\<exists>a. action_allowed a \<and> unsettled_count (apply_action a 0 r) < unsettled_count r"
proof -
  obtain pre c suf where s: "run_steps r = pre @ c # suf" "current_step r = Some (step_id c)" "step_state c = Pending"
    using ok act by (auto simp: run_ok_def spine_shape_def state_fits_def)
  have dist: "distinct (List.map step_id (pre @ c # suf))" using run_ok_distinct [OF ok] s(1) by simp
  have nc: "\<not> settled c" using s(3) by (simp add: settled_def)
  let ?inp = "finish_input (reclaim_orphaned_lease 0 r) (step_id c)"
  obtain r' where r': "commit_completion ?inp 0 r = Inr r'" using commit_current [OF ok act s(2)] by blast
  then have st: "run_steps r' = List.map (update_step ?inp 0) (run_steps r)" by (rule commit_completion_Inr)
  have c': "settled (update_step ?inp 0 c)" by (simp add: update_step_def finish_input_def settled_def)
  have "run_steps r' = pre @ update_step ?inp 0 c # suf"
    unfolding st s(1) by (rule map_update_step [OF dist]) (simp add: finish_input_def)
  then have "length (List.filter (\<lambda>s. \<not> settled s) (run_steps r')) < length (List.filter (\<lambda>s. \<not> settled s) (run_steps r))"
    using nc c' s(1) by simp
  then have "unsettled_count r' < unsettled_count r" using act by (simp add: unsettled_count_def)
  moreover have "action_allowed (Commit ?inp)" by (simp add: finish_input_def)
  ultimately show ?thesis using r' by (intro exI [of _ "Commit ?inp"]) simp
qed

text \<open>A resume that nobody disturbs, by a process that was idle: its first four statements bring the run back to active.\<close>

lemma undisturbed_resume:
  assumes ok: "run_ok plan (stored s)" and held: "run_status (stored s) = Blocked \<or> run_status (stored s) = Failed" and idle: "resuming s p = Idle"
  shows "stored (fold system_step (replicate 4 (Resume_Next p, now)) s) =
      reopen_run now (current_step (stored s)) (reclaim_orphaned_lease now (stored s))"
    and "overtaken (fold system_step (replicate 4 (Resume_Next p, now)) s) = overtaken s"
proof -
  let ?r = "reclaim_orphaned_lease now (stored s)"
  have okr: "run_ok plan ?r" using ok by (rule reclaim_ok)
  have decide: "resume_decision ?r (run_steps ?r) = Inr True"
    using run_ok_identity [OF okr] held ok
    by (auto simp: resume_decision_def require_executable_plan_def run_ok_def run_simps bind_result.simps split: sum.splits)
  have timely: "\<not> late (current_step ?r) ?r" using held by (auto simp: late_def run_simps)
  have seen: "reclaim_seen now (stored s) (stored s) = ?r" by (simp add: reclaim_seen_def)
  note run = resume_workflow_run_def eval_nat_numeral idle seen decide
  show "stored (fold system_step (replicate 4 (Resume_Next p, now)) s) = reopen_run now (current_step (stored s)) ?r"
    "overtaken (fold system_step (replicate 4 (Resume_Next p, now)) s) = overtaken s"
    using timely by (simp_all add: run reclaim_current)
qed

lemma reopen_progress:
  assumes ok: "run_ok plan r" and held: "run_status r = Blocked \<or> run_status r = Failed"
  shows "unsettled_count (reopen_run now (current_step r) (reclaim_orphaned_lease now r)) < unsettled_count r"
proof -
  have not_done: "run_status r \<noteq> Completed" using held by auto
  obtain pre c suf where s: "run_steps r = pre @ c # suf" "\<forall>s \<in> set pre. settled s" "\<forall>s \<in> set suf. step_state s = Pending"
    "current_step r = Some (step_id c)" "state_fits (run_status r) (step_state c)"
    "\<forall>i. List.map (reopen_step i) (run_steps r) = pre @ reopen_step i c # suf"
    "distinct (List.map step_id (pre @ c # suf))" by (rule reopen_shape [OF ok not_done])
  have "\<not> settled c" "\<not> settled (reopen_step (step_id c) c)"
    using s(5) held by (auto simp: state_fits_def settled_def reopen_step_def)
  moreover have "run_steps (reopen_run now (current_step r) (reclaim_orphaned_lease now r)) = pre @ reopen_step (step_id c) c # suf"
    using s(4,6) by (simp add: reopen_run_def run_simps)
  ultimately show ?thesis using held s(1) by (auto simp: unsettled_count_def reopen_run_def)
qed

text \<open>The system as long as no resume was too late.\<close>

definition on_time :: "workflow_plan \<Rightarrow> run_system \<Rightarrow> bool" where
  "on_time plan s \<longleftrightarrow> system_ok plan s \<and> \<not> overtaken s"

lemma system_progress:
  assumes ok: "on_time plan s" and "run_status (stored s) \<noteq> Completed"
  shows "\<exists>xs. list_all system_allowed xs \<and> on_time plan (fold system_step xs s) \<and>
    unsettled_count (stored (fold system_step xs s)) < unsettled_count (stored s)"
proof -
  have sys: "system_ok plan s" "\<not> overtaken s" and run: "run_ok plan (stored s)" using ok by (auto simp: on_time_def system_ok_def)
  show ?thesis
  proof (cases "run_status (stored s) = Active")
    case True
    obtain a where a: "action_allowed a" "unsettled_count (apply_action a 0 (stored s)) < unsettled_count (stored s)"
      using commit_progress [OF run True] by blast
    then show ?thesis using system_step_ok [OF sys(1), of "(Do a, 0)"] sys(2)
      by (intro exI [of _ "[(Do a, 0)]"]) (simp add: on_time_def)
  next
    case False
    then have held: "run_status (stored s) = Blocked \<or> run_status (stored s) = Failed"
      using assms(2) by (cases "run_status (stored s)") auto
    obtain p where p: "resuming s p = Idle"
      using sys(1) ex_new_if_finite [of "{p. resuming s p \<noteq> Idle}"] by (auto simp: system_ok_def)
    let ?xs = "replicate 4 (Resume_Next p, 0 :: nat)"
    have allowed: "list_all system_allowed ?xs" by (simp add: list_all_iff)
    then have "on_time plan (fold system_step ?xs s)"
      using wf.acts_ok [OF sys(1) allowed] undisturbed_resume(2) [OF run held p, of 0] sys(2) unfolding on_time_def by blast
    then show ?thesis
      using allowed undisturbed_resume(1) [OF run held p, of 0] reopen_progress [OF run held, of 0] by (intro exI [of _ ?xs]) simp
  qed
qed

interpretation wf_progress: sequence_progress system_step system_allowed "on_time plan"
    "\<lambda>s. run_status (stored s) = Completed" "\<lambda>s. unsettled_count (stored s)" for plan
  by unfold_locales (rule system_progress)

subsection \<open>The lease fence\<close>

text \<open>What others may do while \<open>h\<close> holds the lease until \<open>u\<close>: anything but resuming the run or using the
  holder's own id, at any time up to \<open>u\<close>.\<close>

fun foreign_action :: "string \<Rightarrow> run_action \<Rightarrow> bool" where
  "foreign_action h (Reopen cur) = False"
| "foreign_action h (Acquire h' _) = (h' \<noteq> h)"
| "foreign_action h (Renew h' _) = (h' \<noteq> h)"
| "foreign_action h (Release h') = (h' \<noteq> h)"
| "foreign_action h _ = True"

definition leased :: "string \<Rightarrow> nat \<Rightarrow> workflow_run \<Rightarrow> bool" where
  "leased h u r \<longleftrightarrow> lease_holder r = Some h \<and> lease_until r = Some u"

lemma reclaim_leased: "leased h u r \<Longrightarrow> now \<le> u \<Longrightarrow> reclaim_orphaned_lease now r = r"
  by (simp add: leased_def reclaim_orphaned_lease_def)

lemma foreign_keeps_lease:
  assumes l: "leased h u r" and f: "foreign_action h a" and t: "now \<le> u"
  shows "leased h u (apply_action a now r)"
proof (cases a)
  case (Commit inp)
  then show ?thesis
    using l reclaim_leased [OF l t] by (auto simp: leased_def elim!: commit_completion_Inr split: sum.splits)
next
  case (Acquire h' u')
  then show ?thesis using l t by (auto simp: leased_def acquire_engine_lease_def)
qed (use l f t reclaim_leased [OF l t] in \<open>auto simp: leased_def renew_engine_lease_def release_engine_lease_def abandon_workflow_run_def Let_def\<close>)

interpretation wf_lease: step_invariant timed "\<lambda>p. foreign_action h (fst p) \<and> snd p \<le> u" "leased h u" for h u
  by unfold_locales (simp add: timed_def foreign_keeps_lease)

lemma leased_refuses_others:
  assumes "leased h u r" "now \<le> u" "in_holder inp \<noteq> Some h"
  shows "\<exists>e. commit_completion inp now r = Inl e"
proof -
  have "lease_blocks r (in_holder inp) now" using assms by (simp add: leased_def lease_blocks_def)
  then have "\<not> (\<exists>r'. commit_completion inp now r = Inr r')"
    using check_completion_Inr [of inp now r] reclaim_leased [OF assms(1,2)]
    by (auto elim!: commit_completion_Inr)
  then show ?thesis by (cases "commit_completion inp now r") auto
qed

lemma acquire_leases: "acquire_engine_lease h u now r = (True, r') \<Longrightarrow> leased h u r'"
  by (auto simp: acquire_engine_lease_def leased_def split: if_splits)


section \<open>The gate\<close>

lemma validate_step_summary_complete:
  assumes "gate_complete (validate_step_summary judge criteria summary)"
    and "List.filter (\<lambda>c. js_trim c \<noteq> '''') criteria \<noteq> []"
  shows "\<exists>j ms f. judge = Some j \<and> j (List.filter (\<lambda>c. js_trim c \<noteq> '''') criteria) summary = Verdict True ms f"
  using assms
  by (auto simp: validate_step_summary_def Let_def split: option.splits judge_answer.splits bool.splits)

lemma find_plan_step:
  assumes "find (\<lambda>p. plan_step_id p = i) ps = Some p" "distinct (List.map plan_step_id ps)" "q \<in> set ps" "plan_step_id q = i"
  shows "q = p"
proof -
  have "p \<in> set ps" "plan_step_id p = i" using find_SomeD [OF assms(1)] by simp_all
  moreover have "inj_on plan_step_id (set ps)" using assms(2) by (simp add: distinct_map)
  ultimately show ?thesis using assms(3,4) by (metis inj_on_eq_iff)
qed

section \<open>Properties\<close>

definition sample_plan :: workflow_plan where
  "sample_plan = \<lparr>plan_steps = [\<lparr>plan_step_id = ''build'', plan_criteria = []\<rparr>,
     \<lparr>plan_step_id = ''ship'', plan_criteria = [''tests pass'']\<rparr>], plan_outputs = None\<rparr>"

definition sample_run :: workflow_run where
  "sample_run = new_run ''r1'' ''core//workflows/release'' ''cwd'' None sample_plan 10"

definition build_done :: completion_input where
  "build_done = \<lparr>in_step = ''build'', in_status = StepCompleted, in_notes = None, in_evidence = None,
     in_summary = Some ''built'', in_holder = None, in_aborted = False\<rparr>"

lemma sample_reachable: "reachable sample_plan (alone sample_run)"
  unfolding sample_run_def by (rule published) (simp_all add: sample_plan_def)

lemma reachable_run: "reachable plan s \<Longrightarrow> list_all system_allowed xs \<Longrightarrow> reachable plan (fold system_step xs s)"
  by (induction xs arbitrary: s) (auto intro: acted)

definition ship_done :: completion_input where
  "ship_done = build_done\<lparr>in_step := ''ship'', in_summary := Some ''tests pass''\<rparr>"

text \<open>Two processes resume an abandoned run: the first stops before its write, the second resumes the run and completes it.\<close>

definition race :: "(system_action \<times> nat) list" where
  "race = (Do Abandon, 30) # replicate 3 (Resume_Next 0, 40) @ replicate 5 (Resume_Next 1, 50) @
     [(Do (Commit build_done), 60), (Do (Commit ship_done), 70)]"

lemma race_allowed: "list_all system_allowed race"
  by (simp add: race_def build_done_def ship_done_def list_all_iff)

text \<open>C6: In every state that the operations and any number of interleaved resumes can produce, as long as no resume has written too late, the
  durable step spine agrees with the frozen plan and with the run status: settled steps, then the current step, then pending ones.  So the
  corruption check every operation begins with never refuses a run written by these operations only.  And a pending write of a
  resume, whatever current step it has read, keeps the agreement exactly if it is not late: if the run was not completed
  meanwhile and did not go on to another step that is blocked or failed.\<close>

theorem reachable_spine_consistent:
  assumes "reachable plan s" "\<not> overtaken s"
  shows "spine_identity_ok plan (run_steps (stored s)) \<and> status_matches_spine (stored s) \<and>
    spine_shape (run_status (stored s)) (current_step (stored s)) (run_steps (stored s)) \<and>
    (\<forall>cur now. status_matches_spine (reopen_run now cur (stored s)) \<longleftrightarrow> \<not> late cur (stored s))"
proof -
  have ok: "run_ok plan (stored s)" by (rule reachable_run_ok [OF assms])
  have "status_matches_spine (reopen_run now cur (stored s)) \<longleftrightarrow> \<not> late cur (stored s)" for cur now
    using late_breaks [OF ok] run_ok_matches [OF reopen_ok [OF ok]] by blast
  then show ?thesis using run_ok_identity [OF ok] run_ok_matches [OF ok] ok by (simp add: run_ok_def)
qed

theorem reachable_spine_consistent_witness:
  "let s = fold system_step race (alone sample_run) in
   run_status (stored s) = Completed \<and> status_matches_spine (stored s) \<and> late (Some ''build'') (stored s) \<and>
   \<not> status_matches_spine (reopen_run 80 (Some ''build'') (stored s))"
proof -
  let ?s = "fold system_step race (alone sample_run)"
  have "reachable sample_plan ?s" by (rule reachable_run [OF sample_reachable race_allowed])
  moreover have "\<not> overtaken ?s" "run_status (stored ?s) = Completed" by code_simp+
  moreover have "late (Some ''build'') (stored ?s)" by code_simp
  ultimately show ?thesis unfolding Let_def using reachable_spine_consistent by blast
qed



text \<open>C8: No run is stuck unless a resume has written too late.  From every other reachable state, blocked, failed, abandoned or leased ones
  and those with resumes under way included, some sequence of actions and of statements of resumes takes the run to completion.\<close>

theorem every_run_can_finish:
  assumes "reachable plan s" "\<not> overtaken s"
  shows "\<exists>xs. list_all system_allowed xs \<and> run_status (stored (fold system_step xs s)) = Completed"
  by (rule wf_progress.reaches_goal) (use reachable_ok [OF assms(1)] assms(2) in \<open>simp add: on_time_def\<close>)

theorem every_run_can_finish_witness:
  "\<exists>xs. list_all system_allowed xs \<and>
    run_status (stored (fold system_step xs (fold system_step [(Do Abandon, 30), (Resume_Next 0, 40)] (alone sample_run)))) = Completed"
proof (rule every_run_can_finish)
  show "reachable sample_plan (fold system_step [(Do Abandon, 30), (Resume_Next 0, 40)] (alone sample_run))"
    by (rule reachable_run [OF sample_reachable]) simp
qed code_simp

text \<open>Such a write on a completed run is for good: the run is not completed any more, has no current step, and nothing completes it again.\<close>

definition lost :: "workflow_run \<Rightarrow> bool" where
  "lost r \<longleftrightarrow> run_status r \<noteq> Completed \<and> current_step r = None"

lemma action_lost: "lost r \<Longrightarrow> lost (apply_action a now r)"
proof (cases a)
  case (Commit inp)
  assume "lost r"
  then have "\<not> (\<exists>r'. commit_completion inp now r = Inr r')"
    using check_completion_Inr [of inp now "reclaim_orphaned_lease now r"]
    by (auto simp: lost_def run_simps elim!: commit_completion_Inr)
  then show ?thesis using Commit \<open>lost r\<close> by (auto split: sum.splits)
qed (auto simp: lost_def reopen_run_def abandon_workflow_run_def acquire_engine_lease_def renew_engine_lease_def
      release_engine_lease_def run_simps Let_def)

lemma step_lost: "lost (stored s) \<Longrightarrow> lost (stored (system_step x s))"
proof -
  assume lost: "lost (stored s)"
  obtain a now where x: "x = (a, now)" by (cases x)
  show ?thesis
  proof (cases a)
    case (Do b)
    then show ?thesis using x lost action_lost by simp
  next
    case (Resume_Next p)
    have "lost (snd (resume_workflow_run now (resuming s p) (stored s)))"
      using resume_statement [of now "resuming s p" "stored s"] lost by (auto simp: lost_def run_simps reopen_run_def)
    then show ?thesis using x Resume_Next by (simp add: case_prod_unfold)
  qed
qed

lemma steps_lost: "lost (stored s) \<Longrightarrow> lost (stored (fold system_step xs s))"
  by (induction xs arbitrary: s) (auto intro: step_lost)

theorem late_resume_loses_a_completed_run:
  assumes "reachable plan s" "\<not> overtaken s" "run_status (stored s) = Completed" "resuming s p = To_Reopen row"
  shows "lost (stored (fold system_step ((Resume_Next p, now) # xs) s))"
proof -
  have "current_step (stored s) = None"
    using reachable_run_ok [OF assms(1,2)] assms(3) by (simp add: run_ok_def spine_shape_def)
  then have "lost (stored (system_step (Resume_Next p, now) s))"
    using assms(4) by (simp add: resume_workflow_run_def lost_def reopen_run_def)
  then show ?thesis using steps_lost by simp
qed

theorem late_resume_loses_a_completed_run_witness:
  "lost (stored (fold system_step [(Resume_Next 0, 80), (Do (Commit ship_done), 90)] (fold system_step race (alone sample_run))))"
proof -
  let ?s = "fold system_step race (alone sample_run)"
  have "reachable sample_plan ?s" by (rule reachable_run [OF sample_reachable race_allowed])
  moreover have "\<not> overtaken ?s" "run_status (stored ?s) = Completed" by code_simp+
  moreover have "\<exists>row. resuming ?s 0 = To_Reopen row"
  proof -
    have "case resuming ?s 0 of To_Reopen row \<Rightarrow> True | _ \<Rightarrow> False" by code_simp
    then show ?thesis by (cases "resuming ?s 0") simp_all
  qed
  ultimately show ?thesis using late_resume_loses_a_completed_run [of sample_plan ?s 0 _ 80 "[(Do (Commit ship_done), 90)]"] by blast
qed

text \<open>A resume with nobody in between never is late.\<close>

lemma resume_alone_ok:
  assumes "run_ok plan r" shows "run_ok plan (snd (resume_alone now r))"
proof -
  let ?r = "reclaim_orphaned_lease now r"
  have okr: "run_ok plan ?r" using assms by (rule reclaim_ok)
  have req: "require_executable_plan ?r = Inr plan" using assms by (simp add: run_ok_def require_executable_plan_def run_simps)
  have timely: "\<not> late (current_step ?r) ?r" if "run_status ?r \<noteq> Completed" using that by (simp add: late_def)
  have "snd (resume_alone now r) = (if run_status r = Blocked \<or> run_status r = Failed then reopen_run now (current_step ?r) ?r else ?r)"
    using req run_ok_identity [OF okr] run_ok_matches [OF okr]
    by (cases "run_status r") (simp_all add: resume_alone_def eval_nat_numeral resume_workflow_run_def reclaim_seen_def
        resume_decision_def bind_result.simps run_simps)
  then show ?thesis using okr reopen_ok [OF okr timely] by (simp add: run_simps)
qed

text \<open>C9: Single driver.  Once an engine has the lease, and until it expires, no completion by anyone else
  is written, whatever the others try meanwhile: completing, abandoning, acquiring, renewing or releasing with
  their own ids, or just reading the run.  Only an explicit resume ends the lease early.\<close>

theorem live_lease_excludes_other_drivers:
  assumes "acquire_engine_lease h u t0 r = (True, r0)"
    and "list_all (\<lambda>(a, now). foreign_action h a \<and> now \<le> u) acts"
    and "now \<le> u" and "in_holder inp \<noteq> Some h"
  shows "\<exists>e. commit_completion inp now (fold (\<lambda>(a, now). apply_action a now) acts r0) = Inl e"
proof -
  have "list_all (\<lambda>p. foreign_action h (fst p) \<and> snd p \<le> u) acts" using assms(2) by (auto simp: list_all_iff)
  from wf_lease.acts_ok [OF acquire_leases [OF assms(1)] this] show ?thesis
    using leased_refuses_others [OF _ assms(3,4)] by (simp add: timed_eq)
qed

theorem live_lease_excludes_other_drivers_witness:
  "\<exists>e. commit_completion build_done 25
     (fold (\<lambda>(a, now). apply_action a now) [(Acquire ''other'' 500, 20), (Observe, 21), (Release ''other'', 22)]
       (sample_run\<lparr>lease_holder := Some ''engine'', lease_until := Some 100\<rparr>)) = Inl e"
  by (rule live_lease_excludes_other_drivers [of "''engine''" 100 15 sample_run])
     (simp_all add: acquire_engine_lease_def sample_run_def new_run_def build_done_def)

text \<open>The gate is closed by default.  When a step with a completion criterion is completed, a judge was
  present and affirmed the criteria on the trimmed summary; a missing, failing or malformed judge never lets a
  step through, whatever happened to the run between the check and the commit.\<close>

theorem completed_step_passed_its_gate:
  assumes "fst (complete_workflow_step judge inp t0 t1 r0 r1) = Inr Advanced"
    and "in_status inp = StepCompleted" and "reachable plan s" "\<not> overtaken s" "r0 = stored s"
    and "ps \<in> set (plan_steps plan)" "plan_step_id ps = in_step inp"
    and "List.filter (\<lambda>c. js_trim c \<noteq> '''') (plan_criteria ps) \<noteq> []"
  shows "\<exists>j summary ms f. judge = Some j \<and> in_summary inp = Some summary \<and>
    j (List.filter (\<lambda>c. js_trim c \<noteq> '''') (plan_criteria ps)) (js_trim summary) = Verdict True ms f"
proof -
  have ok: "run_ok plan r0" using assms(3-5) reachable_run_ok by blast
  obtain p where p: "check_completion inp t0 (reclaim_orphaned_lease t0 r0) = Inr p"
    using assms(1) by (auto simp: complete_workflow_step_def split: sum.splits)
  have "p = plan" using check_completion_Inr [OF p] ok
    by (auto simp: require_executable_plan_def run_simps run_ok_def)
  moreover obtain q where q: "find (\<lambda>p. plan_step_id p = in_step inp) (plan_steps p) = Some q"
    using assms(1) p by (auto simp: complete_workflow_step_def split: option.splits)
  moreover have "distinct (List.map plan_step_id (plan_steps plan))" using ok by (simp add: run_ok_def)
  ultimately have "ps = q" using find_plan_step assms(6,7) by blast
  obtain summary where sm: "non_blank (in_summary inp) = Some summary"
    using assms(1,2) p q by (auto simp: complete_workflow_step_def Let_def split: option.splits if_splits)
  have g: "gate_complete (validate_step_summary judge (plan_criteria ps) summary)"
    using assms(1,2) p q sm \<open>ps = q\<close> by (auto simp: complete_workflow_step_def Let_def split: if_splits)
  obtain s where s: "in_summary inp = Some s" "summary = js_trim s"
    using sm by (auto simp: non_blank_def split: option.splits if_splits)
  show ?thesis using validate_step_summary_complete [OF g assms(8)] s by blast
qed

theorem completed_step_passed_its_gate_witness:
  "\<exists>j summary ms f. Some (\<lambda>cs t. Verdict (t = ''all green'') [] None) = Some j \<and>
     in_summary (build_done\<lparr>in_step := ''ship'', in_summary := Some '' all green ''\<rparr>) = Some summary \<and>
     j (List.filter (\<lambda>c. js_trim c \<noteq> '''') (plan_criteria \<lparr>plan_step_id = ''ship'', plan_criteria = [''tests pass'']\<rparr>))
       (js_trim summary) = Verdict True ms f"
proof (rule completed_step_passed_its_gate)
  let ?r = "apply_action (Commit build_done) 20 sample_run"
  show "reachable sample_plan (system_step (Do (Commit build_done), 20) (alone sample_run))"
    by (rule acted [OF sample_reachable]) (simp add: build_done_def)
  show "?r = stored (system_step (Do (Commit build_done), 20) (alone sample_run))" by (simp add: alone_def)
  show "fst (complete_workflow_step (Some (\<lambda>cs t. Verdict (t = ''all green'') [] None))
      (build_done\<lparr>in_step := ''ship'', in_summary := Some '' all green ''\<rparr>) 30 31 ?r ?r) = Inr Advanced"
    by code_simp
qed code_simp+

text \<open>Resuming an abandoned run leaves the completion time of the abandonment on the now active run.\<close>

theorem resumed_run_keeps_completion_time:
  "let r = snd (resume_alone 40 (apply_action Abandon 30 sample_run)) in
   run_status r = Active \<and> completed_at r = Some 30"
  by code_simp

text \<open>The guard against a second active run in one scope covers publication only: resuming is not checked.\<close>

theorem resume_bypasses_the_scope_guard:
  "let a = apply_action Abandon 30 sample_run;
       b = sample_run\<lparr>run_id := ''r2''\<rparr>;
       refs = [''core//workflows/release'']
   in publish_workflow_run False refs b [a] = Inr [b, a] \<and>
      List.map run_id (List.filter (active_in_scope refs ''cwd'') [b, snd (resume_alone 40 a)]) = [''r2'', ''r1'']"
proof -
  let ?a = "apply_action Abandon 30 sample_run"
  have "run_status ?a = Failed" by code_simp
  then have "publish_workflow_run False [''core//workflows/release''] b [?a] = Inr [b, ?a]" for b
    by (simp add: publish_workflow_run_def active_in_scope_def)
  moreover have "List.map run_id (List.filter (active_in_scope [''core//workflows/release''] ''cwd'')
      [sample_run\<lparr>run_id := ''r2''\<rparr>, snd (resume_alone 40 ?a)]) = [''r2'', ''r1'']" by code_simp
  ultimately show ?thesis by (simp only: Let_def)
qed

end
