(* ===== verification/Unit_Attempts.thy ===== *)
theory Unit_Attempts
  imports Workflow_Run
begin

text \<open>
  The append-only dispatch journal of one unit of a run: \<open>reserveUnitAttempt\<close>, \<open>finishUnitAttempt\<close> and
  \<open>getAttemptAccounting\<close> of \<^verbatim>\<open>src/storage/repositories/workflow-runs-repository.ts\<close>, and the staleness check
  of \<^verbatim>\<open>src/workflows/runtime/unit-checkin.ts\<close>.  Every statement of those methods is keyed by run and unit, so
  the model follows one unit: its attempt rows in order, its row of the current projection, and the
  started and finished events.  The dispatch id a reservation draws is an argument.
\<close>

section \<open>Data\<close>

datatype attempt_phase = UnitPhase | GatePhase

datatype attempt_status = Running | AttemptCompleted | AttemptFailed | AttemptSkipped

record attempt_work =
  work_step :: string
  work_node :: string
  work_parent :: "string option"
  work_phase :: attempt_phase
  work_runner :: "string option"
  work_engine :: "string option"
  work_model :: "string option"
  work_hash :: string
  work_tree :: "string option"

record attempt_outcome =
  out_result :: "string option"
  out_tokens :: "nat option"
  out_failure :: "string option"
  out_session :: "string option"

definition no_outcome :: attempt_outcome where
  "no_outcome = \<lparr>out_result = None, out_tokens = None, out_failure = None, out_session = None\<rparr>"

record attempt_row =
  attempt_no :: nat
  dispatch_id :: string
  attempt_work :: attempt_work
  attempt_status :: attempt_status
  attempt_outcome :: attempt_outcome
  attempt_started :: nat
  attempt_finished :: "nat option"
  claim_holder :: string
  claim_expires :: nat

record unit_row =
  unit_work :: attempt_work
  unit_status :: attempt_status
  unit_outcome :: attempt_outcome
  unit_started :: nat
  unit_finished :: "nat option"
  unit_checkin :: "nat option"
  unit_attempts :: nat
  unit_holder :: string
  unit_expires :: nat

datatype unit_event =
    UnitStarted nat string
  | UnitFinished nat string attempt_status

record unit_journal =
  attempt_rows :: "attempt_row list"
  projection :: "unit_row option"
  unit_events :: "unit_event list"

definition empty_journal :: unit_journal where
  "empty_journal = \<lparr>attempt_rows = [], projection = None, unit_events = []\<rparr>"

datatype lease_mode = EngineMode | DirectMode

record reserve_input =
  rsv_work :: attempt_work
  rsv_holder :: string
  rsv_expires :: nat
  rsv_now :: nat
  rsv_mode :: lease_mode

record finish_input_row =
  fin_attempt :: nat
  fin_dispatch :: string
  fin_holder :: string
  fin_status :: attempt_status
  fin_outcome :: attempt_outcome
  fin_at :: nat

datatype attempt_error =
    RunNotActive
  | LeasedByAnother
  | LeaseHolderChanged
  | LeaseExpired
  | NoLiveProjection

datatype reserve_result = Reserved attempt_row | Existing attempt_row | Reclaimed attempt_row | Busy attempt_row

section \<open>Reserving\<close>

definition check_reservation_lease :: "reserve_input \<Rightarrow> workflow_run \<Rightarrow> (attempt_error, unit) result" where
  "check_reservation_lease inp run =
     (case rsv_mode inp of
        DirectMode \<Rightarrow> if lease_holder run = None then Inr () else Inl LeasedByAnother
      | EngineMode \<Rightarrow>
          if lease_holder run \<noteq> Some (rsv_holder inp) then Inl LeaseHolderChanged
          else if (case lease_until run of None \<Rightarrow> True | Some u \<Rightarrow> u < rsv_now inp) then Inl LeaseExpired
          else Inr ())"

definition latest_attempt :: "unit_journal \<Rightarrow> attempt_row option" where
  "latest_attempt j = (if attempt_rows j = [] then None else Some (last (attempt_rows j)))"

definition new_attempt :: "reserve_input \<Rightarrow> string \<Rightarrow> nat \<Rightarrow> attempt_row" where
  "new_attempt inp d n =
     \<lparr>attempt_no = n, dispatch_id = d, attempt_work = rsv_work inp, attempt_status = Running,
      attempt_outcome = no_outcome, attempt_started = rsv_now inp, attempt_finished = None,
      claim_holder = rsv_holder inp, claim_expires = rsv_expires inp\<rparr>"

definition projected_row :: "reserve_input \<Rightarrow> nat \<Rightarrow> unit_row" where
  "projected_row inp n =
     \<lparr>unit_work = rsv_work inp, unit_status = Running, unit_outcome = no_outcome, unit_started = rsv_now inp,
      unit_finished = None, unit_checkin = None, unit_attempts = n, unit_holder = rsv_holder inp,
      unit_expires = rsv_expires inp\<rparr>"

definition reclaim_attempt :: "reserve_input \<Rightarrow> attempt_row \<Rightarrow> unit_journal \<Rightarrow> unit_journal" where
  "reclaim_attempt inp latest j =
     j\<lparr>attempt_rows := butlast (attempt_rows j) @
         [latest\<lparr>claim_holder := rsv_holder inp, claim_expires := rsv_expires inp\<rparr>],
       projection :=
         (case projection j of
            None \<Rightarrow> None
          | Some p \<Rightarrow>
              Some (if unit_status p = Running
                    then p\<lparr>unit_holder := rsv_holder inp, unit_expires := rsv_expires inp, unit_checkin := Some (rsv_now inp)\<rparr>
                    else p))\<rparr>"

definition append_attempt :: "reserve_input \<Rightarrow> string \<Rightarrow> nat \<Rightarrow> unit_journal \<Rightarrow> unit_journal" where
  "append_attempt inp d n j =
     \<lparr>attempt_rows = attempt_rows j @ [new_attempt inp d n], projection = Some (projected_row inp n),
      unit_events = unit_events j @ [UnitStarted n d]\<rparr>"

definition reserve_unit_attempt ::
  "workflow_run option \<Rightarrow> reserve_input \<Rightarrow> string \<Rightarrow> unit_journal \<Rightarrow> (attempt_error, reserve_result) result \<times> unit_journal" where
  "reserve_unit_attempt found inp d j =
     (case found of
        None \<Rightarrow> (Inl RunNotActive, j)
      | Some run \<Rightarrow>
          if run_status run \<noteq> Active then (Inl RunNotActive, j)
          else
            (case check_reservation_lease inp run of
               Inl e \<Rightarrow> (Inl e, j)
             | Inr _ \<Rightarrow>
                 (case latest_attempt j of
                    None \<Rightarrow> (Inr (Reserved (new_attempt inp d 1)), append_attempt inp d 1 j)
                  | Some latest \<Rightarrow>
                      if attempt_status latest = Running
                      then
                        if claim_holder latest = rsv_holder inp then (Inr (Existing latest), j)
                        else if \<not> claim_expires latest < rsv_now inp \<and> lease_holder run \<noteq> Some (rsv_holder inp)
                          then (Inr (Busy latest), j)
                        else
                          (Inr (Reclaimed (latest\<lparr>claim_holder := rsv_holder inp, claim_expires := rsv_expires inp\<rparr>)),
                           reclaim_attempt inp latest j)
                      else
                        (let n = attempt_no latest + 1
                         in (Inr (Reserved (new_attempt inp d n)), append_attempt inp d n j)))))"

section \<open>Finishing\<close>

definition finishes :: "finish_input_row \<Rightarrow> attempt_row \<Rightarrow> bool" where
  "finishes inp a \<longleftrightarrow>
     attempt_no a = fin_attempt inp \<and> dispatch_id a = fin_dispatch inp \<and> claim_holder a = fin_holder inp \<and>
     attempt_status a = Running"

definition finished_attempt :: "finish_input_row \<Rightarrow> attempt_row \<Rightarrow> attempt_row" where
  "finished_attempt inp a =
     (if finishes inp a
      then a\<lparr>attempt_status := fin_status inp, attempt_outcome := fin_outcome inp, attempt_finished := Some (fin_at inp)\<rparr>
      else a)"

definition finish_unit_attempt :: "finish_input_row \<Rightarrow> unit_journal \<Rightarrow> (attempt_error, bool) result \<times> unit_journal" where
  "finish_unit_attempt inp j =
     (if \<not> list_ex (finishes inp) (attempt_rows j) then (Inr False, j)
      else
        (case projection j of
           None \<Rightarrow> (Inl NoLiveProjection, j)
         | Some p \<Rightarrow>
             if unit_status p = Running \<and> unit_attempts p = fin_attempt inp \<and> unit_holder p = fin_holder inp
             then
               (Inr True,
                \<lparr>attempt_rows = List.map (finished_attempt inp) (attempt_rows j),
                 projection = Some (p\<lparr>unit_status := fin_status inp, unit_outcome := fin_outcome inp,
                                      unit_finished := Some (fin_at inp)\<rparr>),
                 unit_events = unit_events j @ [UnitFinished (fin_attempt inp) (fin_dispatch inp) (fin_status inp)]\<rparr>)
             else (Inl NoLiveProjection, j)))"

section \<open>Accounting and staleness\<close>

record attempt_accounting =
  total_attempts :: nat
  total_tokens :: nat
  dispatch_attempts :: nat
  dispatch_tokens :: nat
  gate_attempts :: nat
  gate_tokens :: nat

definition tokens_of :: "attempt_row \<Rightarrow> nat" where
  "tokens_of a = (case out_tokens (attempt_outcome a) of None \<Rightarrow> 0 | Some t \<Rightarrow> t)"

definition in_phase :: "attempt_phase \<Rightarrow> attempt_row \<Rightarrow> bool" where
  "in_phase p a \<longleftrightarrow> work_phase (attempt_work a) = p"

definition get_attempt_accounting :: "attempt_row list \<Rightarrow> attempt_accounting" where
  "get_attempt_accounting rows =
     \<lparr>total_attempts = length rows,
      total_tokens = sum_list (List.map tokens_of rows),
      dispatch_attempts = sum_list (List.map (\<lambda>a. if in_phase UnitPhase a then 1 else 0) rows),
      dispatch_tokens = sum_list (List.map (\<lambda>a. if in_phase UnitPhase a then tokens_of a else 0) rows),
      gate_attempts = sum_list (List.map (\<lambda>a. if in_phase GatePhase a then 1 else 0) rows),
      gate_tokens = sum_list (List.map (\<lambda>a. if in_phase GatePhase a then tokens_of a else 0) rows)\<rparr>"

text \<open>\<open>evaluateStaleUnits\<close> on one row: the idle time of a stale claim.\<close>

definition stale_unit :: "unit_row \<Rightarrow> nat \<Rightarrow> nat \<Rightarrow> nat option" where
  "stale_unit p now stale_ms =
     (if unit_status p \<noteq> Running \<or> work_phase (unit_work p) = GatePhase then None
      else
        (let seen = (case unit_checkin p of Some c \<Rightarrow> c | None \<Rightarrow> unit_started p) in
         if int now - int seen < int stale_ms then None else Some (now - seen)))"

section \<open>The journal invariant\<close>

text \<open>The projection shows the latest attempt.\<close>

definition projects :: "unit_row \<Rightarrow> attempt_row \<Rightarrow> bool" where
  "projects p a \<longleftrightarrow>
     unit_work p = attempt_work a \<and> unit_status p = attempt_status a \<and> unit_outcome p = attempt_outcome a \<and>
     unit_started p = attempt_started a \<and> unit_finished p = attempt_finished a \<and> unit_attempts p = attempt_no a \<and>
     unit_holder p = claim_holder a \<and> unit_expires p = claim_expires a"

definition attempt_events :: "attempt_row \<Rightarrow> unit_event list" where
  "attempt_events a =
     UnitStarted (attempt_no a) (dispatch_id a) #
       (if attempt_status a = Running then [] else [UnitFinished (attempt_no a) (dispatch_id a) (attempt_status a)])"

definition journal_ok :: "unit_journal \<Rightarrow> bool" where
  "journal_ok j \<longleftrightarrow>
     List.map attempt_no (attempt_rows j) = [1..<length (attempt_rows j) + 1] \<and>
     (\<forall>a \<in> set (butlast (attempt_rows j)). attempt_status a \<noteq> Running) \<and>
     (case projection j of
        None \<Rightarrow> attempt_rows j = []
      | Some p \<Rightarrow> attempt_rows j \<noteq> [] \<and> projects p (last (attempt_rows j))) \<and>
     unit_events j = concat (List.map attempt_events (attempt_rows j))"

lemma journal_ok_empty: "journal_ok empty_journal"
  by (simp add: journal_ok_def empty_journal_def)

lemma journal_ok_cases:
  assumes "journal_ok j"
  obtains (empty) "attempt_rows j = []" "projection j = None" "unit_events j = []"
  | (snoc) older a p where "attempt_rows j = older @ [a]" "projection j = Some p" "projects p a"
      "attempt_no a = length older + 1" "List.map attempt_no older = [1..<length older + 1]"
      "\<forall>b \<in> set older. attempt_status b \<noteq> Running"
      "unit_events j = concat (List.map attempt_events older) @ attempt_events a"
proof (cases "attempt_rows j" rule: rev_cases)
  case Nil
  then show thesis using assms empty by (auto simp: journal_ok_def split: option.splits)
next
  case (snoc older a)
  then obtain p where "projection j = Some p" "projects p a"
    using assms by (auto simp: journal_ok_def split: option.splits)
  then show thesis using assms snoc that(2) [of older a p] by (simp add: journal_ok_def)
qed

lemma append_attempt_ok:
  assumes "journal_ok j" "\<forall>a \<in> set (attempt_rows j). attempt_status a \<noteq> Running" "n = length (attempt_rows j) + 1"
  shows "journal_ok (append_attempt inp d n j)"
  using assms
  by (auto simp: journal_ok_def append_attempt_def new_attempt_def projected_row_def projects_def attempt_events_def)

lemma reserve_ok:
  assumes "journal_ok j" shows "journal_ok (snd (reserve_unit_attempt found inp d j))"
  using assms
proof (cases rule: journal_ok_cases)
  case empty
  then have "journal_ok (append_attempt inp d 1 j)" using assms by (intro append_attempt_ok) auto
  then show ?thesis using assms empty
    by (simp add: reserve_unit_attempt_def latest_attempt_def split: option.splits sum.splits)
next
  case (snoc older a p)
  have app: "journal_ok (append_attempt inp d (attempt_no a + 1) j)" if "attempt_status a \<noteq> Running"
    by (rule append_attempt_ok [OF assms]) (use snoc that in auto)
  have rec: "journal_ok (reclaim_attempt inp a j)" if "attempt_status a = Running"
    using snoc that by (simp add: journal_ok_def reclaim_attempt_def projects_def attempt_events_def)
  show ?thesis
    using assms snoc(1) app rec
    by (simp add: reserve_unit_attempt_def latest_attempt_def Let_def split: option.splits sum.splits)
qed

lemma finishes_latest:
  assumes "journal_ok j" "list_ex (finishes inp) (attempt_rows j)"
  obtains older a p where "attempt_rows j = older @ [a]" "projection j = Some p" "projects p a" "finishes inp a"
    "List.map (finished_attempt inp) (attempt_rows j) = older @ [finished_attempt inp a]"
  using assms(1)
proof (cases rule: journal_ok_cases)
  case empty
  then show ?thesis using assms(2) by simp
next
  case (snoc older a p)
  have no: "\<not> finishes inp b" if "b \<in> set older" for b
    using snoc(6) that by (auto simp: finishes_def)
  then have "finishes inp a" using assms(2) snoc(1) by (auto simp: list_ex_iff)
  moreover have "List.map (finished_attempt inp) older = older"
    using no by (auto simp: finished_attempt_def intro!: map_idI)
  ultimately show ?thesis using that [OF snoc(1-3)] snoc(1) by simp
qed

lemma finish_ok:
  assumes ok: "journal_ok j" and s: "fin_status inp \<noteq> Running"
  shows "journal_ok (snd (finish_unit_attempt inp j)) \<and> (\<exists>b. fst (finish_unit_attempt inp j) = Inr b)"
proof (cases "list_ex (finishes inp) (attempt_rows j)")
  case False
  then show ?thesis using ok by (auto simp: finish_unit_attempt_def)
next
  case True
  obtain older a p where j: "attempt_rows j = older @ [a]" "projection j = Some p" "projects p a" "finishes inp a"
      "List.map (finished_attempt inp) (attempt_rows j) = older @ [finished_attempt inp a]"
    using finishes_latest [OF ok True] .
  have live: "unit_status p = Running \<and> unit_attempts p = fin_attempt inp \<and> unit_holder p = fin_holder inp"
    using j(3,4) by (simp add: projects_def finishes_def)
  have f: "finish_unit_attempt inp j =
      (Inr True, \<lparr>attempt_rows = older @ [finished_attempt inp a],
         projection = Some (p\<lparr>unit_status := fin_status inp, unit_outcome := fin_outcome inp, unit_finished := Some (fin_at inp)\<rparr>),
         unit_events = unit_events j @ [UnitFinished (fin_attempt inp) (fin_dispatch inp) (fin_status inp)]\<rparr>)"
    using True live j(2,5) by (simp add: finish_unit_attempt_def)
  have "List.map attempt_no (older @ [finished_attempt inp a]) = [1..<length (older @ [finished_attempt inp a]) + 1]"
    using ok j(1) by (simp add: journal_ok_def finished_attempt_def)
  moreover have "\<forall>b \<in> set older. attempt_status b \<noteq> Running" "unit_events j = concat (List.map attempt_events older) @ attempt_events a"
    using ok j(1) by (simp_all add: journal_ok_def)
  ultimately have "journal_ok (snd (finish_unit_attempt inp j))"
    using j(3,4) s unfolding f journal_ok_def
    by (simp add: finished_attempt_def projects_def attempt_events_def finishes_def)
  then show ?thesis using f by auto
qed

section \<open>Histories\<close>

datatype journal_action =
    Reserve "workflow_run option" reserve_input string
  | Finish finish_input_row

fun journal_act :: "journal_action \<Rightarrow> unit_journal \<Rightarrow> unit_journal" where
  "journal_act (Reserve found inp d) j = snd (reserve_unit_attempt found inp d j)"
| "journal_act (Finish inp) j = snd (finish_unit_attempt inp j)"

fun journal_allowed :: "journal_action \<Rightarrow> bool" where
  "journal_allowed (Finish inp) = (fin_status inp \<noteq> Running)"
| "journal_allowed _ = True"

lemma journal_act_ok: "journal_ok j \<Longrightarrow> journal_allowed a \<Longrightarrow> journal_ok (journal_act a j)"
  by (cases a) (simp_all add: reserve_ok finish_ok)

text \<open>The journal only grows: finished rows and logged events stay.\<close>

definition extends :: "unit_journal \<Rightarrow> unit_journal \<Rightarrow> bool" where
  "extends j j' \<longleftrightarrow>
     (\<forall>a \<in> set (attempt_rows j). attempt_status a \<noteq> Running \<longrightarrow> a \<in> set (attempt_rows j')) \<and>
     (\<exists>more. unit_events j' = unit_events j @ more) \<and> length (attempt_rows j) \<le> length (attempt_rows j')"

lemma extends_refl: "extends j j"
  by (simp add: extends_def)

lemma extends_trans: "extends i j \<Longrightarrow> extends j k \<Longrightarrow> extends i k"
  unfolding extends_def by (metis append_assoc le_trans)

lemma append_extends: "extends j (append_attempt inp d n j)"
  by (simp add: extends_def append_attempt_def)

lemma reserve_extends:
  assumes "journal_ok j" shows "extends j (snd (reserve_unit_attempt found inp d j))"
  using assms
proof (cases rule: journal_ok_cases)
  case empty
  then show ?thesis
    by (simp add: reserve_unit_attempt_def latest_attempt_def append_extends extends_refl split: option.splits sum.splits)
next
  case (snoc older a p)
  have "extends j (reclaim_attempt inp a j)" if "attempt_status a = Running"
    using snoc that by (auto simp: extends_def reclaim_attempt_def)
  then show ?thesis using snoc(1)
    by (simp add: reserve_unit_attempt_def latest_attempt_def Let_def append_extends extends_refl split: option.splits sum.splits)
qed

lemma finish_extends: "extends j (snd (finish_unit_attempt inp j))"
proof -
  have "a \<in> set (List.map (finished_attempt inp) rows)" if "a \<in> set rows" "attempt_status a \<noteq> Running" for a rows
  proof -
    have "finished_attempt inp a = a" using that(2) by (simp add: finished_attempt_def finishes_def)
    then show ?thesis using that(1) by (metis image_eqI set_map)
  qed
  then show ?thesis
    by (auto simp: finish_unit_attempt_def extends_def split: option.splits)
qed

lemma journal_act_extends: "journal_ok j \<Longrightarrow> extends j (journal_act a j)"
  by (cases a) (simp_all add: reserve_extends finish_extends)

interpretation journal: step_monotone journal_act journal_allowed journal_ok extends
  by unfold_locales (auto simp: extends_refl journal_act_ok journal_act_extends intro: extends_trans)


section \<open>Properties\<close>

lemma journal_one_running:
  assumes "journal_ok j" shows "length (List.filter (\<lambda>a. attempt_status a = Running) (attempt_rows j)) \<le> 1"
  using assms
proof (cases rule: journal_ok_cases)
  case (snoc older a p)
  then have "List.filter (\<lambda>a. attempt_status a = Running) older = []" by (auto simp: filter_empty_conv)
  then show ?thesis using snoc(1) by simp
qed simp

text \<open>C10: The dispatch journal of a unit.  After any sequence of reservations and finishes, under whatever run
  rows and claims, the attempts are numbered from one without gaps, at most one is running, the projection row
  shows exactly the latest attempt, the events are the started and finished events of the attempts in order, and
  finishing never meets a missing projection.\<close>

theorem journal_history_consistent:
  assumes "list_all journal_allowed acts"
  shows "let j = fold journal_act acts empty_journal in
    List.map attempt_no (attempt_rows j) = [1..<length (attempt_rows j) + 1] \<and>
    length (List.filter (\<lambda>a. attempt_status a = Running) (attempt_rows j)) \<le> 1 \<and>
    (case projection j of
       None \<Rightarrow> attempt_rows j = []
     | Some p \<Rightarrow> attempt_rows j \<noteq> [] \<and> projects p (last (attempt_rows j))) \<and>
    unit_events j = concat (List.map attempt_events (attempt_rows j)) \<and>
    (\<forall>inp. fin_status inp \<noteq> Running \<longrightarrow> fst (finish_unit_attempt inp j) \<noteq> Inl NoLiveProjection)"
proof -
  let ?j = "fold journal_act acts empty_journal"
  have ok: "journal_ok ?j" using journal.acts_ok [OF journal_ok_empty assms] .
  have "fst (finish_unit_attempt inp ?j) \<noteq> Inl NoLiveProjection" if "fin_status inp \<noteq> Running" for inp
    using finish_ok [OF ok that] by auto
  then show ?thesis using ok journal_one_running [OF ok] unfolding journal_ok_def Let_def by blast
qed

definition sample_work :: attempt_work where
  "sample_work = \<lparr>work_step = ''build'', work_node = ''n'', work_parent = None, work_phase = UnitPhase, work_runner = None,
     work_engine = None, work_model = None, work_hash = ''h'', work_tree = None\<rparr>"

definition sample_reserve :: "string \<Rightarrow> nat \<Rightarrow> journal_action" where
  "sample_reserve h now =
     Reserve (Some (sample_run\<lparr>lease_holder := Some h, lease_until := Some 1000\<rparr>))
       \<lparr>rsv_work = sample_work, rsv_holder = h, rsv_expires = now + 50, rsv_now = now, rsv_mode = EngineMode\<rparr> ''d1''"

theorem journal_history_consistent_witness:
  "let acts = [sample_reserve ''a'' 10, sample_reserve ''b'' 20,
         Finish \<lparr>fin_attempt = 1, fin_dispatch = ''d1'', fin_holder = ''b'', fin_status = AttemptFailed,
                 fin_outcome = no_outcome, fin_at = 30\<rparr>, sample_reserve ''b'' 40];
       j = fold journal_act acts empty_journal in
    List.map attempt_no (attempt_rows j) = [1..<length (attempt_rows j) + 1] \<and>
    length (List.filter (\<lambda>a. attempt_status a = Running) (attempt_rows j)) \<le> 1 \<and>
    (case projection j of
       None \<Rightarrow> attempt_rows j = []
     | Some p \<Rightarrow> attempt_rows j \<noteq> [] \<and> projects p (last (attempt_rows j))) \<and>
    unit_events j = concat (List.map attempt_events (attempt_rows j)) \<and>
    (\<forall>inp. fin_status inp \<noteq> Running \<longrightarrow> fst (finish_unit_attempt inp j) \<noteq> Inl NoLiveProjection)"
  unfolding Let_def
  by (rule journal_history_consistent [unfolded Let_def]) (simp add: sample_reserve_def)

text \<open>C11: A displaced executor cannot finish the work.  Once an attempt has been reclaimed by another holder, every
  finish under a different claim is refused and leaves the journal as it is, even with the right attempt
  number and dispatch id; the new holder's finish is accepted.\<close>

theorem displaced_claim_cannot_finish:
  assumes "journal_ok j" and "reserve_unit_attempt found inp d j = (Inr (Reclaimed a), j')"
  shows "(\<forall>fin. fin_holder fin \<noteq> rsv_holder inp \<longrightarrow> finish_unit_attempt fin j' = (Inr False, j')) \<and>
    (\<forall>fin. fin_attempt fin = attempt_no a \<and> fin_dispatch fin = dispatch_id a \<and> fin_holder fin = rsv_holder inp \<longrightarrow>
       fst (finish_unit_attempt fin j') = Inr True)"
  using assms(1)
proof (cases rule: journal_ok_cases)
  case empty
  then show ?thesis using assms(2)
    by (auto simp: reserve_unit_attempt_def latest_attempt_def split: option.splits sum.splits if_splits)
next
  case (snoc older l p)
  have l: "attempt_status l = Running" "a = l\<lparr>claim_holder := rsv_holder inp, claim_expires := rsv_expires inp\<rparr>"
    "j' = reclaim_attempt inp l j"
    using assms(2) snoc(1)
    by (auto simp: reserve_unit_attempt_def latest_attempt_def Let_def split: option.splits sum.splits if_splits)
  have rows: "attempt_rows j' = older @ [a]" using l snoc(1) by (simp add: reclaim_attempt_def)
  have proj: "\<exists>p'. projection j' = Some p' \<and> unit_status p' = Running \<and> unit_attempts p' = attempt_no a \<and>
      unit_holder p' = rsv_holder inp"
    using l snoc(2,3) by (auto simp: reclaim_attempt_def projects_def)
  have "\<not> list_ex (finishes fin) (attempt_rows j')" if "fin_holder fin \<noteq> rsv_holder inp" for fin
    using that snoc(6) l(2) unfolding rows by (auto simp: finishes_def list_ex_iff)
  moreover have "list_ex (finishes fin) (attempt_rows j')"
    if "fin_attempt fin = attempt_no a \<and> fin_dispatch fin = dispatch_id a \<and> fin_holder fin = rsv_holder inp" for fin
    using that l(1,2) unfolding rows by (auto simp: finishes_def)
  ultimately show ?thesis using proj by (auto simp: finish_unit_attempt_def)
qed

theorem displaced_claim_cannot_finish_witness:
  "let j = fold journal_act [sample_reserve ''a'' 10] empty_journal;
       j' = fold journal_act [sample_reserve ''a'' 10, sample_reserve ''b'' 20] empty_journal
   in journal_ok j \<and> (\<forall>fin. fin_holder fin \<noteq> ''b'' \<longrightarrow> finish_unit_attempt fin j' = (Inr False, j'))"
proof -
  let ?j = "fold journal_act [sample_reserve ''a'' 10] empty_journal"
  let ?inp = "\<lparr>rsv_work = sample_work, rsv_holder = ''b'', rsv_expires = 70, rsv_now = 20, rsv_mode = EngineMode\<rparr>"
  let ?run = "sample_run\<lparr>lease_holder := Some ''b'', lease_until := Some 1000\<rparr>"
  have ok: "journal_ok ?j" by (rule journal.acts_ok [OF journal_ok_empty]) (simp add: sample_reserve_def)
  have "\<exists>a. fst (reserve_unit_attempt (Some ?run) ?inp ''d1'' ?j) = Inr (Reclaimed a)"
  proof -
    have "(case fst (reserve_unit_attempt (Some ?run) ?inp ''d1'' ?j) of Inr (Reclaimed _) \<Rightarrow> True | _ \<Rightarrow> False)" by code_simp
    then show ?thesis by (auto split: sum.splits reserve_result.splits)
  qed
  then obtain a where "reserve_unit_attempt (Some ?run) ?inp ''d1'' ?j =
      (Inr (Reclaimed a), snd (reserve_unit_attempt (Some ?run) ?inp ''d1'' ?j))" by (metis prod.collapse)
  from displaced_claim_cannot_finish [OF ok this] show ?thesis
    using ok by (simp add: Let_def sample_reserve_def)
qed

text \<open>The totals split by phase.\<close>

lemma accounting_splits:
  "total_attempts (get_attempt_accounting rows) = dispatch_attempts (get_attempt_accounting rows) + gate_attempts (get_attempt_accounting rows)"
  "total_tokens (get_attempt_accounting rows) = dispatch_tokens (get_attempt_accounting rows) + gate_tokens (get_attempt_accounting rows)"
proof -
  have "in_phase UnitPhase a \<longleftrightarrow> \<not> in_phase GatePhase a" for a
    by (cases "work_phase (attempt_work a)") (simp_all add: in_phase_def)
  then show "total_attempts (get_attempt_accounting rows) = dispatch_attempts (get_attempt_accounting rows) + gate_attempts (get_attempt_accounting rows)"
    "total_tokens (get_attempt_accounting rows) = dispatch_tokens (get_attempt_accounting rows) + gate_tokens (get_attempt_accounting rows)"
    by (induction rows) (auto simp: get_attempt_accounting_def)
qed

end
