(* ===== verification/Fs_Txn.thy ===== *)
theory Fs_Txn
  imports Crash_Monad Posix_Path
begin

text \<open>
  The durable filesystem-transaction engine, \<^verbatim>\<open>src/core/fs-txn.ts\<close>: the journal shapes, the phase writes, opening
  and cleaning up a transaction, the safety fence, the recovery scan of one root's namespace and the two
  listings.  The file system is a store of directory entries, inodes and transaction directories; a durable
  write (temporary file, fsync, rename) is one step of \<open>Crash_Monad\<close>.  The handlers of the transaction kinds
  are values of \<open>kind_handler\<close>; the kinds the program registers are in \<open>Proposal_Txn\<close>.
  Hashing and the resolution of symbolic links come with the environment.
\<close>

section \<open>Journals\<close>

datatype file_change_op = Op_Create | Op_Update | Op_Delete

record journaled_file_change =
  change_path :: string
  change_op :: file_change_op
  before_hash :: "string option"
  after_hash :: "string option"

record 'p txn_journal =
  journal_version :: int
  journal_kind :: string
  journal_phase :: string
  transaction_id :: string
  journal_root :: string
  journal_changes :: "journaled_file_change list"
  decided_at :: string
  payload :: 'p

text \<open>What a \<open>journal.json\<close> holds: text that is no journal, or the parsed journal.\<close>

datatype 'p journal_file = Unparsable string | Parsed "'p txn_journal"

record 'p txn_dir =
  is_directory :: bool
  mtime_ms :: int
  journal_file :: "'p journal_file option"
  journal_mtime_ms :: int

text \<open>
  An open transaction: its journal in memory and the directory that holds it, as the name of the namespace
  directory and the name of the entry in it.
\<close>

record 'p txn =
  txn_journal_of :: "'p txn_journal"
  txn_ns :: string
  txn_name :: string

section \<open>The store\<close>

record ('p, 'd) world = machine +
  dir_entries :: "string \<Rightarrow> nat option"
  inodes :: "nat \<Rightarrow> string"
  next_inode :: nat
  namespaces :: "(string \<times> (string \<times> 'p txn_dir) list) list"
  now_ms :: int
  database :: 'd

record txn_env =
  sha256 :: "string \<Rightarrow> string"
  real_path :: "string \<Rightarrow> string option"
  work_dir :: "string list"
  data_dir :: string

definition joined :: "string \<Rightarrow> string \<Rightarrow> string" where
  "joined dir name = dir @ ''/'' @ name"

definition txn_dir_path :: "'p txn \<Rightarrow> string" where
  "txn_dir_path t = joined (txn_ns t) (txn_name t)"

definition ns_entries :: "string \<Rightarrow> ('p, 'd) world \<Rightarrow> (string \<times> 'p txn_dir) list" where
  "ns_entries ns w = (case map_of (namespaces w) ns of None \<Rightarrow> [] | Some ds \<Rightarrow> ds)"

definition set_ns_entries :: "string \<Rightarrow> (string \<times> 'p txn_dir) list \<Rightarrow> ('p, 'd) world \<Rightarrow> ('p, 'd) world" where
  "set_ns_entries ns ds w =
     w\<lparr>namespaces := (if ns \<in> fst ` set (namespaces w)
                      then map (\<lambda>(n, old). (n, if n = ns then ds else old)) (namespaces w)
                      else namespaces w @ [(ns, ds)])\<rparr>"

definition find_txn_dir :: "string \<Rightarrow> string \<Rightarrow> ('p, 'd) world \<Rightarrow> 'p txn_dir option" where
  "find_txn_dir ns name w = map_of (ns_entries ns w) name"

definition found_journal :: "string \<Rightarrow> string \<Rightarrow> ('p, 'd) world \<Rightarrow> 'p journal_file option" where
  "found_journal ns name w = Option.bind (find_txn_dir ns name w) journal_file"

text \<open>\<open>mkdirSync(..., {recursive: true})\<close> of a transaction directory, and the write of its journal.\<close>

definition make_txn_dir :: "string \<Rightarrow> string \<Rightarrow> ('p, 'd) world \<Rightarrow> ('p, 'd) world" where
  "make_txn_dir ns name w =
     (if find_txn_dir ns name w \<noteq> None then w
      else set_ns_entries ns (ns_entries ns w @
             [(name, \<lparr>is_directory = True, mtime_ms = now_ms w, journal_file = None, journal_mtime_ms = 0\<rparr>)]) w)"

definition put_journal :: "string \<Rightarrow> string \<Rightarrow> 'p txn_journal \<Rightarrow> ('p, 'd) world \<Rightarrow> ('p, 'd) world" where
  "put_journal ns name j w =
     set_ns_entries ns (map (\<lambda>(n, d). (n, if n = name
       then d\<lparr>mtime_ms := now_ms w, journal_file := Some (Parsed j), journal_mtime_ms := now_ms w\<rparr> else d)) (ns_entries ns w)) w"

definition drop_txn_dir :: "string \<Rightarrow> string \<Rightarrow> ('p, 'd) world \<Rightarrow> ('p, 'd) world" where
  "drop_txn_dir ns name w = set_ns_entries ns (filter (\<lambda>(n, d). n \<noteq> name) (ns_entries ns w)) w"

text \<open>The files below a directory, other than its journal.\<close>

definition drop_files_under :: "string \<Rightarrow> ('p, 'd) world \<Rightarrow> ('p, 'd) world" where
  "drop_files_under dir w =
     w\<lparr>dir_entries := (\<lambda>p. if js_starts_with (dir @ ''/'') p then None else dir_entries w p)\<rparr>"

definition drop_empty_ns :: "string \<Rightarrow> ('p, 'd) world \<Rightarrow> ('p, 'd) world" where
  "drop_empty_ns ns w =
     (if ns_entries ns w = [] then w\<lparr>namespaces := filter (\<lambda>(n, ds). n \<noteq> ns) (namespaces w)\<rparr> else w)"

section \<open>Kinds\<close>

type_synonym ('a, 'p, 'd) io = "('a, ('p, 'd) world) prog"

record ('p, 'd) kind_handler =
  phases :: "string list"
  commit_phase :: string
  validate :: "('p txn_journal \<Rightarrow> string \<Rightarrow> string \<Rightarrow> string option) option"
  rollback :: "'p txn \<Rightarrow> (unit, 'p, 'd) io"
  finalize :: "'p txn \<Rightarrow> ('p txn_journal, 'p, 'd) io"

type_synonym ('p, 'd) kinds = "string \<Rightarrow> ('p, 'd) kind_handler option"

definition no_handler :: "string \<Rightarrow> string" where
  "no_handler kind = ''No transaction handler registered for kind '' @ kind"

definition require_kind :: "(string \<Rightarrow> 'h option) \<Rightarrow> string \<Rightarrow> ('h, 'w) prog" where
  "require_kind kinds kind = (case kinds kind of None \<Rightarrow> raise (no_handler kind) | Some h \<Rightarrow> ret h)"

definition write_journal :: "'p txn \<Rightarrow> (unit, 'p, 'd) io" where
  "write_journal t = step_durably (put_journal (txn_ns t) (txn_name t) (txn_journal_of t))"

text \<open>
  \<open>advanceTxn\<close>.  It asks the registry only for the phases of the kind, so the registry appears as the table of
  phase vocabularies; it answers with the transaction whose journal in memory shows the new phase.
\<close>

definition advance_txn :: "(string \<Rightarrow> string list option) \<Rightarrow> 'p txn \<Rightarrow> string \<Rightarrow> ('p txn, 'p, 'd) io" where
  "advance_txn phases_of t ph =
     andthen (require_kind phases_of (journal_kind (txn_journal_of t))) (\<lambda>known.
       if ph \<notin> set known then raise (''Unknown phase '' @ ph)
       else (let t' = t\<lparr>txn_journal_of := (txn_journal_of t)\<lparr>journal_phase := ph\<rparr>\<rparr>
             in andthen (write_journal t') (\<lambda>_. ret t')))"

section \<open>Opening and cleaning up\<close>

definition canonical_txn_root :: "'e txn_env_scheme \<Rightarrow> string \<Rightarrow> string" where
  "canonical_txn_root env root =
     (let resolved = CHR ''/'' # join_with ''/'' (resolve_segs (work_dir env) root)
      in case real_path env resolved of Some p \<Rightarrow> p | None \<Rightarrow> resolved)"

definition txn_namespace_dir :: "'e txn_env_scheme \<Rightarrow> string \<Rightarrow> string" where
  "txn_namespace_dir env root =
     joined (joined (data_dir env) ''txn'') (take 24 (sha256 env (canonical_txn_root env root)))"

definition plain_txn_id :: "string \<Rightarrow> bool" where
  "plain_txn_id s \<longleftrightarrow>
     s \<noteq> '''' \<and> list_all (\<lambda>c. js_letter c \<or> js_digit c \<or> c \<in> set ''._-'') s \<and> s \<noteq> ''.'' \<and> s \<noteq> ''..''"

definition opened_journal ::
  "'e txn_env_scheme \<Rightarrow> string list \<Rightarrow> string \<Rightarrow> string \<Rightarrow> journaled_file_change list \<Rightarrow> 'p \<Rightarrow> string \<Rightarrow> string \<Rightarrow>
   'p txn_journal" where
  "opened_journal env known kind root changes pl decided tid =
     \<lparr>journal_version = 1, journal_kind = kind, journal_phase = hd known, transaction_id = tid,
      journal_root = canonical_txn_root env root, journal_changes = changes, decided_at = decided, payload = pl\<rparr>"

definition begin_txn ::
  "'e txn_env_scheme \<Rightarrow> (string \<Rightarrow> string list option) \<Rightarrow> string \<Rightarrow> string \<Rightarrow> journaled_file_change list \<Rightarrow> 'p \<Rightarrow>
   string \<Rightarrow> string \<Rightarrow> ('p txn, 'p, 'd) io" where
  "begin_txn env phases_of kind root changes pl decided tid =
     andthen (require_kind phases_of kind) (\<lambda>known.
       if \<not> plain_txn_id tid then raise (''Invalid transaction id '' @ tid)
       else (let ns = txn_namespace_dir env root;
                 t = \<lparr>txn_journal_of = opened_journal env known kind root changes pl decided tid, txn_ns = ns, txn_name = tid\<rparr>
             in andthen (step_durably (make_txn_dir ns tid)) (\<lambda>_.
                andthen (write_journal t) (\<lambda>_. ret t))))"

text \<open>
  \<open>cleanupTxn\<close>: the recursive removal takes the files below the directory and then the directory with its
  journal; the namespace directory goes when it is empty.
\<close>

definition cleanup_txn :: "string \<Rightarrow> string \<Rightarrow> (unit, 'p, 'd) io" where
  "cleanup_txn ns name =
     andthen (step_durably (drop_files_under (joined ns name))) (\<lambda>_.
     andthen (step_durably (drop_txn_dir ns name)) (\<lambda>_.
       step_durably (drop_empty_ns ns)))"

definition txn_sweep_grace_ms :: int where
  "txn_sweep_grace_ms = 300000"

definition sweep_journalless_txn_dir :: "string \<Rightarrow> string \<Rightarrow> (bool, 'p, 'd) io" where
  "sweep_journalless_txn_dir ns name =
     andthen (reading (\<lambda>w. (now_ms w, find_txn_dir ns name w))) (\<lambda>(now, found).
       case found of
         None \<Rightarrow> ret False
       | Some d \<Rightarrow>
           if now - mtime_ms d < txn_sweep_grace_ms then ret False
           else andthen (step_durably (drop_files_under (joined ns name))) (\<lambda>_.
                andthen (step_durably (drop_txn_dir ns name)) (\<lambda>_. ret True)))"

section \<open>Fences\<close>

definition is_within_txn_root :: "'e txn_env_scheme \<Rightarrow> string \<Rightarrow> string \<Rightarrow> bool" where
  "is_within_txn_root env candidate root =
     (let rel = join_with ''/'' (relative_segs (resolve_segs (work_dir env) root) (resolve_segs (work_dir env) candidate))
      in rel \<noteq> '''' \<and> \<not> js_starts_with ''..'' rel \<and> \<not> is_absolute rel)"

definition read_journal :: "'p journal_file \<Rightarrow> ('p txn_journal, 'w) prog" where
  "read_journal f = (case f of
     Unparsable e \<Rightarrow> raise (''Cannot read transaction journal: '' @ e)
   | Parsed j \<Rightarrow> if journal_version j \<noteq> 1 then raise ''Refusing unsafe transaction journal'' else ret j)"

text \<open>\<open>fenceJournal\<close>; \<open>None\<close> lets the journal pass.\<close>

definition fence_journal ::
  "'e txn_env_scheme \<Rightarrow> ('p, 'd) kinds \<Rightarrow> 'p txn_journal \<Rightarrow> string \<Rightarrow> string \<Rightarrow> string option" where
  "fence_journal env kinds j dir root =
     (if canonical_txn_root env (journal_root j) \<noteq> canonical_txn_root env root
      then Some ''Refusing transaction journal bound to a different root''
      else case kinds (journal_kind j) of
        None \<Rightarrow> Some (no_handler (journal_kind j))
      | Some h \<Rightarrow>
          if journal_phase j \<notin> set (phases h) then Some (''Refusing transaction journal with unknown phase '' @ journal_phase j)
          else if list_ex (\<lambda>c. \<not> is_within_txn_root env (change_path c) root) (journal_changes j)
          then Some ''Refusing transaction journal touching paths outside its root''
          else case validate h of None \<Rightarrow> None | Some check \<Rightarrow> check j dir root)"

definition js_index_of :: "'a \<Rightarrow> 'a list \<Rightarrow> int" where
  "js_index_of a xs = (case list_index a xs of None \<Rightarrow> -1 | Some i \<Rightarrow> int i)"

definition is_committed_phase :: "('p, 'd) kind_handler \<Rightarrow> 'p txn_journal \<Rightarrow> bool" where
  "is_committed_phase h j \<longleftrightarrow> js_index_of (commit_phase h) (phases h) \<le> js_index_of (journal_phase j) (phases h)"

section \<open>Recovery\<close>

text \<open>Undo or complete one fenced journal, then remove its directory.\<close>

definition settle_txn :: "('p, 'd) kind_handler \<Rightarrow> 'p txn \<Rightarrow> ('p txn_journal, 'p, 'd) io" where
  "settle_txn h t =
     andthen
       (if \<not> is_committed_phase h (txn_journal_of t) then andthen (rollback h t) (\<lambda>_. ret (txn_journal_of t))
        else if journal_phase (txn_journal_of t) \<noteq> last (phases h) then finalize h t
        else ret (txn_journal_of t))
       (\<lambda>j. andthen (cleanup_txn (txn_ns t) (txn_name t)) (\<lambda>_. ret j))"

definition recover_entry ::
  "'e txn_env_scheme \<Rightarrow> ('p, 'd) kinds \<Rightarrow> ('p txn_journal \<Rightarrow> bool) \<Rightarrow> string \<Rightarrow> string \<Rightarrow>
   ('p txn_journal option, 'p, 'd) io" where
  "recover_entry env kinds wanted root name =
     (let ns = txn_namespace_dir env root in
      andthen (reading (found_journal ns name)) (\<lambda>found.
        case found of
          None \<Rightarrow> andthen (sweep_journalless_txn_dir ns name) (\<lambda>_. ret None)
        | Some f \<Rightarrow> andthen (read_journal f) (\<lambda>j.
            case kinds (journal_kind j) of
              None \<Rightarrow> andthen (sweep_journalless_txn_dir ns name) (\<lambda>_. ret None)
            | Some h \<Rightarrow>
                if \<not> wanted j then ret None
                else case fence_journal env kinds j (joined ns name) root of
                  Some e \<Rightarrow> raise e
                | None \<Rightarrow> andthen (settle_txn h \<lparr>txn_journal_of = j, txn_ns = ns, txn_name = name\<rparr>)
                                (\<lambda>j'. ret (Some j')))))"

fun recover_entries ::
  "'e txn_env_scheme \<Rightarrow> ('p, 'd) kinds \<Rightarrow> ('p txn_journal \<Rightarrow> bool) \<Rightarrow> string \<Rightarrow> (string \<times> bool) list \<Rightarrow>
   'p txn_journal list \<Rightarrow> ('p txn_journal list, 'p, 'd) io" where
  "recover_entries env kinds wanted root [] recovered = ret recovered"
| "recover_entries env kinds wanted root ((name, dir) # rest) recovered =
     (if \<not> dir then recover_entries env kinds wanted root rest recovered
      else andthen (recover_entry env kinds wanted root name) (\<lambda>r.
        recover_entries env kinds wanted root rest (case r of None \<Rightarrow> recovered | Some j \<Rightarrow> recovered @ [j])))"

definition recover_txns_for_root ::
  "'e txn_env_scheme \<Rightarrow> ('p, 'd) kinds \<Rightarrow> ('p txn_journal \<Rightarrow> bool) \<Rightarrow> string \<Rightarrow> ('p txn_journal list, 'p, 'd) io" where
  "recover_txns_for_root env kinds wanted root =
     andthen (reading (\<lambda>w. map (\<lambda>(n, d). (n, is_directory d)) (ns_entries (txn_namespace_dir env root) w))) (\<lambda>listed.
       recover_entries env kinds wanted root listed [])"

section \<open>Listings\<close>

text \<open>Every journal of every namespace, in directory order: the strict listing stops at a damaged one.\<close>

definition all_journals :: "('p, 'd) world \<Rightarrow> ('p journal_file \<times> int) list" where
  "all_journals w = concat (map (\<lambda>(ns, ds). concat (map (\<lambda>(n, d).
     if is_directory d then (case journal_file d of None \<Rightarrow> [] | Some f \<Rightarrow> [(f, journal_mtime_ms d)]) else []) ds))
     (namespaces w))"

definition checked_journal :: "'p journal_file \<Rightarrow> 'p txn_journal option" where
  "checked_journal f = (case f of Unparsable e \<Rightarrow> None | Parsed j \<Rightarrow> if journal_version j \<noteq> 1 then None else Some j)"

fun list_journals :: "('p txn_journal \<Rightarrow> bool) \<Rightarrow> 'p journal_file list \<Rightarrow> ('p txn_journal list, 'w) prog" where
  "list_journals wanted [] = ret []"
| "list_journals wanted (f # fs) =
     andthen (read_journal f) (\<lambda>j. andthen (list_journals wanted fs) (\<lambda>js. ret (if wanted j then j # js else js)))"

definition list_txn_journals :: "('p txn_journal \<Rightarrow> bool) \<Rightarrow> ('p txn_journal list, 'p, 'd) io" where
  "list_txn_journals wanted = andthen (reading all_journals) (\<lambda>fs. list_journals wanted (map fst fs))"

record 'p txn_scan_result =
  scan_matches :: "('p txn_journal \<times> int) list"
  unreadable_mtimes :: "int list"

definition list_txn_journals_tolerant :: "('p txn_journal \<Rightarrow> bool) \<Rightarrow> ('p, 'd) world \<Rightarrow> 'p txn_scan_result" where
  "list_txn_journals_tolerant wanted w =
     \<lparr>scan_matches = concat (map (\<lambda>(f, m). case checked_journal f of
        Some j \<Rightarrow> if wanted j then [(j, m)] else [] | None \<Rightarrow> []) (all_journals w)),
      unreadable_mtimes = concat (map (\<lambda>(f, m). case checked_journal f of None \<Rightarrow> [m] | Some j \<Rightarrow> []) (all_journals w))\<rparr>"

section \<open>The store under its operations\<close>

named_theorems txn_store \<open>what the transaction directories look like after an update of the store\<close>

lemma map_of_map_keep:
  "map_of (map (\<lambda>(n, old). (n, if n = ns then ds else old)) xs) k =
     (if k = ns then (if ns \<in> fst ` set xs then Some ds else None) else map_of xs k)"
  by (induction xs) (force simp: image_iff)+

lemma ns_entries_set [txn_store]:
  "ns_entries k (set_ns_entries ns ds w) = (if k = ns then ds else ns_entries k w)"
  unfolding ns_entries_def set_ns_entries_def
  by (auto simp: map_of_map_keep map_add_def map_of_eq_None_iff [symmetric] split: option.splits)

lemma ns_entries_updates [txn_store]:
  "ns_entries ns (w\<lparr>steps_left := n\<rparr>) = ns_entries ns w"
  "ns_entries ns (w\<lparr>dir_entries := f\<rparr>) = ns_entries ns w"
  "ns_entries ns (w\<lparr>inodes := g\<rparr>) = ns_entries ns w"
  "ns_entries ns (w\<lparr>next_inode := n\<rparr>) = ns_entries ns w"
  "ns_entries ns (w\<lparr>database := d\<rparr>) = ns_entries ns w"
  by (simp_all add: ns_entries_def)

lemma set_ns_entries_fields [txn_store]:
  "dir_entries (set_ns_entries ns ds w) = dir_entries w"
  "inodes (set_ns_entries ns ds w) = inodes w"
  "next_inode (set_ns_entries ns ds w) = next_inode w"
  "now_ms (set_ns_entries ns ds w) = now_ms w"
  "database (set_ns_entries ns ds w) = database w"
  "steps_left (set_ns_entries ns ds w) = steps_left w"
  by (simp_all add: set_ns_entries_def)

lemma put_journal_fields [txn_store]:
  "dir_entries (put_journal ns name j w) = dir_entries w"
  "inodes (put_journal ns name j w) = inodes w"
  "next_inode (put_journal ns name j w) = next_inode w"
  "now_ms (put_journal ns name j w) = now_ms w"
  "database (put_journal ns name j w) = database w"
  "steps_left (put_journal ns name j w) = steps_left w"
  by (simp_all add: put_journal_def txn_store)

lemma drop_txn_dir_fields [txn_store]:
  "dir_entries (drop_txn_dir ns name w) = dir_entries w"
  "inodes (drop_txn_dir ns name w) = inodes w"
  "now_ms (drop_txn_dir ns name w) = now_ms w"
  "database (drop_txn_dir ns name w) = database w"
  "steps_left (drop_txn_dir ns name w) = steps_left w"
  by (simp_all add: drop_txn_dir_def txn_store)

lemma make_txn_dir_fields [txn_store]:
  "dir_entries (make_txn_dir ns name w) = dir_entries w"
  "inodes (make_txn_dir ns name w) = inodes w"
  "next_inode (make_txn_dir ns name w) = next_inode w"
  "now_ms (make_txn_dir ns name w) = now_ms w"
  "database (make_txn_dir ns name w) = database w"
  "steps_left (make_txn_dir ns name w) = steps_left w"
  by (simp_all add: make_txn_dir_def txn_store)

lemma drop_files_under_fields [txn_store]:
  "dir_entries (drop_files_under dir w) p = (if js_starts_with (dir @ ''/'') p then None else dir_entries w p)"
  "inodes (drop_files_under dir w) = inodes w"
  "now_ms (drop_files_under dir w) = now_ms w"
  "database (drop_files_under dir w) = database w"
  "steps_left (drop_files_under dir w) = steps_left w"
  "ns_entries ns (drop_files_under dir w) = ns_entries ns w"
  by (simp_all add: drop_files_under_def txn_store)

lemma drop_empty_ns_fields [txn_store]:
  "dir_entries (drop_empty_ns ns w) = dir_entries w"
  "inodes (drop_empty_ns ns w) = inodes w"
  "now_ms (drop_empty_ns ns w) = now_ms w"
  "database (drop_empty_ns ns w) = database w"
  "steps_left (drop_empty_ns ns w) = steps_left w"
  by (simp_all add: drop_empty_ns_def)

lemma map_of_filter_other: "map_of (filter (\<lambda>(n, ds). n \<noteq> ns) xs) k = (if k = ns then None else map_of xs k)"
  by (induction xs) auto

lemma ns_entries_drop_empty [txn_store]: "ns_entries k (drop_empty_ns ns w) = ns_entries k w"
  by (auto simp: drop_empty_ns_def ns_entries_def map_of_filter_other split: option.splits)

lemma ns_entries_drop [txn_store]:
  "ns_entries k (drop_txn_dir ns name w) =
     (if k = ns then filter (\<lambda>(n, d). n \<noteq> name) (ns_entries ns w) else ns_entries k w)"
  by (simp add: drop_txn_dir_def txn_store)

lemma ns_entries_put [txn_store]:
  "ns_entries k (put_journal ns name j w) =
     (if k = ns then map (\<lambda>(n, d). (n, if n = name
       then d\<lparr>mtime_ms := now_ms w, journal_file := Some (Parsed j), journal_mtime_ms := now_ms w\<rparr> else d)) (ns_entries ns w)
      else ns_entries k w)"
  by (simp add: put_journal_def txn_store)

text \<open>A namespace that holds exactly one transaction, with this journal.\<close>

definition holds_only :: "string \<Rightarrow> string \<Rightarrow> 'p txn_journal \<Rightarrow> ('p, 'd) world \<Rightarrow> bool" where
  "holds_only ns name j w \<longleftrightarrow>
     (\<exists>d. ns_entries ns w = [(name, d)] \<and> is_directory d \<and> journal_file d = Some (Parsed j))"

lemma holds_only_updates [txn_store]:
  "holds_only ns name j (w\<lparr>steps_left := n\<rparr>) = holds_only ns name j w"
  "holds_only ns name j (w\<lparr>dir_entries := f\<rparr>) = holds_only ns name j w"
  "holds_only ns name j (w\<lparr>inodes := g\<rparr>) = holds_only ns name j w"
  "holds_only ns name j (w\<lparr>database := d\<rparr>) = holds_only ns name j w"
  "holds_only ns name j (w\<lparr>next_inode := n\<rparr>) = holds_only ns name j w"
  "holds_only ns name j (drop_files_under dir w) = holds_only ns name j w"
  by (simp_all add: holds_only_def txn_store)

lemma holds_only_code [code]:
  "holds_only ns name j w = (case ns_entries ns w of
     [(n, d)] \<Rightarrow> n = name \<and> is_directory d \<and> (case journal_file d of Some (Parsed j') \<Rightarrow> j' = j | _ \<Rightarrow> False)
   | _ \<Rightarrow> False)"
  by (auto simp: holds_only_def split: list.split prod.split option.split journal_file.split)

definition only_txn :: "string \<Rightarrow> string \<Rightarrow> ('p, 'd) world \<Rightarrow> bool" where
  "only_txn ns name w \<longleftrightarrow> (\<exists>d. ns_entries ns w = [(name, d)] \<and> is_directory d)"

lemma only_txn_updates [txn_store]:
  "only_txn ns name (w\<lparr>steps_left := n\<rparr>) = only_txn ns name w"
  "only_txn ns name (w\<lparr>dir_entries := f\<rparr>) = only_txn ns name w"
  "only_txn ns name (w\<lparr>inodes := g\<rparr>) = only_txn ns name w"
  "only_txn ns name (w\<lparr>database := d\<rparr>) = only_txn ns name w"
  "only_txn ns name (drop_files_under dir w) = only_txn ns name w"
  "only_txn ns name (put_journal ns name j w) = only_txn ns name w"
  by (auto simp: only_txn_def txn_store)

lemma holds_only_only: "holds_only ns name j w \<Longrightarrow> only_txn ns name w"
  by (auto simp: holds_only_def only_txn_def)

lemma holds_only_put_iff [txn_store]: "holds_only ns name j (put_journal ns name j w) = only_txn ns name w"
  by (auto simp: holds_only_def only_txn_def txn_store)

lemma holds_only_put: "holds_only ns name j w \<Longrightarrow> holds_only ns name j' (put_journal ns name j' w)"
  by (auto simp: holds_only_def txn_store)

lemma holds_only_found: "holds_only ns name j w \<Longrightarrow> found_journal ns name w = Some (Parsed j)"
  by (auto simp: holds_only_def found_journal_def find_txn_dir_def)

lemma holds_only_listed:
  "holds_only ns name j w \<Longrightarrow> map (\<lambda>(n, d). (n, is_directory d)) (ns_entries ns w) = [(name, True)]"
  by (auto simp: holds_only_def)

lemma holds_only_drop: "holds_only ns name j w \<Longrightarrow> ns_entries ns (drop_txn_dir ns name w) = []"
  by (auto simp: holds_only_def txn_store)

section \<open>What a recovery scan leaves behind\<close>

text \<open>Nothing changed except one transaction directory, files and the database.\<close>

definition same_beside :: "string \<Rightarrow> string \<Rightarrow> ('p, 'd) world \<Rightarrow> ('p, 'd) world \<Rightarrow> bool" where
  "same_beside ns name w w' \<longleftrightarrow> now_ms w' = now_ms w \<and> (\<forall>k. k \<noteq> ns \<longrightarrow> ns_entries k w' = ns_entries k w)
     \<and> filter (\<lambda>(n, d). n \<noteq> name) (ns_entries ns w') = filter (\<lambda>(n, d). n \<noteq> name) (ns_entries ns w)
     \<and> (distinct (map fst (ns_entries ns w)) \<longrightarrow> distinct (map fst (ns_entries ns w')))"

interpretation beside: kept_relation "same_beside ns name" for ns name
  by unfold_locales (auto simp: same_beside_def)

lemma filter_put_other:
  "filter (\<lambda>(n, d). n \<noteq> name) (map (\<lambda>(n, d). (n, if n = name then f d else d)) ds) = filter (\<lambda>(n, d). n \<noteq> name) ds"
  by (induction ds) auto

lemma map_fst_put: "map (fst \<circ> (\<lambda>(n, d). (n, g n d))) ds = map fst ds"
  by (induction ds) auto

lemma beside_updates [txn_store]:
  "same_beside ns name w (w\<lparr>steps_left := n\<rparr>)"
  "same_beside ns name w (put_journal ns name j (w\<lparr>steps_left := n\<rparr>))"
  "same_beside ns name w (drop_txn_dir ns name (w\<lparr>steps_left := n\<rparr>))"
  "same_beside ns name w (drop_files_under dir (w\<lparr>steps_left := n\<rparr>))"
  "same_beside ns name w (drop_empty_ns k (w\<lparr>steps_left := n\<rparr>))"
  "same_beside ns name w (w\<lparr>steps_left := n, dir_entries := f\<rparr>)"
  "same_beside ns name w (w\<lparr>steps_left := n, database := db\<rparr>)"
  by (auto simp: same_beside_def txn_store filter_put_other map_fst_put distinct_map_filter)

lemma advance_beside:
  "keeps (same_beside (txn_ns t) (txn_name t)) (\<lambda>t'. txn_ns t' = txn_ns t \<and> txn_name t' = txn_name t) (advance_txn phases_of t ph)"
  unfolding advance_txn_def require_kind_def write_journal_def Let_def
  by (auto intro!: beside.keeps_andthen beside.keeps_ret beside.keeps_raise keeps_step_durably beside.rel_refl beside_updates
      split: option.split)

text \<open>
  What a scan may leave behind: no directory at all, a directory without a journal or with a journal of a kind nobody
  registered that is still within the grace period, or a journal the caller did not ask for.
\<close>

definition left_alone :: "('p, 'd) kinds \<Rightarrow> ('p txn_journal \<Rightarrow> bool) \<Rightarrow> int \<Rightarrow> 'p txn_dir \<Rightarrow> bool" where
  "left_alone kinds wanted now d \<longleftrightarrow> \<not> is_directory d \<or> (case journal_file d of
     None \<Rightarrow> now - mtime_ms d < txn_sweep_grace_ms
   | Some (Unparsable e) \<Rightarrow> False
   | Some (Parsed j) \<Rightarrow> (case kinds (journal_kind j) of
        None \<Rightarrow> now - mtime_ms d < txn_sweep_grace_ms
      | Some h \<Rightarrow> \<not> wanted j))"

definition entry_settled :: "('p, 'd) kinds \<Rightarrow> ('p txn_journal \<Rightarrow> bool) \<Rightarrow> string \<Rightarrow> string \<Rightarrow> ('p, 'd) world \<Rightarrow> bool" where
  "entry_settled kinds wanted ns name w \<longleftrightarrow>
     (\<forall>d. (name, d) \<in> set (ns_entries ns w) \<longrightarrow> left_alone kinds wanted (now_ms w) d)"

text \<open>The contract of a registered handler: it works on its own transaction directory.\<close>

locale txn_registry =
  fixes kinds :: "('p, 'd) kinds"
  assumes rollback_beside: "kinds k = Some h \<Longrightarrow> keeps (same_beside (txn_ns t) (txn_name t)) (\<lambda>_. True) (rollback h t)"
    and finalize_beside: "kinds k = Some h \<Longrightarrow> keeps (same_beside (txn_ns t) (txn_name t)) (\<lambda>_. True) (finalize h t)"
begin

lemma cleanup_beside: "keeps (same_beside ns name) (\<lambda>_. True) (cleanup_txn ns name)"
  unfolding cleanup_txn_def
  by (auto intro!: beside.keeps_andthen [where mid = "\<lambda>_. True"] keeps_step_durably beside.rel_refl beside_updates)

lemma settle_beside:
  assumes "kinds k = Some h"
  shows "keeps (same_beside (txn_ns t) (txn_name t)) (\<lambda>_. True) (settle_txn h t)"
  unfolding settle_txn_def
  by (auto intro!: beside.keeps_andthen [where mid = "\<lambda>_. True"] beside.keeps_ret rollback_beside [OF assms] finalize_beside [OF assms]
      cleanup_beside)

lemma sweep_beside: "keeps (same_beside ns name) (\<lambda>_. True) (sweep_journalless_txn_dir ns name)"
  unfolding sweep_journalless_txn_dir_def
  by (auto intro!: beside.keeps_andthen [where mid = "\<lambda>_. True"] beside.keeps_ret beside.keeps_reading keeps_step_durably
      beside.rel_refl beside_updates split: option.split)

lemma entry_beside:
  "keeps (same_beside (txn_namespace_dir env root) name) (\<lambda>_. True) (recover_entry env kinds wanted root name)"
proof -
  have s: "keeps (same_beside ns name) (\<lambda>_. True) (settle_txn h \<lparr>txn_journal_of = j, txn_ns = ns, txn_name = name\<rparr>)"
    if "kinds k = Some h" for h j k ns
    using settle_beside [OF that, of "\<lparr>txn_journal_of = j, txn_ns = ns, txn_name = name\<rparr>"] by simp
  show ?thesis
    unfolding recover_entry_def read_journal_def Let_def
    by (auto intro!: beside.keeps_andthen [where mid = "\<lambda>_. True"] beside.keeps_ret beside.keeps_raise beside.keeps_reading
        sweep_beside s split: option.split journal_file.split)
qed

lemma cleanup_removes: "cleanup_txn ns name w = (Done x, w') \<Longrightarrow> name \<notin> fst ` set (ns_entries ns w')"
  by (auto simp: cleanup_txn_def andthen_def step_durably_def txn_store split: if_splits)

lemma settle_removes: "settle_txn h t w = (Done x, w') \<Longrightarrow> txn_name t \<notin> fst ` set (ns_entries (txn_ns t) w')"
  unfolding settle_txn_def andthen_def ret_def
  by (auto split: prod.splits outcome.splits if_splits dest: cleanup_removes)

lemma sweep_settles:
  assumes run: "sweep_journalless_txn_dir ns name w = (Done x, w')" and there: "find_txn_dir ns name w = Some d"
    and dist: "distinct (map fst (ns_entries ns w))"
    and young: "now_ms w - mtime_ms d < txn_sweep_grace_ms \<Longrightarrow> left_alone kinds wanted (now_ms w) d"
  shows "entry_settled kinds wanted ns name w'"
proof -
  have d: "(name, d') \<in> set (ns_entries ns w) \<Longrightarrow> d' = d" for d'
    using there dist by (auto simp: find_txn_dir_def)
  show ?thesis using run there d young
    by (auto simp: sweep_journalless_txn_dir_def andthen_def reading_def ret_def step_durably_def entry_settled_def txn_store
        split: if_splits)
qed

lemma entry_settles:
  assumes run: "recover_entry env kinds wanted root name w = (Done r, w')"
    and there: "(name, d) \<in> set (ns_entries (txn_namespace_dir env root) w)"
    and dist: "distinct (map fst (ns_entries (txn_namespace_dir env root) w))"
  shows "entry_settled kinds wanted (txn_namespace_dir env root) name w'"
proof -
  let ?ns = "txn_namespace_dir env root"
  have find: "find_txn_dir ?ns name w = Some d" using there dist by (simp add: find_txn_dir_def)
  have d: "(name, d') \<in> set (ns_entries ?ns w) \<Longrightarrow> d' = d" for d'
    using find dist by (auto simp: find_txn_dir_def)
  have gone: "name \<notin> fst ` set (ns_entries ?ns u) \<Longrightarrow> entry_settled kinds wanted ?ns name u" for u
    by (force simp: entry_settled_def)
  show ?thesis
  proof (cases "journal_file d")
    case None
    then obtain x where "sweep_journalless_txn_dir ?ns name w = (Done x, w')"
      using run find by (auto simp: recover_entry_def Let_def andthen_def reading_def ret_def found_journal_def
          split: prod.splits outcome.splits)
    then show ?thesis by (rule sweep_settles [OF _ find dist]) (simp add: left_alone_def None)
  next
    case (Some f)
    then obtain j where f: "f = Parsed j" and v: "journal_version j = 1"
      using run find by (cases f) (auto simp: recover_entry_def Let_def andthen_def reading_def ret_def raise_def found_journal_def
          read_journal_def split: prod.splits outcome.splits if_splits)
    show ?thesis
    proof (cases "kinds (journal_kind j)")
      case None
      then obtain x where "sweep_journalless_txn_dir ?ns name w = (Done x, w')"
        using run find Some f v by (auto simp: recover_entry_def Let_def andthen_def reading_def ret_def found_journal_def
            read_journal_def split: prod.splits outcome.splits)
      then show ?thesis by (rule sweep_settles [OF _ find dist]) (simp add: left_alone_def None Some f)
    next
      case h: (Some h)
      then consider "\<not> wanted j" "w' = w" | x where
          "settle_txn h \<lparr>txn_journal_of = j, txn_ns = ?ns, txn_name = name\<rparr> w = (Done x, w')"
        using run find Some f v by (auto simp: recover_entry_def Let_def andthen_def reading_def ret_def raise_def found_journal_def
            read_journal_def split: prod.splits outcome.splits if_splits option.splits)
      then show ?thesis
      proof cases
        case 1
        then show ?thesis using d Some f h by (auto simp: entry_settled_def left_alone_def)
      next
        case 2
        from settle_removes [OF this] show ?thesis by (intro gone) simp
      qed
    qed
  qed
qed

end

context txn_registry begin

lemma beside_other:
  assumes "same_beside ns name w w'" "n \<noteq> name"
  shows "(n, d) \<in> set (ns_entries ns w') \<longleftrightarrow> (n, d) \<in> set (ns_entries ns w)"
proof -
  have "(n, d) \<in> set (filter (\<lambda>(n, d). n \<noteq> name) (ns_entries ns w')) \<longleftrightarrow>
      (n, d) \<in> set (filter (\<lambda>(n, d). n \<noteq> name) (ns_entries ns w))"
    using assms(1) by (simp add: same_beside_def)
  then show ?thesis using assms(2) by simp
qed

lemma entry_absent:
  assumes "nm \<notin> fst ` set (ns_entries (txn_namespace_dir env root) w)"
  shows "recover_entry env kinds wanted root nm w = (Done None, w)"
proof -
  have "find_txn_dir (txn_namespace_dir env root) nm w = None"
    using assms by (auto simp: find_txn_dir_def map_of_eq_None_iff)
  then show ?thesis
    by (simp add: recover_entry_def Let_def andthen_def reading_def ret_def found_journal_def sweep_journalless_txn_dir_def)
qed

lemma entries_settle:
  assumes "recover_entries env kinds wanted root rest recovered w = (Done js, w')"
    and "distinct (map fst (ns_entries (txn_namespace_dir env root) w))"
    and "\<And>n d. (n, d) \<in> set (ns_entries (txn_namespace_dir env root) w) \<Longrightarrow>
      left_alone kinds wanted (now_ms w) d \<or> (n, is_directory d) \<in> set rest"
  shows "entry_settled kinds wanted (txn_namespace_dir env root) name w'"
  using assms
proof (induction rest arbitrary: w recovered)
  case Nil
  then show ?case by (auto simp: entry_settled_def ret_def)
next
  case (Cons e rest)
  let ?ns = "txn_namespace_dir env root"
  obtain nm dir where e: "e = (nm, dir)" by fastforce
  show ?case
  proof (cases dir)
    case False
    have "left_alone kinds wanted (now_ms w) d \<or> (n, is_directory d) \<in> set rest" if "(n, d) \<in> set (ns_entries ?ns w)" for n d
      using Cons.prems(3) [OF that] e False by (auto simp: left_alone_def)
    then show ?thesis using Cons.IH [of recovered w] Cons.prems(1,2) e False by simp
  next
    case True
    then obtain r v where r: "recover_entry env kinds wanted root nm w = (Done r, v)"
      and rest: "recover_entries env kinds wanted root rest (case r of None \<Rightarrow> recovered | Some j \<Rightarrow> recovered @ [j]) v = (Done js, w')"
      using Cons.prems(1) e by (auto simp: andthen_def split: prod.splits outcome.splits)
    have beside: "same_beside ?ns nm w v" using keepsD [OF entry_beside r] .
    have settled: "entry_settled kinds wanted ?ns nm v"
    proof (cases "nm \<in> fst ` set (ns_entries ?ns w)")
      case True
      then obtain d where "(nm, d) \<in> set (ns_entries ?ns w)" by auto
      from entry_settles [OF r this Cons.prems(2)] show ?thesis .
    next
      case False
      then have "v = w" using entry_absent [OF False, of wanted] r by simp
      then show ?thesis using False by (force simp: entry_settled_def)
    qed
    have "left_alone kinds wanted (now_ms v) d \<or> (n, is_directory d) \<in> set rest" if d: "(n, d) \<in> set (ns_entries ?ns v)" for n d
    proof (cases "n = nm")
      case True
      then show ?thesis using settled d by (simp add: entry_settled_def)
    next
      case False
      then have "(n, d) \<in> set (ns_entries ?ns w)" using beside_other [OF beside] d by simp
      then show ?thesis using Cons.prems(3) [of n d] e False beside by (auto simp: same_beside_def)
    qed
    moreover have "distinct (map fst (ns_entries ?ns v))" using beside Cons.prems(2) by (simp add: same_beside_def)
    ultimately show ?thesis using Cons.IH [OF rest] by blast
  qed
qed

lemma scan_settles:
  assumes "recover_txns_for_root env kinds wanted root w = (Done js, w')"
    and "distinct (map fst (ns_entries (txn_namespace_dir env root) w))"
  shows "entry_settled kinds wanted (txn_namespace_dir env root) name w'"
  using assms
  by (intro entries_settle) (force simp: recover_txns_for_root_def andthen_def reading_def)+

end

end
