(* ===== verification/Proposal_Txn.thy ===== *)
theory Proposal_Txn
  imports Fs_Txn
begin

text \<open>
  The two transaction kinds the program registers with the engine, both of
  \<^verbatim>\<open>src/commands/proposal/repository.ts\<close>: accepting or reverting a proposal, which publishes a file with hard
  links and records the decision in the database, and rejecting one, which only touches the database.  Every
  file operation, journal write and database transaction is one durable step, so a crash may fall between any
  two of them.  The configuration (which bundle is written where), Git and the search index are parameters of
  \<open>proposal_env\<close>; event metadata is reduced to the fields that identify the proposal.
\<close>

section \<open>Data\<close>

datatype proposal_status = Pending | Accepted | Rejected | Reverted

record gate_decision =
  gate_outcome :: string
  gate_reason :: string
  gate_decided_at :: "string option"

record file_change =
  fc_path :: string
  fc_op :: file_change_op
  fc_after :: "string option"

record proposal_review =
  review_accepted :: bool
  review_reason :: "string option"
  review_decided_at :: string

record accepted_target =
  at_source :: string
  at_root :: string
  at_path :: string
  at_hash :: string

record proposal =
  prop_id :: string
  prop_ref :: string
  prop_status :: proposal_status
  prop_source :: string
  prop_source_run :: "string option"
  prop_updated_at :: string
  prop_content :: string
  prop_changes :: "file_change list"
  prop_proposed_target :: "(string \<times> string) option"
  prop_review :: "proposal_review option"
  prop_gate :: "gate_decision option"
  prop_backup :: "string option"
  prop_accepted_target :: "accepted_target option"

record proposal_event =
  event_type :: string
  event_ts :: string
  event_ref :: string
  event_proposal :: string
  event_source :: string
  event_key :: string

record proposal_db =
  proposals :: "string \<times> string \<Rightarrow> proposal option"
  events :: "proposal_event list"

datatype txn_operation = Accept | Revert

record git_publication =
  recorded_commit :: "string option option"

record proposal_payload =
  pp_operation :: txn_operation
  pp_proposal_id :: string
  pp_stash_dir :: string
  pp_target_source :: string
  pp_target_kind :: string
  pp_asset_path :: string
  pp_ref :: string
  pp_content_path :: string
  pp_publish_path :: string
  pp_displaced_path :: string
  pp_backup_path :: "string option"
  pp_original_hash :: "string option"
  pp_published_hash :: string
  pp_git_publication :: "git_publication option"
  pp_git_snapshot :: "string option"
  pp_gate :: "gate_decision option"

record reject_payload =
  rp_proposal_id :: string
  rp_stash_dir :: string
  rp_reason :: "string option"
  rp_gate :: "gate_decision option"

datatype any_payload = ProposalPayload proposal_payload | RejectPayload reject_payload

type_synonym store = "(any_payload, proposal_db) world"
type_synonym 'a act = "('a, store) prog"

record write_target =
  wt_name :: string
  wt_kind :: string
  wt_root :: string

record proposal_env = txn_env +
  safe_real_path :: "string \<Rightarrow> string"
  ref_bundle :: "string \<Rightarrow> string option"
  bundle_target :: "string \<Rightarrow> write_target option"
  prepare_target :: "write_target \<Rightarrow> string + write_target"
  git_publication_of :: "write_target \<Rightarrow> git_publication option"
  git_snapshot :: "write_target \<Rightarrow> string \<Rightarrow> string"
  ensure_commit :: "write_target \<Rightarrow> proposal_payload \<Rightarrow> string + string option"
  push_commit :: "write_target \<Rightarrow> proposal_payload \<Rightarrow> string option"
  index_assets :: "string \<Rightarrow> string list \<Rightarrow> bool"

section \<open>Files\<close>

definition file_exists :: "string \<Rightarrow> store \<Rightarrow> bool" where
  "file_exists p w \<longleftrightarrow> dir_entries w p \<noteq> None"

definition file_text :: "string \<Rightarrow> store \<Rightarrow> string option" where
  "file_text p w = map_option (inodes w) (dir_entries w p)"

definition read_file :: "string \<Rightarrow> string act" where
  "read_file p = andthen (reading (file_text p)) (\<lambda>c.
     case c of None \<Rightarrow> raise (''ENOENT '' @ p) | Some text \<Rightarrow> ret text)"

definition rename_file :: "string \<Rightarrow> string \<Rightarrow> unit act" where
  "rename_file src dst = andthen (reading (\<lambda>w. (dir_entries w src, dir_entries w dst))) (\<lambda>(s, d).
     if s = None then raise (''ENOENT '' @ src)
     else if s = d then ret ()
     else step_durably (\<lambda>w. w\<lparr>dir_entries := (dir_entries w)(src := None, dst := s)\<rparr>))"

definition link_file :: "string \<Rightarrow> string \<Rightarrow> unit act" where
  "link_file src dst = andthen (reading (\<lambda>w. (dir_entries w src, dir_entries w dst))) (\<lambda>(s, d).
     if s = None then raise (''ENOENT '' @ src)
     else if d \<noteq> None then raise (''EEXIST '' @ dst)
     else step_durably (\<lambda>w. w\<lparr>dir_entries := (dir_entries w)(dst := s)\<rparr>))"

definition unlink_file :: "string \<Rightarrow> unit act" where
  "unlink_file p = andthen (reading (file_exists p)) (\<lambda>there.
     if \<not> there then raise (''ENOENT '' @ p)
     else step_durably (\<lambda>w. w\<lparr>dir_entries := (dir_entries w)(p := None)\<rparr>))"

definition remove_file :: "string \<Rightarrow> unit act" where
  "remove_file p = step_durably (\<lambda>w. w\<lparr>dir_entries := (dir_entries w)(p := None)\<rparr>)"

definition store_text :: "string \<Rightarrow> string \<Rightarrow> store \<Rightarrow> store" where
  "store_text p text w = (case dir_entries w p of
     Some i \<Rightarrow> w\<lparr>inodes := (inodes w)(i := text)\<rparr>
   | None \<Rightarrow> w\<lparr>dir_entries := (dir_entries w)(p := Some (next_inode w)),
                inodes := (inodes w)(next_inode w := text), next_inode := Suc (next_inode w)\<rparr>)"

definition write_file :: "string \<Rightarrow> string \<Rightarrow> unit act" where
  "write_file p text = step_durably (store_text p text)"

definition write_new_file :: "string \<Rightarrow> string \<Rightarrow> unit act" where
  "write_new_file p text = andthen (reading (file_exists p)) (\<lambda>there.
     if there then raise (''EEXIST '' @ p) else write_file p text)"

definition proposal_file_hash :: "'e txn_env_scheme \<Rightarrow> string \<Rightarrow> string act" where
  "proposal_file_hash env p = andthen (read_file p) (\<lambda>text. ret (sha256 env text))"

definition current_hash :: "'e txn_env_scheme \<Rightarrow> string \<Rightarrow> store \<Rightarrow> string option" where
  "current_hash env p w = map_option (sha256 env) (file_text p w)"

definition same_proposal_file :: "string \<Rightarrow> string \<Rightarrow> store \<Rightarrow> bool" where
  "same_proposal_file left right w \<longleftrightarrow> dir_entries w left \<noteq> None \<and> dir_entries w left = dir_entries w right"

section \<open>The database\<close>

definition get_proposal :: "string \<Rightarrow> string \<Rightarrow> proposal act" where
  "get_proposal stash pid = andthen (reading (\<lambda>w. proposals (database w) (pid, stash))) (\<lambda>found.
     case found of None \<Rightarrow> raise (''Proposal not found: '' @ pid) | Some p \<Rightarrow> ret p)"

definition put_proposal :: "string \<Rightarrow> proposal \<Rightarrow> proposal_db \<Rightarrow> proposal_db" where
  "put_proposal stash p db = db\<lparr>proposals := (proposals db)((prop_id p, stash) \<mapsto> p)\<rparr>"

definition upsert_proposal :: "string \<Rightarrow> proposal \<Rightarrow> unit act" where
  "upsert_proposal stash p = step_durably (\<lambda>w. w\<lparr>database := put_proposal stash p (database w)\<rparr>)"

definition same_event :: "proposal_event \<Rightarrow> proposal_event \<Rightarrow> bool" where
  "same_event e e' \<longleftrightarrow> event_type e = event_type e' \<and> event_ref e = event_ref e' \<and> event_key e = event_key e'"

definition insert_event_once :: "proposal_event \<Rightarrow> unit act" where
  "insert_event_once e = andthen (reading (\<lambda>w. list_ex (same_event e) (events (database w)))) (\<lambda>there.
     if there then ret ()
     else step_durably (\<lambda>w. w\<lparr>database := (database w)\<lparr>events := events (database w) @ [e]\<rparr>\<rparr>))"

definition stamped_gate :: "string \<Rightarrow> gate_decision \<Rightarrow> gate_decision" where
  "stamped_gate decided g = g\<lparr>gate_decided_at := Some (case gate_decided_at g of None \<Rightarrow> decided | Some t \<Rightarrow> t)\<rparr>"

definition with_gate :: "string \<Rightarrow> gate_decision option \<Rightarrow> proposal \<Rightarrow> proposal" where
  "with_gate decided g p = (case g of None \<Rightarrow> p | Some d \<Rightarrow> p\<lparr>prop_gate := Some (stamped_gate decided d)\<rparr>)"

text \<open>\<open>archiveProposal\<close> for a decision made at \<open>decided\<close>.\<close>

definition archive_proposal ::
  "string \<Rightarrow> string \<Rightarrow> proposal_status \<Rightarrow> string option \<Rightarrow> string \<Rightarrow> gate_decision option \<Rightarrow> proposal act" where
  "archive_proposal stash pid status reason decided gate =
     andthen (get_proposal stash pid) (\<lambda>existing.
       if prop_status existing \<noteq> Pending then raise (''Proposal is not pending: '' @ pid)
       else (let updated = with_gate decided gate (existing\<lparr>prop_status := status, prop_updated_at := decided,
                   prop_review := Some \<lparr>review_accepted = (status = Accepted), review_reason = reason,
                                        review_decided_at = decided\<rparr>\<rparr>)
             in andthen (upsert_proposal stash updated) (\<lambda>_. ret updated)))"

fun replace_primary :: "string \<Rightarrow> file_change list \<Rightarrow> file_change list" where
  "replace_primary content [] = []"
| "replace_primary content (c # cs) = (if fc_op c \<noteq> Op_Delete then c\<lparr>fc_after := Some content\<rparr> else c) # cs"

definition with_proposal_content :: "proposal \<Rightarrow> string \<Rightarrow> proposal" where
  "with_proposal_content p content =
     p\<lparr>prop_content := content, prop_changes := replace_primary content (prop_changes p)\<rparr>"

section \<open>Fences\<close>

definition is_contained_resolved_path :: "'e txn_env_scheme \<Rightarrow> string \<Rightarrow> string \<Rightarrow> bool" where
  "is_contained_resolved_path env candidate root =
     (let rel = join_with ''/'' (relative_segs (resolve_segs (work_dir env) root) (resolve_segs (work_dir env) candidate))
      in rel = '''' \<or> (\<not> is_absolute rel \<and> takeWhile (\<lambda>c. c \<noteq> CHR ''/'' \<and> c \<noteq> CHR 0x5C) rel \<noteq> ''..''))"

definition is_within :: "'e proposal_env_scheme \<Rightarrow> string \<Rightarrow> string \<Rightarrow> bool" where
  "is_within env candidate root = is_contained_resolved_path env (safe_real_path env candidate) (safe_real_path env root)"

text \<open>\<open>fenceProposalTxnJournal\<close>; the operation is one of the two by its type.\<close>

definition fence_proposal_txn_journal ::
  "'e proposal_env_scheme \<Rightarrow> any_payload txn_journal \<Rightarrow> string \<Rightarrow> string \<Rightarrow> string option" where
  "fence_proposal_txn_journal env j dir root = (case payload j of
     RejectPayload r \<Rightarrow> Some ''Refusing unsafe proposal transaction journal''
   | ProposalPayload p \<Rightarrow>
       if pp_target_source p = '''' \<or> pp_target_kind p = '''' \<or> ref_bundle env (pp_ref p) = None
          \<or> \<not> is_within env (pp_asset_path p) root
          \<or> \<not> list_all (\<lambda>c. is_within env c dir)
                (pp_content_path p # (case pp_backup_path p of None \<Rightarrow> [] | Some b \<Rightarrow> [b]))
          \<or> \<not> list_all (\<lambda>c. is_within env c root \<and> posix_dirname c = posix_dirname (pp_asset_path p))
                [pp_publish_path p, pp_displaced_path p]
       then Some ''Refusing unsafe proposal transaction journal'' else None)"

section \<open>Phases\<close>

definition proposal_txn_phases :: "string list" where
  "proposal_txn_phases = [''prepared'', ''asset-published'', ''proposal-persisted'', ''index-finalized'',
     ''event-finalized'', ''committed'']"

definition reject_txn_phases :: "string list" where
  "reject_txn_phases = [''prepared'', ''state-persisted'', ''event-finalized'', ''committed'']"

definition proposal_txn_kind :: string where
  "proposal_txn_kind = ''proposal''"

definition reject_txn_kind :: string where
  "reject_txn_kind = ''proposal-reject''"

definition kind_phases :: "string \<Rightarrow> string list option" where
  "kind_phases kind = (if kind = proposal_txn_kind then Some proposal_txn_phases
     else if kind = reject_txn_kind then Some reject_txn_phases else None)"

definition advance :: "any_payload txn \<Rightarrow> string \<Rightarrow> any_payload txn act" where
  "advance = advance_txn kind_phases"

definition phase_of :: "any_payload txn \<Rightarrow> string" where
  "phase_of t = journal_phase (txn_journal_of t)"

section \<open>Publishing and rolling back a file\<close>

definition cleanup_proposal_publication :: "proposal_payload \<Rightarrow> unit act" where
  "cleanup_proposal_publication p =
     for_each [pp_publish_path p, pp_displaced_path p] remove_file"

definition rollback_prepared_proposal :: "'e proposal_env_scheme \<Rightarrow> proposal_payload \<Rightarrow> unit act" where
  "rollback_prepared_proposal env p =
     andthen (reading (current_hash env (pp_asset_path p))) (\<lambda>current.
     andthen (reading (file_exists (pp_displaced_path p))) (\<lambda>displaced.
       if \<not> displaced then
         andthen
           (case pp_original_hash p of
              None \<Rightarrow>
                andthen (reading (same_proposal_file (pp_asset_path p) (pp_publish_path p))) (\<lambda>same.
                  if current = Some (pp_published_hash p) \<and> same then unlink_file (pp_asset_path p)
                  else if current \<noteq> None then raise ''Cannot roll back proposal transaction: target was created externally.''
                  else ret ())
            | Some original \<Rightarrow>
                if current \<noteq> Some original then raise ''Cannot roll back proposal transaction: diverged.'' else ret ())
           (\<lambda>_. cleanup_proposal_publication p)
       else
         andthen
           (if current = Some (pp_published_hash p) then unlink_file (pp_asset_path p)
            else if current \<noteq> None \<and> current \<noteq> pp_original_hash p
            then raise ''Cannot roll back proposal transaction: diverged.''
            else ret ())
           (\<lambda>_. andthen (reading (file_exists (pp_displaced_path p))) (\<lambda>still.
              andthen
                (if \<not> still then ret ()
                 else andthen (reading (file_exists (pp_asset_path p))) (\<lambda>occupied.
                   if occupied then raise ''Cannot restore proposal backup: occupied.''
                   else link_file (pp_displaced_path p) (pp_asset_path p)))
                (\<lambda>_. cleanup_proposal_publication p)))))"

definition with_proposal_payload :: "any_payload txn \<Rightarrow> (proposal_payload \<Rightarrow> 'a act) \<Rightarrow> 'a act" where
  "with_proposal_payload t k = (case payload (txn_journal_of t) of
     ProposalPayload p \<Rightarrow> k p | RejectPayload r \<Rightarrow> raise ''TypeError'')"

text \<open>What a failed preparation or publication does before it passes the error on.\<close>

definition abandon_txn :: "'e proposal_env_scheme \<Rightarrow> any_payload txn \<Rightarrow> proposal_payload \<Rightarrow> string \<Rightarrow> 'a act" where
  "abandon_txn env t p e =
     andthen (rollback_prepared_proposal env p) (\<lambda>_.
     andthen (cleanup_txn (txn_ns t) (txn_name t)) (\<lambda>_. raise e))"

definition with_final_newline :: "string \<Rightarrow> string" where
  "with_final_newline s = (if js_ends_with [CHR 0x0A] s then s else s @ [CHR 0x0A])"

text \<open>The payload and the uniform change of a new transaction; the auxiliary files sit beside the asset.\<close>

definition prepared_payload ::
  "'e proposal_env_scheme \<Rightarrow> string \<Rightarrow> write_target \<Rightarrow> proposal \<Rightarrow> string \<Rightarrow> string \<Rightarrow> string \<Rightarrow>
   txn_operation \<Rightarrow> string option \<Rightarrow> string option \<Rightarrow> gate_decision option \<Rightarrow> proposal_payload" where
  "prepared_payload env stash target p asset normalized tid operation original backup gate =
     (let dir = joined (txn_namespace_dir env (wt_root target)) tid in
      \<lparr>pp_operation = operation, pp_proposal_id = prop_id p, pp_stash_dir = stash,
       pp_target_source = wt_name target, pp_target_kind = wt_kind target, pp_asset_path = asset,
       pp_ref = prop_ref p, pp_content_path = joined dir ''published-content'',
       pp_publish_path = joined (posix_dirname asset) (''.akm-proposal-'' @ tid @ ''.publish''),
       pp_displaced_path = joined (posix_dirname asset) (''.akm-proposal-'' @ tid @ ''.displaced''),
       pp_backup_path = map_option (\<lambda>_. joined dir ''backup-content'') backup,
       pp_original_hash = original, pp_published_hash = sha256 env normalized,
       pp_git_publication = git_publication_of env target, pp_git_snapshot = None, pp_gate = gate\<rparr>)"

definition prepared_change :: "proposal_payload \<Rightarrow> journaled_file_change" where
  "prepared_change pl = \<lparr>change_path = pp_asset_path pl,
     change_op = (if pp_original_hash pl = None then Op_Create else Op_Update),
     before_hash = pp_original_hash pl, after_hash = Some (pp_published_hash pl)\<rparr>"

definition prepare_proposal_transaction ::
  "'e proposal_env_scheme \<Rightarrow> string \<Rightarrow> write_target \<Rightarrow> proposal \<Rightarrow> string \<Rightarrow> string \<Rightarrow> string \<Rightarrow> string \<Rightarrow>
   txn_operation \<Rightarrow> string option \<Rightarrow> string option \<Rightarrow> gate_decision option \<Rightarrow> any_payload txn act" where
  "prepare_proposal_transaction env stash target p asset content tid decided operation original backup gate =
     (let normalized = with_final_newline content;
          pl = prepared_payload env stash target p asset normalized tid operation original backup gate
      in andthen (step_durably (make_txn_dir (txn_namespace_dir env (wt_root target)) tid)) (\<lambda>_.
         andthen (write_file (pp_content_path pl) normalized) (\<lambda>_.
         andthen (case backup of None \<Rightarrow> ret ()
                  | Some b \<Rightarrow> write_file (joined (joined (txn_namespace_dir env (wt_root target)) tid) ''backup-content'') b) (\<lambda>_.
         andthen (begin_txn env kind_phases proposal_txn_kind (wt_root target) [prepared_change pl] (ProposalPayload pl) decided tid) (\<lambda>t.
         andthen (catching (write_new_file (pp_publish_path pl) normalized) (abandon_txn env t pl)) (\<lambda>_. ret t))))))"

definition publish_proposal_asset ::
  "'e proposal_env_scheme \<Rightarrow> any_payload txn \<Rightarrow> write_target \<Rightarrow> any_payload txn act" where
  "publish_proposal_asset env t target = with_proposal_payload t (\<lambda>p.
     catching
       (andthen
          (case pp_original_hash p of
             None \<Rightarrow> ret ()
           | Some original \<Rightarrow>
               andthen (rename_file (pp_asset_path p) (pp_displaced_path p)) (\<lambda>_.
               andthen (proposal_file_hash env (pp_displaced_path p)) (\<lambda>h.
                 if h \<noteq> original
                 then andthen (rename_file (pp_displaced_path p) (pp_asset_path p)) (\<lambda>_.
                        raise ''Proposal target changed while its backup was being acquired.'')
                 else ret ())))
          (\<lambda>_. andthen (link_file (pp_publish_path p) (pp_asset_path p)) (\<lambda>_.
             let p' = (if wt_kind target \<noteq> ''git'' then p
                       else p\<lparr>pp_git_snapshot := Some (git_snapshot env target (pp_asset_path p))\<rparr>);
                 t' = t\<lparr>txn_journal_of := (txn_journal_of t)\<lparr>payload := ProposalPayload p'\<rparr>\<rparr>
             in advance t' ''asset-published'')))
       (abandon_txn env t p))"

section \<open>Completing an accepted or reverted proposal\<close>

definition validate_published_proposal :: "'e proposal_env_scheme \<Rightarrow> proposal_payload \<Rightarrow> unit act" where
  "validate_published_proposal env p = andthen (reading (current_hash env (pp_asset_path p))) (\<lambda>current.
     if current \<noteq> Some (pp_published_hash p) then raise ''Cannot recover proposal: published asset diverged.''
     else ret ())"

definition accepted_proposal ::
  "'e proposal_env_scheme \<Rightarrow> any_payload txn_journal \<Rightarrow> proposal_payload \<Rightarrow> proposal \<Rightarrow> string \<Rightarrow> string option \<Rightarrow> proposal" where
  "accepted_proposal env j p proposal published backup =
     (let persisted =
        (if prop_changes proposal \<noteq> [] \<and> list_all (\<lambda>c. fc_path c \<noteq> '''') (prop_changes proposal)
         then with_proposal_content proposal published
         else proposal\<lparr>prop_content := published,
                prop_changes := [\<lparr>fc_path = join_with ''/'' (relative_segs (resolve_segs (work_dir env) (journal_root j))
                                                              (resolve_segs (work_dir env) (pp_asset_path p))),
                                  fc_op = (if pp_original_hash p = None then Op_Create else Op_Update),
                                  fc_after = Some published\<rparr>],
                prop_proposed_target := Some (pp_target_source p, journal_root j)\<rparr>);
          accepted = with_gate (decided_at j) (pp_gate p) (persisted\<lparr>prop_status := Accepted, prop_updated_at := decided_at j,
            prop_review := Some \<lparr>review_accepted = True, review_reason = None, review_decided_at = decided_at j\<rparr>,
            prop_accepted_target := Some \<lparr>at_source = pp_target_source p, at_root = journal_root j,
                                          at_path = pp_asset_path p, at_hash = pp_published_hash p\<rparr>\<rparr>)
      in case backup of None \<Rightarrow> accepted | Some b \<Rightarrow> accepted\<lparr>prop_backup := Some b\<rparr>)"

definition reverted_proposal :: "any_payload txn_journal \<Rightarrow> proposal \<Rightarrow> proposal" where
  "reverted_proposal j current =
     current\<lparr>prop_status := Reverted, prop_updated_at := decided_at j,
       prop_review := Some \<lparr>review_accepted = False,
         review_reason = Some ''reverted: prior content restored from backup'', review_decided_at = decided_at j\<rparr>\<rparr>"

definition persist_proposal_state ::
  "'e proposal_env_scheme \<Rightarrow> any_payload txn_journal \<Rightarrow> proposal_payload \<Rightarrow> proposal \<Rightarrow> unit act" where
  "persist_proposal_state env j p proposal =
     andthen (case pp_backup_path p of None \<Rightarrow> ret None
              | Some b \<Rightarrow> andthen (read_file b) (\<lambda>text. ret (Some text))) (\<lambda>backup.
     andthen (read_file (pp_content_path p)) (\<lambda>published.
     andthen (get_proposal (pp_stash_dir p) (pp_proposal_id p)) (\<lambda>current.
       case pp_operation p of
         Accept \<Rightarrow>
           if prop_status current = Accepted then
             (if map_option at_hash (prop_accepted_target current) \<noteq> Some (pp_published_hash p)
              then raise ''Accepted proposal does not match its recovery journal.'' else ret ())
           else if prop_status current \<noteq> Pending then raise ''Proposal changed status during acceptance''
           else upsert_proposal (pp_stash_dir p) (accepted_proposal env j p proposal published backup)
       | Revert \<Rightarrow>
           if prop_status current = Reverted then ret ()
           else if prop_status current \<noteq> Accepted then raise ''Proposal changed status during reversion''
           else upsert_proposal (pp_stash_dir p) (reverted_proposal j current))))"

definition proposal_event_of :: "any_payload txn_journal \<Rightarrow> proposal_payload \<Rightarrow> proposal \<Rightarrow> proposal_event" where
  "proposal_event_of j p proposal =
     \<lparr>event_type = (case pp_operation p of Accept \<Rightarrow> ''promoted'' | Revert \<Rightarrow> ''proposal_reverted''),
      event_ts = decided_at j, event_ref = pp_ref p, event_proposal = prop_id proposal,
      event_source = prop_source proposal, event_key = transaction_id j\<rparr>"

text \<open>
  \<open>publishWriteTargetTransaction\<close> as this caller uses it: nothing for a target that is no Git checkout; else the
  commit is ensured, recorded in the journal when it is news, and pushed.
\<close>

definition record_commit :: "any_payload txn \<Rightarrow> proposal_payload \<Rightarrow> git_publication \<Rightarrow> string option \<Rightarrow> any_payload txn act" where
  "record_commit t p g commit =
     (if recorded_commit g = Some commit then ret t
      else advance (t\<lparr>txn_journal_of := (txn_journal_of t)\<lparr>payload := ProposalPayload
             (p\<lparr>pp_git_publication := Some (g\<lparr>recorded_commit := Some commit\<rparr>)\<rparr>)\<rparr>\<rparr>) ''asset-published'')"

definition publish_write_target ::
  "'e proposal_env_scheme \<Rightarrow> write_target \<Rightarrow> any_payload txn \<Rightarrow> proposal_payload \<Rightarrow> any_payload txn act" where
  "publish_write_target env target t p =
     (if wt_kind target \<noteq> ''git'' then ret t
      else case pp_git_publication p of
        None \<Rightarrow> raise ''Proposal transaction has no Git publication identity.''
      | Some g \<Rightarrow> (case ensure_commit env target p of
          Inl e \<Rightarrow> raise e
        | Inr commit \<Rightarrow> andthen (record_commit t p g commit) (\<lambda>t'.
            case push_commit env target (p\<lparr>pp_git_publication := Some (g\<lparr>recorded_commit := Some commit\<rparr>)\<rparr>) of Some e \<Rightarrow> raise e | None \<Rightarrow> ret t')))"

definition in_txn_phase :: "string \<Rightarrow> (any_payload txn \<Rightarrow> any_payload txn act) \<Rightarrow> any_payload txn \<Rightarrow> any_payload txn act" where
  "in_txn_phase ph act t = (if phase_of t = ph then act t else ret t)"

definition finalize_proposal_transaction ::
  "'e proposal_env_scheme \<Rightarrow> any_payload txn \<Rightarrow> write_target \<Rightarrow> proposal \<Rightarrow> any_payload txn act" where
  "finalize_proposal_transaction env t target proposal =
     with_proposal_payload t (\<lambda>p.
     andthen (validate_published_proposal env p) (\<lambda>_.
     andthen (cleanup_proposal_publication p) (\<lambda>_.
     andthen (in_txn_phase ''asset-published'' (\<lambda>t.
        andthen (publish_write_target env target t p) (\<lambda>t.
        andthen (persist_proposal_state env (txn_journal_of t) p proposal) (\<lambda>_.
          advance t ''proposal-persisted''))) t) (\<lambda>t.
     andthen (get_proposal (pp_stash_dir p) (pp_proposal_id p)) (\<lambda>_.
     andthen (in_txn_phase ''proposal-persisted'' (\<lambda>t.
        if \<not> index_assets env (journal_root (txn_journal_of t)) [pp_asset_path p]
        then raise ''Proposal index finalization failed.''
        else advance t ''index-finalized'') t) (\<lambda>t.
     andthen (in_txn_phase ''index-finalized'' (\<lambda>t.
        andthen (get_proposal (pp_stash_dir p) (pp_proposal_id p)) (\<lambda>accepted.
        andthen (insert_event_once (proposal_event_of (txn_journal_of t) p accepted)) (\<lambda>_.
          advance t ''event-finalized''))) t) (\<lambda>t.
     in_txn_phase ''event-finalized'' (\<lambda>t. advance t ''committed'') t)))))))"

text \<open>
  What \<open>promoteProposalWithLease\<close> and \<open>revertProposalWithLease\<close> do with a prepared transaction, and the tail of the
  first of them from the prepared target on.
\<close>

definition run_prepared_transaction ::
  "'e proposal_env_scheme \<Rightarrow> any_payload txn \<Rightarrow> write_target \<Rightarrow> proposal \<Rightarrow> any_payload txn_journal act" where
  "run_prepared_transaction env t target proposal =
     andthen (publish_proposal_asset env t target) (\<lambda>t.
     andthen (finalize_proposal_transaction env t target proposal) (\<lambda>t.
     andthen (cleanup_txn (txn_ns t) (txn_name t)) (\<lambda>_. ret (txn_journal_of t))))"

definition accept_transaction ::
  "'e proposal_env_scheme \<Rightarrow> string \<Rightarrow> write_target \<Rightarrow> proposal \<Rightarrow> string \<Rightarrow> string \<Rightarrow> string \<Rightarrow> string \<Rightarrow>
   gate_decision option \<Rightarrow> proposal act" where
  "accept_transaction env stash target p asset content tid decided gate =
     andthen (reading (file_text asset)) (\<lambda>backup.
     andthen (prepare_proposal_transaction env stash target p asset content tid decided Accept
                (map_option (sha256 env) backup) backup gate) (\<lambda>t.
     andthen (run_prepared_transaction env t target p) (\<lambda>_.
       get_proposal stash (prop_id p))))"

section \<open>Rejecting a proposal\<close>

definition reject_event_of :: "any_payload txn_journal \<Rightarrow> proposal \<Rightarrow> proposal_event" where
  "reject_event_of j p = \<lparr>event_type = ''rejected'', event_ts = decided_at j, event_ref = prop_ref p,
     event_proposal = prop_id p, event_source = prop_source p, event_key = transaction_id j\<rparr>"

definition finalize_reject_transaction :: "any_payload txn \<Rightarrow> reject_payload \<Rightarrow> any_payload txn act" where
  "finalize_reject_transaction t p =
     andthen (get_proposal (rp_stash_dir p) (rp_proposal_id p)) (\<lambda>proposal.
     andthen (in_txn_phase ''prepared'' (\<lambda>t.
        andthen
          (if prop_status proposal = Pending
           then andthen (archive_proposal (rp_stash_dir p) (rp_proposal_id p) Rejected (rp_reason p)
                  (decided_at (txn_journal_of t)) (rp_gate p)) (\<lambda>_. ret ())
           else if prop_status proposal \<noteq> Rejected then raise ''Proposal changed status during rejection'' else ret ())
          (\<lambda>_. advance t ''state-persisted'')) t) (\<lambda>t.
     andthen (in_txn_phase ''state-persisted'' (\<lambda>t.
        andthen (get_proposal (rp_stash_dir p) (rp_proposal_id p)) (\<lambda>proposal.
        andthen (insert_event_once (reject_event_of (txn_journal_of t) proposal)) (\<lambda>_.
          advance t ''event-finalized''))) t) (\<lambda>t.
     in_txn_phase ''event-finalized'' (\<lambda>t. advance t ''committed'') t)))"

definition is_reject_of :: "string \<Rightarrow> any_payload txn_journal \<Rightarrow> reject_payload option" where
  "is_reject_of pid j = (case payload j of
     RejectPayload r \<Rightarrow> if journal_kind j = reject_txn_kind \<and> rp_proposal_id r = pid then Some r else None
   | ProposalPayload p \<Rightarrow> None)"

text \<open>
  \<open>recoverRejectTransaction\<close>: the first directory whose journal is a rejection of this proposal is completed.  The
  journals of other kinds are skipped, damaged ones raise.
\<close>

fun recover_reject_entries ::
  "'e proposal_env_scheme \<Rightarrow> string \<Rightarrow> string \<Rightarrow> string \<Rightarrow> (string \<times> bool) list \<Rightarrow> proposal option act" where
  "recover_reject_entries env stash pid ns [] = ret None"
| "recover_reject_entries env stash pid ns ((name, dir) # rest) =
     (if \<not> dir then recover_reject_entries env stash pid ns rest
      else andthen (reading (found_journal ns name)) (\<lambda>found.
        case found of
          None \<Rightarrow> recover_reject_entries env stash pid ns rest
        | Some (Unparsable e) \<Rightarrow> raise e
        | Some (Parsed j) \<Rightarrow>
            (case is_reject_of pid j of
               None \<Rightarrow> recover_reject_entries env stash pid ns rest
             | Some r \<Rightarrow>
                 if journal_version j \<noteq> 1
                    \<or> resolve_segs (work_dir env) (rp_stash_dir r) \<noteq> resolve_segs (work_dir env) stash
                 then raise ''Refusing unsafe proposal rejection journal''
                 else andthen (finalize_reject_transaction \<lparr>txn_journal_of = j, txn_ns = ns, txn_name = name\<rparr> r) (\<lambda>t.
                      andthen (get_proposal stash pid) (\<lambda>p.
                      andthen (cleanup_txn ns name) (\<lambda>_. ret (Some p)))))))"

definition recover_reject_transaction :: "'e proposal_env_scheme \<Rightarrow> string \<Rightarrow> string \<Rightarrow> proposal option act" where
  "recover_reject_transaction env stash pid =
     (let ns = txn_namespace_dir env stash
      in andthen (reading (\<lambda>w. map (\<lambda>(n, d). (n, is_directory d)) (ns_entries ns w))) (\<lambda>listed.
           recover_reject_entries env stash pid ns listed))"

definition reject_proposal_durably ::
  "'e proposal_env_scheme \<Rightarrow> string \<Rightarrow> string \<Rightarrow> string option \<Rightarrow> gate_decision option \<Rightarrow> string \<Rightarrow> string \<Rightarrow> proposal act" where
  "reject_proposal_durably env stash pid reason gate tid decided =
     andthen (recover_reject_transaction env stash pid) (\<lambda>recovered.
       case recovered of
         Some p \<Rightarrow> ret p
       | None \<Rightarrow>
           andthen (get_proposal stash pid) (\<lambda>proposal.
             if prop_status proposal \<noteq> Pending then raise ''Proposal is not pending''
             else (let rp = \<lparr>rp_proposal_id = pid, rp_stash_dir = stash, rp_reason = reason, rp_gate = gate\<rparr>
                   in andthen (begin_txn env kind_phases reject_txn_kind stash [] (RejectPayload rp) decided tid) (\<lambda>t.
                      andthen (finalize_reject_transaction t rp) (\<lambda>t.
                      andthen (cleanup_txn (txn_ns t) (txn_name t)) (\<lambda>_.
                        get_proposal stash pid))))))"

section \<open>The registered kinds\<close>

definition recovery_target :: "'e proposal_env_scheme \<Rightarrow> any_payload txn_journal \<Rightarrow> proposal_payload \<Rightarrow> write_target act" where
  "recovery_target env j p = (case bundle_target env (pp_target_source p) of
     None \<Rightarrow> raise ''Proposal transaction target is no longer configured.''
   | Some target \<Rightarrow> ret target)"

definition recover_finalize_proposal ::
  "'e proposal_env_scheme \<Rightarrow> any_payload txn \<Rightarrow> any_payload txn_journal act" where
  "recover_finalize_proposal env t = (case payload (txn_journal_of t) of
     RejectPayload r \<Rightarrow> raise ''TypeError''
   | ProposalPayload p \<Rightarrow>
       andthen (recovery_target env (txn_journal_of t) p) (\<lambda>target.
       andthen (if phase_of t = ''asset-published''
                then (case prepare_target env target of Inl e \<Rightarrow> raise e | Inr target' \<Rightarrow> ret target')
                else ret target) (\<lambda>target.
         if canonical_txn_root env (wt_root target) \<noteq> canonical_txn_root env (journal_root (txn_journal_of t))
            \<or> pp_target_kind p \<noteq> wt_kind target
         then raise ''Proposal transaction is bound to a different target root.''
         else andthen (get_proposal (pp_stash_dir p) (pp_proposal_id p)) (\<lambda>proposal.
              andthen (finalize_proposal_transaction env t target proposal) (\<lambda>t.
              andthen (cleanup_proposal_publication p) (\<lambda>_. ret (txn_journal_of t)))))))"

definition recover_rollback_proposal :: "'e proposal_env_scheme \<Rightarrow> any_payload txn \<Rightarrow> unit act" where
  "recover_rollback_proposal env t = (case payload (txn_journal_of t) of
     RejectPayload r \<Rightarrow> raise ''TypeError'' | ProposalPayload p \<Rightarrow> rollback_prepared_proposal env p)"

definition recover_finalize_reject :: "any_payload txn \<Rightarrow> any_payload txn_journal act" where
  "recover_finalize_reject t = (case payload (txn_journal_of t) of
     ProposalPayload p \<Rightarrow> raise ''TypeError''
   | RejectPayload r \<Rightarrow> andthen (finalize_reject_transaction t r) (\<lambda>t. ret (txn_journal_of t)))"

definition proposal_handler :: "'e proposal_env_scheme \<Rightarrow> (any_payload, proposal_db) kind_handler" where
  "proposal_handler env = \<lparr>phases = proposal_txn_phases, commit_phase = ''asset-published'',
     validate = Some (fence_proposal_txn_journal env),
     rollback = recover_rollback_proposal env, finalize = recover_finalize_proposal env\<rparr>"

definition reject_handler :: "(any_payload, proposal_db) kind_handler" where
  "reject_handler = \<lparr>phases = reject_txn_phases, commit_phase = ''prepared'', validate = None,
     rollback = (\<lambda>t. ret ()), finalize = recover_finalize_reject\<rparr>"

definition proposal_kinds :: "'e proposal_env_scheme \<Rightarrow> (any_payload, proposal_db) kinds" where
  "proposal_kinds env kind = (if kind = proposal_txn_kind then Some (proposal_handler env)
     else if kind = reject_txn_kind then Some reject_handler else None)"

section \<open>The handlers keep the engine's contract\<close>

text \<open>Each operation works on the files, the database and its own transaction directory.\<close>

lemma step_beside:
  assumes "\<And>w n. same_beside ns name w (f (w\<lparr>steps_left := n\<rparr>))"
  shows "keeps (same_beside ns name) (\<lambda>_. True) (step_durably f)"
  by (rule keeps_step_durably [OF beside.rel_refl assms])

lemmas beside_intros = beside.keeps_ret beside.keeps_raise beside.keeps_reading beside.keeps_for_each step_beside beside_updates

lemma file_ops_beside:
  "keeps (same_beside ns name) (\<lambda>_. True) (read_file p)"
  "keeps (same_beside ns name) (\<lambda>_. True) (unlink_file p)"
  "keeps (same_beside ns name) (\<lambda>_. True) (remove_file p)"
  "keeps (same_beside ns name) (\<lambda>_. True) (link_file p q)"
  unfolding read_file_def unlink_file_def remove_file_def link_file_def
  by (auto intro!: beside.keeps_andthen [where mid = "\<lambda>_. True"] beside_intros split: option.split)

lemma db_ops_beside:
  "keeps (same_beside ns name) (\<lambda>_. True) (get_proposal s i)"
  "keeps (same_beside ns name) (\<lambda>_. True) (upsert_proposal s r)"
  "keeps (same_beside ns name) (\<lambda>_. True) (insert_event_once e)"
  unfolding get_proposal_def upsert_proposal_def insert_event_once_def
  by (auto intro!: beside.keeps_andthen [where mid = "\<lambda>_. True"] beside_intros split: option.split)

lemma archive_beside: "keeps (same_beside ns name) (\<lambda>_. True) (archive_proposal s i st re d g)"
  unfolding archive_proposal_def Let_def
  by (auto intro!: beside.keeps_andthen [where mid = "\<lambda>_. True"] beside_intros db_ops_beside)

lemma cleanup_publication_beside: "keeps (same_beside ns name) (\<lambda>_. True) (cleanup_proposal_publication p)"
  unfolding cleanup_proposal_publication_def by (rule beside.keeps_for_each [OF file_ops_beside(3)])

lemma rollback_keeps_beside: "keeps (same_beside ns name) (\<lambda>_. True) (rollback_prepared_proposal env p)"
  unfolding rollback_prepared_proposal_def
  by (auto intro!: beside.keeps_andthen [where mid = "\<lambda>_. True"] beside_intros file_ops_beside cleanup_publication_beside
      split: option.split)

lemma persist_beside: "keeps (same_beside ns name) (\<lambda>_. True) (persist_proposal_state env j p r)"
  unfolding persist_proposal_state_def
  by (auto intro!: beside.keeps_andthen [where mid = "\<lambda>_. True"] beside_intros file_ops_beside db_ops_beside
      split: option.split txn_operation.split)

text \<open>Operations that pass the open transaction on keep its place.\<close>

definition placed :: "string \<Rightarrow> string \<Rightarrow> 'p txn \<Rightarrow> bool" where
  "placed ns name t \<longleftrightarrow> txn_ns t = ns \<and> txn_name t = name"

lemma advance_placed: "placed ns name t \<Longrightarrow> keeps (same_beside ns name) (placed ns name) (advance t ph)"
  using advance_beside [of t kind_phases ph] by (simp add: advance_def placed_def [abs_def])

lemma in_txn_phase_placed:
  assumes "placed ns name t" "\<And>t. placed ns name t \<Longrightarrow> keeps (same_beside ns name) (placed ns name) (act t)"
  shows "keeps (same_beside ns name) (placed ns name) (in_txn_phase ph act t)"
  using assms by (auto simp: in_txn_phase_def intro: beside.keeps_ret)

lemma publish_target_placed:
  "placed ns name t \<Longrightarrow> keeps (same_beside ns name) (placed ns name) (publish_write_target env target t p)"
  unfolding publish_write_target_def record_commit_def
  by (auto intro!: beside.keeps_andthen [where mid = "placed ns name"] beside_intros advance_placed
      split: option.split sum.split) (auto simp: placed_def)

lemma finalize_placed:
  assumes t: "placed ns name t"
  shows "keeps (same_beside ns name) (placed ns name) (finalize_proposal_transaction env t target r)"
  unfolding finalize_proposal_transaction_def with_proposal_payload_def validate_published_proposal_def
  using t
  by (auto intro!: beside.keeps_andthen [where mid = "\<lambda>_. True" and m = "reading f" for f]
      beside.keeps_andthen [where mid = "\<lambda>_. True" and m = "andthen a b" for a b]
      beside.keeps_andthen [where mid = "\<lambda>_. True" and m = "get_proposal s i" for s i]
      beside.keeps_andthen [where mid = "\<lambda>_. True" and m = "insert_event_once e" for e]
      beside.keeps_andthen [where mid = "\<lambda>_. True" and m = "persist_proposal_state e j q r" for e j q r]
      beside.keeps_andthen [where mid = "\<lambda>_. True" and m = "cleanup_proposal_publication q" for q]
      beside.keeps_andthen [where mid = "placed ns name" and m = "in_txn_phase a b c" for a b c]
      beside.keeps_andthen [where mid = "placed ns name" and m = "publish_write_target a b c d" for a b c d]
      beside_intros db_ops_beside persist_beside cleanup_publication_beside in_txn_phase_placed advance_placed publish_target_placed
      split: any_payload.split)


lemma finalize_reject_placed:
  assumes t: "placed ns name t"
  shows "keeps (same_beside ns name) (placed ns name) (finalize_reject_transaction t p)"
  unfolding finalize_reject_transaction_def
  using t
  by (auto intro!: beside.keeps_andthen [where mid = "\<lambda>_. True" and m = "get_proposal s i" for s i]
      beside.keeps_andthen [where mid = "\<lambda>_. True" and m = "archive_proposal s i a b c d" for s i a b c d]
      beside.keeps_andthen [where mid = "\<lambda>_. True" and m = "insert_event_once e" for e]
      beside.keeps_andthen [where mid = "\<lambda>_. True" and m = "if a then b else c" for a b c]
      beside.keeps_andthen [where mid = "placed ns name" and m = "in_txn_phase a b c" for a b c]
      beside_intros db_ops_beside archive_beside in_txn_phase_placed advance_placed)

lemma recover_finalize_placed:
  "keeps (same_beside (txn_ns t) (txn_name t)) (\<lambda>_. True) (recover_finalize_proposal env t)"
  "keeps (same_beside (txn_ns t) (txn_name t)) (\<lambda>_. True) (recover_finalize_reject t)"
proof -
  have t: "placed (txn_ns t) (txn_name t) t" by (simp add: placed_def)
  show "keeps (same_beside (txn_ns t) (txn_name t)) (\<lambda>_. True) (recover_finalize_proposal env t)"
    unfolding recover_finalize_proposal_def recovery_target_def
    by (auto intro!: beside.keeps_andthen [where mid = "\<lambda>_. True"] beside_intros db_ops_beside cleanup_publication_beside
        keeps_weaken [OF finalize_placed [OF t]] split: any_payload.split option.split sum.split)
  show "keeps (same_beside (txn_ns t) (txn_name t)) (\<lambda>_. True) (recover_finalize_reject t)"
    unfolding recover_finalize_reject_def
    by (auto intro!: beside.keeps_andthen [where mid = "\<lambda>_. True"] beside_intros
        keeps_weaken [OF finalize_reject_placed [OF t]] split: any_payload.split)
qed

interpretation proposal_registry: txn_registry "proposal_kinds env" for env :: "'e proposal_env_scheme"
proof
  fix k h and t :: "any_payload txn"
  assume h: "proposal_kinds env k = Some h"
  show "keeps (same_beside (txn_ns t) (txn_name t)) (\<lambda>_. True) (rollback h t)"
    using h by (auto simp: proposal_kinds_def proposal_handler_def reject_handler_def recover_rollback_proposal_def
      intro!: beside_intros rollback_keeps_beside split: if_splits any_payload.split)
  show "keeps (same_beside (txn_ns t) (txn_name t)) (\<lambda>_. True) (finalize h t)"
    using h by (auto simp: proposal_kinds_def proposal_handler_def reject_handler_def
      intro: recover_finalize_placed split: if_splits)
qed

end
