(* ===== verification/Proposal_Recovery.thy ===== *)
theory Proposal_Recovery
  imports Proposal_Txn
begin

text \<open>
  The states an interrupted publication or completion can leave on disk are described as stages; each operation of
  \<open>Proposal_Txn\<close> is shown to run from stage to stage within a fixed number of durable steps, wherever it dies.
\<close>

section \<open>Stages\<close>

definition txn_files :: "proposal_payload \<Rightarrow> store \<Rightarrow> nat option \<times> nat option \<times> nat option" where
  "txn_files p w = (dir_entries w (pp_asset_path p), dir_entries w (pp_publish_path p), dir_entries w (pp_displaced_path p))"

text \<open>
  Everything about a transaction that publishing and recovery leave alone: the three paths differ and lie
  outside the transaction directory, which holds the content and the backup; the inodes of the old and the
  new content keep their text.
\<close>

definition txn_disk ::
  "'e proposal_env_scheme \<Rightarrow> string \<Rightarrow> proposal_payload \<Rightarrow> nat option \<Rightarrow> nat \<Rightarrow> store \<Rightarrow> bool" where
  "txn_disk env dir p old new w \<longleftrightarrow>
     distinct [pp_asset_path p, pp_publish_path p, pp_displaced_path p] \<and>
     list_all (\<lambda>q. \<not> js_starts_with (dir @ ''/'') q) [pp_asset_path p, pp_publish_path p, pp_displaced_path p] \<and>
     pp_original_hash p = map_option (\<lambda>i. sha256 env (inodes w i)) old \<and>
     pp_published_hash p = sha256 env (inodes w new) \<and> old \<noteq> Some new"

lemma txn_disk_updates [txn_store]:
  "txn_disk env dir p old new (w\<lparr>steps_left := n\<rparr>) = txn_disk env dir p old new w"
  "txn_disk env dir p old new (w\<lparr>dir_entries := f\<rparr>) = txn_disk env dir p old new w"
  "txn_disk env dir p old new (w\<lparr>database := d\<rparr>) = txn_disk env dir p old new w"
  "txn_disk env dir p old new (put_journal ns name j w) = txn_disk env dir p old new w"
  "txn_disk env dir p old new (drop_files_under e w) = txn_disk env dir p old new w"
  "txn_disk env dir p old new (drop_txn_dir ns name w) = txn_disk env dir p old new w"
  "txn_disk env dir p old new (drop_empty_ns ns w) = txn_disk env dir p old new w"
  by (simp_all add: txn_disk_def txn_store)

text \<open>The places of the two contents while the journal still says \<open>prepared\<close>.\<close>

definition unpublished :: "nat option \<Rightarrow> nat \<Rightarrow> nat option \<times> nat option \<times> nat option \<Rightarrow> bool" where
  "unpublished old new fs \<longleftrightarrow> fs \<in> {(old, Some new, None), (old, None, None)}
     \<or> (case old of None \<Rightarrow> fs = (Some new, Some new, None)
        | Some i \<Rightarrow> fs \<in> {(None, Some new, Some i), (Some new, Some new, Some i)})"

lemmas file_op_defs = rename_file_def link_file_def unlink_file_def remove_file_def read_file_def file_exists_def
  file_text_def current_hash_def same_proposal_file_def proposal_file_hash_def

lemma txn_paths_differ:
  assumes "txn_disk env dir p old new w"
  shows "pp_asset_path p \<noteq> pp_publish_path p" "pp_publish_path p \<noteq> pp_asset_path p"
    "pp_asset_path p \<noteq> pp_displaced_path p" "pp_displaced_path p \<noteq> pp_asset_path p"
    "pp_publish_path p \<noteq> pp_displaced_path p" "pp_displaced_path p \<noteq> pp_publish_path p"
  using assms by (auto simp: txn_disk_def)

text \<open>
  Rolling back from every place a publication can have stopped.  When it dies on the way, the old content is
  still at the asset path or at the displaced path; without old content it dies in a state it can start from again.
\<close>

definition old_survives :: "nat option \<Rightarrow> nat option \<times> nat option \<times> nat option \<Rightarrow> bool" where
  "old_survives old fs \<longleftrightarrow> (case old of None \<Rightarrow> True | Some i \<Rightarrow> fst fs = Some i \<or> snd (snd fs) = Some i)"

lemma rollback_restores:
  assumes "txn_disk env dir p old new w" "unpublished old new (txn_files p w)"
  shows "runs_within 4 (rollback_prepared_proposal env p)
     (\<lambda>w'. old_survives old (txn_files p w') \<and> (old = None \<longrightarrow> unpublished old new (txn_files p w'))
        \<and> txn_disk env dir p old new w' \<and> namespaces w' = namespaces w \<and> database w' = database w)
     (\<lambda>_ w'. txn_files p w' = (old, None, None) \<and> txn_disk env dir p old new w'
        \<and> namespaces w' = namespaces w \<and> database w' = database w) w"
proof -
  note d = txn_paths_differ [OF assms(1)]
  note defs = runs_within_def costs_def rollback_prepared_proposal_def prog_wp file_op_defs txn_files_def
    cleanup_proposal_publication_def txn_disk_def txn_store d old_survives_def unpublished_def
  show ?thesis
  proof (cases old)
    case None
    then consider "txn_files p w = (None, Some new, None)" | "txn_files p w = (None, None, None)" | "txn_files p w = (Some new, Some new, None)"
      using assms(2) by (auto simp: unpublished_def)
    then show ?thesis using assms(1) None by cases (simp_all add: defs)
  next
    case (Some i)
    then consider "txn_files p w = (Some i, Some new, None)" | "txn_files p w = (Some i, None, None)"
      | "txn_files p w = (None, Some new, Some i)" | "txn_files p w = (Some new, Some new, Some i)"
      using assms(2) by (auto simp: unpublished_def)
    then show ?thesis using assms(1) Some
      by cases (simp_all add: defs)
  qed
qed

section \<open>Publishing\<close>

text \<open>The transaction as it is open in memory while its journal shows \<open>ph\<close>.\<close>

definition open_txn :: "string \<Rightarrow> string \<Rightarrow> any_payload txn_journal \<Rightarrow> string \<Rightarrow> any_payload txn" where
  "open_txn ns name j ph = \<lparr>txn_journal_of = j\<lparr>journal_phase := ph\<rparr>, txn_ns = ns, txn_name = name\<rparr>"

lemma open_txn_simps [simp]:
  "txn_journal_of (open_txn ns name j ph) = j\<lparr>journal_phase := ph\<rparr>"
  "txn_ns (open_txn ns name j ph) = ns" "txn_name (open_txn ns name j ph) = name"
  "phase_of (open_txn ns name j ph) = ph"
  by (simp_all add: open_txn_def phase_of_def)

lemma open_txn_reopen [simp]:
  "(open_txn ns name j ph)\<lparr>txn_journal_of := j\<lparr>journal_phase := to\<rparr>\<rparr> = open_txn ns name j to"
  by (simp add: open_txn_def)

definition prepared_stage ::
  "'e proposal_env_scheme \<Rightarrow> string \<Rightarrow> string \<Rightarrow> any_payload txn_journal \<Rightarrow> proposal_payload \<Rightarrow> nat option \<Rightarrow> nat \<Rightarrow>
   proposal_db \<Rightarrow> store \<Rightarrow> bool" where
  "prepared_stage env ns name j p old new db w \<longleftrightarrow>
     txn_disk env (joined ns name) p old new w \<and> unpublished old new (txn_files p w) \<and>
     holds_only ns name (j\<lparr>journal_phase := ''prepared''\<rparr>) w \<and> database w = db"

lemma kind_phases_simps [simp]:
  "kind_phases proposal_txn_kind = Some proposal_txn_phases" "kind_phases reject_txn_kind = Some reject_txn_phases"
  by (simp_all add: kind_phases_def proposal_txn_kind_def reject_txn_kind_def)

lemma advance_wp:
  assumes "journal_kind j = proposal_txn_kind \<and> to \<in> set proposal_txn_phases
    \<or> journal_kind j = reject_txn_kind \<and> to \<in> set reject_txn_phases"
  shows "wp (advance (open_txn ns name j ph) to) Q w =
    (if steps_left w = 0 then Q Crashed w
     else Q (Done (open_txn ns name j to))
            (put_journal ns name (j\<lparr>journal_phase := to\<rparr>) (w\<lparr>steps_left := steps_left w - 1\<rparr>)))"
  using assms by (auto simp: advance_def advance_txn_def require_kind_def prog_wp write_journal_def Let_def)

lemmas advance_proposal_wp = advance_wp [OF disjI1, OF conjI]
lemmas advance_reject_wp = advance_wp [OF disjI2, OF conjI]

lemma phase_members [simp]:
  "''asset-published'' \<in> set proposal_txn_phases" "''proposal-persisted'' \<in> set proposal_txn_phases"
  "''index-finalized'' \<in> set proposal_txn_phases" "''event-finalized'' \<in> set proposal_txn_phases"
  "''committed'' \<in> set proposal_txn_phases"
  "''state-persisted'' \<in> set reject_txn_phases" "''event-finalized'' \<in> set reject_txn_phases"
  "''committed'' \<in> set reject_txn_phases"
  by (simp_all add: proposal_txn_phases_def reject_txn_phases_def)

definition sidecars_there :: "string \<Rightarrow> proposal_payload \<Rightarrow> (string \<Rightarrow> nat option) \<Rightarrow> bool" where
  "sidecars_there dir p f \<longleftrightarrow> list_all (\<lambda>q. js_starts_with (dir @ ''/'') q \<and> f q \<noteq> None)
     (pp_content_path p # (case pp_backup_path p of None \<Rightarrow> [] | Some b \<Rightarrow> [b]))"

lemma sidecars_there_upd [simp]:
  "\<not> js_starts_with (dir @ ''/'') q \<Longrightarrow> sidecars_there dir p (f(q := x)) = sidecars_there dir p f"
  by (auto simp: sidecars_there_def split: option.splits)

lemma publish_runs:
  assumes j: "journal_kind j = proposal_txn_kind" "payload j = ProposalPayload p"
    and target: "wt_kind target \<noteq> ''git''"
    and disk: "txn_disk env (joined ns name) p old new w" "txn_files p w = (old, Some new, None)"
    and held: "holds_only ns name (j\<lparr>journal_phase := ''prepared''\<rparr>) w"
    and side: "sidecars_there (joined ns name) p (dir_entries w)"
  shows "runs_within 3 (publish_proposal_asset env (open_txn ns name j ''prepared'') target)
      (prepared_stage env ns name j p old new (database w))
      (\<lambda>t w'. t = open_txn ns name j ''asset-published''
         \<and> txn_files p w' = (Some new, Some new, old) \<and> database w' = database w
         \<and> txn_disk env (joined ns name) p old new w' \<and> holds_only ns name (j\<lparr>journal_phase := ''asset-published''\<rparr>) w'
         \<and> sidecars_there (joined ns name) p (dir_entries w')) w"
    (is "runs_within 3 ?m ?crash ?done w")
proof -
  note d = txn_paths_differ [OF disk(1)]
  have reopen: "(open_txn ns name j ''prepared'')\<lparr>txn_journal_of := j\<lparr>journal_phase := ''prepared'', payload := ProposalPayload p\<rparr>\<rparr>
      = open_txn ns name j ''prepared''"
    using j(2) by (simp add: open_txn_def)
  define Q where "Q = (\<lambda>r w'. costs 3 w r w' \<and> (case r of Done a \<Rightarrow> ?done a w' | Crashed \<Rightarrow> ?crash w' | Threw e \<Rightarrow> False))"
  note run = Let_def publish_proposal_asset_def with_proposal_payload_def prog_wp file_op_defs advance_proposal_wp reopen d
  have "wp ?m Q w"
    using disk j target
    by (cases old; simp add: run txn_files_def txn_disk_def;
        auto simp: Q_def costs_def prepared_stage_def txn_files_def unpublished_def txn_disk_def txn_store d held side
          holds_only_only [OF held])
  then show ?thesis unfolding runs_within_def Q_def .
qed

section \<open>Completing\<close>

definition proposal_row_is :: "(proposal \<Rightarrow> bool) \<Rightarrow> proposal_payload \<Rightarrow> proposal_db \<Rightarrow> bool" where
  "proposal_row_is ok p db \<longleftrightarrow> (case proposals db (pp_proposal_id p, pp_stash_dir p) of
     None \<Rightarrow> False | Some r \<Rightarrow> prop_id r = pp_proposal_id p \<and> ok r)"

definition open_row :: "proposal_payload \<Rightarrow> proposal \<Rightarrow> bool" where
  "open_row p r \<longleftrightarrow> prop_status r = (case pp_operation p of Accept \<Rightarrow> Pending | Revert \<Rightarrow> Accepted)"

definition settled_row :: "proposal_payload \<Rightarrow> proposal \<Rightarrow> bool" where
  "settled_row p r \<longleftrightarrow> (case pp_operation p of
     Accept \<Rightarrow> prop_status r = Accepted \<and> map_option at_hash (prop_accepted_target r) = Some (pp_published_hash p)
   | Revert \<Rightarrow> prop_status r = Reverted)"

definition event_count :: "proposal_payload \<Rightarrow> any_payload txn_journal \<Rightarrow> proposal_db \<Rightarrow> nat" where
  "event_count p j db = length (filter (\<lambda>e.
     event_type e = (case pp_operation p of Accept \<Rightarrow> ''promoted'' | Revert \<Rightarrow> ''proposal_reverted'')
     \<and> event_ref e = pp_ref p \<and> event_key e = transaction_id j) (events db))"

definition db_at :: "proposal_payload \<Rightarrow> any_payload txn_journal \<Rightarrow> string \<Rightarrow> proposal_db \<Rightarrow> bool" where
  "db_at p j ph db \<longleftrightarrow>
     (if ph = ''asset-published'' then event_count p j db = 0 \<and> (proposal_row_is (open_row p) p db \<or> proposal_row_is (settled_row p) p db)
      else proposal_row_is (settled_row p) p db \<and>
        (if ph = ''proposal-persisted'' then event_count p j db = 0
         else if ph = ''index-finalized'' then event_count p j db \<le> 1
         else event_count p j db = 1))"

definition at_phase ::
  "'e proposal_env_scheme \<Rightarrow> string \<Rightarrow> string \<Rightarrow> any_payload txn_journal \<Rightarrow> proposal_payload \<Rightarrow> nat option \<Rightarrow> nat \<Rightarrow>
   string \<Rightarrow> store \<Rightarrow> bool" where
  "at_phase env ns name j p old new ph w \<longleftrightarrow>
     txn_disk env (joined ns name) p old new w \<and> holds_only ns name (j\<lparr>journal_phase := ph\<rparr>) w \<and>
     dir_entries w (pp_asset_path p) = Some new \<and>
     dir_entries w (pp_publish_path p) \<in> {None, Some new} \<and> dir_entries w (pp_displaced_path p) \<in> {None, old} \<and>
     (ph \<noteq> ''asset-published'' \<longrightarrow> dir_entries w (pp_publish_path p) = None \<and> dir_entries w (pp_displaced_path p) = None) \<and>
     (ph = ''asset-published'' \<longrightarrow> sidecars_there (joined ns name) p (dir_entries w)) \<and>
     db_at p j ph (database w)"

lemma row_settles [simp]:
  "prop_status (accepted_proposal env j p proposal published backup) = Accepted"
  "prop_id (accepted_proposal env j p proposal published backup) = prop_id proposal"
  "map_option at_hash (prop_accepted_target (accepted_proposal env j p proposal published backup)) = Some (pp_published_hash p)"
  "prop_status (reverted_proposal j r) = Reverted"
  "prop_id (reverted_proposal j r) = prop_id r"
  by (simp_all add: accepted_proposal_def reverted_proposal_def with_gate_def with_proposal_content_def Let_def
      split: option.split)

lemma event_there:
  "list_ex (same_event (proposal_event_of (j\<lparr>journal_phase := ph\<rparr>) p r)) (events db) \<longleftrightarrow> event_count p j db \<noteq> 0"
proof -
  have "same_event (proposal_event_of (j\<lparr>journal_phase := ph\<rparr>) p r) =
    (\<lambda>e. event_type e = (case pp_operation p of Accept \<Rightarrow> ''promoted'' | Revert \<Rightarrow> ''proposal_reverted'')
       \<and> event_ref e = pp_ref p \<and> event_key e = transaction_id j)"
    by (auto simp: same_event_def proposal_event_of_def fun_eq_iff)
  then show ?thesis by (simp add: event_count_def list_ex_iff filter_empty_conv) blast
qed

lemma event_added:
  "event_count p j (db\<lparr>events := events db @ [proposal_event_of (j\<lparr>journal_phase := ph\<rparr>) p r]\<rparr>) = Suc (event_count p j db)"
  by (simp add: event_count_def proposal_event_of_def)


text \<open>The four stretches of the completion, each from one phase to the next.\<close>

lemma clean_stretch:
  assumes "at_phase env ns name j p old new ph w"
  shows "runs_within 2 (cleanup_proposal_publication p) (at_phase env ns name j p old new ph)
    (\<lambda>_ w'. at_phase env ns name j p old new ph w' \<and> txn_files p w' = (Some new, None, None)) w"
proof -
  have disk: "txn_disk env (joined ns name) p old new w" using assms by (simp add: at_phase_def)
  note d = txn_paths_differ [OF disk]
  have "\<not> js_starts_with (joined ns name @ ''/'') (pp_publish_path p)" "\<not> js_starts_with (joined ns name @ ''/'') (pp_displaced_path p)"
    using disk by (auto simp: txn_disk_def)
  then show ?thesis using assms
    by (auto simp: runs_within_def costs_def cleanup_proposal_publication_def remove_file_def prog_wp at_phase_def
        txn_store d txn_files_def)
qed

lemma publish_write_target_none: "wt_kind target \<noteq> ''git'' \<Longrightarrow> publish_write_target env target t p = ret t"
  by (simp add: publish_write_target_def)

lemma put_row [simp]:
  "prop_id r = pp_proposal_id p \<Longrightarrow> proposal_row_is ok p (put_proposal (pp_stash_dir p) r db) = ok r"
  "event_count p j (put_proposal stash r db) = event_count p j db"
  by (simp_all add: proposal_row_is_def put_proposal_def event_count_def)

lemma settled_row_simps [simp]:
  "pp_operation p = Accept \<Longrightarrow> settled_row p (accepted_proposal env j p proposal published backup)"
  "pp_operation p = Revert \<Longrightarrow> settled_row p (reverted_proposal j r)"
  by (simp_all add: settled_row_def)

lemma at_phase_database:
  "at_phase env ns name j p old new ph (w\<lparr>steps_left := n, database := db\<rparr>) \<longleftrightarrow>
     at_phase env ns name j p old new ph (w\<lparr>database := db\<rparr>)"
  "at_phase env ns name j p old new ph w \<Longrightarrow> db_at p j ph db \<Longrightarrow> at_phase env ns name j p old new ph (w\<lparr>database := db\<rparr>)"
  "at_phase env ns name j p old new ph (w\<lparr>steps_left := n\<rparr>) = at_phase env ns name j p old new ph w"
  by (simp_all add: at_phase_def txn_store)

lemma persist_runs:
  assumes proposal: "prop_id proposal = pp_proposal_id p"
    and at: "at_phase env ns name j p old new ''asset-published'' w"
  shows "runs_within 1 (persist_proposal_state env j' p proposal)
     (at_phase env ns name j p old new ''asset-published'')
     (\<lambda>_ w'. at_phase env ns name j p old new ''asset-published'' w' \<and> proposal_row_is (settled_row p) p (database w')
        \<and> txn_files p w' = txn_files p w) w"
    (is "runs_within 1 ?m ?crash ?done w")
proof -
  obtain r where r: "proposals (database w) (pp_proposal_id p, pp_stash_dir p) = Some r" "prop_id r = pp_proposal_id p"
    "open_row p r \<or> settled_row p r"
    using at by (auto simp: at_phase_def db_at_def proposal_row_is_def split: option.splits)
  obtain c where c: "dir_entries w (pp_content_path p) = Some c"
    using at by (auto simp: at_phase_def sidecars_there_def)
  have b: "pp_backup_path p = Some q \<Longrightarrow> \<exists>i. dir_entries w q = Some i" for q
    using at by (auto simp: at_phase_def sidecars_there_def)
  have count: "event_count p j (database w) = 0" using at by (simp add: at_phase_def db_at_def)
  have settled: "?done () w" if "settled_row p r"
    using that r at by (simp add: proposal_row_is_def)
  have upsert: "runs_within 1 (upsert_proposal (pp_stash_dir p) r') ?crash ?done w"
    if "settled_row p r'" "prop_id r' = pp_proposal_id p" for r'
    unfolding upsert_proposal_def
    by (rule runs_within_step) (use that at count in \<open>auto simp: at_phase_database db_at_def txn_files_def intro!: at_phase_database\<close>)
  define Q where "Q = (\<lambda>r w'. costs 1 w r w' \<and> (case r of Done a \<Rightarrow> ?done a w' | Crashed \<Rightarrow> ?crash w' | Threw e \<Rightarrow> False))"
  have up: "wp (upsert_proposal (pp_stash_dir p) r') Q w" if "settled_row p r'" "prop_id r' = pp_proposal_id p" for r'
    using upsert [OF that] unfolding runs_within_def Q_def .
  have stay: "Q (Done ()) w" if "settled_row p r"
    using settled [OF that] by (simp add: Q_def costs_def)
  note run = persist_proposal_state_def prog_wp file_op_defs c get_proposal_def
  have "wp ?m Q w"
  proof (cases "settled_row p r")
    case True
    then show ?thesis using r(1) b stay [OF True]
      by (cases "pp_operation p"; cases "pp_backup_path p"; auto simp: run settled_row_def)
  next
    case False
    then have "open_row p r" using r(3) by simp
    then show ?thesis using r(1,2) b proposal
      by (cases "pp_operation p"; cases "pp_backup_path p"; auto simp: run open_row_def intro!: up)
  qed
  then show ?thesis unfolding runs_within_def Q_def .
qed

definition at_some_phase where
  "at_some_phase env ns name j p old new w \<longleftrightarrow> (\<exists>ph \<in> set (tl proposal_txn_phases). at_phase env ns name j p old new ph w)"

lemma at_phase_some:
  "at_phase env ns name j p old new ph w \<Longrightarrow> ph \<in> set (tl proposal_txn_phases) \<Longrightarrow> at_some_phase env ns name j p old new w"
  by (auto simp: at_some_phase_def)

lemma later_phases [simp]:
  "''asset-published'' \<in> set (tl proposal_txn_phases)" "''proposal-persisted'' \<in> set (tl proposal_txn_phases)"
  "''index-finalized'' \<in> set (tl proposal_txn_phases)" "''event-finalized'' \<in> set (tl proposal_txn_phases)"
  "''committed'' \<in> set (tl proposal_txn_phases)"
  by (simp_all add: proposal_txn_phases_def)

text \<open>Having removed the auxiliary names: the state of the completion while it runs through the phases.\<close>

definition clean_at where
  "clean_at env ns name j p old new ph w \<longleftrightarrow>
     at_phase env ns name j p old new ph w \<and> txn_files p w = (Some new, None, None)"

lemma clean_at_row: "clean_at env ns name j p old new ph w \<Longrightarrow> \<exists>r. proposals (database w) (pp_proposal_id p, pp_stash_dir p) = Some r"
  by (auto simp: clean_at_def at_phase_def db_at_def proposal_row_is_def split: if_splits option.splits)

lemma clean_at_read:
  assumes "clean_at env ns name j p old new ph w"
    and "\<And>r. runs_within k (f r) crash done w"
  shows "runs_within k (andthen (get_proposal (pp_stash_dir p) (pp_proposal_id p)) f) crash done w"
  using clean_at_row [OF assms(1)] assms(2) by (auto simp: runs_within_def get_proposal_def prog_wp)

lemma advance_runs:
  assumes j: "journal_kind j = proposal_txn_kind" and to: "to \<in> set proposal_txn_phases"
    and at: "clean_at env ns name j p old new ph w" and db: "db_at p j to (database w)"
    and ph: "ph \<in> set (tl proposal_txn_phases)" and new_ph: "to \<noteq> ''asset-published''"
  shows "runs_within 1 (advance (open_txn ns name j ph) to) (at_some_phase env ns name j p old new)
     (\<lambda>t w'. t = open_txn ns name j to \<and> clean_at env ns name j p old new to w') w"
proof -
  have held: "only_txn ns name w" using at by (auto simp: clean_at_def at_phase_def holds_only_only)
  have "at_phase env ns name j p old new to (put_journal ns name (j\<lparr>journal_phase := to\<rparr>) (w\<lparr>steps_left := n\<rparr>))" for n
    using at db held new_ph by (auto simp: clean_at_def at_phase_def txn_store txn_files_def)
  then show ?thesis using at
    by (auto simp: runs_within_def costs_def advance_proposal_wp j to txn_store clean_at_def txn_files_def intro: at_phase_some [OF _ ph])
qed

lemma event_runs:
  assumes at: "clean_at env ns name j p old new ''index-finalized'' w"
  shows "runs_within 1 (insert_event_once (proposal_event_of (j\<lparr>journal_phase := ph\<rparr>) p r)) (at_some_phase env ns name j p old new)
     (\<lambda>_ w'. clean_at env ns name j p old new ''index-finalized'' w' \<and> event_count p j (database w') = 1) w"
proof -
  have db: "db_at p j ''index-finalized'' (database w)" using at by (simp add: clean_at_def at_phase_def)
  show ?thesis
  proof (cases "event_count p j (database w) = 0")
    case True
    have "at_phase env ns name j p old new ''index-finalized''
       (w\<lparr>steps_left := n, database := (database w)\<lparr>events := events (database w) @ [proposal_event_of (j\<lparr>journal_phase := ph\<rparr>) p r]\<rparr>\<rparr>)" for n
      using at db True
      by (auto simp: clean_at_def at_phase_database event_added db_at_def proposal_row_is_def intro!: at_phase_database(2))
    then show ?thesis using at True
      by (auto simp: runs_within_def costs_def insert_event_once_def prog_wp event_there event_added clean_at_def
          txn_files_def intro: at_phase_some [where ph = "''index-finalized''"])
  next
    case False
    then show ?thesis using at db
      by (auto simp: runs_within_def costs_def insert_event_once_def prog_wp event_there db_at_def)
  qed
qed


lemma in_txn_phase_wp [prog_wp]:
  "wp (in_txn_phase ph act (open_txn ns name j ph')) Q w \<longleftrightarrow>
     (if ph' = ph then wp (act (open_txn ns name j ph')) Q w else Q (Done (open_txn ns name j ph')) w)"
  by (simp add: in_txn_phase_def prog_wp)

lemma in_txn_phase_runs:
  "runs_within k (act (open_txn ns name j ph)) crash done w \<Longrightarrow> runs_within k (in_txn_phase ph act (open_txn ns name j ph)) crash done w"
  "ph \<noteq> ph' \<Longrightarrow> runs_within k (f (open_txn ns name j ph)) crash done w \<Longrightarrow>
     runs_within k (andthen (in_txn_phase ph' act (open_txn ns name j ph)) f) crash done w"
  by (simp_all add: runs_within_def prog_wp)

lemma finalize_runs:
  assumes j: "journal_kind j = proposal_txn_kind" "payload j = ProposalPayload p"
    and target: "wt_kind target \<noteq> ''git''" and index: "index_assets env (journal_root j) [pp_asset_path p]"
    and proposal: "prop_id proposal = pp_proposal_id p"
    and ph: "ph \<in> {''asset-published'', ''proposal-persisted'', ''index-finalized'', ''event-finalized''}"
    and at: "at_phase env ns name j p old new ph w"
  shows "runs_within 9 (finalize_proposal_transaction env (open_txn ns name j ph) target proposal)
      (at_some_phase env ns name j p old new)
      (\<lambda>t w'. t = open_txn ns name j ''committed'' \<and> clean_at env ns name j p old new ''committed'' w') w"
proof -
  let ?at = "clean_at env ns name j p old new" and ?crash = "at_some_phase env ns name j p old new"
  let ?done = "\<lambda>t w'. t = open_txn ns name j ''committed'' \<and> ?at ''committed'' w'"
  define r5 :: "any_payload txn \<Rightarrow> any_payload txn act" where
    "r5 = in_txn_phase ''event-finalized'' (\<lambda>t. advance t ''committed'')"
  define r4 :: "any_payload txn \<Rightarrow> any_payload txn act" where
    "r4 t = andthen (in_txn_phase ''index-finalized'' (\<lambda>t.
        andthen (get_proposal (pp_stash_dir p) (pp_proposal_id p)) (\<lambda>accepted.
        andthen (insert_event_once (proposal_event_of (txn_journal_of t) p accepted)) (\<lambda>_.
          advance t ''event-finalized''))) t) r5" for t
  define r3 :: "any_payload txn \<Rightarrow> any_payload txn act" where
    "r3 t = andthen (in_txn_phase ''proposal-persisted'' (\<lambda>t.
        if \<not> index_assets env (journal_root (txn_journal_of t)) [pp_asset_path p]
        then raise ''Proposal index finalization failed.''
        else advance t ''index-finalized'') t) r4" for t
  define r2 :: "any_payload txn \<Rightarrow> any_payload txn act" where
    "r2 t = andthen (get_proposal (pp_stash_dir p) (pp_proposal_id p)) (\<lambda>_. r3 t)" for t
  have dbat: "?at ph w \<Longrightarrow> db_at p j ph (database w)" for ph w by (simp add: clean_at_def at_phase_def)
  let ?to = "\<lambda>ph t w'. t = open_txn ns name j ph \<and> ?at ph w'"
  have s5: "runs_within 1 (r5 (open_txn ns name j ''event-finalized'')) ?crash ?done w"
    if "?at ''event-finalized'' w" for w
    unfolding r5_def
    by (rule in_txn_phase_runs(1), rule advance_runs) (use that dbat [OF that] j in \<open>simp_all add: db_at_def\<close>)
  have s4: "runs_within 3 (r4 (open_txn ns name j ''index-finalized'')) ?crash ?done w"
    if at: "?at ''index-finalized'' w" for w
  proof -
    have "runs_within 1 (advance (open_txn ns name j ''index-finalized'') ''event-finalized'') ?crash (?to ''event-finalized'') w'"
      if "?at ''index-finalized'' w' \<and> event_count p j (database w') = 1" for w'
      by (rule advance_runs) (use that dbat j in \<open>auto simp: db_at_def\<close>)
    from runs_within_andthen [OF event_runs [OF at] this]
    have "runs_within (1 + 1) (andthen (get_proposal (pp_stash_dir p) (pp_proposal_id p)) (\<lambda>accepted.
        andthen (insert_event_once (proposal_event_of (txn_journal_of (open_txn ns name j ''index-finalized'')) p accepted))
           (\<lambda>_. advance (open_txn ns name j ''index-finalized'') ''event-finalized''))) ?crash (?to ''event-finalized'') w"
      by (intro clean_at_read [OF at]) simp
    from runs_within_andthen [OF in_txn_phase_runs(1) [where act = "\<lambda>t. andthen (get_proposal (pp_stash_dir p) (pp_proposal_id p)) (\<lambda>accepted.
        andthen (insert_event_once (proposal_event_of (txn_journal_of t) p accepted)) (\<lambda>_. advance t ''event-finalized''))", OF this], where f = r5 and l = 1]
    show ?thesis unfolding r4_def using s5 by (simp add: numeral_3_eq_3)
  qed
  have s4e: "runs_within 3 (r4 (open_txn ns name j ''event-finalized'')) ?crash ?done w"
    if at: "?at ''event-finalized'' w" for w
    unfolding r4_def by (rule in_txn_phase_runs(2), simp, rule runs_within_more [OF s5 [OF at]]) simp
  have s3: "runs_within 4 (r3 (open_txn ns name j ''proposal-persisted'')) ?crash ?done w"
    if at: "?at ''proposal-persisted'' w" for w
  proof -
    have "runs_within 1 (if \<not> index_assets env (journal_root (txn_journal_of (open_txn ns name j ''proposal-persisted''))) [pp_asset_path p]
        then raise ''Proposal index finalization failed.''
        else advance (open_txn ns name j ''proposal-persisted'') ''index-finalized'') ?crash (?to ''index-finalized'') w"
      using index advance_runs [OF j(1) _ at, of "''index-finalized''"] dbat [OF at] by (simp add: db_at_def)
    from runs_within_andthen [OF in_txn_phase_runs(1) [where act = "\<lambda>t. if \<not> index_assets env (journal_root (txn_journal_of t)) [pp_asset_path p]
        then raise ''Proposal index finalization failed.'' else advance t ''index-finalized''", OF this], where f = r4 and l = 3]
    show ?thesis unfolding r3_def using s4 by simp
  qed
  have s3e: "runs_within 4 (r3 (open_txn ns name j ph)) ?crash ?done w"
    if at: "?at ph w" and ph: "ph = ''index-finalized'' \<or> ph = ''event-finalized''" for ph w
  proof -
    have "runs_within 3 (r4 (open_txn ns name j ph)) ?crash ?done w" using at ph s4 s4e by auto
    then show ?thesis unfolding r3_def
      by (intro in_txn_phase_runs(2)) (use ph in \<open>auto intro: runs_within_more\<close>)
  qed
  have s2: "runs_within 4 (r2 (open_txn ns name j ph)) ?crash ?done w"
    if at: "?at ph w" and ph: "ph \<in> {''proposal-persisted'', ''index-finalized'', ''event-finalized''}" for ph w
    unfolding r2_def by (rule clean_at_read [OF at]) (use at ph s3 s3e in auto)
  define r1 :: "any_payload txn \<Rightarrow> any_payload txn act" where
    "r1 t = andthen (in_txn_phase ''asset-published'' (\<lambda>t.
        andthen (publish_write_target env target t p) (\<lambda>t.
        andthen (persist_proposal_state env (txn_journal_of t) p proposal) (\<lambda>_.
          advance t ''proposal-persisted''))) t) r2" for t
  have s1: "runs_within 6 (r1 (open_txn ns name j ''asset-published'')) ?crash ?done w"
    if at: "?at ''asset-published'' w" for w
  proof -
    have at': "at_phase env ns name j p old new ''asset-published'' w" using at by (simp add: clean_at_def)
    have p: "runs_within 1 (persist_proposal_state env (txn_journal_of (open_txn ns name j ''asset-published'')) p proposal) ?crash
        (\<lambda>_ w'. ?at ''asset-published'' w' \<and> proposal_row_is (settled_row p) p (database w')) w"
      by (rule runs_within_mono [OF persist_runs [OF proposal at']])
         (use at in \<open>auto simp: clean_at_def intro: at_phase_some\<close>)
    have "runs_within 1 (advance (open_txn ns name j ''asset-published'') ''proposal-persisted'') ?crash (?to ''proposal-persisted'') w'"
      if "?at ''asset-published'' w' \<and> proposal_row_is (settled_row p) p (database w')" for w'
      by (rule advance_runs) (use that dbat j in \<open>auto simp: db_at_def\<close>)
    from runs_within_andthen [OF p this]
    have "runs_within 2 (andthen (publish_write_target env target (open_txn ns name j ''asset-published'') p) (\<lambda>t.
        andthen (persist_proposal_state env (txn_journal_of t) p proposal) (\<lambda>_.
          advance t ''proposal-persisted''))) ?crash (?to ''proposal-persisted'') w"
      using target by (simp add: publish_write_target_none runs_within_def prog_wp numeral_2_eq_2)
    from runs_within_andthen [OF in_txn_phase_runs(1) [where act = "\<lambda>t. andthen (publish_write_target env target t p) (\<lambda>t.
        andthen (persist_proposal_state env (txn_journal_of t) p proposal) (\<lambda>_. advance t ''proposal-persisted''))", OF this],
        where f = r2 and l = 4]
    show ?thesis unfolding r1_def using s2 by simp
  qed
  have s1e: "runs_within 6 (r1 (open_txn ns name j ph)) ?crash ?done w" if at: "?at ph w" for w
  proof (cases "ph = ''asset-published''")
    case True then show ?thesis using s1 at by simp
  next
    case False
    then have "runs_within 4 (r2 (open_txn ns name j ph)) ?crash ?done w" using at ph s2 by simp
    then show ?thesis unfolding r1_def
      by (intro in_txn_phase_runs(2)) (use False in \<open>auto intro: runs_within_more\<close>)
  qed
  have c: "runs_within 2 (cleanup_proposal_publication p) ?crash (\<lambda>_. ?at ph) w"
    by (rule runs_within_mono [OF clean_stretch [OF at]]) (use ph in \<open>auto simp: clean_at_def intro: at_phase_some\<close>)
  have valid: "current_hash env (pp_asset_path p) w = Some (pp_published_hash p)"
    using at by (simp add: at_phase_def txn_disk_def current_hash_def file_text_def)
  have fin: "finalize_proposal_transaction env (open_txn ns name j ph) target proposal =
    andthen (validate_published_proposal env p) (\<lambda>_. andthen (cleanup_proposal_publication p) (\<lambda>_. r1 (open_txn ns name j ph)))"
    unfolding finalize_proposal_transaction_def with_proposal_payload_def r1_def r2_def r3_def r4_def r5_def using j by simp
  have "runs_within 9 (andthen (cleanup_proposal_publication p) (\<lambda>_. r1 (open_txn ns name j ph))) ?crash ?done w"
    by (rule runs_within_more [OF runs_within_andthen [OF c s1e]]) simp_all
  then show ?thesis
    using valid unfolding fin runs_within_def by (simp add: validate_published_proposal_def prog_wp)
qed

end
