(* ===== verification/Proposal_Atomicity.thy ===== *)
theory Proposal_Atomicity
  imports Proposal_Recovery
begin

text \<open>
  The crash properties of a proposal transaction.  A prepared transaction is run with an arbitrary number of durable
  steps to live, and the recovery scan of its root is run on what it leaves; the scan itself may die any number of
  times.  With fourteen steps a scan of one transaction returns.
\<close>

section \<open>The setting\<close>

text \<open>
  A transaction that has been prepared and whose configuration still stands: its journal passes the fences, the
  target resolves to the same root, is no Git checkout and can be indexed, the new content and the backup are
  staged, the proposal is open and no event carries the transaction's id.
\<close>

definition config_stands ::
  "'e proposal_env_scheme \<Rightarrow> string \<Rightarrow> string \<Rightarrow> string \<Rightarrow> any_payload txn_journal \<Rightarrow> proposal_payload \<Rightarrow> write_target \<Rightarrow> bool" where
  "config_stands env root ns name j p target \<longleftrightarrow>
     ns = txn_namespace_dir env root \<and> journal_version j = 1 \<and> journal_kind j = proposal_txn_kind
     \<and> payload j = ProposalPayload p
     \<and> fence_journal env (proposal_kinds env) (j\<lparr>journal_phase := ''prepared''\<rparr>) (joined ns name) root = None
     \<and> bundle_target env (pp_target_source p) = Some target \<and> prepare_target env target = Inr target
     \<and> wt_kind target \<noteq> ''git'' \<and> wt_kind target = pp_target_kind p
     \<and> canonical_txn_root env (wt_root target) = canonical_txn_root env (journal_root j)
     \<and> index_assets env (journal_root j) [pp_asset_path p]"

definition txn_ready ::
  "'e proposal_env_scheme \<Rightarrow> string \<Rightarrow> string \<Rightarrow> any_payload txn_journal \<Rightarrow> proposal_payload \<Rightarrow> nat option \<Rightarrow> nat \<Rightarrow>
   store \<Rightarrow> bool" where
  "txn_ready env ns name j p old new w \<longleftrightarrow>
     txn_disk env (joined ns name) p old new w \<and> txn_files p w = (old, Some new, None)
     \<and> holds_only ns name (j\<lparr>journal_phase := ''prepared''\<rparr>) w
     \<and> sidecars_there (joined ns name) p (dir_entries w)
     \<and> proposal_row_is (open_row p) p (database w) \<and> event_count p j (database w) = 0"

text \<open>The two ends a transaction may have.\<close>

definition never_happened ::
  "string \<Rightarrow> proposal_payload \<Rightarrow> nat option \<Rightarrow> proposal_db \<Rightarrow> store \<Rightarrow> bool" where
  "never_happened ns p old db w \<longleftrightarrow> ns_entries ns w = [] \<and> txn_files p w = (old, None, None) \<and> database w = db"

definition fully_happened ::
  "string \<Rightarrow> any_payload txn_journal \<Rightarrow> proposal_payload \<Rightarrow> nat \<Rightarrow> store \<Rightarrow> bool" where
  "fully_happened ns j p new w \<longleftrightarrow> ns_entries ns w = [] \<and> txn_files p w = (Some new, None, None)
     \<and> proposal_row_is (settled_row p) p (database w) \<and> event_count p j (database w) = 1"

text \<open>Everything that a crash may leave once the asset is published, and before it is.\<close>

definition settling where
  "settling env ns name j p old new w \<longleftrightarrow> at_some_phase env ns name j p old new w \<or> fully_happened ns j p new w"

definition recoverable where
  "recoverable env ns name j p old new db w \<longleftrightarrow>
     prepared_stage env ns name j p old new db w \<or> never_happened ns p old db w \<or> settling env ns name j p old new w"

section \<open>Recovering one namespace\<close>

lemma fence_any_phase:
  assumes "fence_journal env kinds (j\<lparr>journal_phase := ''prepared''\<rparr>) dir root = None"
    "kinds (journal_kind j) = Some h" "ph \<in> set (phases h)"
    "\<And>check. validate h = Some check \<Longrightarrow> check (j\<lparr>journal_phase := ph\<rparr>) dir root = check (j\<lparr>journal_phase := ''prepared''\<rparr>) dir root"
  shows "fence_journal env kinds (j\<lparr>journal_phase := ph\<rparr>) dir root = None"
  using assms by (auto simp: fence_journal_def split: if_splits option.splits)

lemma recover_holds:
  assumes c: "config_stands env root ns name j p target" and held: "holds_only ns name (j\<lparr>journal_phase := ph\<rparr>) w"
    and ph: "ph \<in> set proposal_txn_phases"
  shows "recover_txns_for_root env (proposal_kinds env) (\<lambda>_. True) root w =
    andthen (settle_txn (proposal_handler env) (open_txn ns name j ph)) (\<lambda>j'. ret [j']) w"
proof -
  have k: "proposal_kinds env (journal_kind j) = Some (proposal_handler env)"
    using c by (simp add: config_stands_def proposal_kinds_def)
  have f: "fence_journal env (proposal_kinds env) (j\<lparr>journal_phase := ph\<rparr>) (joined ns name) root = None"
    by (rule fence_any_phase [where h = "proposal_handler env"])
      (use c ph k in \<open>auto simp: config_stands_def proposal_handler_def fence_proposal_txn_journal_def\<close>)
  show ?thesis
    using c f k holds_only_found [OF held] holds_only_listed [OF held]
    by (simp add: recover_txns_for_root_def andthen_def reading_def recover_entry_def config_stands_def Let_def
        read_journal_def ret_def open_txn_def split: outcome.split prod.split)
qed

lemma recover_empty:
  "ns_entries (txn_namespace_dir env root) w = [] \<Longrightarrow>
   recover_txns_for_root env kinds wanted root w = (Done [], w)"
  by (simp add: recover_txns_for_root_def andthen_def reading_def ret_def)

lemma cleanup_runs:
  assumes held: "holds_only ns name j' w"
    and step: "crash w" "\<And>n. crash ((drop_files_under (joined ns name) w)\<lparr>steps_left := n\<rparr>)"
    and gone: "\<And>w'. ns_entries ns w' = [] \<Longrightarrow> database w' = database w \<Longrightarrow>
       (\<And>q. \<not> js_starts_with (joined ns name @ ''/'') q \<Longrightarrow> dir_entries w' q = dir_entries w q) \<Longrightarrow> crash w' \<and> done () w'"
  shows "runs_within 3 (cleanup_txn ns name) crash done w"
proof -
  have upd: "(drop_files_under d w)\<lparr>steps_left := n\<rparr> = drop_files_under d (w\<lparr>steps_left := n\<rparr>)" for d n
    by (simp add: drop_files_under_def fun_eq_iff cong: if_cong)
  have e: "ns_entries ns (drop_txn_dir ns name (drop_files_under d (w\<lparr>steps_left := n\<rparr>))) = []" for d n
    using held by (intro holds_only_drop [where j = j']) (simp add: txn_store)
  show ?thesis
    unfolding runs_within_def cleanup_txn_def
    using step gone e
    by (auto simp: prog_wp costs_def txn_store upd)
qed


lemma not_under:
  assumes "txn_disk env dir p old new w"
  shows "\<not> js_starts_with (dir @ ''/'') (pp_asset_path p)" "\<not> js_starts_with (dir @ ''/'') (pp_publish_path p)"
    "\<not> js_starts_with (dir @ ''/'') (pp_displaced_path p)"
  using assms by (auto simp: txn_disk_def)

lemma settle_prepared:
  assumes c: "config_stands env root ns name j p target" and st: "prepared_stage env ns name j p old new db w"
  shows "runs_within 7 (settle_txn (proposal_handler env) (open_txn ns name j ''prepared''))
     (\<lambda>w'. old_survives old (txn_files p w') \<and> (old = None \<longrightarrow> recoverable env ns name j p old new db w'))
     (\<lambda>_. never_happened ns p old db) w"
    (is "runs_within 7 ?m ?crash ?done w")
proof -
  have disk: "txn_disk env (joined ns name) p old new w" "unpublished old new (txn_files p w)" "database w = db"
    and held: "holds_only ns name (j\<lparr>journal_phase := ''prepared''\<rparr>) w"
    using st by (auto simp: prepared_stage_def)
  note nu = not_under [OF disk(1)]
  have ns: "holds_only ns name (j\<lparr>journal_phase := ''prepared''\<rparr>) w'" if "namespaces w' = namespaces w" for w' :: store
    using held that by (simp add: holds_only_def ns_entries_def)
  have rb: "runs_within 4 (rollback_prepared_proposal env p) ?crash
     (\<lambda>_ w'. txn_files p w' = (old, None, None) \<and> txn_disk env (joined ns name) p old new w'
        \<and> namespaces w' = namespaces w \<and> database w' = db) w"
    by (rule runs_within_mono [OF rollback_restores [OF disk(1,2)]])
       (use disk(3) ns in \<open>auto simp: recoverable_def prepared_stage_def\<close>)
  have cl: "runs_within 3 (cleanup_txn ns name) ?crash (\<lambda>_. never_happened ns p old db) w'"
    if w': "txn_files p w' = (old, None, None) \<and> txn_disk env (joined ns name) p old new w'
        \<and> namespaces w' = namespaces w \<and> database w' = db" for w'
  proof (rule cleanup_runs [where j' = "j\<lparr>journal_phase := ''prepared''\<rparr>"])
    show held': "holds_only ns name (j\<lparr>journal_phase := ''prepared''\<rparr>) w'" using w' ns by blast
    show "?crash w'" using w' held' by (auto simp: recoverable_def prepared_stage_def unpublished_def old_survives_def split: option.splits)
    show "?crash ((drop_files_under (joined ns name) w')\<lparr>steps_left := n\<rparr>)" for n
      using w' held' nu
      by (auto simp: recoverable_def prepared_stage_def unpublished_def old_survives_def txn_store txn_files_def split: option.splits)
    show "?crash w'' \<and> never_happened ns p old db w''"
      if "ns_entries ns w'' = []" "database w'' = database w'"
        "\<And>q. \<not> js_starts_with (joined ns name @ ''/'') q \<Longrightarrow> dir_entries w'' q = dir_entries w' q" for w''
      using that w' nu
      by (auto simp: recoverable_def never_happened_def old_survives_def txn_files_def split: option.splits)
  qed
  have fin: "?m = andthen (rollback_prepared_proposal env p)
      (\<lambda>_. andthen (cleanup_txn ns name) (\<lambda>_. ret (j\<lparr>journal_phase := ''prepared''\<rparr>)))"
    using c by (simp add: settle_txn_def proposal_handler_def is_committed_phase_def js_index_of_def proposal_txn_phases_def
        recover_rollback_proposal_def config_stands_def prog_laws cong del: andthen_cong)
  have clr: "runs_within 3 (andthen (cleanup_txn ns name) (\<lambda>_. ret (j\<lparr>journal_phase := ''prepared''\<rparr>))) ?crash ?done w'"
    if "txn_files p w' = (old, None, None) \<and> txn_disk env (joined ns name) p old new w'
        \<and> namespaces w' = namespaces w \<and> database w' = db" for w'
    using cl [OF that] by (rule runs_within_returning)
  show ?thesis
    using runs_within_andthen [OF rb clr] unfolding fin by simp
qed

lemma fully_happened_frame:
  assumes "ns_entries ns w' = []" "database w' = database w"
    "\<And>q. \<not> js_starts_with (joined ns name @ ''/'') q \<Longrightarrow> dir_entries w' q = dir_entries w q"
    "at_phase env ns name j p old new ''committed'' w"
  shows "fully_happened ns j p new w'"
proof -
  have "txn_disk env (joined ns name) p old new w" using assms(4) by (simp add: at_phase_def)
  note nu = not_under [OF this]
  show ?thesis using assms nu by (auto simp: fully_happened_def at_phase_def txn_files_def db_at_def)
qed

lemma cleanup_committed:
  assumes at: "at_phase env ns name j p old new ''committed'' w"
  shows "runs_within 3 (cleanup_txn ns name) (settling env ns name j p old new) (\<lambda>_. fully_happened ns j p new) w"
proof (rule cleanup_runs [where j' = "j\<lparr>journal_phase := ''committed''\<rparr>"])
  have disk: "txn_disk env (joined ns name) p old new w" using at by (simp add: at_phase_def)
  note nu = not_under [OF disk]
  show "holds_only ns name (j\<lparr>journal_phase := ''committed''\<rparr>) w" using at by (simp add: at_phase_def)
  show "settling env ns name j p old new w" using at by (auto simp: settling_def intro: at_phase_some)
  have "at_phase env ns name j p old new ''committed'' ((drop_files_under (joined ns name) w)\<lparr>steps_left := n\<rparr>)" for n
    using at nu by (auto simp: at_phase_def txn_store)
  then show "settling env ns name j p old new ((drop_files_under (joined ns name) w)\<lparr>steps_left := n\<rparr>)" for n
    by (simp add: settling_def at_phase_some [OF _ later_phases(5)])
  show "settling env ns name j p old new w'' \<and> fully_happened ns j p new w''"
    if "ns_entries ns w'' = []" "database w'' = database w"
      "\<And>q. \<not> js_starts_with (joined ns name @ ''/'') q \<Longrightarrow> dir_entries w'' q = dir_entries w q" for w''
    using fully_happened_frame [OF that at] by (simp add: settling_def)
qed

lemma settle_published:
  assumes c: "config_stands env root ns name j p target" and ph: "ph \<in> set (tl proposal_txn_phases)"
    and at: "at_phase env ns name j p old new ph w"
  shows "runs_within 14 (settle_txn (proposal_handler env) (open_txn ns name j ph))
     (settling env ns name j p old new) (\<lambda>_. fully_happened ns j p new) w"
    (is "runs_within 14 ?m ?crash ?done w")
proof (cases "ph = ''committed''")
  case True
  have "?m w = andthen (cleanup_txn ns name) (\<lambda>_. ret (j\<lparr>journal_phase := ''committed''\<rparr>)) w"
    using True by (simp add: settle_txn_def proposal_handler_def is_committed_phase_def js_index_of_def proposal_txn_phases_def
      andthen_def ret_def)
  then show ?thesis
    using runs_within_more [OF cleanup_committed [OF at [unfolded True]], of 14]
    by (auto simp: runs_within_def wp_def andthen_def ret_def costs_def split: prod.splits outcome.splits)
next
  case False
  then have ph': "ph \<in> {''asset-published'', ''proposal-persisted'', ''index-finalized'', ''event-finalized''}"
    using ph by (auto simp: proposal_txn_phases_def)
  obtain r where r: "proposals (database w) (pp_proposal_id p, pp_stash_dir p) = Some r" "prop_id r = pp_proposal_id p"
    using at by (auto simp: at_phase_def db_at_def proposal_row_is_def split: if_splits option.splits)
  have crash: "at_some_phase env ns name j p old new w' \<Longrightarrow> ?crash w'" for w' by (simp add: settling_def)
  have f: "runs_within 9 (finalize_proposal_transaction env (open_txn ns name j ph) target r) ?crash
      (\<lambda>t w'. t = open_txn ns name j ''committed'' \<and> at_phase env ns name j p old new ''committed'' w') w"
    by (rule runs_within_mono [OF finalize_runs [OF _ _ _ _ r(2) ph' at]])
       (use c crash in \<open>auto simp: config_stands_def clean_at_def\<close>)
  have cp: "runs_within 2 (cleanup_proposal_publication p) ?crash (\<lambda>_. at_phase env ns name j p old new ''committed'') w'"
    if "at_phase env ns name j p old new ''committed'' w'" for w'
    by (rule runs_within_mono [OF clean_stretch [OF that]]) (simp_all add: crash at_phase_some [OF _ later_phases(5)])
  have cl: "runs_within 3 (cleanup_txn ns name) ?crash (\<lambda>_. fully_happened ns j p new) w'"
    if "at_phase env ns name j p old new ''committed'' w'" for w'
    by (rule cleanup_committed [OF that])
  have t: "runs_within 5 (andthen (cleanup_proposal_publication p) (\<lambda>_. andthen (cleanup_txn ns name) (\<lambda>_. ret (txn_journal_of t))))
      ?crash ?done w'"
    if "t = open_txn ns name j ''committed'' \<and> at_phase env ns name j p old new ''committed'' w'" for w' and t :: "any_payload txn"
  proof -
    have "runs_within 3 (andthen (cleanup_txn ns name) (\<lambda>_. ret (txn_journal_of t))) ?crash ?done v"
      if "at_phase env ns name j p old new ''committed'' v" for v
      using cl [OF that] by (rule runs_within_returning)
    from runs_within_andthen [OF cp this] show ?thesis using that by simp
  qed
  have tgt: "recovery_target env (j\<lparr>journal_phase := ph\<rparr>) p = ret target"
    "prepare_target env target = Inr target" "payload j = ProposalPayload p"
    "canonical_txn_root env (wt_root target) = canonical_txn_root env (journal_root j)" "pp_target_kind p = wt_kind target"
    using c by (auto simp: config_stands_def recovery_target_def)
  have committed: "is_committed_phase (proposal_handler env) (j\<lparr>journal_phase := ph\<rparr>)" "ph \<noteq> last proposal_txn_phases"
    using ph' by (auto simp: proposal_handler_def is_committed_phase_def js_index_of_def proposal_txn_phases_def)
  have get: "andthen (get_proposal (pp_stash_dir p) (pp_proposal_id p)) f w = f r w" for f :: "proposal \<Rightarrow> 'x act"
    using r by (simp add: get_proposal_def andthen_def reading_def ret_def)
  have "?m = andthen (get_proposal (pp_stash_dir p) (pp_proposal_id p)) (\<lambda>r.
      andthen (finalize_proposal_transaction env (open_txn ns name j ph) target r)
      (\<lambda>t. andthen (cleanup_proposal_publication p) (\<lambda>_. andthen (cleanup_txn ns name) (\<lambda>_. ret (txn_journal_of t)))))"
    using committed unfolding settle_txn_def
    by (simp add: proposal_handler_def recover_finalize_proposal_def tgt prog_laws cong del: andthen_cong)
  then have "?m w = andthen (finalize_proposal_transaction env (open_txn ns name j ph) target r)
      (\<lambda>t. andthen (cleanup_proposal_publication p) (\<lambda>_. andthen (cleanup_txn ns name) (\<lambda>_. ret (txn_journal_of t)))) w"
    using get by simp
  then show ?thesis
    using runs_within_andthen [OF f t] unfolding runs_within_def wp_def by simp
qed


section \<open>Whole runs\<close>

lemma prepared_runs:
  assumes c: "config_stands env root ns name j p target" and ready: "txn_ready env ns name j p old new w"
    and proposal: "prop_id proposal = pp_proposal_id p"
  shows "runs_within 15 (run_prepared_transaction env (open_txn ns name j ''prepared'') target proposal)
     (recoverable env ns name j p old new (database w)) (\<lambda>_. fully_happened ns j p new) w"
    (is "runs_within 15 ?m ?crash ?done w")
proof -
  have crash: "settling env ns name j p old new w' \<Longrightarrow> ?crash w'" for w' by (simp add: recoverable_def)
  let ?mid = "\<lambda>t w'. t = open_txn ns name j ''asset-published'' \<and> at_phase env ns name j p old new ''asset-published'' w'"
  have "runs_within 3 (publish_proposal_asset env (open_txn ns name j ''prepared'') target)
      (prepared_stage env ns name j p old new (database w))
      (\<lambda>t w'. t = open_txn ns name j ''asset-published''
         \<and> txn_files p w' = (Some new, Some new, old) \<and> database w' = database w
         \<and> txn_disk env (joined ns name) p old new w' \<and> holds_only ns name (j\<lparr>journal_phase := ''asset-published''\<rparr>) w'
         \<and> sidecars_there (joined ns name) p (dir_entries w')) w"
    by (rule publish_runs) (use c ready in \<open>auto simp: config_stands_def txn_ready_def\<close>)
  then have pub: "runs_within 3 (publish_proposal_asset env (open_txn ns name j ''prepared'') target) ?crash ?mid w"
    by (rule runs_within_mono) (use ready in \<open>auto simp: recoverable_def at_phase_def txn_files_def db_at_def txn_ready_def\<close>)
  have fin: "runs_within 9 (finalize_proposal_transaction env t target proposal) ?crash
      (\<lambda>t w'. t = open_txn ns name j ''committed'' \<and> at_phase env ns name j p old new ''committed'' w') w'"
    if "?mid t w'" for t w'
  proof -
    have "runs_within 9 (finalize_proposal_transaction env t target proposal) (at_some_phase env ns name j p old new)
      (\<lambda>t w'. t = open_txn ns name j ''committed'' \<and> clean_at env ns name j p old new ''committed'' w') w'"
      unfolding conjunct1 [OF that] by (rule finalize_runs) (use c that proposal in \<open>auto simp: config_stands_def\<close>)
    then show ?thesis by (rule runs_within_mono) (auto simp: crash settling_def clean_at_def)
  qed
  have cl: "runs_within 3 (andthen (cleanup_txn ns name) (\<lambda>_. ret (txn_journal_of t))) ?crash ?done w'"
    if "at_phase env ns name j p old new ''committed'' w'" for t :: "any_payload txn" and w'
    by (rule runs_within_returning, rule runs_within_mono [OF cleanup_committed [OF that]]) (simp_all add: crash)
  have rest: "runs_within 12 (andthen (finalize_proposal_transaction env t target proposal) (\<lambda>t.
     andthen (cleanup_txn (txn_ns t) (txn_name t)) (\<lambda>_. ret (txn_journal_of t)))) ?crash ?done w'" if "?mid t w'" for t w'
    using runs_within_andthen [OF fin [OF that], where l = 3 and f = "\<lambda>t. andthen (cleanup_txn (txn_ns t) (txn_name t)) (\<lambda>_. ret (txn_journal_of t))"]
    using cl by auto
  show ?thesis unfolding run_prepared_transaction_def using runs_within_andthen [OF pub rest] by simp
qed

lemma recovery_prepared_runs:
  assumes c: "config_stands env root ns name j p target" and st: "prepared_stage env ns name j p old new db w"
  shows "runs_within 7 (recover_txns_for_root env (proposal_kinds env) (\<lambda>_. True) root)
     (\<lambda>w'. old_survives old (txn_files p w') \<and> (old = None \<longrightarrow> recoverable env ns name j p old new db w'))
     (\<lambda>_. never_happened ns p old db) w"
proof (rule runs_within_at)
  show "recover_txns_for_root env (proposal_kinds env) (\<lambda>_. True) root w =
    andthen (settle_txn (proposal_handler env) (open_txn ns name j ''prepared'')) (\<lambda>j'. ret [j']) w"
    by (rule recover_holds [OF c]) (use st in \<open>simp_all add: prepared_stage_def proposal_txn_phases_def\<close>)
qed (rule runs_within_mapping, rule settle_prepared [OF c st])

lemma recovery_settles:
  assumes c: "config_stands env root ns name j p target" and st: "settling env ns name j p old new w"
  shows "runs_within 14 (recover_txns_for_root env (proposal_kinds env) (\<lambda>_. True) root)
     (settling env ns name j p old new) (\<lambda>_. fully_happened ns j p new) w"
proof (cases "fully_happened ns j p new w")
  case True
  then have "ns_entries (txn_namespace_dir env root) w = []" using c by (simp add: fully_happened_def config_stands_def)
  then show ?thesis using True by (simp add: runs_within_def wp_def recover_empty costs_def)
next
  case False
  then obtain ph where ph: "ph \<in> set (tl proposal_txn_phases)" "at_phase env ns name j p old new ph w"
    using st by (auto simp: settling_def at_some_phase_def)
  show ?thesis
  proof (rule runs_within_at)
    show "recover_txns_for_root env (proposal_kinds env) (\<lambda>_. True) root w =
      andthen (settle_txn (proposal_handler env) (open_txn ns name j ph)) (\<lambda>j'. ret [j']) w"
      by (rule recover_holds [OF c]) (use ph in \<open>auto simp: at_phase_def proposal_txn_phases_def\<close>)
  qed (rule runs_within_mapping, rule settle_published [OF c ph])
qed

lemma recovery_of_nothing:
  "config_stands env root ns name j p target \<Longrightarrow> never_happened ns p old db w \<Longrightarrow>
   recover_txns_for_root env (proposal_kinds env) (\<lambda>_. True) root w = (Done [], w)"
  by (simp add: never_happened_def config_stands_def recover_empty)

lemma stages_reboot [simp]:
  "prepared_stage env ns name j p old new db (w\<lparr>steps_left := n\<rparr>) = prepared_stage env ns name j p old new db w"
  "settling env ns name j p old new (w\<lparr>steps_left := n\<rparr>) = settling env ns name j p old new w"
  "never_happened ns p old db (w\<lparr>steps_left := n\<rparr>) = never_happened ns p old db w"
  "fully_happened ns j p new (w\<lparr>steps_left := n\<rparr>) = fully_happened ns j p new w"
  "recoverable env ns name j p old new db (w\<lparr>steps_left := n\<rparr>) = recoverable env ns name j p old new db w"
  "at_some_phase env ns name j p old new (w\<lparr>steps_left := n\<rparr>) = at_some_phase env ns name j p old new w"
  by (simp_all add: prepared_stage_def settling_def never_happened_def fully_happened_def recoverable_def txn_store
      at_some_phase_def at_phase_database txn_files_def)

text \<open>A recovery scan that starts with \<open>n\<close> durable steps to live, and several in a row.\<close>

definition recovery_scan ::
  "'e proposal_env_scheme \<Rightarrow> string \<Rightarrow> nat \<Rightarrow> store \<Rightarrow> any_payload txn_journal list outcome \<times> store" where
  "recovery_scan env root n w = recover_txns_for_root env (proposal_kinds env) (\<lambda>_. True) root (w\<lparr>steps_left := n\<rparr>)"

definition recovery_scans :: "'e proposal_env_scheme \<Rightarrow> string \<Rightarrow> nat list \<Rightarrow> store \<Rightarrow> store" where
  "recovery_scans env root budgets w = foldl (\<lambda>w n. snd (recovery_scan env root n w)) w budgets"

lemma scan_recoverable:
  assumes c: "config_stands env root ns name j p target" and st: "recoverable env ns name j p old new db w" and n: "14 \<le> n"
  shows "\<exists>js w'. recovery_scan env root n w = (Done js, w') \<and>
    (never_happened ns p old db w' \<or> fully_happened ns j p new w')"
proof -
  have st': "recoverable env ns name j p old new db (w\<lparr>steps_left := n\<rparr>)" using st by simp
  then consider "prepared_stage env ns name j p old new db (w\<lparr>steps_left := n\<rparr>)"
    | "never_happened ns p old db (w\<lparr>steps_left := n\<rparr>)" | "settling env ns name j p old new (w\<lparr>steps_left := n\<rparr>)"
    by (auto simp only: recoverable_def)
  then show ?thesis
  proof cases
    case 1
    from recovery_prepared_runs [OF c 1] n show ?thesis
      by (auto elim!: runs_within_returns simp: recovery_scan_def)
  next
    case 2
    then show ?thesis using recovery_of_nothing [OF c 2] by (simp add: recovery_scan_def)
  next
    case 3
    from recovery_settles [OF c 3] n show ?thesis
      by (auto elim!: runs_within_returns simp: recovery_scan_def)
  qed
qed


text \<open>Starting the scan again never harms a transaction that is past publication, or that creates its asset.\<close>

lemma scan_keeps_settling:
  assumes c: "config_stands env root ns name j p target" and st: "settling env ns name j p old new w"
  shows "settling env ns name j p old new (snd (recovery_scan env root n w))"
proof -
  have "settling env ns name j p old new (w\<lparr>steps_left := n\<rparr>)" using st by simp
  note r = recovery_settles [OF c this]
  obtain x w' where m: "recover_txns_for_root env (proposal_kinds env) (\<lambda>_. True) root (w\<lparr>steps_left := n\<rparr>) = (x, w')"
    by fastforce
  from runs_within_result [OF r m] m show ?thesis by (auto simp: recovery_scan_def settling_def)
qed

lemma scan_keeps_creation:
  assumes c: "config_stands env root ns name j p target" and st: "recoverable env ns name j p None new db w"
  shows "recoverable env ns name j p None new db (snd (recovery_scan env root n w))"
proof -
  have "recoverable env ns name j p None new db (w\<lparr>steps_left := n\<rparr>)" using st by simp
  then consider "prepared_stage env ns name j p None new db (w\<lparr>steps_left := n\<rparr>)"
    | "never_happened ns p None db (w\<lparr>steps_left := n\<rparr>)" | "settling env ns name j p None new w"
    by (auto simp: recoverable_def)
  then show ?thesis
  proof cases
    case 1
    obtain x w' where m: "recover_txns_for_root env (proposal_kinds env) (\<lambda>_. True) root (w\<lparr>steps_left := n\<rparr>) = (x, w')"
      by fastforce
    from runs_within_result [OF recovery_prepared_runs [OF c 1] m] m show ?thesis
      by (auto simp: recovery_scan_def recoverable_def)
  next
    case 2
    then show ?thesis using recovery_of_nothing [OF c 2] by (simp add: recovery_scan_def recoverable_def)
  next
    case 3
    then show ?thesis using scan_keeps_settling [OF c 3] by (simp add: recoverable_def)
  qed
qed




section \<open>Recoveries that die while rolling back\<close>

text \<open>
  A rollback of an overwriting transaction links the old content back and then removes the auxiliary names.  Dying
  between the two leaves both names of the old content.
\<close>

definition relinked :: "nat option \<Rightarrow> nat \<Rightarrow> nat option \<times> nat option \<times> nat option \<Rightarrow> bool" where
  "relinked old new fs \<longleftrightarrow> (\<exists>i. old = Some i \<and> fs \<in> {(Some i, Some new, Some i), (Some i, None, Some i), (None, None, Some i)})"

definition half_rolled_back where
  "half_rolled_back env ns name j p old new db w \<longleftrightarrow>
     txn_disk env (joined ns name) p old new w
     \<and> (unpublished old new (txn_files p w) \<or> relinked old new (txn_files p w))
     \<and> holds_only ns name (j\<lparr>journal_phase := ''prepared''\<rparr>) w \<and> database w = db"

lemma rollback_everywhere:
  assumes "txn_disk env dir p old new w" "unpublished old new (txn_files p w) \<or> relinked old new (txn_files p w)"
  shows "wp (rollback_prepared_proposal env p) (\<lambda>r w'.
      (unpublished old new (txn_files p w') \<or> relinked old new (txn_files p w')) \<and> txn_disk env dir p old new w'
      \<and> namespaces w' = namespaces w \<and> database w' = database w
      \<and> (\<forall>x. r = Done x \<longrightarrow> txn_files p w' = (old, None, None))) w"
proof -
  note d = txn_paths_differ [OF assms(1)]
  note defs = rollback_prepared_proposal_def prog_wp file_op_defs txn_files_def
    cleanup_proposal_publication_def txn_disk_def txn_store d relinked_def unpublished_def
  show ?thesis
  proof (cases old)
    case None
    then consider "txn_files p w = (None, Some new, None)" | "txn_files p w = (None, None, None)" | "txn_files p w = (Some new, Some new, None)"
      using assms(2) by (auto simp: unpublished_def relinked_def)
    then show ?thesis using assms(1) None by cases (simp_all add: defs)
  next
    case (Some i)
    then consider "txn_files p w = (Some i, Some new, None)" | "txn_files p w = (Some i, None, None)"
      | "txn_files p w = (None, Some new, Some i)" | "txn_files p w = (Some new, Some new, Some i)"
      | "txn_files p w = (Some i, Some new, Some i)" | "txn_files p w = (Some i, None, Some i)"
      | "txn_files p w = (None, None, Some i)"
      using assms(2) by (auto simp: unpublished_def relinked_def)
    then show ?thesis using assms(1) Some
      by cases (simp_all add: defs)
  qed
qed


lemma scan_keeps_old_content:
  assumes c: "config_stands env root ns name j p target"
    and st: "half_rolled_back env ns name j p old new db w \<or> never_happened ns p old db w"
  shows "half_rolled_back env ns name j p old new db (snd (recovery_scan env root n w))
     \<or> never_happened ns p old db (snd (recovery_scan env root n w))"
    (is "?P (snd (recovery_scan env root n w))")
proof (cases "never_happened ns p old db w")
  case True
  then have "never_happened ns p old db (w\<lparr>steps_left := n\<rparr>)" by simp
  from recovery_of_nothing [OF c this] this show ?thesis by (simp add: recovery_scan_def)
next
  case False
  define v where "v = w\<lparr>steps_left := n\<rparr>"
  have disk: "txn_disk env (joined ns name) p old new v"
    "unpublished old new (txn_files p v) \<or> relinked old new (txn_files p v)" "database v = db"
    and held: "holds_only ns name (j\<lparr>journal_phase := ''prepared''\<rparr>) v"
    using st False by (simp_all add: half_rolled_back_def v_def txn_store txn_files_def)
  note nu = not_under [OF disk(1)]
  have ns: "holds_only ns name (j\<lparr>journal_phase := ''prepared''\<rparr>) w'" if "namespaces w' = namespaces v" for w' :: store
    using held that by (simp add: holds_only_def ns_entries_def)
  have cl: "wp (andthen (cleanup_txn ns name) (\<lambda>_. ret x)) (\<lambda>r. ?P) w'"
    if w': "txn_files p w' = (old, None, None)" "txn_disk env (joined ns name) p old new w'"
      "namespaces w' = namespaces v" "database w' = db" for w' and x :: "any_payload txn_journal list"
  proof -
    have "runs_within 3 (cleanup_txn ns name) ?P (\<lambda>_. ?P) w'"
    proof (rule cleanup_runs [OF ns [OF w'(3)]])
      show "?P w'" using w' ns by (auto simp: half_rolled_back_def unpublished_def)
      show "?P ((drop_files_under (joined ns name) w')\<lparr>steps_left := k\<rparr>)" for k
        using w' ns [OF w'(3)] nu by (auto simp: half_rolled_back_def unpublished_def txn_store txn_files_def)
      show "?P w'' \<and> ?P w''" if "ns_entries ns w'' = []" "database w'' = database w'"
        "\<And>q. \<not> js_starts_with (joined ns name @ ''/'') q \<Longrightarrow> dir_entries w'' q = dir_entries w' q" for w''
        using that w' nu by (auto simp: never_happened_def txn_files_def)
    qed
    then show ?thesis by (auto simp: runs_within_def wp_def andthen_def ret_def split: prod.splits outcome.splits)
  qed
  have "recover_txns_for_root env (proposal_kinds env) (\<lambda>_. True) root v =
    andthen (settle_txn (proposal_handler env) (open_txn ns name j ''prepared'')) (\<lambda>j'. ret [j']) v"
    by (rule recover_holds [OF c held]) (simp add: proposal_txn_phases_def)
  moreover have "andthen (settle_txn (proposal_handler env) (open_txn ns name j ''prepared'')) (\<lambda>j'. ret [j']) =
    andthen (rollback_prepared_proposal env p)
      (\<lambda>_. andthen (cleanup_txn ns name) (\<lambda>_. ret [j\<lparr>journal_phase := ''prepared''\<rparr>]))"
    using c by (simp add: settle_txn_def proposal_handler_def is_committed_phase_def js_index_of_def proposal_txn_phases_def
        recover_rollback_proposal_def config_stands_def prog_laws cong del: andthen_cong)
  moreover have "wp (andthen (rollback_prepared_proposal env p)
      (\<lambda>_. andthen (cleanup_txn ns name) (\<lambda>_. ret [j\<lparr>journal_phase := ''prepared''\<rparr>]))) (\<lambda>r. ?P) v"
    unfolding wp_andthen
    by (rule wp_mono [OF rollback_everywhere [OF disk(1,2)]])
       (use cl disk(3) ns in \<open>auto simp: on_done_def half_rolled_back_def wp_andthen split: outcome.splits\<close>)
  ultimately show ?thesis by (auto simp: recovery_scan_def v_def wp_def split: prod.splits)
qed


text \<open>C15: A scan that dies after it has linked the old content back leaves the asset path occupied by that content, and from
  then on every scan of the root stops with an error without changing anything.\<close>

theorem crash_while_restoring_blocks_recovery:
  assumes c: "config_stands env root ns name j p target" and st: "prepared_stage env ns name j p (Some old) new db w"
    and files: "txn_files p w = (None, Some new, Some old)" and differ: "pp_original_hash p \<noteq> Some (pp_published_hash p)"
  shows "\<exists>w'. recovery_scan env root 1 w = (Crashed, w') \<and>
    dir_entries w' (pp_asset_path p) = Some old \<and>
    (\<forall>n. recovery_scan env root n w' = (Threw ''Cannot restore proposal backup: occupied.'', w'\<lparr>steps_left := n\<rparr>))"
proof -
  have disk: "txn_disk env (joined ns name) p (Some old) new w"
    and held: "holds_only ns name (j\<lparr>journal_phase := ''prepared''\<rparr>) w" using st by (auto simp: prepared_stage_def)
  note d = txn_paths_differ [OF disk]
  have scan: "recovery_scan env root n v = andthen (rollback_prepared_proposal env p)
      (\<lambda>_. andthen (cleanup_txn ns name) (\<lambda>_. ret [j\<lparr>journal_phase := ''prepared''\<rparr>])) (v\<lparr>steps_left := n\<rparr>)"
    if "holds_only ns name (j\<lparr>journal_phase := ''prepared''\<rparr>) v" for n and v
  proof -
    have "recover_txns_for_root env (proposal_kinds env) (\<lambda>_. True) root (v\<lparr>steps_left := n\<rparr>) =
      andthen (settle_txn (proposal_handler env) (open_txn ns name j ''prepared'')) (\<lambda>j'. ret [j']) (v\<lparr>steps_left := n\<rparr>)"
      by (rule recover_holds [OF c]) (use that in \<open>simp_all add: txn_store proposal_txn_phases_def\<close>)
    then show ?thesis using c
      by (simp add: recovery_scan_def settle_txn_def proposal_handler_def is_committed_phase_def js_index_of_def
        proposal_txn_phases_def recover_rollback_proposal_def config_stands_def prog_laws cong del: andthen_cong)
  qed
  define w' where "w' = w\<lparr>steps_left := 0, dir_entries := (dir_entries w)(pp_asset_path p \<mapsto> old)\<rparr>"
  have 1: "recovery_scan env root 1 w = (Crashed, w')"
    unfolding scan [OF held] using files disk by (simp add: w'_def txn_files_def txn_disk_def rollback_prepared_proposal_def
      file_op_defs andthen_def reading_def step_durably_def cleanup_proposal_publication_def ret_def d)
  have 2: "holds_only ns name (j\<lparr>journal_phase := ''prepared''\<rparr>) w'" using held by (simp add: w'_def txn_store)
  have 3: "recovery_scan env root n w' = (Threw ''Cannot restore proposal backup: occupied.'', w'\<lparr>steps_left := n\<rparr>)" for n
    unfolding scan [OF 2] using files disk differ by (simp add: w'_def txn_files_def txn_disk_def rollback_prepared_proposal_def
      file_op_defs andthen_def reading_def step_durably_def cleanup_proposal_publication_def ret_def raise_def d)
  show ?thesis using 1 3 by (intro exI [of _ w']) (simp add: w'_def)
qed


definition accept_setting ::
  "'e proposal_env_scheme \<Rightarrow> write_target \<Rightarrow> proposal_payload \<Rightarrow> any_payload txn_journal \<Rightarrow> string \<Rightarrow> nat option \<Rightarrow> store \<Rightarrow> bool" where
  "accept_setting env target pl j tid old w \<longleftrightarrow>
     (let ns = txn_namespace_dir env (wt_root target); dir = joined ns tid in
      plain_txn_id tid \<and> ns_entries ns w = [] \<and> txn_files pl w = (old, None, None)
      \<and> pp_original_hash pl = map_option (\<lambda>i. sha256 env (inodes w i)) old
      \<and> distinct [pp_asset_path pl, pp_publish_path pl, pp_displaced_path pl]
      \<and> list_all (\<lambda>q. \<not> js_starts_with (dir @ ''/'') q) [pp_asset_path pl, pp_publish_path pl, pp_displaced_path pl]
      \<and> (\<forall>q. js_starts_with (dir @ ''/'') q \<longrightarrow> dir_entries w q = None)
      \<and> (\<forall>q i. dir_entries w q = Some i \<longrightarrow> i < next_inode w)
      \<and> proposal_row_is (open_row pl) pl (database w) \<and> event_count pl j (database w) = 0)"

text \<open>Before the journal exists the transaction directory is all there is.\<close>

definition barely_started :: "string \<Rightarrow> string \<Rightarrow> proposal_payload \<Rightarrow> nat option \<Rightarrow> proposal_db \<Rightarrow> store \<Rightarrow> bool" where
  "barely_started ns tid pl old db w \<longleftrightarrow> txn_files pl w = (old, None, None) \<and> database w = db \<and>
     (ns_entries ns w = [] \<or> (\<exists>d. ns_entries ns w = [(tid, d)] \<and> is_directory d \<and> journal_file d = None))"

lemma joined_inj [simp]: "joined d a = joined d b \<longleftrightarrow> a = b"
  by (simp add: joined_def)

lemma under_joined [simp]: "js_starts_with (d @ ''/'') (joined d a)"
  by (simp add: joined_def js_starts_with_iff)

text \<open>The preparation between the making of the directory and the journal: \<open>k\<close> sidecar files are written.\<close>

definition inodes_bounded :: "store \<Rightarrow> bool" where
  "inodes_bounded w \<longleftrightarrow> (\<forall>q i. dir_entries w q = Some i \<longrightarrow> i < next_inode w)"

definition staged ::
  "'e proposal_env_scheme \<Rightarrow> string \<Rightarrow> string \<Rightarrow> proposal_payload \<Rightarrow> nat option \<Rightarrow> proposal_db \<Rightarrow> string \<Rightarrow> nat \<Rightarrow> store \<Rightarrow> bool" where
  "staged env ns tid pl old db normalized k w \<longleftrightarrow>
     txn_files pl w = (old, None, None) \<and> database w = db \<and> inodes_bounded w
     \<and> (\<exists>d. ns_entries ns w = [(tid, d)] \<and> is_directory d \<and> journal_file d = None)
     \<and> pp_original_hash pl = map_option (\<lambda>i. sha256 env (inodes w i)) old
     \<and> (\<forall>q. js_starts_with (joined ns tid @ ''/'') q \<and> dir_entries w q \<noteq> None \<longrightarrow>
          q = pp_content_path pl \<and> k \<ge> 1 \<or> k \<ge> 2 \<and> pp_backup_path pl = Some q)
     \<and> (k \<ge> 1 \<longrightarrow> (\<exists>c. dir_entries w (pp_content_path pl) = Some c \<and> inodes w c = normalized \<and> old \<noteq> Some c))
     \<and> (k \<ge> 2 \<longrightarrow> (\<forall>q. pp_backup_path pl = Some q \<longrightarrow> dir_entries w q \<noteq> None))"

lemma store_text_fresh:
  "dir_entries w q = None \<Longrightarrow> store_text q text w = w\<lparr>dir_entries := (dir_entries w)(q \<mapsto> next_inode w),
     inodes := (inodes w)(next_inode w := text), next_inode := Suc (next_inode w)\<rparr>"
  by (simp add: store_text_def)

lemma staged_reboot [simp]: "staged env ns tid pl old db normalized k (w\<lparr>steps_left := n\<rparr>) = staged env ns tid pl old db normalized k w"
  by (simp add: staged_def txn_files_def inodes_bounded_def txn_store)

lemma staged_write:
  assumes st: "staged env ns tid pl old db normalized k w" and q: "js_starts_with (joined ns tid @ ''/'') q"
    and out: "list_all (\<lambda>q. \<not> js_starts_with (joined ns tid @ ''/'') q) [pp_asset_path pl, pp_publish_path pl, pp_displaced_path pl]"
    and k: "k = 0 \<and> q = pp_content_path pl \<and> text = normalized \<or> k = 1 \<and> pp_backup_path pl = Some q \<and> q \<noteq> pp_content_path pl"
  shows "staged env ns tid pl old db normalized (Suc k) (store_text q text w)"
proof -
  have fresh: "dir_entries w q = None" using st q k by (force simp: staged_def)
  have old: "old \<noteq> Some (next_inode w)" "\<And>i. old = Some i \<Longrightarrow> i \<noteq> next_inode w"
    "\<And>r. dir_entries w r \<noteq> Some (next_inode w)"
    using st by (auto simp: staged_def txn_files_def inodes_bounded_def)
  have b: "inodes_bounded (store_text q text w)"
    using st fresh by (auto simp: staged_def inodes_bounded_def store_text_fresh less_Suc_eq)
  have h: "map_option (\<lambda>i. sha256 env (if i = next_inode w then text else inodes w i)) old = map_option (\<lambda>i. sha256 env (inodes w i)) old"
    using old(2) by (cases old) auto
  from k show ?thesis
  proof (elim disjE conjE)
    assume "k = 0" "q = pp_content_path pl" "text = normalized"
    then show ?thesis using st q out old(1) b h unfolding store_text_fresh [OF fresh]
      by (auto simp: staged_def txn_files_def txn_store)
  next
    assume k: "k = 1" "pp_backup_path pl = Some q" "q \<noteq> pp_content_path pl"
    then obtain c where "dir_entries w (pp_content_path pl) = Some c" "inodes w c = normalized" "old \<noteq> Some c"
      using st by (auto simp: staged_def)
    moreover from this have "c \<noteq> next_inode w" using old(3) by auto
    ultimately show ?thesis using st q out b h k unfolding store_text_fresh [OF fresh]
      by (auto simp: staged_def txn_files_def txn_store)
  qed
qed


lemma store_text_steps [simp]: "steps_left (store_text q text w) = steps_left w"
  by (simp add: store_text_def split: option.split)

lemma staged_write_runs:
  assumes st: "staged env ns tid pl old db normalized k w" and q: "js_starts_with (joined ns tid @ ''/'') q"
    and out: "list_all (\<lambda>q. \<not> js_starts_with (joined ns tid @ ''/'') q) [pp_asset_path pl, pp_publish_path pl, pp_displaced_path pl]"
    and k: "k = 0 \<and> q = pp_content_path pl \<and> text = normalized \<or> k = 1 \<and> pp_backup_path pl = Some q \<and> q \<noteq> pp_content_path pl"
    and crash: "crash w"
  shows "runs_within 1 (write_file q text) crash (\<lambda>_. staged env ns tid pl old db normalized (Suc k)) w"
  unfolding write_file_def
proof (rule runs_within_step)
  show "staged env ns tid pl old db normalized (Suc k) (store_text q text (w\<lparr>steps_left := steps_left w - 1\<rparr>))"
    by (rule staged_write [OF _ q out k]) (use st in simp)
qed (simp_all add: crash)

lemma staged_barely: "staged env ns tid pl old db normalized k w \<Longrightarrow> barely_started ns tid pl old db w"
  by (auto simp: staged_def barely_started_def)

text \<open>The journal is there, the file to publish is not yet.\<close>

definition opened ::
  "'e proposal_env_scheme \<Rightarrow> string \<Rightarrow> string \<Rightarrow> any_payload txn_journal \<Rightarrow> proposal_payload \<Rightarrow> nat option \<Rightarrow> proposal_db \<Rightarrow> store \<Rightarrow> bool" where
  "opened env ns tid j pl old db w \<longleftrightarrow> (\<exists>c. prepared_stage env ns tid j pl old c db w)
     \<and> txn_files pl w = (old, None, None) \<and> inodes_bounded w \<and> sidecars_there (joined ns tid) pl (dir_entries w)
     \<and> proposal_row_is (open_row pl) pl (database w) \<and> event_count pl j (database w) = 0"

lemma journal_opens:
  assumes st: "staged env ns tid pl old db normalized 2 w"
    and paths: "distinct [pp_asset_path pl, pp_publish_path pl, pp_displaced_path pl]"
      "list_all (\<lambda>q. \<not> js_starts_with (joined ns tid @ ''/'') q) [pp_asset_path pl, pp_publish_path pl, pp_displaced_path pl]"
      "js_starts_with (joined ns tid @ ''/'') (pp_content_path pl)"
      "\<And>q. pp_backup_path pl = Some q \<Longrightarrow> js_starts_with (joined ns tid @ ''/'') q"
    and hash: "pp_published_hash pl = sha256 env normalized"
    and row: "proposal_row_is (open_row pl) pl db" "event_count pl j db = 0"
    and ph: "journal_phase j = ''prepared''"
  shows "opened env ns tid j pl old db (put_journal ns tid j w)"
proof -
  obtain c where c: "dir_entries w (pp_content_path pl) = Some c" "inodes w c = normalized" "old \<noteq> Some c"
    using st by (auto simp: staged_def)
  have only: "only_txn ns tid w" using st by (auto simp: staged_def only_txn_def)
  have same: "j\<lparr>journal_phase := ''prepared''\<rparr> = j" using ph by simp
  have "txn_disk env (joined ns tid) pl old c w"
    using st paths hash c by (auto simp: txn_disk_def staged_def)
  then have "prepared_stage env ns tid j pl old c db (put_journal ns tid j w)"
    using st only by (simp add: prepared_stage_def unpublished_def same txn_store staged_def txn_files_def split: option.split)
  moreover have "sidecars_there (joined ns tid) pl (dir_entries w)"
    using st paths c by (auto simp: sidecars_there_def staged_def split: option.splits)
  ultimately show ?thesis
    using st row by (auto simp: opened_def staged_def txn_store txn_files_def inodes_bounded_def)
qed

lemma opened_publishes:
  assumes st: "opened env ns tid j pl old db w" and hash: "pp_published_hash pl = sha256 env normalized"
  shows "\<exists>new. txn_ready env ns tid j pl old new (store_text (pp_publish_path pl) normalized w)"
proof -
  obtain c where c: "prepared_stage env ns tid j pl old c db w" using st by (auto simp: opened_def)
  have disk: "txn_disk env (joined ns tid) pl old c w" using c by (simp add: prepared_stage_def)
  note d = txn_paths_differ [OF disk] and nu = not_under [OF disk]
  have fresh: "dir_entries w (pp_publish_path pl) = None" using st by (simp add: opened_def txn_files_def)
  have i: "\<And>i. old = Some i \<Longrightarrow> i \<noteq> next_inode w" using st by (auto simp: opened_def txn_files_def inodes_bounded_def)
  have h: "map_option (\<lambda>i. sha256 env (if i = next_inode w then normalized else inodes w i)) old = map_option (\<lambda>i. sha256 env (inodes w i)) old"
    using i by (cases old) auto
  have "txn_ready env ns tid j pl old (next_inode w) (store_text (pp_publish_path pl) normalized w)"
    unfolding store_text_fresh [OF fresh]
    using st c d nu h i hash by (auto simp: txn_ready_def opened_def prepared_stage_def txn_disk_def txn_files_def txn_store)
  then show ?thesis by blast
qed


lemma prepare_runs:
  fixes env :: "'e proposal_env_scheme"
  assumes pl: "pl = prepared_payload env stash target p asset (with_final_newline content) tid operation original backup gate"
    and j: "j = opened_journal env proposal_txn_phases proposal_txn_kind (wt_root target) [prepared_change pl] (ProposalPayload pl) decided tid"
    and s: "accept_setting env target pl j tid old w"
    and ns: "ns = txn_namespace_dir env (wt_root target)"
  shows "runs_within 6 (prepare_proposal_transaction env stash target p asset content tid decided operation original backup gate)
     (\<lambda>w'. barely_started ns tid pl old (database w) w' \<or> (\<exists>new. prepared_stage env ns tid j pl old new (database w) w'))
     (\<lambda>t w'. t = open_txn ns tid j ''prepared'' \<and> (\<exists>new. txn_ready env ns tid j pl old new w') \<and> database w' = database w) w"
    (is "runs_within 6 ?m ?crash ?done w")
proof -
  define db where "db = database w"
  define n where "n = with_final_newline content"
  have paths: "pp_content_path pl = joined (joined ns tid) ''published-content''"
    "pp_backup_path pl = map_option (\<lambda>_. joined (joined ns tid) ''backup-content'') backup"
    and hash: "pp_published_hash pl = sha256 env n"
    by (simp_all add: pl prepared_payload_def Let_def ns n_def)
  have jph: "journal_phase j = ''prepared''" by (simp add: j opened_journal_def proposal_txn_phases_def)
  have set: "plain_txn_id tid" "ns_entries ns w = []" "txn_files pl w = (old, None, None)"
    "pp_original_hash pl = map_option (\<lambda>i. sha256 env (inodes w i)) old"
    "distinct [pp_asset_path pl, pp_publish_path pl, pp_displaced_path pl]"
    "list_all (\<lambda>q. \<not> js_starts_with (joined ns tid @ ''/'') q) [pp_asset_path pl, pp_publish_path pl, pp_displaced_path pl]"
    "\<forall>q. js_starts_with (joined ns tid @ ''/'') q \<longrightarrow> dir_entries w q = None" "inodes_bounded w"
    "proposal_row_is (open_row pl) pl db" "event_count pl j db = 0"
    using s by (simp_all add: accept_setting_def Let_def ns db_def inodes_bounded_def)
  have 0: "runs_within 1 (step_durably (make_txn_dir ns tid)) ?crash (\<lambda>_. staged env ns tid pl old db n 0) w"
    using set by (intro runs_within_step)
      (auto simp: barely_started_def db_def txn_store staged_def make_txn_dir_def find_txn_dir_def txn_files_def inodes_bounded_def)
  have barely: "staged env ns tid pl old db n k v \<Longrightarrow> ?crash v" for k v
    by (simp add: db_def staged_barely)
  have 1: "runs_within 1 (write_file (pp_content_path pl) n) ?crash (\<lambda>_. staged env ns tid pl old db n 1) v"
    if "staged env ns tid pl old db n 0 v" for v
    using staged_write_runs [OF that _ set(6), of "pp_content_path pl" n ?crash] barely [OF that] by (simp add: paths)
  have 2: "runs_within 1 (case backup of None \<Rightarrow> ret () | Some b \<Rightarrow> write_file (joined (joined ns tid) ''backup-content'') b) ?crash
      (\<lambda>_. staged env ns tid pl old db n 2) v"
    if st: "staged env ns tid pl old db n 1 v" for v
  proof (cases backup)
    case None
    then show ?thesis using st by (auto simp: paths intro!: runs_within_ret) (auto simp: staged_def paths)
  next
    case (Some b)
    then show ?thesis
      using staged_write_runs [OF st _ set(6), of "joined (joined ns tid) ''backup-content''" b ?crash] barely [OF st]
      by (simp add: paths numeral_2_eq_2)
  qed
  have 3: "runs_within 2 (begin_txn env kind_phases proposal_txn_kind (wt_root target) [prepared_change pl] (ProposalPayload pl) decided tid)
      ?crash (\<lambda>t v. t = open_txn ns tid j ''prepared'' \<and> opened env ns tid j pl old db v) v"
    if st: "staged env ns tid pl old db n 2 v" for v
  proof -
    have dir: "find_txn_dir ns tid v \<noteq> None" using st by (auto simp: staged_def find_txn_dir_def)
    have t: "\<lparr>txn_journal_of = j, txn_ns = ns, txn_name = tid\<rparr> = open_txn ns tid j ''prepared''"
      using jph by (simp add: open_txn_def)
    have mk: "make_txn_dir ns tid (v\<lparr>steps_left := k\<rparr>) = v\<lparr>steps_left := k\<rparr>" for k
      using dir by (simp add: make_txn_dir_def find_txn_dir_def txn_store)
    have jj: "j\<lparr>journal_phase := ''prepared''\<rparr> = j" using jph by simp
    have "opened env ns tid j pl old db (put_journal ns tid j (v\<lparr>steps_left := k\<rparr>))" for k
      by (rule journal_opens [where normalized = n]) (use st set paths hash jph in auto)
    then show ?thesis using barely [OF st] barely [of 2 "v\<lparr>steps_left := k\<rparr>" for k] st set(1)
      by (auto simp: runs_within_def costs_def begin_txn_def require_kind_def prog_wp Let_def write_journal_def mk t
        j [symmetric] ns [symmetric] txn_store jj)
  qed
  have 4: "runs_within 1 (catching (write_new_file (pp_publish_path pl) n) (abandon_txn env t pl)) ?crash
      (\<lambda>_ v. (\<exists>new. txn_ready env ns tid j pl old new v) \<and> database v = database w) v"
    if st: "opened env ns tid j pl old db v" for v and t :: "any_payload txn"
  proof -
    have "\<not> file_exists (pp_publish_path pl) v" "?crash v" "database v = db"
      using st by (auto simp: opened_def file_exists_def txn_files_def prepared_stage_def db_def)
    moreover have "opened env ns tid j pl old db (v\<lparr>steps_left := k\<rparr>)" for k
      using st by (simp add: opened_def txn_files_def inodes_bounded_def)
    then have "\<exists>new. txn_ready env ns tid j pl old new (store_text (pp_publish_path pl) n (v\<lparr>steps_left := k\<rparr>))" for k
      using opened_publishes [OF _ hash] by blast
    moreover have "database (store_text q x u) = database u" for q x u by (simp add: store_text_def split: option.split)
    ultimately show ?thesis
      by (simp add: runs_within_def costs_def write_new_file_def write_file_def prog_wp db_def)
  qed
  have 45: "runs_within 1 (andthen (catching (write_new_file (pp_publish_path pl) n) (abandon_txn env t pl)) (\<lambda>_. ret t)) ?crash ?done v"
    if st: "t = open_txn ns tid j ''prepared'' \<and> opened env ns tid j pl old db v" for v and t :: "any_payload txn"
    by (rule runs_within_returning, rule runs_within_mono [OF 4]) (use st in auto)
  show ?thesis
    using runs_within_andthen [OF 0 runs_within_andthen [OF 1 runs_within_andthen [OF 2 runs_within_andthen [OF 3 45]]]]
    unfolding prepare_proposal_transaction_def Let_def unfolding pl [symmetric] unfolding n_def [symmetric] ns [symmetric]
    by simp
qed


text \<open>A directory without a journal is swept once it is old enough, and left alone before that.\<close>

lemma scan_barely_started:
  assumes st: "barely_started ns tid pl old db w" and ns: "ns = txn_namespace_dir env root" and n: "2 \<le> n"
    and out: "list_all (\<lambda>q. \<not> js_starts_with (joined ns tid @ ''/'') q) [pp_asset_path pl, pp_publish_path pl, pp_displaced_path pl]"
  shows "\<exists>w'. recovery_scan env root n w = (Done [], w') \<and> txn_files pl w' = (old, None, None) \<and> database w' = db"
proof (cases "ns_entries ns w = []")
  case True
  then have "ns_entries (txn_namespace_dir env root) (w\<lparr>steps_left := n\<rparr>) = []" by (simp add: ns txn_store)
  then show ?thesis using st by (simp add: recovery_scan_def recover_empty barely_started_def txn_files_def)
next
  case False
  then obtain d where d: "ns_entries ns w = [(tid, d)]" "is_directory d" "journal_file d = None"
    using st by (auto simp: barely_started_def)
  define v where "v = w\<lparr>steps_left := n\<rparr>"
  have v: "ns_entries (txn_namespace_dir env root) v = [(tid, d)]" using d by (simp add: v_def ns txn_store)
  have "wp (recover_txns_for_root env (proposal_kinds env) (\<lambda>_. True) root)
     (\<lambda>r w'. r = Done [] \<and> txn_files pl w' = (old, None, None) \<and> database w' = db) v"
    using v d st n out
    by (auto simp: recover_txns_for_root_def prog_wp recover_entry_def Let_def found_journal_def find_txn_dir_def
      sweep_journalless_txn_dir_def barely_started_def txn_files_def txn_store ns v_def)
  then show ?thesis by (auto simp: wp_def recovery_scan_def v_def split: prod.splits)
qed

text \<open>What a crash during an accept can leave.\<close>

definition accept_interrupted where
  "accept_interrupted env ns tid j pl old db v \<longleftrightarrow>
     barely_started ns tid pl old db v \<or> (\<exists>new. recoverable env ns tid j pl old new db v)"

lemma accept_runs:
  fixes env :: "'e proposal_env_scheme"
  assumes pl: "pl = prepared_payload env stash target p asset (with_final_newline content) tid Accept
                      (map_option (sha256 env) (file_text asset w)) (file_text asset w) gate"
    and j: "j = opened_journal env proposal_txn_phases proposal_txn_kind (wt_root target) [prepared_change pl] (ProposalPayload pl) decided tid"
    and s: "accept_setting env target pl j tid old w"
    and c: "config_stands env (wt_root target) (txn_namespace_dir env (wt_root target)) tid j pl target"
  shows "runs_within 21 (accept_transaction env stash target p asset content tid decided gate)
      (accept_interrupted env (txn_namespace_dir env (wt_root target)) tid j pl old (database w))
      (\<lambda>q v. settled_row pl q \<and> (\<exists>new. fully_happened (txn_namespace_dir env (wt_root target)) j pl new v)) w"
proof -
  let ?ns = "txn_namespace_dir env (wt_root target)"
  let ?crash = "accept_interrupted env ?ns tid j pl old (database w)"
  have id: "prop_id p = pp_proposal_id pl" "pp_stash_dir pl = stash" by (simp_all add: pl prepared_payload_def Let_def)
  have prep: "runs_within 6 (prepare_proposal_transaction env stash target p asset content tid decided Accept
       (map_option (sha256 env) (file_text asset w)) (file_text asset w) gate) ?crash
     (\<lambda>t v. t = open_txn ?ns tid j ''prepared'' \<and> (\<exists>new. txn_ready env ?ns tid j pl old new v) \<and> database v = database w) w"
    by (rule runs_within_mono [OF prepare_runs [OF pl j s refl]]) (auto simp: accept_interrupted_def recoverable_def)
  have rest: "runs_within 15 (andthen (run_prepared_transaction env t target p) (\<lambda>_. get_proposal stash (prop_id p))) ?crash
      (\<lambda>q v. settled_row pl q \<and> (\<exists>new. fully_happened ?ns j pl new v)) v"
    if t: "t = open_txn ?ns tid j ''prepared'' \<and> (\<exists>new. txn_ready env ?ns tid j pl old new v) \<and> database v = database w" for t v
  proof -
    obtain new where new: "txn_ready env ?ns tid j pl old new v" using t by blast
    have 1: "runs_within 15 (run_prepared_transaction env t target p) ?crash (\<lambda>_. fully_happened ?ns j pl new) v"
      unfolding conjunct1 [OF t]
      by (rule runs_within_mono [OF prepared_runs [OF c new id(1)]]) (use t in \<open>auto simp: accept_interrupted_def\<close>)
    have 2: "runs_within 0 (get_proposal stash (prop_id p)) ?crash (\<lambda>q v. settled_row pl q \<and> (\<exists>new. fully_happened ?ns j pl new v)) u"
      if "fully_happened ?ns j pl new u" for u
      using that id by (auto simp: runs_within_def get_proposal_def prog_wp costs_def fully_happened_def proposal_row_is_def
        split: option.splits)
    from runs_within_andthen [OF 1 2] show ?thesis by simp
  qed
  show ?thesis using runs_within_andthen [OF prep rest] by (simp add: accept_transaction_def runs_within_def prog_wp)
qed

lemma interrupted_accept_scanned:
  assumes c: "config_stands env (wt_root target) (txn_namespace_dir env (wt_root target)) tid j pl target"
    and s: "accept_setting env target pl j tid old w" and n: "14 \<le> n"
    and v: "accept_interrupted env (txn_namespace_dir env (wt_root target)) tid j pl old db v"
  shows "\<exists>js u. recovery_scan env (wt_root target) n v = (Done js, u) \<and> (txn_files pl u = (old, None, None) \<and> database u = db \<or>
    (\<exists>new. fully_happened (txn_namespace_dir env (wt_root target)) j pl new u))"
proof -
  let ?ns = "txn_namespace_dir env (wt_root target)"
  consider "barely_started ?ns tid pl old db v" | new where "recoverable env ?ns tid j pl old new db v"
    using v by (auto simp: accept_interrupted_def)
  then show ?thesis
  proof cases
    case 1
    have "list_all (\<lambda>q. \<not> js_starts_with (joined ?ns tid @ ''/'') q) [pp_asset_path pl, pp_publish_path pl, pp_displaced_path pl]"
      using s by (simp add: accept_setting_def Let_def)
    then show ?thesis using scan_barely_started [OF 1 refl, of n] n by auto
  next
    case 2
    then show ?thesis using scan_recoverable [OF c 2 n] by (auto simp: never_happened_def)
  qed
qed


section \<open>A concrete transaction\<close>

definition demo_target :: write_target where
  "demo_target = \<lparr>wt_name = ''main'', wt_kind = ''filesystem'', wt_root = ''/s''\<rparr>"

definition demo_env :: proposal_env where
  "demo_env = \<lparr>sha256 = (\<lambda>x. x), real_path = (\<lambda>p. None), work_dir = [], data_dir = ''/d'',
     safe_real_path = (\<lambda>p. p), ref_bundle = (\<lambda>r. Some ''main''),
     bundle_target = (\<lambda>n. if n = ''main'' then Some demo_target else None), prepare_target = Inr,
     git_publication_of = (\<lambda>t. None), git_snapshot = (\<lambda>t p. ''''), ensure_commit = (\<lambda>t p. Inl ''''),
     push_commit = (\<lambda>t p. None), index_assets = (\<lambda>r ps. True)\<rparr>"

definition demo_proposal :: proposal where
  "demo_proposal = \<lparr>prop_id = ''q'', prop_ref = ''main//memories/a'', prop_status = Pending, prop_source = ''reflect'',
     prop_source_run = Some ''r1'', prop_updated_at = ''t0'', prop_content = ''new'', prop_changes = [],
     prop_proposed_target = None, prop_review = None, prop_gate = None, prop_backup = None, prop_accepted_target = None\<rparr>"

definition demo_store :: "nat \<Rightarrow> store" where
  "demo_store n = \<lparr>steps_left = n, dir_entries = (\<lambda>p. if p = ''/s/a.md'' then Some 0 else None),
     inodes = (\<lambda>i. ''old''), next_inode = 1, namespaces = [], now_ms = 0,
     database = \<lparr>proposals = (\<lambda>k. if k = (''q'', ''/s'') then Some demo_proposal else None), events = []\<rparr>\<rparr>"

definition demo_payload :: proposal_payload where
  "demo_payload = prepared_payload demo_env ''/s'' demo_target demo_proposal ''/s/a.md'' (with_final_newline ''new'') ''t1'' Accept
     (map_option (sha256 demo_env) (file_text ''/s/a.md'' (demo_store 0))) (file_text ''/s/a.md'' (demo_store 0)) None"

definition demo_journal :: "any_payload txn_journal" where
  "demo_journal = opened_journal demo_env proposal_txn_phases proposal_txn_kind ''/s'' [prepared_change demo_payload]
     (ProposalPayload demo_payload) ''t1'' ''t1''"

definition demo_ns :: string where
  "demo_ns = txn_namespace_dir demo_env ''/s''"

definition demo_prepared :: "nat \<Rightarrow> store" where
  "demo_prepared n = (snd (prepare_proposal_transaction demo_env ''/s'' demo_target demo_proposal ''/s/a.md'' ''new'' ''t1'' ''t1'' Accept
     (Some ''old'') (Some ''old'') None (demo_store 20)))\<lparr>steps_left := n\<rparr>"


lemma demo_config: "config_stands demo_env ''/s'' demo_ns ''t1'' demo_journal demo_payload demo_target"
  by code_simp

lemma demo_setting: "accept_setting demo_env demo_target demo_payload demo_journal ''t1'' (Some 0) (demo_store n)"
proof -
  have paths: "\<not> js_starts_with (joined (txn_namespace_dir demo_env (wt_root demo_target)) ''t1'' @ ''/'') ''/s/a.md''" by code_simp
  have pl: "plain_txn_id ''t1''" "distinct [pp_asset_path demo_payload, pp_publish_path demo_payload, pp_displaced_path demo_payload]"
    "list_all (\<lambda>q. \<not> js_starts_with (joined (txn_namespace_dir demo_env (wt_root demo_target)) ''t1'' @ ''/'') q)
       [pp_asset_path demo_payload, pp_publish_path demo_payload, pp_displaced_path demo_payload]"
    "pp_original_hash demo_payload = Some (sha256 demo_env ''old'')"
    "txn_files demo_payload (demo_store 0) = (Some 0, None, None)"
    "proposal_row_is (open_row demo_payload) demo_payload (database (demo_store 0))"
    "event_count demo_payload demo_journal (database (demo_store 0)) = 0"
    by code_simp+
  have db: "database (demo_store n) = database (demo_store 0)" "dir_entries (demo_store n) = dir_entries (demo_store 0)"
    "inodes (demo_store n) = inodes (demo_store 0)"
    by (simp_all add: demo_store_def)
  show ?thesis
    using pl paths unfolding accept_setting_def Let_def db txn_files_def
    by (auto simp: demo_store_def ns_entries_def)
qed

lemma demo_ready: "txn_ready demo_env demo_ns ''t1'' demo_journal demo_payload (Some 0) 3 (demo_prepared n)"
proof -
  have "txn_ready demo_env demo_ns ''t1'' demo_journal demo_payload (Some 0) 3 (demo_prepared 0)" by code_simp
  then show ?thesis by (simp add: txn_ready_def demo_prepared_def txn_store txn_files_def)
qed

lemma demo_proposal_id: "prop_id demo_proposal = pp_proposal_id demo_payload"
  by code_simp


definition demo_crashed :: "nat \<Rightarrow> store" where
  "demo_crashed n = snd (run_prepared_transaction demo_env (open_txn demo_ns ''t1'' demo_journal ''prepared'') demo_target demo_proposal
     (demo_prepared n))"

lemma demo_root [simp]: "wt_root demo_target = ''/s''" "txn_namespace_dir demo_env ''/s'' = demo_ns"
  by (simp_all add: demo_target_def demo_ns_def)




lemma demo_half_published:
  "prepared_stage demo_env demo_ns ''t1'' demo_journal demo_payload (Some 0) 3 (database (demo_crashed 1)) (demo_crashed 1)"
proof -
  have "txn_disk demo_env (joined demo_ns ''t1'') demo_payload (Some 0) 3 (demo_crashed 1)"
    "unpublished (Some 0) 3 (txn_files demo_payload (demo_crashed 1))"
    "holds_only demo_ns ''t1'' (demo_journal\<lparr>journal_phase := ''prepared''\<rparr>) (demo_crashed 1)"
    by code_simp+
  then show ?thesis by (simp add: prepared_stage_def)
qed


theorem crash_while_restoring_blocks_recovery_witness:
  "\<exists>w'. recovery_scan demo_env ''/s'' 1 (demo_crashed 1) = (Crashed, w') \<and> dir_entries w' (pp_asset_path demo_payload) = Some 0 \<and>
    (\<forall>n. recovery_scan demo_env ''/s'' n w' = (Threw ''Cannot restore proposal backup: occupied.'', w'\<lparr>steps_left := n\<rparr>))"
proof (rule crash_while_restoring_blocks_recovery [OF demo_config demo_half_published])
  show "txn_files demo_payload (demo_crashed 1) = (None, Some 3, Some 0)" by code_simp
  show "pp_original_hash demo_payload \<noteq> Some (pp_published_hash demo_payload)" by code_simp
qed

definition demo_edited :: store where
  "demo_edited = (demo_prepared 0)\<lparr>inodes := (\<lambda>i. ''edited'')\<rparr>"


end
