(* ===== verification/Proposal_Reject.thy ===== *)
theory Proposal_Reject
  imports Proposal_Atomicity
begin

text \<open>
  Rejecting a proposal: the transaction only touches the database and rolls forward from its first phase on, so
  once its journal is on disk the rejection happens, whatever number of crashes lie between.
\<close>

definition rejection_count :: "any_payload txn_journal \<Rightarrow> string \<Rightarrow> proposal_db \<Rightarrow> nat" where
  "rejection_count j rf db = length (filter (\<lambda>e. event_type e = ''rejected'' \<and> event_ref e = rf
     \<and> event_key e = transaction_id j) (events db))"

definition row_with :: "reject_payload \<Rightarrow> string \<Rightarrow> proposal_status \<Rightarrow> proposal_db \<Rightarrow> bool" where
  "row_with p rf st db \<longleftrightarrow> (case proposals db (rp_proposal_id p, rp_stash_dir p) of
     None \<Rightarrow> False | Some r \<Rightarrow> prop_id r = rp_proposal_id p \<and> prop_ref r = rf \<and> prop_status r = st)"

definition reject_db_at :: "reject_payload \<Rightarrow> any_payload txn_journal \<Rightarrow> string \<Rightarrow> string \<Rightarrow> proposal_db \<Rightarrow> bool" where
  "reject_db_at p j rf ph db \<longleftrightarrow>
     (if ph = ''prepared'' then rejection_count j rf db = 0 \<and> (row_with p rf Pending db \<or> row_with p rf Rejected db)
      else row_with p rf Rejected db \<and>
        (if ph = ''state-persisted'' then rejection_count j rf db \<le> 1 else rejection_count j rf db = 1))"

definition reject_at ::
  "string \<Rightarrow> string \<Rightarrow> any_payload txn_journal \<Rightarrow> reject_payload \<Rightarrow> string \<Rightarrow> string \<Rightarrow> store \<Rightarrow> bool" where
  "reject_at ns name j p rf ph w \<longleftrightarrow>
     holds_only ns name (j\<lparr>journal_phase := ph\<rparr>) w \<and> reject_db_at p j rf ph (database w)"

definition rejection_done :: "string \<Rightarrow> any_payload txn_journal \<Rightarrow> reject_payload \<Rightarrow> string \<Rightarrow> store \<Rightarrow> bool" where
  "rejection_done ns j p rf w \<longleftrightarrow> ns_entries ns w = [] \<and> row_with p rf Rejected (database w)
     \<and> rejection_count j rf (database w) = 1"

definition rejecting where
  "rejecting ns name j p rf w \<longleftrightarrow> (\<exists>ph \<in> set reject_txn_phases. reject_at ns name j p rf ph w) \<or> rejection_done ns j p rf w"

lemma rejectingI: "reject_at ns name j p rf ph w \<Longrightarrow> ph \<in> set reject_txn_phases \<Longrightarrow> rejecting ns name j p rf w"
  by (auto simp: rejecting_def)

lemma reject_phases [simp]: "''prepared'' \<in> set reject_txn_phases"
  by (simp add: reject_txn_phases_def)

lemma reject_at_reboot [simp]:
  "reject_at ns name j p rf ph (w\<lparr>steps_left := n\<rparr>) = reject_at ns name j p rf ph w"
  "rejection_done ns j p rf (w\<lparr>steps_left := n\<rparr>) = rejection_done ns j p rf w"
  "rejecting ns name j p rf (w\<lparr>steps_left := n\<rparr>) = rejecting ns name j p rf w"
  by (simp_all add: reject_at_def rejection_done_def rejecting_def txn_store)

section \<open>The stretches\<close>

lemma reject_advance_runs:
  assumes j: "journal_kind j = reject_txn_kind" and to: "to \<in> set reject_txn_phases" and ph: "ph \<in> set reject_txn_phases"
    and at: "reject_at ns name j p rf ph w" and db: "reject_db_at p j rf to (database w)"
  shows "runs_within 1 (advance (open_txn ns name j ph) to) (rejecting ns name j p rf)
     (\<lambda>t w'. t = open_txn ns name j to \<and> reject_at ns name j p rf to w') w"
proof -
  have "only_txn ns name w" using at by (auto simp: reject_at_def holds_only_only)
  then have "reject_at ns name j p rf to (put_journal ns name (j\<lparr>journal_phase := to\<rparr>) (w\<lparr>steps_left := n\<rparr>))" for n
    using db by (simp add: reject_at_def txn_store)
  then show ?thesis using rejectingI [OF at ph]
    by (simp add: runs_within_def costs_def advance_wp j to txn_store)
qed

lemma archive_runs:
  assumes at: "reject_at ns name j p rf ''prepared'' w" and pending: "row_with p rf Pending (database w)"
  shows "runs_within 1 (andthen (archive_proposal (rp_stash_dir p) (rp_proposal_id p) Rejected reason decided gate) (\<lambda>_. ret ()))
     (rejecting ns name j p rf)
     (\<lambda>_ w'. reject_at ns name j p rf ''prepared'' w' \<and> row_with p rf Rejected (database w')) w"
proof -
  obtain r where r: "proposals (database w) (rp_proposal_id p, rp_stash_dir p) = Some r"
    "prop_id r = rp_proposal_id p" "prop_ref r = rf" "prop_status r = Pending"
    using pending by (auto simp: row_with_def split: option.splits)
  define r' where "r' = with_gate decided gate (r\<lparr>prop_status := Rejected, prop_updated_at := decided,
     prop_review := Some \<lparr>review_accepted = False, review_reason = reason, review_decided_at = decided\<rparr>\<rparr>)"
  have r': "prop_id r' = rp_proposal_id p" "prop_ref r' = rf" "prop_status r' = Rejected"
    using r by (simp_all add: r'_def with_gate_def split: option.split)
  have row: "row_with p rf Rejected (put_proposal (rp_stash_dir p) r' (database w))"
    using r' by (simp add: row_with_def put_proposal_def)
  have "reject_at ns name j p rf ''prepared'' (w\<lparr>steps_left := n, database := put_proposal (rp_stash_dir p) r' (database w)\<rparr>)" for n
    using at row by (simp add: reject_at_def reject_db_at_def txn_store rejection_count_def put_proposal_def)
  then show ?thesis using r row rejectingI [OF at]
    by (auto simp: runs_within_def costs_def archive_proposal_def get_proposal_def upsert_proposal_def prog_wp Let_def
        r'_def [symmetric])
qed

lemma reject_event_runs:
  assumes at: "reject_at ns name j p rf ''state-persisted'' w" and rf: "prop_ref r = rf"
  shows "runs_within 1 (insert_event_once (reject_event_of (j\<lparr>journal_phase := ph\<rparr>) r)) (rejecting ns name j p rf)
     (\<lambda>_ w'. reject_at ns name j p rf ''state-persisted'' w' \<and> rejection_count j rf (database w') = 1) w"
proof -
  let ?e = "reject_event_of (j\<lparr>journal_phase := ph\<rparr>) r"
  have same: "same_event ?e = (\<lambda>e. event_type e = ''rejected'' \<and> event_ref e = rf \<and> event_key e = transaction_id j)"
    using rf by (auto simp: same_event_def reject_event_of_def fun_eq_iff)
  then have there: "list_ex (same_event ?e) (events db) \<longleftrightarrow> rejection_count j rf db \<noteq> 0" for db
    by (simp add: rejection_count_def list_ex_iff filter_empty_conv) blast
  have added: "rejection_count j rf (db\<lparr>events := events db @ [?e]\<rparr>) = Suc (rejection_count j rf db)" for db
    using rf by (simp add: rejection_count_def reject_event_of_def)
  have row: "row_with p rf st (db\<lparr>events := es\<rparr>) = row_with p rf st db" for st db es by (simp add: row_with_def)
  have db: "rejection_count j rf (database w) \<le> 1" "row_with p rf Rejected (database w)"
    using at by (simp_all add: reject_at_def reject_db_at_def)
  have "''state-persisted'' \<in> set reject_txn_phases" by simp
  note crash = rejectingI [OF at this]
  show ?thesis
  proof (cases "rejection_count j rf (database w) = 0")
    case True
    then show ?thesis using at crash db
      by (simp add: runs_within_def costs_def insert_event_once_def prog_wp there added reject_at_def reject_db_at_def row txn_store)
  next
    case False
    then show ?thesis using at db
      by (simp add: runs_within_def costs_def insert_event_once_def prog_wp there)
  qed
qed


section \<open>Whole runs\<close>

lemma reject_at_row:
  "reject_at ns name j p rf ph w \<Longrightarrow> \<exists>r. proposals (database w) (rp_proposal_id p, rp_stash_dir p) = Some r \<and>
     prop_id r = rp_proposal_id p \<and> prop_ref r = rf \<and> (ph \<noteq> ''prepared'' \<longrightarrow> prop_status r = Rejected)
     \<and> prop_status r \<in> {Pending, Rejected}"
  by (auto simp: reject_at_def reject_db_at_def row_with_def split: if_splits option.splits)

lemma finalize_reject_runs:
  assumes j: "journal_kind j = reject_txn_kind"
    and at: "reject_at ns name j p rf ph w" and ph: "ph \<in> set (butlast reject_txn_phases)"
  shows "runs_within 5 (finalize_reject_transaction (open_txn ns name j ph) p) (rejecting ns name j p rf)
     (\<lambda>t w'. t = open_txn ns name j ''committed'' \<and> reject_at ns name j p rf ''committed'' w') w"
proof -
  let ?at = "reject_at ns name j p rf" and ?crash = "rejecting ns name j p rf"
  let ?to = "\<lambda>ph t w'. t = open_txn ns name j ph \<and> ?at ph w'"
  define r3 :: "any_payload txn \<Rightarrow> any_payload txn act" where
    "r3 = in_txn_phase ''event-finalized'' (\<lambda>t. advance t ''committed'')"
  define r2 :: "any_payload txn \<Rightarrow> any_payload txn act" where
    "r2 t = andthen (in_txn_phase ''state-persisted'' (\<lambda>t.
        andthen (get_proposal (rp_stash_dir p) (rp_proposal_id p)) (\<lambda>proposal.
        andthen (insert_event_once (reject_event_of (txn_journal_of t) proposal)) (\<lambda>_.
          advance t ''event-finalized''))) t) r3" for t
  define act :: "proposal \<Rightarrow> any_payload txn \<Rightarrow> any_payload txn act" where "act proposal = (\<lambda>t.
        andthen
          (if prop_status proposal = Pending
           then andthen (archive_proposal (rp_stash_dir p) (rp_proposal_id p) Rejected (rp_reason p)
                  (decided_at (txn_journal_of t)) (rp_gate p)) (\<lambda>_. ret ())
           else if prop_status proposal \<noteq> Rejected then raise ''Proposal changed status during rejection'' else ret ())
          (\<lambda>_. advance t ''state-persisted''))" for proposal
  have dbat: "?at ph w \<Longrightarrow> reject_db_at p j rf ph (database w)" for ph w by (simp add: reject_at_def)
  have s3: "runs_within 1 (r3 (open_txn ns name j ''event-finalized'')) ?crash (?to ''committed'') w"
    if "?at ''event-finalized'' w" for w
    unfolding r3_def
    by (rule in_txn_phase_runs(1), rule reject_advance_runs) (use that dbat [OF that] j in \<open>simp_all add: reject_db_at_def\<close>)
  have s2: "runs_within 3 (r2 (open_txn ns name j ''state-persisted'')) ?crash (?to ''committed'') w"
    if at: "?at ''state-persisted'' w" for w
  proof -
    obtain r where r: "proposals (database w) (rp_proposal_id p, rp_stash_dir p) = Some r" "prop_ref r = rf"
      using reject_at_row [OF at] by blast
    have "runs_within 1 (advance (open_txn ns name j ''state-persisted'') ''event-finalized'') ?crash (?to ''event-finalized'') w'"
      if "?at ''state-persisted'' w' \<and> rejection_count j rf (database w') = 1" for w'
      by (rule reject_advance_runs) (use that dbat j in \<open>auto simp: reject_db_at_def\<close>)
    from runs_within_andthen [OF reject_event_runs [OF at r(2)] this]
    have "runs_within 2 (andthen (get_proposal (rp_stash_dir p) (rp_proposal_id p)) (\<lambda>proposal.
        andthen (insert_event_once (reject_event_of (txn_journal_of (open_txn ns name j ''state-persisted'')) proposal)) (\<lambda>_.
          advance (open_txn ns name j ''state-persisted'') ''event-finalized''))) ?crash (?to ''event-finalized'') w"
      using r(1) by (simp add: runs_within_def get_proposal_def prog_wp numeral_2_eq_2)
    from runs_within_andthen [OF in_txn_phase_runs(1) [where act = "\<lambda>t. andthen (get_proposal (rp_stash_dir p) (rp_proposal_id p)) (\<lambda>proposal.
        andthen (insert_event_once (reject_event_of (txn_journal_of t) proposal)) (\<lambda>_. advance t ''event-finalized''))", OF this],
        where f = r3 and l = 1]
    show ?thesis unfolding r2_def using s3 by (simp add: numeral_3_eq_3)
  qed
  have s2e: "runs_within 3 (r2 (open_txn ns name j ''event-finalized'')) ?crash (?to ''committed'') w"
    if at: "?at ''event-finalized'' w" for w
    unfolding r2_def by (rule in_txn_phase_runs(2), simp, rule runs_within_more [OF s3 [OF at]]) simp
  obtain r where r: "proposals (database w) (rp_proposal_id p, rp_stash_dir p) = Some r" "prop_id r = rp_proposal_id p"
    "prop_ref r = rf" "ph \<noteq> ''prepared'' \<longrightarrow> prop_status r = Rejected" "prop_status r \<in> {Pending, Rejected}"
    using reject_at_row [OF at] by blast
  have s1: "runs_within 5 (andthen (in_txn_phase ''prepared'' (act r) (open_txn ns name j ph)) r2) ?crash (?to ''committed'') w"
  proof (cases "ph = ''prepared''")
    case True
    have status: "row_with p rf (prop_status r) (database w)" using r by (simp add: row_with_def)
    have st: "runs_within 1 (if prop_status r = Pending
           then andthen (archive_proposal (rp_stash_dir p) (rp_proposal_id p) Rejected (rp_reason p)
                  (decided_at (txn_journal_of (open_txn ns name j ph))) (rp_gate p)) (\<lambda>_. ret ())
           else if prop_status r \<noteq> Rejected then raise ''Proposal changed status during rejection'' else ret ()) ?crash
        (\<lambda>_ w'. ?at ''prepared'' w' \<and> row_with p rf Rejected (database w')) w"
      using archive_runs [OF at [unfolded True]] status r(5) at True by (auto intro: runs_within_ret)
    have "runs_within 1 (advance (open_txn ns name j ph) ''state-persisted'') ?crash (?to ''state-persisted'') w'"
      if "?at ''prepared'' w' \<and> row_with p rf Rejected (database w')" for w'
      unfolding True by (rule reject_advance_runs) (use that dbat j in \<open>auto simp: reject_db_at_def\<close>)
    from runs_within_andthen [OF st this]
    have "runs_within 2 (act r (open_txn ns name j ph)) ?crash (?to ''state-persisted'') w"
      unfolding act_def by (simp add: numeral_2_eq_2)
    from runs_within_andthen [OF in_txn_phase_runs(1) [where act = "act r", OF this], where f = r2 and l = 3]
    show ?thesis using s2 True by simp
  next
    case False
    then have "ph = ''state-persisted'' \<or> ph = ''event-finalized''" using ph by (auto simp: reject_txn_phases_def)
    then have "runs_within 3 (r2 (open_txn ns name j ph)) ?crash (?to ''committed'') w" using at s2 s2e by auto
    then show ?thesis by (intro in_txn_phase_runs(2)) (use False in \<open>auto intro: runs_within_more\<close>)
  qed
  have "finalize_reject_transaction (open_txn ns name j ph) p =
    andthen (get_proposal (rp_stash_dir p) (rp_proposal_id p)) (\<lambda>proposal.
      andthen (in_txn_phase ''prepared'' (act proposal) (open_txn ns name j ph)) r2)"
    unfolding finalize_reject_transaction_def act_def r2_def r3_def ..
  then show ?thesis using s1 r(1) by (simp add: runs_within_def get_proposal_def prog_wp)
qed


definition reject_stands ::
  "'e proposal_env_scheme \<Rightarrow> string \<Rightarrow> string \<Rightarrow> string \<Rightarrow> any_payload txn_journal \<Rightarrow> reject_payload \<Rightarrow> bool" where
  "reject_stands env root ns name j p \<longleftrightarrow> ns = txn_namespace_dir env root \<and> journal_version j = 1
     \<and> journal_kind j = reject_txn_kind \<and> payload j = RejectPayload p
     \<and> canonical_txn_root env (journal_root j) = canonical_txn_root env root \<and> journal_changes j = []"

lemma recover_reject_holds:
  assumes c: "reject_stands env root ns name j p" and held: "holds_only ns name (j\<lparr>journal_phase := ph\<rparr>) w"
    and ph: "ph \<in> set reject_txn_phases"
  shows "recover_txns_for_root env (proposal_kinds env) (\<lambda>_. True) root w =
    andthen (settle_txn reject_handler (open_txn ns name j ph)) (\<lambda>j'. ret [j']) w"
proof -
  have k: "proposal_kinds env (journal_kind j) = Some reject_handler"
    using c by (simp add: reject_stands_def proposal_kinds_def reject_txn_kind_def proposal_txn_kind_def)
  have f: "fence_journal env (proposal_kinds env) (j\<lparr>journal_phase := ph\<rparr>) (joined ns name) root = None"
    using c k ph by (simp add: fence_journal_def reject_stands_def reject_handler_def)
  show ?thesis
    using c f k holds_only_found [OF held] holds_only_listed [OF held]
    by (simp add: recover_txns_for_root_def andthen_def reading_def recover_entry_def reject_stands_def Let_def
        read_journal_def ret_def open_txn_def split: outcome.split prod.split)
qed

lemma cleanup_reject:
  assumes at: "reject_at ns name j p rf ''committed'' w"
  shows "runs_within 3 (cleanup_txn ns name) (rejecting ns name j p rf) (\<lambda>_. rejection_done ns j p rf) w"
proof (rule cleanup_runs [where j' = "j\<lparr>journal_phase := ''committed''\<rparr>"])
  show "holds_only ns name (j\<lparr>journal_phase := ''committed''\<rparr>) w" using at by (simp add: reject_at_def)
  show "rejecting ns name j p rf w" using rejectingI [OF at] by simp
  have "reject_at ns name j p rf ''committed'' ((drop_files_under (joined ns name) w)\<lparr>steps_left := n\<rparr>)" for n
    using at by (simp add: reject_at_def txn_store)
  then show "rejecting ns name j p rf ((drop_files_under (joined ns name) w)\<lparr>steps_left := n\<rparr>)" for n
    using rejectingI by fastforce
  show "rejecting ns name j p rf w' \<and> rejection_done ns j p rf w'"
    if "ns_entries ns w' = []" "database w' = database w" for w'
    using that at by (simp add: rejecting_def rejection_done_def reject_at_def reject_db_at_def)
qed

lemma settle_reject:
  assumes c: "reject_stands env root ns name j p" and ph: "ph \<in> set reject_txn_phases" and at: "reject_at ns name j p rf ph w"
  shows "runs_within 8 (settle_txn reject_handler (open_txn ns name j ph)) (rejecting ns name j p rf)
    (\<lambda>_. rejection_done ns j p rf) w"
    (is "runs_within 8 ?m ?crash ?done w")
proof -
  have com: "is_committed_phase reject_handler (j\<lparr>journal_phase := ph\<rparr>)"
    using ph by (auto simp: reject_handler_def is_committed_phase_def js_index_of_def reject_txn_phases_def)
  have cl: "runs_within 3 (andthen (cleanup_txn ns name) (\<lambda>_. ret x)) ?crash ?done w'"
    if "reject_at ns name j p rf ''committed'' w'" for w' and x :: "any_payload txn_journal"
    by (rule runs_within_returning, rule cleanup_reject [OF that])
  show ?thesis
  proof (cases "ph = ''committed''")
    case True
    have "?m = andthen (cleanup_txn ns name) (\<lambda>_. ret (j\<lparr>journal_phase := ''committed''\<rparr>))"
      using com True by (simp add: settle_txn_def reject_handler_def reject_txn_phases_def prog_laws cong del: andthen_cong)
    then show ?thesis using runs_within_more [OF cl [OF at [unfolded True]], of 8] by simp
  next
    case False
    then have ph': "ph \<in> set (butlast reject_txn_phases)" "ph \<noteq> last reject_txn_phases" using ph by (auto simp: reject_txn_phases_def)
    have j: "journal_kind j = reject_txn_kind" "payload j = RejectPayload p" using c by (auto simp: reject_stands_def)
    have "?m = andthen (finalize_reject_transaction (open_txn ns name j ph) p)
        (\<lambda>t. andthen (cleanup_txn ns name) (\<lambda>_. ret (txn_journal_of t)))"
      using com ph' j by (simp add: settle_txn_def reject_handler_def recover_finalize_reject_def prog_laws cong del: andthen_cong)
    moreover have "runs_within 8 (andthen (finalize_reject_transaction (open_txn ns name j ph) p)
        (\<lambda>t. andthen (cleanup_txn ns name) (\<lambda>_. ret (txn_journal_of t)))) ?crash ?done w"
    proof -
      have "runs_within 3 (andthen (cleanup_txn ns name) (\<lambda>_. ret (txn_journal_of t))) ?crash ?done w'"
        if "t = open_txn ns name j ''committed'' \<and> reject_at ns name j p rf ''committed'' w'" for w' and t :: "any_payload txn"
        using cl that by simp
      from runs_within_andthen [OF finalize_reject_runs [OF j(1) at ph'(1)] this] show ?thesis by simp
    qed
    ultimately show ?thesis by simp
  qed
qed

lemma reject_recovery_runs:
  assumes c: "reject_stands env root ns name j p" and st: "rejecting ns name j p rf w"
  shows "runs_within 8 (recover_txns_for_root env (proposal_kinds env) (\<lambda>_. True) root)
     (rejecting ns name j p rf) (\<lambda>_. rejection_done ns j p rf) w"
proof (cases "rejection_done ns j p rf w")
  case True
  then have "ns_entries (txn_namespace_dir env root) w = []" using c by (simp add: rejection_done_def reject_stands_def)
  then show ?thesis using True by (simp add: runs_within_def wp_def recover_empty costs_def)
next
  case False
  then obtain ph where ph: "ph \<in> set reject_txn_phases" "reject_at ns name j p rf ph w"
    using st by (auto simp: rejecting_def)
  show ?thesis
  proof (rule runs_within_at)
    show "recover_txns_for_root env (proposal_kinds env) (\<lambda>_. True) root w =
      andthen (settle_txn reject_handler (open_txn ns name j ph)) (\<lambda>j'. ret [j']) w"
      by (rule recover_reject_holds [OF c]) (use ph in \<open>auto simp: reject_at_def\<close>)
  qed (rule runs_within_mapping, rule settle_reject [OF c ph])
qed

lemma reject_scans_keep:
  assumes c: "reject_stands env root ns name j p" and st: "rejecting ns name j p rf w"
  shows "rejecting ns name j p rf (recovery_scans env root budgets w)"
  using st
proof (induction budgets arbitrary: w)
  case (Cons k ks)
  then have "rejecting ns name j p rf (w\<lparr>steps_left := k\<rparr>)" by simp
  note r = reject_recovery_runs [OF c this]
  obtain x v where m: "recover_txns_for_root env (proposal_kinds env) (\<lambda>_. True) root (w\<lparr>steps_left := k\<rparr>) = (x, v)"
    by fastforce
  from runs_within_result [OF r m] m have "rejecting ns name j p rf (snd (recovery_scan env root k w))"
    by (auto simp: recovery_scan_def rejecting_def)
  from Cons.IH [OF this] show ?case by (simp add: recovery_scans_def)
qed (simp add: recovery_scans_def)


lemma journaled_rejection_completes:
  assumes c: "reject_stands env root ns name j p" and st: "rejecting ns name j p rf w" and n: "8 \<le> n"
  shows "\<exists>js w'. recovery_scan env root n w = (Done js, w') \<and> rejection_done ns j p rf w'"
proof -
  have "rejecting ns name j p rf (w\<lparr>steps_left := n\<rparr>)" using st by simp
  from reject_recovery_runs [OF c this] n show ?thesis
    by (auto elim!: runs_within_returns simp: recovery_scan_def)
qed

section \<open>Properties\<close>

text \<open>A rejection whose journal is on disk is carried out by the next recovery scan that is allowed to
  finish, whatever number of crashes hit the rejection and the scans before it: the proposal is rejected, the event is
  recorded exactly once, and the transaction directory is gone.\<close>

theorem journaled_rejection_is_carried_out:
  assumes c: "reject_stands env root ns name j p" and st: "rejecting ns name j p rf w" and n: "8 \<le> n"
  shows "\<exists>js w'. recovery_scan env root n (recovery_scans env root budgets w) = (Done js, w') \<and> rejection_done ns j p rf w'"
  by (rule journaled_rejection_completes [OF c reject_scans_keep [OF c st] n])

text \<open>A rejection that has not started: nothing in the namespace, or a directory without a journal.  What a crash can leave is that or a stage
  of the journaled rejection.\<close>

definition reject_unstarted :: "string \<Rightarrow> string \<Rightarrow> proposal_db \<Rightarrow> store \<Rightarrow> bool" where
  "reject_unstarted ns tid db v \<longleftrightarrow> database v = db \<and>
     (ns_entries ns v = [] \<or> (\<exists>d. ns_entries ns v = [(tid, d)] \<and> is_directory d \<and> journal_file d = None))"

definition reject_interrupted :: "string \<Rightarrow> string \<Rightarrow> proposal_db \<Rightarrow> any_payload txn_journal \<Rightarrow> reject_payload \<Rightarrow> string \<Rightarrow> store \<Rightarrow> bool" where
  "reject_interrupted ns tid db j rp rf v \<longleftrightarrow> reject_unstarted ns tid db v \<or> rejecting ns tid j rp rf v"

lemma reject_begins:
  fixes env :: "'e proposal_env_scheme"
  assumes j: "j = opened_journal env reject_txn_phases reject_txn_kind stash [] (RejectPayload rp) decided tid"
    and ns: "ns = txn_namespace_dir env stash" "ns_entries ns w = []" "plain_txn_id tid"
    and row: "row_with rp rf Pending (database w)" "rejection_count j rf (database w) = 0"
  shows "runs_within 2 (begin_txn env kind_phases reject_txn_kind stash [] (RejectPayload rp) decided tid)
     (reject_interrupted ns tid (database w) j rp rf) (\<lambda>t v. t = open_txn ns tid j ''prepared'' \<and> reject_at ns tid j rp rf ''prepared'' v) w"
proof -
  have jph: "j\<lparr>journal_phase := ''prepared''\<rparr> = j" by (simp add: j opened_journal_def reject_txn_phases_def)
  have t: "\<lparr>txn_journal_of = j, txn_ns = ns, txn_name = tid\<rparr> = open_txn ns tid j ''prepared''"
    using jph by (simp add: open_txn_def)
  have made: "ns_entries ns (make_txn_dir ns tid (w\<lparr>steps_left := n\<rparr>)) =
      [(tid, \<lparr>is_directory = True, mtime_ms = now_ms w, journal_file = None, journal_mtime_ms = 0\<rparr>)]" for n
    using ns(2) by (simp add: make_txn_dir_def find_txn_dir_def txn_store)
  have dir: "only_txn ns tid (make_txn_dir ns tid (w\<lparr>steps_left := n\<rparr>))" for n
    using made by (simp add: only_txn_def)
  have put: "reject_at ns tid j rp rf ''prepared'' (put_journal ns tid j ((make_txn_dir ns tid (w\<lparr>steps_left := n\<rparr>))\<lparr>steps_left := m\<rparr>))" for n m
    using dir row by (simp add: reject_at_def reject_db_at_def jph txn_store)
  show ?thesis
    using ns put by (simp add: runs_within_def costs_def begin_txn_def require_kind_def prog_wp Let_def write_journal_def
       ns(1) [symmetric] j [symmetric] t txn_store reject_interrupted_def reject_unstarted_def jph made) linarith
qed

lemma reject_finishes:
  assumes k: "journal_kind j = reject_txn_kind" and rp: "rp_proposal_id rp = pid" "rp_stash_dir rp = stash"
    and t: "t = open_txn ns tid j ''prepared'' \<and> reject_at ns tid j rp rf ''prepared'' v"
  shows "runs_within 8 (andthen (finalize_reject_transaction t rp) (\<lambda>t. andthen (cleanup_txn (txn_ns t) (txn_name t)) (\<lambda>_. get_proposal stash pid)))
     (reject_interrupted ns tid db j rp rf) (\<lambda>q v. prop_status q = Rejected \<and> rejection_done ns j rp rf v) v"
proof -
  let ?crash = "reject_interrupted ns tid db j rp rf"
  have 1: "runs_within 5 (finalize_reject_transaction (open_txn ns tid j ''prepared'') rp) ?crash
     (\<lambda>t w'. t = open_txn ns tid j ''committed'' \<and> reject_at ns tid j rp rf ''committed'' w') v"
    by (rule runs_within_mono [OF finalize_reject_runs [OF k conjunct2 [OF t]]]) (auto simp: reject_interrupted_def reject_txn_phases_def)
  have 2: "runs_within 3 (cleanup_txn ns tid) ?crash (\<lambda>_. rejection_done ns j rp rf) u"
    if "reject_at ns tid j rp rf ''committed'' u" for u
    by (rule runs_within_mono [OF cleanup_reject [OF that]]) (auto simp: reject_interrupted_def)
  have 3: "runs_within 0 (get_proposal stash pid) ?crash (\<lambda>q v. prop_status q = Rejected \<and> rejection_done ns j rp rf v) u"
    if "rejection_done ns j rp rf u" for u
    using that rp by (auto simp: runs_within_def get_proposal_def prog_wp costs_def rejection_done_def row_with_def split: option.splits)
  have 23: "runs_within 3 (andthen (cleanup_txn (txn_ns t) (txn_name t)) (\<lambda>_. get_proposal stash pid)) ?crash
     (\<lambda>q v. prop_status q = Rejected \<and> rejection_done ns j rp rf v) u"
    if "t = open_txn ns tid j ''committed'' \<and> reject_at ns tid j rp rf ''committed'' u" for u and t :: "any_payload txn"
    using runs_within_andthen [OF 2 3] that by simp
  show ?thesis using runs_within_andthen [OF 1 23] t by simp
qed

lemma reject_steps:
  fixes env :: "'e proposal_env_scheme"
  assumes rp: "rp = \<lparr>rp_proposal_id = pid, rp_stash_dir = stash, rp_reason = reason, rp_gate = gate\<rparr>"
    and ns: "ns_entries (txn_namespace_dir env stash) w = []" and row: "row_with rp rf Pending (database w)"
  shows "reject_proposal_durably env stash pid reason gate tid decided w =
    andthen (begin_txn env kind_phases reject_txn_kind stash [] (RejectPayload rp) decided tid) (\<lambda>t.
      andthen (finalize_reject_transaction t rp) (\<lambda>t.
        andthen (cleanup_txn (txn_ns t) (txn_name t)) (\<lambda>_. get_proposal stash pid))) w"
proof -
  obtain r0 where "proposals (database w) (pid, stash) = Some r0" "prop_status r0 = Pending"
    using row by (auto simp: row_with_def rp split: option.splits)
  then show ?thesis
    unfolding rp using ns by (simp add: reject_proposal_durably_def recover_reject_transaction_def Let_def
      andthen_def reading_def ret_def get_proposal_def)
qed

lemma unstarted_rejection_scanned:
  assumes "reject_unstarted (txn_namespace_dir env stash) tid db v"
    and "8 \<le> n"
  shows "\<exists>js u. recovery_scan env stash n v = (Done js, u) \<and> database u = db"
proof -
  have "wp (recover_txns_for_root env (proposal_kinds env) (\<lambda>_. True) stash) (\<lambda>r u. r = Done [] \<and> database u = db) (v\<lparr>steps_left := n\<rparr>)"
    using assms by (auto simp: reject_unstarted_def recover_txns_for_root_def prog_wp recover_entry_def Let_def found_journal_def
      find_txn_dir_def sweep_journalless_txn_dir_def txn_store)
  then show ?thesis by (auto simp: wp_def recovery_scan_def split: prod.splits)
qed



section \<open>A concrete rejection\<close>

definition demo_reject :: reject_payload where
  "demo_reject = \<lparr>rp_proposal_id = ''q'', rp_stash_dir = ''/s'', rp_reason = Some ''stale'', rp_gate = None\<rparr>"

definition demo_reject_journal :: "any_payload txn_journal" where
  "demo_reject_journal = opened_journal demo_env reject_txn_phases reject_txn_kind ''/s'' [] (RejectPayload demo_reject) ''t1'' ''t1''"

definition demo_reject_crashed :: store where
  "demo_reject_crashed = snd (reject_proposal_durably demo_env ''/s'' ''q'' (Some ''stale'') None ''t1'' ''t1'' (demo_store 4))"

theorem journaled_rejection_is_carried_out_witness:
  "\<exists>js w'. recovery_scan demo_env ''/s'' 8 (recovery_scans demo_env ''/s'' [0, 1, 2] demo_reject_crashed) = (Done js, w')
     \<and> rejection_done demo_ns demo_reject_journal demo_reject ''main//memories/a'' w'"
proof (rule journaled_rejection_is_carried_out)
  show "reject_stands demo_env ''/s'' demo_ns ''t1'' demo_reject_journal demo_reject" by code_simp
  show "rejecting demo_ns ''t1'' demo_reject_journal demo_reject ''main//memories/a'' demo_reject_crashed" by code_simp
qed simp


end
