(* ===== verification/Txn_Recovery.thy ===== *)
theory Txn_Recovery
  imports Proposal_Reject
begin

text \<open>
  The recovery scan of a root with any number of transaction directories, over the kinds the program registers: which
  journals it refuses to act on, and what it leaves behind when it returns.
\<close>

section \<open>The scan as a whole\<close>

lemma within_txn_root_below:
  assumes "list_all plain_seg (work_dir env)" "is_within_txn_root env c root"
  shows "\<exists>qs. qs \<noteq> [] \<and> resolve_segs (work_dir env) c = resolve_segs (work_dir env) root @ qs"
proof -
  let ?ts = "resolve_segs (work_dir env) c" and ?fs = "resolve_segs (work_dir env) root"
  have plain: "\<forall>s \<in> set ?ts. s \<noteq> ''..''"
    using resolve_segs_plain [of "work_dir env" c] assms(1) unfolding list_all_iff plain_seg_def by metis
  obtain s ss where rel: "relative_segs ?fs ?ts = s # ss"
    using assms(2) by (cases "relative_segs ?fs ?ts") (auto simp: is_within_txn_root_def Let_def)
  have "s \<noteq> ''..''"
  proof
    assume "s = ''..''"
    then have "js_starts_with ''..'' (join_with ''/'' (relative_segs ?fs ?ts))"
      using rel by (cases ss) (simp_all add: js_starts_with_iff)
    then show False using assms(2) by (simp add: is_within_txn_root_def Let_def)
  qed
  then obtain qs where "?ts = ?fs @ qs" using relative_segs_below [OF plain, of ?fs] rel by auto
  moreover from this have "qs \<noteq> []" using rel by auto
  ultimately show ?thesis by blast
qed

text \<open>Recovery never acts on a journal that names a path outside the root it is asked to recover: when such a
  journal of a registered kind is met, the scan of that entry throws and leaves the store as it was, whatever the phase.\<close>

theorem journal_outside_root_is_refused:
  assumes "list_all plain_seg (work_dir env)"
    and "found_journal (txn_namespace_dir env root) name w = Some (Parsed j)"
    and "proposal_kinds env (journal_kind j) = Some h" "wanted j"
    and "c \<in> set (journal_changes j)"
    and outside: "\<nexists>qs. qs \<noteq> [] \<and> resolve_segs (work_dir env) (change_path c) = resolve_segs (work_dir env) root @ qs"
  shows "\<exists>e. recover_entry env (proposal_kinds env) wanted root name w = (Threw e, w)"
proof -
  have "\<not> is_within_txn_root env (change_path c) root"
    using within_txn_root_below [OF assms(1), of "change_path c" root] outside by blast
  then have "list_ex (\<lambda>c. \<not> is_within_txn_root env (change_path c) root) (journal_changes j)"
    using assms(5) by (auto simp: list_ex_iff)
  then have "fence_journal env (proposal_kinds env) j dir root \<noteq> None" for dir
    using assms(3) by (simp add: fence_journal_def)
  then obtain e where "fence_journal env (proposal_kinds env) j (joined (txn_namespace_dir env root) name) root = Some e"
    by blast
  then show ?thesis using assms(2-4)
    by (auto simp: recover_entry_def Let_def andthen_def reading_def ret_def raise_def read_journal_def)
qed

definition outside_journal :: "any_payload txn_journal" where
  "outside_journal = demo_journal\<lparr>journal_changes :=
     [\<lparr>change_path = ''/etc/passwd'', change_op = Op_Update, before_hash = None, after_hash = None\<rparr>]\<rparr>"

definition outside_store :: store where
  "outside_store = (demo_store 9)\<lparr>namespaces := [(demo_ns, [(''t9'', \<lparr>is_directory = True, mtime_ms = 0,
     journal_file = Some (Parsed outside_journal), journal_mtime_ms = 0\<rparr>)])]\<rparr>"

theorem journal_outside_root_is_refused_witness:
  "\<exists>e. recover_entry demo_env (proposal_kinds demo_env) (\<lambda>j. True) ''/s'' ''t9'' outside_store = (Threw e, outside_store)"
proof (rule journal_outside_root_is_refused)
  show "list_all plain_seg (work_dir demo_env)" by code_simp
  show "found_journal (txn_namespace_dir demo_env ''/s'') ''t9'' outside_store = Some (Parsed outside_journal)" by code_simp
  show "proposal_kinds demo_env (journal_kind outside_journal) = Some (proposal_handler demo_env)"
    by (simp add: outside_journal_def demo_journal_def opened_journal_def proposal_kinds_def)
  show "\<lparr>change_path = ''/etc/passwd'', change_op = Op_Update, before_hash = None, after_hash = None\<rparr> \<in> set (journal_changes outside_journal)"
    by code_simp
  have "resolve_segs (work_dir demo_env) ''/etc/passwd'' = [''etc'', ''passwd'']" "resolve_segs (work_dir demo_env) ''/s'' = [''s'']"
    by code_simp+
  then show "\<nexists>qs. qs \<noteq> [] \<and> resolve_segs (work_dir demo_env) (change_path
      \<lparr>change_path = ''/etc/passwd'', change_op = Op_Update, before_hash = None, after_hash = None\<rparr>) =
      resolve_segs (work_dir demo_env) ''/s'' @ qs" by simp
qed simp

text \<open>A scan that returns has dealt with every directory of the namespace: what remains is no directory, has no
  journal or one of an unregistered kind and is within the grace period, or was filtered out by the caller.\<close>

theorem scan_leaves_nothing_recoverable:
  assumes "recover_txns_for_root env (proposal_kinds env) wanted root w = (Done js, w')"
    and "distinct (map fst (ns_entries (txn_namespace_dir env root) w))"
  shows "\<forall>(name, d) \<in> set (ns_entries (txn_namespace_dir env root) w').
    \<not> is_directory d \<or> (case journal_file d of
      None \<Rightarrow> now_ms w' - mtime_ms d < 300000
    | Some (Unparsable e) \<Rightarrow> False
    | Some (Parsed j) \<Rightarrow> if journal_kind j \<in> {''proposal'', ''proposal-reject''} then \<not> wanted j else now_ms w' - mtime_ms d < 300000)"
proof -
  let ?rest = "\<lambda>d. case journal_file d of
      None \<Rightarrow> now_ms w' - mtime_ms d < 300000
    | Some (Unparsable e) \<Rightarrow> False
    | Some (Parsed j) \<Rightarrow> if journal_kind j \<in> {''proposal'', ''proposal-reject''} then \<not> wanted j else now_ms w' - mtime_ms d < 300000"
  have "left_alone (proposal_kinds env) wanted (now_ms w') d"
    if "(name, d) \<in> set (ns_entries (txn_namespace_dir env root) w')" for name d
    using proposal_registry.scan_settles [OF assms, of name] that by (simp add: entry_settled_def)
  moreover have "left_alone (proposal_kinds env) wanted (now_ms w') d \<Longrightarrow> \<not> is_directory d \<or> ?rest d" for d
    by (auto simp: left_alone_def txn_sweep_grace_ms_def proposal_kinds_def proposal_txn_kind_def reject_txn_kind_def
      split: option.splits journal_file.splits if_splits)
  ultimately show ?thesis by blast
qed

theorem scan_leaves_nothing_recoverable_witness:
  "\<exists>js w'. recover_txns_for_root demo_env (proposal_kinds demo_env) (\<lambda>j. True) ''/s'' ((demo_crashed 1)\<lparr>steps_left := 14\<rparr>) = (Done js, w') \<and>
    (\<forall>(name, d) \<in> set (ns_entries demo_ns w').
    \<not> is_directory d \<or> (case journal_file d of
      None \<Rightarrow> now_ms w' - mtime_ms d < 300000
    | Some (Unparsable e) \<Rightarrow> False
    | Some (Parsed j) \<Rightarrow> if journal_kind j \<in> {''proposal'', ''proposal-reject''} then \<not> True else now_ms w' - mtime_ms d < 300000))"
proof -
  have "recoverable demo_env demo_ns ''t1'' demo_journal demo_payload (Some 0) 3 (database (demo_crashed 1)) (demo_crashed 1)"
    using demo_half_published by (simp add: recoverable_def)
  from scan_recoverable [OF demo_config this, of 14]
  obtain js w' where run: "recover_txns_for_root demo_env (proposal_kinds demo_env) (\<lambda>j. True) ''/s'' ((demo_crashed 1)\<lparr>steps_left := 14\<rparr>) = (Done js, w')"
    by (auto simp: recovery_scan_def)
  have "map fst (ns_entries demo_ns (demo_crashed 1)) = [''t1'']" by code_simp
  then have "distinct (map fst (ns_entries (txn_namespace_dir demo_env ''/s'') ((demo_crashed 1)\<lparr>steps_left := 14\<rparr>)))"
    by (simp add: txn_store)
  from scan_leaves_nothing_recoverable [OF run this] run show ?thesis by auto
qed

text \<open>
  The root fence compares a string prefix, so a directory whose name begins with two dots counts as outside; the
  kind's own fence, \<open>isContainedResolvedPath\<close>, compares the first segment and lets it pass.
\<close>

lemma dotted_directory_is_refused:
  "\<not> is_within_txn_root demo_env ''/s/..data/a.md'' ''/s'' \<and> is_contained_resolved_path demo_env ''/s/..data/a.md'' ''/s''"
  by code_simp

end
