(* ===== verification/Rely_Guarantee.thy ===== *)
theory Rely_Guarantee
  imports Main
begin

text \<open>
  Programs of several processes over one shared store.  A task is the rest of a program: it has returned, it has
  thrown, or its next atomic operation and what follows each reply.  What the other processes may do to one
  process is its contract; \<open>meets\<close> says that a task, run between arbitrary steps its contract allows, takes only
  steps that keep the invariant and everybody else's contract, and ends in its postcondition.
\<close>

section \<open>Tasks\<close>

datatype ('o, 'r, 'a) task = Return 'a | Raise string | Act 'o "'r \<Rightarrow> ('o, 'r, 'a) task"

primrec bind_task :: "('o, 'r, 'a) task \<Rightarrow> ('a \<Rightarrow> ('o, 'r, 'b) task) \<Rightarrow> ('o, 'r, 'b) task" where
  "bind_task (Return a) f = f a"
| "bind_task (Raise e) f = Raise e"
| "bind_task (Act x k) f = Act x (\<lambda>r. bind_task (k r) f)"

text \<open>\<open>try ... catch\<close>, and \<open>try ... finally\<close> with a block that does not throw itself.\<close>

primrec rescue :: "('o, 'r, 'a) task \<Rightarrow> (string \<Rightarrow> ('o, 'r, 'a) task) \<Rightarrow> ('o, 'r, 'a) task" where
  "rescue (Return a) h = Return a"
| "rescue (Raise e) h = h e"
| "rescue (Act x k) h = Act x (\<lambda>r. rescue (k r) h)"

primrec finally_do :: "('o, 'r, 'a) task \<Rightarrow> ('o, 'r, unit) task \<Rightarrow> ('o, 'r, 'a) task" where
  "finally_do (Return a) c = bind_task c (\<lambda>_. Return a)"
| "finally_do (Raise e) c = bind_task c (\<lambda>_. Raise e)"
| "finally_do (Act x k) c = Act x (\<lambda>r. finally_do (k r) c)"

definition act :: "'o \<Rightarrow> ('o, 'r, 'r) task" where
  "act x = Act x Return"

text \<open>A task that runs alone, with its operations executed one after the other.\<close>

primrec run_alone :: "('o \<Rightarrow> 's \<Rightarrow> 'r \<times> 's) \<Rightarrow> ('o, 'r, 'a) task \<Rightarrow> 's \<Rightarrow> (string + 'a) \<times> 's" where
  "run_alone exec (Return a) s = (Inr a, s)"
| "run_alone exec (Raise e) s = (Inl e, s)"
| "run_alone exec (Act x k) s = (case exec x s of (r, s') \<Rightarrow> run_alone exec (k r) s')"

named_theorems alone \<open>how tasks run when nobody interferes\<close>

lemma run_alone_bind [alone]:
  "run_alone exec (bind_task m f) s =
     (case run_alone exec m s of (Inl e, s') \<Rightarrow> (Inl e, s') | (Inr a, s') \<Rightarrow> run_alone exec (f a) s')"
  by (induction m arbitrary: s) (auto split: prod.splits)

lemma run_alone_rescue [alone]:
  "run_alone exec (rescue m h) s =
     (case run_alone exec m s of (Inl e, s') \<Rightarrow> run_alone exec (h e) s' | (Inr a, s') \<Rightarrow> (Inr a, s'))"
  by (induction m arbitrary: s) (auto split: prod.splits)

lemma run_alone_finally [alone]:
  "run_alone exec (finally_do m c) s =
     (case run_alone exec m s of (r, s') \<Rightarrow>
        (case run_alone exec c s' of (Inl e, s'') \<Rightarrow> (Inl e, s'') | (Inr u, s'') \<Rightarrow> (r, s'')))"
  by (induction m arbitrary: s) (auto simp: run_alone_bind split: prod.splits sum.splits)

lemma run_alone_act [alone]: "run_alone exec (act x) s = (case exec x s of (r, s') \<Rightarrow> (Inr r, s'))"
  by (simp add: act_def)

text \<open>A task all of whose operations are of one sort.\<close>

primrec within :: "('o \<Rightarrow> bool) \<Rightarrow> ('o, 'r, 'a) task \<Rightarrow> bool" where
  "within ok (Return a) \<longleftrightarrow> True"
| "within ok (Raise e) \<longleftrightarrow> True"
| "within ok (Act x k) \<longleftrightarrow> ok x \<and> (\<forall>r. within ok (k r))"

lemma within_bind [intro]: "within ok m \<Longrightarrow> (\<And>a. within ok (f a)) \<Longrightarrow> within ok (bind_task m f)"
  by (induction m) auto

lemma within_rescue [intro]: "within ok m \<Longrightarrow> (\<And>e. within ok (h e)) \<Longrightarrow> within ok (rescue m h)"
  by (induction m) auto

lemma within_act [intro]: "ok x \<Longrightarrow> within ok (act x)"
  by (simp add: act_def)

section \<open>Contracts\<close>

primrec meets ::
  "('s \<Rightarrow> bool) \<Rightarrow> ('p \<Rightarrow> 's \<Rightarrow> 's \<Rightarrow> bool) \<Rightarrow> ('p \<Rightarrow> 'o \<Rightarrow> 'f \<Rightarrow> 's \<Rightarrow> 'r \<times> 's) \<Rightarrow> 'p \<Rightarrow>
   ('o, 'r, 'a) task \<Rightarrow> ('a \<Rightarrow> 's \<Rightarrow> bool) \<Rightarrow> ('s \<Rightarrow> bool) \<Rightarrow> 's \<Rightarrow> bool" where
  "meets always contract exec p (Return a) Q E s \<longleftrightarrow> (\<forall>s'. contract p s s' \<and> always s' \<longrightarrow> Q a s')"
| "meets always contract exec p (Raise e) Q E s \<longleftrightarrow> (\<forall>s'. contract p s s' \<and> always s' \<longrightarrow> E s')"
| "meets always contract exec p (Act x k) Q E s \<longleftrightarrow>
     (\<forall>s' f. contract p s s' \<and> always s' \<longrightarrow>
       (case exec p x f s' of (r, s'') \<Rightarrow>
          always s'' \<and> (\<forall>q. q \<noteq> p \<longrightarrow> contract q s' s'') \<and> meets always contract exec p (k r) Q E s''))"

locale rely_guarantee =
  fixes always :: "'s \<Rightarrow> bool" and contract :: "'p \<Rightarrow> 's \<Rightarrow> 's \<Rightarrow> bool" and exec :: "'p \<Rightarrow> 'o \<Rightarrow> 'f \<Rightarrow> 's \<Rightarrow> 'r \<times> 's"
  assumes contract_refl: "contract p s s"
    and contract_trans: "contract p s s' \<Longrightarrow> contract p s' s'' \<Longrightarrow> contract p s s''"
begin

definition stable :: "'p \<Rightarrow> ('s \<Rightarrow> bool) \<Rightarrow> bool" where
  "stable p P \<longleftrightarrow> (\<forall>s s'. P s \<longrightarrow> contract p s s' \<longrightarrow> P s')"

definition spec :: "'p \<Rightarrow> ('s \<Rightarrow> bool) \<Rightarrow> ('o, 'r, 'a) task \<Rightarrow> ('a \<Rightarrow> 's \<Rightarrow> bool) \<Rightarrow> ('s \<Rightarrow> bool) \<Rightarrow> bool" where
  "spec p P m Q E \<longleftrightarrow> (\<forall>s. P s \<and> always s \<longrightarrow> meets always contract exec p m Q E s)"

lemma meets_ActI:
  "(\<And>s' f r s''. contract p s s' \<Longrightarrow> always s' \<Longrightarrow> exec p x f s' = (r, s'') \<Longrightarrow>
      always s'' \<and> (\<forall>q. q \<noteq> p \<longrightarrow> contract q s' s'') \<and> meets always contract exec p (k r) Q E s'') \<Longrightarrow>
    meets always contract exec p (Act x k) Q E s"
  unfolding meets.simps by (intro allI impI) (simp split: prod.split, blast)

lemma meets_ActD:
  assumes "meets always contract exec p (Act x k) Q E s" "contract p s s'" "always s'" "exec p x f s' = (r, s'')"
  shows "always s''" "q \<noteq> p \<Longrightarrow> contract q s' s''" "meets always contract exec p (k r) Q E s''"
proof -
  have "case exec p x f s' of (r, s'') \<Rightarrow>
      always s'' \<and> (\<forall>q. q \<noteq> p \<longrightarrow> contract q s' s'') \<and> meets always contract exec p (k r) Q E s''"
    by (rule assms(1) [unfolded meets.simps, rule_format]) (use assms(2,3) in simp)
  then show "always s''" "q \<noteq> p \<Longrightarrow> contract q s' s''" "meets always contract exec p (k r) Q E s''"
    using assms(4) by simp_all
qed

lemmas meets_end = meets.simps(1,2)

declare meets.simps [simp del]

lemma meets_stable:
  assumes "meets always contract exec p m Q E s" and c: "contract p s s'"
  shows "meets always contract exec p m Q E s'"
proof (cases m)
  case (Act x k)
  show ?thesis unfolding Act
    using meets_ActD [OF assms(1) [unfolded Act] contract_trans [OF c]] by (intro meets_ActI) blast
qed (use assms(1) contract_trans [OF c] in \<open>auto simp: meets_end\<close>)

lemma meets_weaken:
  assumes "meets always contract exec p m Q E s" "\<And>a s. always s \<Longrightarrow> Q a s \<Longrightarrow> Q' a s" "\<And>s. always s \<Longrightarrow> E s \<Longrightarrow> E' s"
  shows "meets always contract exec p m Q' E' s"
  using assms(1)
proof (induction m arbitrary: s)
  case (Act x k)
  show ?case using meets_ActD [OF Act.prems] Act.IH [OF rangeI] by (intro meets_ActI) blast
qed (auto simp: meets_end assms(2,3))

lemma meets_bind:
  assumes "meets always contract exec p m R E s" "always s"
    and f: "\<And>a s. R a s \<Longrightarrow> always s \<Longrightarrow> meets always contract exec p (f a) Q E s"
  shows "meets always contract exec p (bind_task m f) Q E s"
  using assms(1,2)
proof (induction m arbitrary: s)
  case (Return a)
  then show ?case using f contract_refl by (auto simp: meets_end)
next
  case (Act x k)
  show ?case unfolding bind_task.simps using meets_ActD [OF Act.prems(1)] Act.IH [OF rangeI]
    by (intro meets_ActI) blast
qed (auto simp: meets_end)

lemma meets_rescue:
  assumes "meets always contract exec p m Q E s" "always s"
    and h: "\<And>e s. E s \<Longrightarrow> always s \<Longrightarrow> meets always contract exec p (h e) Q E' s"
  shows "meets always contract exec p (rescue m h) Q E' s"
  using assms(1,2)
proof (induction m arbitrary: s)
  case (Raise e)
  then show ?case using h contract_refl by (auto simp: meets_end)
next
  case (Act x k)
  show ?case unfolding rescue.simps using meets_ActD [OF Act.prems(1)] Act.IH [OF rangeI]
    by (intro meets_ActI) blast
qed (auto simp: meets_end)

lemma meets_finally:
  assumes "meets always contract exec p m R E s" "always s"
    and c: "\<And>a s. R a s \<Longrightarrow> always s \<Longrightarrow> meets always contract exec p c (\<lambda>_. Q a) E' s"
      "\<And>s. E s \<Longrightarrow> always s \<Longrightarrow> meets always contract exec p c (\<lambda>_. E') E' s"
    and st: "\<And>a. stable p (Q a)" "stable p E'"
  shows "meets always contract exec p (finally_do m c) Q E' s"
  using assms(1,2)
proof (induction m arbitrary: s)
  case (Return a)
  then have "meets always contract exec p c (\<lambda>_. Q a) E' s" using c(1) contract_refl by (auto simp: meets_end)
  then have "meets always contract exec p (bind_task c (\<lambda>_. Return a)) Q E' s"
    by (rule meets_bind [OF _ Return.prems(2)]) (use st in \<open>auto simp: meets_end stable_def\<close>)
  then show ?case by simp
next
  case (Raise e)
  then have "meets always contract exec p c (\<lambda>_. E') E' s" using c(2) contract_refl by (auto simp: meets_end)
  then have "meets always contract exec p (bind_task c (\<lambda>_. Raise e)) Q E' s"
    by (rule meets_bind [OF _ Raise.prems(2)]) (use st in \<open>auto simp: meets_end stable_def\<close>)
  then show ?case by simp
next
  case (Act x k)
  show ?case unfolding finally_do.simps using meets_ActD [OF Act.prems(1)] Act.IH [OF rangeI]
    by (intro meets_ActI) blast
qed

text \<open>The rules of the logic.\<close>

lemma spec_return: "stable p (Q a) \<Longrightarrow> spec p (Q a) (Return a) Q E"
  by (auto simp: spec_def stable_def meets_end)

lemma spec_raise: "stable p E \<Longrightarrow> spec p E (Raise e) Q E"
  by (auto simp: spec_def stable_def meets_end)

lemma spec_weaken:
  "spec p P' m Q' E' \<Longrightarrow> (\<And>s. always s \<Longrightarrow> P s \<Longrightarrow> P' s) \<Longrightarrow> (\<And>a s. always s \<Longrightarrow> Q' a s \<Longrightarrow> Q a s) \<Longrightarrow> (\<And>s. always s \<Longrightarrow> E' s \<Longrightarrow> E s) \<Longrightarrow> spec p P m Q E"
  unfolding spec_def by (blast intro: meets_weaken)

lemma spec_bind: "spec p P m R E \<Longrightarrow> (\<And>a. spec p (R a) (f a) Q E) \<Longrightarrow> spec p P (bind_task m f) Q E"
  unfolding spec_def by (blast intro: meets_bind)

lemma spec_rescue:
  "spec p P m Q E \<Longrightarrow> (\<And>e. spec p E (h e) Q E') \<Longrightarrow> spec p P (rescue m h) Q E'"
  unfolding spec_def by (blast intro: meets_rescue)

lemma spec_finally:
  "spec p P m R E \<Longrightarrow> (\<And>a. spec p (R a) c (\<lambda>_. Q a) E') \<Longrightarrow> spec p E c (\<lambda>_. E') E' \<Longrightarrow>
   (\<And>a. stable p (Q a)) \<Longrightarrow> stable p E' \<Longrightarrow> spec p P (finally_do m c) Q E'"
  unfolding spec_def by (blast intro: meets_finally)

lemma spec_act:
  assumes "stable p P" "\<And>r. stable p (Q r)"
    and step: "\<And>s f. P s \<Longrightarrow> always s \<Longrightarrow> (case exec p x f s of (r, s') \<Rightarrow> always s' \<and> (\<forall>q. q \<noteq> p \<longrightarrow> contract q s s') \<and> Q r s')"
  shows "spec p P (act x) Q E"
  unfolding spec_def act_def
proof (intro allI impI meets_ActI)
  fix s s' f r s''
  assume "P s \<and> always s" "contract p s s'" "always s'" and e: "exec p x f s' = (r, s'')"
  then have "P s'" using assms(1) by (auto simp: stable_def)
  from step [OF this \<open>always s'\<close>, of f] e
  show "always s'' \<and> (\<forall>q. q \<noteq> p \<longrightarrow> contract q s' s'') \<and> meets always contract exec p (Return r) Q E s''"
    using assms(2) by (auto simp: stable_def meets_end)
qed

text \<open>
  A fact that survives every step within anybody's contract can be carried along any program: a process's own steps
  are within the contract of any other process.
\<close>

definition lasting :: "('s \<Rightarrow> bool) \<Rightarrow> bool" where
  "lasting R \<longleftrightarrow> (\<forall>q. stable q R)"

lemma meets_frame:
  assumes "meets always contract exec p m Q E s" "R s" and R: "lasting R" and other: "q \<noteq> p"
  shows "meets always contract exec p m (\<lambda>a s. Q a s \<and> R s) (\<lambda>s. E s \<and> R s) s"
  using assms(1,2)
proof (induction m arbitrary: s)
  case (Act x k)
  have keep: "R s \<Longrightarrow> contract r s s' \<Longrightarrow> R s'" for r s s' using R by (auto simp: lasting_def stable_def)
  show ?case
  proof (rule meets_ActI)
    fix s' f r s''
    assume s': "contract p s s'" "always s'" "exec p x f s' = (r, s'')"
    note d = meets_ActD [OF Act.prems(1) s']
    have "R s''" using keep [OF keep [OF Act.prems(2) s'(1)] d(2) [OF other]] .
    then show "always s'' \<and> (\<forall>q. q \<noteq> p \<longrightarrow> contract q s' s'') \<and>
        meets always contract exec p (k r) (\<lambda>a s. Q a s \<and> R s) (\<lambda>s. E s \<and> R s) s''"
      using d Act.IH [OF rangeI] by blast
  qed
qed (use R in \<open>auto simp: meets_end lasting_def stable_def\<close>)

lemma spec_frame:
  "spec p P m Q E \<Longrightarrow> lasting R \<Longrightarrow> q \<noteq> p \<Longrightarrow> spec p (\<lambda>s. P s \<and> R s) m (\<lambda>a s. Q a s \<and> R s) (\<lambda>s. E s \<and> R s)"
  unfolding spec_def by (blast intro: meets_frame)

text \<open>So can a fact that the process relies on and its own operations of this sort do not disturb.\<close>

lemma meets_frame_within:
  assumes "meets always contract exec p m Q E s" "K s" "within ok m" and K: "stable p K"
    and own: "\<And>x f s r s'. ok x \<Longrightarrow> K s \<Longrightarrow> exec p x f s = (r, s') \<Longrightarrow> K s'"
  shows "meets always contract exec p m (\<lambda>a s. Q a s \<and> K s) (\<lambda>s. E s \<and> K s) s"
  using assms(1-3)
proof (induction m arbitrary: s)
  case (Act x k)
  show ?case
  proof (rule meets_ActI)
    fix s' f r s''
    assume s': "contract p s s'" "always s'" "exec p x f s' = (r, s'')"
    note d = meets_ActD [OF Act.prems(1) s']
    have "K s'" using Act.prems(2) s'(1) K by (auto simp: stable_def)
    then have "K s''" using own [OF _ _ s'(3)] Act.prems(3) by simp
    then show "always s'' \<and> (\<forall>q. q \<noteq> p \<longrightarrow> contract q s' s'') \<and>
        meets always contract exec p (k r) (\<lambda>a s. Q a s \<and> K s) (\<lambda>s. E s \<and> K s) s''"
      using d Act.IH [OF rangeI] Act.prems(3) by simp
  qed
qed (use K in \<open>auto simp: meets_end stable_def\<close>)

lemma spec_frame_within:
  "spec p P m Q E \<Longrightarrow> within ok m \<Longrightarrow> stable p K \<Longrightarrow>
   (\<And>x f s r s'. ok x \<Longrightarrow> K s \<Longrightarrow> exec p x f s = (r, s') \<Longrightarrow> K s') \<Longrightarrow>
   spec p (\<lambda>s. P s \<and> K s) m (\<lambda>a s. Q a s \<and> K s) (\<lambda>s. E s \<and> K s)"
  unfolding spec_def by (auto intro: meets_frame_within)

lemma stable_conj: "stable p P \<Longrightarrow> stable p Q \<Longrightarrow> stable p (\<lambda>s. P s \<and> Q s)"
  by (auto simp: stable_def)

lemma stable_const: "stable p (\<lambda>s. b)"
  by (simp add: stable_def)

text \<open>The processes together: each has a task or none; a process without one is in its resting condition.\<close>

definition sound :: "('p \<Rightarrow> 's \<Rightarrow> bool) \<Rightarrow> 's \<Rightarrow> ('p \<Rightarrow> ('o, 'r, 'a) task option) \<Rightarrow> bool" where
  "sound rest s ts \<longleftrightarrow> always s \<and> (\<forall>p. ts p = None \<longrightarrow> rest p s) \<and>
     (\<forall>p m. ts p = Some m \<longrightarrow> meets always contract exec p m (\<lambda>_. rest p) (rest p) s)"

lemma soundD:
  assumes "sound rest s ts"
  shows "always s" "ts p = None \<Longrightarrow> rest p s" "ts p = Some m \<Longrightarrow> meets always contract exec p m (\<lambda>_. rest p) (rest p) s"
  using assms by (simp_all add: sound_def)

lemma soundI:
  "always s \<Longrightarrow> (\<And>p. ts p = None \<Longrightarrow> rest p s) \<Longrightarrow>
   (\<And>p m. ts p = Some m \<Longrightarrow> meets always contract exec p m (\<lambda>_. rest p) (rest p) s) \<Longrightarrow> sound rest s ts"
  by (simp add: sound_def)

lemma sound_environment:
  assumes "sound rest s ts" "always s'" "\<And>q. contract q s s'" "\<And>q. stable q (rest q)"
  shows "sound rest s' ts"
proof (rule soundI)
  show "rest p s'" if "ts p = None" for p
    using soundD(2) [OF assms(1) that] assms(3,4) unfolding stable_def by blast
  show "meets always contract exec p m (\<lambda>_. rest p) (rest p) s'" if "ts p = Some m" for p m
    by (rule meets_stable [OF soundD(3) [OF assms(1) that] assms(3)])
qed (rule assms(2))

lemma sound_run:
  assumes so: "sound rest s ts" and p: "ts p = Some (Act x k)" "exec p x f s = (r, s')" and rest: "\<And>q. stable q (rest q)"
  shows "sound rest s' (ts(p \<mapsto> k r))"
proof -
  note m = meets_ActD [OF soundD(3) [OF so p(1)] contract_refl soundD(1) [OF so] p(2)]
  show ?thesis
  proof (rule soundI)
    show "always s'" by (rule m(1))
    show "rest q s'" if "(ts(p \<mapsto> k r)) q = None" for q
      using that soundD(2) [OF so, of q] rest [of q] m(2) [of q] by (auto simp: stable_def split: if_splits)
    show "meets always contract exec q t (\<lambda>_. rest q) (rest q) s'" if "(ts(p \<mapsto> k r)) q = Some t" for q t
      using that m(3) soundD(3) [OF so, of q t] meets_stable m(2) [of q] by (auto split: if_splits)
  qed
qed

lemma sound_end:
  assumes so: "sound rest s ts" and p: "ts p = Some (Return a) \<or> ts p = Some (Raise e)"
  shows "sound rest s (ts(p := None))"
proof -
  have "rest p s" using p soundD(3) [OF so, of p] soundD(1) [OF so] contract_refl [of p s] by (auto simp: meets_end)
  then show ?thesis using soundD(1) [OF so] soundD(2) [OF so] soundD(3) [OF so]
    by (intro soundI) (auto split: if_splits)
qed

lemma sound_start:
  assumes so: "sound rest s ts" and p: "ts p = None" "P s" "spec p P m (\<lambda>_. rest p) (rest p)"
  shows "sound rest s (ts(p \<mapsto> m))"
  using soundD(1) [OF so] soundD(2) [OF so] soundD(3) [OF so] p by (intro soundI) (auto simp: spec_def split: if_splits)

end

end
