(* ===== verification/File_Lock.thy ===== *)
theory File_Lock
  imports Rely_Guarantee Js_Prelude
begin

text \<open>
  The sentinel lock files, \<^verbatim>\<open>src/core/file-lock.ts\<close>, and the two exclusion services built on them: the maintenance
  barrier (\<^verbatim>\<open>src/core/maintenance-barrier.ts\<close>) and the lease that serialises writes to assets
  (\<^verbatim>\<open>src/indexer/index-writer-lock.ts\<close>).  Processes interleave at every file-system call and may die at any of
  them; every call may also fail with an errno.  The operation mutex, an SQLite write lock, is held by at most one
  process and freed when its holder dies.
\<close>

section \<open>The store\<close>

text \<open>
  The text of a sentinel: a JSON envelope with the value of its \<open>pid\<close> field, when that is a number, and the
  \<open>lockId\<close> it was minted with; or any other text.
\<close>

datatype lock_body = Lock_Envelope "int option" nat | Lock_Text string

datatype lock_place = Lock_At string | Quarantine string nat

text \<open>What the code compares: the text, and the identity of the file.\<close>

record lock_file =
  raw_content :: lock_body
  file_ino :: nat
  file_mtime :: int

text \<open>
  Directory entries, inodes with their text and modification time, the operation mutexes, the processes (numbered by
  birth), the lock ids with the process that drew them, the clock, and who is inside a protected section since which
  sentinel.
\<close>

record lock_world =
  lock_entries :: "lock_place \<Rightarrow> nat option"
  lock_inodes :: "nat \<Rightarrow> lock_body \<times> int"
  next_lock_ino :: nat
  mutex_made :: "string \<Rightarrow> bool"
  mutex_holder :: "string \<Rightarrow> nat option"
  born :: nat
  living :: "nat list"
  next_lock_id :: nat
  minted_by :: "nat \<Rightarrow> nat"
  clock_ms :: int
  inside :: "(nat \<times> string \<times> int) list"

definition lock_file_at :: "lock_world \<Rightarrow> lock_place \<Rightarrow> lock_file option" where
  "lock_file_at s pl = map_option (\<lambda>i. \<lparr>raw_content = fst (lock_inodes s i), file_ino = i, file_mtime = snd (lock_inodes s i)\<rparr>)
     (lock_entries s pl)"

section \<open>Atomic operations\<close>

datatype lock_op =
    Take_Mutex string | Free_Mutex string | Mutex_File_Exists string | File_Exists lock_place
  | Create_New string | Write_Fd nat lock_body | Open_File lock_place | Read_Fd nat | Stat_Fd nat
  | Rename_Away string nat | Link_Back string nat | Unlink lock_place
  | New_Lock_Id | Own_Pid | Is_Alive int | Now | Pause
  | Enter string int | Leave string int

datatype lock_reply = Fine | Errno string | Fd nat | Text_Read lock_body | Number nat | Integer int | Answer bool

text \<open>
  One operation of a process.  The scheduler may make a system call fail with an errno of its choice; a failing
  \<open>COMMIT\<close> still ends the transaction, and a protected section fails by throwing.
\<close>

fun lock_exec :: "(nat \<Rightarrow> int) \<Rightarrow> nat \<Rightarrow> lock_op \<Rightarrow> string option \<Rightarrow> lock_world \<Rightarrow> lock_reply \<times> lock_world" where
  "lock_exec pids p (Take_Mutex l) fault s =
     (let s = s\<lparr>mutex_made := (mutex_made s)(l := True)\<rparr> in
      if fault \<noteq> None \<or> mutex_holder s l \<noteq> None then (Errno ''SQLITE_BUSY'', s)
      else (Fine, s\<lparr>mutex_holder := (mutex_holder s)(l \<mapsto> p)\<rparr>))"
| "lock_exec pids p (Free_Mutex l) fault s =
     (case fault of None \<Rightarrow> Fine | Some e \<Rightarrow> Errno e,
      if mutex_holder s l = Some p then s\<lparr>mutex_holder := (mutex_holder s)(l := None)\<rparr> else s)"
| "lock_exec pids p (Mutex_File_Exists l) fault s = (Answer (mutex_made s l), s)"
| "lock_exec pids p (File_Exists pl) fault s = (Answer (lock_entries s pl \<noteq> None), s)"
| "lock_exec pids p (Create_New l) fault s =
     (case fault of Some e \<Rightarrow> (Errno e, s) | None \<Rightarrow>
        if lock_entries s (Lock_At l) \<noteq> None then (Errno ''EEXIST'', s)
        else (Fd (next_lock_ino s),
              s\<lparr>lock_entries := (lock_entries s)(Lock_At l \<mapsto> next_lock_ino s),
                lock_inodes := (lock_inodes s)(next_lock_ino s := (Lock_Text '''', clock_ms s)),
                next_lock_ino := Suc (next_lock_ino s)\<rparr>))"
| "lock_exec pids p (Write_Fd i body) fault s =
     (case fault of Some e \<Rightarrow> (Errno e, s)
      | None \<Rightarrow> (Fine, s\<lparr>lock_inodes := (lock_inodes s)(i := (body, clock_ms s))\<rparr>))"
| "lock_exec pids p (Open_File pl) fault s =
     (case fault of Some e \<Rightarrow> (Errno e, s) | None \<Rightarrow>
        case lock_entries s pl of None \<Rightarrow> (Errno ''ENOENT'', s) | Some i \<Rightarrow> (Fd i, s))"
| "lock_exec pids p (Read_Fd i) fault s =
     (case fault of Some e \<Rightarrow> Errno e | None \<Rightarrow> Text_Read (fst (lock_inodes s i)), s)"
| "lock_exec pids p (Stat_Fd i) fault s =
     (case fault of Some e \<Rightarrow> Errno e | None \<Rightarrow> Integer (snd (lock_inodes s i)), s)"
| "lock_exec pids p (Rename_Away l n) fault s =
     (case fault of Some e \<Rightarrow> (Errno e, s) | None \<Rightarrow>
        if lock_entries s (Lock_At l) = None then (Errno ''ENOENT'', s)
        else (Fine, s\<lparr>lock_entries := (lock_entries s)(Lock_At l := None, Quarantine l n := lock_entries s (Lock_At l))\<rparr>))"
| "lock_exec pids p (Link_Back l n) fault s =
     (case fault of Some e \<Rightarrow> (Errno e, s) | None \<Rightarrow>
        if lock_entries s (Quarantine l n) = None then (Errno ''ENOENT'', s)
        else if lock_entries s (Lock_At l) \<noteq> None then (Errno ''EEXIST'', s)
        else (Fine, s\<lparr>lock_entries := (lock_entries s)(Lock_At l := lock_entries s (Quarantine l n))\<rparr>))"
| "lock_exec pids p (Unlink pl) fault s =
     (case fault of Some e \<Rightarrow> (Errno e, s) | None \<Rightarrow>
        if lock_entries s pl = None then (Errno ''ENOENT'', s)
        else (Fine, s\<lparr>lock_entries := (lock_entries s)(pl := None)\<rparr>))"
| "lock_exec pids p New_Lock_Id fault s =
     (Number (next_lock_id s),
      s\<lparr>minted_by := (minted_by s)(next_lock_id s := p), next_lock_id := Suc (next_lock_id s)\<rparr>)"
| "lock_exec pids p Own_Pid fault s = (Integer (pids p), s)"
| "lock_exec pids p (Is_Alive k) fault s = (Answer (k > 0 \<and> list_ex (\<lambda>q. pids q = k) (living s)), s)"
| "lock_exec pids p Now fault s = (Integer (clock_ms s), s)"
| "lock_exec pids p Pause fault s = (Fine, s)"
| "lock_exec pids p (Enter l t) fault s = (Fine, s\<lparr>inside := (p, l, t) # inside s\<rparr>)"
| "lock_exec pids p (Leave l t) fault s =
     (case fault of None \<Rightarrow> Fine | Some e \<Rightarrow> Errno e, s\<lparr>inside := filter (\<lambda>x. x \<noteq> (p, l, t)) (inside s)\<rparr>)"

type_synonym 'a locking = "(lock_op, lock_reply, 'a) task"

text \<open>A call whose failure throws.\<close>

definition call :: "lock_op \<Rightarrow> lock_reply locking" where
  "call x = bind_task (act x) (\<lambda>r. case r of Errno e \<Rightarrow> Raise e | _ \<Rightarrow> Return r)"

definition call_unit :: "lock_op \<Rightarrow> unit locking" where
  "call_unit x = bind_task (call x) (\<lambda>_. Return ())"

definition fd_of :: "lock_reply \<Rightarrow> nat" where
  "fd_of r = (case r of Fd i \<Rightarrow> i | _ \<Rightarrow> 0)"

definition text_of :: "lock_reply \<Rightarrow> lock_body" where
  "text_of r = (case r of Text_Read b \<Rightarrow> b | _ \<Rightarrow> Lock_Text '''')"

definition number_of :: "lock_reply \<Rightarrow> nat" where
  "number_of r = (case r of Number n \<Rightarrow> n | _ \<Rightarrow> 0)"

definition integer_of :: "lock_reply \<Rightarrow> int" where
  "integer_of r = (case r of Integer n \<Rightarrow> n | _ \<Rightarrow> 0)"

section \<open>The lock library\<close>

definition parse_int :: "string \<Rightarrow> int option" where
  "parse_int s =
     (let (sign, rest) = (case s of
            [] \<Rightarrow> (1, [])
          | c # cs \<Rightarrow> if c = CHR ''-'' then (-1, cs) else if c = CHR ''+'' then (1, cs) else (1, s));
          digits = takeWhile js_digit rest
      in if digits = [] then None else Some (sign * int (nat_of_digits digits)))"

definition positive_pid :: "int option \<Rightarrow> int option" where
  "positive_pid k = (case k of Some n \<Rightarrow> if n > 0 then Some n else None | None \<Rightarrow> None)"

definition extract_holder_pid :: "lock_body \<Rightarrow> int option" where
  "extract_holder_pid body = (case body of
     Lock_Envelope pid n \<Rightarrow> positive_pid pid
   | Lock_Text s \<Rightarrow>
       (let trimmed = js_trim s in
        if trimmed = '''' \<or> js_starts_with ''{'' trimmed then None else positive_pid (parse_int trimmed)))"

definition read_lock_snapshot :: "lock_place \<Rightarrow> lock_file option locking" where
  "read_lock_snapshot pl = bind_task (act (Open_File pl)) (\<lambda>r.
     case r of
       Errno e \<Rightarrow> if e = ''ENOENT'' then Return None else Raise e
     | _ \<Rightarrow> bind_task (call (Read_Fd (fd_of r))) (\<lambda>t.
            bind_task (call (Stat_Fd (fd_of r))) (\<lambda>m.
              Return (Some \<lparr>raw_content = text_of t, file_ino = fd_of r, file_mtime = integer_of m\<rparr>))))"

definition with_lock_operation_mutex :: "string \<Rightarrow> 'a locking \<Rightarrow> 'a locking" where
  "with_lock_operation_mutex l run =
     bind_task (call (Take_Mutex l)) (\<lambda>_.
     bind_task (rescue run (\<lambda>e. bind_task (act (Free_Mutex l)) (\<lambda>_. Raise e))) (\<lambda>a.
     bind_task (call (Free_Mutex l)) (\<lambda>_. Return a)))"

definition release_lock_raw :: "lock_place \<Rightarrow> unit locking" where
  "release_lock_raw pl = bind_task (act (Unlink pl)) (\<lambda>_. Return ())"

text \<open>An ownership is the path of the lock with the snapshot of its sentinel.\<close>

type_synonym lock_ownership = "string \<times> lock_file"

definition try_acquire_lock_raw :: "string \<Rightarrow> lock_body \<Rightarrow> lock_ownership option locking" where
  "try_acquire_lock_raw l body = bind_task (act (Create_New l)) (\<lambda>r.
     case r of
       Errno e \<Rightarrow> if e = ''EEXIST'' then Return None else Raise e
     | _ \<Rightarrow> bind_task (call (Write_Fd (fd_of r) body)) (\<lambda>_.
            bind_task (rescue (read_lock_snapshot (Lock_At l))
                         (\<lambda>e. bind_task (release_lock_raw (Lock_At l)) (\<lambda>_. Raise e))) (\<lambda>snapshot.
              case snapshot of
                None \<Rightarrow> bind_task (release_lock_raw (Lock_At l)) (\<lambda>_. Raise ''Could not read newly acquired lock'')
              | Some f \<Rightarrow> Return (Some (l, f)))))"

definition try_acquire_lock :: "string \<Rightarrow> lock_body \<Rightarrow> lock_ownership option locking" where
  "try_acquire_lock l body = with_lock_operation_mutex l (try_acquire_lock_raw l body)"

definition create_lock_payload :: "lock_body locking" where
  "create_lock_payload = bind_task (act Own_Pid) (\<lambda>k. bind_task (act New_Lock_Id) (\<lambda>n.
     Return (Lock_Envelope (Some (integer_of k)) (number_of n))))"

datatype lock_probe =
    Probe_Absent
  | Probe_Held int int lock_file
  | Probe_Stale string "int option" "lock_file option"
  | Probe_Inaccessible string

text \<open>The value of a \<open>try\<close> whose \<open>catch\<close> goes on with the error.\<close>

definition attempt :: "'a locking \<Rightarrow> (string + 'a) locking" where
  "attempt m = rescue (bind_task m (\<lambda>a. Return (Inr a))) (\<lambda>e. Return (Inl e))"

definition probe_lock :: "string \<Rightarrow> int option \<Rightarrow> lock_probe locking" where
  "probe_lock l stale_after = bind_task (attempt (read_lock_snapshot (Lock_At l))) (\<lambda>r.
     case r of
       Inl e \<Rightarrow> Return (if e = ''EACCES'' \<or> e = ''EPERM'' then Probe_Inaccessible e else Probe_Stale ''unreadable'' None None)
     | Inr None \<Rightarrow> Return Probe_Absent
     | Inr (Some f) \<Rightarrow> bind_task (act Now) (\<lambda>now.
         let age = integer_of now - file_mtime f in
         case extract_holder_pid (raw_content f) of
           None \<Rightarrow> Return (Probe_Stale ''invalid_pid'' None (Some f))
         | Some k \<Rightarrow> bind_task (act (Is_Alive k)) (\<lambda>alive.
             if alive \<noteq> Answer True then Return (Probe_Stale ''pid_dead'' (Some k) (Some f))
             else if (case stale_after of Some limit \<Rightarrow> age > limit | None \<Rightarrow> False)
             then Return (Probe_Stale ''age_exceeded'' (Some k) (Some f))
             else Return (Probe_Held k age f))))"

text \<open>\<open>reclaimStaleLock\<close>; the quarantine name carries a fresh id.\<close>

definition reclaim_stale_lock :: "string \<Rightarrow> lock_file option \<Rightarrow> bool locking" where
  "reclaim_stale_lock l probed = (case probed of
     None \<Rightarrow> Return False
   | Some expected \<Rightarrow> with_lock_operation_mutex l
       (bind_task (attempt (read_lock_snapshot (Lock_At l))) (\<lambda>current.
          if current \<noteq> Inr (Some expected) then Return False
          else bind_task (act New_Lock_Id) (\<lambda>n.
               bind_task (act (Rename_Away l (number_of n))) (\<lambda>r.
                 case r of
                   Errno e \<Rightarrow> if e = ''ENOENT'' then Return False else Raise e
                 | _ \<Rightarrow> bind_task (attempt (read_lock_snapshot (Quarantine l (number_of n)))) (\<lambda>quarantined.
                     if quarantined \<noteq> Inr (Some expected) then
                       bind_task (act (Link_Back l (number_of n))) (\<lambda>r.
                         case r of
                           Errno e \<Rightarrow> if e \<noteq> ''EEXIST'' then Raise e
                             else bind_task (release_lock_raw (Quarantine l (number_of n))) (\<lambda>_. Return False)
                         | _ \<Rightarrow> bind_task (release_lock_raw (Quarantine l (number_of n))) (\<lambda>_. Return False))
                     else bind_task (act (Unlink (Quarantine l (number_of n)))) (\<lambda>r.
                         case r of
                           Errno e \<Rightarrow> if e = ''ENOENT'' then Return False else Raise e
                         | _ \<Rightarrow> Return True)))))))"

definition release_lock :: "lock_ownership \<Rightarrow> unit locking" where
  "release_lock own = (case own of (l, f) \<Rightarrow>
     bind_task (act (File_Exists (Lock_At l))) (\<lambda>there.
     bind_task (act (Mutex_File_Exists l)) (\<lambda>made.
       if there \<noteq> Answer True \<and> made \<noteq> Answer True then Return ()
       else with_lock_operation_mutex l
         (bind_task (attempt (read_lock_snapshot (Lock_At l))) (\<lambda>current.
            if current = Inr (Some f) then release_lock_raw (Lock_At l) else Return ())))))"

section \<open>The maintenance barrier\<close>

definition barrier_stale_after_ms :: int where
  "barrier_stale_after_ms = 5 * 60 * 1000"

definition stale_snapshot :: "lock_probe \<Rightarrow> lock_file option option" where
  "stale_snapshot pr = (case pr of Probe_Stale reason k f \<Rightarrow> Some f | _ \<Rightarrow> None)"

primrec barrier_attempts :: "nat \<Rightarrow> string \<Rightarrow> lock_ownership option locking" where
  "barrier_attempts 0 l = Return None"
| "barrier_attempts (Suc n) l =
     bind_task create_lock_payload (\<lambda>body.
     bind_task (try_acquire_lock l body) (\<lambda>own.
       case own of
         Some o' \<Rightarrow> Return (Some o')
       | None \<Rightarrow> bind_task (probe_lock l (Some barrier_stale_after_ms)) (\<lambda>pr.
           case stale_snapshot pr of
             None \<Rightarrow> Return None
           | Some f \<Rightarrow> bind_task (reclaim_stale_lock l f) (\<lambda>gone.
               if \<not> gone then Return None else barrier_attempts n l))))"

definition try_acquire_maintenance_barrier :: "string \<Rightarrow> lock_ownership option locking" where
  "try_acquire_maintenance_barrier l = barrier_attempts 2 l"

definition acquire_maintenance_barrier :: "string \<Rightarrow> lock_ownership locking" where
  "acquire_maintenance_barrier l = bind_task (try_acquire_maintenance_barrier l) (\<lambda>own.
     case own of Some o' \<Rightarrow> Return o' | None \<Rightarrow> Raise ''AKM maintenance is in progress'')"

text \<open>A protected section: its beginning and its end, which may be an error.\<close>

definition protected :: "lock_ownership \<Rightarrow> unit locking" where
  "protected own = bind_task (act (Enter (fst own) (file_mtime (snd own)))) (\<lambda>_.
     call_unit (Leave (fst own) (file_mtime (snd own))))"

definition with_maintenance_start_barrier :: "string \<Rightarrow> unit locking" where
  "with_maintenance_start_barrier l = bind_task (acquire_maintenance_barrier l) (\<lambda>own.
     finally_do (protected own) (release_lock own))"

definition try_with_maintenance_start_barrier :: "string \<Rightarrow> unit option locking" where
  "try_with_maintenance_start_barrier l = bind_task (try_acquire_maintenance_barrier l) (\<lambda>own.
     case own of
       None \<Rightarrow> Return None
     | Some o' \<Rightarrow> finally_do (bind_task (protected o') (\<lambda>_. Return (Some ()))) (release_lock o'))"

text \<open>\<open>acquireMaintenanceBarrierAsync\<close> with a bound on the rounds its five seconds allow.\<close>

primrec acquire_maintenance_barrier_async :: "nat \<Rightarrow> string \<Rightarrow> int \<Rightarrow> lock_ownership locking" where
  "acquire_maintenance_barrier_async 0 l deadline = acquire_maintenance_barrier l"
| "acquire_maintenance_barrier_async (Suc n) l deadline =
     bind_task (try_acquire_maintenance_barrier l) (\<lambda>own.
       case own of
         Some o' \<Rightarrow> Return o'
       | None \<Rightarrow> bind_task (act Now) (\<lambda>now.
           if integer_of now \<ge> deadline then acquire_maintenance_barrier l
           else bind_task (act Pause) (\<lambda>_. acquire_maintenance_barrier_async n l deadline)))"

definition with_maintenance_start_barrier_async :: "nat \<Rightarrow> string \<Rightarrow> unit locking" where
  "with_maintenance_start_barrier_async rounds l = bind_task (act Now) (\<lambda>now.
     bind_task (acquire_maintenance_barrier_async rounds l (integer_of now + 5000)) (\<lambda>own.
       finally_do (protected own) (release_lock own)))"

primrec barrier_sync_wait :: "nat \<Rightarrow> string \<Rightarrow> int \<Rightarrow> lock_ownership locking" where
  "barrier_sync_wait 0 l deadline = acquire_maintenance_barrier l"
| "barrier_sync_wait (Suc n) l deadline =
     bind_task (try_acquire_maintenance_barrier l) (\<lambda>own.
       case own of
         Some o' \<Rightarrow> Return o'
       | None \<Rightarrow> bind_task (act Now) (\<lambda>now.
           if integer_of now \<ge> deadline then acquire_maintenance_barrier l
           else bind_task (act Pause) (\<lambda>_. barrier_sync_wait n l deadline)))"

text \<open>
  \<open>acquireMaintenanceActivitySync\<close>: under the barrier, a sentinel of its own (the file name is the parameter, which
  the code makes of the process id and a fresh id).
\<close>

definition acquire_maintenance_activity_sync :: "nat \<Rightarrow> string \<Rightarrow> string \<Rightarrow> lock_ownership locking" where
  "acquire_maintenance_activity_sync rounds barrier activity = bind_task (act Now) (\<lambda>now.
     bind_task (barrier_sync_wait rounds barrier (integer_of now + 5000)) (\<lambda>release.
       finally_do
         (bind_task create_lock_payload (\<lambda>body.
          bind_task (try_acquire_lock activity body) (\<lambda>own.
            case own of Some o' \<Rightarrow> Return o' | None \<Rightarrow> Raise ''Could not register AKM maintenance activity'')))
         (release_lock release)))"

section \<open>The asset-mutation lease\<close>

text \<open>The \<open>while (true)\<close> of \<open>tryAcquireAssetMutationLease\<close>, with a bound on its rounds.\<close>

primrec try_acquire_asset_mutation_lease :: "nat \<Rightarrow> string \<Rightarrow> string \<Rightarrow> lock_ownership option locking" where
  "try_acquire_asset_mutation_lease 0 barrier l = Raise ''out of rounds''"
| "try_acquire_asset_mutation_lease (Suc n) barrier l =
     bind_task (try_acquire_maintenance_barrier barrier) (\<lambda>b.
       case b of
         None \<Rightarrow> Return None
       | Some release \<Rightarrow>
           bind_task (finally_do
             (bind_task create_lock_payload (\<lambda>body.
              bind_task (try_acquire_lock l body) (\<lambda>own.
                case own of
                  Some o' \<Rightarrow> Return (Inl (Some o'))
                | None \<Rightarrow> bind_task (probe_lock l None) (\<lambda>pr.
                    case stale_snapshot pr of
                      None \<Rightarrow> Return (Inl None)
                    | Some f \<Rightarrow> bind_task (reclaim_stale_lock l f) (\<lambda>gone.
                        Return (if \<not> gone then Inl None else Inr ()))))))
             (release_lock release))
           (\<lambda>r. case r of Inl result \<Rightarrow> Return result | Inr again \<Rightarrow> try_acquire_asset_mutation_lease n barrier l))"

datatype acquire_mode = Wait_For_Lease | Try_Lease

text \<open>\<open>acquireAssetMutationLease\<close> without the notices and the abort signal, which no caller in the program passes.\<close>

primrec acquire_asset_mutation_lease ::
  "nat \<Rightarrow> nat \<Rightarrow> string \<Rightarrow> string \<Rightarrow> acquire_mode \<Rightarrow> int \<Rightarrow> int \<Rightarrow> lock_ownership option locking" where
  "acquire_asset_mutation_lease 0 rounds barrier l mode max_wait started = Raise ''out of rounds''"
| "acquire_asset_mutation_lease (Suc n) rounds barrier l mode max_wait started =
     bind_task (try_acquire_asset_mutation_lease rounds barrier l) (\<lambda>lease.
       case lease of
         Some o' \<Rightarrow> Return (Some o')
       | None \<Rightarrow>
           if mode = Try_Lease then Return None
           else bind_task (act Now) (\<lambda>now.
             if max_wait \<ge> 0 \<and> integer_of now - started \<ge> max_wait
             then Raise ''timed out waiting for asset mutation lease''
             else bind_task (act Pause) (\<lambda>_. acquire_asset_mutation_lease n rounds barrier l mode max_wait started)))"

definition asset_mutation_max_wait_ms :: int where
  "asset_mutation_max_wait_ms = 10 * 60 * 1000"

definition with_asset_mutation_lease :: "nat \<Rightarrow> nat \<Rightarrow> string \<Rightarrow> string \<Rightarrow> unit locking" where
  "with_asset_mutation_lease n rounds barrier l = bind_task (act Now) (\<lambda>now.
     bind_task (acquire_asset_mutation_lease n rounds barrier l Wait_For_Lease asset_mutation_max_wait_ms (integer_of now)) (\<lambda>lease.
       case lease of
         None \<Rightarrow> Raise ''asset mutation lease unavailable''
       | Some own \<Rightarrow> finally_do (protected own) (release_lock own)))"

primrec wait_for_lease_sync :: "nat \<Rightarrow> nat \<Rightarrow> string \<Rightarrow> string \<Rightarrow> int \<Rightarrow> lock_ownership locking" where
  "wait_for_lease_sync 0 rounds barrier l started = Raise ''out of rounds''"
| "wait_for_lease_sync (Suc n) rounds barrier l started =
     bind_task (try_acquire_asset_mutation_lease rounds barrier l) (\<lambda>lease.
       case lease of
         Some own \<Rightarrow> Return own
       | None \<Rightarrow> bind_task (act Now) (\<lambda>now.
           if integer_of now - started \<ge> asset_mutation_max_wait_ms
           then Raise ''timed out waiting for asset mutation lease''
           else bind_task (act Pause) (\<lambda>_. wait_for_lease_sync n rounds barrier l started)))"

definition with_asset_mutation_lease_sync :: "nat \<Rightarrow> nat \<Rightarrow> string \<Rightarrow> string \<Rightarrow> unit locking" where
  "with_asset_mutation_lease_sync n rounds barrier l = bind_task (act Now) (\<lambda>now.
     bind_task (wait_for_lease_sync n rounds barrier l (integer_of now)) (\<lambda>own.
       finally_do (protected own) (release_lock own)))"


end
