(* ===== verification/Lock_Contract.thy ===== *)
theory Lock_Contract
  imports File_Lock
begin

text \<open>
  What the processes of \<open>File_Lock\<close> owe each other: what one process may do to the files another one relies on, the
  invariant of the sentinels, and, for every operation, what its process must know for the step to be within the contract.
\<close>

section \<open>The contract between the processes\<close>

definition minter_of :: "lock_world \<Rightarrow> lock_body \<Rightarrow> nat option" where
  "minter_of s body = (case body of
     Lock_Envelope k n \<Rightarrow> if n < next_lock_id s then Some (minted_by s n) else None | Lock_Text t \<Rightarrow> None)"

definition expired :: "(string \<Rightarrow> int option) \<Rightarrow> lock_world \<Rightarrow> string \<Rightarrow> int \<Rightarrow> bool" where
  "expired stale s l t \<longleftrightarrow> (case stale l of None \<Rightarrow> False | Some limit \<Rightarrow> limit < clock_ms s - t)"

definition dead :: "nat \<Rightarrow> lock_world \<Rightarrow> bool" where
  "dead q s \<longleftrightarrow> q < born s \<and> q \<notin> set (living s)"

text \<open>What only grows.\<close>

definition grows :: "lock_world \<Rightarrow> lock_world \<Rightarrow> bool" where
  "grows s s' \<longleftrightarrow> born s \<le> born s' \<and> (\<forall>q. dead q s \<longrightarrow> dead q s') \<and> clock_ms s \<le> clock_ms s' \<and>
     next_lock_id s \<le> next_lock_id s' \<and> (\<forall>n < next_lock_id s. minted_by s' n = minted_by s n)"

text \<open>An inode that is linked at one place only.\<close>

definition linked_only :: "lock_place \<Rightarrow> nat \<Rightarrow> lock_world \<Rightarrow> bool" where
  "linked_only pl i s \<longleftrightarrow> i < next_lock_ino s \<and> (\<forall>pl'. lock_entries s pl' = Some i \<longleftrightarrow> pl' = pl)"

text \<open>
  What the others do not do to a living process: take or free its mutexes, touch the sentinel of a lock whose mutex it
  holds or a quarantine file it named, remove the sentinel it minted before that has expired, or move it in
  or out of a protected section.
\<close>

definition leaves_alone :: "(string \<Rightarrow> int option) \<Rightarrow> nat \<Rightarrow> lock_world \<Rightarrow> lock_world \<Rightarrow> bool" where
  "leaves_alone stale p s s' \<longleftrightarrow> p \<in> set (living s') \<and>
     (\<forall>l. mutex_holder s' l = Some p \<longleftrightarrow> mutex_holder s l = Some p) \<and>
     (\<forall>l. mutex_holder s l = Some p \<longrightarrow> lock_file_at s' (Lock_At l) = lock_file_at s (Lock_At l)) \<and>
     (\<forall>l i. mutex_holder s l = Some p \<longrightarrow> linked_only (Lock_At l) i s \<longrightarrow> linked_only (Lock_At l) i s') \<and>
     (\<forall>l n. n < next_lock_id s \<longrightarrow> minted_by s n = p \<longrightarrow>
        lock_file_at s' (Quarantine l n) = lock_file_at s (Quarantine l n)) \<and>
     (\<forall>l f. lock_file_at s (Lock_At l) = Some f \<longrightarrow> minter_of s (raw_content f) = Some p \<longrightarrow>
        \<not> expired stale s' l (file_mtime f) \<longrightarrow> lock_file_at s' (Lock_At l) = Some f) \<and>
     (\<forall>l t. (p, l, t) \<in> set (inside s') \<longleftrightarrow> (p, l, t) \<in> set (inside s))"

definition outside :: "nat \<Rightarrow> lock_world \<Rightarrow> bool" where
  "outside p s \<longleftrightarrow> (\<forall>l t. (p, l, t) \<notin> set (inside s))"

text \<open>A process that is born in the meantime starts outside every section.\<close>

definition lock_contract :: "(string \<Rightarrow> int option) \<Rightarrow> nat \<Rightarrow> lock_world \<Rightarrow> lock_world \<Rightarrow> bool" where
  "lock_contract stale p s s' \<longleftrightarrow> grows s s' \<and> (p \<in> set (living s) \<longrightarrow> leaves_alone stale p s s') \<and>
     (p \<notin> set (living s) \<longrightarrow> p \<in> set (living s') \<longrightarrow> outside p s')"

text \<open>
  The invariant: sentinels tell the truth about who minted them, and whoever is inside a protected section stands on
  its sentinel, or entered too long ago.
\<close>

definition stands :: "(string \<Rightarrow> int option) \<Rightarrow> lock_world \<Rightarrow> nat \<Rightarrow> string \<Rightarrow> int \<Rightarrow> bool" where
  "stands stale s p l t \<longleftrightarrow> expired stale s l t \<or>
     (\<exists>f. lock_file_at s (Lock_At l) = Some f \<and> minter_of s (raw_content f) = Some p \<and> file_mtime f = t)"

definition lock_invariant :: "(nat \<Rightarrow> int) \<Rightarrow> (string \<Rightarrow> int option) \<Rightarrow> lock_world \<Rightarrow> bool" where
  "lock_invariant pids stale s \<longleftrightarrow>
     (\<forall>i k n. fst (lock_inodes s i) = Lock_Envelope k n \<longrightarrow> n < next_lock_id s \<and> k = Some (pids (minted_by s n))) \<and>
     (\<forall>n < next_lock_id s. minted_by s n < born s) \<and>
     (\<forall>pl i. lock_entries s pl = Some i \<longrightarrow> i < next_lock_ino s) \<and>
     (\<forall>q \<in> set (living s). q < born s) \<and>
     (\<forall>p l t. (p, l, t) \<in> set (inside s) \<longrightarrow> p \<in> set (living s) \<longrightarrow> stands stale s p l t)"

text \<open>What the facts about a store do not depend on.\<close>

lemma lock_file_at_frame [simp]:
  "lock_file_at (s\<lparr>mutex_made := a\<rparr>) = lock_file_at s" "lock_file_at (s\<lparr>mutex_holder := b\<rparr>) = lock_file_at s"
  "lock_file_at (s\<lparr>minted_by := c\<rparr>) = lock_file_at s" "lock_file_at (s\<lparr>next_lock_id := d\<rparr>) = lock_file_at s"
  "lock_file_at (s\<lparr>inside := e\<rparr>) = lock_file_at s" "lock_file_at (s\<lparr>next_lock_ino := f\<rparr>) = lock_file_at s"
  "lock_file_at (s\<lparr>clock_ms := g\<rparr>) = lock_file_at s" "lock_file_at (s\<lparr>living := h\<rparr>) = lock_file_at s"
  "lock_file_at (s\<lparr>born := i\<rparr>) = lock_file_at s"
  by (simp_all add: lock_file_at_def fun_eq_iff)

lemma minter_of_frame [simp]:
  "minter_of (s\<lparr>mutex_made := a\<rparr>) = minter_of s" "minter_of (s\<lparr>mutex_holder := b\<rparr>) = minter_of s"
  "minter_of (s\<lparr>lock_entries := c\<rparr>) = minter_of s" "minter_of (s\<lparr>lock_inodes := d\<rparr>) = minter_of s"
  "minter_of (s\<lparr>inside := e\<rparr>) = minter_of s" "minter_of (s\<lparr>next_lock_ino := f\<rparr>) = minter_of s"
  "minter_of (s\<lparr>clock_ms := g\<rparr>) = minter_of s" "minter_of (s\<lparr>living := h\<rparr>) = minter_of s"
  "minter_of (s\<lparr>born := i\<rparr>) = minter_of s"
  by (simp_all add: minter_of_def fun_eq_iff split: lock_body.split)

lemma expired_frame [simp]:
  "expired stale (s\<lparr>mutex_made := a\<rparr>) = expired stale s" "expired stale (s\<lparr>mutex_holder := b\<rparr>) = expired stale s"
  "expired stale (s\<lparr>lock_entries := c\<rparr>) = expired stale s" "expired stale (s\<lparr>lock_inodes := d\<rparr>) = expired stale s"
  "expired stale (s\<lparr>inside := e\<rparr>) = expired stale s" "expired stale (s\<lparr>next_lock_ino := f\<rparr>) = expired stale s"
  "expired stale (s\<lparr>minted_by := g\<rparr>) = expired stale s" "expired stale (s\<lparr>living := h\<rparr>) = expired stale s"
  "expired stale (s\<lparr>born := i\<rparr>) = expired stale s" "expired stale (s\<lparr>next_lock_id := j\<rparr>) = expired stale s"
  by (simp_all add: expired_def fun_eq_iff split: option.split)

lemma stands_frame [simp]:
  "stands stale (s\<lparr>mutex_made := a\<rparr>) = stands stale s" "stands stale (s\<lparr>mutex_holder := b\<rparr>) = stands stale s"
  "stands stale (s\<lparr>inside := c\<rparr>) = stands stale s" "stands stale (s\<lparr>living := d\<rparr>) = stands stale s"
  "stands stale (s\<lparr>born := e\<rparr>) = stands stale s"
  by (simp_all add: stands_def fun_eq_iff)

lemma linked_only_frame [simp]:
  "linked_only pl i (s\<lparr>mutex_made := a\<rparr>) = linked_only pl i s" "linked_only pl i (s\<lparr>mutex_holder := b\<rparr>) = linked_only pl i s"
  "linked_only pl i (s\<lparr>inside := c\<rparr>) = linked_only pl i s" "linked_only pl i (s\<lparr>minted_by := d\<rparr>) = linked_only pl i s"
  "linked_only pl i (s\<lparr>next_lock_id := e\<rparr>) = linked_only pl i s" "linked_only pl i (s\<lparr>lock_inodes := f\<rparr>) = linked_only pl i s"
  by (simp_all add: linked_only_def)

lemma grows_refl: "grows s s"
  by (simp add: grows_def)

lemma grows_trans: "grows s s' \<Longrightarrow> grows s' s'' \<Longrightarrow> grows s s''"
  by (auto simp: grows_def)

lemma minter_of_grows: "grows s s' \<Longrightarrow> minter_of s b = Some p \<Longrightarrow> minter_of s' b = Some p"
  by (auto simp: minter_of_def grows_def split: lock_body.splits if_splits)

lemma expired_grows: "grows s s' \<Longrightarrow> expired stale s l t \<Longrightarrow> expired stale s' l t"
  by (auto simp: expired_def grows_def split: option.splits)

lemma lock_contract_refl: "lock_contract stale p s s"
  by (simp add: lock_contract_def leaves_alone_def grows_refl)

lemma leaves_aloneD:
  assumes "leaves_alone stale p s s'"
  shows "p \<in> set (living s')" "mutex_holder s' l = Some p \<longleftrightarrow> mutex_holder s l = Some p"
    "mutex_holder s l = Some p \<Longrightarrow> lock_file_at s' (Lock_At l) = lock_file_at s (Lock_At l)"
    "mutex_holder s l = Some p \<Longrightarrow> linked_only (Lock_At l) i s \<Longrightarrow> linked_only (Lock_At l) i s'"
    "n < next_lock_id s \<Longrightarrow> minted_by s n = p \<Longrightarrow> lock_file_at s' (Quarantine l n) = lock_file_at s (Quarantine l n)"
    "lock_file_at s (Lock_At l) = Some f \<Longrightarrow> minter_of s (raw_content f) = Some p \<Longrightarrow>
       \<not> expired stale s' l (file_mtime f) \<Longrightarrow> lock_file_at s' (Lock_At l) = Some f"
    "(p, l, t) \<in> set (inside s') \<longleftrightarrow> (p, l, t) \<in> set (inside s)"
  using assms unfolding leaves_alone_def by simp_all

lemma linked_onlyD:
  assumes "linked_only pl i s"
  shows "i < next_lock_ino s" "lock_entries s pl = Some i" "lock_entries s pl' = Some i \<Longrightarrow> pl' = pl"
  using assms unfolding linked_only_def by blast+

lemma linked_onlyI:
  "i < next_lock_ino s \<Longrightarrow> lock_entries s pl = Some i \<Longrightarrow> (\<And>pl'. lock_entries s pl' = Some i \<Longrightarrow> pl' = pl) \<Longrightarrow> linked_only pl i s"
  unfolding linked_only_def by blast

lemma leaves_aloneI:
  assumes "p \<in> set (living s')" "\<And>l. mutex_holder s' l = Some p \<longleftrightarrow> mutex_holder s l = Some p"
    "\<And>l. mutex_holder s l = Some p \<Longrightarrow> lock_file_at s' (Lock_At l) = lock_file_at s (Lock_At l)"
    "\<And>l i. mutex_holder s l = Some p \<Longrightarrow> linked_only (Lock_At l) i s \<Longrightarrow> linked_only (Lock_At l) i s'"
    "\<And>l n. n < next_lock_id s \<Longrightarrow> minted_by s n = p \<Longrightarrow> lock_file_at s' (Quarantine l n) = lock_file_at s (Quarantine l n)"
    "\<And>l f. lock_file_at s (Lock_At l) = Some f \<Longrightarrow> minter_of s (raw_content f) = Some p \<Longrightarrow>
       \<not> expired stale s' l (file_mtime f) \<Longrightarrow> lock_file_at s' (Lock_At l) = Some f"
    "\<And>l t. (p, l, t) \<in> set (inside s') \<longleftrightarrow> (p, l, t) \<in> set (inside s)"
  shows "leaves_alone stale p s s'"
  using assms unfolding leaves_alone_def by blast

lemma leaves_alone_trans:
  assumes "leaves_alone stale p s s'" "leaves_alone stale p s' s''" "grows s s'" "grows s' s''"
  shows "leaves_alone stale p s s''"
proof -
  note d = leaves_aloneD [OF assms(1)] and d' = leaves_aloneD [OF assms(2)]
  have "lock_file_at s'' (Lock_At l) = Some f"
    if f: "lock_file_at s (Lock_At l) = Some f" "minter_of s (raw_content f) = Some p" "\<not> expired stale s'' l (file_mtime f)" for l f
    by (rule d'(6) [OF d(6) [OF f(1,2)] minter_of_grows [OF assms(3) f(2)] f(3)]) (use f(3) expired_grows [OF assms(4)] in blast)
  moreover have "lock_file_at s'' (Quarantine l n) = lock_file_at s (Quarantine l n)"
    if "n < next_lock_id s" "minted_by s n = p" for l n
    using d(5) d'(5) that assms(3) by (simp add: grows_def)
  ultimately show ?thesis unfolding leaves_alone_def using d(1-4,7) d'(1-4,7) by simp
qed

lemma lock_contract_trans:
  "lock_contract stale p s s' \<Longrightarrow> lock_contract stale p s' s'' \<Longrightarrow> lock_contract stale p s s''"
  unfolding lock_contract_def outside_def using grows_trans leaves_alone_trans leaves_aloneD(1,7) by blast

lemma lock_contractI:
  "living s' = living s \<Longrightarrow> grows s s' \<Longrightarrow> (q \<in> set (living s) \<Longrightarrow> leaves_alone stale q s s') \<Longrightarrow> lock_contract stale q s s'"
  by (simp add: lock_contract_def)

interpretation locks: rely_guarantee "lock_invariant pids stale" "lock_contract stale" "lock_exec pids"
  for pids and stale
  by unfold_locales (rule lock_contract_refl, erule lock_contract_trans)

section \<open>Single steps\<close>

definition idle :: "nat \<Rightarrow> lock_world \<Rightarrow> bool" where
  "idle p s \<longleftrightarrow> p \<in> set (living s) \<and> outside p s"

definition locked :: "nat \<Rightarrow> string \<Rightarrow> lock_world \<Rightarrow> bool" where
  "locked p l s \<longleftrightarrow> idle p s \<and> mutex_holder s l = Some p"

text \<open>A place only this process changes, and a snapshot whose file it may remove.\<close>

definition own_place :: "nat \<Rightarrow> lock_world \<Rightarrow> lock_place \<Rightarrow> bool" where
  "own_place p s pl \<longleftrightarrow> (case pl of
     Lock_At l \<Rightarrow> mutex_holder s l = Some p
   | Quarantine l n \<Rightarrow> n < next_lock_id s \<and> minted_by s n = p)"

definition forsaken :: "(string \<Rightarrow> int option) \<Rightarrow> nat \<Rightarrow> string \<Rightarrow> lock_file \<Rightarrow> lock_world \<Rightarrow> bool" where
  "forsaken stale p l f s \<longleftrightarrow> (\<forall>k n. raw_content f = Lock_Envelope k n \<longrightarrow> n < next_lock_id s \<and>
     (minted_by s n = p \<or> dead (minted_by s n) s \<or> expired stale s l (file_mtime f)))"

lemma stands_kept:
  assumes "stands stale s q l t" "q \<in> set (living s)" "lock_contract stale q s s'"
  shows "stands stale s' q l t"
proof -
  have g: "grows s s'" and d: "leaves_alone stale q s s'" using assms(2,3) by (auto simp: lock_contract_def)
  show ?thesis
  proof (cases "expired stale s' l t")
    case False
    then have "\<not> expired stale s l t" using expired_grows [OF g] by blast
    then obtain f where f: "lock_file_at s (Lock_At l) = Some f" "minter_of s (raw_content f) = Some q" "file_mtime f = t"
      using assms(1) by (auto simp: stands_def)
    from leaves_aloneD(6) [OF d f(1,2)] f(3) False have "lock_file_at s' (Lock_At l) = Some f" by simp
    then show ?thesis using f minter_of_grows [OF g f(2)] by (auto simp: stands_def)
  qed (simp add: stands_def)
qed

text \<open>A step keeps the invariant when the sentinels stay truthful and its own process stands where it is inside.\<close>

lemma invariant_step:
  assumes inv: "lock_invariant pids stale s" and c: "\<And>q. q \<noteq> p \<Longrightarrow> lock_contract stale q s s'"
    and alive: "living s' = living s"
    and truth: "\<And>i k n. fst (lock_inodes s' i) = Lock_Envelope k n \<Longrightarrow> n < next_lock_id s' \<and> k = Some (pids (minted_by s' n))"
    and ids: "\<And>n. n < next_lock_id s' \<Longrightarrow> minted_by s' n < born s'"
    and linked: "\<And>pl i. lock_entries s' pl = Some i \<Longrightarrow> i < next_lock_ino s'"
    and self: "\<And>l t. (p, l, t) \<in> set (inside s') \<Longrightarrow> stands stale s' p l t"
  shows "lock_invariant pids stale s'"
proof -
  have "born s \<le> born s'" using c [of "Suc p"] by (auto simp: lock_contract_def grows_def)
  moreover have "stands stale s' q l t" if q: "(q, l, t) \<in> set (inside s')" "q \<in> set (living s')" for q l t
  proof (cases "q = p")
    case False
    then have "leaves_alone stale q s s'" using c q(2) alive by (simp add: lock_contract_def)
    then have "(q, l, t) \<in> set (inside s)" using q(1) leaves_aloneD(7) by blast
    then have "stands stale s q l t" using inv q(2) alive by (simp add: lock_invariant_def)
    then show ?thesis using stands_kept c False q(2) alive by metis
  qed (use q self in simp)
  ultimately show ?thesis using inv truth ids linked alive unfolding lock_invariant_def by fastforce
qed

lemma invariantD:
  assumes "lock_invariant pids stale s"
  shows "fst (lock_inodes s i) = Lock_Envelope k n \<Longrightarrow> n < next_lock_id s \<and> k = Some (pids (minted_by s n))"
    "n < next_lock_id s \<Longrightarrow> minted_by s n < born s" "lock_entries s pl = Some i \<Longrightarrow> i < next_lock_ino s"
    "q \<in> set (living s) \<Longrightarrow> q < born s" "(q, l, t) \<in> set (inside s) \<Longrightarrow> q \<in> set (living s) \<Longrightarrow> stands stale s q l t"
  using assms unfolding lock_invariant_def by blast+

text \<open>Steps that change directory entries.\<close>

lemma entries_step:
  assumes inv: "lock_invariant pids stale s" and p: "outside p s"
    and own: "\<And>pl. e pl \<noteq> lock_entries s pl \<Longrightarrow> own_place p s pl"
    and source: "\<And>pl i. e pl \<noteq> lock_entries s pl \<Longrightarrow> e pl = Some i \<Longrightarrow> \<exists>pl'. own_place p s pl' \<and> lock_entries s pl' = Some i"
    and gone: "\<And>l f. e (Lock_At l) \<noteq> lock_entries s (Lock_At l) \<Longrightarrow> lock_file_at s (Lock_At l) = Some f \<Longrightarrow> forsaken stale p l f s"
  shows "lock_invariant pids stale (s\<lparr>lock_entries := e\<rparr>)" "q \<noteq> p \<Longrightarrow> lock_contract stale q s (s\<lparr>lock_entries := e\<rparr>)"
proof -
  let ?s = "s\<lparr>lock_entries := e\<rparr>"
  have g: "grows s ?s" by (simp add: grows_def dead_def)
  show c: "lock_contract stale q s ?s" if "q \<noteq> p" for q
  proof (rule lock_contractI [OF _ g])
    assume q: "q \<in> set (living s)"
    have same: "e pl = lock_entries s pl" if "own_place q s pl" for pl
      using own [of pl] that \<open>q \<noteq> p\<close> by (auto simp: own_place_def split: lock_place.splits)
    show "leaves_alone stale q s ?s"
      unfolding leaves_alone_def
    proof (intro conjI allI impI)
      fix l f
      assume f: "lock_file_at s (Lock_At l) = Some f" "minter_of s (raw_content f) = Some q" "\<not> expired stale ?s l (file_mtime f)"
      then obtain k n where "raw_content f = Lock_Envelope k n" "n < next_lock_id s" "minted_by s n = q"
        by (auto simp: minter_of_def split: lock_body.splits if_splits)
      moreover have "\<not> dead q s" "\<not> expired stale s l (file_mtime f)" using q f(3) by (auto simp: dead_def expired_def split: option.splits)
      ultimately have "\<not> forsaken stale p l f s" using \<open>q \<noteq> p\<close> by (auto simp: forsaken_def)
      then have "e (Lock_At l) = lock_entries s (Lock_At l)" using gone f(1) by blast
      then show "lock_file_at ?s (Lock_At l) = Some f" using f(1) by (simp add: lock_file_at_def)
    next
      fix l i
      assume l: "mutex_holder s l = Some q" "linked_only (Lock_At l) i s"
      have "e pl = Some i \<longleftrightarrow> pl = Lock_At l" for pl
      proof (cases "e pl = lock_entries s pl")
        case True
        then show ?thesis using l(2) by (simp add: linked_only_def)
      next
        case False
        have "e pl \<noteq> Some i"
        proof
          assume "e pl = Some i"
          then obtain pl' where "own_place p s pl'" "lock_entries s pl' = Some i" using source False by blast
          then show False using l \<open>q \<noteq> p\<close> by (auto simp: linked_only_def own_place_def)
        qed
        moreover have "pl \<noteq> Lock_At l" using own [OF False] l(1) \<open>q \<noteq> p\<close> by (auto simp: own_place_def)
        ultimately show ?thesis by simp
      qed
      then show "linked_only (Lock_At l) i ?s" using l(2) by (simp add: linked_only_def)
    qed (use q same in \<open>simp_all add: lock_file_at_def own_place_def\<close>)
  qed simp
  show "lock_invariant pids stale ?s"
  proof (rule invariant_step [OF inv c])
    show "i < next_lock_ino ?s" if "lock_entries ?s pl = Some i" for pl i
      using that source [of pl i] invariantD(3) [OF inv] by (cases "e pl = lock_entries s pl") auto
  qed (use invariantD(1,2) [OF inv] p in \<open>auto simp: outside_def\<close>)
qed

text \<open>The operations, each from what its process must know before it.\<close>

definition step_safe :: "(nat \<Rightarrow> int) \<Rightarrow> (string \<Rightarrow> int option) \<Rightarrow> nat \<Rightarrow> lock_world \<Rightarrow> lock_world \<Rightarrow> bool" where
  "step_safe pids stale p s s' \<longleftrightarrow> lock_invariant pids stale s' \<and> (\<forall>q. q \<noteq> p \<longrightarrow> lock_contract stale q s s')"

lemma safe_nothing: "lock_invariant pids stale s \<Longrightarrow> step_safe pids stale p s s"
  by (simp add: step_safe_def lock_contract_refl)

lemma safe_mutex:
  assumes inv: "lock_invariant pids stale s" and h: "h = mutex_holder s \<or> (mutex_holder s l = None \<and> h = (mutex_holder s)(l \<mapsto> p))
      \<or> (mutex_holder s l = Some p \<and> h = (mutex_holder s)(l := None))"
  shows "step_safe pids stale p s (s\<lparr>mutex_made := g, mutex_holder := h\<rparr>)"
proof -
  let ?s = "s\<lparr>mutex_made := g, mutex_holder := h\<rparr>"
  have "lock_contract stale q s ?s" if "q \<noteq> p" for q
    using h that by (auto simp: lock_contract_def leaves_alone_def grows_def dead_def lock_file_at_def linked_only_def split: if_splits)
  moreover from this have "lock_invariant pids stale ?s"
    using inv by (simp add: lock_invariant_def)
  ultimately show ?thesis by (simp add: step_safe_def)
qed

lemma safe_entries:
  assumes "lock_invariant pids stale s" "outside p s"
    and "\<And>pl. e pl \<noteq> lock_entries s pl \<Longrightarrow> own_place p s pl"
    and "\<And>pl i. e pl \<noteq> lock_entries s pl \<Longrightarrow> e pl = Some i \<Longrightarrow> \<exists>pl'. own_place p s pl' \<and> lock_entries s pl' = Some i"
    and "\<And>l f. e (Lock_At l) \<noteq> lock_entries s (Lock_At l) \<Longrightarrow> lock_file_at s (Lock_At l) = Some f \<Longrightarrow> forsaken stale p l f s"
  shows "step_safe pids stale p s (s\<lparr>lock_entries := e\<rparr>)"
  using entries_step [of pids stale s p e] assms by (simp add: step_safe_def)

lemma safe_unlink_lock:
  assumes "lock_invariant pids stale s" "locked p l s" "\<And>f. lock_file_at s (Lock_At l) = Some f \<Longrightarrow> forsaken stale p l f s"
  shows "step_safe pids stale p s (s\<lparr>lock_entries := (lock_entries s)(Lock_At l := None)\<rparr>)"
  using assms by (intro safe_entries) (auto simp: locked_def idle_def own_place_def split: if_splits)

lemma safe_unlink_quarantine:
  assumes "lock_invariant pids stale s" "outside p s" "n < next_lock_id s" "minted_by s n = p"
  shows "step_safe pids stale p s (s\<lparr>lock_entries := (lock_entries s)(Quarantine l n := None)\<rparr>)"
  using assms by (intro safe_entries) (auto simp: own_place_def split: if_splits)

lemma safe_rename_away:
  assumes "lock_invariant pids stale s" "locked p l s" "n < next_lock_id s" "minted_by s n = p"
    and "\<And>f. lock_file_at s (Lock_At l) = Some f \<Longrightarrow> forsaken stale p l f s"
  shows "step_safe pids stale p s (s\<lparr>lock_entries := (lock_entries s)(Lock_At l := None, Quarantine l n := lock_entries s (Lock_At l))\<rparr>)"
  using assms by (intro safe_entries) (auto simp: locked_def idle_def own_place_def split: if_splits intro: exI [of _ "Lock_At l"])

lemma safe_link_back:
  assumes "lock_invariant pids stale s" "locked p l s" "n < next_lock_id s" "minted_by s n = p" "lock_entries s (Lock_At l) = None"
    and "lock_entries s (Quarantine l n) = Some i"
  shows "step_safe pids stale p s (s\<lparr>lock_entries := (lock_entries s)(Lock_At l \<mapsto> i)\<rparr>)"
  using assms by (intro safe_entries)
    (auto simp: locked_def idle_def own_place_def lock_file_at_def split: if_splits intro: exI [of _ "Quarantine l n"])

lemma safe_new_id:
  assumes inv: "lock_invariant pids stale s" and p: "idle p s"
  shows "step_safe pids stale p s (s\<lparr>minted_by := (minted_by s)(next_lock_id s := p), next_lock_id := Suc (next_lock_id s)\<rparr>)"
proof -
  let ?s = "s\<lparr>minted_by := (minted_by s)(next_lock_id s := p), next_lock_id := Suc (next_lock_id s)\<rparr>"
  have c: "lock_contract stale q s ?s" if "q \<noteq> p" for q
    using that by (auto simp: lock_contract_def leaves_alone_def grows_def dead_def lock_file_at_def linked_only_def)
  moreover have "lock_invariant pids stale ?s"
  proof (rule invariant_step [OF inv c])
    show "n < next_lock_id ?s \<and> k = Some (pids (minted_by ?s n))" if "fst (lock_inodes ?s i) = Lock_Envelope k n" for i k n
      using invariantD(1) [OF inv, of i k n] that by simp
    show "minted_by ?s n < born ?s" if "n < next_lock_id ?s" for n
      using that invariantD(2,4) [OF inv] p by (auto simp: idle_def less_Suc_eq)
  qed (use invariantD(3) [OF inv] p in \<open>auto simp: idle_def outside_def\<close>)
  ultimately show ?thesis by (simp add: step_safe_def)
qed

text \<open>A new sentinel is empty and linked nowhere else; filling it in makes it the process's own.\<close>

lemma safe_create:
  assumes inv: "lock_invariant pids stale s" and p: "locked p l s" and free: "lock_entries s (Lock_At l) = None"
  defines "s' \<equiv> s\<lparr>lock_entries := (lock_entries s)(Lock_At l \<mapsto> next_lock_ino s),
    lock_inodes := (lock_inodes s)(next_lock_ino s := (Lock_Text '''', clock_ms s)), next_lock_ino := Suc (next_lock_ino s)\<rparr>"
  shows "step_safe pids stale p s s'"
    and "locked p l s' \<and> linked_only (Lock_At l) (next_lock_ino s) s' \<and> fst (lock_inodes s' (next_lock_ino s)) = Lock_Text ''''"
proof -
  have old: "i \<noteq> next_lock_ino s" if "lock_entries s pl = Some i" for pl i using invariantD(3) [OF inv that] by simp
  have files: "lock_file_at s' pl = lock_file_at s pl" if "pl \<noteq> Lock_At l" for pl
    using that old [of pl] by (cases "lock_entries s pl") (simp_all add: s'_def lock_file_at_def)
  have c: "lock_contract stale q s s'" if q: "q \<noteq> p" for q
  proof (rule lock_contractI)
    show "grows s s'" by (simp add: s'_def grows_def dead_def)
    assume q': "q \<in> set (living s)"
    have linked: "linked_only (Lock_At l') i s'" if "mutex_holder s l' = Some q" "linked_only (Lock_At l') i s" for l' i
    proof (rule linked_onlyI)
      have "l' \<noteq> l" using that p q by (auto simp: locked_def)
      then show "lock_entries s' (Lock_At l') = Some i" using linked_onlyD(2) [OF that(2)] by (simp add: s'_def)
      show "pl = Lock_At l'" if "lock_entries s' pl = Some i" for pl
        using that linked_onlyD(1,3) [OF \<open>linked_only (Lock_At l') i s\<close>] by (simp add: s'_def split: if_splits)
    qed (use linked_onlyD(1) [OF that(2)] in \<open>simp add: s'_def\<close>)
    show "leaves_alone stale q s s'"
    proof (rule leaves_aloneI [OF _ _ _ linked])
      show "lock_file_at s' (Lock_At l') = lock_file_at s (Lock_At l')" if "mutex_holder s l' = Some q" for l'
        using that p q by (intro files) (auto simp: locked_def)
      show "lock_file_at s' (Lock_At l') = Some f" if "lock_file_at s (Lock_At l') = Some f" for l' f
        using that free files [of "Lock_At l'"] by (cases "l' = l") (simp_all add: lock_file_at_def [of s])
      show "lock_file_at s' (Quarantine l' n) = lock_file_at s (Quarantine l' n)" for l' n by (rule files) simp
    qed (use q' in \<open>simp_all add: s'_def\<close>)
  qed (simp_all add: s'_def)
  moreover have "lock_invariant pids stale s'"
  proof (rule invariant_step [OF inv c])
    show "n < next_lock_id s' \<and> k = Some (pids (minted_by s' n))" if "fst (lock_inodes s' i) = Lock_Envelope k n" for i k n
      using that invariantD(1) [OF inv, of i] by (simp add: s'_def split: if_splits)
    show "i < next_lock_ino s'" if "lock_entries s' pl = Some i" for pl i
      using that invariantD(3) [OF inv, of pl i] by (simp add: s'_def split: if_splits)
  qed (use invariantD(2) [OF inv] p in \<open>auto simp: s'_def locked_def idle_def outside_def\<close>)
  ultimately show "step_safe pids stale p s s'" by (simp add: step_safe_def)
  show "locked p l s' \<and> linked_only (Lock_At l) (next_lock_ino s) s' \<and> fst (lock_inodes s' (next_lock_ino s)) = Lock_Text ''''"
    using p by (auto simp: s'_def locked_def idle_def outside_def intro!: linked_onlyI split: if_splits dest: old)
qed

definition holds_own :: "nat \<Rightarrow> string \<Rightarrow> lock_world \<Rightarrow> bool" where
  "holds_own p l s \<longleftrightarrow> (\<exists>f. lock_file_at s (Lock_At l) = Some f \<and> minter_of s (raw_content f) = Some p)"

lemma safe_write:
  assumes inv: "lock_invariant pids stale s" and p: "locked p l s"
    and i: "linked_only (Lock_At l) i s" "fst (lock_inodes s i) = Lock_Text ''''"
    and n: "n < next_lock_id s" "minted_by s n = p"
  defines "s' \<equiv> s\<lparr>lock_inodes := (lock_inodes s)(i := (Lock_Envelope (Some (pids p)) n, clock_ms s))\<rparr>"
  shows "step_safe pids stale p s s'" and "locked p l s' \<and> holds_own p l s'"
proof -
  have files: "lock_file_at s' pl = lock_file_at s pl" if "pl \<noteq> Lock_At l" for pl
    using that linked_onlyD(3) [OF i(1), of pl] by (cases "lock_entries s pl") (auto simp: s'_def lock_file_at_def)
  have empty: "raw_content f = Lock_Text ''''" if "lock_file_at s (Lock_At l) = Some f" for f
    using that i(2) linked_onlyD(2) [OF i(1)] by (simp add: lock_file_at_def) (metis lock_file.select_convs(1))
  have c: "lock_contract stale q s s'" if q: "q \<noteq> p" for q
  proof (rule lock_contractI)
    show "grows s s'" by (simp add: s'_def grows_def dead_def)
    assume q': "q \<in> set (living s)"
    have "lock_file_at s' (Lock_At l') = Some f"
      if "lock_file_at s (Lock_At l') = Some f" "minter_of s (raw_content f) = Some q" for l' f
    proof -
      have "l' \<noteq> l" using that empty by (auto simp: minter_of_def)
      then show ?thesis using files that(1) by simp
    qed
    from this show "leaves_alone stale q s s'"
    proof (rule leaves_aloneI [rotated 5])
      show "lock_file_at s' (Lock_At l') = lock_file_at s (Lock_At l')" if "mutex_holder s l' = Some q" for l'
        using that p q by (intro files) (auto simp: locked_def)
      show "lock_file_at s' (Quarantine l' n) = lock_file_at s (Quarantine l' n)" for l' n by (rule files) simp
    qed (use q' in \<open>simp_all add: s'_def\<close>)
  qed (simp_all add: s'_def)
  moreover have "lock_invariant pids stale s'"
  proof (rule invariant_step [OF inv c])
    show "m < next_lock_id s' \<and> k = Some (pids (minted_by s' m))" if "fst (lock_inodes s' j) = Lock_Envelope k m" for j k m
      using that invariantD(1) [OF inv, of j] n by (auto simp: s'_def split: if_splits)
  qed (use invariantD(2,3) [OF inv] p in \<open>auto simp: s'_def locked_def idle_def outside_def\<close>)
  ultimately show "step_safe pids stale p s s'" by (simp add: step_safe_def)
  show "locked p l s' \<and> holds_own p l s'"
    using p linked_onlyD(2) [OF i(1)] n by (simp add: s'_def locked_def idle_def outside_def holds_own_def lock_file_at_def minter_of_def)
qed

text \<open>A process may enter on a sentinel of its own that is still there or has expired.\<close>

definition owns :: "(string \<Rightarrow> int option) \<Rightarrow> nat \<Rightarrow> lock_ownership \<Rightarrow> lock_world \<Rightarrow> bool" where
  "owns stale p own s \<longleftrightarrow> minter_of s (raw_content (snd own)) = Some p \<and>
     (lock_file_at s (Lock_At (fst own)) = Some (snd own) \<or> expired stale s (fst own) (file_mtime (snd own)))"

definition inside_only :: "nat \<Rightarrow> string \<Rightarrow> int \<Rightarrow> lock_world \<Rightarrow> bool" where
  "inside_only p l t s \<longleftrightarrow> p \<in> set (living s) \<and> (\<forall>l' t'. (p, l', t') \<in> set (inside s) \<longleftrightarrow> l' = l \<and> t' = t)"

lemma safe_inside:
  assumes inv: "lock_invariant pids stale s"
    and others: "\<And>q l t. q \<noteq> p \<Longrightarrow> (q, l, t) \<in> set xs \<longleftrightarrow> (q, l, t) \<in> set (inside s)"
    and self: "\<And>l t. (p, l, t) \<in> set xs \<Longrightarrow> stands stale s p l t"
  shows "step_safe pids stale p s (s\<lparr>inside := xs\<rparr>)"
proof -
  let ?s = "s\<lparr>inside := xs\<rparr>"
  have c: "lock_contract stale q s ?s" if "q \<noteq> p" for q
    using others [OF that] by (auto simp: lock_contract_def leaves_alone_def grows_def dead_def lock_file_at_def linked_only_def)
  moreover have "lock_invariant pids stale ?s"
  proof (rule invariant_step [OF inv c])
    show "stands stale ?s p l t" if "(p, l, t) \<in> set (inside ?s)" for l t
      using self [of l t] that by simp
  qed (use invariantD(1-3) [OF inv] in auto)
  ultimately show ?thesis by (simp add: step_safe_def)
qed

end
