(* ===== verification/Lock_Library.thy ===== *)
theory Lock_Library
  imports Lock_Contract
begin

text \<open>
  The operations and the library functions of \<open>File_Lock\<close> in the logic of \<open>Rely_Guarantee\<close>: what a process knows
  before and after reading a snapshot, acquiring, probing, reclaiming and releasing a lock, whatever the others do meanwhile and
  whichever system calls fail.
\<close>

section \<open>The operations in the logic\<close>

abbreviation lock_spec where
  "lock_spec pids stale \<equiv> rely_guarantee.spec (lock_invariant pids stale) (lock_contract stale) (lock_exec pids)"

abbreviation lock_stable where
  "lock_stable stale \<equiv> rely_guarantee.stable (lock_contract stale)"

abbreviation lock_lasting where
  "lock_lasting stale \<equiv> rely_guarantee.lasting (lock_contract stale)"

named_theorems kept \<open>what the contract keeps\<close>

lemma contract_kept:
  assumes "lock_contract stale p s s'"
  shows "idle p s \<Longrightarrow> idle p s'" "locked p l s \<Longrightarrow> locked p l s'"
    "locked p l s \<Longrightarrow> lock_file_at s' (Lock_At l) = lock_file_at s (Lock_At l)"
    "locked p l s \<Longrightarrow> linked_only (Lock_At l) i s \<Longrightarrow>
       linked_only (Lock_At l) i s' \<and> fst (lock_inodes s' i) = fst (lock_inodes s i)"
    "inside_only p l t s \<Longrightarrow> inside_only p l t s'"
proof -
  have d: "leaves_alone stale p s s'" if "p \<in> set (living s)" using assms that by (simp add: lock_contract_def)
  show 1: "idle p s'" if "idle p s"
    using leaves_aloneD(1,7) [OF d] that by (auto simp: idle_def outside_def)
  show 2: "locked p l s'" if "locked p l s"
    using 1 leaves_aloneD(2) [OF d] that by (auto simp: locked_def idle_def)
  show 3: "lock_file_at s' (Lock_At l) = lock_file_at s (Lock_At l)" if "locked p l s"
    using leaves_aloneD(3) [OF d] that by (simp add: locked_def idle_def)
  show "linked_only (Lock_At l) i s' \<and> fst (lock_inodes s' i) = fst (lock_inodes s i)"
    if "locked p l s" "linked_only (Lock_At l) i s"
  proof -
    have l: "linked_only (Lock_At l) i s'" using leaves_aloneD(4) [OF d] that by (simp add: locked_def idle_def)
    then show ?thesis using 3 [OF that(1)] linked_onlyD(2) [OF l] linked_onlyD(2) [OF that(2)] by (simp add: lock_file_at_def)
  qed
  show "inside_only p l t s'" if "inside_only p l t s"
    using leaves_aloneD(1,7) [OF d] that by (auto simp: inside_only_def)
qed

lemma lock_stableI: "(\<And>s s'. P s \<Longrightarrow> lock_contract stale p s s' \<Longrightarrow> P s') \<Longrightarrow> lock_stable stale p P"
  by (auto simp: locks.stable_def)

lemma stable_lasting: "lock_lasting stale R \<Longrightarrow> lock_stable stale p R"
  by (simp add: locks.lasting_def)

lemma lock_lastingI: "(\<And>s s'. R s \<Longrightarrow> grows s s' \<Longrightarrow> R s') \<Longrightarrow> lock_lasting stale R"
  by (auto simp: locks.lasting_def locks.stable_def lock_contract_def)

definition minted :: "nat \<Rightarrow> nat \<Rightarrow> lock_world \<Rightarrow> bool" where
  "minted n p s \<longleftrightarrow> n < next_lock_id s \<and> minted_by s n = p"

text \<open>A snapshot that was read from some inode, and so tells the truth.\<close>

definition truthful :: "(nat \<Rightarrow> int) \<Rightarrow> lock_file \<Rightarrow> lock_world \<Rightarrow> bool" where
  "truthful pids f s \<longleftrightarrow> (\<forall>k n. raw_content f = Lock_Envelope k n \<longrightarrow>
     n < next_lock_id s \<and> k = Some (pids (minted_by s n)) \<and> minted_by s n < born s)"

lemma lasting_facts [kept]:
  "lock_lasting stale (minted n p)" "lock_lasting stale (truthful pids f)" "lock_lasting stale (forsaken stale p l f)"
  "lock_lasting stale (\<lambda>s. minter_of s b = Some p)" "lock_lasting stale (\<lambda>s. c)"
proof -
  show "lock_lasting stale (minted n p)" "lock_lasting stale (truthful pids f)"
    by (rule lock_lastingI, fastforce simp: minted_def truthful_def grows_def)+
  show "lock_lasting stale (forsaken stale p l f)"
    by (rule lock_lastingI, use expired_grows in \<open>fastforce simp: forsaken_def grows_def\<close>)
  show "lock_lasting stale (\<lambda>s. minter_of s b = Some p)"
    by (rule lock_lastingI, use minter_of_grows in blast)
qed (simp add: lock_lastingI)

lemma stable_facts [kept]:
  "lock_stable stale p (idle p)" "lock_stable stale p (locked p l)"
  "lock_stable stale p (\<lambda>s. locked p l s \<and> lock_file_at s (Lock_At l) = x)"
  "lock_stable stale p (\<lambda>s. locked p l s \<and> holds_own p l s)"
  "lock_stable stale p (\<lambda>s. locked p l s \<and> linked_only (Lock_At l) i s \<and> fst (lock_inodes s i) = b)"
  "lock_stable stale p (inside_only p l t)"
proof -
  show "lock_stable stale p (\<lambda>s. locked p l s \<and> holds_own p l s)"
  proof (rule lock_stableI)
    fix s s' assume s: "locked p l s \<and> holds_own p l s" and c: "lock_contract stale p s s'"
    then have "grows s s'" by (simp add: lock_contract_def)
    then show "locked p l s' \<and> holds_own p l s'"
      using s contract_kept(2,3) [OF c] minter_of_grows by (fastforce simp: holds_own_def)
  qed
qed (use contract_kept in \<open>auto intro!: lock_stableI\<close>)

lemma spec_step:
  assumes "lock_stable stale p P" "\<And>r. lock_stable stale p (Q r)"
    and "\<And>s f r s'. P s \<Longrightarrow> lock_invariant pids stale s \<Longrightarrow> lock_exec pids p x f s = (r, s') \<Longrightarrow>
      step_safe pids stale p s s' \<and> Q r s'"
  shows "lock_spec pids stale p P (act x) Q E"
  by (rule locks.spec_act [OF assms(1,2)]) (use assms(3) in \<open>auto simp: step_safe_def split: prod.split\<close>)

lemma spec_call:
  assumes "lock_stable stale p P" "\<And>r. lock_stable stale p (Q r)" "lock_stable stale p E"
    and step: "\<And>s f r s'. P s \<Longrightarrow> lock_invariant pids stale s \<Longrightarrow> lock_exec pids p x f s = (r, s') \<Longrightarrow>
      step_safe pids stale p s s' \<and> (if \<exists>e. r = Errno e then E s' else Q r s')"
  shows "lock_spec pids stale p P (call x) Q E"
  unfolding call_def
proof (rule locks.spec_bind)
  show "lock_spec pids stale p P (act x) (\<lambda>r s. if \<exists>e. r = Errno e then E s else Q r s) E"
  proof (rule spec_step [OF assms(1)])
    show "lock_stable stale p (\<lambda>s. if \<exists>e. r = Errno e then E s else Q r s)" for r
      by (cases "\<exists>e. r = Errno e") (simp_all only: assms(2,3) if_True if_False not_False_eq_True)
  qed (use step in blast)
  show "lock_spec pids stale p (\<lambda>s. if \<exists>e. r = Errno e then E s else Q r s)
      (case r of Errno e \<Rightarrow> Raise e | _ \<Rightarrow> Return r) Q E" for r
    by (cases r) (auto intro!: locks.spec_return locks.spec_raise assms(2,3))
qed

text \<open>Operations that only read.\<close>

definition reads :: "lock_op \<Rightarrow> bool" where
  "reads x \<longleftrightarrow> (case x of Mutex_File_Exists l \<Rightarrow> True | File_Exists pl \<Rightarrow> True | Open_File pl \<Rightarrow> True | Read_Fd i \<Rightarrow> True
     | Stat_Fd i \<Rightarrow> True | Own_Pid \<Rightarrow> True | Is_Alive k \<Rightarrow> True | Now \<Rightarrow> True | Pause \<Rightarrow> True | _ \<Rightarrow> False)"

lemma reads_store: "reads x \<Longrightarrow> lock_exec pids p x f s = (r, s') \<Longrightarrow> s' = s"
  by (cases x) (auto simp: reads_def split: option.splits)

lemma spec_read:
  assumes "reads x" "lock_stable stale p P" "\<And>r. lock_stable stale p (Q r)"
    and "\<And>s f r. P s \<Longrightarrow> lock_invariant pids stale s \<Longrightarrow> lock_exec pids p x f s = (r, s) \<Longrightarrow> Q r s"
  shows "lock_spec pids stale p P (act x) Q E"
  by (rule spec_step [OF assms(2,3)]) (use reads_store [OF assms(1)] assms(4) safe_nothing in blast)

lemma spec_read_call:
  assumes "reads x" "lock_stable stale p P" "\<And>r. lock_stable stale p (Q r)"
    and "\<And>s f r. P s \<Longrightarrow> lock_invariant pids stale s \<Longrightarrow> lock_exec pids p x f s = (r, s) \<Longrightarrow> \<nexists>e. r = Errno e \<Longrightarrow> Q r s"
  shows "lock_spec pids stale p P (call x) Q P"
proof (rule spec_call [OF assms(2,3,2)])
  fix s f r s'
  assume s: "P s" "lock_invariant pids stale s" "lock_exec pids p x f s = (r, s')"
  then have "s' = s" using reads_store [OF assms(1)] by blast
  then show "step_safe pids stale p s s' \<and> (if \<exists>e. r = Errno e then P s' else Q r s')"
    using s assms(4) [of s f r] safe_nothing by simp
qed

lemma spec_attempt:
  assumes "lock_spec pids stale p P m Q E" "\<And>a. lock_stable stale p (Q a)" "lock_stable stale p E"
  shows "lock_spec pids stale p P (attempt m) (\<lambda>r s. case r of Inl e \<Rightarrow> E s | Inr a \<Rightarrow> Q a s) E'"
proof -
  have ret: "lock_spec pids stale p (\<lambda>s. case r of Inl e \<Rightarrow> E s | Inr a \<Rightarrow> Q a s) (Return r)
      (\<lambda>r s. case r of Inl e \<Rightarrow> E s | Inr a \<Rightarrow> Q a s) E'' " for r E''
    by (rule locks.spec_return) (use assms(2,3) in \<open>cases r; simp\<close>)
  show ?thesis unfolding attempt_def
    by (rule locks.spec_rescue [OF locks.spec_bind [OF assms(1)]]) (use ret [of "Inr _"] ret [of "Inl _"] in simp_all)
qed

text \<open>Snapshots: what they show is true of its inode, and it is the sentinel when the reader holds the mutex.\<close>

lemma spec_snapshot:
  assumes P: "lock_stable stale p P"
    and A: "\<And>i. lock_lasting stale (A i)" and B: "\<And>i b. lock_lasting stale (B i b)" and C: "\<And>f. lock_lasting stale (C f)"
    and opened: "\<And>s i. P s \<Longrightarrow> lock_invariant pids stale s \<Longrightarrow> lock_entries s pl = Some i \<Longrightarrow> A i s"
    and content: "\<And>s i. P s \<Longrightarrow> lock_invariant pids stale s \<Longrightarrow> A i s \<Longrightarrow> B i (fst (lock_inodes s i)) s"
    and stat: "\<And>s i b. P s \<Longrightarrow> lock_invariant pids stale s \<Longrightarrow> A i s \<Longrightarrow> B i b s \<Longrightarrow>
      C \<lparr>raw_content = b, file_ino = i, file_mtime = snd (lock_inodes s i)\<rparr> s"
  shows "lock_spec pids stale p P (read_lock_snapshot pl) (\<lambda>x s. P s \<and> (\<forall>f. x = Some f \<longrightarrow> C f s)) P"
proof -
  note st = P stable_lasting [OF A] stable_lasting [OF B] stable_lasting [OF C] locks.stable_conj locks.stable_const
  let ?Q = "\<lambda>x s. P s \<and> (\<forall>f. x = Some f \<longrightarrow> C f s)"
  have Q: "lock_stable stale p (?Q x)" for x
    by (cases x) (auto intro: st)
  have 3: "lock_spec pids stale p (\<lambda>s. P s \<and> A i s \<and> B i b s)
      (bind_task (call (Stat_Fd i)) (\<lambda>m. Return (Some \<lparr>raw_content = b, file_ino = i, file_mtime = integer_of m\<rparr>))) ?Q P" for i b
  proof (rule locks.spec_bind)
    show "lock_spec pids stale p (\<lambda>s. P s \<and> A i s \<and> B i b s) (call (Stat_Fd i))
        (\<lambda>r s. P s \<and> C \<lparr>raw_content = b, file_ino = i, file_mtime = integer_of r\<rparr> s) P"
      by (rule spec_call) (use stat safe_nothing in \<open>auto intro!: st simp: integer_of_def split: option.splits\<close>)
    show "lock_spec pids stale p (\<lambda>s. P s \<and> C \<lparr>raw_content = b, file_ino = i, file_mtime = integer_of m\<rparr> s)
        (Return (Some \<lparr>raw_content = b, file_ino = i, file_mtime = integer_of m\<rparr>)) ?Q P" for m
      using locks.spec_return [of stale p ?Q "Some \<lparr>raw_content = b, file_ino = i, file_mtime = integer_of m\<rparr>", OF Q] by simp
  qed
  have 2: "lock_spec pids stale p (\<lambda>s. P s \<and> A i s)
      (bind_task (call (Read_Fd i)) (\<lambda>t. bind_task (call (Stat_Fd i)) (\<lambda>m.
         Return (Some \<lparr>raw_content = text_of t, file_ino = i, file_mtime = integer_of m\<rparr>)))) ?Q P" for i
  proof (rule locks.spec_bind)
    show "lock_spec pids stale p (\<lambda>s. P s \<and> A i s) (call (Read_Fd i)) (\<lambda>r s. P s \<and> A i s \<and> B i (text_of r) s) P"
      by (rule spec_call) (use content safe_nothing in \<open>auto intro!: st simp: text_of_def split: option.splits\<close>)
  qed (rule 3)
  show ?thesis unfolding read_lock_snapshot_def
  proof (rule locks.spec_bind)
    let ?R = "\<lambda>r s. case r of Errno e \<Rightarrow> P s | Fd i \<Rightarrow> P s \<and> A i s | _ \<Rightarrow> False"
    have R: "lock_stable stale p (?R r)" for r
      by (cases r) (auto intro: st)
    show "lock_spec pids stale p P (act (Open_File pl)) ?R P"
      by (rule spec_read [OF _ P R]) (use opened in \<open>auto simp: reads_def split: option.splits\<close>)
    show "lock_spec pids stale p (?R r)
        (case r of Errno e \<Rightarrow> if e = ''ENOENT'' then Return None else Raise e
         | _ \<Rightarrow> bind_task (call (Read_Fd (fd_of r))) (\<lambda>t. bind_task (call (Stat_Fd (fd_of r))) (\<lambda>m.
             Return (Some \<lparr>raw_content = text_of t, file_ino = fd_of r, file_mtime = integer_of m\<rparr>)))) ?Q P" for r
    proof (cases r)
      case (Errno e)
      then show ?thesis using locks.spec_return [of stale p ?Q None, OF Q] by (simp add: locks.spec_raise [OF P])
    next
      case (Fd i)
      then show ?thesis using 2 [of i] by (simp add: fd_of_def)
    qed (simp_all add: locks.spec_def)
  qed
qed

lemma spec_truthful_snapshot:
  assumes "lock_stable stale p P"
  shows "lock_spec pids stale p P (read_lock_snapshot pl) (\<lambda>x s. P s \<and> (\<forall>f. x = Some f \<longrightarrow> truthful pids f s)) P"
  by (rule spec_snapshot [OF assms, where A = "\<lambda>i s. True" and B = "\<lambda>i b s. truthful pids \<lparr>raw_content = b, file_ino = 0, file_mtime = 0\<rparr> s"])
    (use invariantD(1,2) in \<open>auto intro: kept\<close>, auto simp: truthful_def dest: invariantD)

lemma spec_locked_snapshot:
  "lock_spec pids stale p (\<lambda>s. locked p l s \<and> lock_file_at s (Lock_At l) = x) (read_lock_snapshot (Lock_At l))
     (\<lambda>y s. (locked p l s \<and> lock_file_at s (Lock_At l) = x) \<and> (\<forall>f. y = Some f \<longrightarrow> x = Some f))
     (\<lambda>s. locked p l s \<and> lock_file_at s (Lock_At l) = x)"
  by (rule spec_snapshot [where A = "\<lambda>i s. \<exists>f. x = Some f \<and> file_ino f = i" and
        B = "\<lambda>i b s. \<exists>f. x = Some f \<and> file_ino f = i \<and> raw_content f = b"])
    (auto intro: kept, auto simp: lock_file_at_def)

section \<open>The library in the logic\<close>

text \<open>The sentinel of a lock that this process may remove.\<close>

definition removable :: "(string \<Rightarrow> int option) \<Rightarrow> nat \<Rightarrow> string \<Rightarrow> lock_world \<Rightarrow> bool" where
  "removable stale p l s \<longleftrightarrow> (\<forall>f. lock_file_at s (Lock_At l) = Some f \<longrightarrow> forsaken stale p l f s)"

lemma stable_removable [kept]: "lock_stable stale p (\<lambda>s. locked p l s \<and> removable stale p l s)"
proof (rule lock_stableI)
  fix s s' assume s: "locked p l s \<and> removable stale p l s" and c: "lock_contract stale p s s'"
  have "forsaken stale p l f s \<Longrightarrow> forsaken stale p l f s'" for f
    using lasting_facts(3) [of stale p l f] c unfolding locks.lasting_def locks.stable_def by blast
  then show "locked p l s' \<and> removable stale p l s'"
    using s contract_kept(2,3) [OF c] by (simp add: removable_def)
qed

lemma own_is_removable: "holds_own p l s \<Longrightarrow> removable stale p l s"
proof -
  assume "holds_own p l s"
  then obtain f where f: "lock_file_at s (Lock_At l) = Some f" "minter_of s (raw_content f) = Some p" by (auto simp: holds_own_def)
  then have "forsaken stale p l f s" by (cases "raw_content f") (auto simp: forsaken_def minter_of_def split: if_splits)
  then show ?thesis using f(1) by (simp add: removable_def)
qed

lemma locked_store [simp]:
  "locked p l (s\<lparr>lock_entries := e\<rparr>) = locked p l s" "locked p l (s\<lparr>lock_inodes := i\<rparr>) = locked p l s"
  "locked p l (s\<lparr>minted_by := m\<rparr>) = locked p l s" "locked p l (s\<lparr>next_lock_id := n\<rparr>) = locked p l s"
  "locked p l (s\<lparr>next_lock_ino := n\<rparr>) = locked p l s" "idle p (s\<lparr>mutex_holder := h\<rparr>) = idle p s"
  "idle p (s\<lparr>mutex_made := g\<rparr>) = idle p s" "idle p (s\<lparr>minted_by := m\<rparr>) = idle p s"
  "idle p (s\<lparr>next_lock_id := n\<rparr>) = idle p s" "idle p (s\<lparr>lock_entries := e\<rparr>) = idle p s"
  "outside p (s\<lparr>lock_entries := e\<rparr>) = outside p s"
  by (simp_all add: locked_def idle_def outside_def)

lemma safe_mutex_holder:
  assumes "lock_invariant pids stale s" "h = mutex_holder s \<or> (mutex_holder s l = None \<and> h = (mutex_holder s)(l \<mapsto> p))
      \<or> (mutex_holder s l = Some p \<and> h = (mutex_holder s)(l := None))"
  shows "step_safe pids stale p s (s\<lparr>mutex_holder := h\<rparr>)"
  using safe_mutex [OF assms, of "mutex_made s"] by simp

lemma spec_free:
  assumes Q: "lock_stable stale p (\<lambda>s. locked p l s \<and> K s)" "lock_stable stale p (\<lambda>s. idle p s \<and> K' s)"
    and K: "\<And>s h. locked p l s \<Longrightarrow> K s \<Longrightarrow> K' (s\<lparr>mutex_holder := h\<rparr>)"
  shows "lock_spec pids stale p (\<lambda>s. locked p l s \<and> K s) (act (Free_Mutex l)) (\<lambda>_ s. idle p s \<and> K' s) E"
    and "lock_spec pids stale p (\<lambda>s. locked p l s \<and> K s) (call (Free_Mutex l)) (\<lambda>_ s. idle p s \<and> K' s) (idle p)"
proof -
  have step: "step_safe pids stale p s s' \<and> idle p s' \<and> K' s'"
    if "locked p l s \<and> K s" "lock_invariant pids stale s" "lock_exec pids p (Free_Mutex l) f s = (r, s')" for s f r s'
    using that K by (auto simp: locked_def intro!: safe_mutex_holder)
  show "lock_spec pids stale p (\<lambda>s. locked p l s \<and> K s) (act (Free_Mutex l)) (\<lambda>_ s. idle p s \<and> K' s) E"
    by (rule spec_step [OF Q]) (use step in blast)
  show "lock_spec pids stale p (\<lambda>s. locked p l s \<and> K s) (call (Free_Mutex l)) (\<lambda>_ s. idle p s \<and> K' s) (idle p)"
    by (rule spec_call [OF Q stable_facts(1)]) (use step in \<open>auto intro: kept\<close>)
qed

lemma spec_with_mutex:
  assumes R: "lock_lasting stale R"
    and run: "lock_spec pids stale p (\<lambda>s. locked p l s \<and> R s) m (\<lambda>a s. locked p l s \<and> K a s) (locked p l)"
    and K: "\<And>a. lock_stable stale p (\<lambda>s. locked p l s \<and> K a s)" "\<And>a. lock_stable stale p (\<lambda>s. idle p s \<and> K' a s)"
    and free: "\<And>a s h. locked p l s \<Longrightarrow> K a s \<Longrightarrow> K' a (s\<lparr>mutex_holder := h\<rparr>)"
  shows "lock_spec pids stale p (\<lambda>s. idle p s \<and> R s) (with_lock_operation_mutex l m) (\<lambda>a s. idle p s \<and> K' a s) (idle p)"
  unfolding with_lock_operation_mutex_def
proof (rule locks.spec_bind)
  note st = kept stable_lasting [OF R] locks.stable_conj
  have taken: "R (s\<lparr>mutex_made := g, mutex_holder := h\<rparr>)" if "R s" for s g h
  proof -
    have "lock_contract stale q s (s\<lparr>mutex_made := g, mutex_holder := h\<rparr>)" if "q \<notin> set (living s)" for q
      using that by (simp add: lock_contract_def grows_def dead_def)
    moreover obtain q where "q \<notin> set (living s)" using ex_new_if_finite [of "set (living s)"] by (auto simp: infinite_UNIV_nat)
    ultimately show ?thesis using R that unfolding locks.lasting_def locks.stable_def by blast
  qed
  show "lock_spec pids stale p (\<lambda>s. idle p s \<and> R s) (call (Take_Mutex l)) (\<lambda>_ s. locked p l s \<and> R s) (idle p)"
  proof (rule spec_call)
    fix s f r s'
    assume s: "idle p s \<and> R s" "lock_invariant pids stale s" "lock_exec pids p (Take_Mutex l) f s = (r, s')"
    have "step_safe pids stale p s s'"
      using s(2,3) safe_mutex [OF s(2), of "mutex_holder s" l p "(mutex_made s)(l := True)"]
      by (auto simp: Let_def split: if_splits intro!: safe_mutex)
    then show "step_safe pids stale p s s' \<and> (if \<exists>e. r = Errno e then idle p s' else locked p l s' \<and> R s')"
      using s taken by (auto simp: Let_def locked_def split: if_splits)
  qed (auto intro: st)
  show "lock_spec pids stale p (\<lambda>s. locked p l s \<and> R s)
      (bind_task (rescue m (\<lambda>e. bind_task (act (Free_Mutex l)) (\<lambda>_. Raise e)))
        (\<lambda>a. bind_task (call (Free_Mutex l)) (\<lambda>_. Return a))) (\<lambda>a s. idle p s \<and> K' a s) (idle p)" for r
  proof (rule locks.spec_bind [OF locks.spec_rescue [OF run]])
    show "lock_spec pids stale p (locked p l) (bind_task (act (Free_Mutex l)) (\<lambda>_. Raise e)) Q (idle p)" for e Q
      by (rule locks.spec_bind [where R = "\<lambda>_. idle p",
            OF locks.spec_weaken [OF spec_free(1) [where K = "\<lambda>s. True" and K' = "\<lambda>s. True"]]])
        (auto intro: kept locks.spec_raise)
    show "lock_spec pids stale p (\<lambda>s. locked p l s \<and> K a s) (bind_task (call (Free_Mutex l)) (\<lambda>_. Return a))
        (\<lambda>a s. idle p s \<and> K' a s) (idle p)" for a
      by (rule locks.spec_bind [OF spec_free(2) [OF K free] locks.spec_return [where Q = "\<lambda>a s. idle p s \<and> K' a s", OF K(2)]])
  qed
qed

lemma spec_return_any: "lock_stable stale p P \<Longrightarrow> lock_spec pids stale p P (Return a) (\<lambda>_. P) E"
  using locks.spec_return [where Q = "\<lambda>_. P"] .

lemma spec_returnI: "lock_stable stale p P \<Longrightarrow> (\<And>s. P s \<Longrightarrow> Q a s) \<Longrightarrow> lock_spec pids stale p P (Return a) Q E"
  by (auto simp: locks.spec_def locks.stable_def meets.simps)

lemma spec_raiseI: "lock_stable stale p P \<Longrightarrow> (\<And>s. P s \<Longrightarrow> E s) \<Longrightarrow> lock_spec pids stale p P (Raise e) Q E"
  by (auto simp: locks.spec_def locks.stable_def meets.simps)

lemma spec_exists: "(\<And>x. lock_spec pids stale p (P x) m Q E) \<Longrightarrow> lock_spec pids stale p (\<lambda>s. \<exists>x. P x s) m Q E"
  by (auto simp: locks.spec_def)

lemma spec_frame_facts:
  "lock_spec pids stale p P m Q E \<Longrightarrow> lock_lasting stale R \<Longrightarrow>
   lock_spec pids stale p (\<lambda>s. P s \<and> R s) m (\<lambda>a s. Q a s \<and> R s) (\<lambda>s. E s \<and> R s)"
  by (rule locks.spec_frame [where q = "Suc p"]) simp_all

lemma spec_false: "lock_spec pids stale p (\<lambda>s. False) m Q E"
  by (simp add: locks.spec_def)

lemma spec_release_raw:
  "lock_spec pids stale p (\<lambda>s. locked p l s \<and> removable stale p l s) (release_lock_raw (Lock_At l)) (\<lambda>_. locked p l) E"
  unfolding release_lock_raw_def
proof (rule locks.spec_bind)
  show "lock_spec pids stale p (\<lambda>s. locked p l s \<and> removable stale p l s) (act (Unlink (Lock_At l))) (\<lambda>_. locked p l) E"
    by (rule spec_step [OF stable_removable stable_facts(2)])
      (auto intro: safe_nothing safe_unlink_lock simp: removable_def split: option.splits if_splits)
qed (rule spec_return_any [OF stable_facts(2)])

lemma spec_unlink_quarantine:
  "lock_spec pids stale p (\<lambda>s. locked p l s \<and> minted n p s) (act (Unlink (Quarantine l n))) (\<lambda>_. locked p l) E"
proof (rule spec_step)
  show "lock_stable stale p (\<lambda>s. locked p l s \<and> minted n p s)"
    by (intro locks.stable_conj stable_lasting kept)
qed (auto intro: kept safe_nothing safe_unlink_quarantine simp: minted_def locked_def idle_def split: option.splits if_splits)

text \<open>Acquiring: on success the sentinel is the process's own and the handle shows it.\<close>

definition acquired_at :: "nat \<Rightarrow> string \<Rightarrow> lock_ownership option \<Rightarrow> lock_world \<Rightarrow> bool" where
  "acquired_at p l own s \<longleftrightarrow> (\<forall>o'. own = Some o' \<longrightarrow> fst o' = l \<and>
     lock_file_at s (Lock_At l) = Some (snd o') \<and> minter_of s (raw_content (snd o')) = Some p)"

lemma stable_acquired [kept]: "lock_stable stale p (\<lambda>s. locked p l s \<and> acquired_at p l own s)"
proof (rule lock_stableI)
  fix s s' assume s: "locked p l s \<and> acquired_at p l own s" and c: "lock_contract stale p s s'"
  then have "grows s s'" by (simp add: lock_contract_def)
  then show "locked p l s' \<and> acquired_at p l own s'"
    using s contract_kept(2,3) [OF c] minter_of_grows by (fastforce simp: acquired_at_def)
qed

lemma spec_acquire_raw:
  "lock_spec pids stale p (\<lambda>s. locked p l s \<and> minted n p s) (try_acquire_lock_raw l (Lock_Envelope (Some (pids p)) n))
     (\<lambda>own s. locked p l s \<and> acquired_at p l own s) (locked p l)"
proof -
  note st = kept stable_lasting locks.stable_conj
  let ?fresh = "\<lambda>i s. (locked p l s \<and> linked_only (Lock_At l) i s \<and> fst (lock_inodes s i) = Lock_Text '''') \<and> minted n p s"
  let ?own = "\<lambda>x s. locked p l s \<and> lock_file_at s (Lock_At l) = x"
  have out: "lock_spec pids stale p (\<lambda>s. locked p l s \<and> removable stale p l s)
      (bind_task (release_lock_raw (Lock_At l)) (\<lambda>_. Raise e)) Q (locked p l)"
    for e and Q :: "lock_ownership option \<Rightarrow> lock_world \<Rightarrow> bool"
    by (rule locks.spec_bind [OF spec_release_raw locks.spec_raise [OF stable_facts(2)]])
  show ?thesis unfolding try_acquire_lock_raw_def
  proof (rule locks.spec_bind)
    let ?R = "\<lambda>r s. case r of Errno e \<Rightarrow> locked p l s | Fd i \<Rightarrow> ?fresh i s | _ \<Rightarrow> False"
    have R: "lock_stable stale p (?R r)" for r
    proof (cases r)
      case (Fd i)
      then show ?thesis using locks.stable_conj [OF stable_facts(5) stable_lasting [OF lasting_facts(1)]] by simp
    qed (auto intro: st locks.stable_const)
    show "lock_spec pids stale p (\<lambda>s. locked p l s \<and> minted n p s) (act (Create_New l)) ?R (locked p l)"
    proof (rule spec_step [OF _ R])
      fix s f r s'
      assume s: "locked p l s \<and> minted n p s" "lock_invariant pids stale s" "lock_exec pids p (Create_New l) f s = (r, s')"
      show "step_safe pids stale p s s' \<and> ?R r s'"
      proof (cases "f = None \<and> lock_entries s (Lock_At l) = None")
        case True
        then show ?thesis using s safe_create [OF s(2) conjunct1 [OF s(1)]] by (auto simp: minted_def)
      next
        case False
        then show ?thesis using s safe_nothing by (auto split: option.splits)
      qed
    qed (intro st)
    have written: "lock_spec pids stale p (?fresh i) (call (Write_Fd i (Lock_Envelope (Some (pids p)) n)))
        (\<lambda>_ s. locked p l s \<and> holds_own p l s) (locked p l)" for i
    proof (rule spec_call)
      fix s f r s'
      assume s: "?fresh i s" "lock_invariant pids stale s"
        "lock_exec pids p (Write_Fd i (Lock_Envelope (Some (pids p)) n)) f s = (r, s')"
      then show "step_safe pids stale p s s' \<and> (if \<exists>e. r = Errno e then locked p l s' else locked p l s' \<and> holds_own p l s')"
        using safe_write [of pids stale s p l i n] safe_nothing by (auto simp: minted_def split: option.splits)
    qed (intro st)+
    let ?read = "\<lambda>y s. (locked p l s \<and> holds_own p l s) \<and> acquired_at p l (map_option (Pair l) y) s"
    have "lock_spec pids stale p (\<lambda>s. \<exists>g. (locked p l s \<and> lock_file_at s (Lock_At l) = Some g) \<and> minter_of s (raw_content g) = Some p)
          (read_lock_snapshot (Lock_At l)) ?read (\<lambda>s. locked p l s \<and> removable stale p l s)"
    proof (rule spec_exists)
      show "lock_spec pids stale p (\<lambda>s. (locked p l s \<and> lock_file_at s (Lock_At l) = Some g) \<and> minter_of s (raw_content g) = Some p)
          (read_lock_snapshot (Lock_At l)) ?read (\<lambda>s. locked p l s \<and> removable stale p l s)" for g
        by (rule locks.spec_weaken [OF spec_frame_facts [OF spec_locked_snapshot [where x = "Some g"] lasting_facts(4)]])
          (auto simp: acquired_at_def holds_own_def intro!: own_is_removable)
    qed
    then have "lock_spec pids stale p (\<lambda>s. locked p l s \<and> holds_own p l s) (read_lock_snapshot (Lock_At l))
        ?read (\<lambda>s. locked p l s \<and> removable stale p l s)"
      by (rule locks.spec_weaken) (auto simp: holds_own_def)
    then have read: "lock_spec pids stale p (\<lambda>s. locked p l s \<and> holds_own p l s)
        (rescue (read_lock_snapshot (Lock_At l)) (\<lambda>e. bind_task (release_lock_raw (Lock_At l)) (\<lambda>_. Raise e))) ?read (locked p l)"
      by (rule locks.spec_rescue) (rule locks.spec_bind [OF spec_release_raw locks.spec_raise [OF stable_facts(2)]])
    show "lock_spec pids stale p (?R r)
       (case r of Errno e \<Rightarrow> if e = ''EEXIST'' then Return None else Raise e
        | _ \<Rightarrow> bind_task (call (Write_Fd (fd_of r) (Lock_Envelope (Some (pids p)) n))) (\<lambda>_.
            bind_task (rescue (read_lock_snapshot (Lock_At l))
                         (\<lambda>e. bind_task (release_lock_raw (Lock_At l)) (\<lambda>_. Raise e))) (\<lambda>snapshot.
              case snapshot of
                None \<Rightarrow> bind_task (release_lock_raw (Lock_At l)) (\<lambda>_. Raise ''Could not read newly acquired lock'')
              | Some f \<Rightarrow> Return (Some (l, f)))))
       (\<lambda>own s. locked p l s \<and> acquired_at p l own s) (locked p l)" for r
    proof (cases r)
      case (Errno e)
      then show ?thesis
        using locks.spec_return [where Q = "\<lambda>own s. locked p l s \<and> acquired_at p l own s" and a = None, OF stable_acquired]
        by (auto simp: acquired_at_def locks.spec_raise [OF stable_facts(2)])
    next
      case (Fd i)
      have "lock_spec pids stale p (?fresh i)
         (bind_task (call (Write_Fd i (Lock_Envelope (Some (pids p)) n))) (\<lambda>_.
            bind_task (rescue (read_lock_snapshot (Lock_At l))
                         (\<lambda>e. bind_task (release_lock_raw (Lock_At l)) (\<lambda>_. Raise e))) (\<lambda>snapshot.
              case snapshot of
                None \<Rightarrow> bind_task (release_lock_raw (Lock_At l)) (\<lambda>_. Raise ''Could not read newly acquired lock'')
              | Some f \<Rightarrow> Return (Some (l, f)))))
         (\<lambda>own s. locked p l s \<and> acquired_at p l own s) (locked p l)"
      proof (rule locks.spec_bind [OF written locks.spec_bind [OF read]])
        fix y
        show "lock_spec pids stale p (\<lambda>s. (locked p l s \<and> holds_own p l s) \<and> acquired_at p l (map_option (Pair l) y) s)
            (case y of None \<Rightarrow> bind_task (release_lock_raw (Lock_At l)) (\<lambda>_. Raise ''Could not read newly acquired lock'')
             | Some f \<Rightarrow> Return (Some (l, f))) (\<lambda>own s. locked p l s \<and> acquired_at p l own s) (locked p l)"
        proof (cases y)
          case None
          show ?thesis unfolding None option.case
            by (rule locks.spec_weaken [OF out [where Q = "\<lambda>own s. locked p l s \<and> acquired_at p l own s"]])
              (auto intro: own_is_removable)
        next
          case (Some f)
          then show ?thesis
            using locks.spec_return [where Q = "\<lambda>own s. locked p l s \<and> acquired_at p l own s" and a = "Some (l, f)", OF stable_acquired]
            by (auto intro: locks.spec_weaken)
        qed
      qed
      then show ?thesis using Fd by (simp add: fd_of_def)
    qed (simp_all add: spec_false)
  qed
qed

definition holding :: "(string \<Rightarrow> int option) \<Rightarrow> nat \<Rightarrow> string \<Rightarrow> lock_ownership option \<Rightarrow> lock_world \<Rightarrow> bool" where
  "holding stale p l own s \<longleftrightarrow> (\<forall>o'. own = Some o' \<longrightarrow> fst o' = l \<and> owns stale p o' s)"

lemma stable_owns: "lock_stable stale p (\<lambda>s. idle p s \<and> owns stale p o' s)"
proof (rule lock_stableI)
  fix s s' assume s: "idle p s \<and> owns stale p o' s" and c: "lock_contract stale p s s'"
  then have g: "grows s s'" and d: "leaves_alone stale p s s'" by (auto simp: lock_contract_def idle_def)
  show "idle p s' \<and> owns stale p o' s'"
    using s contract_kept(1) [OF c] minter_of_grows [OF g] expired_grows [OF g] leaves_aloneD(6) [OF d]
    unfolding owns_def by blast
qed

lemma stable_holding [kept]: "lock_stable stale p (\<lambda>s. idle p s \<and> holding stale p l own s)"
proof (cases own)
  case None
  then show ?thesis by (simp add: holding_def stable_facts)
next
  case (Some o')
  then show ?thesis
    using locks.stable_conj [OF stable_owns locks.stable_const, of stale p o' "fst o' = l"] by (simp add: holding_def conj_ac)
qed

lemma spec_acquire:
  "lock_spec pids stale p (\<lambda>s. idle p s \<and> minted n p s) (try_acquire_lock l (Lock_Envelope (Some (pids p)) n))
     (\<lambda>own s. idle p s \<and> holding stale p l own s) (idle p)"
  unfolding try_acquire_lock_def
  by (rule spec_with_mutex [OF lasting_facts(1) spec_acquire_raw stable_acquired stable_holding])
    (auto simp: holding_def acquired_at_def owns_def)

lemma spec_payload:
  assumes "\<And>n. lock_spec pids stale p (\<lambda>s. idle p s \<and> minted n p s) (f (Lock_Envelope (Some (pids p)) n)) Q E"
  shows "lock_spec pids stale p (idle p) (bind_task create_lock_payload f) Q E"
proof -
  note st = stable_facts stable_lasting [OF lasting_facts(1)] locks.stable_conj
  have 1: "lock_spec pids stale p (idle p) (act Own_Pid) (\<lambda>r s. idle p s \<and> r = Integer (pids p)) E" for E
    by (rule spec_read) (auto simp: reads_def intro: st locks.stable_const)
  have 2: "lock_spec pids stale p (idle p) (act New_Lock_Id) (\<lambda>r s. idle p s \<and> (\<exists>n. r = Number n \<and> minted n p s)) E" for E
  proof (rule spec_step)
    show "lock_stable stale p (\<lambda>s. idle p s \<and> (\<exists>n. r = Number n \<and> minted n p s))" for r
      by (cases r) (auto intro: st locks.stable_const)
  qed (auto intro: st intro!: safe_new_id simp: minted_def)
  have 3: "lock_spec pids stale p (idle p) create_lock_payload
      (\<lambda>b s. idle p s \<and> (\<exists>n. b = Lock_Envelope (Some (pids p)) n \<and> minted n p s)) E" for E
    unfolding create_lock_payload_def
  proof (rule locks.spec_bind [OF 1])
    show "lock_spec pids stale p (\<lambda>s. idle p s \<and> k = Integer (pids p))
       (bind_task (act New_Lock_Id) (\<lambda>n. Return (Lock_Envelope (Some (integer_of k)) (number_of n))))
       (\<lambda>b s. idle p s \<and> (\<exists>n. b = Lock_Envelope (Some (pids p)) n \<and> minted n p s)) E" for k
    proof (cases "k = Integer (pids p)")
      case True
      have "lock_spec pids stale p (\<lambda>s. idle p s \<and> (\<exists>n. r = Number n \<and> minted n p s))
          (Return (Lock_Envelope (Some (integer_of k)) (number_of r)))
          (\<lambda>b s. idle p s \<and> (\<exists>n. b = Lock_Envelope (Some (pids p)) n \<and> minted n p s)) E" for r
      proof (cases "\<exists>n. r = Number n")
        case True
        then obtain n where "r = Number n" by blast
        then show ?thesis using \<open>k = Integer (pids p)\<close>
          by (intro spec_returnI) (auto intro: st simp: integer_of_def number_of_def)
      qed (simp add: spec_false)
      then show ?thesis unfolding True
        by (intro locks.spec_weaken [OF locks.spec_bind [OF 2]]) auto
    qed (simp add: spec_false)
  qed
  show ?thesis
  proof (rule locks.spec_bind [OF 3])
    fix b
    show "lock_spec pids stale p (\<lambda>s. idle p s \<and> (\<exists>n. b = Lock_Envelope (Some (pids p)) n \<and> minted n p s)) (f b) Q E"
      using assms spec_false by (cases "\<exists>n. b = Lock_Envelope (Some (pids p)) n") auto
  qed
qed

lemma spec_probe:
  assumes limit: "limit = None \<or> limit = stale l" and pids: "\<And>q. 0 < pids q"
  shows "lock_spec pids stale p (idle p) (probe_lock l limit)
    (\<lambda>pr s. idle p s \<and> (\<forall>f. stale_snapshot pr = Some (Some f) \<longrightarrow> forsaken stale p l f s)) E"
proof -
  note st = stable_facts stable_lasting [OF lasting_facts(2)] stable_lasting [OF lasting_facts(3)] locks.stable_conj locks.stable_const
  let ?Q = "\<lambda>pr s. idle p s \<and> (\<forall>f. stale_snapshot pr = Some (Some f) \<longrightarrow> forsaken stale p l f s)"
  have quiet: "lock_spec pids stale p (idle p) (Return pr) ?Q E" if "\<And>f. stale_snapshot pr \<noteq> Some (Some f)" for pr E
    by (rule spec_returnI) (use that stable_facts in auto)
  have stale: "lock_spec pids stale p (\<lambda>s. idle p s \<and> forsaken stale p l f s) (Return (Probe_Stale reason k (Some f))) ?Q E" for reason k f E
    by (rule spec_returnI) (auto intro: st simp: stale_snapshot_def)
  let ?T = "\<lambda>f m s. (idle p s \<and> truthful pids f s) \<and> m \<le> clock_ms s"
  have clock: "lock_lasting stale (\<lambda>s. m \<le> clock_ms s)" for m
    by (rule lock_lastingI) (simp add: grows_def)
  have T: "lock_stable stale p (?T f m)" for f m
    by (intro st stable_lasting [OF clock])
  have holder: "extract_holder_pid (raw_content f) = Some (pids (minted_by s n)) \<and> n < next_lock_id s \<and> minted_by s n < born s"
    if "truthful pids f s" "raw_content f = Lock_Envelope k n" for f s k n
    using that pids by (auto simp: truthful_def extract_holder_pid_def positive_pid_def)
  have alive: "lock_spec pids stale p (?T f m) (act (Is_Alive k))
      (\<lambda>r s. ?T f m s \<and> (r = Answer True \<or> (idle p s \<and> forsaken stale p l f s))) E"
    if k: "extract_holder_pid (raw_content f) = Some k" for f m k E
  proof (rule spec_read [OF _ T])
    show "lock_stable stale p (\<lambda>s. ?T f m s \<and> (r = Answer True \<or> (idle p s \<and> forsaken stale p l f s)))" for r
      using T locks.stable_conj [OF T locks.stable_conj [OF stable_facts(1) stable_lasting [OF lasting_facts(3)]]]
      by (cases "r = Answer True") simp_all
    fix s and fault :: "string option" and r
    assume s: "?T f m s" "lock_exec pids p (Is_Alive k) fault s = (r, s)"
    have "forsaken stale p l f s" if "r \<noteq> Answer True"
      using that s holder [of f s] k pids by (auto simp: forsaken_def dead_def list_ex_iff)
    then show "?T f m s \<and> (r = Answer True \<or> (idle p s \<and> forsaken stale p l f s))" using s by blast
  qed (simp add: reads_def)
  have judge: "lock_spec pids stale p (?T f (integer_of now))
      (bind_task (act (Is_Alive k)) (\<lambda>alive.
         if alive \<noteq> Answer True then Return (Probe_Stale ''pid_dead'' (Some k) (Some f))
         else if (case limit of Some a \<Rightarrow> integer_of now - file_mtime f > a | None \<Rightarrow> False)
         then Return (Probe_Stale ''age_exceeded'' (Some k) (Some f))
         else Return (Probe_Held k (integer_of now - file_mtime f) f))) ?Q E"
    if k: "extract_holder_pid (raw_content f) = Some k" for f now k E
  proof (rule locks.spec_bind [OF alive [OF k]])
    fix r
    let ?P = "\<lambda>s. ?T f (integer_of now) s \<and> (r = Answer True \<or> (idle p s \<and> forsaken stale p l f s))"
    let ?old = "case limit of Some a \<Rightarrow> integer_of now - file_mtime f > a | None \<Rightarrow> False"
    have old: "forsaken stale p l f s" if "?old" "?T f (integer_of now) s" for s
      using that limit holder [of f s] by (auto simp: forsaken_def expired_def split: option.splits)
    show "lock_spec pids stale p ?P
       (if r \<noteq> Answer True then Return (Probe_Stale ''pid_dead'' (Some k) (Some f))
        else if ?old then Return (Probe_Stale ''age_exceeded'' (Some k) (Some f))
        else Return (Probe_Held k (integer_of now - file_mtime f) f)) ?Q E"
    proof (cases "r = Answer True")
      case True
      then show ?thesis using old
        by (auto intro!: locks.spec_weaken [OF stale] locks.spec_weaken [OF quiet] simp: stale_snapshot_def)
    qed (auto intro!: locks.spec_weaken [OF stale])
  qed
  have seen: "lock_spec pids stale p (\<lambda>s. idle p s \<and> truthful pids f s)
      (bind_task (act Now) (\<lambda>now.
         let age = integer_of now - file_mtime f in
         case extract_holder_pid (raw_content f) of
           None \<Rightarrow> Return (Probe_Stale ''invalid_pid'' None (Some f))
         | Some k \<Rightarrow> bind_task (act (Is_Alive k)) (\<lambda>alive.
             if alive \<noteq> Answer True then Return (Probe_Stale ''pid_dead'' (Some k) (Some f))
             else if (case limit of Some a \<Rightarrow> age > a | None \<Rightarrow> False)
             then Return (Probe_Stale ''age_exceeded'' (Some k) (Some f))
             else Return (Probe_Held k age f)))) ?Q E" for f E
  proof (rule locks.spec_bind)
    show "lock_spec pids stale p (\<lambda>s. idle p s \<and> truthful pids f s) (act Now) (\<lambda>now. ?T f (integer_of now)) E"
      by (rule spec_read [OF _ _ T]) (auto intro: st simp: reads_def integer_of_def)
    have "forsaken stale p l f s" if "extract_holder_pid (raw_content f) = None" "truthful pids f s" for s
      using that holder [of f s] by (auto simp: forsaken_def)
    from this show "lock_spec pids stale p (?T f (integer_of now))
        (let age = integer_of now - file_mtime f in
         case extract_holder_pid (raw_content f) of
           None \<Rightarrow> Return (Probe_Stale ''invalid_pid'' None (Some f))
         | Some k \<Rightarrow> bind_task (act (Is_Alive k)) (\<lambda>alive.
             if alive \<noteq> Answer True then Return (Probe_Stale ''pid_dead'' (Some k) (Some f))
             else if (case limit of Some a \<Rightarrow> age > a | None \<Rightarrow> False)
             then Return (Probe_Stale ''age_exceeded'' (Some k) (Some f))
             else Return (Probe_Held k age f))) ?Q E" for now
    proof (cases "extract_holder_pid (raw_content f)")
      case (Some k)
      show ?thesis unfolding Some option.case Let_def by (rule judge [OF Some])
    qed (auto intro!: locks.spec_weaken [OF stale])
  qed
  show ?thesis unfolding probe_lock_def
  proof (rule locks.spec_bind [OF spec_attempt [OF spec_truthful_snapshot [OF stable_facts(1)]]])
    show "lock_stable stale p (\<lambda>s. idle p s \<and> (\<forall>f. a = Some f \<longrightarrow> truthful pids f s))" for a
      by (cases a) (auto intro: st)
    show "lock_spec pids stale p (\<lambda>s. case r of Inl e \<Rightarrow> idle p s | Inr a \<Rightarrow> idle p s \<and> (\<forall>f. a = Some f \<longrightarrow> truthful pids f s))
        (case r of
          Inl e \<Rightarrow> Return (if e = ''EACCES'' \<or> e = ''EPERM'' then Probe_Inaccessible e else Probe_Stale ''unreadable'' None None)
        | Inr None \<Rightarrow> Return Probe_Absent
        | Inr (Some f) \<Rightarrow> bind_task (act Now) (\<lambda>now.
            let age = integer_of now - file_mtime f in
            case extract_holder_pid (raw_content f) of
              None \<Rightarrow> Return (Probe_Stale ''invalid_pid'' None (Some f))
            | Some k \<Rightarrow> bind_task (act (Is_Alive k)) (\<lambda>alive.
                if alive \<noteq> Answer True then Return (Probe_Stale ''pid_dead'' (Some k) (Some f))
                else if (case limit of Some a \<Rightarrow> age > a | None \<Rightarrow> False)
                then Return (Probe_Stale ''age_exceeded'' (Some k) (Some f))
                else Return (Probe_Held k age f)))) ?Q E" for r
    proof (cases r)
      case (Inl e)
      have "stale_snapshot (if b then Probe_Inaccessible e else Probe_Stale ''unreadable'' None None) \<noteq> Some (Some f)" for b f
        by (simp add: stale_snapshot_def)
      then show ?thesis unfolding Inl sum.case by (rule quiet)
    next
      case (Inr x)
      then show ?thesis using seen quiet [of Probe_Absent] by (cases x) (auto simp: stale_snapshot_def)
    qed
  qed (rule stable_facts)
qed

lemma spec_release:
  "lock_spec pids stale p (\<lambda>s. idle p s \<and> minter_of s (raw_content f) = Some p) (release_lock (l, f)) (\<lambda>_. idle p) (idle p)"
proof -
  let ?P = "\<lambda>s. idle p s \<and> minter_of s (raw_content f) = Some p"
  have P: "lock_stable stale p ?P" by (intro locks.stable_conj stable_facts stable_lasting lasting_facts)
  have asked: "lock_spec pids stale p ?P (act (File_Exists pl)) (\<lambda>_. ?P) E"
    "lock_spec pids stale p ?P (act (Mutex_File_Exists l')) (\<lambda>_. ?P) E" for pl l' E
    by (rule spec_read [OF _ P P]; simp add: reads_def)+
  have inner: "lock_spec pids stale p (\<lambda>s. locked p l s \<and> minter_of s (raw_content f) = Some p)
      (bind_task (attempt (read_lock_snapshot (Lock_At l))) (\<lambda>current.
         if current = Inr (Some f) then release_lock_raw (Lock_At l) else Return ()))
      (\<lambda>a s. locked p l s \<and> True) (locked p l)"
  proof (rule locks.spec_weaken [OF spec_exists])
    fix x
    let ?own = "\<lambda>s. (locked p l s \<and> lock_file_at s (Lock_At l) = x) \<and> minter_of s (raw_content f) = Some p"
    have own: "lock_stable stale p ?own" by (intro locks.stable_conj stable_facts(3) stable_lasting lasting_facts)
    show "lock_spec pids stale p ?own
      (bind_task (attempt (read_lock_snapshot (Lock_At l))) (\<lambda>current.
         if current = Inr (Some f) then release_lock_raw (Lock_At l) else Return ())) (\<lambda>_. locked p l) (locked p l)"
    proof (rule locks.spec_bind [OF spec_attempt [OF spec_frame_facts [OF spec_locked_snapshot lasting_facts(4)]]])
      show "lock_stable stale p (\<lambda>s. ((locked p l s \<and> lock_file_at s (Lock_At l) = x) \<and> (\<forall>f. a = Some f \<longrightarrow> x = Some f)) \<and>
          minter_of s (raw_content f) = Some p)" for a
        using locks.stable_conj [OF own locks.stable_const, of "\<forall>f. a = Some f \<longrightarrow> x = Some f"] by (simp add: conj_ac)
      show "lock_spec pids stale p (\<lambda>s. case r of
          Inl e \<Rightarrow> ?own s
        | Inr a \<Rightarrow> ((locked p l s \<and> lock_file_at s (Lock_At l) = x) \<and> (\<forall>f. a = Some f \<longrightarrow> x = Some f)) \<and> minter_of s (raw_content f) = Some p)
        (if r = Inr (Some f) then release_lock_raw (Lock_At l) else Return ()) (\<lambda>_. locked p l) (locked p l)" for r
      proof (cases "r = Inr (Some f)")
        case True
        then show ?thesis
          by (auto intro!: locks.spec_weaken [OF spec_release_raw] own_is_removable simp: holds_own_def)
      next
        case False
        then show ?thesis
          by (cases r) (auto intro!: locks.spec_weaken [OF spec_return_any [OF stable_facts(2)]])
      qed
    qed (rule own)
  qed auto
  show ?thesis unfolding release_lock_def prod.case
  proof (rule locks.spec_bind [OF asked(1)], rule locks.spec_bind [OF asked(2)])
    fix there made
    have "lock_spec pids stale p ?P (with_lock_operation_mutex l
         (bind_task (attempt (read_lock_snapshot (Lock_At l))) (\<lambda>current.
            if current = Inr (Some f) then release_lock_raw (Lock_At l) else Return ()))) (\<lambda>_. idle p) (idle p)"
      using spec_with_mutex [OF lasting_facts(4) inner, where K' = "\<lambda>a s. True"] stable_facts(1,2) by simp
    then show "lock_spec pids stale p ?P
        (if there \<noteq> Answer True \<and> made \<noteq> Answer True then Return ()
         else with_lock_operation_mutex l
           (bind_task (attempt (read_lock_snapshot (Lock_At l))) (\<lambda>current.
              if current = Inr (Some f) then release_lock_raw (Lock_At l) else Return ()))) (\<lambda>_. idle p) (idle p)"
      by (auto intro!: spec_returnI P)
  qed
qed

lemma spec_reclaim:
  "lock_spec pids stale p (\<lambda>s. idle p s \<and> (\<forall>f. probed = Some f \<longrightarrow> forsaken stale p l f s)) (reclaim_stale_lock l probed)
     (\<lambda>_. idle p) (idle p)"
proof (cases probed)
  case None
  then show ?thesis by (simp add: reclaim_stale_lock_def spec_return_any [OF stable_facts(1)])
next
  case (Some f)
  note st = locks.stable_conj stable_facts stable_lasting lasting_facts
  let ?own = "\<lambda>x s. (locked p l s \<and> lock_file_at s (Lock_At l) = x) \<and> forsaken stale p l f s"
  let ?moved = "\<lambda>n s. locked p l s \<and> minted n p s"
  have own: "lock_stable stale p (?own x)" for x by (intro st)
  have moved: "lock_stable stale p (?moved n)" for n by (intro st)
  let ?after = "\<lambda>n quarantined. (if quarantined \<noteq> Inr (Some f) then
       bind_task (act (Link_Back l n)) (\<lambda>r. case r of
           Errno e \<Rightarrow> if e \<noteq> ''EEXIST'' then Raise e else bind_task (release_lock_raw (Quarantine l n)) (\<lambda>_. Return False)
         | _ \<Rightarrow> bind_task (release_lock_raw (Quarantine l n)) (\<lambda>_. Return False))
     else bind_task (act (Unlink (Quarantine l n))) (\<lambda>r. case r of
           Errno e \<Rightarrow> if e = ''ENOENT'' then Return False else Raise e | _ \<Rightarrow> Return True)) :: bool locking"
  have drop: "lock_spec pids stale p (?moved n) (bind_task (release_lock_raw (Quarantine l n)) (\<lambda>_. Return False)) (\<lambda>_. locked p l) (locked p l)" for n
    unfolding release_lock_raw_def
    by (rule locks.spec_bind [where R = "\<lambda>_. locked p l", OF locks.spec_bind [OF spec_unlink_quarantine]])
      (rule spec_return_any [OF stable_facts(2)])+
  have relink: "lock_spec pids stale p (?moved n) (act (Link_Back l n)) (\<lambda>_. ?moved n) E" for n E
    by (rule spec_step [OF moved moved])
      (auto intro: safe_nothing safe_link_back simp: minted_def split: option.splits if_splits)
  have after: "lock_spec pids stale p (?moved n) (?after n q) (\<lambda>_. locked p l) (locked p l)" for n q
    by (auto intro!: locks.spec_bind [OF relink] locks.spec_bind [OF spec_unlink_quarantine] drop locks.spec_raise
          spec_raiseI spec_return_any stable_facts moved split: lock_reply.split)
  have rename: "lock_spec pids stale p (\<lambda>s. ?own (Some f) s \<and> minted n p s) (act (Rename_Away l n)) (\<lambda>_. ?moved n) E" for n E
    by (rule spec_step [OF locks.stable_conj [OF own stable_lasting [OF lasting_facts(1)]] moved])
      (auto intro: safe_nothing safe_rename_away simp: minted_def split: option.splits if_splits)
  have inner: "lock_spec pids stale p (?own x)
      (bind_task (attempt (read_lock_snapshot (Lock_At l))) (\<lambda>current.
          if current \<noteq> Inr (Some f) then Return False
          else bind_task (act New_Lock_Id) (\<lambda>n.
               bind_task (act (Rename_Away l (number_of n))) (\<lambda>r.
                 case r of
                   Errno e \<Rightarrow> if e = ''ENOENT'' then Return False else Raise e
                 | _ \<Rightarrow> bind_task (attempt (read_lock_snapshot (Quarantine l (number_of n)))) (?after (number_of n))))))
      (\<lambda>_. locked p l) (locked p l)" for x
  proof (rule locks.spec_bind [OF spec_attempt [OF spec_frame_facts [OF spec_locked_snapshot lasting_facts(3)]]])
    show "lock_stable stale p (\<lambda>s. ((locked p l s \<and> lock_file_at s (Lock_At l) = x) \<and> (\<forall>f. a = Some f \<longrightarrow> x = Some f)) \<and>
        forsaken stale p l f s)" for a
      using locks.stable_conj [OF own locks.stable_const, of x "\<forall>f. a = Some f \<longrightarrow> x = Some f"] by (simp add: conj_ac)
    have id: "lock_spec pids stale p (?own (Some f)) (act New_Lock_Id)
        (\<lambda>r s. ?own (Some f) s \<and> (\<exists>n. r = Number n \<and> minted n p s)) E" for E
    proof (rule spec_step [OF own])
      show "lock_stable stale p (\<lambda>s. ?own (Some f) s \<and> (\<exists>n. r = Number n \<and> minted n p s))" for r
        using locks.stable_conj [OF own stable_lasting [OF lasting_facts(1)]] by (cases r) (auto intro: locks.stable_const)
      fix s and fault :: "string option" and r s'
      assume s: "?own (Some f) s" "lock_invariant pids stale s" "lock_exec pids p New_Lock_Id fault s = (r, s')"
      have "forsaken stale p l f s'" using s by (auto simp: forsaken_def dead_def)
      then show "step_safe pids stale p s s' \<and> ?own (Some f) s' \<and> (\<exists>n. r = Number n \<and> minted n p s')"
        using s safe_new_id [OF s(2)] by (auto simp: minted_def locked_def)
    qed
    have go: "lock_spec pids stale p (?own (Some f))
        (bind_task (act New_Lock_Id) (\<lambda>n.
               bind_task (act (Rename_Away l (number_of n))) (\<lambda>r.
                 case r of
                   Errno e \<Rightarrow> if e = ''ENOENT'' then Return False else Raise e
                 | _ \<Rightarrow> bind_task (attempt (read_lock_snapshot (Quarantine l (number_of n)))) (?after (number_of n)))))
        (\<lambda>_. locked p l) (locked p l)"
    proof (rule locks.spec_bind [OF id])
      fix m
      have "lock_spec pids stale p (\<lambda>s. ?own (Some f) s \<and> minted n p s)
          (bind_task (act (Rename_Away l n)) (\<lambda>r.
             case r of
               Errno e \<Rightarrow> if e = ''ENOENT'' then Return False else Raise e
             | _ \<Rightarrow> bind_task (attempt (read_lock_snapshot (Quarantine l n))) (?after n))) (\<lambda>_. locked p l) (locked p l)" for n
      proof (rule locks.spec_bind [OF rename])
        have look: "lock_spec pids stale p (?moved n) (attempt (read_lock_snapshot (Quarantine l n))) (\<lambda>_. ?moved n) E" for E
        proof (rule locks.spec_weaken [OF spec_attempt [OF spec_truthful_snapshot [OF moved]]])
          show "lock_stable stale p (\<lambda>s. ?moved n s \<and> (\<forall>f. a = Some f \<longrightarrow> truthful pids f s))" for a
            using moved locks.stable_conj [OF moved stable_lasting [OF lasting_facts(2)]] by (cases a) auto
        qed (auto intro: moved split: sum.splits)
        show "lock_spec pids stale p (?moved n)
          (case r of
             Errno e \<Rightarrow> if e = ''ENOENT'' then Return False else Raise e
           | _ \<Rightarrow> bind_task (attempt (read_lock_snapshot (Quarantine l n))) (?after n)) (\<lambda>_. locked p l) (locked p l)" for r
          using locks.spec_bind [OF look after] by (auto intro!: spec_raiseI spec_returnI moved split: lock_reply.split)
      qed
      from this [of "number_of m"]
      show "lock_spec pids stale p (\<lambda>s. ?own (Some f) s \<and> (\<exists>n. m = Number n \<and> minted n p s))
          (bind_task (act (Rename_Away l (number_of m))) (\<lambda>r.
             case r of
               Errno e \<Rightarrow> if e = ''ENOENT'' then Return False else Raise e
             | _ \<Rightarrow> bind_task (attempt (read_lock_snapshot (Quarantine l (number_of m)))) (?after (number_of m))))
          (\<lambda>_. locked p l) (locked p l)"
        by (rule locks.spec_weaken) (auto simp: number_of_def)
    qed
    show "lock_spec pids stale p (\<lambda>s. case r of
          Inl e \<Rightarrow> ?own x s
        | Inr a \<Rightarrow> ((locked p l s \<and> lock_file_at s (Lock_At l) = x) \<and> (\<forall>f. a = Some f \<longrightarrow> x = Some f)) \<and> forsaken stale p l f s)
        (if r \<noteq> Inr (Some f) then Return False
         else bind_task (act New_Lock_Id) (\<lambda>n.
               bind_task (act (Rename_Away l (number_of n))) (\<lambda>r.
                 case r of
                   Errno e \<Rightarrow> if e = ''ENOENT'' then Return False else Raise e
                 | _ \<Rightarrow> bind_task (attempt (read_lock_snapshot (Quarantine l (number_of n)))) (?after (number_of n)))))
        (\<lambda>_. locked p l) (locked p l)" for r
    proof (cases "r = Inr (Some f)")
      case True
      then show ?thesis by (auto intro!: locks.spec_weaken [OF go])
    next
      case False
      then show ?thesis
        by (cases r) (auto intro!: locks.spec_weaken [OF spec_return_any [OF stable_facts(2)]])
    qed
  qed (rule own)
  have "lock_spec pids stale p (\<lambda>s. locked p l s \<and> forsaken stale p l f s)
      (bind_task (attempt (read_lock_snapshot (Lock_At l))) (\<lambda>current.
          if current \<noteq> Inr (Some f) then Return False
          else bind_task (act New_Lock_Id) (\<lambda>n.
               bind_task (act (Rename_Away l (number_of n))) (\<lambda>r.
                 case r of
                   Errno e \<Rightarrow> if e = ''ENOENT'' then Return False else Raise e
                 | _ \<Rightarrow> bind_task (attempt (read_lock_snapshot (Quarantine l (number_of n)))) (?after (number_of n))))))
      (\<lambda>a s. locked p l s \<and> True) (locked p l)"
    by (rule locks.spec_weaken [OF spec_exists [OF inner]]) auto
  from spec_with_mutex [OF lasting_facts(3) this, where K' = "\<lambda>a s. True"]
  show ?thesis using stable_facts(1,2) by (simp add: Some reclaim_stale_lock_def)
qed

end
