(* ===== verification/Lock_Sections.thy ===== *)
theory Lock_Sections
  imports Lock_Library
begin

text \<open>
  The clients of the locks in the logic of \<open>Rely_Guarantee\<close>: acquiring the maintenance barrier, with and without waiting,
  registering an activity, acquiring the asset-mutation lease, and the sections the program runs under them.
\<close>

section \<open>The clients in the logic\<close>

lemma spec_barrier:
  assumes limit: "stale l = Some barrier_stale_after_ms" and pids: "\<And>q. 0 < pids q"
  shows "lock_spec pids stale p (idle p) (barrier_attempts n l) (\<lambda>own s. idle p s \<and> holding stale p l own s) (idle p)"
proof (induction n)
  case 0
  show ?case by (auto intro!: spec_returnI stable_facts simp: holding_def)
next
  case (Suc n)
  have none: "lock_spec pids stale p (\<lambda>s. idle p s \<and> R s) (Return None) (\<lambda>own s. idle p s \<and> holding stale p l own s) E"
    for R and E :: "lock_world \<Rightarrow> bool"
    by (rule locks.spec_weaken [OF spec_returnI [where P = "idle p"]]) (auto intro: stable_facts simp: holding_def)
  show ?case unfolding barrier_attempts.simps
  proof (rule spec_payload, rule locks.spec_bind [OF spec_acquire])
    fix own
    show "lock_spec pids stale p (\<lambda>s. idle p s \<and> holding stale p l own s)
      (case own of
         Some o' \<Rightarrow> Return (Some o')
       | None \<Rightarrow> bind_task (probe_lock l (Some barrier_stale_after_ms)) (\<lambda>pr.
           case stale_snapshot pr of
             None \<Rightarrow> Return None
           | Some f \<Rightarrow> bind_task (reclaim_stale_lock l f) (\<lambda>gone. if \<not> gone then Return None else barrier_attempts n l)))
      (\<lambda>own s. idle p s \<and> holding stale p l own s) (idle p)"
    proof (cases own)
      case (Some o')
      then show ?thesis by (auto intro!: spec_returnI stable_holding)
    next
      case None
      have "lock_spec pids stale p (idle p)
        (bind_task (probe_lock l (Some barrier_stale_after_ms)) (\<lambda>pr.
           case stale_snapshot pr of
             None \<Rightarrow> Return None
           | Some f \<Rightarrow> bind_task (reclaim_stale_lock l f) (\<lambda>gone. if \<not> gone then Return None else barrier_attempts n l)))
        (\<lambda>own s. idle p s \<and> holding stale p l own s) (idle p)"
      proof (rule locks.spec_bind [OF spec_probe])
        show "lock_spec pids stale p (\<lambda>s. idle p s \<and> (\<forall>f. stale_snapshot pr = Some (Some f) \<longrightarrow> forsaken stale p l f s))
          (case stale_snapshot pr of
             None \<Rightarrow> Return None
           | Some f \<Rightarrow> bind_task (reclaim_stale_lock l f) (\<lambda>gone. if \<not> gone then Return None else barrier_attempts n l))
          (\<lambda>own s. idle p s \<and> holding stale p l own s) (idle p)" for pr
        proof (cases "stale_snapshot pr")
          case (Some x)
          have "lock_spec pids stale p (idle p) (if \<not> gone then Return None else barrier_attempts n l)
             (\<lambda>own s. idle p s \<and> holding stale p l own s) (idle p)" for gone
            using Suc none [of "\<lambda>s. True"] by simp
          from locks.spec_bind [OF spec_reclaim [of pids stale p x] this] show ?thesis using Some by simp
        next
          case None
          then show ?thesis using none [of "\<lambda>s. True"] by simp
        qed
      qed (use limit pids in auto)
      then show ?thesis using None by (auto intro: locks.spec_weaken)
    qed
  qed
qed

lemma spec_try_barrier:
  assumes "stale l = Some barrier_stale_after_ms" "\<And>q. 0 < pids q"
  shows "lock_spec pids stale p (idle p) (try_acquire_maintenance_barrier l) (\<lambda>own s. idle p s \<and> holding stale p l own s) (idle p)"
  unfolding try_acquire_maintenance_barrier_def by (rule spec_barrier) (use assms in auto)

text \<open>A protected section between acquisition and release.\<close>

lemma spec_protected:
  "lock_spec pids stale p (\<lambda>s. idle p s \<and> owns stale p own s) (protected own) (\<lambda>_. idle p) (idle p)"
proof -
  let ?l = "fst own" and ?t = "file_mtime (snd own)"
  have entered: "lock_spec pids stale p (\<lambda>s. idle p s \<and> owns stale p own s) (act (Enter ?l ?t)) (\<lambda>_. inside_only p ?l ?t) E" for E
  proof (rule spec_step [OF stable_owns stable_facts(6)])
    fix s and fault :: "string option" and r s'
    assume s: "idle p s \<and> owns stale p own s" "lock_invariant pids stale s" "lock_exec pids p (Enter ?l ?t) fault s = (r, s')"
    then have s': "s' = s\<lparr>inside := (p, ?l, ?t) # inside s\<rparr>" by simp
    have "stands stale s p ?l ?t" using s(1) by (auto simp: owns_def stands_def)
    then show "step_safe pids stale p s s' \<and> inside_only p ?l ?t s'"
      unfolding s' using s(1) by (auto intro!: safe_inside [OF s(2)] simp: idle_def outside_def inside_only_def)
  qed
  have left: "lock_spec pids stale p (inside_only p ?l ?t) (call (Leave ?l ?t)) (\<lambda>_. idle p) (idle p)"
  proof (rule spec_call [OF stable_facts(6,1,1)])
    fix s and fault :: "string option" and r s'
    assume s: "inside_only p ?l ?t s" "lock_invariant pids stale s" "lock_exec pids p (Leave ?l ?t) fault s = (r, s')"
    then have s': "s' = s\<lparr>inside := filter (\<lambda>x. x \<noteq> (p, ?l, ?t)) (inside s)\<rparr>" by simp
    have "step_safe pids stale p s s'" unfolding s'
      by (rule safe_inside [OF s(2)]) (use s(1) in \<open>auto simp: inside_only_def\<close>)
    moreover have "idle p s'" using s(1) s' by (auto simp: inside_only_def idle_def outside_def)
    ultimately show "step_safe pids stale p s s' \<and> (if \<exists>e. r = Errno e then idle p s' else idle p s')" by simp
  qed
  show ?thesis unfolding protected_def call_unit_def
    by (rule locks.spec_bind [OF entered], rule locks.spec_bind [OF left], rule spec_return_any [OF stable_facts(1)])
qed

text \<open>Releasing one lock does not disturb the ownership of another.\<close>

definition on_lock :: "string \<Rightarrow> lock_op \<Rightarrow> bool" where
  "on_lock l x \<longleftrightarrow> reads x \<or> (case x of
     Take_Mutex l' \<Rightarrow> l' = l | Free_Mutex l' \<Rightarrow> l' = l | Unlink pl \<Rightarrow> pl = Lock_At l | _ \<Rightarrow> False)"

lemma on_lock_call: "on_lock l x \<Longrightarrow> within (on_lock l) (call x)"
  unfolding call_def by (intro within_bind within_act) (auto split: lock_reply.split)

lemma release_on_lock: "within (on_lock l) (release_lock (l, f))"
proof -
  have read: "within (on_lock l) (read_lock_snapshot pl)" for pl
    unfolding read_lock_snapshot_def
    by (intro within_bind within_act) (auto intro!: within_bind on_lock_call simp: on_lock_def reads_def split: lock_reply.split)
  show ?thesis
    unfolding release_lock_def with_lock_operation_mutex_def release_lock_raw_def attempt_def
    by (auto intro!: within_bind within_act within_rescue on_lock_call read simp: on_lock_def reads_def)
qed

lemma on_lock_keeps:
  assumes "on_lock b x" "lock_exec pids p x f s = (r, s')" "b \<noteq> l" "idle p s \<and> holding stale p l own s"
  shows "idle p s' \<and> holding stale p l own s'"
proof (cases "reads x")
  case True
  then show ?thesis using reads_store assms(2,4) by blast
next
  case False
  then show ?thesis using assms
    by (cases x) (auto simp: on_lock_def holding_def owns_def lock_file_at_def Let_def split: option.splits if_splits)
qed

lemma spec_release_holding:
  assumes "fst own \<noteq> l"
  shows "lock_spec pids stale p (\<lambda>s. (idle p s \<and> holding stale p l own' s) \<and> minter_of s (raw_content (snd own)) = Some p)
    (release_lock own) (\<lambda>_ s. idle p s \<and> holding stale p l own' s) (idle p)"
proof -
  obtain b f where own: "own = (b, f)" by (cases own)
  show ?thesis unfolding own
    by (rule locks.spec_weaken [OF locks.spec_frame_within [OF spec_release release_on_lock stable_holding on_lock_keeps]])
      (use assms own in auto)
qed

lemma spec_finally_release:
  assumes "lock_spec pids stale p (\<lambda>s. idle p s \<and> owns stale p own s) m (\<lambda>_. idle p) (idle p)"
  shows "lock_spec pids stale p (\<lambda>s. idle p s \<and> owns stale p own s) (finally_do m (release_lock own)) (\<lambda>_. idle p) (idle p)"
proof (rule locks.spec_weaken [OF locks.spec_finally [OF spec_frame_facts [OF assms lasting_facts(4)]]])
  show "lock_spec pids stale p (\<lambda>s. idle p s \<and> minter_of s (raw_content (snd own)) = Some p) (release_lock own) (\<lambda>_. idle p) (idle p)"
    using spec_release [of pids stale p "snd own" "fst own"] by simp
  then show "lock_spec pids stale p (\<lambda>s. idle p s \<and> minter_of s (raw_content (snd own)) = Some p) (release_lock own) (\<lambda>_. idle p) (idle p)" .
qed (auto intro: stable_facts simp: owns_def)

lemmas spec_protected_release = spec_finally_release [OF spec_protected]

lemma spec_acquire_barrier:
  assumes "stale l = Some barrier_stale_after_ms" "\<And>q. 0 < pids q"
  shows "lock_spec pids stale p (idle p) (acquire_maintenance_barrier l) (\<lambda>own s. idle p s \<and> holding stale p l (Some own) s) (idle p)"
  unfolding acquire_maintenance_barrier_def
proof (rule locks.spec_bind [OF spec_try_barrier])
  show "lock_spec pids stale p (\<lambda>s. idle p s \<and> holding stale p l own s)
      (case own of None \<Rightarrow> Raise ''AKM maintenance is in progress'' | Some o' \<Rightarrow> Return o')
      (\<lambda>own s. idle p s \<and> holding stale p l (Some own) s) (idle p)" for own
    by (cases own) (auto intro!: spec_returnI spec_raiseI stable_holding)
qed (use assms in auto)

lemma spec_barrier_wait:
  assumes "stale l = Some barrier_stale_after_ms" "\<And>q. 0 < pids q"
  shows "lock_spec pids stale p (idle p) (acquire_maintenance_barrier_async n l deadline)
      (\<lambda>own s. idle p s \<and> holding stale p l (Some own) s) (idle p)"
    "lock_spec pids stale p (idle p) (barrier_sync_wait n l deadline)
      (\<lambda>own s. idle p s \<and> holding stale p l (Some own) s) (idle p)"
proof -
  note acquire = spec_acquire_barrier [where pids = pids and stale = stale, OF assms]
  have quiet: "lock_spec pids stale p (idle p) (act x) (\<lambda>_. idle p) E" if "reads x" for x E
    by (rule spec_read [OF that stable_facts(1,1)])
  have round: "lock_spec pids stale p (idle p)
     (bind_task (try_acquire_maintenance_barrier l) (\<lambda>own.
       case own of
         Some o' \<Rightarrow> Return o'
       | None \<Rightarrow> bind_task (act Now) (\<lambda>now.
           if integer_of now \<ge> deadline then acquire_maintenance_barrier l
           else bind_task (act Pause) (\<lambda>_. again)))) (\<lambda>own s. idle p s \<and> holding stale p l (Some own) s) (idle p)"
    if again: "lock_spec pids stale p (idle p) again (\<lambda>own s. idle p s \<and> holding stale p l (Some own) s) (idle p)" for again
  proof (rule locks.spec_bind [OF spec_try_barrier])
    fix own
    have "lock_spec pids stale p (idle p)
      (bind_task (act Now) (\<lambda>now. if integer_of now \<ge> deadline then acquire_maintenance_barrier l
           else bind_task (act Pause) (\<lambda>_. again))) (\<lambda>own s. idle p s \<and> holding stale p l (Some own) s) (idle p)"
      by (rule locks.spec_bind [OF quiet])
        (auto intro!: acquire locks.spec_bind [OF quiet] again simp: reads_def)
    then show "lock_spec pids stale p (\<lambda>s. idle p s \<and> holding stale p l own s)
      (case own of
         Some o' \<Rightarrow> Return o'
       | None \<Rightarrow> bind_task (act Now) (\<lambda>now. if integer_of now \<ge> deadline then acquire_maintenance_barrier l
           else bind_task (act Pause) (\<lambda>_. again))) (\<lambda>own s. idle p s \<and> holding stale p l (Some own) s) (idle p)"
      by (cases own) (auto intro!: spec_returnI stable_holding elim: locks.spec_weaken)
  qed (use assms in auto)
  show "lock_spec pids stale p (idle p) (acquire_maintenance_barrier_async n l deadline)
      (\<lambda>own s. idle p s \<and> holding stale p l (Some own) s) (idle p)"
    by (induction n) (auto intro: acquire round)
  show "lock_spec pids stale p (idle p) (barrier_sync_wait n l deadline)
      (\<lambda>own s. idle p s \<and> holding stale p l (Some own) s) (idle p)"
    by (induction n) (auto intro: acquire round)
qed

text \<open>The lease: it is acquired under the barrier, which is released before the lease is used.\<close>

lemma spec_lease_attempt:
  assumes barrier: "stale b = Some barrier_stale_after_ms" and lease: "stale l = None" and pids: "\<And>q. 0 < pids q"
  shows "lock_spec pids stale p (idle p) (try_acquire_asset_mutation_lease n b l) (\<lambda>own s. idle p s \<and> holding stale p l own s) (idle p)"
proof (induction n)
  case 0
  show ?case by (auto intro!: spec_raiseI stable_facts)
next
  case (Suc n)
  have differ: "b \<noteq> l" using barrier lease by auto
  let ?Q = "\<lambda>r s. idle p s \<and> holding stale p l (case r of Inl x \<Rightarrow> x | Inr (u :: unit) \<Rightarrow> None) s"
  have no_lease: "lock_spec pids stale p (idle p) (Return r) ?Q E" if "r = Inl None \<or> r = Inr ()" for r E
    by (rule spec_returnI [OF stable_facts(1)]) (use that in \<open>auto simp: holding_def\<close>)
  have body: "lock_spec pids stale p (idle p)
      (bind_task create_lock_payload (\<lambda>body.
              bind_task (try_acquire_lock l body) (\<lambda>own.
                case own of
                  Some o' \<Rightarrow> Return (Inl (Some o'))
                | None \<Rightarrow> bind_task (probe_lock l None) (\<lambda>pr.
                    case stale_snapshot pr of
                      None \<Rightarrow> Return (Inl None)
                    | Some f \<Rightarrow> bind_task (reclaim_stale_lock l f) (\<lambda>gone.
                        Return (if \<not> gone then Inl None else Inr ())))))) ?Q (idle p)"
  proof (rule spec_payload, rule locks.spec_bind [OF spec_acquire])
    fix own
    have "lock_spec pids stale p (idle p) (bind_task (probe_lock l None) (\<lambda>pr.
                    case stale_snapshot pr of
                      None \<Rightarrow> Return (Inl None)
                    | Some f \<Rightarrow> bind_task (reclaim_stale_lock l f) (\<lambda>gone.
                        Return (if \<not> gone then Inl None else Inr ())))) ?Q (idle p)"
    proof (rule locks.spec_bind [OF spec_probe])
      show "lock_spec pids stale p (\<lambda>s. idle p s \<and> (\<forall>f. stale_snapshot pr = Some (Some f) \<longrightarrow> forsaken stale p l f s))
         (case stale_snapshot pr of
            None \<Rightarrow> Return (Inl None)
          | Some f \<Rightarrow> bind_task (reclaim_stale_lock l f) (\<lambda>gone. Return (if \<not> gone then Inl None else Inr ()))) ?Q (idle p)" for pr
      proof (cases "stale_snapshot pr")
        case None
        show ?thesis unfolding None option.case
          by (rule locks.spec_weaken [OF no_lease [where r = "Inl None"]]) auto
      next
        case (Some x)
        have "lock_spec pids stale p (idle p) (Return (if \<not> gone then Inl None else Inr ())) ?Q (idle p)" for gone
          by (rule no_lease) simp
        from locks.spec_bind [OF spec_reclaim [of pids stale p x] this] show ?thesis using Some by simp
      qed
    qed (use pids in auto)
    then show "lock_spec pids stale p (\<lambda>s. idle p s \<and> holding stale p l own s)
       (case own of
          Some o' \<Rightarrow> Return (Inl (Some o'))
        | None \<Rightarrow> bind_task (probe_lock l None) (\<lambda>pr.
                    case stale_snapshot pr of
                      None \<Rightarrow> Return (Inl None)
                    | Some f \<Rightarrow> bind_task (reclaim_stale_lock l f) (\<lambda>gone.
                        Return (if \<not> gone then Inl None else Inr ())))) ?Q (idle p)"
      by (cases own) (auto intro!: spec_returnI stable_holding elim: locks.spec_weaken)
  qed
  have under: "lock_spec pids stale p (\<lambda>s. idle p s \<and> holding stale p b (Some release) s)
      (finally_do
             (bind_task create_lock_payload (\<lambda>body.
              bind_task (try_acquire_lock l body) (\<lambda>own.
                case own of
                  Some o' \<Rightarrow> Return (Inl (Some o'))
                | None \<Rightarrow> bind_task (probe_lock l None) (\<lambda>pr.
                    case stale_snapshot pr of
                      None \<Rightarrow> Return (Inl None)
                    | Some f \<Rightarrow> bind_task (reclaim_stale_lock l f) (\<lambda>gone.
                        Return (if \<not> gone then Inl None else Inr ()))))))
             (release_lock release)) ?Q (idle p)" for release
  proof (cases "fst release = b")
    case True
    show ?thesis
    proof (rule locks.spec_weaken [OF locks.spec_finally [OF spec_frame_facts [OF body lasting_facts(4)]]])
      show "lock_spec pids stale p (\<lambda>s. ?Q a s \<and> minter_of s (raw_content (snd release)) = Some p) (release_lock release)
          (\<lambda>_. ?Q a) (idle p)" for a
        by (rule spec_release_holding) (use True differ in simp)
      show "lock_spec pids stale p (\<lambda>s. idle p s \<and> minter_of s (raw_content (snd release)) = Some p) (release_lock release) (\<lambda>_. idle p) (idle p)"
        using spec_release [of pids stale p "snd release" "fst release"] by simp
    next
      show "lock_stable stale p (?Q a)" for a by (rule stable_holding)
    qed (auto intro: stable_facts simp: holding_def owns_def)
  qed (simp add: holding_def locks.spec_def)
  show ?case unfolding try_acquire_asset_mutation_lease.simps
  proof (rule locks.spec_bind [OF spec_try_barrier])
    fix r
    show "lock_spec pids stale p (\<lambda>s. idle p s \<and> holding stale p b r s)
      (case r of
         None \<Rightarrow> Return None
       | Some release \<Rightarrow>
           bind_task (finally_do
             (bind_task create_lock_payload (\<lambda>body.
              bind_task (try_acquire_lock l body) (\<lambda>own.
                case own of
                  Some o' \<Rightarrow> Return (Inl (Some o'))
                | None \<Rightarrow> bind_task (probe_lock l None) (\<lambda>pr.
                    case stale_snapshot pr of
                      None \<Rightarrow> Return (Inl None)
                    | Some f \<Rightarrow> bind_task (reclaim_stale_lock l f) (\<lambda>gone.
                        Return (if \<not> gone then Inl None else Inr ()))))))
             (release_lock release))
           (\<lambda>r. case r of Inl result \<Rightarrow> Return result | Inr again \<Rightarrow> try_acquire_asset_mutation_lease n b l))
      (\<lambda>own s. idle p s \<and> holding stale p l own s) (idle p)"
    proof (cases r)
      case None
      then show ?thesis by (auto intro!: spec_returnI stable_facts simp: holding_def)
    next
      case (Some release)
      have "lock_spec pids stale p (?Q x) (case x of Inl result \<Rightarrow> Return result | Inr again \<Rightarrow> try_acquire_asset_mutation_lease n b l)
         (\<lambda>own s. idle p s \<and> holding stale p l own s) (idle p)" for x
        by (cases x) (auto intro!: spec_returnI stable_holding locks.spec_weaken [OF Suc])
      from locks.spec_bind [OF under this] show ?thesis using Some by simp
    qed
  qed (use barrier pids in auto)
qed

lemma spec_sections:
  assumes b: "stale b = Some barrier_stale_after_ms" and l: "stale l = None" and pids: "\<And>q. 0 < pids q"
  shows "lock_spec pids stale p (idle p) (with_maintenance_start_barrier b) (\<lambda>_. idle p) (idle p)"
    "lock_spec pids stale p (idle p) (try_with_maintenance_start_barrier b) (\<lambda>_. idle p) (idle p)"
    "lock_spec pids stale p (idle p) (with_maintenance_start_barrier_async n b) (\<lambda>_. idle p) (idle p)"
    "lock_spec pids stale p (idle p) (acquire_maintenance_activity_sync n b a) (\<lambda>_. idle p) (idle p)"
    "lock_spec pids stale p (idle p) (with_asset_mutation_lease n m b l) (\<lambda>_. idle p) (idle p)"
    "lock_spec pids stale p (idle p) (with_asset_mutation_lease_sync n m b l) (\<lambda>_. idle p) (idle p)"
proof -
  have quiet: "lock_spec pids stale p (idle p) (act x) (\<lambda>_. idle p) E" if "reads x" for x E
    by (rule spec_read [OF that stable_facts(1,1)])
  have held: "lock_spec pids stale p (\<lambda>s. idle p s \<and> holding stale p c (Some own) s)
      (finally_do (protected own) (release_lock own)) (\<lambda>_. idle p) (idle p)" for own c
    by (rule locks.spec_weaken [OF spec_protected_release]) (auto simp: holding_def)
  show "lock_spec pids stale p (idle p) (with_maintenance_start_barrier b) (\<lambda>_. idle p) (idle p)"
    unfolding with_maintenance_start_barrier_def
    by (rule locks.spec_bind [OF spec_acquire_barrier held]) (use b pids in auto)
  have "lock_spec pids stale p (\<lambda>s. idle p s \<and> holding stale p b own s)
      (case own of
         None \<Rightarrow> Return None
       | Some o' \<Rightarrow> finally_do (bind_task (protected o') (\<lambda>_. Return (Some ()))) (release_lock o')) (\<lambda>_. idle p) (idle p)" for own
  proof (cases own)
    case None
    then show ?thesis by (auto intro!: spec_returnI stable_holding)
  next
    case (Some o')
    have "lock_spec pids stale p (\<lambda>s. idle p s \<and> owns stale p o' s) (bind_task (protected o') (\<lambda>_. Return (Some ()))) (\<lambda>_. idle p) (idle p)"
      by (rule locks.spec_bind [OF spec_protected]) (rule spec_return_any [OF stable_facts(1)])
    from spec_finally_release [OF this]
    have "lock_spec pids stale p (\<lambda>s. idle p s \<and> holding stale p b (Some o') s)
       (finally_do (bind_task (protected o') (\<lambda>_. Return (Some ()))) (release_lock o')) (\<lambda>_. idle p) (idle p)"
      by (rule locks.spec_weaken) (auto simp: holding_def)
    then show ?thesis using Some by simp
  qed
  then show "lock_spec pids stale p (idle p) (try_with_maintenance_start_barrier b) (\<lambda>_. idle p) (idle p)"
    unfolding try_with_maintenance_start_barrier_def
    by (rule locks.spec_bind [OF spec_try_barrier, rotated 2]) (use b pids in auto)
  show "lock_spec pids stale p (idle p) (with_maintenance_start_barrier_async n b) (\<lambda>_. idle p) (idle p)"
    unfolding with_maintenance_start_barrier_async_def
    by (rule locks.spec_bind [OF quiet locks.spec_bind [OF spec_barrier_wait(1) held]]) (use b pids in \<open>auto simp: reads_def\<close>)
  have register: "lock_spec pids stale p (idle p)
         (bind_task create_lock_payload (\<lambda>body.
          bind_task (try_acquire_lock a body) (\<lambda>own.
            case own of Some o' \<Rightarrow> Return o' | None \<Rightarrow> Raise ''Could not register AKM maintenance activity''))) (\<lambda>_. idle p) (idle p)"
  proof (rule spec_payload, rule locks.spec_bind [OF spec_acquire])
    show "lock_spec pids stale p (\<lambda>s. idle p s \<and> holding stale p a own s)
        (case own of None \<Rightarrow> Raise ''Could not register AKM maintenance activity'' | Some o' \<Rightarrow> Return o') (\<lambda>_. idle p) (idle p)" for own
      by (cases own) (auto intro!: spec_returnI spec_raiseI stable_holding)
  qed
  have "lock_spec pids stale p (\<lambda>s. idle p s \<and> holding stale p b (Some release) s)
      (finally_do
         (bind_task create_lock_payload (\<lambda>body.
          bind_task (try_acquire_lock a body) (\<lambda>own.
            case own of Some o' \<Rightarrow> Return o' | None \<Rightarrow> Raise ''Could not register AKM maintenance activity'')))
         (release_lock release)) (\<lambda>_. idle p) (idle p)" for release
  proof (rule locks.spec_weaken [OF locks.spec_finally [OF spec_frame_facts [OF register lasting_facts(4)]]])
    show "lock_spec pids stale p (\<lambda>s. idle p s \<and> minter_of s (raw_content (snd release)) = Some p) (release_lock release) (\<lambda>_. idle p) (idle p)"
      using spec_release [of pids stale p "snd release" "fst release"] by simp
    then show "lock_spec pids stale p (\<lambda>s. idle p s \<and> minter_of s (raw_content (snd release)) = Some p) (release_lock release) (\<lambda>_. idle p) (idle p)" .
  qed (auto intro: stable_facts simp: holding_def owns_def)
  then show "lock_spec pids stale p (idle p) (acquire_maintenance_activity_sync n b a) (\<lambda>_. idle p) (idle p)"
    unfolding acquire_maintenance_activity_sync_def
    by (intro locks.spec_bind [OF quiet] locks.spec_bind [OF spec_barrier_wait(2)]) (use b pids in \<open>auto simp: reads_def\<close>)
  have wait: "lock_spec pids stale p (idle p) (acquire_asset_mutation_lease k m b l mode limit started)
      (\<lambda>own s. idle p s \<and> holding stale p l own s) (idle p)" for k mode limit started
  proof (induction k)
    case (Suc k)
    have pause: "lock_spec pids stale p (idle p)
       (bind_task (act Now) (\<lambda>now.
             if limit \<ge> 0 \<and> integer_of now - started \<ge> limit
             then Raise ''timed out waiting for asset mutation lease''
             else bind_task (act Pause) (\<lambda>_. acquire_asset_mutation_lease k m b l mode limit started)))
       (\<lambda>own s. idle p s \<and> holding stale p l own s) (idle p)"
      by (rule locks.spec_bind [OF quiet]) (auto intro!: spec_raiseI stable_facts locks.spec_bind [OF quiet] Suc simp: reads_def)
    show ?case unfolding acquire_asset_mutation_lease.simps
    proof (rule locks.spec_bind [OF spec_lease_attempt])
      show "lock_spec pids stale p (\<lambda>s. idle p s \<and> holding stale p l lease s)
        (case lease of
           Some o' \<Rightarrow> Return (Some o')
         | None \<Rightarrow> if mode = Try_Lease then Return None
             else bind_task (act Now) (\<lambda>now.
               if limit \<ge> 0 \<and> integer_of now - started \<ge> limit
               then Raise ''timed out waiting for asset mutation lease''
               else bind_task (act Pause) (\<lambda>_. acquire_asset_mutation_lease k m b l mode limit started)))
        (\<lambda>own s. idle p s \<and> holding stale p l own s) (idle p)" for lease
        using pause by (cases lease) (auto intro!: spec_returnI stable_holding elim: locks.spec_weaken)
    qed (use assms in auto)
  qed (auto intro!: spec_raiseI stable_facts)
  have wait_sync: "lock_spec pids stale p (idle p) (wait_for_lease_sync k m b l started)
      (\<lambda>own s. idle p s \<and> holding stale p l (Some own) s) (idle p)" for k started
  proof (induction k)
    case (Suc k)
    have pause: "lock_spec pids stale p (idle p)
       (bind_task (act Now) (\<lambda>now.
           if integer_of now - started \<ge> asset_mutation_max_wait_ms
           then Raise ''timed out waiting for asset mutation lease''
           else bind_task (act Pause) (\<lambda>_. wait_for_lease_sync k m b l started)))
       (\<lambda>own s. idle p s \<and> holding stale p l (Some own) s) (idle p)"
      by (rule locks.spec_bind [OF quiet]) (auto intro!: spec_raiseI stable_facts locks.spec_bind [OF quiet] Suc simp: reads_def)
    show ?case unfolding wait_for_lease_sync.simps
    proof (rule locks.spec_bind [OF spec_lease_attempt])
      show "lock_spec pids stale p (\<lambda>s. idle p s \<and> holding stale p l lease s)
        (case lease of
           Some own \<Rightarrow> Return own
         | None \<Rightarrow> bind_task (act Now) (\<lambda>now.
           if integer_of now - started \<ge> asset_mutation_max_wait_ms
           then Raise ''timed out waiting for asset mutation lease''
           else bind_task (act Pause) (\<lambda>_. wait_for_lease_sync k m b l started)))
        (\<lambda>own s. idle p s \<and> holding stale p l (Some own) s) (idle p)" for lease
        using pause by (cases lease) (auto intro!: spec_returnI stable_holding elim: locks.spec_weaken)
    qed (use assms in auto)
  qed (auto intro!: spec_raiseI stable_facts)
  have "lock_spec pids stale p (\<lambda>s. idle p s \<and> holding stale p l lease s)
      (case lease of
         None \<Rightarrow> Raise ''asset mutation lease unavailable''
       | Some own \<Rightarrow> finally_do (protected own) (release_lock own)) (\<lambda>_. idle p) (idle p)" for lease
    using held by (cases lease) (auto intro!: spec_raiseI stable_holding)
  then show "lock_spec pids stale p (idle p) (with_asset_mutation_lease n m b l) (\<lambda>_. idle p) (idle p)"
    unfolding with_asset_mutation_lease_def
    by (intro locks.spec_bind [OF quiet] locks.spec_bind [OF wait]) (auto simp: reads_def)
  show "lock_spec pids stale p (idle p) (with_asset_mutation_lease_sync n m b l) (\<lambda>_. idle p) (idle p)"
    unfolding with_asset_mutation_lease_sync_def
    by (rule locks.spec_bind [OF quiet locks.spec_bind [OF wait_sync held]]) (simp add: reads_def)
qed

end
