(* ===== verification/Lock_Exclusion.thy ===== *)
theory Lock_Exclusion
  imports Lock_Sections Step_System
begin

text \<open>
  Mutual exclusion of the maintenance barrier and of the asset-mutation lease, for any number of processes that interleave at
  every system call, fail, die and are born again with a process id already used.
\<close>

section \<open>The processes together\<close>

text \<open>What a process can be asked to do under a barrier at \<open>b\<close> and a lease at \<open>l\<close>.\<close>

datatype lock_client =
    Barrier_Section
  | Try_Barrier_Section
  | Barrier_Section_Waiting nat
  | Activity_Registration nat string
  | Lease_Section nat nat
  | Lease_Section_Sync nat nat

fun client_task :: "string \<Rightarrow> string \<Rightarrow> lock_client \<Rightarrow> unit locking" where
  "client_task b l Barrier_Section = with_maintenance_start_barrier b"
| "client_task b l Try_Barrier_Section = bind_task (try_with_maintenance_start_barrier b) (\<lambda>_. Return ())"
| "client_task b l (Barrier_Section_Waiting n) = with_maintenance_start_barrier_async n b"
| "client_task b l (Activity_Registration n a) = bind_task (acquire_maintenance_activity_sync n b a) (\<lambda>_. Return ())"
| "client_task b l (Lease_Section n m) = with_asset_mutation_lease n m b l"
| "client_task b l (Lease_Section_Sync n m) = with_asset_mutation_lease_sync n m b l"

text \<open>
  What happens next: a process is born, is given something to do, takes its next step (which may fail), dies (the operating system
  frees its mutexes and nothing else), or time passes.
\<close>

datatype lock_event = Birth | Start nat lock_client | Run nat "string option" | Death nat | Tick int

type_synonym lock_system = "lock_world \<times> (nat \<Rightarrow> unit locking option)"

fun lock_turn :: "(nat \<Rightarrow> int) \<Rightarrow> string \<Rightarrow> string \<Rightarrow> lock_event \<Rightarrow> lock_system \<Rightarrow> lock_system" where
  "lock_turn pids b l Birth (s, ts) =
     (s\<lparr>living := born s # living s, born := Suc (born s), inside := filter (\<lambda>x. fst x \<noteq> born s) (inside s)\<rparr>, ts)"
| "lock_turn pids b l (Start p c) (s, ts) =
     (if p \<notin> set (living s) then (s, ts)
      else case ts p of Some m \<Rightarrow> (s, ts) | None \<Rightarrow> (s, ts(p \<mapsto> client_task b l c)))"
| "lock_turn pids b l (Run p fault) (s, ts) =
     (case ts p of
        None \<Rightarrow> (s, ts)
      | Some (Return a) \<Rightarrow> (s, ts(p := None))
      | Some (Raise e) \<Rightarrow> (s, ts(p := None))
      | Some (Act x k) \<Rightarrow> (case lock_exec pids p x fault s of (r, s') \<Rightarrow> (s', ts(p \<mapsto> k r))))"
| "lock_turn pids b l (Death p) (s, ts) =
     (s\<lparr>living := filter (\<lambda>q. q \<noteq> p) (living s),
        mutex_holder := (\<lambda>m. if mutex_holder s m = Some p then None else mutex_holder s m)\<rparr>, ts(p := None))"
| "lock_turn pids b l (Tick now) (s, ts) = (s\<lparr>clock_ms := max (clock_ms s) now\<rparr>, ts)"

text \<open>Sentinels of the barrier go stale by age; those of the lease do not.\<close>

definition stale_by_age :: "string \<Rightarrow> string \<Rightarrow> int option" where
  "stale_by_age b l = (if l = b then Some barrier_stale_after_ms else None)"

definition resting :: "nat \<Rightarrow> lock_world \<Rightarrow> bool" where
  "resting p s \<longleftrightarrow> (p \<in> set (living s) \<longrightarrow> outside p s)"

abbreviation lock_sound :: "(nat \<Rightarrow> int) \<Rightarrow> string \<Rightarrow> lock_system \<Rightarrow> bool" where
  "lock_sound pids b \<equiv> \<lambda>(s, ts).
     rely_guarantee.sound (lock_invariant pids (stale_by_age b)) (lock_contract (stale_by_age b)) (lock_exec pids) resting s ts"

definition lock_start :: "(nat \<Rightarrow> int) \<Rightarrow> string \<Rightarrow> lock_world \<Rightarrow> bool" where
  "lock_start pids b s \<longleftrightarrow> living s = [] \<and> lock_invariant pids (stale_by_age b) s"


section \<open>Soundness\<close>

lemma stable_resting: "lock_stable stale p (resting p)"
proof (rule lock_stableI)
  fix s s' assume "resting p s" and c: "lock_contract stale p s s'"
  then show "resting p s'"
    using leaves_aloneD(7) by (auto simp: resting_def lock_contract_def outside_def)
qed

lemma resting_idle: "p \<in> set (living s) \<Longrightarrow> resting p s \<longleftrightarrow> idle p s"
  by (simp add: resting_def idle_def)

lemma client_spec:
  assumes "b \<noteq> l" "\<And>q. 0 < pids q"
  shows "lock_spec pids (stale_by_age b) p (idle p) (client_task b l c) (\<lambda>_. resting p) (resting p)"
proof -
  have rest: "lock_spec pids (stale_by_age b) p (idle p) m (\<lambda>_. resting p) (resting p)"
    if "lock_spec pids (stale_by_age b) p (idle p) m (\<lambda>_. idle p) (idle p)" for m :: "'x locking"
    by (rule locks.spec_weaken [OF that]) (auto simp: resting_def idle_def)
  have unit: "lock_spec pids (stale_by_age b) p (idle p) (bind_task m (\<lambda>_. Return ())) (\<lambda>_. idle p) (idle p)"
    if "lock_spec pids (stale_by_age b) p (idle p) m (\<lambda>_. idle p) (idle p)" for m :: "'x locking"
    by (rule locks.spec_bind [OF that]) (rule spec_return_any [OF stable_facts(1)])
  have ages: "stale_by_age b b = Some barrier_stale_after_ms" "stale_by_age b l = None"
    using assms(1) by (simp_all add: stale_by_age_def)
  note sections = spec_sections [where pids = pids, OF ages assms(2)]
  show ?thesis
    by (cases c) (auto intro!: rest sections(1,3,5,6) unit [OF sections(2)] unit [OF sections(4)])
qed

lemma lock_turn_sound:
  assumes "b \<noteq> l" "\<And>q. 0 < pids q" and so: "lock_sound pids b sys"
  shows "lock_sound pids b (lock_turn pids b l e sys)"
proof -
  obtain s ts where sys: "sys = (s, ts)" by (cases sys)
  let ?sound = "rely_guarantee.sound (lock_invariant pids (stale_by_age b)) (lock_contract (stale_by_age b)) (lock_exec pids) resting"
  have so: "?sound s ts" using so sys by simp
  note inv = locks.soundD(1) [OF so]
  show ?thesis
  proof (cases e)
    case Birth
    let ?s = "s\<lparr>living := born s # living s, born := Suc (born s), inside := filter (\<lambda>x. fst x \<noteq> born s) (inside s)\<rparr>"
    have c: "lock_contract (stale_by_age b) q s ?s" for q
      using invariantD(4) [OF inv, of q]
      by (auto simp: lock_contract_def grows_def dead_def outside_def lock_file_at_def linked_only_def intro!: leaves_aloneI)
    have "lock_invariant pids (stale_by_age b) ?s"
      using inv by (fastforce simp: lock_invariant_def less_Suc_eq)
    from locks.sound_environment [OF so this c stable_resting] show ?thesis by (simp add: Birth sys)
  next
    case (Start p c)
    show ?thesis
    proof (cases "p \<in> set (living s) \<and> ts p = None")
      case True
      then have "idle p s" using locks.soundD(2) [OF so] resting_idle by blast
      from locks.sound_start [OF so _ this client_spec] show ?thesis using True assms by (simp add: Start sys)
    qed (use so in \<open>auto simp: Start sys split: option.split\<close>)
  next
    case (Run p fault)
    show ?thesis
    proof (cases "ts p")
      case None
      then show ?thesis using so by (simp add: Run sys)
    next
      case (Some m)
      show ?thesis
      proof (cases m)
        case (Act x k)
        then show ?thesis
          using locks.sound_run [OF so _ _ stable_resting, where p = p and x = x and k = k and f = fault] Some by (auto simp: Run sys split: prod.split)
      qed (use locks.sound_end [OF so, of p] Some in \<open>simp_all add: Run sys\<close>)
    qed
  next
    case (Death p)
    let ?s = "s\<lparr>living := filter (\<lambda>q. q \<noteq> p) (living s),
        mutex_holder := (\<lambda>m. if mutex_holder s m = Some p then None else mutex_holder s m)\<rparr>"
    have c: "lock_contract (stale_by_age b) q s ?s" if "q \<noteq> p" for q
      using that by (auto simp: lock_contract_def grows_def dead_def outside_def lock_file_at_def linked_only_def intro!: leaves_aloneI split: if_splits)
    have "lock_invariant pids (stale_by_age b) ?s" using inv by (simp add: lock_invariant_def)
    then have "?sound ?s (ts(p := None))"
    proof (rule locks.soundI)
      show "resting q ?s" if "(ts(p := None)) q = None" for q
      proof (cases "q = p")
        case True
        then show ?thesis by (simp add: resting_def)
      next
        case False
        then have "resting q s" using that locks.soundD(2) [OF so] by simp
        then show ?thesis using stable_resting c [OF False] unfolding locks.stable_def by blast
      qed
      show "meets (lock_invariant pids (stale_by_age b)) (lock_contract (stale_by_age b)) (lock_exec pids) q m (\<lambda>_. resting q) (resting q) ?s"
        if "(ts(p := None)) q = Some m" for q m
      proof -
        have "q \<noteq> p" using that by auto
        then show ?thesis using locks.meets_stable [OF locks.soundD(3) [OF so] c] that by simp
      qed
    qed
    then show ?thesis by (simp add: Death sys)
  next
    case (Tick now)
    let ?s = "s\<lparr>clock_ms := max (clock_ms s) now\<rparr>"
    have c: "lock_contract (stale_by_age b) q s ?s" for q
      by (auto simp: lock_contract_def grows_def dead_def outside_def lock_file_at_def linked_only_def intro!: leaves_aloneI)
    have "lock_invariant pids (stale_by_age b) ?s"
    proof -
      have "stands (stale_by_age b) ?s q l' t" if "(q, l', t) \<in> set (inside s)" "q \<in> set (living s)" for q l' t
        by (rule stands_kept [OF invariantD(5) [OF inv that] that(2) c])
      then show ?thesis using inv by (simp add: lock_invariant_def)
    qed
    from locks.sound_environment [OF so this c stable_resting] show ?thesis by (simp add: Tick sys)
  qed
qed

definition lock_run :: "(nat \<Rightarrow> int) \<Rightarrow> string \<Rightarrow> string \<Rightarrow> lock_event list \<Rightarrow> lock_world \<Rightarrow> lock_system" where
  "lock_run pids b l es s = fold (lock_turn pids b l) es (s, \<lambda>_. None)"

lemma lock_turns_sound:
  assumes "b \<noteq> l" "\<And>q. 0 < pids q"
  shows "lock_sound pids b sys \<Longrightarrow> lock_sound pids b (fold (lock_turn pids b l) es sys)"
proof (induction es arbitrary: sys)
  case Nil
  show ?case unfolding fold.simps id_apply by (rule Nil)
next
  case (Cons e es)
  show ?case unfolding fold.simps o_apply by (rule Cons.IH [OF lock_turn_sound [OF assms Cons.prems]])
qed

lemma lock_run_sound:
  assumes "b \<noteq> l" "\<And>q. 0 < pids q" "lock_start pids b s"
  shows "lock_sound pids b (lock_run pids b l es s)"
  unfolding lock_run_def
proof (rule lock_turns_sound [OF assms(1,2)])
  show "lock_sound pids b (s, \<lambda>_. None)"
    unfolding prod.case by (rule locks.soundI) (use assms(3) in \<open>simp_all add: lock_start_def resting_def\<close>)
qed

text \<open>Who is inside a section now: living processes only.\<close>

definition is_inside :: "nat \<Rightarrow> string \<Rightarrow> int \<Rightarrow> lock_system \<Rightarrow> bool" where
  "is_inside p l t sys \<longleftrightarrow> p \<in> set (living (fst sys)) \<and> (p, l, t) \<in> set (inside (fst sys))"

lemma inside_stands:
  assumes "b \<noteq> l" "\<And>q. 0 < pids q" "lock_start pids b s" "is_inside p x t (lock_run pids b l es s)"
  shows "stands (stale_by_age b) (fst (lock_run pids b l es s)) p x t"
proof -
  obtain s' ts where run: "lock_run pids b l es s = (s', ts)" by (cases "lock_run pids b l es s")
  have "lock_invariant pids (stale_by_age b) s'"
    using locks.soundD(1) lock_run_sound [OF assms(1-3), of es] unfolding run by blast
  from invariantD(5) [OF this] show ?thesis using assms(4) unfolding run is_inside_def by simp
qed

lemma stands_same:
  assumes "stands stale s p l t" "stands stale s q l t'" "\<not> expired stale s l t" "\<not> expired stale s l t'"
  shows "p = q"
  using assms by (auto simp: stands_def)

section \<open>Exclusion\<close>

text \<open>C19: of all the processes that are alive, at most one is inside the section of the asset-mutation lease, whatever
  the processes do, in whatever order their system calls run, fail or are cut off by their death.\<close>

theorem asset_lease_exclusion:
  assumes "b \<noteq> l" "\<And>q. 0 < pids q" "lock_start pids b s"
    and "is_inside p l t (lock_run pids b l es s)" "is_inside q l t' (lock_run pids b l es s)"
  shows "p = q"
proof (rule stands_same)
  show "stands (stale_by_age b) (fst (lock_run pids b l es s)) p l t" by (rule inside_stands) (use assms in auto)
  show "stands (stale_by_age b) (fst (lock_run pids b l es s)) q l t'" by (rule inside_stands) (use assms in auto)
qed (use assms(1) in \<open>simp_all add: expired_def stale_by_age_def\<close>)

definition empty_lock_world :: lock_world where
  "empty_lock_world = \<lparr>lock_entries = \<lambda>_. None, lock_inodes = \<lambda>_. (Lock_Text '''', 0), next_lock_ino = 0,
     mutex_made = \<lambda>_. False, mutex_holder = \<lambda>_. None, born = 0, living = [], next_lock_id = 0, minted_by = \<lambda>_. 0,
     clock_ms = 0, inside = []\<rparr>"

definition sample_pid :: "nat \<Rightarrow> int" where
  "sample_pid q = int q + 100"

lemma sample_start: "lock_start sample_pid b empty_lock_world"
  by (simp add: lock_start_def lock_invariant_def empty_lock_world_def)

lemma sample_pid_positive: "0 < sample_pid q"
  by (simp add: sample_pid_def)

definition sample_events :: "lock_client \<Rightarrow> nat \<Rightarrow> lock_event list" where
  "sample_events c n = [Birth, Tick 7, Start 0 c] @ replicate n (Run 0 None) @ [Birth, Start 1 c] @ replicate n (Run 1 None)"

lemma asset_lease_exclusion_witness:
  "\<nexists>t. is_inside 1 ''l'' t (lock_run sample_pid ''b'' ''l'' (sample_events (Lease_Section 1 1) 28) empty_lock_world)"
proof
  assume "\<exists>t. is_inside 1 ''l'' t (lock_run sample_pid ''b'' ''l'' (sample_events (Lease_Section 1 1) 28) empty_lock_world)"
  then obtain t where 1: "is_inside 1 ''l'' t (lock_run sample_pid ''b'' ''l'' (sample_events (Lease_Section 1 1) 28) empty_lock_world)" ..
  have "is_inside 0 ''l'' 7 (lock_run sample_pid ''b'' ''l'' (sample_events (Lease_Section 1 1) 28) empty_lock_world)"
    by code_simp
  from asset_lease_exclusion [OF _ sample_pid_positive sample_start 1 this] show False by simp
qed

text \<open>C20: two living processes can be inside the maintenance barrier at once only when one of them has been there for more
  than the five minutes after which its sentinel is taken for stale.\<close>

theorem barrier_exclusion:
  assumes "b \<noteq> l" "\<And>q. 0 < pids q" "lock_start pids b s"
    and "is_inside p b t (lock_run pids b l es s)" "is_inside q b t' (lock_run pids b l es s)" "p \<noteq> q"
  shows "barrier_stale_after_ms < clock_ms (fst (lock_run pids b l es s)) - min t t'"
proof (rule ccontr)
  let ?s = "fst (lock_run pids b l es s)"
  assume young: "\<not> barrier_stale_after_ms < clock_ms ?s - min t t'"
  have "p = q"
  proof (rule stands_same)
    show "stands (stale_by_age b) ?s p b t" by (rule inside_stands) (use assms in auto)
    show "stands (stale_by_age b) ?s q b t'" by (rule inside_stands) (use assms in auto)
  qed (use young in \<open>auto simp: expired_def stale_by_age_def\<close>)
  then show False using assms(6) by simp
qed

definition overrun :: "lock_event list" where
  "overrun = [Birth, Tick 7, Start 0 Barrier_Section] @ replicate 10 (Run 0 None)
     @ [Birth, Tick 300008, Start 1 Barrier_Section] @ replicate 31 (Run 1 None)"

lemma barrier_exclusion_witness:
  "barrier_stale_after_ms < clock_ms (fst (lock_run sample_pid ''b'' ''l'' overrun empty_lock_world)) - min 7 300008"
proof (rule barrier_exclusion [OF _ sample_pid_positive sample_start])
  show "is_inside 0 ''b'' 7 (lock_run sample_pid ''b'' ''l'' overrun empty_lock_world)" by code_simp
  show "is_inside 1 ''b'' 300008 (lock_run sample_pid ''b'' ''l'' overrun empty_lock_world)" by code_simp
qed simp_all

end
