(* ===== verification/Lock_Alone.thy ===== *)
theory Lock_Alone
  imports Lock_Contract
begin

text \<open>
  What the lock functions decide when their process is not disturbed and no system call fails: their effect on the sentinels, as
  updates of a map from lock paths to snapshots, and the verdict of one attempt at the asset-mutation lease.
\<close>

section \<open>Undisturbed runs\<close>

abbreviation alone :: "(nat \<Rightarrow> int) \<Rightarrow> nat \<Rightarrow> 'a locking \<Rightarrow> lock_world \<Rightarrow> (string + 'a) \<times> lock_world" where
  "alone pids p \<equiv> run_alone (\<lambda>x. lock_exec pids p x None)"

definition sentinels :: "lock_world \<Rightarrow> string \<Rightarrow> lock_file option" where
  "sentinels s l = lock_file_at s (Lock_At l)"

text \<open>The rest of the store that the functions rely on, and what they leave of it.\<close>

definition calm :: "lock_world \<Rightarrow> bool" where
  "calm s \<longleftrightarrow> (\<forall>l. mutex_holder s l = None) \<and> (\<forall>pl i. lock_entries s pl = Some i \<longrightarrow> i < next_lock_ino s)"

definition leaves_rest :: "lock_world \<Rightarrow> lock_world \<Rightarrow> bool" where
  "leaves_rest s s' \<longleftrightarrow> calm s' \<and> living s' = living s \<and> clock_ms s' = clock_ms s"

lemma alone_snapshot: "alone pids p (read_lock_snapshot pl) s = (Inr (lock_file_at s pl), s)"
  by (simp add: read_lock_snapshot_def call_def alone fd_of_def text_of_def integer_of_def lock_file_at_def split: option.split)

lemma alone_attempt:
  "alone pids p (attempt m) s = (case alone pids p m s of (r, s') \<Rightarrow> (Inr r, s'))"
  by (simp add: attempt_def alone split: prod.split sum.split)

lemma alone_mutex:
  assumes "calm s" "alone pids p run (s\<lparr>mutex_made := (mutex_made s)(l := True), mutex_holder := (mutex_holder s)(l \<mapsto> p)\<rparr>) = (r, s1)"
    "mutex_holder s1 = (mutex_holder s)(l \<mapsto> p)"
  shows "alone pids p (with_lock_operation_mutex l run) s = (r, s1\<lparr>mutex_holder := mutex_holder s\<rparr>)"
proof -
  have free: "mutex_holder s l = None" using assms(1) by (simp add: calm_def)
  then have "(mutex_holder s)(l := None) = mutex_holder s" by auto
  then show ?thesis using assms(2,3) free
    by (cases r) (simp_all add: with_lock_operation_mutex_def call_def alone)
qed

lemma alone_release_raw:
  "alone pids p (release_lock_raw pl) s = (Inr (), s\<lparr>lock_entries := (lock_entries s)(pl := None)\<rparr>)"
  by (auto simp: release_lock_raw_def alone fun_upd_idem)

lemma alone_payload:
  "alone pids p create_lock_payload s = (Inr (Lock_Envelope (Some (pids p)) (next_lock_id s)),
     s\<lparr>minted_by := (minted_by s)(next_lock_id s := p), next_lock_id := Suc (next_lock_id s)\<rparr>)"
  by (simp add: create_lock_payload_def alone integer_of_def number_of_def)

lemma alone_acquire:
  assumes "calm s"
  obtains own s' where "alone pids p (try_acquire_lock l body) s = (Inr own, s')" "leaves_rest s s'"
    "if sentinels s l = None
     then \<exists>f. own = Some (l, f) \<and> raw_content f = body \<and> file_mtime f = clock_ms s \<and> sentinels s' = (sentinels s)(l \<mapsto> f)
     else own = None \<and> sentinels s' = sentinels s"
proof (cases "lock_entries s (Lock_At l)")
  case None
  let ?i = "next_lock_ino s"
  let ?s = "s\<lparr>mutex_made := (mutex_made s)(l := True), mutex_holder := (mutex_holder s)(l \<mapsto> p)\<rparr>"
  let ?s' = "?s\<lparr>lock_entries := (lock_entries s)(Lock_At l \<mapsto> ?i), lock_inodes := (lock_inodes s)(?i := (body, clock_ms s)),
     next_lock_ino := Suc ?i\<rparr>"
  let ?f = "\<lparr>raw_content = body, file_ino = ?i, file_mtime = clock_ms s\<rparr>"
  have "alone pids p (try_acquire_lock_raw l body) ?s = (Inr (Some (l, ?f)), ?s')"
    using None by (simp add: try_acquire_lock_raw_def call_def alone alone_snapshot fd_of_def lock_file_at_def)
  from alone_mutex [OF assms this] have run: "alone pids p (try_acquire_lock l body) s = (Inr (Some (l, ?f)), ?s'\<lparr>mutex_holder := mutex_holder s\<rparr>)"
    by (simp add: try_acquire_lock_def)
  have files: "sentinels (?s'\<lparr>mutex_holder := mutex_holder s\<rparr>) = (sentinels s)(l \<mapsto> ?f)"
  proof
    show "sentinels (?s'\<lparr>mutex_holder := mutex_holder s\<rparr>) m = ((sentinels s)(l \<mapsto> ?f)) m" for m
      using assms by (cases "lock_entries s (Lock_At m)") (auto simp: sentinels_def lock_file_at_def calm_def)
  qed
  show ?thesis
  proof (rule that [OF run])
    show "leaves_rest s (?s'\<lparr>mutex_holder := mutex_holder s\<rparr>)"
      using assms by (auto simp: leaves_rest_def calm_def less_Suc_eq)
  qed (use None files in \<open>auto simp: sentinels_def lock_file_at_def\<close>)
next
  case (Some i)
  let ?s = "s\<lparr>mutex_made := (mutex_made s)(l := True), mutex_holder := (mutex_holder s)(l \<mapsto> p)\<rparr>"
  have "alone pids p (try_acquire_lock_raw l body) ?s = (Inr None, ?s)"
    using Some by (simp add: try_acquire_lock_raw_def alone)
  from alone_mutex [OF assms this] have run: "alone pids p (try_acquire_lock l body) s = (Inr None, ?s\<lparr>mutex_holder := mutex_holder s\<rparr>)"
    by (simp add: try_acquire_lock_def)
  show ?thesis
    by (rule that [OF run]) (use assms Some in \<open>auto simp: leaves_rest_def calm_def sentinels_def lock_file_at_def fun_eq_iff\<close>)
qed

text \<open>Whether the holder a sentinel names is alive.\<close>

definition holder_alive :: "(nat \<Rightarrow> int) \<Rightarrow> lock_world \<Rightarrow> lock_file \<Rightarrow> bool" where
  "holder_alive pids s f = (case extract_holder_pid (raw_content f) of
     None \<Rightarrow> False | Some k \<Rightarrow> list_ex (\<lambda>q. pids q = k) (living s))"

lemma holder_pid_positive: "extract_holder_pid body = Some k \<Longrightarrow> 0 < k"
  by (auto simp: extract_holder_pid_def positive_pid_def Let_def split: lock_body.splits option.splits if_splits)

definition too_old :: "int option \<Rightarrow> lock_world \<Rightarrow> lock_file \<Rightarrow> bool" where
  "too_old limit s f \<longleftrightarrow> (case limit of None \<Rightarrow> False | Some a \<Rightarrow> clock_ms s - file_mtime f > a)"

text \<open>What \<open>probeLock\<close> says of a lock.\<close>

definition lock_verdict :: "(nat \<Rightarrow> int) \<Rightarrow> int option \<Rightarrow> lock_world \<Rightarrow> string \<Rightarrow> lock_probe" where
  "lock_verdict pids limit s l = (case sentinels s l of
     None \<Rightarrow> Probe_Absent
   | Some f \<Rightarrow> (case extract_holder_pid (raw_content f) of
       None \<Rightarrow> Probe_Stale ''invalid_pid'' None (Some f)
     | Some k \<Rightarrow> if \<not> holder_alive pids s f then Probe_Stale ''pid_dead'' (Some k) (Some f)
         else if too_old limit s f then Probe_Stale ''age_exceeded'' (Some k) (Some f)
         else Probe_Held k (clock_ms s - file_mtime f) f))"

lemma alone_probe:
  "alone pids p (probe_lock l limit) s = (Inr (lock_verdict pids limit s l), s)"
proof (cases "lock_file_at s (Lock_At l)")
  case None
  then show ?thesis by (simp add: probe_lock_def alone alone_attempt alone_snapshot sentinels_def lock_verdict_def)
next
  case (Some f)
  show ?thesis
  proof (cases "extract_holder_pid (raw_content f)")
    case None
    with Some show ?thesis by (simp add: probe_lock_def alone alone_attempt alone_snapshot sentinels_def lock_verdict_def)
  next
    case (Some k)
    with \<open>lock_file_at s (Lock_At l) = Some f\<close> holder_pid_positive [OF Some] show ?thesis
      by (cases limit) (auto simp: probe_lock_def alone alone_attempt alone_snapshot sentinels_def lock_verdict_def integer_of_def holder_alive_def
          too_old_def Let_def)
  qed
qed

lemma alone_reclaim:
  assumes "calm s" "sentinels s l = Some f"
  obtains s' where "alone pids p (reclaim_stale_lock l (Some f)) s = (Inr True, s')" "leaves_rest s s'"
    "sentinels s' = (sentinels s)(l := None)"
proof -
  let ?n = "next_lock_id s"
  let ?s = "s\<lparr>mutex_made := (mutex_made s)(l := True), mutex_holder := (mutex_holder s)(l \<mapsto> p)\<rparr>"
  let ?s' = "?s\<lparr>minted_by := (minted_by s)(?n := p), next_lock_id := Suc ?n,
    lock_entries := (lock_entries s)(Lock_At l := None, Quarantine l ?n := None)\<rparr>"
  obtain i where i: "lock_entries s (Lock_At l) = Some i"
      "\<lparr>raw_content = fst (lock_inodes s i), file_ino = i, file_mtime = snd (lock_inodes s i)\<rparr> = f"
    using assms(2) by (auto simp: sentinels_def lock_file_at_def)
  let ?run = "bind_task (attempt (read_lock_snapshot (Lock_At l))) (\<lambda>current.
          if current \<noteq> Inr (Some f) then Return False
          else bind_task (act New_Lock_Id) (\<lambda>n.
               bind_task (act (Rename_Away l (number_of n))) (\<lambda>r.
                 case r of
                   Errno e \<Rightarrow> if e = ''ENOENT'' then Return False else Raise e
                 | _ \<Rightarrow> bind_task (attempt (read_lock_snapshot (Quarantine l (number_of n)))) (\<lambda>quarantined.
                     if quarantined \<noteq> Inr (Some f) then
                       bind_task (act (Link_Back l (number_of n))) (\<lambda>r.
                         case r of
                           Errno e \<Rightarrow> if e \<noteq> ''EEXIST'' then Raise e
                             else bind_task (release_lock_raw (Quarantine l (number_of n))) (\<lambda>_. Return False)
                         | _ \<Rightarrow> bind_task (release_lock_raw (Quarantine l (number_of n))) (\<lambda>_. Return False))
                     else bind_task (act (Unlink (Quarantine l (number_of n)))) (\<lambda>r.
                         case r of
                           Errno e \<Rightarrow> if e = ''ENOENT'' then Return False else Raise e
                         | _ \<Rightarrow> Return True)))))"
  have "alone pids p ?run ?s = (Inr True, ?s')"
    using i by (simp add: alone alone_attempt alone_snapshot lock_file_at_def number_of_def)
  from alone_mutex [OF assms(1) this]
  have run: "alone pids p (reclaim_stale_lock l (Some f)) s = (Inr True, ?s'\<lparr>mutex_holder := mutex_holder s\<rparr>)"
    by (simp add: reclaim_stale_lock_def)
  show ?thesis
    by (rule that [OF run]) (use assms(1) in \<open>auto simp: leaves_rest_def calm_def sentinels_def lock_file_at_def fun_eq_iff\<close>)
qed

lemma alone_release:
  assumes "calm s"
  obtains s' where "alone pids p (release_lock (l, f)) s = (Inr (), s')" "leaves_rest s s'"
    "sentinels s' = (if sentinels s l = Some f then (sentinels s)(l := None) else sentinels s)"
proof (cases "lock_entries s (Lock_At l) \<noteq> None \<or> mutex_made s l")
  case True
  let ?s = "s\<lparr>mutex_made := (mutex_made s)(l := True), mutex_holder := (mutex_holder s)(l \<mapsto> p)\<rparr>"
  let ?s' = "if lock_file_at s (Lock_At l) = Some f then ?s\<lparr>lock_entries := (lock_entries s)(Lock_At l := None)\<rparr> else ?s"
  let ?run = "bind_task (attempt (read_lock_snapshot (Lock_At l))) (\<lambda>current.
            if current = Inr (Some f) then release_lock_raw (Lock_At l) else Return ())"
  have "alone pids p ?run ?s = (Inr (), ?s')"
    by (simp add: alone alone_attempt alone_snapshot alone_release_raw)
  from alone_mutex [OF assms this]
  have run: "alone pids p (release_lock (l, f)) s = (Inr (), ?s'\<lparr>mutex_holder := mutex_holder s\<rparr>)"
    using True by (auto simp: release_lock_def alone)
  show ?thesis
    by (rule that [OF run]) (use assms in \<open>auto simp: leaves_rest_def calm_def sentinels_def lock_file_at_def fun_eq_iff\<close>)
next
  case False
  then have "alone pids p (release_lock (l, f)) s = (Inr (), s)" by (simp add: release_lock_def alone)
  then show ?thesis using False assms by (intro that) (auto simp: leaves_rest_def sentinels_def lock_file_at_def)
qed

text \<open>A lock is there for the taking when nobody holds it, its holder is not alive, or, where age counts, it is too old.\<close>

definition available :: "(nat \<Rightarrow> int) \<Rightarrow> int option \<Rightarrow> lock_world \<Rightarrow> string \<Rightarrow> bool" where
  "available pids limit s l \<longleftrightarrow>
     (case sentinels s l of None \<Rightarrow> True | Some f \<Rightarrow> \<not> holder_alive pids s f \<or> too_old limit s f)"

definition own_sentinel :: "(nat \<Rightarrow> int) \<Rightarrow> nat \<Rightarrow> lock_world \<Rightarrow> lock_file \<Rightarrow> bool" where
  "own_sentinel pids p s f \<longleftrightarrow> file_mtime f = clock_ms s \<and> (\<exists>n. raw_content f = Lock_Envelope (Some (pids p)) n)"

lemma leaves_restD:
  assumes "leaves_rest s s'"
  shows "calm s'" "living s' = living s" "clock_ms s' = clock_ms s" "holder_alive pids s' = holder_alive pids s"
    "too_old limit s' = too_old limit s"
  using assms by (auto simp: leaves_rest_def holder_alive_def too_old_def fun_eq_iff split: option.splits)

lemma leaves_rest_trans: "leaves_rest s s' \<Longrightarrow> leaves_rest s' s'' \<Longrightarrow> leaves_rest s s''"
  by (simp add: leaves_rest_def)

lemma available_sentinels: "leaves_rest s s' \<Longrightarrow> sentinels s' l = sentinels s l \<Longrightarrow> available pids limit s' l = available pids limit s l"
  by (simp add: available_def leaves_restD split: option.split)

lemma stale_verdict:
  "stale_snapshot (lock_verdict pids limit s l) =
   (case sentinels s l of None \<Rightarrow> None | Some f \<Rightarrow> if available pids limit s l then Some (Some f) else None)"
  by (auto simp: stale_snapshot_def lock_verdict_def available_def holder_alive_def split: option.split)

text \<open>One pass over a lock: take it, or clear it away when it is stale.\<close>

lemma alone_new_sentinel:
  assumes "calm s"
  obtains own s' where "alone pids p (bind_task create_lock_payload (\<lambda>body. bind_task (try_acquire_lock l body) k)) s = alone pids p (k own) s'"
    "leaves_rest s s'"
    "if sentinels s l = None then \<exists>f. own = Some (l, f) \<and> own_sentinel pids p s f \<and> sentinels s' = (sentinels s)(l \<mapsto> f)
     else own = None \<and> sentinels s' = sentinels s"
proof -
  let ?body = "Lock_Envelope (Some (pids p)) (next_lock_id s)"
  let ?s = "s\<lparr>minted_by := (minted_by s)(next_lock_id s := p), next_lock_id := Suc (next_lock_id s)\<rparr>"
  have same: "sentinels ?s = sentinels s" "leaves_rest s ?s" "clock_ms ?s = clock_ms s"
    using assms by (auto simp: sentinels_def leaves_rest_def calm_def)
  obtain own s' where run: "alone pids p (try_acquire_lock l ?body) ?s = (Inr own, s')" "leaves_rest ?s s'"
    "if sentinels ?s l = None
     then \<exists>f. own = Some (l, f) \<and> raw_content f = ?body \<and> file_mtime f = clock_ms ?s \<and> sentinels s' = (sentinels ?s)(l \<mapsto> f)
     else own = None \<and> sentinels s' = sentinels ?s"
    by (rule alone_acquire [OF leaves_restD(1) [OF same(2)], of pids p l ?body])
  show ?thesis
  proof (rule that)
    show "alone pids p (bind_task create_lock_payload (\<lambda>body. bind_task (try_acquire_lock l body) k)) s = alone pids p (k own) s'"
      using run(1) by (simp add: alone alone_payload)
    show "leaves_rest s s'" using leaves_rest_trans same(2) run(2) .
  qed (use run(3) same in \<open>auto simp: own_sentinel_def split: if_splits\<close>)
qed

lemma alone_sentinel_free:
  assumes m: "m = bind_task create_lock_payload (\<lambda>body. bind_task (try_acquire_lock l body) k)" and "calm s" "sentinels s l = None"
  obtains f s' where "alone pids p m s = alone pids p (k (Some (l, f))) s'"
    "leaves_rest s s'" "own_sentinel pids p s f" "sentinels s' = (sentinels s)(l \<mapsto> f)"
  unfolding m by (rule alone_new_sentinel [OF assms(2), of pids p l k]) (use assms(3) that m in auto)

lemma alone_sentinel_taken:
  assumes m: "m = bind_task create_lock_payload (\<lambda>body. bind_task (try_acquire_lock l body) k)" and "calm s" "sentinels s l = Some f"
  obtains s' where "alone pids p m s = alone pids p (k None) s'"
    "leaves_rest s s'" "sentinels s' = sentinels s"
  unfolding m by (rule alone_new_sentinel [OF assms(2), of pids p l k]) (use assms(3) that m in auto)

lemma alone_barrier_free:
  assumes "calm s" "sentinels s b = None"
  obtains f s' where "alone pids p (barrier_attempts (Suc n) b) s = (Inr (Some (b, f)), s')" "leaves_rest s s'"
    "own_sentinel pids p s f" "sentinels s' = (sentinels s)(b \<mapsto> f)"
proof -
  obtain f s' where "alone pids p (barrier_attempts (Suc n) b) s = alone pids p (Return (Some (b, f))) s'" "leaves_rest s s'"
    "own_sentinel pids p s f" "sentinels s' = (sentinels s)(b \<mapsto> f)"
    by (rule alone_sentinel_free [OF barrier_attempts.simps(2) assms, of pids p n]) (simp only: option.case)
  then show ?thesis by (intro that) simp_all
qed

lemma alone_barrier:
  assumes "calm s"
  obtains own s' where "alone pids p (try_acquire_maintenance_barrier b) s = (Inr own, s')" "leaves_rest s s'"
    "if available pids (Some barrier_stale_after_ms) s b
     then \<exists>f. own = Some (b, f) \<and> own_sentinel pids p s f \<and> sentinels s' = (sentinels s)(b \<mapsto> f)
     else own = None \<and> sentinels s' = sentinels s"
proof (cases "sentinels s b")
  case None
  obtain f s' where "alone pids p (barrier_attempts (Suc 1) b) s = (Inr (Some (b, f)), s')" "leaves_rest s s'"
    "own_sentinel pids p s f" "sentinels s' = (sentinels s)(b \<mapsto> f)"
    by (rule alone_barrier_free [OF assms None])
  then show ?thesis using None
    by (intro that [of "Some (b, f)" s']) (simp_all add: try_acquire_maintenance_barrier_def numeral_2_eq_2 available_def)
next
  case (Some f)
  let ?rest = "bind_task (probe_lock b (Some barrier_stale_after_ms)) (\<lambda>pr.
           case stale_snapshot pr of
             None \<Rightarrow> Return None
           | Some f \<Rightarrow> bind_task (reclaim_stale_lock b f) (\<lambda>gone.
               if \<not> gone then Return None else barrier_attempts (Suc 0) b))"
  have unfold: "try_acquire_maintenance_barrier b = bind_task create_lock_payload (\<lambda>body. bind_task (try_acquire_lock b body) (\<lambda>own.
       case own of Some o' \<Rightarrow> Return (Some o') | None \<Rightarrow> ?rest))"
    unfolding try_acquire_maintenance_barrier_def numeral_2_eq_2 by (rule barrier_attempts.simps)
  obtain s' where o1: "alone pids p (try_acquire_maintenance_barrier b) s = alone pids p ?rest s'"
      and o2: "leaves_rest s s'" and o3: "sentinels s' = sentinels s"
    by (rule alone_sentinel_taken [OF unfold assms Some, of pids p]) (simp only: option.case)
  have av: "available pids (Some barrier_stale_after_ms) s' b = available pids (Some barrier_stale_after_ms) s b"
    using available_sentinels [OF o2] o3 by simp
  show ?thesis
  proof (cases "available pids (Some barrier_stale_after_ms) s b")
    case False
    have "alone pids p ?rest s' = (Inr None, s')"
      by (simp add: alone alone_probe stale_verdict av False o3 Some del: barrier_attempts.simps)
    then show ?thesis using False o1 o2 o3 by (intro that [of None s']) auto
  next
    case True
    obtain s1 where r: "alone pids p (reclaim_stale_lock b (Some f)) s' = (Inr True, s1)" "leaves_rest s' s1"
      "sentinels s1 = (sentinels s')(b := None)"
      by (rule alone_reclaim [OF leaves_restD(1) [OF o2]]) (use o3 Some in auto)
    obtain g s2 where a: "alone pids p (barrier_attempts (Suc 0) b) s1 = (Inr (Some (b, g)), s2)" "leaves_rest s1 s2"
      "own_sentinel pids p s1 g" "sentinels s2 = (sentinels s1)(b \<mapsto> g)"
      by (rule alone_barrier_free [OF leaves_restD(1) [OF r(2)]]) (use r in auto)
    have "alone pids p ?rest s' = (Inr (Some (b, g)), s2)"
      using r a by (simp add: alone alone_probe stale_verdict av True o3 Some del: barrier_attempts.simps)
    moreover have "leaves_rest s s2" by (rule leaves_rest_trans [OF o2 leaves_rest_trans [OF r(2) a(2)]])
    moreover have "own_sentinel pids p s g" using a(3) o2 r(2) by (simp add: own_sentinel_def leaves_rest_def)
    ultimately show ?thesis using True o1 a(4) r(3) o3 by (intro that [of "Some (b, g)" s2]) auto
  qed
qed

section \<open>One attempt at the lease\<close>

lemma run_alone_protected:
  assumes "alone pids p m s = (r, s1)" "leaves_rest s s1" "sentinels s1 b = Some f"
  obtains s2 where "alone pids p (finally_do m (release_lock (b, f))) s = (r, s2)" "leaves_rest s s2"
    "sentinels s2 = (sentinels s1)(b := None)"
  by (rule alone_release [OF leaves_restD(1) [OF assms(2)], of pids p b f])
    (use assms leaves_rest_trans in \<open>auto simp: alone intro!: that\<close>)

text \<open>The inner part of the attempt, under the barrier: take the lease, find it held, or clear a stale one away.\<close>

definition lease_turn :: "string \<Rightarrow> (lock_ownership option + unit) locking" where
  "lease_turn l = bind_task create_lock_payload (\<lambda>body. bind_task (try_acquire_lock l body) (\<lambda>own.
     case own of
       Some o' \<Rightarrow> Return (Inl (Some o'))
     | None \<Rightarrow> bind_task (probe_lock l None) (\<lambda>pr.
         case stale_snapshot pr of
           None \<Rightarrow> Return (Inl None)
         | Some f \<Rightarrow> bind_task (reclaim_stale_lock l f) (\<lambda>gone. Return (if \<not> gone then Inl None else Inr ())))))"

lemma lease_rounds:
  "try_acquire_asset_mutation_lease (Suc n) b l =
     bind_task (try_acquire_maintenance_barrier b) (\<lambda>r. case r of
       None \<Rightarrow> Return None
     | Some release \<Rightarrow> bind_task (finally_do (lease_turn l) (release_lock release))
         (\<lambda>r. case r of Inl result \<Rightarrow> Return result | Inr again \<Rightarrow> try_acquire_asset_mutation_lease n b l))"
  by (simp only: try_acquire_asset_mutation_lease.simps lease_turn_def)

lemma alone_lease_turn:
  assumes "calm s"
  obtains r s' where "alone pids p (lease_turn l) s = (Inr r, s')" "leaves_rest s s'"
    "if sentinels s l = None then \<exists>f. r = Inl (Some (l, f)) \<and> own_sentinel pids p s f \<and> sentinels s' = (sentinels s)(l \<mapsto> f)
     else if available pids None s l then r = Inr () \<and> sentinels s' = (sentinels s)(l := None)
     else r = Inl None \<and> sentinels s' = sentinels s"
proof (cases "sentinels s l")
  case None
  obtain f s' where "alone pids p (lease_turn l) s = alone pids p (Return (Inl (Some (l, f)))) s'" "leaves_rest s s'"
    "own_sentinel pids p s f" "sentinels s' = (sentinels s)(l \<mapsto> f)"
    by (rule alone_sentinel_free [OF lease_turn_def assms None, of pids p]) (simp only: option.case)
  then show ?thesis using None by (intro that [of "Inl (Some (l, f))" s']) simp_all
next
  case (Some f)
  let ?rest = "bind_task (probe_lock l None) (\<lambda>pr.
         case stale_snapshot pr of
           None \<Rightarrow> Return (Inl None)
         | Some f \<Rightarrow> bind_task (reclaim_stale_lock l f) (\<lambda>gone. Return (if \<not> gone then Inl None else Inr ())))"
  obtain s' where o1: "alone pids p (lease_turn l) s = alone pids p ?rest s'" and o2: "leaves_rest s s'" and o3: "sentinels s' = sentinels s"
    by (rule alone_sentinel_taken [OF lease_turn_def assms Some, of pids p]) (simp only: option.case)
  have av: "available pids None s' l = available pids None s l" using available_sentinels [OF o2] o3 by simp
  obtain s1 where r: "alone pids p (reclaim_stale_lock l (Some f)) s' = (Inr True, s1)" "leaves_rest s' s1"
    "sentinels s1 = (sentinels s')(l := None)"
    by (rule alone_reclaim [OF leaves_restD(1) [OF o2]]) (use o3 Some in auto)
  show ?thesis
  proof (cases "available pids None s l")
    case True
    then have "alone pids p ?rest s' = (Inr (Inr ()), s1)" using r by (simp add: alone alone_probe stale_verdict av o3 Some)
    then show ?thesis
      using True o1 Some r(3) o3 leaves_rest_trans [OF o2 r(2)] by (intro that [of "Inr ()" s1]) simp_all
  next
    case False
    then have "alone pids p ?rest s' = (Inr (Inl None), s')" by (simp add: alone alone_probe stale_verdict av o3 Some)
    then show ?thesis using False o1 Some o2 o3 by (intro that [of "Inl None" s']) simp_all
  qed
qed

text \<open>A round: the turn at the lease, between taking the barrier and giving it back.\<close>

lemma alone_lease_round:
  assumes "calm s" "available pids (Some barrier_stale_after_ms) s b" "b \<noteq> l"
  obtains r s' where "alone pids p (try_acquire_asset_mutation_lease (Suc n) b l) s =
      alone pids p (case r of Inl result \<Rightarrow> Return result | Inr again \<Rightarrow> try_acquire_asset_mutation_lease n b l) s'" "leaves_rest s s'"
    "if sentinels s l = None then \<exists>f. r = Inl (Some (l, f)) \<and> own_sentinel pids p s f \<and> sentinels s' = (sentinels s)(b := None, l \<mapsto> f)
     else if available pids None s l then r = Inr () \<and> sentinels s' = (sentinels s)(b := None, l := None)
     else r = Inl None \<and> sentinels s' = (sentinels s)(b := None)"
proof -
  obtain own s1 where b1: "alone pids p (try_acquire_maintenance_barrier b) s = (Inr own, s1)" "leaves_rest s s1"
    "if available pids (Some barrier_stale_after_ms) s b
     then \<exists>f. own = Some (b, f) \<and> own_sentinel pids p s f \<and> sentinels s1 = (sentinels s)(b \<mapsto> f)
     else own = None \<and> sentinels s1 = sentinels s" by (rule alone_barrier [OF assms(1)])
  then obtain g where g: "own = Some (b, g)" "sentinels s1 = (sentinels s)(b \<mapsto> g)" using assms(2) by auto
  obtain r s2 where t: "alone pids p (lease_turn l) s1 = (Inr r, s2)" "leaves_rest s1 s2"
    "if sentinels s1 l = None then \<exists>f. r = Inl (Some (l, f)) \<and> own_sentinel pids p s1 f \<and> sentinels s2 = (sentinels s1)(l \<mapsto> f)
     else if available pids None s1 l then r = Inr () \<and> sentinels s2 = (sentinels s1)(l := None)
     else r = Inl None \<and> sentinels s2 = sentinels s1" by (rule alone_lease_turn [OF leaves_restD(1) [OF b1(2)]])
  have "sentinels s2 b = Some g" using t(3) g(2) assms(3) by (auto split: if_splits)
  then obtain s3 where f: "alone pids p (finally_do (lease_turn l) (release_lock (b, g))) s1 = (Inr r, s3)" "leaves_rest s1 s3"
    "sentinels s3 = (sentinels s2)(b := None)" using run_alone_protected [OF t(1,2)] by metis
  have same: "sentinels s1 l = sentinels s l" "available pids None s1 l = available pids None s l"
      "own_sentinel pids p s1 = own_sentinel pids p s"
    using g(2) assms(3) available_sentinels [OF b1(2)] leaves_restD(3) [OF b1(2)] by (simp_all add: own_sentinel_def fun_eq_iff)
  show ?thesis
  proof (rule that [of r s3])
    show "alone pids p (try_acquire_asset_mutation_lease (Suc n) b l) s =
      alone pids p (case r of Inl result \<Rightarrow> Return result | Inr again \<Rightarrow> try_acquire_asset_mutation_lease n b l) s3"
      using b1(1) g(1) f(1) by (simp add: lease_rounds alone del: try_acquire_asset_mutation_lease.simps)
    show "leaves_rest s s3" by (rule leaves_rest_trans [OF b1(2) f(2)])
  qed (use t(3) f(3) g(2) assms(3) same in \<open>auto simp: fun_eq_iff split: if_splits\<close>)
qed

text \<open>One undisturbed attempt at the asset-mutation lease, with the barrier available, succeeds exactly when the
  lease has no sentinel or its sentinel names no living holder; then the lease's sentinel names the caller.  Otherwise it reports that the
  lease is held and leaves its sentinel as it is.  Either way the barrier is free afterwards and no other lock is touched.\<close>

theorem lease_attempt_decides:
  assumes "calm s" "b \<noteq> l" "available pids (Some barrier_stale_after_ms) s b"
  shows "\<exists>own s'. alone pids p (try_acquire_asset_mutation_lease (Suc (Suc n)) b l) s = (Inr own, s') \<and>
    (if available pids None s l
     then \<exists>f. own = Some (l, f) \<and> own_sentinel pids p s f \<and> sentinels s' = (sentinels s)(b := None, l \<mapsto> f)
     else own = None \<and> sentinels s' = (sentinels s)(b := None))"
proof -
  obtain r s1 where 1: "alone pids p (try_acquire_asset_mutation_lease (Suc (Suc n)) b l) s =
      alone pids p (case r of Inl result \<Rightarrow> Return result | Inr again \<Rightarrow> try_acquire_asset_mutation_lease (Suc n) b l) s1" "leaves_rest s s1"
    "if sentinels s l = None then \<exists>f. r = Inl (Some (l, f)) \<and> own_sentinel pids p s f \<and> sentinels s1 = (sentinels s)(b := None, l \<mapsto> f)
     else if available pids None s l then r = Inr () \<and> sentinels s1 = (sentinels s)(b := None, l := None)
     else r = Inl None \<and> sentinels s1 = (sentinels s)(b := None)" by (rule alone_lease_round [OF assms(1,3,2)])
  show ?thesis
  proof (cases "sentinels s l = None \<or> \<not> available pids None s l")
    case True
    then show ?thesis using 1 by (auto simp: available_def split: if_splits)
  next
    case False
    have clear: "sentinels s1 = (sentinels s)(b := None, l := None)" using 1(3) False by simp
    have open_b: "available pids (Some barrier_stale_after_ms) s1 b" using clear assms(2) by (simp add: available_def)
    obtain r' s2 where 2: "alone pids p (try_acquire_asset_mutation_lease (Suc n) b l) s1 =
      alone pids p (case r' of Inl result \<Rightarrow> Return result | Inr again \<Rightarrow> try_acquire_asset_mutation_lease n b l) s2" "leaves_rest s1 s2"
      "if sentinels s1 l = None then \<exists>f. r' = Inl (Some (l, f)) \<and> own_sentinel pids p s1 f \<and> sentinels s2 = (sentinels s1)(b := None, l \<mapsto> f)
       else if available pids None s1 l then r' = Inr () \<and> sentinels s2 = (sentinels s1)(b := None, l := None)
       else r' = Inl None \<and> sentinels s2 = (sentinels s1)(b := None)"
      by (rule alone_lease_round [OF leaves_restD(1) [OF 1(2)] open_b assms(2)])
    then obtain f where "r' = Inl (Some (l, f))" "own_sentinel pids p s f" "sentinels s2 = (sentinels s)(b := None, l \<mapsto> f)"
      using clear leaves_restD(3) [OF 1(2)] assms(2) by (auto simp: own_sentinel_def fun_upd_twist)
    then show ?thesis using 1(1,3) 2(1) False by simp
  qed
qed

text \<open>A store with a lease that the process with id 7, if it lives, holds.\<close>

definition leased_world :: "nat list \<Rightarrow> lock_world" where
  "leased_world alive = \<lparr>lock_entries = [Lock_At ''l'' \<mapsto> 0], lock_inodes = (\<lambda>_. (Lock_Text ''7'', 0)), next_lock_ino = 1,
     mutex_made = \<lambda>_. False, mutex_holder = \<lambda>_. None, born = 9, living = alive, next_lock_id = 0, minted_by = \<lambda>_. 0,
     clock_ms = 40, inside = []\<rparr>"

lemma leased_calm: "calm (leased_world alive)"
  by (simp add: calm_def leased_world_def)

lemma lease_attempt_decides_witness:
  "(\<exists>own s'. alone int 5 (try_acquire_asset_mutation_lease 2 ''b'' ''l'') (leased_world [5, 7]) = (Inr own, s') \<and>
      own = None \<and> sentinels s' = sentinels (leased_world [5, 7])) \<and>
   (\<exists>own f s'. alone int 5 (try_acquire_asset_mutation_lease 2 ''b'' ''l'') (leased_world [5, 6]) = (Inr own, s') \<and>
      own = Some (''l'', f) \<and> sentinels s' ''l'' = Some f \<and> file_mtime f = 40)"
proof -
  have b: "available int (Some barrier_stale_after_ms) (leased_world alive) ''b''" "sentinels (leased_world alive) ''b'' = None" for alive
    by (simp_all add: available_def sentinels_def leased_world_def lock_file_at_def)
  have "\<not> available int None (leased_world [5, 7]) ''l''" "available int None (leased_world [5, 6]) ''l''" "clock_ms (leased_world [5, 6]) = 40"
    by code_simp+
  then show ?thesis
    using lease_attempt_decides [OF leased_calm [of "[5, 7]"] _ b(1), where l = "''l''" and p = 5 and n = 0] lease_attempt_decides [OF leased_calm [of "[5, 6]"] _ b(1), where l = "''l''" and p = 5 and n = 0] b(2)
    by (auto simp: own_sentinel_def fun_upd_idem numeral_2_eq_2 simp del: try_acquire_asset_mutation_lease.simps)
qed

text \<open>Releasing a lock removes its sentinel exactly when that still is the one the releasing process acquired: the same text in the
  same file.  A sentinel that somebody put there since then stays, and so does every other.\<close>

theorem release_lock_removes_only_its_own:
  assumes "calm s"
  shows "\<exists>s'. alone pids p (release_lock (l, f)) s = (Inr (), s') \<and>
    sentinels s' = (if sentinels s l = Some f then (sentinels s)(l := None) else sentinels s)"
  by (rule alone_release [OF assms, of pids p l f]) blast

lemma release_lock_removes_only_its_own_witness:
  "\<exists>s'. alone int 5 (release_lock (''l'', \<lparr>raw_content = Lock_Text ''5'', file_ino = 0, file_mtime = 0\<rparr>)) (leased_world [5, 7]) = (Inr (), s') \<and>
     sentinels s' = sentinels (leased_world [5, 7])"
  using release_lock_removes_only_its_own [OF leased_calm, of int 5 "''l''" "\<lparr>raw_content = Lock_Text ''5'', file_ino = 0, file_mtime = 0\<rparr>" "[5, 7]"]
  by (simp add: sentinels_def leased_world_def lock_file_at_def)

end
