(* ===== verification/Json_Schema.thy ===== *)
theory Json_Schema
  imports Js_Prelude Complex_Main
begin

text \<open>
  JSON values and the schema subset of \<^verbatim>\<open>src/core/json-schema.ts\<close>: the validator of values and the checker of schema
  definitions.  A number is the rational a finite double stands for, and an object is its list of entries in the order the
  program enumerates them.  Error texts are kept as structured messages.
\<close>

section \<open>JSON values\<close>

datatype json = JNull | JBool bool | JNum rat | JStr string | JArr "json list" | JObj "(string \<times> json) list"

type_synonym json_object = "(string \<times> json) list"

definition is_record :: "json \<Rightarrow> bool" where
  "is_record v \<longleftrightarrow> (case v of JObj fs \<Rightarrow> True | _ \<Rightarrow> False)"

text \<open>\<open>schema[keyword]\<close>, with \<open>None\<close> for \<open>undefined\<close>.\<close>

definition field :: "json_object \<Rightarrow> string \<Rightarrow> json option" where
  "field obj key = map_of obj key"

definition has_own :: "json_object \<Rightarrow> string \<Rightarrow> bool" where
  "has_own obj key \<longleftrightarrow> field obj key \<noteq> None"

definition is_integer :: "rat \<Rightarrow> bool" where
  "is_integer r \<longleftrightarrow> of_int \<lfloor>r\<rfloor> = r"

fun type_of :: "json \<Rightarrow> string" where
  "type_of JNull = ''null''"
| "type_of (JArr xs) = ''array''"
| "type_of (JStr s) = ''string''"
| "type_of (JBool b) = ''boolean''"
| "type_of (JNum r) = (if is_integer r then ''integer'' else ''number'')"
| "type_of (JObj fs) = ''object''"

definition matches_type :: "string \<Rightarrow> string \<Rightarrow> bool" where
  "matches_type actual expected \<longleftrightarrow> expected = actual \<or> (expected = ''number'' \<and> actual = ''integer'')"

text \<open>\<open>===\<close> between a value and a member of the schema: two arrays or objects of different texts are never the same one.\<close>

fun strict_equal :: "json \<Rightarrow> json \<Rightarrow> bool" where
  "strict_equal JNull JNull = True"
| "strict_equal (JBool a) (JBool b) = (a = b)"
| "strict_equal (JNum a) (JNum b) = (a = b)"
| "strict_equal (JStr a) (JStr b) = (a = b)"
| "strict_equal _ _ = False"

section \<open>Validation\<close>

definition max_definition_depth :: nat where
  "max_definition_depth = 64"

text \<open>A message with the path it is prefixed with.  An echoed value is absent when values are redacted.\<close>

datatype complaint = Complaint string problem
  and problem =
    Depth_Exceeded
  | Type_Mismatch "string list" string
  | Not_In_Enum "json option" "json list"
  | Matches_None nat string "(nat \<times> complaint option) list" nat
  | Matches_Several "nat list"
  | Matches_Not
  | Too_Short rat | Too_Long rat
  | Below_Minimum "rat option" rat | Above_Maximum "rat option" rat
  | Too_Few_Items rat | Too_Many_Items rat
  | Missing_Property string | Unexpected_Property string

definition combinator_branches :: "json_object \<Rightarrow> string \<Rightarrow> json_object list" where
  "combinator_branches schema keyword = (case field schema keyword of
     Some (JArr xs) \<Rightarrow> List.map_filter (\<lambda>x. case x of JObj s \<Rightarrow> Some s | _ \<Rightarrow> None) xs
   | _ \<Rightarrow> [])"

definition first_error :: "complaint list \<Rightarrow> complaint option" where
  "first_error es = (case es of [] \<Rightarrow> None | e # rest \<Rightarrow> Some e)"

text \<open>The branches that fail, with their first error, of which three are shown, and the positions of those that match.\<close>

definition summarize_branch_failures :: "(nat \<times> complaint list) list \<Rightarrow> (nat \<times> complaint option) list \<times> nat" where
  "summarize_branch_failures failures =
     (map (\<lambda>(i, es). (i + 1, first_error es)) (take 3 failures), length failures - length (take 3 failures))"

definition alternatives :: "string \<Rightarrow> string \<Rightarrow> complaint list list \<Rightarrow> complaint list" where
  "alternatives path keyword results =
     (if results = [] then []
      else let numbered = enumerate 0 results;
               matched = map (\<lambda>(i, es). i + 1) (filter (\<lambda>(i, es). es = []) numbered);
               failures = filter (\<lambda>(i, es). es \<noteq> []) numbered
           in if matched = [] then
                (case summarize_branch_failures failures of (shown, more) \<Rightarrow>
                   [Complaint path (Matches_None (length results) keyword shown more)])
              else if keyword = ''oneOf'' \<and> length matched > 1 then [Complaint path (Matches_Several matched)]
              else [])"

definition declared_types :: "json_object \<Rightarrow> string list" where
  "declared_types schema = (case field schema ''type'' of
     Some (JStr t) \<Rightarrow> [t]
   | Some (JArr ts) \<Rightarrow> List.map_filter (\<lambda>t. case t of JStr s \<Rightarrow> Some s | _ \<Rightarrow> None) ts
   | _ \<Rightarrow> [])"

definition allowed_values :: "json_object \<Rightarrow> json list" where
  "allowed_values schema = (case field schema ''enum'' of Some (JArr xs) \<Rightarrow> xs | _ \<Rightarrow> [])"

definition number_field :: "json_object \<Rightarrow> string \<Rightarrow> rat option" where
  "number_field schema keyword = (case field schema keyword of Some (JNum r) \<Rightarrow> Some r | _ \<Rightarrow> None)"

definition object_field :: "json_object \<Rightarrow> string \<Rightarrow> json_object option" where
  "object_field schema keyword = (case field schema keyword of Some (JObj fs) \<Rightarrow> Some fs | _ \<Rightarrow> None)"

text \<open>A bound that is there and violated.\<close>

definition bound_errors :: "string \<Rightarrow> rat option \<Rightarrow> (rat \<Rightarrow> bool) \<Rightarrow> (rat \<Rightarrow> problem) \<Rightarrow> complaint list" where
  "bound_errors path bound violated problem = (case bound of
     Some b \<Rightarrow> if violated b then [Complaint path (problem b)] else [] | None \<Rightarrow> [])"

definition required_errors :: "string \<Rightarrow> json_object \<Rightarrow> json_object \<Rightarrow> complaint list" where
  "required_errors path schema obj = (case field schema ''required'' of
     Some (JArr keys) \<Rightarrow> concat (map (\<lambda>k. case k of
         JStr key \<Rightarrow> if has_own obj key then [] else [Complaint path (Missing_Property key)] | _ \<Rightarrow> []) keys)
   | _ \<Rightarrow> [])"

definition unexpected_errors :: "string \<Rightarrow> json_object \<Rightarrow> json_object \<Rightarrow> complaint list" where
  "unexpected_errors path schema obj =
     (if field schema ''additionalProperties'' = Some (JBool False) then
        concat (map (\<lambda>(key, v). case object_field schema ''properties'' of
            Some ps \<Rightarrow> if has_own ps key then [] else [Complaint path (Unexpected_Property key)]
          | None \<Rightarrow> [Complaint path (Unexpected_Property key)]) obj)
      else [])"

text \<open>
  \<open>validateNode\<close>: the first argument is how many more levels the depth limit admits, so it is
  \<open>MAX_DEFINITION_DEPTH + 1 - depth\<close>.
\<close>

primrec validate_node :: "nat \<Rightarrow> bool \<Rightarrow> json \<Rightarrow> json_object \<Rightarrow> string \<Rightarrow> complaint list" where
  "validate_node 0 redact value schema path = [Complaint path Depth_Exceeded]"
| "validate_node (Suc n) redact value schema path =
     (let actual = type_of value;
          expected = declared_types schema;
          allowed = allowed_values schema
      in if expected \<noteq> [] \<and> \<not> list_ex (matches_type actual) expected then [Complaint path (Type_Mismatch expected actual)]
         else if allowed \<noteq> [] \<and> \<not> list_ex (\<lambda>c. strict_equal c value) allowed
         then [Complaint path (Not_In_Enum (if redact then None else Some value) allowed)]
         else
           concat (map (\<lambda>branch. validate_node n redact value branch path) (combinator_branches schema ''allOf''))
         @ alternatives path ''anyOf'' (map (\<lambda>branch. validate_node n redact value branch path) (combinator_branches schema ''anyOf''))
         @ alternatives path ''oneOf'' (map (\<lambda>branch. validate_node n redact value branch path) (combinator_branches schema ''oneOf''))
         @ (case object_field schema ''not'' of
              Some s \<Rightarrow> if validate_node n redact value s path = [] then [Complaint path Matches_Not] else [] | None \<Rightarrow> [])
         @ (case value of
              JStr s \<Rightarrow>
                bound_errors path (number_field schema ''minLength'') (\<lambda>b. of_nat (length s) < b) Too_Short
              @ bound_errors path (number_field schema ''maxLength'') (\<lambda>b. of_nat (length s) > b) Too_Long
            | JNum r \<Rightarrow>
                bound_errors path (number_field schema ''minimum'') (\<lambda>b. r < b) (Below_Minimum (if redact then None else Some r))
              @ bound_errors path (number_field schema ''maximum'') (\<lambda>b. r > b) (Above_Maximum (if redact then None else Some r))
            | JArr xs \<Rightarrow>
                bound_errors path (number_field schema ''minItems'') (\<lambda>b. of_nat (length xs) < b) Too_Few_Items
              @ bound_errors path (number_field schema ''maxItems'') (\<lambda>b. of_nat (length xs) > b) Too_Many_Items
              @ (case object_field schema ''items'' of
                   Some s \<Rightarrow> concat (map (\<lambda>(i, x). validate_node n redact x s (path @ ''['' @ nat_to_string i @ '']'')) (enumerate 0 xs))
                 | None \<Rightarrow> [])
            | JObj obj \<Rightarrow>
                required_errors path schema obj
              @ (case object_field schema ''properties'' of
                   Some ps \<Rightarrow> concat (map (\<lambda>(key, p). case field obj key of
                       None \<Rightarrow> []
                     | Some v \<Rightarrow> (case p of JObj s \<Rightarrow> validate_node n redact v s (path @ ''.'' @ key) | _ \<Rightarrow> [])) ps)
                 | None \<Rightarrow> [])
              @ unexpected_errors path schema obj
            | _ \<Rightarrow> []))"

definition validate_json_schema_subset :: "json \<Rightarrow> json_object \<Rightarrow> bool \<Rightarrow> complaint list" where
  "validate_json_schema_subset value schema redact = validate_node (Suc max_definition_depth) redact value schema ''$''"

section \<open>Checking a definition\<close>

datatype path_segment = Key string | At nat

datatype issue_kind = Malformed | Unsupported

record schema_issue =
  issue_path :: "path_segment list"
  issue_keyword :: string
  issue_kind_of :: issue_kind

definition segment_text :: "path_segment \<Rightarrow> string" where
  "segment_text seg = (case seg of Key k \<Rightarrow> k | At i \<Rightarrow> nat_to_string i)"

definition pointer_for :: "path_segment list \<Rightarrow> string" where
  "pointer_for path = (if path = [] then ''$'' else ''$.'' @ join_with ''.'' (map segment_text path))"

definition issue :: "path_segment list \<Rightarrow> string \<Rightarrow> issue_kind \<Rightarrow> schema_issue" where
  "issue path keyword kind = \<lparr>issue_path = path, issue_keyword = keyword, issue_kind_of = kind\<rparr>"

definition known_type_names :: "string list" where
  "known_type_names = [''string'', ''number'', ''integer'', ''boolean'', ''object'', ''array'', ''null'']"

definition unsupported_keywords :: "string list" where
  "unsupported_keywords = [''$ref'', ''$defs'', ''definitions'', ''$anchor'', ''$dynamicRef'', ''$dynamicAnchor'', ''if'', ''then'',
     ''else'', ''const'', ''pattern'', ''format'', ''patternProperties'', ''propertyNames'', ''additionalItems'', ''prefixItems'',
     ''contains'', ''minContains'', ''maxContains'', ''uniqueItems'', ''multipleOf'', ''exclusiveMinimum'', ''exclusiveMaximum'',
     ''minProperties'', ''maxProperties'', ''dependencies'', ''dependentRequired'', ''dependentSchemas'', ''unevaluatedItems'',
     ''unevaluatedProperties'', ''contentEncoding'', ''contentMediaType'', ''contentSchema'']"

definition is_supported_enum_value :: "json \<Rightarrow> bool" where
  "is_supported_enum_value v \<longleftrightarrow> (case v of JArr xs \<Rightarrow> False | JObj fs \<Rightarrow> False | _ \<Rightarrow> True)"

definition type_name_issues :: "path_segment list \<Rightarrow> json \<Rightarrow> schema_issue list" where
  "type_name_issues path name = (case name of
     JStr t \<Rightarrow> if t \<in> set known_type_names then [] else [issue path ''type'' Malformed]
   | _ \<Rightarrow> [issue path ''type'' Malformed])"

definition type_issues :: "path_segment list \<Rightarrow> json_object \<Rightarrow> schema_issue list" where
  "type_issues path schema = (case field schema ''type'' of
     None \<Rightarrow> []
   | Some (JArr []) \<Rightarrow> [issue (path @ [Key ''type'']) ''type'' Malformed]
   | Some (JArr names) \<Rightarrow> concat (map (\<lambda>(i, name). type_name_issues (path @ [Key ''type'', At i]) name) (enumerate 0 names))
   | Some name \<Rightarrow> type_name_issues (path @ [Key ''type'']) name)"

definition enum_issues :: "path_segment list \<Rightarrow> json_object \<Rightarrow> schema_issue list" where
  "enum_issues path schema = (case field schema ''enum'' of
     None \<Rightarrow> []
   | Some (JArr (x # xs)) \<Rightarrow> concat (map (\<lambda>(i, v).
       if is_supported_enum_value v then [] else [issue (path @ [Key ''enum'', At i]) ''enum'' Unsupported]) (enumerate 0 (x # xs)))
   | _ \<Rightarrow> [issue (path @ [Key ''enum'']) ''enum'' Malformed])"

definition required_issues :: "path_segment list \<Rightarrow> json_object \<Rightarrow> schema_issue list" where
  "required_issues path schema = (case field schema ''required'' of
     None \<Rightarrow> []
   | Some (JArr keys) \<Rightarrow> if list_all (\<lambda>k. case k of JStr s \<Rightarrow> True | _ \<Rightarrow> False) keys then []
       else [issue (path @ [Key ''required'']) ''required'' Malformed]
   | _ \<Rightarrow> [issue (path @ [Key ''required'']) ''required'' Malformed])"

definition additional_issues :: "path_segment list \<Rightarrow> json_object \<Rightarrow> schema_issue list" where
  "additional_issues path schema = (case field schema ''additionalProperties'' of
     None \<Rightarrow> []
   | Some (JBool b) \<Rightarrow> []
   | Some (JObj fs) \<Rightarrow> [issue (path @ [Key ''additionalProperties'']) ''additionalProperties'' Unsupported]
   | _ \<Rightarrow> [issue (path @ [Key ''additionalProperties'']) ''additionalProperties'' Malformed])"

definition size_issues :: "path_segment list \<Rightarrow> json_object \<Rightarrow> schema_issue list" where
  "size_issues path schema = concat (map (\<lambda>keyword. case field schema keyword of
      None \<Rightarrow> []
    | Some (JNum r) \<Rightarrow> if is_integer r \<and> r \<ge> 0 then [] else [issue (path @ [Key keyword]) keyword Malformed]
    | _ \<Rightarrow> [issue (path @ [Key keyword]) keyword Malformed]) [''minItems'', ''maxItems'', ''minLength'', ''maxLength''])"

definition range_issues :: "path_segment list \<Rightarrow> json_object \<Rightarrow> schema_issue list" where
  "range_issues path schema = concat (map (\<lambda>keyword. case field schema keyword of
      None \<Rightarrow> []
    | Some (JNum r) \<Rightarrow> []
    | _ \<Rightarrow> [issue (path @ [Key keyword]) keyword Malformed]) [''minimum'', ''maximum''])"

primrec check_definition_node :: "nat \<Rightarrow> json_object \<Rightarrow> path_segment list \<Rightarrow> schema_issue list" where
  "check_definition_node 0 schema path = [issue path ''(depth)'' Malformed]"
| "check_definition_node (Suc n) schema path =
     map (\<lambda>(keyword, v). issue (path @ [Key keyword]) keyword Unsupported)
       (filter (\<lambda>(keyword, v). keyword \<in> set unsupported_keywords) schema)
   @ type_issues path schema
   @ enum_issues path schema
   @ concat (map (\<lambda>keyword. case field schema keyword of
         None \<Rightarrow> []
       | Some (JArr (b # bs)) \<Rightarrow> concat (map (\<lambda>(i, branch). case branch of
           JObj s \<Rightarrow> check_definition_node n s (path @ [Key keyword, At i])
         | _ \<Rightarrow> [issue (path @ [Key keyword, At i]) keyword Malformed]) (enumerate 0 (b # bs)))
       | _ \<Rightarrow> [issue (path @ [Key keyword]) keyword Malformed]) [''allOf'', ''anyOf'', ''oneOf''])
   @ (case field schema ''not'' of
        None \<Rightarrow> []
      | Some (JObj s) \<Rightarrow> check_definition_node n s (path @ [Key ''not''])
      | _ \<Rightarrow> [issue (path @ [Key ''not'']) ''not'' Malformed])
   @ required_issues path schema
   @ (case field schema ''properties'' of
        None \<Rightarrow> []
      | Some (JObj ps) \<Rightarrow> concat (map (\<lambda>(key, p). case p of
          JObj s \<Rightarrow> check_definition_node n s (path @ [Key ''properties'', Key key])
        | _ \<Rightarrow> [issue (path @ [Key ''properties'', Key key]) ''properties'' Malformed]) ps)
      | _ \<Rightarrow> [issue (path @ [Key ''properties'']) ''properties'' Malformed])
   @ (case field schema ''items'' of
        None \<Rightarrow> []
      | Some (JObj s) \<Rightarrow> check_definition_node n s (path @ [Key ''items''])
      | Some (JArr xs) \<Rightarrow> [issue (path @ [Key ''items'']) ''items'' Unsupported]
      | _ \<Rightarrow> [issue (path @ [Key ''items'']) ''items'' Malformed])
   @ additional_issues path schema
   @ size_issues path schema
   @ range_issues path schema"

definition check_json_schema_definition :: "json_object \<Rightarrow> schema_issue list" where
  "check_json_schema_definition schema = check_definition_node (Suc max_definition_depth) schema []"

end
