(* ===== verification/Schema_Meaning.thy ===== *)
theory Schema_Meaning
  imports Json_Schema
begin

text \<open>
  What a schema of the subset means: a schema object is read into a tree of constraints, the tree is given the standard meaning of
  its keywords, and the checker and the validator of \<open>Json_Schema\<close> are shown to agree with both.
\<close>

section \<open>Meaning\<close>

datatype schema = Schema
  (types_of: "string list")
  (enum_of: "json list option")
  (all_of: "schema list") (any_of: "schema list") (one_of: "schema list")
  (not_of: "schema option")
  (min_length: "nat option") (max_length: "nat option")
  (minimum: "rat option") (maximum: "rat option")
  (min_items: "nat option") (max_items: "nat option")
  (items_of: "schema option")
  (required_of: "string list")
  (properties_of: "(string \<times> schema) list")
  (closed: bool)

definition at_least :: "('a::linorder) option \<Rightarrow> 'a \<Rightarrow> bool" where
  "at_least bound x \<longleftrightarrow> (case bound of None \<Rightarrow> True | Some b \<Rightarrow> b \<le> x)"

definition at_most :: "('a::linorder) option \<Rightarrow> 'a \<Rightarrow> bool" where
  "at_most bound x \<longleftrightarrow> (case bound of None \<Rightarrow> True | Some b \<Rightarrow> x \<le> b)"

lemma branch_size: "s \<in> set ss \<Longrightarrow> size (s :: schema) \<le> size_list size ss"
  by (induction ss) auto

lemma property_size: "(k, s) \<in> set ps \<Longrightarrow> size (s :: schema) \<le> size_list (size_prod (\<lambda>x. 0) size) ps"
  by (induction ps) auto

function accepts :: "schema \<Rightarrow> json \<Rightarrow> bool" where
  "accepts (Schema ts en alls anys ones no minl maxl minv maxv mini maxi it req props cl) v \<longleftrightarrow>
     (ts = [] \<or> list_ex (matches_type (type_of v)) ts)
   \<and> (case en of None \<Rightarrow> True | Some xs \<Rightarrow> v \<in> set xs)
   \<and> (\<forall>s \<in> set alls. accepts s v)
   \<and> (anys = [] \<or> (\<exists>s \<in> set anys. accepts s v))
   \<and> (ones = [] \<or> length (filter (\<lambda>s. accepts s v) ones) = 1)
   \<and> (case no of None \<Rightarrow> True | Some s \<Rightarrow> \<not> accepts s v)
   \<and> (case v of
        JStr s \<Rightarrow> at_least minl (length s) \<and> at_most maxl (length s)
      | JNum r \<Rightarrow> at_least minv r \<and> at_most maxv r
      | JArr xs \<Rightarrow> at_least mini (length xs) \<and> at_most maxi (length xs)
          \<and> (case it of None \<Rightarrow> True | Some s \<Rightarrow> \<forall>x \<in> set xs. accepts s x)
      | JObj obj \<Rightarrow> (\<forall>k \<in> set req. has_own obj k)
          \<and> (\<forall>(k, s) \<in> set props. case field obj k of None \<Rightarrow> True | Some x \<Rightarrow> accepts s x)
          \<and> (cl \<longrightarrow> (\<forall>(k, x) \<in> set obj. k \<in> fst ` set props))
      | _ \<Rightarrow> True)"
  by pat_completeness auto
termination
proof (relation "measure (\<lambda>(s, v). size s)", goal_cases)
  case 1
  show ?case by simp
qed (auto dest!: branch_size property_size)

declare accepts.simps [simp del]

section \<open>Reading a schema\<close>

fun strings_in :: "json list \<Rightarrow> string list option" where
  "strings_in [] = Some []"
| "strings_in (JStr s # xs) = map_option (Cons s) (strings_in xs)"
| "strings_in (x # xs) = None"

definition read_types :: "json_object \<Rightarrow> string list option" where
  "read_types s = (case (case field s ''type'' of None \<Rightarrow> Some [] | Some (JArr []) \<Rightarrow> None | Some (JArr xs) \<Rightarrow> strings_in xs
       | Some x \<Rightarrow> strings_in [x]) of
     None \<Rightarrow> None | Some ts \<Rightarrow> if set ts \<subseteq> set known_type_names then Some ts else None)"

definition read_enum :: "json_object \<Rightarrow> json list option option" where
  "read_enum s = (case field s ''enum'' of
     None \<Rightarrow> Some None
   | Some (JArr (x # xs)) \<Rightarrow> if list_all is_supported_enum_value (x # xs) then Some (Some (x # xs)) else None
   | _ \<Rightarrow> None)"

definition read_branches :: "(json_object \<Rightarrow> schema option) \<Rightarrow> json_object \<Rightarrow> string \<Rightarrow> schema list option" where
  "read_branches f s keyword = (case field s keyword of
     None \<Rightarrow> Some []
   | Some (JArr (x # xs)) \<Rightarrow> those (map (\<lambda>x. case x of JObj o' \<Rightarrow> f o' | _ \<Rightarrow> None) (x # xs))
   | _ \<Rightarrow> None)"

definition read_sub :: "(json_object \<Rightarrow> schema option) \<Rightarrow> json_object \<Rightarrow> string \<Rightarrow> schema option option" where
  "read_sub f s keyword = (case field s keyword of
     None \<Rightarrow> Some None | Some (JObj o') \<Rightarrow> map_option Some (f o') | _ \<Rightarrow> None)"

definition read_size :: "json_object \<Rightarrow> string \<Rightarrow> nat option option" where
  "read_size s keyword = (case field s keyword of
     None \<Rightarrow> Some None
   | Some (JNum r) \<Rightarrow> if is_integer r \<and> r \<ge> 0 then Some (Some (nat \<lfloor>r\<rfloor>)) else None
   | _ \<Rightarrow> None)"

definition read_number :: "json_object \<Rightarrow> string \<Rightarrow> rat option option" where
  "read_number s keyword = (case field s keyword of None \<Rightarrow> Some None | Some (JNum r) \<Rightarrow> Some (Some r) | _ \<Rightarrow> None)"

definition read_required :: "json_object \<Rightarrow> string list option" where
  "read_required s = (case field s ''required'' of None \<Rightarrow> Some [] | Some (JArr xs) \<Rightarrow> strings_in xs | _ \<Rightarrow> None)"

definition read_properties :: "(json_object \<Rightarrow> schema option) \<Rightarrow> json_object \<Rightarrow> (string \<times> schema) list option" where
  "read_properties f s = (case field s ''properties'' of
     None \<Rightarrow> Some []
   | Some (JObj ps) \<Rightarrow> those (map (\<lambda>(k, x). case x of JObj o' \<Rightarrow> map_option (Pair k) (f o') | _ \<Rightarrow> None) ps)
   | _ \<Rightarrow> None)"

definition read_closed :: "json_object \<Rightarrow> bool option" where
  "read_closed s = (case field s ''additionalProperties'' of None \<Rightarrow> Some False | Some (JBool b) \<Rightarrow> Some (\<not> b) | _ \<Rightarrow> None)"

text \<open>The meaning of a schema object that uses only supported keywords, each in its proper form, within \<open>n\<close> levels.\<close>

primrec meaning :: "nat \<Rightarrow> json_object \<Rightarrow> schema option" where
  "meaning 0 s = None"
| "meaning (Suc n) s =
     (if list_ex (\<lambda>(k, x). k \<in> set unsupported_keywords) s then None else
      Option.bind (read_types s) (\<lambda>ts. Option.bind (read_enum s) (\<lambda>en.
      Option.bind (read_branches (\<lambda>o'. meaning n o') s ''allOf'') (\<lambda>alls.
      Option.bind (read_branches (\<lambda>o'. meaning n o') s ''anyOf'') (\<lambda>anys.
      Option.bind (read_branches (\<lambda>o'. meaning n o') s ''oneOf'') (\<lambda>ones.
      Option.bind (read_sub (\<lambda>o'. meaning n o') s ''not'') (\<lambda>no.
      Option.bind (read_size s ''minLength'') (\<lambda>minl. Option.bind (read_size s ''maxLength'') (\<lambda>maxl.
      Option.bind (read_number s ''minimum'') (\<lambda>minv. Option.bind (read_number s ''maximum'') (\<lambda>maxv.
      Option.bind (read_size s ''minItems'') (\<lambda>mini. Option.bind (read_size s ''maxItems'') (\<lambda>maxi.
      Option.bind (read_sub (\<lambda>o'. meaning n o') s ''items'') (\<lambda>it.
      Option.bind (read_required s) (\<lambda>req. Option.bind (read_properties (\<lambda>o'. meaning n o') s) (\<lambda>props.
      Option.bind (read_closed s) (\<lambda>cl. Some (Schema ts en alls anys ones no minl maxl minv maxv mini maxi it req props cl))))))))))))))))))"

lemma those_None: "those xs = None \<longleftrightarrow> None \<in> set xs"
  by (induction xs) (auto split: option.splits)

lemma those_Some: "those xs = Some ys \<longleftrightarrow> xs = map Some ys"
proof (induction xs arbitrary: ys)
  case (Cons x xs)
  show ?case by (cases x; cases ys) (auto simp: Cons)
qed auto

lemma numbered_Nil:
  "(\<And>i x. f i x = [] \<longleftrightarrow> g x) \<Longrightarrow> concat (map (\<lambda>(i, x). f i x) (enumerate k xs)) = [] \<longleftrightarrow> list_all g xs"
  by (induction xs arbitrary: k) auto

lemma strings_in_known: "(\<exists>ts. strings_in xs = Some ts \<and> set ts \<subseteq> K) \<longleftrightarrow> list_all (\<lambda>x. \<exists>t \<in> K. x = JStr t) xs"
  by (induction xs rule: strings_in.induct) auto

lemma strings_in_Some: "strings_in xs = Some ts \<longleftrightarrow> xs = map JStr ts"
  by (induction xs arbitrary: ts rule: strings_in.induct) (auto simp: Cons_eq_map_conv map_eq_Cons_conv)

section \<open>The checker accepts what has a meaning\<close>

lemma type_name_ok: "type_name_issues path x = [] \<longleftrightarrow> (\<exists>t \<in> set known_type_names. x = JStr t)"
  by (cases x) (auto simp: type_name_issues_def)

lemma read_types_ok: "read_types s \<noteq> None \<longleftrightarrow> (case field s ''type'' of None \<Rightarrow> True | Some (JArr []) \<Rightarrow> False
     | Some (JArr xs) \<Rightarrow> list_all (\<lambda>x. \<exists>t \<in> set known_type_names. x = JStr t) xs
     | Some x \<Rightarrow> \<exists>t \<in> set known_type_names. x = JStr t)"
  unfolding strings_in_known [symmetric] read_types_def
  by (auto split: option.splits json.splits list.splits)

lemma type_issues_read: "type_issues path s = [] \<longleftrightarrow> read_types s \<noteq> None"
  unfolding read_types_ok type_issues_def
  by (auto simp only: type_name_ok numbered_Nil [OF type_name_ok] split: option.split json.split list.split)

lemma enum_issues_read: "enum_issues path s = [] \<longleftrightarrow> read_enum s \<noteq> None"
proof -
  have "(if is_supported_enum_value v then [] else [issue (path @ [Key ''enum'', At i]) ''enum'' Unsupported]) = [] \<longleftrightarrow>
      is_supported_enum_value v" for i v by simp
  note numbered = numbered_Nil [OF this]
  show ?thesis unfolding enum_issues_def read_enum_def
    by (auto simp only: numbered if_True if_False split: option.split json.split list.split if_splits)
qed

lemma required_issues_read: "required_issues path s = [] \<longleftrightarrow> read_required s \<noteq> None"
proof -
  have "list_all (\<lambda>k. case k of JStr s \<Rightarrow> True | _ \<Rightarrow> False) xs \<longleftrightarrow> strings_in xs \<noteq> None" for xs
    by (induction xs rule: strings_in.induct) auto
  then show ?thesis unfolding required_issues_def read_required_def by (auto split: option.split json.split)
qed

lemma additional_issues_read: "additional_issues path s = [] \<longleftrightarrow> read_closed s \<noteq> None"
  unfolding additional_issues_def read_closed_def by (auto split: option.split json.split)

lemma size_issues_read: "size_issues path s = [] \<longleftrightarrow> read_size s ''minItems'' \<noteq> None \<and> read_size s ''maxItems'' \<noteq> None \<and>
    read_size s ''minLength'' \<noteq> None \<and> read_size s ''maxLength'' \<noteq> None"
proof -
  have "(case field s keyword of None \<Rightarrow> [] | Some (JNum r) \<Rightarrow> if is_integer r \<and> r \<ge> 0 then [] else [issue (path @ [Key keyword]) keyword Malformed]
    | _ \<Rightarrow> [issue (path @ [Key keyword]) keyword Malformed]) = [] \<longleftrightarrow> read_size s keyword \<noteq> None" for keyword
    by (auto simp: read_size_def split: option.split json.split)
  then show ?thesis by (simp add: size_issues_def)
qed

lemma range_issues_read: "range_issues path s = [] \<longleftrightarrow> read_number s ''minimum'' \<noteq> None \<and> read_number s ''maximum'' \<noteq> None"
proof -
  have "(case field s keyword of None \<Rightarrow> [] | Some (JNum r) \<Rightarrow> []
    | _ \<Rightarrow> [issue (path @ [Key keyword]) keyword Malformed]) = [] \<longleftrightarrow> read_number s keyword \<noteq> None" for keyword
    by (auto simp: read_number_def split: option.split json.split)
  then show ?thesis by (simp add: range_issues_def)
qed

lemma those_defined: "those (map f xs) \<noteq> None \<longleftrightarrow> list_all (\<lambda>x. f x \<noteq> None) xs"
  by (induction xs) (auto split: option.splits)

text \<open>The subschemas, given that the checker is right one level below.\<close>

lemma branch_issues_read:
  assumes "\<And>o' path. check o' path = [] \<longleftrightarrow> f o' \<noteq> None"
  shows "(case field s keyword of
         None \<Rightarrow> []
       | Some (JArr (b # bs)) \<Rightarrow> concat (map (\<lambda>(i, branch). case branch of
           JObj s \<Rightarrow> check s (path @ [Key keyword, At i])
         | _ \<Rightarrow> [issue (path @ [Key keyword, At i]) keyword Malformed]) (enumerate 0 (b # bs)))
       | _ \<Rightarrow> [issue (path @ [Key keyword]) keyword Malformed]) = [] \<longleftrightarrow> read_branches f s keyword \<noteq> None"
proof -
  have "(case x of JObj s \<Rightarrow> check s (path @ [Key keyword, At i]) | _ \<Rightarrow> [issue (path @ [Key keyword, At i]) keyword Malformed]) = []
      \<longleftrightarrow> (case x of JObj o' \<Rightarrow> f o' | _ \<Rightarrow> None) \<noteq> None" for i x
    using assms by (cases x) auto
  note numbered = numbered_Nil [OF this]
  show ?thesis unfolding read_branches_def those_defined [symmetric]
    by (auto simp only: numbered those_defined list.case option.case json.case split: option.split json.split list.split)
qed

lemma sub_issues_read:
  assumes "\<And>o' path. check o' path = [] \<longleftrightarrow> f o' \<noteq> None"
  shows "(case field s ''not'' of
        None \<Rightarrow> []
      | Some (JObj s) \<Rightarrow> check s (path @ [Key ''not''])
      | _ \<Rightarrow> [issue (path @ [Key ''not'']) ''not'' Malformed]) = [] \<longleftrightarrow> read_sub f s ''not'' \<noteq> None"
    "(case field s ''items'' of
        None \<Rightarrow> []
      | Some (JObj s) \<Rightarrow> check s (path @ [Key ''items''])
      | Some (JArr xs) \<Rightarrow> [issue (path @ [Key ''items'']) ''items'' Unsupported]
      | _ \<Rightarrow> [issue (path @ [Key ''items'']) ''items'' Malformed]) = [] \<longleftrightarrow> read_sub f s ''items'' \<noteq> None"
  unfolding read_sub_def using assms by (auto split: option.split json.split)

lemma property_issues_read:
  assumes "\<And>o' path. check o' path = [] \<longleftrightarrow> f o' \<noteq> None"
  shows "(case field s ''properties'' of
        None \<Rightarrow> []
      | Some (JObj ps) \<Rightarrow> concat (map (\<lambda>(key, p). case p of
          JObj s \<Rightarrow> check s (path @ [Key ''properties'', Key key])
        | _ \<Rightarrow> [issue (path @ [Key ''properties'', Key key]) ''properties'' Malformed]) ps)
      | _ \<Rightarrow> [issue (path @ [Key ''properties'']) ''properties'' Malformed]) = [] \<longleftrightarrow> read_properties f s \<noteq> None"
proof -
  have "concat (map (\<lambda>(key, p). case p of JObj s \<Rightarrow> check s (path @ [Key ''properties'', Key key])
        | _ \<Rightarrow> [issue (path @ [Key ''properties'', Key key]) ''properties'' Malformed]) ps) = [] \<longleftrightarrow>
      those (map (\<lambda>(k, x). case x of JObj o' \<Rightarrow> map_option (Pair k) (f o') | _ \<Rightarrow> None) ps) \<noteq> None" for ps
    unfolding those_defined using assms by (induction ps) (auto split: json.split)
  then show ?thesis unfolding read_properties_def by (auto simp del: concat_eq_Nil_conv split: option.split json.split)
qed

lemma check_read: "check_definition_node n s path = [] \<longleftrightarrow> meaning n s \<noteq> None"
proof (induction n arbitrary: s path)
  case 0
  show ?case by simp
next
  case (Suc n)
  have unsup: "map (\<lambda>(keyword, v). issue (path @ [Key keyword]) keyword Unsupported)
       (filter (\<lambda>(keyword, v). keyword \<in> set unsupported_keywords) s) = [] \<longleftrightarrow> \<not> list_ex (\<lambda>(k, x). k \<in> set unsupported_keywords) s"
    by (auto simp: filter_empty_conv list_ex_iff)
  have bind: "Option.bind x f = None \<longleftrightarrow> x = None \<or> f (the x) = None" for x :: "'x option" and f :: "'x \<Rightarrow> schema option"
    by (cases x) auto
  note check = branch_issues_read [where check = "check_definition_node n", OF Suc] sub_issues_read [where check = "check_definition_node n", OF Suc]
    property_issues_read [where check = "check_definition_node n", OF Suc] type_issues_read enum_issues_read required_issues_read
    additional_issues_read size_issues_read range_issues_read
  have "check_definition_node (Suc n) s path = [] \<longleftrightarrow> \<not> list_ex (\<lambda>(k, x). k \<in> set unsupported_keywords) s \<and>
      read_types s \<noteq> None \<and> read_enum s \<noteq> None \<and> (\<forall>keyword \<in> {''allOf'', ''anyOf'', ''oneOf''}. read_branches (meaning n) s keyword \<noteq> None) \<and>
      read_sub (meaning n) s ''not'' \<noteq> None \<and> read_required s \<noteq> None \<and> read_properties (meaning n) s \<noteq> None \<and>
      read_sub (meaning n) s ''items'' \<noteq> None \<and> read_closed s \<noteq> None \<and> (read_size s ''minItems'' \<noteq> None \<and> read_size s ''maxItems'' \<noteq> None \<and>
      read_size s ''minLength'' \<noteq> None \<and> read_size s ''maxLength'' \<noteq> None) \<and> read_number s ''minimum'' \<noteq> None \<and> read_number s ''maximum'' \<noteq> None"
    unfolding check_definition_node.simps append_is_Nil_conv unsup check concat_eq_Nil_conv list.map list.set ball_simps
    by (simp only: check)
  also have "\<dots> \<longleftrightarrow> meaning (Suc n) s \<noteq> None"
    unfolding meaning.simps by (simp add: bind del: not_None_eq) blast
  finally show ?case .
qed

section \<open>The validator decides the meaning\<close>

lemma read_types_declared: "read_types s = Some ts \<Longrightarrow> declared_types s = ts"
proof -
  have texts: "strings_in xs = Some ts \<Longrightarrow> List.map_filter (\<lambda>t. case t of JStr s \<Rightarrow> Some s | _ \<Rightarrow> None) xs = ts" for xs ts
    unfolding strings_in_Some by (induction ts arbitrary: xs) (auto simp: List.map_filter_simps)
  show "read_types s = Some ts \<Longrightarrow> declared_types s = ts"
    using texts by (auto simp: read_types_def declared_types_def split: option.splits json.splits list.splits if_splits)
qed

lemma read_enum_allowed:
  assumes "read_enum s = Some en"
  shows "allowed_values s \<noteq> [] \<and> \<not> list_ex (\<lambda>c. strict_equal c v) (allowed_values s) \<longleftrightarrow> \<not> (case en of None \<Rightarrow> True | Some xs \<Rightarrow> v \<in> set xs)"
proof -
  have same: "is_supported_enum_value c \<Longrightarrow> strict_equal c v \<longleftrightarrow> c = v" for c
    by (cases c; cases v) (auto simp: is_supported_enum_value_def)
  have "list_all is_supported_enum_value xs \<Longrightarrow> list_ex (\<lambda>c. strict_equal c v) xs \<longleftrightarrow> v \<in> set xs" for xs
    by (induction xs) (auto simp: same)
  then show ?thesis using assms same
    by (auto simp: read_enum_def allowed_values_def split: option.splits json.splits list.splits if_splits)
qed

lemma read_branches_match:
  assumes "read_branches f s keyword = Some ss"
  shows "list_all2 (\<lambda>o' S. f o' = Some S) (combinator_branches s keyword) ss"
proof -
  have "those (map (\<lambda>x. case x of JObj o' \<Rightarrow> f o' | _ \<Rightarrow> None) xs) = Some ss \<Longrightarrow>
      list_all2 (\<lambda>o' S. f o' = Some S) (List.map_filter (\<lambda>x. case x of JObj s \<Rightarrow> Some s | _ \<Rightarrow> None) xs) ss" for xs ss
  proof (induction xs arbitrary: ss)
    case (Cons x xs)
    then show ?case by (cases x) (auto simp: those_Some List.map_filter_simps Cons_eq_map_conv split: option.splits)
  qed simp
  from this [of "_ # _"] show ?thesis using assms
    by (auto simp: read_branches_def combinator_branches_def split: option.splits json.splits list.splits)
qed

text \<open>Results of the branches, seen only as success or failure.\<close>

lemma alternatives_any: "alternatives path ''anyOf'' results = [] \<longleftrightarrow> results = [] \<or> (\<exists>r \<in> set results. r = [])"
proof -
  have "filter (\<lambda>(i, es). es = []) (enumerate k results) = [] \<longleftrightarrow> \<not> (\<exists>r \<in> set results. r = [])" for k
    by (induction results arbitrary: k) auto
  then show ?thesis by (auto simp: alternatives_def Let_def split: prod.split)
qed

lemma alternatives_one: "alternatives path ''oneOf'' results = [] \<longleftrightarrow> results = [] \<or> length (filter (\<lambda>r. r = []) results) = 1"
proof -
  have count: "length (filter (\<lambda>(i, es). es = []) (enumerate k results)) = length (filter (\<lambda>r. r = []) results)" for k
    by (induction results arbitrary: k) auto
  have none: "filter (\<lambda>(i, es). es = []) (enumerate 0 results) = [] \<longleftrightarrow> length (filter (\<lambda>r. r = []) results) = 0"
    using count [of 0] by (metis length_0_conv)
  show ?thesis
    by (simp add: alternatives_def Let_def none count del: length_0_conv split: prod.split)
      (cases "filter (\<lambda>r. r = []) results"; simp)
qed

lemma read_sub_object:
  assumes "read_sub f s keyword = Some x"
  shows "case x of None \<Rightarrow> object_field s keyword = None | Some S \<Rightarrow> \<exists>o'. object_field s keyword = Some o' \<and> f o' = Some S"
  using assms by (auto simp: read_sub_def object_field_def split: option.splits json.splits)

lemma bound_read_size:
  assumes "read_size s keyword = Some b"
  shows "bound_errors path (number_field s keyword) (\<lambda>b. of_nat n < b) pr = [] \<longleftrightarrow> at_least b n"
    "bound_errors path (number_field s keyword) (\<lambda>b. of_nat n > b) pr = [] \<longleftrightarrow> at_most b n"
proof -
  have int: "(of_nat n < r) = (n < nat \<lfloor>r\<rfloor>)" "(r < of_nat n) = (nat \<lfloor>r\<rfloor> < n)" if "is_integer r" "0 \<le> r" for r :: rat
  proof -
    have "r = of_nat (nat \<lfloor>r\<rfloor>)" using that unfolding is_integer_def by (metis of_nat_nat zero_le_floor)
    then obtain k where k: "r = of_nat k" by blast
    show "(of_nat n < r) = (n < nat \<lfloor>r\<rfloor>)" "(r < of_nat n) = (nat \<lfloor>r\<rfloor> < n)" by (simp_all add: k)
  qed
  show "bound_errors path (number_field s keyword) (\<lambda>b. of_nat n < b) pr = [] \<longleftrightarrow> at_least b n"
    "bound_errors path (number_field s keyword) (\<lambda>b. of_nat n > b) pr = [] \<longleftrightarrow> at_most b n"
  proof -
    consider "b = None" "number_field s keyword = None"
      | r where "is_integer r" "0 \<le> r" "b = Some (nat \<lfloor>r\<rfloor>)" "number_field s keyword = Some r"
      using assms by (auto simp: read_size_def number_field_def split: option.splits json.splits if_splits)
    note cases = this
    show "bound_errors path (number_field s keyword) (\<lambda>b. of_nat n < b) pr = [] \<longleftrightarrow> at_least b n"
      by (cases rule: cases) (simp_all add: bound_errors_def at_least_def int not_less del: not_le)
    show "bound_errors path (number_field s keyword) (\<lambda>b. of_nat n > b) pr = [] \<longleftrightarrow> at_most b n"
      by (cases rule: cases) (simp_all add: bound_errors_def at_most_def int not_less del: not_le)
  qed
qed

lemma bound_read_number:
  assumes "read_number s keyword = Some b"
  shows "bound_errors path (number_field s keyword) (\<lambda>b. r < b) pr = [] \<longleftrightarrow> at_least b r"
    "bound_errors path (number_field s keyword) (\<lambda>b. r > b) pr = [] \<longleftrightarrow> at_most b r"
  using assms by (auto simp: read_number_def number_field_def bound_errors_def at_least_def at_most_def split: option.splits json.splits)

lemma read_required_errors:
  assumes "read_required s = Some req"
  shows "required_errors path s obj = [] \<longleftrightarrow> (\<forall>k \<in> set req. has_own obj k)"
  using assms by (auto simp: read_required_def required_errors_def strings_in_Some split: option.splits json.splits)

lemma read_properties_errors:
  assumes "read_properties f s = Some props" and "\<And>o' S x path. f o' = Some S \<Longrightarrow> check x o' path = [] \<longleftrightarrow> accepts S x"
  shows "(case object_field s ''properties'' of
     Some ps \<Rightarrow> concat (map (\<lambda>(key, p). case field obj key of
         None \<Rightarrow> [] | Some v \<Rightarrow> (case p of JObj s \<Rightarrow> check v s (path @ ''.'' @ key) | _ \<Rightarrow> [])) ps)
   | None \<Rightarrow> []) = [] \<longleftrightarrow> (\<forall>(k, S) \<in> set props. case field obj k of None \<Rightarrow> True | Some x \<Rightarrow> accepts S x)"
proof -
  have list: "concat (map (\<lambda>(key, p). case field obj key of
         None \<Rightarrow> [] | Some v \<Rightarrow> (case p of JObj s \<Rightarrow> check v s (path @ ''.'' @ key) | _ \<Rightarrow> [])) ps) = [] \<longleftrightarrow>
      (\<forall>(k, S) \<in> set props. case field obj k of None \<Rightarrow> True | Some x \<Rightarrow> accepts S x)"
    if "those (map (\<lambda>(k, x). case x of JObj o' \<Rightarrow> map_option (Pair k) (f o') | _ \<Rightarrow> None) ps) = Some props" for ps props
    using that
  proof (induction ps arbitrary: props)
    case (Cons kp ps)
    obtain k x where kp: "kp = (k, x)" by (cases kp)
    show ?case
    proof (cases x)
      case (JObj o')
      then obtain S rest where "f o' = Some S" "props = (k, S) # rest"
          "those (map (\<lambda>(k, x). case x of JObj o' \<Rightarrow> map_option (Pair k) (f o') | _ \<Rightarrow> None) ps) = Some rest"
        using Cons.prems by (auto simp: kp split: option.splits)
      then show ?thesis using Cons.IH assms(2) by (simp add: kp JObj del: concat_eq_Nil_conv split: option.split)
    qed (use Cons.prems in \<open>simp_all add: kp\<close>)
  qed simp
  then show ?thesis using assms(1) by (auto simp: read_properties_def object_field_def split: option.splits json.splits)
qed

lemma read_closed_errors:
  assumes "read_closed s = Some cl" "read_properties f s = Some props"
  shows "unexpected_errors path s obj = [] \<longleftrightarrow> (cl \<longrightarrow> (\<forall>(k, x) \<in> set obj. k \<in> fst ` set props))"
proof -
  have keys: "map fst ps = map fst props" if "those (map (\<lambda>(k, x). case x of JObj o' \<Rightarrow> map_option (Pair k) (f o') | _ \<Rightarrow> None) ps) = Some props" for ps props
    using that by (induction ps arbitrary: props) (auto split: json.splits option.splits)
  have own: "has_own ps k \<longleftrightarrow> k \<in> set (map fst ps)" for ps :: json_object and k
    by (simp add: has_own_def field_def map_of_eq_None_iff)
  have "fst ` set ps = fst ` set props" if "those (map (\<lambda>(k, x). case x of JObj o' \<Rightarrow> map_option (Pair k) (f o') | _ \<Rightarrow> None) ps) = Some props" for ps
    using keys [OF that] by (metis list.set_map)
  then show ?thesis using assms
    by (auto simp: read_closed_def read_properties_def unexpected_errors_def object_field_def own split: option.splits json.splits if_splits)
qed

lemma failed_branches:
  assumes "list_all2 (\<lambda>o' S. f o' = Some S) os ss" "\<And>o' S. f o' = Some S \<Longrightarrow> g o' = [] \<longleftrightarrow> P S"
  shows "concat (map g os) = [] \<longleftrightarrow> (\<forall>S \<in> set ss. P S)" "map g os = [] \<longleftrightarrow> ss = []"
    "(\<exists>r \<in> set (map g os). r = []) \<longleftrightarrow> (\<exists>S \<in> set ss. P S)" "length (filter (\<lambda>r. r = []) (map g os)) = length (filter P ss)"
  using assms(1) by (induction rule: list_all2_induct) (auto simp: assms(2) eq_commute [of "[]"])

lemma numbered_items_Nil:
  assumes "\<And>x path. check x path = [] \<longleftrightarrow> P x"
  shows "concat (map (\<lambda>(i, x). check x (path i)) (enumerate k xs)) = [] \<longleftrightarrow> (\<forall>x \<in> set xs. P x)"
  by (induction xs arbitrary: k) (auto simp: assms)

lemma validate_accepts: "meaning n s = Some S \<Longrightarrow> validate_node n redact v s path = [] \<longleftrightarrow> accepts S v"
proof (induction n arbitrary: s S v path)
  case (Suc n)
  let ?check = "\<lambda>x s path. validate_node n redact x s path"
  from Suc.prems obtain ts en alls anys ones no minl maxl minv maxv mini maxi it req props cl where
    S: "S = Schema ts en alls anys ones no minl maxl minv maxv mini maxi it req props cl" and
    r: "read_types s = Some ts" "read_enum s = Some en" "read_branches (meaning n) s ''allOf'' = Some alls"
      "read_branches (meaning n) s ''anyOf'' = Some anys" "read_branches (meaning n) s ''oneOf'' = Some ones"
      "read_sub (meaning n) s ''not'' = Some no" "read_size s ''minLength'' = Some minl" "read_size s ''maxLength'' = Some maxl"
      "read_number s ''minimum'' = Some minv" "read_number s ''maximum'' = Some maxv" "read_size s ''minItems'' = Some mini"
      "read_size s ''maxItems'' = Some maxi" "read_sub (meaning n) s ''items'' = Some it" "read_required s = Some req"
      "read_properties (meaning n) s = Some props" "read_closed s = Some cl"
    by (auto simp: bind_eq_Some_conv split: if_splits)
  have branch: "concat (map (\<lambda>b. ?check v b path) (combinator_branches s k)) = [] \<longleftrightarrow> (\<forall>S \<in> set ss. accepts S v)"
      "map (\<lambda>b. ?check v b path) (combinator_branches s k) = [] \<longleftrightarrow> ss = []"
      "(\<exists>r \<in> set (map (\<lambda>b. ?check v b path) (combinator_branches s k)). r = []) \<longleftrightarrow> (\<exists>S \<in> set ss. accepts S v)"
      "length (filter (\<lambda>r. r = []) (map (\<lambda>b. ?check v b path) (combinator_branches s k))) = length (filter (\<lambda>S. accepts S v) ss)"
    if "read_branches (meaning n) s k = Some ss" for k ss
  proof -
    note fb = failed_branches [where f = "meaning n" and g = "\<lambda>b. ?check v b path" and P = "\<lambda>S. accepts S v", OF read_branches_match [OF that]]
    show "concat (map (\<lambda>b. ?check v b path) (combinator_branches s k)) = [] \<longleftrightarrow> (\<forall>S \<in> set ss. accepts S v)" by (rule fb(1)) (rule Suc.IH)
    show "map (\<lambda>b. ?check v b path) (combinator_branches s k) = [] \<longleftrightarrow> ss = []" by (rule fb(2)) (rule Suc.IH)
    show "(\<exists>r \<in> set (map (\<lambda>b. ?check v b path) (combinator_branches s k)). r = []) \<longleftrightarrow> (\<exists>S \<in> set ss. accepts S v)"
      by (rule fb(3)) (rule Suc.IH)
    show "length (filter (\<lambda>r. r = []) (map (\<lambda>b. ?check v b path) (combinator_branches s k))) = length (filter (\<lambda>S. accepts S v) ss)"
      by (rule fb(4)) (rule Suc.IH)
  qed
  note sub = read_sub_object [OF r(6)] read_sub_object [OF r(13)]
  have no: "(case object_field s ''not'' of
              Some s \<Rightarrow> if ?check v s path = [] then [Complaint path Matches_Not] else [] | None \<Rightarrow> []) = []
      \<longleftrightarrow> (case no of None \<Rightarrow> True | Some S \<Rightarrow> \<not> accepts S v)"
    using sub(1) Suc.IH by (auto split: option.splits)
  have items: "(case object_field s ''items'' of
       Some s \<Rightarrow> concat (map (\<lambda>(i, x). ?check x s (path @ ''['' @ nat_to_string i @ '']'')) (enumerate 0 xs)) | None \<Rightarrow> []) = []
      \<longleftrightarrow> (case it of None \<Rightarrow> True | Some S \<Rightarrow> \<forall>x \<in> set xs. accepts S x)" for xs
  proof (cases it)
    case None
    then show ?thesis using sub(2) by simp
  next
    case (Some S)
    then obtain o' where o': "object_field s ''items'' = Some o'" "meaning n o' = Some S" using sub(2) by auto
    show ?thesis using numbered_items_Nil [where check = "\<lambda>x path. ?check x o' path", OF Suc.IH [OF o'(2)]] by (simp add: o'(1) Some)
  qed
  have props: "(case object_field s ''properties'' of
     Some ps \<Rightarrow> concat (map (\<lambda>(key, p). case field obj key of
         None \<Rightarrow> [] | Some v \<Rightarrow> (case p of JObj s \<Rightarrow> ?check v s (path @ ''.'' @ key) | _ \<Rightarrow> [])) ps)
   | None \<Rightarrow> []) = [] \<longleftrightarrow> (\<forall>(k, S) \<in> set props. case field obj k of None \<Rightarrow> True | Some x \<Rightarrow> accepts S x)" for obj
    by (rule read_properties_errors [OF r(15)]) (rule Suc.IH)
  have types: "declared_types s = ts" by (rule read_types_declared [OF r(1)])
  show ?case
    unfolding validate_node.simps Let_def S accepts.simps types
  proof (cases "ts \<noteq> [] \<and> \<not> list_ex (matches_type (type_of v)) ts", goal_cases)
    case 2
    note ok = this
    show ?case
    proof (cases "allowed_values s \<noteq> [] \<and> \<not> list_ex (\<lambda>c. strict_equal c v) (allowed_values s)")
      case False
      have kinds: "(case v of
              JStr s' \<Rightarrow>
                bound_errors path (number_field s ''minLength'') (\<lambda>b. of_nat (length s') < b) Too_Short
              @ bound_errors path (number_field s ''maxLength'') (\<lambda>b. of_nat (length s') > b) Too_Long
            | JNum r \<Rightarrow>
                bound_errors path (number_field s ''minimum'') (\<lambda>b. r < b) (Below_Minimum (if redact then None else Some r))
              @ bound_errors path (number_field s ''maximum'') (\<lambda>b. r > b) (Above_Maximum (if redact then None else Some r))
            | JArr xs \<Rightarrow>
                bound_errors path (number_field s ''minItems'') (\<lambda>b. of_nat (length xs) < b) Too_Few_Items
              @ bound_errors path (number_field s ''maxItems'') (\<lambda>b. of_nat (length xs) > b) Too_Many_Items
              @ (case object_field s ''items'' of
                   Some s \<Rightarrow> concat (map (\<lambda>(i, x). ?check x s (path @ ''['' @ nat_to_string i @ '']'')) (enumerate 0 xs))
                 | None \<Rightarrow> [])
            | JObj obj \<Rightarrow>
                required_errors path s obj
              @ (case object_field s ''properties'' of
                   Some ps \<Rightarrow> concat (map (\<lambda>(key, p). case field obj key of
                       None \<Rightarrow> []
                     | Some v \<Rightarrow> (case p of JObj s \<Rightarrow> ?check v s (path @ ''.'' @ key) | _ \<Rightarrow> [])) ps)
                 | None \<Rightarrow> [])
              @ unexpected_errors path s obj
            | _ \<Rightarrow> []) = [] \<longleftrightarrow> (case v of
        JStr s \<Rightarrow> at_least minl (length s) \<and> at_most maxl (length s)
      | JNum r \<Rightarrow> at_least minv r \<and> at_most maxv r
      | JArr xs \<Rightarrow> at_least mini (length xs) \<and> at_most maxi (length xs)
          \<and> (case it of None \<Rightarrow> True | Some s \<Rightarrow> \<forall>x \<in> set xs. accepts s x)
      | JObj obj \<Rightarrow> (\<forall>k \<in> set req. has_own obj k)
          \<and> (\<forall>(k, s) \<in> set props. case field obj k of None \<Rightarrow> True | Some x \<Rightarrow> accepts s x)
          \<and> (cl \<longrightarrow> (\<forall>(k, x) \<in> set obj. k \<in> fst ` set props))
      | _ \<Rightarrow> True)"
        by (cases v) (simp_all only: json.case append_is_Nil_conv simp_thms items props bound_read_size [OF r(7)] bound_read_size [OF r(8)]
            bound_read_size [OF r(11)] bound_read_size [OF r(12)] bound_read_number [OF r(9)] bound_read_number [OF r(10)]
            read_required_errors [OF r(14)] read_closed_errors [OF r(16,15)])
      have enum: "case en of None \<Rightarrow> True | Some xs \<Rightarrow> v \<in> set xs" using False read_enum_allowed [OF r(2)] by blast
      have all: "concat (map (\<lambda>branch. ?check v branch path) (combinator_branches s ''allOf'')) = [] \<longleftrightarrow> (\<forall>s \<in> set alls. accepts s v)"
        by (rule branch(1) [OF r(3)])
      have any: "alternatives path ''anyOf'' (map (\<lambda>branch. ?check v branch path) (combinator_branches s ''anyOf'')) = [] \<longleftrightarrow>
          anys = [] \<or> (\<exists>s \<in> set anys. accepts s v)"
        unfolding alternatives_any branch(2) [OF r(4)] branch(3) [OF r(4)] ..
      have one: "alternatives path ''oneOf'' (map (\<lambda>branch. ?check v branch path) (combinator_branches s ''oneOf'')) = [] \<longleftrightarrow>
          ones = [] \<or> length (filter (\<lambda>s. accepts s v) ones) = 1"
        unfolding alternatives_one branch(2) [OF r(5)] branch(4) [OF r(5)] ..
      show ?thesis unfolding if_not_P [OF ok] if_not_P [OF False] append_is_Nil_conv no kinds all any one
        using ok enum by blast
    next
      case True
      then show ?thesis using read_enum_allowed [OF r(2)] ok by simp
    qed
  qed simp
qed simp

section \<open>A checked schema is enforced\<close>

definition schema_meaning :: "json_object \<Rightarrow> schema option" where
  "schema_meaning s = meaning (Suc max_definition_depth) s"

text \<open>C21: a schema about which the definition checker has nothing to say is enforced in full: it has a meaning in which
  every keyword counts, and the validator accepts exactly the values of that meaning.  No depth limit is met on the way.\<close>

theorem checked_schema_is_enforced:
  assumes "check_json_schema_definition s = []"
  shows "\<exists>S. schema_meaning s = Some S \<and> (\<forall>v redact. validate_json_schema_subset v s redact = [] \<longleftrightarrow> accepts S v)"
proof -
  obtain S where S: "schema_meaning s = Some S"
    using assms check_read unfolding check_json_schema_definition_def schema_meaning_def by blast
  then show ?thesis
    using validate_accepts unfolding schema_meaning_def validate_json_schema_subset_def by blast
qed

definition score_schema :: json_object where
  "score_schema = [(''type'', JStr ''object''), (''required'', JArr [JStr ''score'']),
     (''properties'', JObj [(''score'', JObj [(''type'', JStr ''integer''), (''minimum'', JNum 0), (''maximum'', JNum 10)])]),
     (''additionalProperties'', JBool False)]"

lemma checked_schema_is_enforced_witness:
  "\<exists>S. schema_meaning score_schema = Some S \<and> accepts S (JObj [(''score'', JNum 7)]) \<and> \<not> accepts S (JObj [(''score'', JNum 11)])
     \<and> \<not> accepts S (JObj [])"
proof -
  have "check_json_schema_definition score_schema = []" by code_simp
  from checked_schema_is_enforced [OF this] obtain S where S: "schema_meaning score_schema = Some S"
    "\<And>v. accepts S v \<longleftrightarrow> validate_json_schema_subset v score_schema False = []" by blast
  have "validate_json_schema_subset (JObj [(''score'', JNum 7)]) score_schema False = []"
    "validate_json_schema_subset (JObj [(''score'', JNum 11)]) score_schema False \<noteq> []"
    "validate_json_schema_subset (JObj []) score_schema False \<noteq> []" by code_simp+
  then show ?thesis using S by blast
qed

text \<open>
  The depth limit and \<open>not\<close>.  A negated schema below the limit fails for its depth alone, and the negation takes that failure for
  success: sixty-four levels down, \<open>not {}\<close>, which no value satisfies, lets every value pass.
\<close>

primrec nested_not :: "nat \<Rightarrow> json_object" where
  "nested_not 0 = [(''not'', JObj [])]"
| "nested_not (Suc n) = [(''allOf'', JArr [JObj (nested_not n)])]"

lemma nested_not_accepts: "validate_node (Suc n) redact v (nested_not n) path = []"
proof (induction n)
  case 0
  show ?case
    by (cases v) (simp_all add: declared_types_def allowed_values_def combinator_branches_def field_def alternatives_def object_field_def
        number_field_def bound_errors_def required_errors_def unexpected_errors_def)
next
  case (Suc n)
  then show ?case
    by (cases v) (simp_all add: declared_types_def allowed_values_def combinator_branches_def field_def alternatives_def object_field_def
        number_field_def bound_errors_def required_errors_def unexpected_errors_def List.map_filter_simps del: validate_node.simps(2)
        add: validate_node.simps(2) [of "Suc n"])
qed

lemma nested_not_refuses: "validate_node (Suc (Suc (n + k))) redact v (nested_not n) path \<noteq> []"
proof (induction n)
  case 0
  have "validate_node (Suc k) redact v [] path = []"
    by (cases v) (simp_all add: declared_types_def allowed_values_def combinator_branches_def field_def alternatives_def object_field_def
        number_field_def bound_errors_def required_errors_def unexpected_errors_def)
  then show ?case
    by (simp add: declared_types_def allowed_values_def combinator_branches_def field_def alternatives_def object_field_def del: validate_node.simps(2)
        add: validate_node.simps(2) [of "Suc k"])
next
  case (Suc n)
  then show ?case
    by (simp add: declared_types_def allowed_values_def combinator_branches_def field_def alternatives_def object_field_def List.map_filter_simps
        del: validate_node.simps(2) add: validate_node.simps(2) [of "Suc (Suc (n + k))"])
qed

lemma depth_limit_fails_open_below_not:
  "validate_json_schema_subset v (nested_not 64) redact = [] \<and> validate_node (Suc (Suc 64)) redact v (nested_not 64) ''$'' \<noteq> []"
  using nested_not_accepts [of 64] nested_not_refuses [of 64 0]
  by (simp add: validate_json_schema_subset_def max_definition_depth_def del: validate_node.simps)

end
