(* ===== verification/Step_References.thy ===== *)
theory Step_References
  imports Schema_Meaning
begin

text \<open>
  References between workflow steps: the reference grammar of \<^verbatim>\<open>src/workflows/program/expressions.ts\<close> with its parser,
  printer and resolver, and the typing of references by the output schemas of the steps they read.
\<close>

section \<open>Syntax\<close>

datatype expression_ast = Param_Ref string | Step_Output string "path_segment list"

text \<open>One constructor per message; positions are those the messages show.\<close>

datatype parse_error =
    Empty_Reference | No_Identifier
  | Params_Without_Name | Bad_Param_Name | Trailing_Text string
  | Steps_Without_Id | Bad_Step_Id | Without_Output string | Expected_Output string
  | Bad_Segment nat | Bad_Indexer nat | Unexpected_Char char nat
  | Unknown_Root string

definition ident_start :: "char \<Rightarrow> bool" where
  "ident_start c \<longleftrightarrow> js_letter c \<or> c = CHR ''_''"

definition ident_char :: "char \<Rightarrow> bool" where
  "ident_char c \<longleftrightarrow> js_letter c \<or> js_digit c \<or> c = CHR ''_'' \<or> c = CHR ''-''"

text \<open>\<open>readIdent\<close>: the identifier at a position and the position after it.\<close>

definition read_ident :: "string \<Rightarrow> nat \<Rightarrow> (string \<times> nat) option" where
  "read_ident s start =
     (if start \<ge> length s \<or> \<not> ident_start (s ! start) then None
      else let name = s ! start # takeWhile ident_char (drop (Suc start) s) in Some (name, start + length name))"

definition char_at :: "string \<Rightarrow> nat \<Rightarrow> char \<Rightarrow> bool" where
  "char_at s i c \<longleftrightarrow> i < length s \<and> s ! i = c"

text \<open>An index is read exactly; the program reads it as a double, which is exact below \<open>2\<^sup>5\<^sup>3\<close>.\<close>

function parse_path :: "string \<Rightarrow> nat \<Rightarrow> (parse_error, path_segment list) result" where
  "parse_path s i =
     (if i \<ge> length s then Inr []
      else if s ! i = CHR ''.'' then
        (case read_ident s (Suc i) of
           None \<Rightarrow> Inl (Bad_Segment i)
         | Some (name, end_pos) \<Rightarrow> map_result (Cons (Key name)) (parse_path s end_pos))
      else if s ! i = CHR ''['' then
        (let digits = takeWhile js_digit (drop (Suc i) s); j = Suc i + length digits in
         if digits = [] \<or> \<not> char_at s j (CHR '']'') then Inl (Bad_Indexer i)
         else map_result (Cons (At (nat_of_digits digits))) (parse_path s (Suc j)))
      else Inl (Unexpected_Char (s ! i) i))"
  by pat_completeness auto
termination
  by (relation "measure (\<lambda>(s, i). length s - i)") (auto simp: read_ident_def Let_def split: if_splits)

declare parse_path.simps [simp del]

definition parse_reference :: "string \<Rightarrow> (parse_error, expression_ast) result" where
  "parse_reference source =
     (let s = js_trim source in
      if s = '''' then Inl Empty_Reference
      else case read_ident s 0 of
        None \<Rightarrow> Inl No_Identifier
      | Some (root_name, root_end) \<Rightarrow>
          if root_name = ''params'' then
            (if \<not> char_at s root_end (CHR ''.'') then Inl Params_Without_Name
             else case read_ident s (Suc root_end) of
               None \<Rightarrow> Inl Bad_Param_Name
             | Some (name, name_end) \<Rightarrow>
                 if name_end \<noteq> length s then Inl (Trailing_Text (drop name_end s)) else Inr (Param_Ref name))
          else if root_name = ''steps'' then
            (if \<not> char_at s root_end (CHR ''.'') then Inl Steps_Without_Id
             else case read_ident s (Suc root_end) of
               None \<Rightarrow> Inl Bad_Step_Id
             | Some (step_id, id_end) \<Rightarrow>
                 if \<not> char_at s id_end (CHR ''.'') then Inl (Without_Output step_id)
                 else case read_ident s (Suc id_end) of
                   None \<Rightarrow> Inl (Expected_Output step_id)
                 | Some (out_name, output_end) \<Rightarrow>
                     if out_name \<noteq> ''output'' then Inl (Expected_Output step_id)
                     else map_result (Step_Output step_id) (parse_path s output_end))
          else Inl (Unknown_Root root_name))"

fun format_segment :: "path_segment \<Rightarrow> string" where
  "format_segment (Key k) = ''.'' @ k"
| "format_segment (At i) = ''['' @ nat_to_string i @ '']''"

fun format_reference :: "expression_ast \<Rightarrow> string" where
  "format_reference (Param_Ref name) = ''params.'' @ name"
| "format_reference (Step_Output step_id path) = ''steps.'' @ step_id @ ''.output'' @ concat (map format_segment path)"

section \<open>Reading back a printed reference\<close>

definition is_ident :: "string \<Rightarrow> bool" where
  "is_ident s \<longleftrightarrow> s \<noteq> '''' \<and> ident_start (hd s) \<and> list_all ident_char (tl s)"

fun ident_segment :: "path_segment \<Rightarrow> bool" where
  "ident_segment (Key k) \<longleftrightarrow> is_ident k"
| "ident_segment (At i) \<longleftrightarrow> True"

fun ident_reference :: "expression_ast \<Rightarrow> bool" where
  "ident_reference (Param_Ref name) \<longleftrightarrow> is_ident name"
| "ident_reference (Step_Output step_id path) \<longleftrightarrow> is_ident step_id \<and> list_all ident_segment path"

lemma read_ident_at:
  assumes "is_ident x" "rest = '''' \<or> \<not> ident_char (hd rest)"
  shows "read_ident (pre @ x @ rest) (length pre) = Some (x, length pre + length x)"
proof -
  obtain c cs where x: "x = c # cs" "ident_start c" "list_all ident_char cs" using assms(1) by (cases x) (auto simp: is_ident_def)
  have "takeWhile ident_char (cs @ rest) = cs"
    using x(3) assms(2) by (subst takeWhile_append2) (auto simp: list_all_iff takeWhile_eq_Nil_iff)
  then show ?thesis using x by (simp add: read_ident_def nth_append)
qed

lemma read_ident_result:
  assumes "read_ident s i = Some (x, e)"
  shows "is_ident x" "e = i + length x" "take (length x) (drop i s) = x"
proof -
  from assms have i: "i < length s" "ident_start (s ! i)" "x = s ! i # takeWhile ident_char (drop (Suc i) s)" "e = i + length x"
    by (auto simp: read_ident_def Let_def split: if_splits)
  show "is_ident x" using i(2,3) by (auto simp: is_ident_def list_all_iff dest: set_takeWhileD)
  show "e = i + length x" by (rule i(4))
  show "take (length x) (drop i s) = x"
    unfolding i(3) using Cons_nth_drop_Suc [OF i(1), symmetric] by (simp add: takeWhile_eq_take [symmetric])
qed

lemma char_at_append [simp]: "char_at (pre @ c # rest) (length pre) d \<longleftrightarrow> c = d"
  by (auto simp: char_at_def)

lemma format_segment_head: "concat (map format_segment path) = '''' \<or> \<not> ident_char (hd (concat (map format_segment path)))"
proof (cases path)
  case (Cons seg rest)
  then show ?thesis by (cases seg) (auto simp: ident_char_def js_char_defs)
qed simp

lemma takeWhile_digits: "takeWhile js_digit (nat_to_string n @ CHR '']'' # rest) = nat_to_string n"
  using all_digits_to_string [of n] by (subst takeWhile_append2) (auto simp: all_digits_def list_all_iff js_digit_def)

lemma parse_printed_path:
  assumes "list_all ident_segment path"
  shows "parse_path (pre @ concat (map format_segment path)) (length pre) = Inr path"
  using assms
proof (induction path arbitrary: pre)
  case Nil
  show ?case by (simp add: parse_path.simps)
next
  case (Cons seg path)
  show ?case
  proof (cases seg)
    case (Key k)
    have "read_ident ((pre @ ''.'') @ k @ concat (map format_segment path)) (length (pre @ ''.'')) = Some (k, length (pre @ ''.'') + length k)"
      by (rule read_ident_at [OF _ format_segment_head]) (use Cons.prems Key in simp)
    moreover have "parse_path ((pre @ ''.'' @ k) @ concat (map format_segment path)) (length (pre @ ''.'' @ k)) = Inr path"
      by (rule Cons.IH) (use Cons.prems in simp)
    ultimately show ?thesis
      by (subst parse_path.simps) (simp add: Key map_result_def nth_append)
  next
    case (At i)
    have "parse_path ((pre @ ''['' @ nat_to_string i @ '']'') @ concat (map format_segment path)) (length (pre @ ''['' @ nat_to_string i @ '']'')) = Inr path"
      by (rule Cons.IH) (use Cons.prems in simp)
    moreover have "char_at (pre @ ''['' @ nat_to_string i @ '']'' @ rest) (Suc (length pre + length (nat_to_string i))) (CHR '']'')" for rest
      by (simp add: char_at_def nth_append)
    moreover have "nat_to_string i \<noteq> ''''" using all_digits_to_string [of i] by (simp add: all_digits_def)
    ultimately show ?thesis
      by (subst parse_path.simps) (simp add: At map_result_def nth_append takeWhile_digits Let_def)
  qed
qed

lemma ident_char_not_space: "ident_char c \<Longrightarrow> \<not> js_space c"
  by (auto simp: ident_char_def js_char_defs)

lemma is_ident_chars: "is_ident x \<Longrightarrow> c \<in> set x \<Longrightarrow> ident_char c"
  by (cases x) (auto simp: is_ident_def ident_start_def ident_char_def list_all_iff)

text \<open>The characters of a printed reference, none of them white space.\<close>

lemma format_not_space:
  assumes "ident_reference e" "c \<in> set (format_reference e)"
  shows "\<not> js_space c"
proof -
  have seg: "\<not> js_space c" if "ident_segment seg" "c \<in> set (format_segment seg)" for seg
  proof (cases seg)
    case (Key k)
    then have "c = CHR ''.'' \<or> ident_char c" using that is_ident_chars by auto
    moreover have "\<not> js_space (CHR ''.'')" by (simp add: js_space_def)
    ultimately show ?thesis using ident_char_not_space by blast
  next
    case (At i)
    then show ?thesis using that all_digits_to_string [of i]
      by (auto simp: js_space_def all_digits_def list_all_iff js_digit_def)
  qed
  have fixed: "c \<in> set ''params.'' \<or> c \<in> set ''steps.'' \<or> c \<in> set ''.output'' \<Longrightarrow> \<not> js_space c"
    by (auto simp: js_space_def)
  have ident: "is_ident x \<Longrightarrow> c \<in> set x \<Longrightarrow> \<not> js_space c" for x by (rule ident_char_not_space [OF is_ident_chars])
  show ?thesis
  proof (cases e)
    case (Param_Ref name)
    then show ?thesis using assms fixed ident unfolding Param_Ref format_reference.simps set_append Un_iff ident_reference.simps by blast
  next
    case (Step_Output step_id path)
    then consider "c \<in> set ''steps.'' \<or> c \<in> set ''.output''" | "c \<in> set step_id" | seg where "seg \<in> set path" "c \<in> set (format_segment seg)"
      using assms(2) unfolding Step_Output format_reference.simps set_append Un_iff set_concat set_map by blast
    then show ?thesis
    proof cases
      case 3
      then show ?thesis using assms(1) seg unfolding Step_Output ident_reference.simps list_all_iff by blast
    qed (use assms(1) fixed ident Step_Output in auto)
  qed
qed

lemma no_space_trimmed: "(\<And>c. c \<in> set s \<Longrightarrow> \<not> js_space c) \<Longrightarrow> js_trim s = s"
  by (rule js_trim_id) (auto simp: trimmed_def)

lemma parse_format:
  assumes "ident_reference e"
  shows "parse_reference (format_reference e) = Inr e"
proof -
  have trim: "js_trim (format_reference e) = format_reference e"
    by (rule no_space_trimmed) (rule format_not_space [OF assms])
  show ?thesis
  proof (cases e)
    case (Param_Ref name)
    have "read_ident ([] @ ''params'' @ ''.'' @ name) (length ([] :: string)) = Some (''params'', length ([] :: string) + length ''params'')"
      by (rule read_ident_at) (auto simp: is_ident_def ident_start_def ident_char_def js_char_defs)
    moreover have "read_ident (''params.'' @ name @ []) (length ''params.'') = Some (name, length ''params.'' + length name)"
      by (rule read_ident_at) (use assms Param_Ref in auto)
    ultimately show ?thesis
      unfolding parse_reference_def trim by (simp add: Param_Ref char_at_def)
  next
    case (Step_Output step_id path)
    let ?p = "concat (map format_segment path)"
    have "read_ident ([] @ ''steps'' @ ''.'' @ step_id @ ''.output'' @ ?p) (length ([] :: string)) = Some (''steps'', length ([] :: string) + length ''steps'')"
      by (rule read_ident_at) (auto simp: is_ident_def ident_start_def ident_char_def js_char_defs)
    moreover have "read_ident (''steps.'' @ step_id @ ''.output'' @ ?p) (length ''steps.'') = Some (step_id, length ''steps.'' + length step_id)"
      by (rule read_ident_at) (use assms Step_Output in \<open>auto simp: ident_char_def js_char_defs\<close>)
    moreover have "read_ident ((''steps.'' @ step_id @ ''.'') @ ''output'' @ ?p) (length (''steps.'' @ step_id @ ''.'')) =
        Some (''output'', length (''steps.'' @ step_id @ ''.'') + length ''output'')"
      by (rule read_ident_at [OF _ format_segment_head]) (auto simp: is_ident_def ident_start_def ident_char_def js_char_defs)
    moreover have "parse_path ((''steps.'' @ step_id @ ''.output'') @ ?p) (length (''steps.'' @ step_id @ ''.output'')) = Inr path"
      by (rule parse_printed_path) (use assms Step_Output in simp)
    ultimately show ?thesis
      unfolding parse_reference_def trim by (simp add: Step_Output char_at_def nth_append map_result_def)
  qed
qed

lemma parse_path_idents: "parse_path s i = Inr path \<Longrightarrow> list_all ident_segment path"
proof (induction s i arbitrary: path rule: parse_path.induct)
  case (1 s i)
  note path = "1.prems" [unfolded parse_path.simps [of s i]]
  show ?case
  proof (cases "i \<ge> length s \<or> s ! i \<noteq> CHR ''.''")
    case True
    then show ?thesis using path 1(2) by (auto simp: map_result_def bind_result_Inr_iff Let_def split: if_splits)
  next
    case False
    then obtain name e rest where name: "read_ident s (Suc i) = Some (name, e)" "parse_path s e = Inr rest" "path = Key name # rest"
      using path by (auto simp: map_result_def bind_result_Inr_iff split: option.splits)
    have "list_all ident_segment rest" using 1(1) [of "(name, e)"] False name by auto
    then show ?thesis using read_ident_result(1) [OF name(1)] name(3) by simp
  qed
qed

lemma parse_idents:
  assumes "parse_reference s = Inr e"
  shows "ident_reference e"
proof -
  let ?s = "js_trim s"
  from assms consider
      name i j where "read_ident ?s i = Some (name, j)" "e = Param_Ref name"
    | step_id i j k path where "read_ident ?s i = Some (step_id, j)" "parse_path ?s k = Inr path" "e = Step_Output step_id path"
    by (auto simp: parse_reference_def Let_def map_result_def bind_result_Inr_iff split: if_splits option.splits)
  then show ?thesis by cases (auto dest: read_ident_result(1) parse_path_idents)
qed

text \<open>A reference that parses is printed in a canonical spelling which parses back to the same reference: white space around
  it and leading zeros of an index are all that is lost.\<close>

theorem reference_reads_back:
  assumes "parse_reference s = Inr e"
  shows "parse_reference (format_reference e) = Inr e"
  using parse_format [OF parse_idents [OF assms]] .

lemma reference_reads_back_witness:
  "parse_reference (format_reference (Step_Output ''review'' [Key ''files'', At 2])) = Inr (Step_Output ''review'' [Key ''files'', At 2])
     \<and> parse_reference '' steps.review.output.files[02]'' = Inr (Step_Output ''review'' [Key ''files'', At 2])"
proof -
  have "parse_reference '' steps.review.output.files[02]'' = Inr (Step_Output ''review'' [Key ''files'', At 2])" by code_simp
  with reference_reads_back [OF this] show ?thesis by simp
qed

section \<open>Resolution\<close>

datatype resolution_error =
    Undefined_Param string
  | No_Recorded_Output string
  | Not_An_Array string nat
  | Out_Of_Bounds string nat nat
  | Not_An_Object string string
  | No_Such_Property string string
  | Resolved_To_Null
  | Bad_Reference parse_error

record expression_scope =
  scope_params :: json_object
  scope_outputs :: json_object

text \<open>\<open>finish\<close>; a JSON value is never \<open>undefined\<close>.\<close>

definition finish :: "json \<Rightarrow> (resolution_error, json) result" where
  "finish v = (if v = JNull then Inl Resolved_To_Null else Inr v)"

primrec walk_path :: "path_segment list \<Rightarrow> json \<Rightarrow> string \<Rightarrow> (resolution_error, json) result" where
  "walk_path [] current walked = finish current"
| "walk_path (seg # path) current walked =
     (case seg of
        At i \<Rightarrow> (case current of
            JArr xs \<Rightarrow> if i \<ge> length xs then Inl (Out_Of_Bounds walked i (length xs))
              else walk_path path (xs ! i) (walked @ ''['' @ nat_to_string i @ '']'')
          | _ \<Rightarrow> Inl (Not_An_Array walked i))
      | Key k \<Rightarrow> (case current of
            JObj fs \<Rightarrow> (case field fs k of
                None \<Rightarrow> Inl (No_Such_Property walked k)
              | Some v \<Rightarrow> walk_path path v (walked @ ''.'' @ k))
          | _ \<Rightarrow> Inl (Not_An_Object walked k)))"

fun resolve_reference :: "expression_ast \<Rightarrow> expression_scope \<Rightarrow> (resolution_error, json) result" where
  "resolve_reference (Param_Ref name) scope = (case field (scope_params scope) name of
     None \<Rightarrow> Inl (Undefined_Param name) | Some v \<Rightarrow> finish v)"
| "resolve_reference (Step_Output step_id path) scope = (case field (scope_outputs scope) step_id of
     None \<Rightarrow> Inl (No_Recorded_Output step_id) | Some v \<Rightarrow> walk_path path v (''steps.'' @ step_id @ ''.output''))"

definition resolve_reference_string :: "string \<Rightarrow> expression_scope \<Rightarrow> (resolution_error, json) result" where
  "resolve_reference_string s scope = (case parse_reference s of
     Inl e \<Rightarrow> Inl (Bad_Reference e) | Inr e \<Rightarrow> resolve_reference e scope)"

section \<open>Typing references by output schemas\<close>

text \<open>
  A path into values of one schema that ends in values of another: properties that are required of what must be an object, and
  elements of what must be an array.
\<close>

inductive typed_path :: "schema \<Rightarrow> path_segment list \<Rightarrow> schema \<Rightarrow> bool" where
  here: "typed_path S [] S"
| property: "types_of S = [''object''] \<Longrightarrow> k \<in> set (required_of S) \<Longrightarrow> (k, S') \<in> set (properties_of S) \<Longrightarrow>
     typed_path S' path T \<Longrightarrow> typed_path S (Key k # path) T"
| element: "types_of S = [''array''] \<Longrightarrow> items_of S = Some S' \<Longrightarrow> typed_path S' path T \<Longrightarrow> typed_path S (At i # path) T"

inductive_cases typed_pathE [elim!]: "typed_path S [] T" "typed_path S (Key k # path) T" "typed_path S (At i # path) T"

lemma accepts_type: "accepts S v \<Longrightarrow> types_of S = [t] \<Longrightarrow> matches_type (type_of v) t"
  by (cases S) (simp add: accepts.simps)

lemma accepts_object:
  assumes "accepts S v" "types_of S = [''object'']"
  obtains fs where "v = JObj fs" "\<And>k. k \<in> set (required_of S) \<Longrightarrow> has_own fs k"
    "\<And>k S' x. (k, S') \<in> set (properties_of S) \<Longrightarrow> field fs k = Some x \<Longrightarrow> accepts S' x"
proof -
  obtain fs where v: "v = JObj fs"
    using accepts_type [OF assms] by (cases v) (auto simp: matches_type_def split: if_splits)
  show ?thesis
  proof (rule that [OF v])
    show "has_own fs k" if "k \<in> set (required_of S)" for k
      using assms(1) that by (cases S) (simp add: accepts.simps v)
    show "accepts S' x" if "(k, S') \<in> set (properties_of S)" "field fs k = Some x" for k S' x
      using assms(1) that by (cases S) (fastforce simp: accepts.simps v)
  qed
qed

lemma accepts_array:
  assumes "accepts S v" "types_of S = [''array'']"
  obtains xs where "v = JArr xs" "\<And>S' x. items_of S = Some S' \<Longrightarrow> x \<in> set xs \<Longrightarrow> accepts S' x"
proof -
  obtain xs where v: "v = JArr xs"
    using accepts_type [OF assms] by (cases v) (auto simp: matches_type_def split: if_splits)
  show ?thesis
    by (rule that [OF v]) (use assms(1) in \<open>cases S; simp add: accepts.simps v\<close>)
qed

text \<open>The value a path leads to, by itself: the property of an object, the element of an array.\<close>

primrec leads_to :: "json \<Rightarrow> path_segment list \<Rightarrow> json \<Rightarrow> bool" where
  "leads_to v [] w \<longleftrightarrow> w = v"
| "leads_to v (seg # path) w \<longleftrightarrow> (case seg of
     Key k \<Rightarrow> (\<exists>fs x. v = JObj fs \<and> field fs k = Some x \<and> leads_to x path w)
   | At i \<Rightarrow> (\<exists>xs. v = JArr xs \<and> i < length xs \<and> leads_to (xs ! i) path w))"

lemma leads_to_functional: "leads_to v path w \<Longrightarrow> leads_to v path w' \<Longrightarrow> w' = w"
  by (induction path arbitrary: v) (auto split: path_segment.splits)

text \<open>A path leads nowhere past the end of an array: some index of it is not below the length of the array that the segments
  before it lead to.\<close>

definition past_the_end :: "json \<Rightarrow> path_segment list \<Rightarrow> path_segment list \<Rightarrow> nat \<Rightarrow> nat \<Rightarrow> bool" where
  "past_the_end v path before i n \<longleftrightarrow> (\<exists>xs rest. path = before @ At i # rest \<and> leads_to v before (JArr xs) \<and> n = length xs \<and> n \<le> i)"

text \<open>What a well-typed walk gives: the value the path leads to, which is refused exactly when it is \<open>null\<close>, or the position at which
  an index left its array.\<close>

definition typed_outcome :: "schema \<Rightarrow> json \<Rightarrow> path_segment list \<Rightarrow> string \<Rightarrow> (resolution_error, json) result \<Rightarrow> bool" where
  "typed_outcome T v path walked r \<longleftrightarrow>
     (\<exists>w. leads_to v path w \<and> accepts T w \<and> r = (if w = JNull then Inl Resolved_To_Null else Inr w)) \<or>
     (\<exists>before i n. past_the_end v path before i n \<and> r = Inl (Out_Of_Bounds (walked @ concat (map format_segment before)) i n))"

lemma typed_outcome_Key:
  assumes "field fs k = Some x" "typed_outcome T x path (walked @ ''.'' @ k) r"
  shows "typed_outcome T (JObj fs) (Key k # path) walked r"
  using assms(2) unfolding typed_outcome_def
proof (elim disjE exE conjE)
  fix w assume "leads_to x path w" "accepts T w" "r = (if w = JNull then Inl Resolved_To_Null else Inr w)"
  then show "(\<exists>w. leads_to (JObj fs) (Key k # path) w \<and> accepts T w \<and> r = (if w = JNull then Inl Resolved_To_Null else Inr w)) \<or>
    (\<exists>before i n. past_the_end (JObj fs) (Key k # path) before i n \<and> r = Inl (Out_Of_Bounds (walked @ concat (map format_segment before)) i n))"
    using assms(1) by auto
next
  fix before i n
  assume past: "past_the_end x path before i n" and r: "r = Inl (Out_Of_Bounds ((walked @ ''.'' @ k) @ concat (map format_segment before)) i n)"
  have "past_the_end (JObj fs) (Key k # path) (Key k # before) i n"
    using past assms(1) by (auto simp: past_the_end_def)
  with r show "(\<exists>w. leads_to (JObj fs) (Key k # path) w \<and> accepts T w \<and> r = (if w = JNull then Inl Resolved_To_Null else Inr w)) \<or>
    (\<exists>before i n. past_the_end (JObj fs) (Key k # path) before i n \<and> r = Inl (Out_Of_Bounds (walked @ concat (map format_segment before)) i n))"
    by (intro disjI2 exI [of _ "Key k # before"] exI [of _ i] exI [of _ n]) simp
qed

lemma typed_outcome_At:
  assumes "i < length xs" "typed_outcome T (xs ! i) path (walked @ ''['' @ nat_to_string i @ '']'') r"
  shows "typed_outcome T (JArr xs) (At i # path) walked r"
  using assms(2) unfolding typed_outcome_def
proof (elim disjE exE conjE)
  fix w assume "leads_to (xs ! i) path w" "accepts T w" "r = (if w = JNull then Inl Resolved_To_Null else Inr w)"
  then show "(\<exists>w. leads_to (JArr xs) (At i # path) w \<and> accepts T w \<and> r = (if w = JNull then Inl Resolved_To_Null else Inr w)) \<or>
    (\<exists>before j n. past_the_end (JArr xs) (At i # path) before j n \<and> r = Inl (Out_Of_Bounds (walked @ concat (map format_segment before)) j n))"
    using assms(1) by auto
next
  fix before j n
  assume past: "past_the_end (xs ! i) path before j n"
    and r: "r = Inl (Out_Of_Bounds ((walked @ ''['' @ nat_to_string i @ '']'') @ concat (map format_segment before)) j n)"
  have "past_the_end (JArr xs) (At i # path) (At i # before) j n"
    using past assms(1) by (auto simp: past_the_end_def)
  with r show "(\<exists>w. leads_to (JArr xs) (At i # path) w \<and> accepts T w \<and> r = (if w = JNull then Inl Resolved_To_Null else Inr w)) \<or>
    (\<exists>before j n. past_the_end (JArr xs) (At i # path) before j n \<and> r = Inl (Out_Of_Bounds (walked @ concat (map format_segment before)) j n))"
    by (intro disjI2 exI [of _ "At i # before"] exI [of _ j] exI [of _ n]) simp
qed

lemma typed_walk: "typed_path S path T \<Longrightarrow> accepts S v \<Longrightarrow> typed_outcome T v path walked (walk_path path v walked)"
proof (induction S path T arbitrary: v walked rule: typed_path.induct)
  case (here S)
  then show ?case by (auto simp: typed_outcome_def finish_def)
next
  case (property S k S' path T)
  from accepts_object [OF property.prems property.hyps(1)] obtain fs where
    fs: "v = JObj fs" "has_own fs k" "\<And>x. field fs k = Some x \<Longrightarrow> accepts S' x"
    using property.hyps(2,3) by metis
  then obtain x where "field fs k = Some x" "accepts S' x" by (auto simp: has_own_def)
  then show ?case using property.IH fs(1) by (simp add: typed_outcome_Key)
next
  case (element S S' path T i)
  from accepts_array [OF element.prems element.hyps(1)] obtain xs where
    xs: "v = JArr xs" "\<And>x. x \<in> set xs \<Longrightarrow> accepts S' x"
    using element.hyps(2) by metis
  show ?case
  proof (cases "i < length xs")
    case True
    then show ?thesis using element.IH xs by (simp add: typed_outcome_At)
  next
    case False
    then have "past_the_end v (At i # path) [] i (length xs)" by (simp add: past_the_end_def xs(1))
    then show ?thesis using False xs(1) by (auto simp: typed_outcome_def intro!: exI [of _ "[]"])
  qed
qed

text \<open>C22: a step output that passed the validation of its checked schema is typed by it: a reference that follows required properties
  and array elements of the schema either leads to a value, which then is one of the schema the reference ends at and is what the reference
  resolves to, refused exactly if it is \<open>null\<close> (\<open>false\<close>, \<open>0\<close> and the empty text are values like any other); or one of its indices is beyond
  the end of the array it is applied to, and the error names the path up to that array, the index and the length.\<close>

theorem typed_reference_resolves:
  assumes "check_json_schema_definition s = []" "schema_meaning s = Some S" "typed_path S path T"
    and "field (scope_outputs scope) step_id = Some v" "validate_json_schema_subset v s redact = []"
  shows "(\<exists>w. leads_to v path w \<and> accepts T w \<and>
      resolve_reference (Step_Output step_id path) scope = (if w = JNull then Inl Resolved_To_Null else Inr w)) \<or>
    (\<exists>before i n. past_the_end v path before i n \<and>
      resolve_reference (Step_Output step_id path) scope = Inl (Out_Of_Bounds (format_reference (Step_Output step_id before)) i n))"
proof -
  have "accepts S v"
    using validate_accepts assms(2,5) unfolding schema_meaning_def validate_json_schema_subset_def by blast
  from typed_walk [OF assms(3) this, of "''steps.'' @ step_id @ ''.output''"] show ?thesis
    using assms(4) by (simp add: typed_outcome_def)
qed

definition review_schema :: json_object where
  "review_schema = [(''type'', JStr ''object''), (''required'', JArr [JStr ''files'']),
     (''properties'', JObj [(''files'', JObj [(''type'', JStr ''array''), (''items'', JObj [(''type'', JStr ''string'')])])])]"

definition text_type :: schema where
  "text_type = Schema [''string''] None [] [] [] None None None None None None None None [] [] False"

definition files_type :: schema where
  "files_type = Schema [''array''] None [] [] [] None None None None None None None (Some text_type) [] [] False"

definition review_type :: schema where
  "review_type = Schema [''object''] None [] [] [] None None None None None None None None [''files''] [(''files'', files_type)] False"

definition review_output :: json where
  "review_output = JObj [(''files'', JArr [JStr ''a.md'', JStr ''b.md''])]"

lemma typed_reference_resolves_witness:
  "let scope = \<lparr>scope_params = [], scope_outputs = [(''review'', review_output)]\<rparr>; r = resolve_reference (Step_Output ''review'' [Key ''files'', At 1]) scope in
     (\<exists>w. leads_to review_output [Key ''files'', At 1] w \<and> accepts text_type w \<and> r = (if w = JNull then Inl Resolved_To_Null else Inr w)) \<and>
     r = Inr (JStr ''b.md'')"
proof -
  let ?scope = "\<lparr>scope_params = [], scope_outputs = [(''review'', review_output)]\<rparr>"
  have typed: "typed_path review_type [Key ''files'', At 1] text_type"
    by (auto simp: review_type_def files_type_def intro!: typed_path.intros)
  have "check_json_schema_definition review_schema = []" "validate_json_schema_subset review_output review_schema False = []"
    "schema_meaning review_schema = Some review_type" by code_simp+
  note ready = this
  have outputs: "field (scope_outputs ?scope) ''review'' = Some review_output" by (simp add: field_def)
  have result: "resolve_reference (Step_Output ''review'' [Key ''files'', At 1]) ?scope = Inr (JStr ''b.md'')"
    by (simp add: field_def review_output_def finish_def)
  from typed_reference_resolves [OF ready(1,3) typed outputs ready(2)] show ?thesis
    unfolding Let_def result by auto
qed

end
