(* ===== verification/Run_Exports.thy ===== *)
theory Run_Exports
  imports Step_References
begin

text \<open>
  What a workflow run exports: the declared outputs of a completed run and the exported result
  (\<^verbatim>\<open>src/workflows/runtime/run-outputs.ts\<close>), and the check made when a parent workflow is frozen that it reads only what its
  child workflows export (\<^verbatim>\<open>src/workflows/freeze/child-output-references.ts\<close>).
\<close>

section \<open>Declared outputs\<close>

record output_declaration =
  declared_from :: string
  declared_schema :: "json_object option"

text \<open>The evidence column of a step row: empty, text that does not parse, or a value.\<close>

datatype evidence = No_Evidence | Bad_Evidence | Evidence json

record step_row =
  row_step_id :: string
  row_evidence :: evidence

text \<open>\<open>Object.hasOwn\<close> throws on \<open>null\<close>.\<close>

definition project_step_output :: "json \<Rightarrow> (string, json) result" where
  "project_step_output v = (case v of
     JNull \<Rightarrow> Inl ''TypeError''
   | JObj fs \<Rightarrow> Inr (case field fs ''output'' of Some out \<Rightarrow> out | None \<Rightarrow> v)
   | _ \<Rightarrow> Inr v)"

text \<open>The artifacts by step; of two rows with one step id the later counts.\<close>

fun step_outputs :: "step_row list \<Rightarrow> json_object \<Rightarrow> (string, json_object) result" where
  "step_outputs [] acc = Inr acc"
| "step_outputs (row # rows) acc = (case row_evidence row of
     Evidence v \<Rightarrow> bind_result (project_step_output v) (\<lambda>out. step_outputs rows ((row_step_id row, out) # acc))
   | _ \<Rightarrow> step_outputs rows acc)"

datatype output_error =
    Not_A_Step_Reference string string
  | Unresolved_Output string resolution_error
  | Schema_Violation string complaint

definition resolve_output :: "expression_scope \<Rightarrow> string \<Rightarrow> output_declaration \<Rightarrow> (output_error list, json) result" where
  "resolve_output scope name decl = (case parse_reference (declared_from decl) of
     Inr (Step_Output step_id path) \<Rightarrow>
       (case resolve_reference_string (declared_from decl) scope of
          Inl e \<Rightarrow> Inl [Unresolved_Output name e]
        | Inr v \<Rightarrow>
            (let violations = (case declared_schema decl of None \<Rightarrow> [] | Some s \<Rightarrow> validate_json_schema_subset v s False)
             in if violations \<noteq> [] then Inl (map (Schema_Violation name) violations) else Inr v))
   | _ \<Rightarrow> Inl [Not_A_Step_Reference name (declared_from decl)])"

fun resolve_outputs :: "expression_scope \<Rightarrow> (string \<times> output_declaration) list \<Rightarrow> json_object \<times> output_error list" where
  "resolve_outputs scope [] = ([], [])"
| "resolve_outputs scope ((name, decl) # decls) =
     (case resolve_outputs scope decls of (outputs, errors) \<Rightarrow>
        (case resolve_output scope name decl of
           Inl es \<Rightarrow> (outputs, es @ errors) | Inr v \<Rightarrow> ((name, v) # outputs, errors)))"

definition resolve_workflow_run_outputs ::
  "(string \<times> output_declaration) list \<Rightarrow> step_row list \<Rightarrow> (string, json_object \<times> output_error list) result" where
  "resolve_workflow_run_outputs decls rows =
     map_result (\<lambda>artifacts. resolve_outputs \<lparr>scope_params = [], scope_outputs = artifacts\<rparr> decls) (step_outputs rows [])"

text \<open>
  What a completed run exports, as its completion stores it and \<open>workflowRunExportedResult\<close> reads it back; errors of the resolution
  only become warnings.
\<close>

definition exported_result ::
  "(string \<times> output_declaration) list option \<Rightarrow> step_row list \<Rightarrow> string \<Rightarrow> string \<Rightarrow> (string, json \<times> output_error list) result" where
  "exported_result decls rows run_id status = (case decls of
     None \<Rightarrow> Inr (JObj [(''runId'', JStr run_id), (''status'', JStr status)], [])
   | Some ds \<Rightarrow> map_result (\<lambda>(outputs, errors). (JObj outputs, errors)) (resolve_workflow_run_outputs ds rows))"

section \<open>The check of references to child workflows\<close>

datatype input_binding = Literal_Input string json | Reference_Input string string

datatype frozen_target =
    Child_Workflow string "(string \<times> output_declaration) list option" "input_binding list"
  | Other_Target "input_binding list"

record unit_node =
  unit_inputs :: "string list"
  unit_target :: frozen_target

datatype exec_node = Unit_Node unit_node | Map_Node string unit_node

record step_plan =
  plan_step_id :: string
  plan_root :: "exec_node option"
  plan_route_input :: "string option"

fun node_unit :: "exec_node \<Rightarrow> unit_node" where
  "node_unit (Unit_Node u) = u"
| "node_unit (Map_Node over u) = u"

definition step_frozen_target :: "step_plan option \<Rightarrow> frozen_target option" where
  "step_frozen_target step = Option.bind step (\<lambda>st. map_option (\<lambda>root_node. unit_target (node_unit root_node)) (plan_root st))"

fun target_bindings :: "frozen_target \<Rightarrow> input_binding list" where
  "target_bindings (Child_Workflow ref outputs bindings) = bindings"
| "target_bindings (Other_Target bindings) = bindings"

definition collect_reference_sites :: "step_plan \<Rightarrow> string list" where
  "collect_reference_sites step =
     (case plan_route_input step of None \<Rightarrow> [] | Some r \<Rightarrow> [r])
   @ (case plan_root step of
        None \<Rightarrow> []
      | Some node \<Rightarrow>
          (case node of Map_Node over u \<Rightarrow> [over] | Unit_Node u \<Rightarrow> [])
        @ unit_inputs (node_unit node)
        @ concat (map (\<lambda>b. case b of Reference_Input name ref \<Rightarrow> [ref] | Literal_Input name v \<Rightarrow> []) (target_bindings (unit_target (node_unit node)))))"

definition accepted_first_segments :: "(string \<times> output_declaration) list option \<Rightarrow> string list" where
  "accepted_first_segments outputs = (case outputs of Some ds \<Rightarrow> map fst ds | None \<Rightarrow> [''runId'', ''status''])"

text \<open>The plan step with an id; of two with one id the later counts, as in a \<open>Map\<close> built from entries.\<close>

definition steps_by_id :: "step_plan list \<Rightarrow> string \<Rightarrow> step_plan option" where
  "steps_by_id steps = map_of (map (\<lambda>st. (plan_step_id st, st)) (rev steps))"

definition check_site :: "step_plan list \<Rightarrow> string \<Rightarrow> string \<Rightarrow> (string \<times> string, unit) result" where
  "check_site steps step_id reference = (case parse_reference reference of
     Inr (Step_Output target (first # rest)) \<Rightarrow>
       (case step_frozen_target (steps_by_id steps target) of
          Some (Child_Workflow ref outputs bindings) \<Rightarrow>
            (case first of
               Key k \<Rightarrow> if k \<in> set (accepted_first_segments outputs) then Inr () else Inl (step_id, reference)
             | At i \<Rightarrow> Inl (step_id, reference))
        | _ \<Rightarrow> Inr ())
   | _ \<Rightarrow> Inr ())"

definition assert_child_output_references :: "step_plan list \<Rightarrow> (string \<times> string, unit) result" where
  "assert_child_output_references steps =
     map_result (\<lambda>_. ()) (mapM_result (\<lambda>st.
       mapM_result (check_site steps (plan_step_id st)) (collect_reference_sites st)) steps)"

section \<open>Exports\<close>

lemma resolve_outputs_complete:
  assumes "resolve_outputs scope decls = (outputs, [])"
  shows "map fst outputs = map fst decls"
  using assms
proof (induction decls arbitrary: outputs)
  case (Cons nd decls)
  obtain name decl where nd: "nd = (name, decl)" by (cases nd)
  obtain outs errs where rest: "resolve_outputs scope decls = (outs, errs)" by (cases "resolve_outputs scope decls")
  have "es \<noteq> []" if "resolve_output scope name decl = Inl es" for es
    using that by (auto simp: resolve_output_def Let_def split: sum.splits expression_ast.splits option.splits if_splits)
  then show ?case using Cons rest by (auto simp: nd split: sum.splits)
qed simp

lemma resolve_outputs_typed:
  assumes "resolve_outputs scope decls = (outputs, errors)" "(name, v) \<in> set outputs"
  shows "\<exists>decl. (name, decl) \<in> set decls \<and> (\<forall>s. declared_schema decl = Some s \<longrightarrow> validate_json_schema_subset v s False = [])"
  using assms
proof (induction decls arbitrary: outputs errors)
  case (Cons nd decls)
  obtain n decl where nd: "nd = (n, decl)" by (cases nd)
  obtain outs errs where rest: "resolve_outputs scope decls = (outs, errs)" by (cases "resolve_outputs scope decls")
  have here: "\<forall>s. declared_schema decl = Some s \<longrightarrow> validate_json_schema_subset x s False = []" if "resolve_output scope n decl = Inr x" for x
    using that by (auto simp: resolve_output_def Let_def split: sum.splits expression_ast.splits option.splits if_splits)
  show ?case
  proof (cases "resolve_output scope n decl")
    case (Inl es)
    then show ?thesis using Cons rest nd by auto
  next
    case (Inr x)
    then have "(name, v) = (n, x) \<or> (name, v) \<in> set outs" using Cons.prems rest nd by auto
    then show ?thesis using here [OF Inr] Cons.IH [OF rest] nd by auto
  qed
qed simp

text \<open>C23: a reference into a child workflow's output that the freeze-time check has accepted finds its first segment in what the
  completed child exports, provided every declared output of the child resolved.\<close>

theorem checked_child_reference_is_exported:
  assumes "assert_child_output_references steps = Inr ()"
    and "st \<in> set steps" "reference \<in> set (collect_reference_sites st)"
    and "parse_reference reference = Inr (Step_Output target (first # rest))"
    and "step_frozen_target (steps_by_id steps target) = Some (Child_Workflow ref outputs bindings)"
    and "exported_result outputs rows run_id status = Inr (v, [])"
  shows "\<exists>k fs x. first = Key k \<and> v = JObj fs \<and> field fs k = Some x"
proof -
  have "check_site steps (plan_step_id st) reference = Inr ()"
    using assms(1-3) unfolding assert_child_output_references_def map_result_def bind_result_Inr_iff mapM_result_Inr_iff list_all2_conv_all_nth in_set_conv_nth
    by (metis (full_types) old.unit.exhaust)
  then obtain k where k: "first = Key k" "k \<in> set (accepted_first_segments outputs)"
    using assms(4,5) by (auto simp: check_site_def split: path_segment.splits if_splits)
  obtain fs where fs: "v = JObj fs" "fst ` set fs = set (accepted_first_segments outputs)"
  proof (cases outputs)
    case None
    then show ?thesis using that assms(6) by (auto simp: exported_result_def accepted_first_segments_def)
  next
    case (Some ds)
    then obtain outs artifacts where "v = JObj outs" "resolve_outputs \<lparr>scope_params = [], scope_outputs = artifacts\<rparr> ds = (outs, [])"
      using assms(6) by (auto simp: exported_result_def resolve_workflow_run_outputs_def map_result_def bind_result_Inr_iff)
    then show ?thesis using that resolve_outputs_complete Some
      by (metis accepted_first_segments_def list.set_map option.case(2))
  qed
  then have "\<exists>x. field fs k = Some x"
    using k(2) unfolding field_def by (metis not_None_eq map_of_eq_None_iff)
  then show ?thesis using k(1) fs(1) by blast
qed
definition child_outputs :: "(string \<times> output_declaration) list" where
  "child_outputs = [(''report'', \<lparr>declared_from = ''steps.write.output.text'', declared_schema = Some [(''type'', JStr ''string'')]\<rparr>)]"

definition parent_steps :: "step_plan list" where
  "parent_steps =
     [\<lparr>plan_step_id = ''build'', plan_root = Some (Unit_Node \<lparr>unit_inputs = [], unit_target = Child_Workflow ''wf'' (Some child_outputs) []\<rparr>),
        plan_route_input = None\<rparr>,
      \<lparr>plan_step_id = ''send'', plan_root = Some (Unit_Node \<lparr>unit_inputs = [''steps.build.output.report''], unit_target = Other_Target []\<rparr>),
        plan_route_input = None\<rparr>]"

definition child_rows :: "json \<Rightarrow> step_row list" where
  "child_rows v = [\<lparr>row_step_id = ''write'', row_evidence = Evidence (JObj [(''output'', v)])\<rparr>]"

lemma parent_references_accepted: "assert_child_output_references parent_steps = Inr ()"
  by code_simp

lemma checked_child_reference_is_exported_witness:
  "\<exists>k fs x. Key ''report'' = Key k \<and> JObj [(''report'', JStr ''done'')] = JObj fs \<and> field fs k = Some x"
proof (rule checked_child_reference_is_exported [OF parent_references_accepted])
  show "parent_steps ! 1 \<in> set parent_steps" by (simp add: parent_steps_def)
  show "''steps.build.output.report'' \<in> set (collect_reference_sites (parent_steps ! 1))" by code_simp
  show "parse_reference ''steps.build.output.report'' = Inr (Step_Output ''build'' [Key ''report''])" by code_simp
  show "step_frozen_target (steps_by_id parent_steps ''build'') = Some (Child_Workflow ''wf'' (Some child_outputs) [])"
    by (simp add: steps_by_id_def parent_steps_def step_frozen_target_def)
  show "exported_result (Some child_outputs) (child_rows (JObj [(''text'', JStr ''done'')])) ''run'' ''completed'' =
      Inr (JObj [(''report'', JStr ''done'')], [])" by code_simp
qed

text \<open>
  The proviso is needed.  An output that fails its schema is left out of the exported result and only reported as a warning, so the
  child still completes and the accepted reference of the parent finds nothing.
\<close>

lemma failed_output_is_left_out:
  "exported_result (Some child_outputs) (child_rows (JObj [(''text'', JNum 1)])) ''run'' ''completed'' =
     Inr (JObj [], [Schema_Violation ''report'' (Complaint ''$'' (Type_Mismatch [''string''] ''integer''))])"
  by code_simp

end
