(* ===== verification/Redaction.thy ===== *)
theory Redaction
  imports Js_Prelude
begin

text \<open>
  Redaction of exact secrets from text, \<^verbatim>\<open>src/core/redaction.ts\<close>: the search for every secret in the text as it stands, in its
  percent-decoded and in its form-decoded reading, and the single pass that writes the result.  Text is the list of its
  UTF-16 code units.
\<close>

type_synonym utf16 = "int list"

section \<open>Decoded readings of a text\<close>

definition unit_at :: "utf16 \<Rightarrow> nat \<Rightarrow> int option" where
  "unit_at s i = (if i < length s then Some (s ! i) else None)"

definition hex_value :: "int \<Rightarrow> int option" where
  "hex_value u = (if 48 \<le> u \<and> u \<le> 57 then Some (u - 48) else if 97 \<le> u \<and> u \<le> 102 then Some (u - 87)
     else if 65 \<le> u \<and> u \<le> 70 then Some (u - 55) else None)"

text \<open>A percent sign with two hexadecimal digits at a position: the byte they stand for.\<close>

definition percent_byte :: "utf16 \<Rightarrow> nat \<Rightarrow> int option" where
  "percent_byte s i = (if unit_at s i \<noteq> Some 37 then None
     else case (Option.bind (unit_at s (i + 1)) hex_value, Option.bind (unit_at s (i + 2)) hex_value) of
       (Some h, Some l) \<Rightarrow> Some (16 * h + l) | _ \<Rightarrow> None)"

definition utf8_sequence_length :: "int \<Rightarrow> nat" where
  "utf8_sequence_length b = (if b \<le> 0x7f then 1 else if 0xc2 \<le> b \<and> b \<le> 0xdf then 2 else if 0xe0 \<le> b \<and> b \<le> 0xef then 3
     else if 0xf0 \<le> b \<and> b \<le> 0xf4 then 4 else 0)"

primrec percent_bytes :: "nat \<Rightarrow> utf16 \<Rightarrow> nat \<Rightarrow> int list" where
  "percent_bytes 0 s i = []"
| "percent_bytes (Suc n) s i = (case percent_byte s i of None \<Rightarrow> [] | Some b \<Rightarrow> b # percent_bytes n s (i + 3))"

text \<open>The fatal UTF-8 decoder on one whole sequence; it drops a byte order mark.\<close>

definition continuation :: "int \<Rightarrow> bool" where
  "continuation b \<longleftrightarrow> 0x80 \<le> b \<and> b \<le> 0xbf"

fun utf8_code_point :: "int list \<Rightarrow> int option" where
  "utf8_code_point [a] = (if a \<le> 0x7f then Some a else None)"
| "utf8_code_point [a, b] = (if 0xc2 \<le> a \<and> a \<le> 0xdf \<and> continuation b then Some ((a - 0xc0) * 64 + (b - 0x80)) else None)"
| "utf8_code_point [a, b, c] =
     (if 0xe0 \<le> a \<and> a \<le> 0xef \<and> continuation b \<and> continuation c \<and> (a = 0xe0 \<longrightarrow> b \<ge> 0xa0) \<and> (a = 0xed \<longrightarrow> b \<le> 0x9f)
      then Some ((a - 0xe0) * 4096 + (b - 0x80) * 64 + (c - 0x80)) else None)"
| "utf8_code_point [a, b, c, d] =
     (if 0xf0 \<le> a \<and> a \<le> 0xf4 \<and> continuation b \<and> continuation c \<and> continuation d \<and> (a = 0xf0 \<longrightarrow> b \<ge> 0x90) \<and> (a = 0xf4 \<longrightarrow> b \<le> 0x8f)
      then Some ((a - 0xf0) * 262144 + (b - 0x80) * 4096 + (c - 0x80) * 64 + (d - 0x80)) else None)"
| "utf8_code_point _ = None"

definition code_point_units :: "int \<Rightarrow> utf16" where
  "code_point_units cp = (if cp < 0x10000 then [cp] else [0xd800 + (cp - 0x10000) div 0x400, 0xdc00 + (cp - 0x10000) mod 0x400])"

definition decode_utf8 :: "int list \<Rightarrow> utf16 option" where
  "decode_utf8 bytes = map_option (\<lambda>cp. if cp = 0xfeff then [] else code_point_units cp) (utf8_code_point bytes)"

text \<open>The characters an escape sequence at a position stands for, and the position after it.\<close>

definition decoded_at :: "utf16 \<Rightarrow> nat \<Rightarrow> (utf16 \<times> nat) option" where
  "decoded_at s i = (case percent_byte s i of
     None \<Rightarrow> None
   | Some b \<Rightarrow>
       let n = utf8_sequence_length b; bytes = percent_bytes n s i
       in if n = 0 \<or> length bytes \<noteq> n then None else map_option (\<lambda>us. (us, i + 3 * n)) (decode_utf8 bytes))"

text \<open>The one or two units of the character at a position.\<close>

definition character_at :: "utf16 \<Rightarrow> nat \<Rightarrow> utf16" where
  "character_at s i =
     (if 0xd800 \<le> s ! i \<and> s ! i \<le> 0xdbff \<and> (case unit_at s (Suc i) of None \<Rightarrow> False | Some u \<Rightarrow> 0xdc00 \<le> u \<and> u \<le> 0xdfff)
      then [s ! i, s ! Suc i] else [s ! i])"

lemma decoded_at_advances: "decoded_at s i = Some (us, j) \<Longrightarrow> i < j"
  by (auto simp: decoded_at_def Let_def split: option.splits if_splits)

lemma character_at_advances: "character_at s i \<noteq> []"
  by (simp add: character_at_def)

text \<open>\<open>normalizeEncodedText\<close>: every unit of the reading with the position its source starts at.\<close>

function normalize_encoded_text :: "utf16 \<Rightarrow> bool \<Rightarrow> nat \<Rightarrow> (int \<times> nat) list" where
  "normalize_encoded_text s plus_mode i =
     (if i \<ge> length s then []
      else case decoded_at s i of
        Some (us, j) \<Rightarrow> map (\<lambda>u. (u, i)) us @ normalize_encoded_text s plus_mode j
      | None \<Rightarrow>
          map (\<lambda>u. (u, i)) (if plus_mode \<and> character_at s i = [43] then [32] else character_at s i)
          @ normalize_encoded_text s plus_mode (i + length (character_at s i)))"
  by pat_completeness auto
termination
  by (relation "measure (\<lambda>(s, plus_mode, i). length s - i)") (use decoded_at_advances character_at_advances in \<open>auto intro: diff_less_mono2\<close>)

declare normalize_encoded_text.simps [simp del]

section \<open>Matches and coverage\<close>

text \<open>The matches of a secret from left to right, each sought after the end of the one before.\<close>

function matches_from :: "utf16 \<Rightarrow> utf16 \<Rightarrow> nat \<Rightarrow> nat list" where
  "matches_from hay needle offset =
     (if needle = [] \<or> offset + length needle > length hay then []
      else if take (length needle) (drop offset hay) = needle then offset # matches_from hay needle (offset + length needle)
      else matches_from hay needle (Suc offset))"
  by pat_completeness auto
termination by (relation "measure (\<lambda>(hay, needle, offset). length hay - offset)") (auto simp: neq_Nil_conv)

declare matches_from.simps [simp del]

type_synonym span = "nat \<times> nat"

definition plain_matches :: "utf16 \<Rightarrow> utf16 \<Rightarrow> span list" where
  "plain_matches s needle = map (\<lambda>m. (m, m + length needle)) (matches_from s needle 0)"

definition mapped_matches :: "(int \<times> nat) list \<Rightarrow> nat \<Rightarrow> utf16 \<Rightarrow> span list" where
  "mapped_matches hay source_length needle = map (\<lambda>m.
     (snd (hay ! m), if m + length needle < length hay then snd (hay ! (m + length needle)) else source_length))
     (matches_from (map fst hay) needle 0)"

definition sensitive_spans :: "utf16 \<Rightarrow> utf16 list \<Rightarrow> span list" where
  "sensitive_spans s values =
     (let mode = (\<lambda>plus_mode. concat (map (\<lambda>v.
            mapped_matches (normalize_encoded_text s plus_mode 0) (length s) (map fst (normalize_encoded_text v plus_mode 0))) values))
      in if 37 \<in> set s \<or> 43 \<in> set s then mode False @ (if 43 \<in> set s then mode True else [])
         else concat (map (plain_matches s) values))"

definition bump :: "nat \<Rightarrow> int \<Rightarrow> int list \<Rightarrow> int list" where
  "bump i d delta = delta[i := delta ! i + d]"

definition coverage_delta :: "nat \<Rightarrow> span list \<Rightarrow> int list" where
  "coverage_delta n spans = fold (\<lambda>(a, b) delta. bump b (-1) (bump a 1 delta)) spans (replicate (Suc n) 0)"

definition redacted_token :: utf16 where
  "redacted_token = [91, 82, 69, 68, 65, 67, 84, 69, 68, 93]"

text \<open>The pass over the text: what is written, the coverage so far, where the text not yet written starts, and whether anything was hidden.\<close>

record sweep =
  written :: utf16
  coverage :: int
  kept_from :: nat
  found_any :: bool

definition sweep_step :: "utf16 \<Rightarrow> int list \<Rightarrow> nat \<Rightarrow> sweep \<Rightarrow> sweep" where
  "sweep_step s delta i st =
     (let was = coverage st > 0; c = coverage st + delta ! i; is_covered = c > 0; st = st\<lparr>coverage := c\<rparr>
      in if \<not> was \<and> is_covered
         then st\<lparr>written := written st @ take (i - kept_from st) (drop (kept_from st) s) @ redacted_token, found_any := True\<rparr>
         else if was \<and> \<not> is_covered then st\<lparr>kept_from := i\<rparr> else st)"

text \<open>The order in which the program sorts the secrets does not matter: their matches are added up.\<close>

definition redact_sensitive_text :: "utf16 \<Rightarrow> utf16 list \<Rightarrow> utf16" where
  "redact_sensitive_text s sensitive =
     (let values = filter (\<lambda>v. v \<noteq> []) (remdups sensitive) in
      if values = [] then s
      else let delta = coverage_delta (length s) (sensitive_spans s values);
               end_state = fold (sweep_step s delta) [0..<Suc (length s)] \<lparr>written = [], coverage = 0, kept_from = 0, found_any = False\<rparr>
           in if found_any end_state then written end_state @ drop (kept_from end_state) s else s)"

definition units :: "string \<Rightarrow> utf16" where
  "units = map of_char"

section \<open>What the search finds\<close>

lemma matches_from_sound:
  "m \<in> set (matches_from hay needle offset) \<Longrightarrow>
    offset \<le> m \<and> m + length needle \<le> length hay \<and> take (length needle) (drop m hay) = needle"
proof (induction hay needle offset rule: matches_from.induct)
  case (1 hay needle offset)
  then show ?case
    by (subst (asm) (3) matches_from.simps) (fastforce split: if_splits)
qed

text \<open>Every occurrence meets a match: it is one, or one that starts earlier runs into it.\<close>

lemma matches_from_complete:
  "needle \<noteq> [] \<Longrightarrow> offset \<le> p \<Longrightarrow> p + length needle \<le> length hay \<Longrightarrow> take (length needle) (drop p hay) = needle \<Longrightarrow>
    \<exists>m \<in> set (matches_from hay needle offset). m \<le> p \<and> p < m + length needle"
proof (induction hay needle offset rule: matches_from.induct)
  case (1 hay needle offset)
  have inside: "\<not> (needle = [] \<or> offset + length needle > length hay)" using "1.prems" by auto
  show ?case
  proof (cases "take (length needle) (drop offset hay) = needle")
    case True
    with inside have step: "matches_from hay needle offset = offset # matches_from hay needle (offset + length needle)"
      by (simp add: matches_from.simps [of hay needle offset])
    show ?thesis
    proof (cases "p < offset + length needle")
      case True
      then show ?thesis using "1.prems"(2) step by auto
    next
      case False
      then show ?thesis using "1.IH"(1) [OF inside True] "1.prems" step by auto
    qed
  next
    case False
    with inside have step: "matches_from hay needle offset = matches_from hay needle (Suc offset)"
      by (simp add: matches_from.simps [of hay needle offset])
    have "p \<noteq> offset" using False "1.prems"(4) by auto
    then show ?thesis using "1.IH"(2) [OF inside False] "1.prems" step by auto
  qed
qed

lemma normalized_starts:
  "sorted (map snd (normalize_encoded_text s plus_mode i)) \<and>
   (\<forall>a \<in> snd ` set (normalize_encoded_text s plus_mode i). i \<le> a \<and> a < length s)"
proof (induction s plus_mode i rule: normalize_encoded_text.induct)
  case (1 s plus_mode i)
  have cons: "sorted (map snd (map (\<lambda>u. (u, i)) us @ rest)) \<and> (\<forall>a \<in> snd ` set (map (\<lambda>u. (u, i)) us @ rest). i \<le> a \<and> a < length s)"
    if "sorted (map snd rest) \<and> (\<forall>a \<in> snd ` set rest. j \<le> a \<and> a < length s)" and "i < j" and "i < length s"
    for us :: utf16 and rest :: "(int \<times> nat) list" and j
  proof -
    have "sorted (map (snd \<circ> (\<lambda>u. (u, i))) us)" by (induction us) auto
    then show ?thesis using that by (fastforce simp: sorted_append)
  qed
  show ?case
  proof (cases "i \<ge> length s")
    case True
    then show ?thesis by (simp add: normalize_encoded_text.simps)
  next
    case False
    then have inside: "i < length s" by simp
    show ?thesis
    proof (cases "decoded_at s i")
      case None
      have less: "i < i + length (character_at s i)" using character_at_advances [of s i] by simp
      have "normalize_encoded_text s plus_mode i =
          map (\<lambda>u. (u, i)) (if plus_mode \<and> character_at s i = [43] then [32] else character_at s i)
          @ normalize_encoded_text s plus_mode (i + length (character_at s i))"
        using inside None by (subst normalize_encoded_text.simps) simp
      then show ?thesis using cons [OF "1.IH"(1) [OF False None] less inside] by metis
    next
      case (Some uj)
      then obtain us j where at: "decoded_at s i = Some (us, j)" by (cases uj) auto
      have "normalize_encoded_text s plus_mode i = map (\<lambda>u. (u, i)) us @ normalize_encoded_text s plus_mode j"
        using inside at by (subst normalize_encoded_text.simps) simp
      then show ?thesis using cons [OF "1.IH"(2) [OF False at refl] decoded_at_advances [OF at] inside] by metis
    qed
  qed
qed

definition placed :: "nat \<Rightarrow> span list \<Rightarrow> bool" where
  "placed n spans \<longleftrightarrow> (\<forall>(a, b) \<in> set spans. a \<le> b \<and> b \<le> n)"

lemma placed_Nil [simp]: "placed n []"
  by (simp add: placed_def)

lemma placed_append [simp]: "placed n (xs @ ys) \<longleftrightarrow> placed n xs \<and> placed n ys"
  by (auto simp: placed_def)

lemma placed_concat: "(\<And>x. x \<in> set xs \<Longrightarrow> placed n (f x)) \<Longrightarrow> placed n (concat (map f xs))"
  by (fastforce simp: placed_def)

lemma placed_plain: "placed (length s) (plain_matches s needle)"
  by (auto simp: placed_def plain_matches_def dest: matches_from_sound)

lemma placed_mapped:
  assumes "sorted (map snd hay)" and "\<forall>a \<in> snd ` set hay. a < n"
  shows "placed n (mapped_matches hay n needle)"
proof -
  have "snd (hay ! m) \<le> (if m + length needle < length hay then snd (hay ! (m + length needle)) else n)
        \<and> (if m + length needle < length hay then snd (hay ! (m + length needle)) else n) \<le> n"
    if m: "m \<in> set (matches_from (map fst hay) needle 0)" for m
  proof -
    have le: "m + length needle \<le> length hay" using matches_from_sound [OF m] by simp
    have "needle \<noteq> []" using m by (auto simp: matches_from.simps)
    with le have "m < length hay" by (cases needle) auto
    then have start: "snd (hay ! m) < n" using assms(2) nth_mem by fastforce
    show ?thesis
    proof (cases "m + length needle < length hay")
      case True
      then have "snd (hay ! (m + length needle)) < n" using assms(2) nth_mem by fastforce
      moreover have "snd (hay ! m) \<le> snd (hay ! (m + length needle))"
        using sorted_nth_mono [OF assms(1), of m "m + length needle"] True by simp
      ultimately show ?thesis using True by simp
    next
      case False
      then show ?thesis using start by simp
    qed
  qed
  then show ?thesis by (auto simp: placed_def mapped_matches_def)
qed

lemma placed_reading: "placed (length s) (mapped_matches (normalize_encoded_text s plus_mode 0) (length s) needle)"
  using normalized_starts by (intro placed_mapped) blast+

lemma placed_sensitive: "placed (length s) (sensitive_spans s values)"
  by (simp add: sensitive_spans_def Let_def placed_concat placed_plain placed_reading)

section \<open>The sweep writes the mask\<close>

definition covered :: "span list \<Rightarrow> nat \<Rightarrow> bool" where
  "covered spans i = list_ex (\<lambda>(a, b). a \<le> i \<and> i < b) spans"

definition hits :: "span list \<Rightarrow> nat \<Rightarrow> nat" where
  "hits spans i = length (filter (\<lambda>(a, b). a \<le> i \<and> i < b) spans)"

lemma covered_iff_hits: "covered spans i \<longleftrightarrow> hits spans i > 0"
  by (auto simp: covered_def hits_def list_ex_iff filter_empty_conv)

lemma sum_list_bump: "i < length delta \<Longrightarrow> sum_list (delta[i := delta ! i + d]) = sum_list delta + (d :: int)"
  by (induction delta arbitrary: i) (auto split: nat.splits)

lemma sum_list_take_bump:
  assumes "i < length delta"
  shows "sum_list (take k (bump i d delta)) = sum_list (take k delta) + (if i < k then d else 0)"
proof (cases "i < k")
  case True
  then have "take k delta ! i = delta ! i" "i < length (take k delta)" using assms by auto
  then show ?thesis using sum_list_bump [of i "take k delta" d] True by (simp add: bump_def take_update_swap)
next
  case False
  then show ?thesis by (simp add: bump_def)
qed

lemma length_bump [simp]: "length (bump i d delta) = length delta"
  by (simp add: bump_def)

lemma sum_list_delta:
  "placed n spans \<Longrightarrow> length delta = Suc n \<Longrightarrow> 
    sum_list (take (Suc i) (fold (\<lambda>(a, b) delta. bump b (-1) (bump a 1 delta)) spans delta))
      = sum_list (take (Suc i) delta) + int (hits spans i)"
proof (induction spans arbitrary: delta)
  case Nil
  then show ?case by (simp add: hits_def)
next
  case (Cons ab spans)
  obtain a b where ab: "ab = (a, b)" by (cases ab)
  then have "a \<le> b" "b \<le> n" "placed n spans" using Cons.prems(1) by (auto simp: placed_def)
  then show ?case using Cons.IH [of "bump b (-1) (bump a 1 delta)"] Cons.prems(2) ab
    by (auto simp: sum_list_take_bump hits_def)
qed

lemma coverage_delta_hits:
  assumes "placed n spans" shows "sum_list (take (Suc i) (coverage_delta n spans)) = int (hits spans i)"
  using sum_list_delta [OF assms, of "replicate (Suc n) 0" i] by (simp add: coverage_delta_def sum_list_replicate)

text \<open>The text with every maximal run of covered positions replaced by the token.\<close>

definition masked_unit :: "utf16 \<Rightarrow> (nat \<Rightarrow> bool) \<Rightarrow> nat \<Rightarrow> utf16" where
  "masked_unit s cov i = (if \<not> cov i then [s ! i] else if i = 0 \<or> \<not> cov (i - 1) then redacted_token else [])"

definition masked :: "utf16 \<Rightarrow> (nat \<Rightarrow> bool) \<Rightarrow> utf16" where
  "masked s cov = concat (map (masked_unit s cov) [0..<length s])"

definition masked_upto :: "utf16 \<Rightarrow> (nat \<Rightarrow> bool) \<Rightarrow> nat \<Rightarrow> utf16" where
  "masked_upto s cov n = concat (map (masked_unit s cov) [0..<n])"

lemma masked_upto_0 [simp]: "masked_upto s cov 0 = []"
  by (simp add: masked_upto_def)

lemma masked_upto_Suc [simp]: "masked_upto s cov (Suc n) = masked_upto s cov n @ masked_unit s cov n"
  by (simp add: masked_upto_def)

lemma masked_none: "\<forall>i < n. \<not> cov i \<Longrightarrow> n \<le> length s \<Longrightarrow> masked_upto s cov n = take n s"
  by (induction n) (auto simp: masked_unit_def take_Suc_conv_app_nth)

text \<open>What holds of the sweep after \<open>n\<close> positions.\<close>

definition swept :: "utf16 \<Rightarrow> span list \<Rightarrow> nat \<Rightarrow> sweep \<Rightarrow> bool" where
  "swept s spans n st \<longleftrightarrow>
     coverage st = (if n = 0 then 0 else int (hits spans (n - 1)))
     \<and> (if n > 0 \<and> covered spans (n - 1) then written st = masked_upto s (covered spans) n
        else kept_from st \<le> n
          \<and> written st @ take (n - kept_from st) (drop (kept_from st) s) = masked_upto s (covered spans) (min n (length s)))
     \<and> (found_any st \<longleftrightarrow> (\<exists>i < n. covered spans i))
     \<and> (\<not> found_any st \<longrightarrow> written st = [] \<and> kept_from st = 0)"

lemma covered_below: "placed n spans \<Longrightarrow> covered spans i \<Longrightarrow> i < n"
  by (fastforce simp: placed_def covered_def list_ex_iff)

lemma take_slice_Suc: "a \<le> n \<Longrightarrow> n < length s \<Longrightarrow> take (Suc n - a) (drop a s) = take (n - a) (drop a s) @ [s ! n]"
  by (simp add: Suc_diff_le take_Suc_conv_app_nth)

lemma swept_step:
  assumes "swept s spans n st" and delta: "coverage st + delta ! n = int (hits spans n)"
    and placed: "placed (length s) spans" and n: "n \<le> length s"
  shows "swept s spans (Suc n) (sweep_step s delta n st)"
proof -
  have was: "coverage st > 0 \<longleftrightarrow> n > 0 \<and> covered spans (n - 1)"
    using assms(1) by (auto simp: swept_def covered_iff_hits)
  have now: "coverage st + delta ! n > 0 \<longleftrightarrow> covered spans n" by (simp add: delta covered_iff_hits)
  have below: "covered spans n \<Longrightarrow> n < length s" using covered_below [OF placed] .
  have ex: "(\<exists>i < Suc n. covered spans i) \<longleftrightarrow> (\<exists>i < n. covered spans i) \<or> covered spans n"
    by (auto simp: less_Suc_eq)
  consider (starts) "\<not> (n > 0 \<and> covered spans (n - 1))" "covered spans n"
    | (ends) "n > 0" "covered spans (n - 1)" "\<not> covered spans n"
    | (goes_on) "n > 0" "covered spans (n - 1)" "covered spans n"
    | (plain) "\<not> (n > 0 \<and> covered spans (n - 1))" "\<not> covered spans n" by blast
  then show ?thesis
  proof cases
    case starts
    then have "n < length s" "masked_unit s (covered spans) n = redacted_token" using below by (auto simp: masked_unit_def)
    then show ?thesis using starts assms(1) was now delta ex
      by (simp add: swept_def sweep_step_def Let_def min_absorb1)
  next
    case ends
    then have "masked_unit s (covered spans) n = [s ! n]" "found_any st"
      using assms(1) by (auto simp: masked_unit_def swept_def intro!: exI [of _ "n - 1"])
    moreover have "take (Suc 0) (drop n s) = (if n < length s then [s ! n] else [])"
      by (cases "n < length s") (auto simp: take_Suc_conv_app_nth)
    ultimately show ?thesis using ends assms(1) was now delta ex n
      by (cases "n = length s") (simp_all add: swept_def sweep_step_def Let_def min_def)
  next
    case goes_on
    then have "masked_unit s (covered spans) n = []" "found_any st"
      using assms(1) by (auto simp: masked_unit_def swept_def intro!: exI [of _ "n - 1"])
    then show ?thesis using goes_on assms(1) was now delta ex by (simp add: swept_def sweep_step_def Let_def)
  next
    case plain
    then have "masked_unit s (covered spans) n = [s ! n]" by (simp add: masked_unit_def)
    then show ?thesis using plain assms(1) was now delta ex n
      by (cases "n = length s") (auto simp: swept_def sweep_step_def Let_def min_def take_slice_Suc)
  qed
qed

lemma swept_all:
  assumes placed: "placed (length s) spans" and "n \<le> Suc (length s)"
  shows "swept s spans n (fold (sweep_step s (coverage_delta (length s) spans)) [0..<n]
           \<lparr>written = [], coverage = 0, kept_from = 0, found_any = False\<rparr>)"
  using assms(2)
proof (induction n)
  case 0
  then show ?case by (simp add: swept_def)
next
  case (Suc n)
  let ?delta = "coverage_delta (length s) spans"
  let ?st = "fold (sweep_step s ?delta) [0..<n] \<lparr>written = [], coverage = 0, kept_from = 0, found_any = False\<rparr>"
  have IH: "swept s spans n ?st" using Suc by simp
  have len: "length ?delta = Suc (length s)"
  proof -
    have "length (fold (\<lambda>(a, b) delta. bump b (-1) (bump a 1 delta)) spans d) = length d" for d :: "int list"
      by (induction spans arbitrary: d) (auto split: prod.splits)
    then show ?thesis by (simp add: coverage_delta_def)
  qed
  have "coverage ?st + ?delta ! n = int (hits spans n)"
    using IH coverage_delta_hits [OF placed, of n] coverage_delta_hits [OF placed, of "n - 1"] Suc.prems len
    by (cases n) (auto simp: swept_def take_Suc_conv_app_nth)
  then show ?case using swept_step [OF IH _ placed] Suc.prems by simp
qed

lemma redact_is_masked:
  assumes "sensitive_spans s (filter (\<lambda>v. v \<noteq> []) (remdups sensitive)) = spans"
  shows "redact_sensitive_text s sensitive = masked s (covered spans)"
proof -
  have whole: "masked_upto s (covered spans) (length s) = s" if "\<forall>i < length s. \<not> covered spans i"
    using masked_none [OF that] by simp
  have eq: "masked s (covered spans) = masked_upto s (covered spans) (length s)" by (simp add: masked_def masked_upto_def)
  show ?thesis
  proof (cases "filter (\<lambda>v. v \<noteq> []) (remdups sensitive) = []")
    case True
    then have "spans = []" using assms by (auto simp: sensitive_spans_def)
    then show ?thesis using True whole eq by (simp add: redact_sensitive_text_def Let_def covered_def)
  next
    case False
    have placed: "placed (length s) spans" using placed_sensitive assms by blast
    have over: "\<not> covered spans (length s)" using covered_below [OF placed] by blast
    define st where "st = fold (sweep_step s (coverage_delta (length s) spans)) [0..<Suc (length s)]
      \<lparr>written = [], coverage = 0, kept_from = 0, found_any = False\<rparr>"
    have "swept s spans (Suc (length s)) st" using swept_all [OF placed] by (simp only: st_def)
    then have "written st @ drop (kept_from st) s = masked s (covered spans)" "\<not> found_any st \<Longrightarrow> masked s (covered spans) = s"
      using over eq by (auto simp: swept_def)
    then show ?thesis using False assms st_def by (simp only: redact_sensitive_text_def Let_def if_False) auto
  qed
qed

lemma masked_bounded: "length (masked s cov) \<le> 10 * length s"
proof -
  have "length (concat (map (masked_unit s cov) ks)) \<le> 10 * length ks" for ks
    by (induction ks) (auto simp: masked_unit_def redacted_token_def)
  from this [of "[0..<length s]"] show ?thesis by (simp add: masked_def)
qed

text \<open>C24: What a redaction writes is the text with every maximal run of positions that some match covers replaced by one token,
  the matches being those of the search in the original text; so no secret is sought in what was already written, and the
  result has at most ten units for each unit of the text, whatever the secrets are.
\<close>

theorem redaction_is_the_mask:
  "redact_sensitive_text s sensitive
     = masked s (covered (sensitive_spans s (filter (\<lambda>v. v \<noteq> []) (remdups sensitive))))
   \<and> length (redact_sensitive_text s sensitive) \<le> 10 * length s"
  using redact_is_masked [OF refl, of s sensitive] masked_bounded by simp

end
