(* ===== verification/Redaction_Safety.thy ===== *)
theory Redaction_Safety
  imports Redaction "HOL-Library.Sublist"
begin

text \<open>
  What is left of a text after \<^verbatim>\<open>redactSensitiveText\<close> (\<^verbatim>\<open>src/core/redaction.ts\<close>): the runs the mask keeps, the reading of a run
  alone compared with its reading within the text, the absence of every secret from them, and the redaction of structured
  values built on it (\<^verbatim>\<open>redactSensitiveValue\<close>).
\<close>

section \<open>What the mask keeps\<close>

definition slice :: "utf16 \<Rightarrow> nat \<times> nat \<Rightarrow> utf16" where
  "slice s = (\<lambda>(a, b). take (b - a) (drop a s))"

fun joined :: "utf16 list \<Rightarrow> utf16" where
  "joined [] = []"
| "joined [x] = x"
| "joined (x # y # r) = x @ redacted_token @ joined (y # r)"

lemma joined_snoc: "xs \<noteq> [] \<Longrightarrow> joined (xs @ [y]) = joined xs @ redacted_token @ y"
  by (induction xs rule: joined.induct) auto

lemma joined_extend: "joined (xs @ [y @ z]) = joined (xs @ [y]) @ z"
  by (cases "xs = []") (simp_all add: joined_snoc)

lemma slice_same [simp]: "slice s (a, a) = []"
  by (simp add: slice_def)

lemma slice_Suc: "a \<le> n \<Longrightarrow> n < length s \<Longrightarrow> slice s (a, Suc n) = slice s (a, n) @ [s ! n]"
  by (simp add: slice_def take_slice_Suc)

text \<open>A closed run of uncovered positions, and the run open at position \<open>n\<close>.\<close>

definition run_starts :: "(nat \<Rightarrow> bool) \<Rightarrow> nat \<Rightarrow> bool" where
  "run_starts cov a \<longleftrightarrow> a = 0 \<or> cov (a - 1)"

definition run_ends :: "(nat \<Rightarrow> bool) \<Rightarrow> nat \<Rightarrow> bool" where
  "run_ends cov b \<longleftrightarrow> cov b \<and> (b = 0 \<or> \<not> cov (b - 1))"

definition uncovered_run :: "(nat \<Rightarrow> bool) \<Rightarrow> nat \<times> nat \<Rightarrow> bool" where
  "uncovered_run cov = (\<lambda>(a, b). a \<le> b \<and> run_starts cov a \<and> (\<forall>i. a \<le> i \<and> i < b \<longrightarrow> \<not> cov i))"

definition runs_upto :: "utf16 \<Rightarrow> (nat \<Rightarrow> bool) \<Rightarrow> nat \<Rightarrow> (nat \<times> nat) list \<Rightarrow> nat \<Rightarrow> bool" where
  "runs_upto s cov n runs a \<longleftrightarrow>
     masked_upto s cov n = joined (map (slice s) runs @ [slice s (a, n)])
     \<and> (\<forall>r \<in> set runs. uncovered_run cov r \<and> run_ends cov (snd r) \<and> snd r < n) \<and> uncovered_run cov (a, n)
     \<and> (\<forall>i < n. \<not> cov i \<longrightarrow> a \<le> i \<or> (\<exists>r \<in> set runs. fst r \<le> i \<and> i < snd r))"

lemma masked_upto_runs: "n \<le> length s \<Longrightarrow> \<exists>runs a. runs_upto s cov n runs a"
proof (induction n)
  case 0
  show ?case by (intro exI [of _ "[]"] exI [of _ 0]) (simp add: runs_upto_def uncovered_run_def run_starts_def)
next
  case (Suc n)
  then obtain runs a where IH: "runs_upto s cov n runs a" by auto
  show ?case
  proof (cases "cov n")
    case False
    then have "masked_unit s cov n = [s ! n]" by (simp add: masked_unit_def)
    then have "runs_upto s cov (Suc n) runs a" using IH False Suc.prems
      by (auto simp: runs_upto_def uncovered_run_def less_Suc_eq slice_Suc joined_extend)
    then show ?thesis by blast
  next
    case True
    show ?thesis
    proof (cases "n > 0 \<and> cov (n - 1)")
      case True
      have "uncovered_run cov (a, n)" using IH by (simp add: runs_upto_def)
      then have "a \<le> n" "a \<le> n - 1 \<and> n - 1 < n \<longrightarrow> \<not> cov (n - 1)" by (auto simp: uncovered_run_def)
      with True have "a = n" by linarith
      with True \<open>cov n\<close> have "runs_upto s cov (Suc n) runs (Suc n)" using IH
        by (auto simp: runs_upto_def uncovered_run_def less_Suc_eq run_starts_def masked_unit_def)
      then show ?thesis by blast
    next
      case False
      then have "masked_unit s cov n = redacted_token" "run_ends cov n" using \<open>cov n\<close> by (auto simp: masked_unit_def run_ends_def)
      then have "runs_upto s cov (Suc n) (runs @ [(a, n)]) (Suc n)" using IH \<open>cov n\<close>
        joined_snoc [of "map (slice s) runs @ [slice s (a, n)]" "[]"]
        by (auto simp: runs_upto_def uncovered_run_def less_Suc_eq run_starts_def)
      then show ?thesis by blast
    qed
  qed
qed

text \<open>The runs of the whole text: each ends at the end of the text or where coverage begins.\<close>

lemma masked_runs:
  "\<exists>runs. masked s cov = joined (map (slice s) runs)
     \<and> (\<forall>r \<in> set runs. uncovered_run cov r \<and> (snd r = length s \<or> run_ends cov (snd r)) \<and> snd r \<le> length s)
     \<and> (\<forall>i < length s. \<not> cov i \<longleftrightarrow> (\<exists>r \<in> set runs. fst r \<le> i \<and> i < snd r))"
proof -
  obtain runs a where runs: "runs_upto s cov (length s) runs a" using masked_upto_runs by blast
  have "masked s cov = joined (map (slice s) (runs @ [(a, length s)]))"
    using runs by (simp add: runs_upto_def masked_def masked_upto_def)
  moreover have "uncovered_run cov r \<and> (snd r = length s \<or> run_ends cov (snd r)) \<and> snd r \<le> length s"
    if "r \<in> set (runs @ [(a, length s)])" for r
    using runs that by (auto simp: runs_upto_def)
  moreover have "\<not> cov i \<longleftrightarrow> (\<exists>r \<in> set (runs @ [(a, length s)]). fst r \<le> i \<and> i < snd r)" if "i < length s" for i
    using runs that by (fastforce simp: runs_upto_def uncovered_run_def)
  ultimately show ?thesis by blast
qed

section \<open>Readings of a kept run\<close>

text \<open>The position after the character or escape at a position, and the units it is read as.\<close>

definition next_at :: "utf16 \<Rightarrow> nat \<Rightarrow> nat" where
  "next_at s i = (case decoded_at s i of Some (us, j) \<Rightarrow> j | None \<Rightarrow> i + length (character_at s i))"

definition read_at :: "utf16 \<Rightarrow> bool \<Rightarrow> nat \<Rightarrow> utf16" where
  "read_at s plus_mode i = (case decoded_at s i of Some (us, j) \<Rightarrow> us
     | None \<Rightarrow> if plus_mode \<and> character_at s i = [43] then [32] else character_at s i)"

lemma normalize_step:
  "normalize_encoded_text s plus_mode i =
     (if i \<ge> length s then [] else map (\<lambda>u. (u, i)) (read_at s plus_mode i) @ normalize_encoded_text s plus_mode (next_at s i))"
  by (subst normalize_encoded_text.simps) (auto simp: next_at_def read_at_def split: option.splits)

lemma next_at_advances: "i < next_at s i"
  using character_at_advances by (auto simp: next_at_def dest: decoded_at_advances split: option.splits)

lemma reading_induct [case_names step]:
  assumes "\<And>i. (i < length s \<Longrightarrow> P (next_at s i)) \<Longrightarrow> P i"
  shows "P i"
proof (induction "length s - i" arbitrary: i rule: less_induct)
  case less
  have "length s - next_at s i < length s - i" if "i < length s" using that next_at_advances [of i s] by simp
  then show ?case using less assms [of i] by blast
qed

text \<open>The positions the reading goes through.\<close>

inductive reads_to :: "utf16 \<Rightarrow> nat \<Rightarrow> nat \<Rightarrow> bool" for s where
  here: "reads_to s i i"
| on: "i < length s \<Longrightarrow> reads_to s (next_at s i) k \<Longrightarrow> reads_to s i k"

inductive_cases reads_to_cases: "reads_to s i k"

lemma reads_to_le: "reads_to s i k \<Longrightarrow> i \<le> k"
proof (induction rule: reads_to.induct)
  case (on i k)
  then show ?case using next_at_advances [of i s] by simp
qed simp

lemma reads_to_linear: "reads_to s i a \<Longrightarrow> reads_to s i b \<Longrightarrow> a \<le> b \<Longrightarrow> reads_to s a b"
proof (induction arbitrary: b rule: reads_to.induct)
  case (on i k)
  then have "i < k" using reads_to_le next_at_advances less_le_trans by blast
  then have "i < b" using on.prems by simp
  then show ?case using on by (auto elim: reads_to_cases)
qed

lemma reads_to_trans: "reads_to s i a \<Longrightarrow> reads_to s a b \<Longrightarrow> reads_to s i b"
  by (induction rule: reads_to.induct) (auto intro: reads_to.on)

lemma normalized_reads_to: "(u, a) \<in> set (normalize_encoded_text s plus_mode i) \<Longrightarrow> reads_to s i a"
proof (induction i rule: reading_induct [of s])
  case (step i)
  have "i < length s" using step.prems by (subst (asm) normalize_step) (auto split: if_splits)
  moreover have "a = i \<or> (u, a) \<in> set (normalize_encoded_text s plus_mode (next_at s i))"
    using step.prems by (subst (asm) normalize_step) (auto split: if_splits)
  ultimately show ?case using step.IH by (blast intro: reads_to.intros)
qed

text \<open>Between two positions the reading goes through, the run is read alone as it is read in the text.\<close>

lemma unit_at_slice: "b \<le> length s \<Longrightarrow> unit_at (slice s (a, b)) k = (if a + k < b then unit_at s (a + k) else None)"
  by (auto simp: unit_at_def slice_def)

lemma percent_byte_needs: "percent_byte s i = Some x \<Longrightarrow> i + 3 \<le> length s"
  by (auto simp: percent_byte_def unit_at_def split: if_splits option.splits bind_splits)

lemma percent_byte_slice:
  "b \<le> length s \<Longrightarrow> percent_byte (slice s (a, b)) k = (if a + k + 3 \<le> b then percent_byte s (a + k) else None)"
  by (auto simp: percent_byte_def unit_at_slice add.assoc split: option.splits)

lemma percent_bytes_length: "length (percent_bytes n s i) \<le> n"
  by (induction n arbitrary: i) (auto split: option.splits)

lemma percent_bytes_all: "length (percent_bytes n s i) = n \<Longrightarrow> n > 0 \<Longrightarrow> i + 3 * n \<le> length s"
proof (induction n arbitrary: i)
  case (Suc n)
  then obtain x where x: "percent_byte s i = Some x" "length (percent_bytes n s (i + 3)) = n"
    by (auto split: option.splits)
  then show ?case using Suc.IH [of "i + 3"] percent_byte_needs [OF x(1)] by (cases "n = 0") auto
qed simp

lemma percent_bytes_slice:
  "b \<le> length s \<Longrightarrow> a + k + 3 * n \<le> b \<Longrightarrow> percent_bytes n (slice s (a, b)) k = percent_bytes n s (a + k)"
  by (induction n arbitrary: k) (simp_all add: percent_byte_slice add.assoc split: option.split)

lemma decoded_at_within: "decoded_at s i = Some (us, j) \<Longrightarrow> j \<le> length s"
  by (auto simp: decoded_at_def Let_def dest: percent_bytes_all split: option.splits if_splits)

lemma decoded_at_slice_Some:
  assumes "b \<le> length s" "decoded_at (slice s (a, b)) k = Some (us, j)"
  shows "decoded_at s (a + k) = Some (us, a + j)"
proof -
  obtain x where x: "percent_byte (slice s (a, b)) k = Some x" using assms(2) by (auto simp: decoded_at_def split: option.splits)
  let ?n = "utf8_sequence_length x"
  have n: "?n > 0" "length (percent_bytes ?n (slice s (a, b)) k) = ?n" "j = k + 3 * ?n"
    "map_option (\<lambda>us. (us, k + 3 * ?n)) (decode_utf8 (percent_bytes ?n (slice s (a, b)) k)) = Some (us, j)"
    using assms(2) x by (auto simp: decoded_at_def Let_def split: if_splits)
  have "k + 3 * ?n \<le> length (slice s (a, b))" using percent_bytes_all [OF n(2,1)] .
  then have "a + k + 3 * ?n \<le> b" using n(1) assms(1) by (auto simp: slice_def)
  then have "percent_bytes ?n (slice s (a, b)) k = percent_bytes ?n s (a + k)" "percent_byte s (a + k) = Some x"
    using percent_bytes_slice [OF assms(1)] x percent_byte_slice [OF assms(1), of a k] by (auto split: if_splits)
  then show ?thesis using n by (auto simp: decoded_at_def Let_def)
qed

lemma decoded_at_slice:
  assumes "b \<le> length s" and at: "decoded_at s (a + k) = Some (us, j)" and "j \<le> b"
  shows "decoded_at (slice s (a, b)) k = Some (us, j - a)"
proof -
  obtain x where x: "percent_byte s (a + k) = Some x" using at by (auto simp: decoded_at_def split: option.splits)
  let ?n = "utf8_sequence_length x"
  have n: "?n > 0" "length (percent_bytes ?n s (a + k)) = ?n" "j = a + k + 3 * ?n"
    "map_option (\<lambda>us. (us, a + k + 3 * ?n)) (decode_utf8 (percent_bytes ?n s (a + k))) = Some (us, j)"
    using at x by (auto simp: decoded_at_def Let_def split: if_splits)
  have "percent_bytes ?n (slice s (a, b)) k = percent_bytes ?n s (a + k)"
    using percent_bytes_slice [OF assms(1)] n(3) assms(3) by simp
  moreover have "percent_byte (slice s (a, b)) k = Some x"
    using percent_byte_slice [OF assms(1), of a k] x n(1,3) assms(3) by auto
  ultimately show ?thesis using n by (auto simp: decoded_at_def Let_def)
qed

lemma read_slice:
  assumes "b \<le> length s" "a + k < b" "next_at s (a + k) \<le> b"
  shows "next_at (slice s (a, b)) k = next_at s (a + k) - a"
    and "read_at (slice s (a, b)) plus_mode k = read_at s plus_mode (a + k)"
proof -
  have len: "length (slice s (a, b)) = b - a" using assms(1) by (simp add: slice_def)
  have nth: "slice s (a, b) ! m = s ! (a + m)" if "a + m < b" for m using that assms(1) by (simp add: slice_def)
  have "next_at (slice s (a, b)) k = next_at s (a + k) - a
        \<and> read_at (slice s (a, b)) plus_mode k = read_at s plus_mode (a + k)"
  proof (cases "decoded_at s (a + k)")
    case None
    then have none: "decoded_at (slice s (a, b)) k = None"
      using decoded_at_slice_Some [OF assms(1)] by (metis option.exhaust surj_pair option.discI)
    have "a + k + length (character_at s (a + k)) \<le> b" using assms(3) None by (simp add: next_at_def)
    then have "character_at (slice s (a, b)) k = character_at s (a + k)"
      using assms(2) nth unit_at_slice [OF assms(1), of a "Suc k"]
      by (auto simp: character_at_def unit_at_def len split: if_splits)
    then show ?thesis using None none by (simp add: next_at_def read_at_def)
  next
    case (Some uj)
    then obtain us j where at: "decoded_at s (a + k) = Some (us, j)" by (cases uj) auto
    then have "j \<le> b" using assms(3) by (simp add: next_at_def)
    then show ?thesis using decoded_at_slice [OF assms(1) at] at by (simp add: next_at_def read_at_def)
  qed
  then show "next_at (slice s (a, b)) k = next_at s (a + k) - a" "read_at (slice s (a, b)) plus_mode k = read_at s plus_mode (a + k)"
    by auto
qed

lemma normalize_slice:
  assumes "reads_to s i b" "a \<le> i" "b \<le> length s"
  shows "\<exists>part. normalize_encoded_text s plus_mode i = part @ normalize_encoded_text s plus_mode b
     \<and> normalize_encoded_text (slice s (a, b)) plus_mode (i - a) = map (\<lambda>(u, x). (u, x - a)) part
     \<and> (\<forall>x \<in> snd ` set part. a \<le> x \<and> x < b)"
  using assms
proof (induction rule: reads_to.induct)
  case (here i)
  then show ?case by (intro exI [of _ "[]"]) (simp add: normalize_encoded_text.simps [of _ _ "i - a"] slice_def)
next
  case (on i b)
  have le: "i < next_at s i" "next_at s i \<le> b" using next_at_advances reads_to_le on by blast+
  then obtain part where part: "normalize_encoded_text s plus_mode (next_at s i) = part @ normalize_encoded_text s plus_mode b"
    "normalize_encoded_text (slice s (a, b)) plus_mode (next_at s i - a) = map (\<lambda>(u, x). (u, x - a)) part"
    "\<forall>x \<in> snd ` set part. a \<le> x \<and> x < b"
    using on.IH [OF order_trans [OF on.prems(1) less_imp_le [OF le(1)]] on.prems(2)] by blast
  have step: "normalize_encoded_text s plus_mode i
      = map (\<lambda>u. (u, i)) (read_at s plus_mode i) @ normalize_encoded_text s plus_mode (next_at s i)"
    using on.hyps(1) by (subst normalize_step) simp
  have "\<not> length (slice s (a, b)) \<le> i - a" using le on.prems by (simp add: slice_def)
  then have "normalize_encoded_text (slice s (a, b)) plus_mode (i - a)
      = map (\<lambda>u. (u, i - a)) (read_at s plus_mode i) @ normalize_encoded_text (slice s (a, b)) plus_mode (next_at s i - a)"
    using read_slice [of b s a "i - a"] le on.prems by (subst normalize_step) simp
  then show ?case using part step le on.prems
    by (intro exI [of _ "map (\<lambda>u. (u, i)) (read_at s plus_mode i) @ part"]) (auto simp: comp_def)
qed

lemma next_at_within: "i < length s \<Longrightarrow> next_at s i \<le> length s"
  by (auto simp: next_at_def character_at_def unit_at_def dest: decoded_at_within split: option.splits if_splits)

lemma reads_to_end: "i \<le> length s \<Longrightarrow> reads_to s i (length s)"
proof (induction i rule: reading_induct [of s])
  case (step i)
  then show ?case using next_at_within [of i s]
    by (cases "i = length s") (auto intro: reads_to.intros)
qed

text \<open>Only the first unit of a surrogate pair shares its place with a later unit.\<close>

definition high_surrogate :: "int \<Rightarrow> bool" where
  "high_surrogate u \<longleftrightarrow> 0xd800 \<le> u \<and> u \<le> 0xdbff"

lemma code_point_bound: "utf8_code_point bytes = Some cp \<Longrightarrow> cp < 0x110000"
  by (cases bytes rule: utf8_code_point.cases) (auto simp: continuation_def split: if_splits)

lemma code_point_units_pair: "cp < 0x110000 \<Longrightarrow> (\<exists>u. code_point_units cp = [u]) \<or> (\<exists>u v. code_point_units cp = [u, v] \<and> high_surrogate u)"
  by (auto simp: code_point_units_def high_surrogate_def)

lemma read_at_units: "(\<exists>u. read_at s plus_mode i = [u]) \<or> read_at s plus_mode i = [] \<or> (\<exists>u v. read_at s plus_mode i = [u, v] \<and> high_surrogate u)"
proof (cases "decoded_at s i")
  case None
  then show ?thesis by (auto simp: read_at_def character_at_def high_surrogate_def)
next
  case (Some uj)
  then obtain us j where at: "decoded_at s i = Some (us, j)" by (cases uj) auto
  then obtain bytes where bytes: "decode_utf8 bytes = Some us" by (auto simp: decoded_at_def Let_def split: option.splits if_splits)
  then obtain cp where "utf8_code_point bytes = Some cp" "us = (if cp = 0xfeff then [] else code_point_units cp)"
    by (auto simp: decode_utf8_def)
  then show ?thesis using at code_point_units_pair [of cp] code_point_bound by (auto simp: read_at_def)
qed

lemma shared_place:
  "k < k' \<Longrightarrow> k' < length (normalize_encoded_text s plus_mode i) \<Longrightarrow>
    snd (normalize_encoded_text s plus_mode i ! k) = snd (normalize_encoded_text s plus_mode i ! k') \<Longrightarrow>
    high_surrogate (fst (normalize_encoded_text s plus_mode i ! k))"
proof (induction i arbitrary: k k' rule: reading_induct [of s])
  case (step i)
  let ?read = "read_at s plus_mode i" and ?rest = "normalize_encoded_text s plus_mode (next_at s i)"
  have less: "i < length s" using step.prems(2) by (subst (asm) normalize_step) (auto split: if_splits)
  have eq: "normalize_encoded_text s plus_mode i = map (\<lambda>u. (u, i)) ?read @ ?rest"
    using less by (subst normalize_step) simp
  have later: "i < snd (?rest ! m)" if "m < length ?rest" for m
    using normalized_starts [of s plus_mode "next_at s i"] next_at_advances [of i s] nth_mem [OF that] by fastforce
  consider "k' < length ?read" | "k < length ?read" "length ?read \<le> k'" | "length ?read \<le> k" using step.prems(1) by linarith
  then show ?case
  proof cases
    case 1
    then have "k = 0" "length ?read = 2" using read_at_units [of s plus_mode i] step.prems(1) by auto
    then show ?thesis using read_at_units [of s plus_mode i] eq by (auto simp: nth_append)
  next
    case 2
    then have "k' - length ?read < length ?rest" using step.prems(2) eq by auto
    then show ?thesis using 2 step.prems eq later [of "k' - length ?read"] by (auto simp: nth_append)
  next
    case 3
    then have "high_surrogate (fst (?rest ! (k - length ?read)))"
      using step.IH [OF less, of "k - length ?read" "k' - length ?read"] step.prems eq by (auto simp: nth_append)
    then show ?thesis using 3 step.prems eq by (auto simp: nth_append)
  qed
qed

section \<open>No secret is left\<close>

definition reading :: "bool \<Rightarrow> utf16 \<Rightarrow> utf16" where
  "reading plus_mode t = map fst (normalize_encoded_text t plus_mode 0)"

text \<open>The readings in which a text is searched.\<close>

definition readings :: "utf16 \<Rightarrow> (utf16 \<Rightarrow> utf16) list" where
  "readings s = (if 37 \<in> set s \<or> 43 \<in> set s then reading False # (if 43 \<in> set s then [reading True] else []) else [id])"

lemma sublist_occurs:
  assumes "sublist v (map f part)" and "hay = front @ part @ rest"
  shows "\<exists>p \<ge> length front. p + length v \<le> length front + length part \<and> take (length v) (drop p (map f hay)) = v"
proof -
  obtain ps ss where part: "map f part = ps @ v @ ss" using assms(1) by (auto simp: sublist_def)
  then have "length part = length ps + length v + length ss" by (metis length_append length_map add.assoc)
  then show ?thesis using part assms(2) by (intro exI [of _ "length front + length ps"]) auto
qed

lemma plain_run_free:
  assumes run: "uncovered_run (covered spans) (a, b)" and b: "b \<le> length s" and "set (plain_matches s v) \<subseteq> set spans" and "v \<noteq> []"
  shows "\<not> sublist v (slice s (a, b))"
proof
  assume sub: "sublist v (slice s (a, b))"
  have ab: "a \<le> b" using run by (simp add: uncovered_run_def)
  have "s = take a s @ slice s (a, b) @ drop b s"
    using ab by (simp add: slice_def) (metis append_take_drop_id drop_drop le_add_diff_inverse2)
  from sublist_occurs [of v id, OF _ this] sub
  obtain p where p: "a \<le> p" "p + length v \<le> b" "take (length v) (drop p s) = v" using ab b by (auto simp: slice_def)
  then obtain m where m: "m \<in> set (matches_from s v 0)" "m \<le> p" "p < m + length v"
    using matches_from_complete [of v 0 p s] \<open>v \<noteq> []\<close> b by auto
  then have "(m, m + length v) \<in> set spans" using assms(3) by (auto simp: plain_matches_def)
  then have "covered spans p" using m by (auto simp: covered_def list_ex_iff)
  then show False using run p \<open>v \<noteq> []\<close> by (cases v) (auto simp: uncovered_run_def)
qed

lemma mapped_run_free:
  assumes run: "uncovered_run (covered spans) (a, b)" and b: "b \<le> length s" "a < b"
    and reads: "reads_to s 0 a" "reads_to s 0 b"
    and spans: "set (mapped_matches (normalize_encoded_text s plus_mode 0) (length s) v) \<subseteq> set spans"
    and v: "v \<noteq> []" "\<not> high_surrogate (last v)"
  shows "\<not> sublist v (reading plus_mode (slice s (a, b)))"
proof
  assume sub: "sublist v (reading plus_mode (slice s (a, b)))"
  let ?hay = "normalize_encoded_text s plus_mode 0"
  obtain front where front: "?hay = front @ normalize_encoded_text s plus_mode a"
    using normalize_slice [OF reads(1) le0, of plus_mode] b by auto
  obtain part where part: "normalize_encoded_text s plus_mode a = part @ normalize_encoded_text s plus_mode b"
    "normalize_encoded_text (slice s (a, b)) plus_mode 0 = map (\<lambda>(u, x). (u, x - a)) part"
    "\<forall>x \<in> snd ` set part. a \<le> x \<and> x < b"
    using normalize_slice [OF reads_to_linear [OF reads] order_refl b(1), of plus_mode] b(2) by auto
  have "sublist v (map fst part)" using sub part(2) by (simp add: reading_def comp_def case_prod_unfold)
  from sublist_occurs [OF this, of ?hay front "normalize_encoded_text s plus_mode b"] front part(1)
  obtain p where p: "length front \<le> p" "p + length v \<le> length front + length part" "take (length v) (drop p (map fst ?hay)) = v"
    by auto
  have len: "length front + length part \<le> length ?hay" using front part(1) by simp
  obtain m where m: "m \<in> set (matches_from (map fst ?hay) v 0)" "m \<le> p" "p < m + length v"
    using matches_from_complete [OF v(1) le0 _ p(3)] p(2) len by auto
  have inside: "p < length front + length part" using p(2) v(1) by (cases v) auto
  then have x: "a \<le> snd (?hay ! p)" "snd (?hay ! p) < b"
    using front part p(1) by (auto simp: nth_append)
  have sorted: "snd (?hay ! i) \<le> snd (?hay ! j)" if "i \<le> j" "j < length ?hay" for i j
    using sorted_nth_mono [of "map snd ?hay" i j] normalized_starts [of s plus_mode 0] that by simp
  define e where "e = (if m + length v < length ?hay then snd (?hay ! (m + length v)) else length s)"
  have "(snd (?hay ! m), e) \<in> set spans" using spans m(1) by (auto simp: mapped_matches_def e_def)
  moreover have "snd (?hay ! m) \<le> snd (?hay ! p)" using sorted m(2) inside len by simp
  moreover have "snd (?hay ! p) < e"
  proof (cases "m + length v < length ?hay")
    case True
    have "snd (?hay ! p) \<noteq> snd (?hay ! (m + length v))"
    proof
      assume same: "snd (?hay ! p) = snd (?hay ! (m + length v))"
      let ?l = "m + length v - 1"
      have l: "p \<le> ?l" "?l < m + length v" using m(3) by auto
      have "snd (?hay ! p) \<le> snd (?hay ! ?l)" "snd (?hay ! ?l) \<le> snd (?hay ! (m + length v))" using sorted l True by auto
      with same have "snd (?hay ! ?l) = snd (?hay ! (m + length v))" by simp
      then have "high_surrogate (fst (?hay ! ?l))" using shared_place [OF l(2) True] by simp
      moreover have "fst (?hay ! ?l) = last v"
      proof -
        have "take (length v) (drop m (map fst ?hay)) = v" using matches_from_sound [OF m(1)] by simp
        then have "last v = take (length v) (drop m (map fst ?hay)) ! (length v - 1)" using v(1) by (metis last_conv_nth)
        also have "\<dots> = fst (?hay ! ?l)" using v(1) True by (cases v) auto
        finally show ?thesis by simp
      qed
      ultimately show False using v(2) by simp
    qed
    then show ?thesis using sorted [of p "m + length v"] m(3) True by (auto simp: e_def)
  next
    case False
    then show ?thesis using x b by (simp add: e_def)
  qed
  ultimately have "covered spans (snd (?hay ! p))" by (force simp: covered_def list_ex_iff)
  then show False using run x by (auto simp: uncovered_run_def)
qed

lemma sensitive_spans_readings:
  assumes "read \<in> set (readings s)" "v \<in> set values"
  shows "(read = id \<and> set (plain_matches s v) \<subseteq> set (sensitive_spans s values))
    \<or> (37 \<in> set s \<or> 43 \<in> set s) \<and> (\<exists>plus_mode. read = reading plus_mode
        \<and> set (mapped_matches (normalize_encoded_text s plus_mode 0) (length s) (reading plus_mode v)) \<subseteq> set (sensitive_spans s values))"
  using assms by (auto simp: readings_def sensitive_spans_def reading_def Let_def split: if_splits)

lemma decoded_spans:
  assumes "37 \<in> set s \<or> 43 \<in> set s" "(x, y) \<in> set (sensitive_spans s values)"
  shows "\<exists>plus_mode v. (x, y) \<in> set (mapped_matches (normalize_encoded_text s plus_mode 0) (length s) v)"
  using assms by (auto simp: sensitive_spans_def Let_def split: if_splits)

text \<open>A span of the decoded search begins and ends where the reading does.\<close>

lemma mapped_span_reads_to:
  assumes "(a, b) \<in> set (mapped_matches (normalize_encoded_text s plus_mode 0) (length s) v)"
  shows "reads_to s 0 a \<and> reads_to s 0 b"
proof -
  let ?hay = "normalize_encoded_text s plus_mode 0"
  obtain m where m: "m \<in> set (matches_from (map fst ?hay) v 0)" "a = snd (?hay ! m)"
    "b = (if m + length v < length ?hay then snd (?hay ! (m + length v)) else length s)"
    using assms by (auto simp: mapped_matches_def)
  have at: "reads_to s 0 (snd (?hay ! k))" if "k < length ?hay" for k
    using normalized_reads_to nth_mem [OF that] by (metis prod.collapse)
  have "v \<noteq> []" using m(1) by (auto simp: matches_from.simps)
  then have "m < length ?hay" using matches_from_sound [OF m(1)] by (cases v) auto
  then show ?thesis using m at reads_to_end [of 0 s] by auto
qed

lemma run_reads_to:
  assumes run: "uncovered_run (covered spans) (a, b)" "b = length s \<or> run_ends (covered spans) b" "a < b"
    and reads: "\<And>x y. (x, y) \<in> set spans \<Longrightarrow> reads_to s 0 x \<and> reads_to s 0 y"
  shows "reads_to s 0 a \<and> reads_to s 0 b"
proof
  show "reads_to s 0 a"
  proof (cases "a = 0")
    case True
    then show ?thesis by (simp add: reads_to.here)
  next
    case False
    then have "covered spans (a - 1)" "\<not> covered spans a" using run by (auto simp: uncovered_run_def run_starts_def)
    then obtain x y where "(x, y) \<in> set spans" "x \<le> a - 1" "a - 1 < y" "\<not> (x \<le> a \<and> a < y)"
      by (force simp: covered_def list_ex_iff)
    then show ?thesis using reads [of x y] by (metis Suc_pred' False diff_le_self le_trans less_Suc_eq neq0_conv not_less_eq nat_less_le)
  qed
  show "reads_to s 0 b"
  proof (cases "b = length s")
    case True
    then show ?thesis by (simp add: reads_to_end)
  next
    case False
    then have "covered spans b" "\<not> covered spans (b - 1)" using run by (auto simp: run_ends_def)
    then obtain x y where "(x, y) \<in> set spans" "x \<le> b" "b < y" "\<not> (x \<le> b - 1 \<and> b - 1 < y)"
      by (force simp: covered_def list_ex_iff)
    moreover from this run(3) have "x = b" by linarith
    ultimately show ?thesis using reads by blast
  qed
qed

lemma run_free:
  assumes "r \<in> set runs"
    and runs: "\<forall>r \<in> set runs. uncovered_run (covered spans) r \<and> (snd r = length s \<or> run_ends (covered spans) (snd r)) \<and> snd r \<le> length s"
    and spans: "spans = sensitive_spans s values"
    and read: "read \<in> set (readings s)" "v \<in> set values" "read v \<noteq> []" "\<not> high_surrogate (last (read v))"
  shows "\<not> sublist (read v) (read (slice s r))"
proof -
  obtain a b where r: "r = (a, b)" by (cases r)
  have run: "uncovered_run (covered spans) (a, b)" "b = length s \<or> run_ends (covered spans) b" "b \<le> length s"
    using assms(1) runs r by auto
  from sensitive_spans_readings [OF read(1,2)] spans
  consider (plain) "read = id" "set (plain_matches s v) \<subseteq> set spans"
    | (decoded) plus_mode where "37 \<in> set s \<or> 43 \<in> set s" "read = reading plus_mode"
      "set (mapped_matches (normalize_encoded_text s plus_mode 0) (length s) (reading plus_mode v)) \<subseteq> set spans" by blast
  then show ?thesis
  proof cases
    case plain
    then show ?thesis using plain_run_free [OF run(1,3)] read(3) r by simp
  next
    case decoded
    show ?thesis
    proof (cases "a < b")
      case True
      have "reads_to s 0 x \<and> reads_to s 0 y" if "(x, y) \<in> set spans" for x y
        using decoded_spans [OF decoded(1)] mapped_span_reads_to that spans by blast
      from run_reads_to [OF run(1,2) True this] have "reads_to s 0 a" "reads_to s 0 b" by auto
      then show ?thesis using mapped_run_free [OF run(1,3) True _ _ decoded(3)] read(3,4) decoded(2) r by simp
    next
      case False
      then have "read (slice s r) = []"
        using decoded(2) r by (simp add: reading_def slice_def normalize_encoded_text.simps)
      then show ?thesis using read(3) by (simp add: sublist_code)
    qed
  qed
qed

text \<open>C25: A redacted text consists of pieces of the text joined by the token, and in no piece a secret can be read: neither
  literally in a text without percent and plus signs, nor, in any other, in the percent-decoded reading of both, nor, in a
  text with a plus sign, in the form-decoded reading of both.  The reading of the secret must not end in the middle of a
  surrogate pair.
\<close>

theorem no_secret_is_left:
  "\<exists>runs. redact_sensitive_text s sensitive = joined (map (slice s) runs)
     \<and> (\<forall>r \<in> set runs. \<forall>read \<in> set (readings s). \<forall>v \<in> set sensitive.
          read v \<noteq> [] \<and> v \<noteq> [] \<and> \<not> high_surrogate (last (read v)) \<longrightarrow> \<not> sublist (read v) (read (slice s r)))"
proof -
  define secrets where "secrets = filter (\<lambda>v. v \<noteq> []) (remdups sensitive)"
  define spans where "spans = sensitive_spans s secrets"
  from masked_runs [of s "covered spans"] obtain runs where runs: "masked s (covered spans) = joined (map (slice s) runs)"
    "\<forall>r \<in> set runs. uncovered_run (covered spans) r \<and> (snd r = length s \<or> run_ends (covered spans) (snd r)) \<and> snd r \<le> length s"
    by blast
  have "redact_sensitive_text s sensitive = joined (map (slice s) runs)"
    using redact_is_masked [OF refl] runs(1) by (simp add: spans_def secrets_def)
  moreover have "\<not> sublist (read v) (read (slice s r))"
    if "r \<in> set runs" "read \<in> set (readings s)" "v \<in> set sensitive" "read v \<noteq> []" "v \<noteq> []" "\<not> high_surrogate (last (read v))" for r read v
    using run_free [OF that(1) runs(2) spans_def that(2) _ that(4,6)] that(3,5) by (simp add: secrets_def)
  ultimately show ?thesis by blast
qed

theorem no_secret_is_left_witness:
  "\<exists>runs. units ''id=7&t=[REDACTED]'' = joined (map (slice (units ''id=7&t=a%2Fb'')) runs)
     \<and> (\<forall>r \<in> set runs. \<not> sublist (units ''a/b'') (reading False (slice (units ''id=7&t=a%2Fb'') r)))"
proof -
  have "redact_sensitive_text (units ''id=7&t=a%2Fb'') [units ''a/b''] = units ''id=7&t=[REDACTED]''" by code_simp
  moreover have read: "reading False \<in> set (readings (units ''id=7&t=a%2Fb''))" by (simp add: readings_def units_def)
  moreover have v: "units ''a/b'' \<in> set [units ''a/b'']" by simp
  moreover have reading: "reading False (units ''a/b'') = units ''a/b''" by code_simp
  moreover have "units ''a/b'' \<noteq> [] \<and> units ''a/b'' \<noteq> [] \<and> \<not> high_surrogate (last (units ''a/b''))" by code_simp
  ultimately show ?thesis using no_secret_is_left [of "units ''id=7&t=a%2Fb''" "[units ''a/b'']"] by (metis (no_types, lifting))
qed

text \<open>
  A percent sign of the text can swallow the first two units of a secret: the secret is then not found although it stands in
  the text as it is.
\<close>

lemma secret_after_percent_survives:
  "redact_sensitive_text (units ''rate 100%41x'') [units ''41x''] = units ''rate 100%41x''"
  "sublist (units ''41x'') (units ''rate 100%41x'')"
  by code_simp+

text \<open>Two occurrences of a secret that overlap: only the first is a match, and the rest of the second stays.\<close>

lemma overlapping_occurrence_survives:
  "redact_sensitive_text (units ''ababa'') [units ''aba''] = units ''[REDACTED]ba''"
  by code_simp

section \<open>Structured values\<close>

text \<open>An object is the list of its own fields in the order in which \<open>Object.entries\<close> lists them.\<close>

datatype entry = Text utf16 | Items "entry list" | Fields "(utf16 \<times> entry) list" | Other nat

text \<open>That order: the keys that are array indices come first, in ascending order, then the others in the order they were added.\<close>

definition array_index :: "utf16 \<Rightarrow> int option" where
  "array_index key = (let n = foldl (\<lambda>n u. 10 * n + (u - 48)) 0 key in
     if key \<noteq> [] \<and> list_all (\<lambda>u. 48 \<le> u \<and> u \<le> 57) key \<and> (key = [48] \<or> hd key \<noteq> 48) \<and> n \<le> 4294967294 then Some n else None)"

definition field_rank :: "utf16 \<times> entry \<Rightarrow> int" where
  "field_rank = (\<lambda>(key, _). case array_index key of Some n \<Rightarrow> n | None \<Rightarrow> 0)"

definition index_field :: "utf16 \<times> entry \<Rightarrow> bool" where
  "index_field = (\<lambda>(key, _). array_index key \<noteq> None)"

definition object_entries :: "(utf16 \<times> entry) list \<Rightarrow> (utf16 \<times> entry) list" where
  "object_entries added = sort_key field_rank (filter index_field added) @ filter (\<lambda>f. \<not> index_field f) added"

text \<open>The key a field is stored under: the first of the redacted key and its numbered variants that is not taken.\<close>

definition numbered :: "utf16 \<Rightarrow> nat \<Rightarrow> utf16" where
  "numbered key n = key @ units '' ('' @ units (nat_to_string n) @ units '')''"

definition free_key :: "utf16 list \<Rightarrow> utf16 \<Rightarrow> utf16" where
  "free_key taken key = hd (filter (\<lambda>k. k \<notin> set taken) (key # map (numbered key) [2..<length taken + 3]))"

text \<open>
  One round of the loop: the fields are kept in the order they are added until the object is listed.  Storing under \<open>__proto__\<close> sets
  the prototype and makes no field.
\<close>

definition put_field :: "(utf16 \<times> entry) list \<Rightarrow> utf16 \<times> entry \<Rightarrow> (utf16 \<times> entry) list" where
  "put_field out kc = (let key = free_key (map fst out) (fst kc) in if key = units ''__proto__'' then out else out @ [(key, snd kc)])"

fun redact_sensitive_value :: "utf16 list \<Rightarrow> entry \<Rightarrow> entry" where
  "redact_sensitive_value secrets (Text t) = Text (redact_sensitive_text t secrets)"
| "redact_sensitive_value secrets (Items es) = Items (map (redact_sensitive_value secrets) es)"
| "redact_sensitive_value secrets (Fields fs) =
     Fields (object_entries (foldl put_field []
       (map (\<lambda>(key, child). (redact_sensitive_text key secrets, redact_sensitive_value secrets child)) fs)))"
| "redact_sensitive_value secrets (Other n) = Other n"

lemma units_inj: "units s = units t \<longleftrightarrow> s = t"
  by (simp add: units_def inj_map_eq_map inj_def)

lemma numbered_inj: "numbered key n = numbered key m \<longleftrightarrow> n = m"
proof
  assume "numbered key n = numbered key m"
  then have "nat_to_string n = nat_to_string m" by (simp add: numbered_def units_inj)
  then show "n = m" by (metis nat_of_digits_to_string)
qed simp

lemma free_key_free:
  "free_key taken key \<notin> set taken" "free_key taken key = key \<or> (\<exists>n \<ge> 2. free_key taken key = numbered key n)"
proof -
  let ?candidates = "map (numbered key) [2..<length taken + 3]"
  have "distinct ?candidates" by (simp add: distinct_map inj_on_def numbered_inj)
  then have "card (set ?candidates) = Suc (length taken)" using distinct_card [of ?candidates] by simp
  moreover have "card (set taken) \<le> length taken" by (rule card_length)
  ultimately have "\<not> set ?candidates \<subseteq> set taken" using card_mono [of "set taken" "set ?candidates"] by auto
  then have "filter (\<lambda>k. k \<notin> set taken) (key # ?candidates) \<noteq> []" by (auto simp: filter_empty_conv)
  then have "free_key taken key \<in> set (filter (\<lambda>k. k \<notin> set taken) (key # ?candidates))"
    unfolding free_key_def by (rule hd_in_set)
  then have "free_key taken key \<in> set (key # ?candidates)" "free_key taken key \<notin> set taken"
    unfolding set_filter by simp_all
  then show "free_key taken key \<notin> set taken" "free_key taken key = key \<or> (\<exists>n \<ge> 2. free_key taken key = numbered key n)"
    by auto
qed

lemma token_in_masked: "i < n \<Longrightarrow> cov i \<Longrightarrow> 91 \<in> set (masked_upto s cov n)"
proof (induction n arbitrary: i)
  case (Suc n)
  show ?case
  proof (cases "\<exists>j < n. cov j")
    case True
    then show ?thesis using Suc.IH by auto
  next
    case False
    then have "masked_unit s cov n = redacted_token" using Suc.prems by (auto simp: masked_unit_def less_Suc_eq)
    then show ?thesis by (simp add: redacted_token_def)
  qed
qed simp

lemma redacted_or_same: "redact_sensitive_text t secrets = t \<or> 91 \<in> set (redact_sensitive_text t secrets)"
proof -
  obtain cov where cov: "redact_sensitive_text t secrets = masked_upto t cov (length t)"
    using redact_is_masked [OF refl] by (simp add: masked_def masked_upto_def)
  then show ?thesis using token_in_masked masked_none [of "length t" cov t] by (cases "\<exists>i < length t. cov i") auto
qed

lemma bracket_not_in_proto: "91 \<notin> set (units ''__proto__'')"
  by (simp add: units_def)

lemma bracket_in_numbered: "41 \<in> set (numbered key n)" "41 \<notin> set (units ''__proto__'')"
  by (simp_all add: numbered_def units_def)

lemma put_fields:
  assumes "\<And>key child. (key, child) \<in> set fs \<Longrightarrow> key \<noteq> units ''__proto__''" and "distinct (map fst out)"
  shows "\<exists>rest. foldl put_field out fs = out @ rest \<and> map snd rest = map snd fs \<and> distinct (map fst (out @ rest))
    \<and> list_all2 (\<lambda>(k, _) (key, _). k = key \<or> (\<exists>n \<ge> 2. k = numbered key n)) rest fs"
  using assms
proof (induction fs arbitrary: out)
  case (Cons kc fs)
  obtain key child where kc: "kc = (key, child)" by (cases kc)
  let ?k = "free_key (map fst out) key"
  have "key \<noteq> units ''__proto__''" using Cons.prems(1) [of key child] kc by simp
  moreover have "numbered key n \<noteq> units ''__proto__''" for n using bracket_in_numbered by metis
  ultimately have "?k \<noteq> units ''__proto__''" using free_key_free(2) [of "map fst out" key] by auto
  then have put: "put_field out kc = out @ [(?k, child)]" by (simp add: put_field_def kc)
  have "distinct (map fst (out @ [(?k, child)]))" using free_key_free(1) [of "map fst out" key] Cons.prems(2) by simp
  then obtain rest where "foldl put_field (out @ [(?k, child)]) fs = (out @ [(?k, child)]) @ rest \<and> map snd rest = map snd fs
      \<and> distinct (map fst ((out @ [(?k, child)]) @ rest))
      \<and> list_all2 (\<lambda>(k, _) (key, _). k = key \<or> (\<exists>n \<ge> 2. k = numbered key n)) rest fs"
    using Cons.IH [of "out @ [(?k, child)]"] Cons.prems(1) by (meson list.set_intros(2))
  then show ?case using put kc free_key_free(2) [of "map fst out" key]
    by (intro exI [of _ "(?k, child) # rest"]) simp
qed simp

text \<open>A key that is an array index holds digits only: it was not renamed, so the index keys of the result are ordered as they were.\<close>

lemma array_index_digits: "array_index key = Some n \<Longrightarrow> u \<in> set key \<Longrightarrow> 48 \<le> u \<and> u \<le> 57"
  by (auto simp: array_index_def list_all_iff Let_def split: if_splits)

lemma stored_index_key:
  assumes "array_index k \<noteq> None" "k = redact_sensitive_text key secrets \<or> (\<exists>n \<ge> 2. k = numbered (redact_sensitive_text key secrets) n)"
  shows "k = key"
proof -
  obtain n where index: "array_index k = Some n" using assms(1) by auto
  then have "41 \<notin> set k" "91 \<notin> set k" using array_index_digits by fastforce+
  then show ?thesis using assms(2) bracket_in_numbered(1) redacted_or_same [of key secrets] by metis
qed

definition stored_as :: "utf16 list \<Rightarrow> utf16 \<times> entry \<Rightarrow> utf16 \<times> entry \<Rightarrow> bool" where
  "stored_as secrets f g \<longleftrightarrow> snd f = redact_sensitive_value secrets (snd g) \<and>
     (fst f = redact_sensitive_text (fst g) secrets \<or> (\<exists>n \<ge> 2. fst f = numbered (redact_sensitive_text (fst g) secrets) n))"

lemma stored_index: "stored_as secrets f g \<Longrightarrow> index_field f \<Longrightarrow> index_field g \<and> field_rank f = field_rank g"
  using stored_index_key [of "fst f" "fst g" secrets] by (cases f; cases g) (auto simp: stored_as_def index_field_def field_rank_def)

lemma stored_ranks: "list_all2 (stored_as secrets) stored fs \<Longrightarrow> field_rank ` set (filter index_field stored) \<subseteq> field_rank ` set (filter index_field fs)"
  by (induction rule: list_all2_induct) (use stored_index in auto)

lemma stored_sorted:
  assumes "list_all2 (stored_as secrets) stored fs" "sorted (map field_rank (filter index_field fs))"
  shows "sorted (map field_rank (filter index_field stored))"
  using assms
proof (induction rule: list_all2_induct)
  case (Cons f stored g fs)
  have "sorted (map field_rank (filter index_field fs))" using Cons.prems by (simp split: if_splits)
  then have IH: "sorted (map field_rank (filter index_field stored))" by (rule Cons.IH)
  show ?case
  proof (cases "index_field f")
    case True
    then have g: "index_field g" "field_rank f = field_rank g" using stored_index [OF Cons.hyps(1)] by auto
    then have "\<forall>r \<in> field_rank ` set (filter index_field stored). field_rank f \<le> r"
      using Cons.prems stored_ranks [OF Cons.hyps(2)] by auto
    then show ?thesis using True IH by simp
  qed (simp add: IH)
qed simp

lemma object_entries_sorted: "sorted (map field_rank (filter index_field fs)) \<Longrightarrow>
    object_entries fs = filter index_field fs @ filter (\<lambda>f. \<not> index_field f) fs"
  by (simp add: object_entries_def sort_key_id_if_sorted)

lemma object_entries_fixed: "object_entries fs = fs \<Longrightarrow> sorted (map field_rank (filter index_field fs))"
proof -
  assume fixed: "object_entries fs = fs"
  have "filter index_field (object_entries fs) = sort_key field_rank (filter index_field fs)"
    unfolding object_entries_def filter_append filter_filter by (simp add: filter_sort)
  then show ?thesis using fixed by (metis sorted_sort_key)
qed

lemma object_entries_idem: "object_entries (object_entries fs) = object_entries fs"
proof -
  have index: "filter index_field (object_entries fs) = sort_key field_rank (filter index_field fs)"
    unfolding object_entries_def filter_append filter_filter by (simp add: filter_sort)
  have others: "filter (\<lambda>f. \<not> index_field f) (object_entries fs) = filter (\<lambda>f. \<not> index_field f) fs"
    unfolding object_entries_def filter_append filter_filter by (simp add: filter_sort)
  have "sorted (map field_rank (filter index_field (object_entries fs)))" unfolding index by simp
  from object_entries_sorted [OF this] show ?thesis unfolding index others by (simp add: object_entries_def)
qed

text \<open>Without a renamed index the two groups are those of the original, one after the other.\<close>

lemma in_order_unless_renamed:
  assumes "object_entries fs = fs" "length stored = length fs"
    and "\<forall>(f, g) \<in> set (zip stored fs). index_field g \<longrightarrow> fst f = fst g" "\<forall>(f, g) \<in> set (zip stored fs). index_field f \<longrightarrow> index_field g"
  shows "filter index_field stored @ filter (\<lambda>f. \<not> index_field f) stored = stored"
proof -
  have same: "list_all2 (\<lambda>f g. index_field f = index_field g) stored fs"
    using assms(2-4) by (fastforce simp: list_all2_iff index_field_def)
  have agree: "list_all (\<lambda>f. Q (index_field f)) A"
    if "list_all2 (\<lambda>f g. index_field f = index_field g) A G" "list_all (\<lambda>f. Q (index_field f)) G" for A G Q
    using that by (induction rule: list_all2_induct) auto
  have "fs = filter index_field fs @ filter (\<lambda>f. \<not> index_field f) fs"
    using object_entries_sorted [OF object_entries_fixed [OF assms(1)]] assms(1) by simp
  then have "list_all2 (\<lambda>f g. index_field f = index_field g) stored (filter index_field fs @ filter (\<lambda>f. \<not> index_field f) fs)"
    using same by simp
  then obtain A B where parts: "stored = A @ B" "list_all2 (\<lambda>f g. index_field f = index_field g) A (filter index_field fs)"
    "list_all2 (\<lambda>f g. index_field f = index_field g) B (filter (\<lambda>f. \<not> index_field f) fs)"
    unfolding list_all2_append2 by (elim exE conjE)
  have "list_all index_field A" "list_all (\<lambda>f. \<not> index_field f) B"
    using agree [OF parts(2), of id] agree [OF parts(3), of Not] by (simp_all add: list_all_iff)
  then show ?thesis unfolding parts(1) by (simp add: list_all_iff filter_empty_conv)
qed

text \<open>C26: Redacting a structured value drops no field unless it is called \<open>__proto__\<close>: every field keeps its redacted value, under its
  redacted key or a numbered variant of it, and the keys stay distinct.  The result lists the fields whose key is an array index first, and
  both these and the others in the order of the original; so the order changes only where an array index held a secret and was renamed.
\<close>

theorem redaction_keeps_every_field:
  assumes "object_entries fs = fs" "units ''__proto__'' \<notin> set (map fst fs)"
  shows "\<exists>stored. list_all2 (stored_as secrets) stored fs \<and> distinct (map fst stored)
    \<and> redact_sensitive_value secrets (Fields fs) = Fields (filter index_field stored @ filter (\<lambda>f. \<not> index_field f) stored)
    \<and> ((\<forall>(f, g) \<in> set (zip stored fs). index_field g \<longrightarrow> fst f = fst g) \<longrightarrow> redact_sensitive_value secrets (Fields fs) = Fields stored)"
proof -
  let ?fs = "map (\<lambda>(key, child). (redact_sensitive_text key secrets, redact_sensitive_value secrets child)) fs"
  have "key \<noteq> units ''__proto__''" if "(key, child) \<in> set ?fs" for key child
    using that assms(2) redacted_or_same [of _ secrets] bracket_not_in_proto by force
  from put_fields [of ?fs "[]", OF this] obtain stored where stored: "foldl put_field [] ?fs = stored" "map snd stored = map snd ?fs"
    "distinct (map fst stored)" "list_all2 (\<lambda>(k, _) (key, _). k = key \<or> (\<exists>n \<ge> 2. k = numbered key n)) stored ?fs" by auto
  have kept: "list_all2 (stored_as secrets) stored fs"
  proof (rule list_all2_all_nthI)
    show len: "length stored = length fs" using list_all2_lengthD [OF stored(4)] by simp
    fix i assume i: "i < length stored"
    have "snd (stored ! i) = map snd ?fs ! i" using i stored(2) nth_map by metis
    then show "stored_as secrets (stored ! i) (fs ! i)"
      using list_all2_nthD [OF stored(4) i] i len by (simp add: stored_as_def case_prod_unfold)
  qed
  have entries: "redact_sensitive_value secrets (Fields fs) = Fields (filter index_field stored @ filter (\<lambda>f. \<not> index_field f) stored)"
    using object_entries_sorted [OF stored_sorted [OF kept object_entries_fixed [OF assms(1)]]] stored(1) by simp
  have "\<forall>(f, g) \<in> set (zip stored fs). index_field f \<longrightarrow> index_field g"
    using kept stored_index by (auto simp: list_all2_iff)
  then have in_order: "(\<forall>(f, g) \<in> set (zip stored fs). index_field g \<longrightarrow> fst f = fst g) \<longrightarrow>
      redact_sensitive_value secrets (Fields fs) = Fields stored"
    unfolding entries using in_order_unless_renamed [OF assms(1) list_all2_lengthD [OF kept]] by simp
  show ?thesis by (intro exI [of _ stored] conjI kept stored(3) entries in_order)
qed

theorem redaction_keeps_every_field_witness:
  "\<exists>stored. list_all2 (stored_as [units ''1'']) stored [(units ''1'', Text (units ''x'')), (units ''2'', Text (units ''1''))]
    \<and> redact_sensitive_value [units ''1''] (Fields [(units ''1'', Text (units ''x'')), (units ''2'', Text (units ''1''))])
       = Fields (filter index_field stored @ filter (\<lambda>f. \<not> index_field f) stored)"
proof -
  let ?fs = "[(units ''1'', Text (units ''x'')), (units ''2'', Text (units ''1''))]"
  have "object_entries ?fs = ?fs" "units ''__proto__'' \<notin> set (map fst ?fs)" by code_simp+
  then show ?thesis using redaction_keeps_every_field [of ?fs "[units ''1'']"] by blast
qed

text \<open>A renamed array index moves behind the indices that kept their names.\<close>

lemma renamed_index_moves:
  "redact_sensitive_value [units ''1''] (Fields [(units ''1'', Text (units ''x'')), (units ''2'', Text (units ''1''))])
     = Fields [(units ''2'', Text (units ''[REDACTED]'')), (units ''[REDACTED]'', Text (units ''x''))]"
  by code_simp

lemma proto_field_is_dropped:
  "redact_sensitive_value [units ''pw''] (Fields [(units ''__proto__'', Text (units ''x''))]) = Fields []"
  by code_simp

end
