(* ===== verification/Concurrency.thy ===== *)
theory Concurrency
  imports Complex_Main Step_System Js_Prelude
begin

text \<open>
  In-process concurrency: the promise chains of \<open>serializeByKey\<close> and the worker pool of \<open>concurrentMap\<close>
  (\<^verbatim>\<open>src/core/concurrent.ts\<close>), with the width the workflow scheduler gives the pool
  (\<^verbatim>\<open>src/workflows/exec/scheduler.ts\<close>, \<^verbatim>\<open>src/workflows/concurrency-policy.ts\<close>).  Both run on one thread: an action is what
  happens between two awaits.
\<close>

section \<open>The worker pool\<close>

datatype worker = Looping | Awaiting nat | Returned

record 'r pool =
  next_index :: nat
  workers :: "worker list"
  results :: "'r option list"
  aborted :: bool
  claimed :: "nat list"

datatype pool_action = Run nat | Settle nat | Abort

text \<open>\<open>concurrentMap\<close> before any worker ran; a width below one makes no worker.\<close>

definition pool_start :: "nat \<Rightarrow> int \<Rightarrow> 'r pool" where
  "pool_start n width = \<lparr>next_index = 0, workers = replicate (nat (min width (int n))) Looping,
     results = replicate n None, aborted = False, claimed = []\<rparr>"

text \<open>A worker at the head of its loop claims the next item or returns; a claimed item settles, with a result or by a throw,
  which leaves its slot empty; the signal aborts.\<close>

definition pool_step :: "(nat \<Rightarrow> 'r option) \<Rightarrow> nat \<Rightarrow> pool_action \<Rightarrow> 'r pool \<Rightarrow> 'r pool" where
  "pool_step outcome n a s = (case a of
     Run k \<Rightarrow>
       if k < length (workers s) \<and> workers s ! k = Looping
       then if next_index s < n \<and> \<not> aborted s
         then s\<lparr>workers := (workers s)[k := Awaiting (next_index s)], next_index := Suc (next_index s), claimed := claimed s @ [next_index s]\<rparr>
         else s\<lparr>workers := (workers s)[k := Returned]\<rparr>
       else s
   | Settle k \<Rightarrow>
       if k < length (workers s)
       then (case workers s ! k of
           Awaiting i \<Rightarrow> s\<lparr>workers := (workers s)[k := Looping], results := (results s)[i := outcome i]\<rparr>
         | _ \<Rightarrow> s)
       else s
   | Abort \<Rightarrow> s\<lparr>aborted := True\<rparr>)"

definition items_of :: "worker \<Rightarrow> nat list" where
  "items_of w = (case w of Awaiting i \<Rightarrow> [i] | _ \<Rightarrow> [])"

definition awaited :: "'r pool \<Rightarrow> nat list" where
  "awaited s = concat (map items_of (workers s))"

text \<open>The invariant: the items below the next index were claimed once and in order, those not awaited hold their outcome.\<close>

definition pool_ok :: "(nat \<Rightarrow> 'r option) \<Rightarrow> nat \<Rightarrow> nat \<Rightarrow> 'r pool \<Rightarrow> bool" where
  "pool_ok outcome n width s \<longleftrightarrow>
     length (workers s) = width \<and> next_index s \<le> n \<and> claimed s = [0..<next_index s]
     \<and> distinct (awaited s) \<and> (\<forall>i \<in> set (awaited s). i < next_index s)
     \<and> results s = map (\<lambda>i. if i < next_index s \<and> i \<notin> set (awaited s) then outcome i else None) [0..<n]
     \<and> (\<not> aborted s \<longrightarrow> Returned \<in> set (workers s) \<longrightarrow> next_index s = n)"

lemma items_of_simps [simp]: "items_of Looping = []" "items_of (Awaiting i) = [i]" "items_of Returned = []"
  by (simp_all add: items_of_def)

lemma items_split:
  assumes "k < length ws"
  obtains l r where "concat (map items_of ws) = l @ items_of (ws ! k) @ r"
    "\<And>w. concat (map items_of (ws[k := w])) = l @ items_of w @ r"
proof
  show "concat (map items_of ws) = concat (map items_of (take k ws)) @ items_of (ws ! k) @ concat (map items_of (drop (Suc k) ws))"
    using assms by (subst id_take_nth_drop [of k ws]) simp_all
  show "concat (map items_of (ws[k := w])) = concat (map items_of (take k ws)) @ items_of w @ concat (map items_of (drop (Suc k) ws))" for w
    using assms by (simp add: upd_conv_take_nth_drop)
qed

lemma pool_ok_start: "pool_ok outcome n (nat (min width (int n))) (pool_start n width)"
  by (auto simp: pool_ok_def pool_start_def awaited_def map_replicate_const)

lemma pool_ok_step:
  assumes ok: "pool_ok outcome n width s" shows "pool_ok outcome n width (pool_step outcome n a s)"
proof (cases a)
  case (Run k)
  show ?thesis
  proof (cases "k < length (workers s) \<and> workers s ! k = Looping")
    case True
    then have k: "k < length (workers s)" "workers s ! k = Looping" by auto
    obtain l r where split: "concat (map items_of (workers s)) = l @ items_of (workers s ! k) @ r"
      "\<And>w. concat (map items_of ((workers s)[k := w])) = l @ items_of w @ r"
      using items_split [OF k(1)] by metis
    have aw: "awaited s = l @ r" using split(1) k(2) by (simp add: awaited_def)
    show ?thesis
    proof (cases "next_index s < n \<and> \<not> aborted s")
      case True
      let ?s = "s\<lparr>workers := (workers s)[k := Awaiting (next_index s)], next_index := Suc (next_index s), claimed := claimed s @ [next_index s]\<rparr>"
      have step: "pool_step outcome n a s = ?s" using Run k True by (simp add: pool_step_def)
      have new: "awaited ?s = l @ next_index s # r" using split(2) by (simp add: awaited_def)
      have fresh: "next_index s \<notin> set l \<union> set r" using ok aw by (auto simp: pool_ok_def)
      have "Returned \<notin> set (workers s)" using ok True by (auto simp: pool_ok_def)
      then have "Returned \<notin> set ((workers s)[k := Awaiting (next_index s)])" using set_update_subset_insert by fastforce
      then show ?thesis unfolding step using ok True fresh aw new
        by (auto simp: pool_ok_def less_Suc_eq intro!: nth_equalityI)
    next
      case False
      let ?s = "s\<lparr>workers := (workers s)[k := Returned]\<rparr>"
      have step: "pool_step outcome n a s = ?s" using Run k False by (auto simp: pool_step_def)
      have "awaited ?s = awaited s" using split(2) aw by (simp add: awaited_def)
      then show ?thesis unfolding step using ok False by (auto simp: pool_ok_def)
    qed
  next
    case False
    then have "pool_step outcome n a s = s" using Run by (auto simp: pool_step_def)
    then show ?thesis using ok by simp
  qed
next
  case (Settle k)
  show ?thesis
  proof (cases "\<exists>i. k < length (workers s) \<and> workers s ! k = Awaiting i")
    case True
    then obtain i where k: "k < length (workers s)" "workers s ! k = Awaiting i" by auto
    obtain l r where split: "concat (map items_of (workers s)) = l @ items_of (workers s ! k) @ r"
      "\<And>w. concat (map items_of ((workers s)[k := w])) = l @ items_of w @ r"
      using items_split [OF k(1)] by metis
    let ?s = "s\<lparr>workers := (workers s)[k := Looping], results := (results s)[i := outcome i]\<rparr>"
    have step: "pool_step outcome n a s = ?s" using Settle k by (simp add: pool_step_def)
    have aw: "awaited s = l @ i # r" using split(1) k(2) by (simp add: awaited_def)
    have new: "awaited ?s = l @ r" using split(2) by (simp add: awaited_def)
    have i: "i < next_index s" "i < n" "i \<notin> set (l @ r)" using ok aw by (auto simp: pool_ok_def)
    have "results ?s = map (\<lambda>j. if j < next_index s \<and> j \<notin> set (l @ r) then outcome j else None) [0..<n]"
    proof -
      have "results s = map (\<lambda>j. if j < next_index s \<and> j \<notin> set (l @ i # r) then outcome j else None) [0..<n]"
        using ok aw by (simp add: pool_ok_def)
      then show ?thesis using i by (auto simp: list_eq_iff_nth_eq nth_list_update)
    qed
    moreover have "Returned \<in> set ((workers s)[k := Looping]) \<Longrightarrow> Returned \<in> set (workers s)"
      using set_update_subset_insert by fastforce
    ultimately show ?thesis unfolding step using ok aw new by (auto simp: pool_ok_def)
  next
    case False
    then have "pool_step outcome n a s = s" using Settle by (auto simp: pool_step_def split: worker.splits)
    then show ?thesis using ok by simp
  qed
next
  case Abort
  then show ?thesis using ok by (auto simp: pool_ok_def pool_step_def awaited_def)
qed

text \<open>The work that is left: the items not claimed, twice, the awaited ones and the workers that have not returned.\<close>

definition worker_work :: "worker \<Rightarrow> nat" where
  "worker_work w = (case w of Looping \<Rightarrow> 1 | Awaiting i \<Rightarrow> 2 | Returned \<Rightarrow> 0)"

definition pool_work :: "nat \<Rightarrow> 'r pool \<Rightarrow> nat" where
  "pool_work n s = 2 * (n - next_index s) + sum_list (map worker_work (workers s))"

definition pool_finished :: "'r pool \<Rightarrow> bool" where
  "pool_finished s \<longleftrightarrow> list_all (\<lambda>w. w = Returned) (workers s)"

lemma worker_work_update:
  "k < length ws \<Longrightarrow> sum_list (map worker_work (ws[k := w])) + worker_work (ws ! k) = sum_list (map worker_work ws) + worker_work w"
proof (induction ws arbitrary: k)
  case (Cons x ws)
  then show ?case by (cases k) (auto simp: add.assoc add.left_commute)
qed simp

text \<open>Every action of a worker that does anything uses up work, so the pool cannot run forever.\<close>

lemma pool_step_works:
  assumes "k < length (workers s)" "workers s ! k \<noteq> Returned"
  shows "pool_work n (pool_step outcome n (case workers s ! k of Awaiting i \<Rightarrow> Settle k | _ \<Rightarrow> Run k) s) < pool_work n s"
  using assms worker_work_update [OF assms(1), of Looping] worker_work_update [OF assms(1), of Returned]
    worker_work_update [OF assms(1), of "Awaiting (next_index s)"]
  by (cases "workers s ! k") (auto simp: pool_step_def pool_work_def worker_work_def less_Suc_eq_le Let_def split: if_splits)

text \<open>Actions other than an abort.\<close>

definition working :: "pool_action \<Rightarrow> bool" where
  "working a \<longleftrightarrow> a \<noteq> Abort"

interpretation pool: step_invariant "pool_step outcome n" "\<lambda>a. True" "pool_ok outcome n width"
  for outcome :: "nat \<Rightarrow> 'r option" and n width
  by unfold_locales (rule pool_ok_step)

interpretation unaborted: step_progress "pool_step outcome n" working "pool_ok outcome n width" pool_finished "pool_work n"
  for outcome :: "nat \<Rightarrow> 'r option" and n width
proof unfold_locales
  fix s :: "'r pool" and a
  assume "pool_ok outcome n width s" "working a"
  then show "pool_ok outcome n width (pool_step outcome n a s)" by (blast intro: pool_ok_step)
next
  fix s :: "'r pool"
  assume "\<not> pool_finished s"
  then obtain k where "k < length (workers s)" "workers s ! k \<noteq> Returned"
    by (auto simp: pool_finished_def list_all_length)
  then have "pool_work n (pool_step outcome n (case workers s ! k of Awaiting i \<Rightarrow> Settle k | _ \<Rightarrow> Run k) s) < pool_work n s"
    by (rule pool_step_works)
  moreover have "working (case workers s ! k of Awaiting i \<Rightarrow> Settle k | _ \<Rightarrow> Run k)" by (auto simp: working_def split: worker.splits)
  ultimately show "\<exists>a. working a \<and> pool_work n (pool_step outcome n a s) < pool_work n s" by blast
qed

lemma awaited_at_most: "length (awaited s) \<le> length (workers s)"
proof -
  have "length (concat (map items_of ws)) \<le> length ws" for ws
    by (induction ws) (auto simp: items_of_def split: worker.splits)
  then show ?thesis by (simp add: awaited_def)
qed

lemma finished_awaits_nothing: "pool_finished s \<Longrightarrow> awaited s = []"
  by (auto simp: awaited_def pool_finished_def list_all_iff split: worker.splits)

lemma unaborted_start: "list_all working as \<Longrightarrow> aborted (fold (pool_step outcome n) as s) = aborted s"
proof (induction as arbitrary: s)
  case (Cons a as)
  moreover have "aborted (pool_step outcome n a s) = aborted s" if "working a"
    using that by (auto simp: pool_step_def working_def split: pool_action.splits worker.splits)
  ultimately show ?case by simp
qed simp

section \<open>The width of a step's pool\<close>

text \<open>Numbers of the configuration are finite; \<open>os.cpus().length\<close> is a parameter.\<close>

definition workflow_max_concurrency_ceiling :: int where
  "workflow_max_concurrency_ceiling = 64"

definition cpu_derived_unit_concurrency :: "int \<Rightarrow> int" where
  "cpu_derived_unit_concurrency cpus = min 16 (max 1 (cpus - 2))"

definition clamp_max_concurrency :: "rat \<Rightarrow> int" where
  "clamp_max_concurrency v = min workflow_max_concurrency_ceiling (max 1 (floor v))"

definition workflow_max_concurrency :: "rat option \<Rightarrow> int \<Rightarrow> int" where
  "workflow_max_concurrency configured cpus = (case configured of None \<Rightarrow> cpu_derived_unit_concurrency cpus | Some v \<Rightarrow> clamp_max_concurrency v)"

definition default_llm_engine_concurrency :: "bool \<Rightarrow> rat option \<Rightarrow> int" where
  "default_llm_engine_concurrency loopback configured = (case configured of Some v \<Rightarrow> clamp_max_concurrency v | None \<Rightarrow> if loopback then 1 else 4)"

definition default_map_concurrency :: "rat option \<Rightarrow> int" where
  "default_map_concurrency configured = (case configured of None \<Rightarrow> 4 | Some v \<Rightarrow> clamp_max_concurrency v)"

record schedule_options =
  step_concurrency :: "int option"
  max_concurrency :: "int option"
  llm_concurrency :: "int option"
  host_concurrency :: "int option"

definition min_limit :: "int option \<Rightarrow> int \<Rightarrow> int" where
  "min_limit limit v = (case limit of None \<Rightarrow> v | Some l \<Rightarrow> min v l)"

definition schedule_width :: "schedule_options \<Rightarrow> int \<Rightarrow> int" where
  "schedule_width opts cpus = max 1
     (min_limit (Some (case host_concurrency opts of None \<Rightarrow> cpu_derived_unit_concurrency cpus | Some h \<Rightarrow> h))
       (min_limit (llm_concurrency opts) (min_limit (max_concurrency opts) (case step_concurrency opts of None \<Rightarrow> 1 | Some c \<Rightarrow> c))))"

text \<open>\<open>scheduleUnits\<close>: a run of the pool of that width over \<open>n\<close> items.\<close>

definition schedule_units :: "schedule_options \<Rightarrow> int \<Rightarrow> (nat \<Rightarrow> 'r option) \<Rightarrow> nat \<Rightarrow> pool_action list \<Rightarrow> 'r pool" where
  "schedule_units opts cpus outcome n as = fold (pool_step outcome n) as (pool_start n (schedule_width opts cpus))"

lemma schedule_units_ok: "pool_ok outcome n (nat (min (schedule_width opts cpus) (int n))) (schedule_units opts cpus outcome n as)"
  unfolding schedule_units_def by (rule pool.acts_ok) (simp_all add: pool_ok_start list_all_iff)

lemma pool_start_work: "0 < n \<Longrightarrow> 0 < width \<Longrightarrow> workers (pool_start n width) \<noteq> []"
  by (simp add: pool_start_def)

text \<open>
  The limits that apply to a step, by themselves: its own concurrency (one, if it names none), the cap of the run and that of the
  engine where there is one, and the cap of the host, which without the seam of the tests is two less than the processors, at
  least one and at most sixteen.
\<close>

definition limits :: "schedule_options \<Rightarrow> int \<Rightarrow> int list" where
  "limits opts cpus = (case step_concurrency opts of None \<Rightarrow> 1 | Some c \<Rightarrow> c)
     # (case host_concurrency opts of None \<Rightarrow> min 16 (max 1 (cpus - 2)) | Some h \<Rightarrow> h)
     # List.map_filter id [max_concurrency opts, llm_concurrency opts]"

lemma schedule_width_least:
  "l \<in> set (limits opts cpus) \<Longrightarrow> schedule_width opts cpus \<le> max 1 l"
  "\<exists>l \<in> set (limits opts cpus). schedule_width opts cpus = max 1 l"
  by (auto simp: limits_def schedule_width_def min_limit_def cpu_derived_unit_concurrency_def List.map_filter_def min_def split: option.splits)

text \<open>C29: However the workers of a scheduled step interleave, and whatever settles when, no more items are in flight than each of
  the limits that apply allows (at least one), and the pool is as wide as the smallest of them; items are claimed once each and in order,
  and a slot holds the outcome of its item once it settled.  When the workers have returned every claimed item has settled, and without an
  abort every item was claimed; from every state the workers can return.
\<close>

theorem scheduled_units_run_once:
  fixes outcome :: "nat \<Rightarrow> 'r option"
  assumes "s = schedule_units opts cpus outcome n as"
  shows "(\<forall>l \<in> set (limits opts cpus). int (length (awaited s)) \<le> max 1 l)
    \<and> (\<exists>l \<in> set (limits opts cpus). length (workers s) = nat (min (max 1 l) (int n)))
    \<and> claimed s = [0..<next_index s] \<and> distinct (awaited s) \<and> set (awaited s) \<subseteq> set (claimed s)
    \<and> results s = map (\<lambda>i. if i \<in> set (claimed s) - set (awaited s) then outcome i else None) [0..<n]
    \<and> (pool_finished s \<longrightarrow> awaited s = [] \<and> (list_all working as \<longrightarrow> results s = map outcome [0..<n]))
    \<and> (\<exists>more. list_all working more \<and> pool_finished (fold (pool_step outcome n) more s))"
proof -
  let ?w = "nat (min (schedule_width opts cpus) (int n))"
  have ok: "pool_ok outcome n ?w s" unfolding assms by (rule schedule_units_ok)
  have positive: "0 < schedule_width opts cpus" by (simp add: schedule_width_def)
  have workers: "length (workers s) = ?w" using ok by (simp add: pool_ok_def)
  have "int (length (awaited s)) \<le> schedule_width opts cpus"
    using awaited_at_most [of s] workers positive by simp
  then have capped: "\<forall>l \<in> set (limits opts cpus). int (length (awaited s)) \<le> max 1 l"
    using schedule_width_least(1) order_trans by blast
  have width: "\<exists>l \<in> set (limits opts cpus). length (workers s) = nat (min (max 1 l) (int n))"
    using schedule_width_least(2) [of opts cpus] workers by metis
  have all: "results s = map outcome [0..<n]" if fin: "pool_finished s" and as: "list_all working as"
  proof (cases "n = 0")
    case True
    then show ?thesis using ok by (simp add: pool_ok_def)
  next
    case False
    then have "workers s \<noteq> []" using positive workers by auto
    then have "Returned \<in> set (workers s)" using fin by (cases "workers s") (auto simp: pool_finished_def)
    moreover have "\<not> aborted s" unfolding assms schedule_units_def unaborted_start [OF as] by (simp add: pool_start_def)
    ultimately have "next_index s = n" using ok by (simp add: pool_ok_def)
    then show ?thesis using ok finished_awaits_nothing [OF fin] by (simp add: pool_ok_def)
  qed
  have "\<exists>more. list_all working more \<and> pool_finished (fold (pool_step outcome n) more s)"
    by (rule unaborted.reaches_goal [OF ok])
  then show ?thesis using ok capped width all finished_awaits_nothing [of s] by (auto simp: pool_ok_def)
qed

theorem scheduled_units_run_once_witness:
  "results (schedule_units \<lparr>step_concurrency = Some 4, max_concurrency = None, llm_concurrency = Some 2, host_concurrency = None\<rparr> 8
       (\<lambda>i. if i = 1 then None else Some (10 * i)) 3 [Run 0, Run 1, Settle 1, Run 1, Settle 0, Run 0, Settle 1, Run 1])
     = [Some (0::nat), None, Some 20]
   \<and> pool_finished (schedule_units \<lparr>step_concurrency = Some 4, max_concurrency = None, llm_concurrency = Some 2, host_concurrency = None\<rparr> 8
       (\<lambda>i. if i = 1 then None else Some (10 * i)) 3 [Run 0, Run 1, Settle 1, Run 1, Settle 0, Run 0, Settle 1, Run 1])"
proof -
  let ?o = "\<lparr>step_concurrency = Some 4, max_concurrency = None, llm_concurrency = Some 2, host_concurrency = None\<rparr>"
    and ?f = "\<lambda>i::nat. if i = 1 then None else Some (10 * i)" and ?as = "[Run 0, Run 1, Settle 1, Run 1, Settle 0, Run 0, Settle 1, Run 1]"
  have fin: "pool_finished (schedule_units ?o 8 ?f 3 ?as)" by code_simp
  have work: "list_all working ?as" by code_simp
  have "results (schedule_units ?o 8 ?f 3 ?as) = map ?f [0..<3]"
    using scheduled_units_run_once [OF refl, of ?o 8 ?f 3 ?as] fin work by blast
  also have "map ?f [0..<3] = [Some 0, None, Some 20]" by code_simp
  finally show ?thesis using fin by (rule conjI)
qed

section \<open>Promise chains\<close>

text \<open>A task is what one call of \<open>serializeByKey\<close> made: it runs when the promise it waits for has settled.  The promise kept
  in the map is the one that settles with the task; its last reaction drops the map entry if it is still its own.\<close>

datatype task_status = Waiting | Running | Settled bool

record task =
  task_key :: string
  waits_for :: "nat option"
  task_status :: task_status
  pruned :: bool

record chains =
  chain_tail :: "string \<Rightarrow> nat option"
  tasks :: "task list"

datatype chain_action = Enqueue string | Start nat | Finish nat bool | Prune nat

definition settled :: "task \<Rightarrow> bool" where
  "settled t \<longleftrightarrow> (case task_status t of Settled ok \<Rightarrow> True | _ \<Rightarrow> False)"

definition serialize_by_key :: "string \<Rightarrow> chains \<Rightarrow> chains" where
  "serialize_by_key key s = s\<lparr>tasks := tasks s @ [\<lparr>task_key = key, waits_for = chain_tail s key, task_status = Waiting, pruned = False\<rparr>],
     chain_tail := (chain_tail s)(key := Some (length (tasks s)))\<rparr>"

definition chain_step :: "chain_action \<Rightarrow> chains \<Rightarrow> chains" where
  "chain_step a s = (case a of
     Enqueue key \<Rightarrow> serialize_by_key key s
   | Start i \<Rightarrow>
       if i < length (tasks s) \<and> task_status (tasks s ! i) = Waiting
          \<and> (case waits_for (tasks s ! i) of None \<Rightarrow> True | Some j \<Rightarrow> settled (tasks s ! j))
       then s\<lparr>tasks := (tasks s)[i := (tasks s ! i)\<lparr>task_status := Running\<rparr>]\<rparr> else s
   | Finish i ok \<Rightarrow>
       if i < length (tasks s) \<and> task_status (tasks s ! i) = Running
       then s\<lparr>tasks := (tasks s)[i := (tasks s ! i)\<lparr>task_status := Settled ok\<rparr>]\<rparr> else s
   | Prune i \<Rightarrow>
       if i < length (tasks s) \<and> settled (tasks s ! i) \<and> \<not> pruned (tasks s ! i)
       then s\<lparr>tasks := (tasks s)[i := (tasks s ! i)\<lparr>pruned := True\<rparr>],
              chain_tail := (if chain_tail s (task_key (tasks s ! i)) = Some i then (chain_tail s)(task_key (tasks s ! i) := None) else chain_tail s)\<rparr>
       else s)"

definition no_chains :: chains where
  "no_chains = \<lparr>chain_tail = (\<lambda>key. None), tasks = []\<rparr>"

text \<open>The invariant of the map and the tasks: whoever has left the queue has only settled tasks of its key before it, and so has
  a task without predecessor; a predecessor is the last task of the key before; the entry of a key is its last task, and there
  is one while any task of the key is unsettled.\<close>

definition order_ok :: "task list \<Rightarrow> bool" where
  "order_ok ts \<longleftrightarrow> (\<forall>j < length ts. \<forall>i < j. task_key (ts ! i) = task_key (ts ! j) \<longrightarrow>
     task_status (ts ! j) \<noteq> Waiting \<or> waits_for (ts ! j) = None \<longrightarrow> settled (ts ! i))"

definition waits_ok :: "task list \<Rightarrow> bool" where
  "waits_ok ts \<longleftrightarrow> (\<forall>j < length ts. \<forall>k. waits_for (ts ! j) = Some k \<longrightarrow> k < j \<and> task_key (ts ! k) = task_key (ts ! j)
     \<and> (\<forall>i < j. task_key (ts ! i) = task_key (ts ! j) \<longrightarrow> i \<le> k))"

definition tail_ok :: "task list \<Rightarrow> (string \<Rightarrow> nat option) \<Rightarrow> bool" where
  "tail_ok ts tails \<longleftrightarrow> (\<forall>key t. tails key = Some t \<longrightarrow> t < length ts \<and> task_key (ts ! t) = key \<and> \<not> pruned (ts ! t)
     \<and> (\<forall>i < length ts. task_key (ts ! i) = key \<longrightarrow> i \<le> t))"

definition idle_ok :: "task list \<Rightarrow> (string \<Rightarrow> nat option) \<Rightarrow> bool" where
  "idle_ok ts tails \<longleftrightarrow> (\<forall>i < length ts. tails (task_key (ts ! i)) = None \<longrightarrow> settled (ts ! i))"

definition chains_ok :: "chains \<Rightarrow> bool" where
  "chains_ok s \<longleftrightarrow> order_ok (tasks s) \<and> waits_ok (tasks s) \<and> tail_ok (tasks s) (chain_tail s) \<and> idle_ok (tasks s) (chain_tail s)"

lemma chains_ok_enqueue:
  assumes "chains_ok s" shows "chains_ok (serialize_by_key key s)"
proof -
  let ?ts = "tasks s" and ?t = "\<lparr>task_key = key, waits_for = chain_tail s key, task_status = Waiting, pruned = False\<rparr>"
  have ok: "order_ok ?ts" "waits_ok ?ts" "tail_ok ?ts (chain_tail s)" "idle_ok ?ts (chain_tail s)"
    using assms by (auto simp: chains_ok_def)
  have "order_ok (?ts @ [?t])" using ok(1,4) by (auto simp: order_ok_def idle_ok_def nth_append less_Suc_eq)
  moreover have "waits_ok (?ts @ [?t])" using ok(2,3) by (auto simp: waits_ok_def tail_ok_def nth_append less_Suc_eq)
  moreover have "tail_ok (?ts @ [?t]) ((chain_tail s)(key := Some (length ?ts)))"
    using ok(3) by (auto simp: tail_ok_def nth_append less_Suc_eq)
  moreover have "idle_ok (?ts @ [?t]) ((chain_tail s)(key := Some (length ?ts)))"
    using ok(4) by (auto simp: idle_ok_def nth_append less_Suc_eq)
  ultimately show ?thesis by (simp add: chains_ok_def serialize_by_key_def)
qed

text \<open>An update of one task that keeps its key and predecessor and can only settle it.\<close>

lemma task_update_queue:
  assumes "order_ok ts" "waits_ok ts" "i < length ts" "task_key t = task_key (ts ! i)" "waits_for t = waits_for (ts ! i)"
    "settled (ts ! i) \<Longrightarrow> settled t"
    and order: "task_status t \<noteq> Waiting \<Longrightarrow> \<forall>j < i. task_key (ts ! j) = task_key t \<longrightarrow> settled (ts ! j)"
  shows "order_ok (ts[i := t])" "waits_ok (ts[i := t])"
proof -
  let ?ts = "ts[i := t]"
  have same: "task_key (?ts ! j) = task_key (ts ! j)" "waits_for (?ts ! j) = waits_for (ts ! j)"
    "settled (ts ! j) \<Longrightarrow> settled (?ts ! j)" if "j < length ts" for j
    using that assms(3-6) by (auto simp: nth_list_update)
  show "order_ok ?ts" unfolding order_ok_def
  proof (intro allI impI)
    fix k j
    assume kj: "k < length ?ts" "j < k" "task_key (?ts ! j) = task_key (?ts ! k)" "task_status (?ts ! k) \<noteq> Waiting \<or> waits_for (?ts ! k) = None"
    then have less: "k < length ts" "j < length ts" by auto
    have "settled (ts ! j)"
    proof (cases "k = i \<and> task_status t \<noteq> Waiting")
      case True
      then show ?thesis using order kj same(1) [OF less(2)] assms(3) by simp
    next
      case False
      then have "task_status (ts ! k) \<noteq> Waiting \<or> waits_for (ts ! k) = None"
        using kj(4) assms(3,5) by (cases "k = i") auto
      then show ?thesis using assms(1) kj same(1) less by (auto simp: order_ok_def)
    qed
    then show "settled (?ts ! j)" using same(3) less by blast
  qed
  show "waits_ok ?ts" using assms(2) same by (auto simp: waits_ok_def)
qed

lemma task_update_ok:
  assumes "chains_ok s" "i < length (tasks s)" "task_key t = task_key (tasks s ! i)" "waits_for t = waits_for (tasks s ! i)"
    "pruned t = pruned (tasks s ! i)" "settled (tasks s ! i) \<Longrightarrow> settled t"
    "task_status t \<noteq> Waiting \<Longrightarrow> \<forall>j < i. task_key (tasks s ! j) = task_key t \<longrightarrow> settled (tasks s ! j)"
  shows "chains_ok (s\<lparr>tasks := (tasks s)[i := t]\<rparr>)"
proof -
  have ok: "order_ok (tasks s)" "waits_ok (tasks s)" "tail_ok (tasks s) (chain_tail s)" "idle_ok (tasks s) (chain_tail s)"
    using assms(1) by (auto simp: chains_ok_def)
  let ?ts = "(tasks s)[i := t]"
  have same: "task_key (?ts ! j) = task_key (tasks s ! j)"
    "pruned (?ts ! j) = pruned (tasks s ! j)" "settled (tasks s ! j) \<Longrightarrow> settled (?ts ! j)" if "j < length (tasks s)" for j
    using that assms(2-6) by (auto simp: nth_list_update)
  have "order_ok ?ts \<and> waits_ok ?ts" using task_update_queue [OF ok(1,2) assms(2-4,6,7)] by blast
  moreover have "tail_ok ?ts (chain_tail s)" using ok(3) same by (auto simp: tail_ok_def)
  moreover have "idle_ok ?ts (chain_tail s)" using ok(4) same by (auto simp: idle_ok_def)
  ultimately show ?thesis by (simp add: chains_ok_def)
qed

lemma settled_before:
  assumes "chains_ok s" "i < length (tasks s)" "j < i" "task_key (tasks s ! j) = task_key (tasks s ! i)"
    "task_status (tasks s ! i) \<noteq> Waiting \<or> (case waits_for (tasks s ! i) of None \<Rightarrow> True | Some k \<Rightarrow> settled (tasks s ! k))"
  shows "settled (tasks s ! j)"
proof (cases "task_status (tasks s ! i) \<noteq> Waiting \<or> waits_for (tasks s ! i) = None")
  case True
  then show ?thesis using assms by (auto simp: chains_ok_def order_ok_def)
next
  case False
  then obtain k where k: "waits_for (tasks s ! i) = Some k" "settled (tasks s ! k)" using assms(5) by (auto split: option.splits)
  then have last: "k < i" "task_key (tasks s ! k) = task_key (tasks s ! i)" "j \<le> k"
    using assms by (auto simp: chains_ok_def waits_ok_def)
  show ?thesis
  proof (cases "j = k")
    case False
    have "task_status (tasks s ! k) \<noteq> Waiting" using k(2) by (auto simp: settled_def)
    moreover have "order_ok (tasks s)" "j < k" "k < length (tasks s)" "task_key (tasks s ! j) = task_key (tasks s ! k)"
      using assms last False by (auto simp: chains_ok_def)
    ultimately show ?thesis unfolding order_ok_def by blast
  qed (use k in simp)
qed

lemma chains_ok_prune:
  assumes "chains_ok s" "i < length (tasks s)" "settled (tasks s ! i)"
  shows "chains_ok (s\<lparr>tasks := (tasks s)[i := (tasks s ! i)\<lparr>pruned := True\<rparr>],
    chain_tail := (if chain_tail s (task_key (tasks s ! i)) = Some i then (chain_tail s)(task_key (tasks s ! i) := None) else chain_tail s)\<rparr>)"
proof -
  let ?ts = "(tasks s)[i := (tasks s ! i)\<lparr>pruned := True\<rparr>]"
    and ?tails = "if chain_tail s (task_key (tasks s ! i)) = Some i then (chain_tail s)(task_key (tasks s ! i) := None) else chain_tail s"
  have ok: "order_ok (tasks s)" "waits_ok (tasks s)" "tail_ok (tasks s) (chain_tail s)" "idle_ok (tasks s) (chain_tail s)"
    using assms(1) by (auto simp: chains_ok_def)
  have same: "task_key (?ts ! j) = task_key (tasks s ! j)" "waits_for (?ts ! j) = waits_for (tasks s ! j)"
    "task_status (?ts ! j) = task_status (tasks s ! j)" "settled (?ts ! j) = settled (tasks s ! j)"
    "pruned (?ts ! j) = (pruned (tasks s ! j) \<or> j = i)" if "j < length (tasks s)" for j
    using that assms(2) by (auto simp: nth_list_update settled_def)
  have earlier: "\<forall>j < i. task_key (tasks s ! j) = task_key (tasks s ! i) \<longrightarrow> settled (tasks s ! j)"
  proof -
    have "task_status (tasks s ! i) \<noteq> Waiting" using assms(3) by (auto simp: settled_def)
    then show ?thesis using settled_before [OF assms(1,2)] by blast
  qed
  have t: "task_key ((tasks s ! i)\<lparr>pruned := True\<rparr>) = task_key (tasks s ! i)" "waits_for ((tasks s ! i)\<lparr>pruned := True\<rparr>) = waits_for (tasks s ! i)"
    "settled ((tasks s ! i)\<lparr>pruned := True\<rparr>)" using assms(3) by (simp_all add: settled_def)
  have "\<forall>j < i. task_key (tasks s ! j) = task_key ((tasks s ! i)\<lparr>pruned := True\<rparr>) \<longrightarrow> settled (tasks s ! j)"
    unfolding t(1) by (rule earlier)
  then have "order_ok ?ts \<and> waits_ok ?ts"
    using task_update_queue [OF ok(1,2) assms(2) t] by blast
  moreover have "tail_ok ?ts ?tails" unfolding tail_ok_def
  proof (intro allI impI)
    fix key t
    assume kt: "?tails key = Some t"
    have keys: "task_key (tasks s ! t') = key'" if "chain_tail s key' = Some t'" for key' t'
      using ok(3) that unfolding tail_ok_def by blast
    have old: "chain_tail s key = Some t" using kt by (simp split: if_splits)
    have "t \<noteq> i" using kt keys [OF old] by (auto split: if_splits)
    note old = old this
    have t: "t < length (tasks s)" "task_key (tasks s ! t) = key" "\<not> pruned (tasks s ! t)"
      "\<forall>j < length (tasks s). task_key (tasks s ! j) = key \<longrightarrow> j \<le> t" using ok(3) old(1) unfolding tail_ok_def by blast+
    then show "t < length ?ts \<and> task_key (?ts ! t) = key \<and> \<not> pruned (?ts ! t) \<and> (\<forall>j < length ?ts. task_key (?ts ! j) = key \<longrightarrow> j \<le> t)"
      using same(1,5) old(2) by (metis length_list_update)
  qed
  moreover have "settled (?ts ! j)" if "j < length ?ts" "?tails (task_key (?ts ! j)) = None" for j
  proof (cases "task_key (tasks s ! j) = task_key (tasks s ! i) \<and> chain_tail s (task_key (tasks s ! i)) = Some i")
    case True
    then have "j \<le> i" using ok(3) that(1) by (auto simp: tail_ok_def)
    then have "settled (tasks s ! j)" using earlier assms(3) True by (cases "j = i") auto
    then show ?thesis using same(4) that(1) by simp
  next
    case False
    then have "chain_tail s (task_key (tasks s ! j)) = None" using that same(1) by (auto split: if_splits)
    then show ?thesis using ok(4) same(4) that(1) by (auto simp: idle_ok_def)
  qed
  ultimately show ?thesis by (simp add: chains_ok_def idle_ok_def)
qed

lemma chains_ok_step:
  assumes "chains_ok s" shows "chains_ok (chain_step a s)"
proof (cases a)
  case (Start i)
  show ?thesis
  proof (cases "i < length (tasks s) \<and> task_status (tasks s ! i) = Waiting
      \<and> (case waits_for (tasks s ! i) of None \<Rightarrow> True | Some j \<Rightarrow> settled (tasks s ! j))")
    case True
    then have "chains_ok (s\<lparr>tasks := (tasks s)[i := (tasks s ! i)\<lparr>task_status := Running\<rparr>]\<rparr>)"
      using settled_before [OF assms, of i] by (intro task_update_ok [OF assms]) (auto simp: settled_def)
    then show ?thesis using Start True by (simp add: chain_step_def)
  next
    case False
    then have "chain_step a s = s" using Start by (simp only: chain_step_def chain_action.case if_False)
    then show ?thesis using assms by simp
  qed
next
  case (Finish i ok)
  show ?thesis
  proof (cases "i < length (tasks s) \<and> task_status (tasks s ! i) = Running")
    case True
    then have "chains_ok (s\<lparr>tasks := (tasks s)[i := (tasks s ! i)\<lparr>task_status := Settled ok\<rparr>]\<rparr>)"
      using settled_before [OF assms, of i] by (intro task_update_ok [OF assms]) (auto simp: settled_def)
    then show ?thesis using Finish True by (simp add: chain_step_def)
  next
    case False
    then have "chain_step a s = s" using Finish by (simp only: chain_step_def chain_action.case if_False)
    then show ?thesis using assms by simp
  qed
next
  case (Prune i)
  show ?thesis
  proof (cases "i < length (tasks s) \<and> settled (tasks s ! i) \<and> \<not> pruned (tasks s ! i)")
    case True
    then show ?thesis using chains_ok_prune [OF assms, of i] Prune by (simp only: chain_step_def chain_action.case if_True simp_thms)
  next
    case False
    then have "chain_step a s = s" using Prune by (simp only: chain_step_def chain_action.case if_False)
    then show ?thesis using assms by simp
  qed
next
  case (Enqueue key)
  then show ?thesis using assms chains_ok_enqueue by (simp add: chain_step_def)
qed

definition task_work :: "task \<Rightarrow> nat" where
  "task_work t = (case task_status t of Waiting \<Rightarrow> 3 | Running \<Rightarrow> 2 | Settled ok \<Rightarrow> if pruned t then 0 else 1)"

definition chain_work :: "chains \<Rightarrow> nat" where
  "chain_work s = sum_list (map task_work (tasks s))"

definition drained :: "chains \<Rightarrow> bool" where
  "drained s \<longleftrightarrow> list_all (\<lambda>t. settled t \<and> pruned t) (tasks s)"

text \<open>The actions that go on with the tasks there are, each settling as its outcome says.\<close>

definition carries_on :: "(nat \<Rightarrow> bool) \<Rightarrow> chain_action \<Rightarrow> bool" where
  "carries_on outcome a \<longleftrightarrow> (case a of Enqueue key \<Rightarrow> False | Finish i ok \<Rightarrow> ok = outcome i | _ \<Rightarrow> True)"

lemma task_work_update: "i < length ts \<Longrightarrow> task_work t < task_work (ts ! i) \<Longrightarrow> sum_list (map task_work (ts[i := t])) < sum_list (map task_work ts)"
proof (induction ts arbitrary: i)
  case (Cons x ts)
  then show ?case by (cases i) auto
qed simp

lemma chain_progress:
  assumes ok: "chains_ok s" and work: "\<not> drained s"
  shows "\<exists>a. carries_on outcome a \<and> chain_work (chain_step a s) < chain_work s"
proof (cases "\<exists>i < length (tasks s). \<not> settled (tasks s ! i)")
  case True
  define i where "i = (LEAST i. i < length (tasks s) \<and> \<not> settled (tasks s ! i))"
  have i: "i < length (tasks s) \<and> \<not> settled (tasks s ! i)" unfolding i_def by (rule LeastI_ex) (use True in blast)
  have earlier: "settled (tasks s ! k)" if "k < i" for k
    using not_less_Least [of k "\<lambda>i. i < length (tasks s) \<and> \<not> settled (tasks s ! i)"] that i by (simp add: i_def [symmetric])
  show ?thesis
  proof (cases "task_status (tasks s ! i)")
    case Waiting
    have "case waits_for (tasks s ! i) of None \<Rightarrow> True | Some k \<Rightarrow> settled (tasks s ! k)"
      using ok i earlier by (auto simp: chains_ok_def waits_ok_def split: option.split)
    then have "tasks (chain_step (Start i) s) = (tasks s)[i := (tasks s ! i)\<lparr>task_status := Running\<rparr>]"
      using i Waiting by (simp add: chain_step_def)
    then have "chain_work (chain_step (Start i) s) < chain_work s"
      unfolding chain_work_def using i Waiting by (simp add: task_work_update task_work_def)
    moreover have "carries_on outcome (Start i)" by (simp add: carries_on_def)
    ultimately show ?thesis by blast
  next
    case Running
    then have "tasks (chain_step (Finish i (outcome i)) s) = (tasks s)[i := (tasks s ! i)\<lparr>task_status := Settled (outcome i)\<rparr>]"
      using i by (simp add: chain_step_def)
    then have "chain_work (chain_step (Finish i (outcome i)) s) < chain_work s"
      unfolding chain_work_def using i Running by (simp add: task_work_update task_work_def)
    moreover have "carries_on outcome (Finish i (outcome i))" by (simp add: carries_on_def)
    ultimately show ?thesis by blast
  next
    case (Settled x)
    then show ?thesis using i by (simp add: settled_def)
  qed
next
  case False
  then obtain i where i: "i < length (tasks s)" "settled (tasks s ! i)" "\<not> pruned (tasks s ! i)"
    using work by (auto simp: drained_def list_all_length)
  then have "tasks (chain_step (Prune i) s) = (tasks s)[i := (tasks s ! i)\<lparr>pruned := True\<rparr>]" by (simp add: chain_step_def)
  then have "chain_work (chain_step (Prune i) s) < chain_work s"
    unfolding chain_work_def using i by (auto simp: task_work_update task_work_def settled_def split: task_status.splits)
  moreover have "carries_on outcome (Prune i)" by (simp add: carries_on_def)
  ultimately show ?thesis by blast
qed

interpretation chain: step_invariant chain_step "\<lambda>a. True" chains_ok
  by unfold_locales (rule chains_ok_step)

interpretation carrying_on: step_progress chain_step "carries_on outcome" chains_ok drained chain_work for outcome
  by unfold_locales (auto intro: chains_ok_step chain_progress)

lemma no_chains_ok: "chains_ok no_chains"
  by (simp add: chains_ok_def no_chains_def order_ok_def waits_ok_def tail_ok_def idle_ok_def)

lemma drained_map_empty:
  assumes "chains_ok s" "drained s" shows "chain_tail s = (\<lambda>key. None)"
proof
  fix key
  show "chain_tail s key = None"
  proof (rule ccontr)
    assume "chain_tail s key \<noteq> None"
    then obtain t where "chain_tail s key = Some t" by blast
    then have "t < length (tasks s)" "\<not> pruned (tasks s ! t)" using assms(1) by (auto simp: chains_ok_def tail_ok_def)
    then show False using assms(2) by (auto simp: drained_def list_all_length)
  qed
qed

text \<open>C30: However the tasks that were enqueued under their keys interleave, a task of a key leaves the queue only when every task
  enqueued before it under that key has settled, so that at most one runs; whatever the outcomes, failures included, all of
  them can go on to settle; and once their reactions have run, the map of chains is empty.
\<close>

theorem serialized_tasks_take_turns:
  assumes "s = fold chain_step as no_chains"
  shows "(\<forall>j < length (tasks s). \<forall>i < j. task_key (tasks s ! i) = task_key (tasks s ! j) \<and> task_status (tasks s ! j) \<noteq> Waiting
        \<longrightarrow> settled (tasks s ! i))
    \<and> (\<exists>more. list_all (carries_on outcome) more \<and> drained (fold chain_step more s))
    \<and> (drained s \<longrightarrow> chain_tail s = (\<lambda>key. None))"
proof -
  have ok: "chains_ok s" unfolding assms by (rule chain.acts_ok) (simp_all add: no_chains_ok list_all_iff)
  have "\<exists>more. list_all (carries_on outcome) more \<and> drained (fold chain_step more s)"
    by (rule carrying_on.reaches_goal [OF ok])
  then show ?thesis using ok drained_map_empty [OF ok] by (auto simp: chains_ok_def order_ok_def)
qed

theorem serialized_tasks_take_turns_witness:
  "chain_tail (fold chain_step [Enqueue ''a'', Enqueue ''a'', Start 1, Start 0, Finish 0 False, Start 1, Prune 0, Finish 1 True, Prune 1] no_chains) ''a'' = None
   \<and> map task_status (tasks (fold chain_step [Enqueue ''a'', Enqueue ''a'', Start 1, Start 0, Finish 0 False, Start 1, Prune 0, Finish 1 True, Prune 1] no_chains))
     = [Settled False, Settled True]"
proof -
  let ?as = "[Enqueue ''a'', Enqueue ''a'', Start 1, Start 0, Finish 0 False, Start 1, Prune 0, Finish 1 True, Prune 1]"
  have "drained (fold chain_step ?as no_chains)" by code_simp
  then have "chain_tail (fold chain_step ?as no_chains) = (\<lambda>key. None)"
    using serialized_tasks_take_turns [OF refl, of ?as] by blast
  moreover have "map task_status (tasks (fold chain_step ?as no_chains)) = [Settled False, Settled True]" by code_simp
  ultimately show ?thesis by (simp only: simp_thms)
qed

end
