(* ===== verification/Json_Text.thy ===== *)
theory Json_Text
  imports Js_Number Json_Schema
begin

text \<open>
  \<open>JSON.stringify\<close> and \<open>JSON.parse\<close>, as \<^verbatim>\<open>src/execution/input-contract.ts\<close> writes and reads inputs, and the order in which the
  program enumerates the keys of an object: those that are array indices first, in ascending order, then the others in
  the order they were added.  A number too large for a double is outside the values of the model and read as an error.
\<close>

section \<open>The order of keys\<close>

definition index_key :: "string \<Rightarrow> int option" where
  "index_key s = (if all_digits s \<and> (s = ''0'' \<or> hd s \<noteq> CHR ''0'') \<and> int_of_digits s \<le> 4294967294
     then Some (int_of_digits s) else None)"

fun put_entry :: "string \<Rightarrow> 'v \<Rightarrow> (string \<times> 'v) list \<Rightarrow> (string \<times> 'v) list" where
  "put_entry k v [] = [(k, v)]"
| "put_entry k v ((l, w) # es) = (if l = k then (k, v) # es else (l, w) # put_entry k v es)"

definition index_rank :: "string \<Rightarrow> int" where
  "index_rank k = (case index_key k of Some i \<Rightarrow> i | None \<Rightarrow> 0)"

definition enumerated :: "(string \<times> 'v) list \<Rightarrow> (string \<times> 'v) list" where
  "enumerated es = sort_key (\<lambda>(k, v). index_rank k) (filter (\<lambda>(k, v). index_key k \<noteq> None) es) @ filter (\<lambda>(k, v). index_key k = None) es"

text \<open>An object to which the entries are added one after the other, as by \<open>Object.fromEntries\<close> or the parser.\<close>

definition from_entries :: "(string \<times> 'v) list \<Rightarrow> (string \<times> 'v) list" where
  "from_entries es = enumerated (foldl (\<lambda>acc (k, v). put_entry k v acc) [] es)"

section \<open>Writing\<close>

definition hex_digit :: "nat \<Rightarrow> char" where
  "hex_digit d = char_of (if d < 10 then 48 + d else 87 + d)"

definition quoted_char :: "char \<Rightarrow> string" where
  "quoted_char c =
     (if c = CHR 0x22 then [CHR 0x5C, c] else if c = CHR 0x5C then [CHR 0x5C, c]
      else if c = CHR 0x08 then [CHR 0x5C, CHR ''b''] else if c = CHR 0x09 then [CHR 0x5C, CHR ''t'']
      else if c = CHR 0x0A then [CHR 0x5C, CHR ''n''] else if c = CHR 0x0C then [CHR 0x5C, CHR ''f'']
      else if c = CHR 0x0D then [CHR 0x5C, CHR ''r'']
      else if code_of c < (32 :: nat) then [CHR 0x5C, CHR ''u'', CHR ''0'', CHR ''0'', hex_digit (code_of c div 16), hex_digit (code_of c mod 16)]
      else [c])"

definition quote_json :: "string \<Rightarrow> string" where
  "quote_json s = [CHR 0x22] @ concat (map quoted_char s) @ [CHR 0x22]"

text \<open>\<open>String\<close> of a number: plain digits for a safe integer.  For the other doubles the language asks for the shortest digits
  that read back and leaves open which; the text is an argument.\<close>

definition integer_text :: "int \<Rightarrow> string" where
  "integer_text n = (if n < 0 then CHR ''-'' # nat_to_string (nat (- n)) else nat_to_string (nat n))"

definition number_text :: "(rat \<Rightarrow> string) \<Rightarrow> rat \<Rightarrow> string" where
  "number_text double_text r = (if is_integer r \<and> \<bar>r\<bar> \<le> 9007199254740991 then integer_text \<lfloor>r\<rfloor> else double_text r)"

fun stringify_json :: "(rat \<Rightarrow> string) \<Rightarrow> json \<Rightarrow> string" where
  "stringify_json dt JNull = ''null''"
| "stringify_json dt (JBool b) = (if b then ''true'' else ''false'')"
| "stringify_json dt (JNum r) = number_text dt r"
| "stringify_json dt (JStr s) = quote_json s"
| "stringify_json dt (JArr xs) = ''['' @ join_with '','' (map (stringify_json dt) xs) @ '']''"
| "stringify_json dt (JObj fs) = ''{'' @ join_with '','' (map (\<lambda>(k, v). quote_json k @ '':'' @ stringify_json dt v) fs) @ ''}''"

section \<open>Reading\<close>

definition json_space :: "char \<Rightarrow> bool" where
  "json_space c \<longleftrightarrow> c = CHR '' '' \<or> c = CHR 0x09 \<or> c = CHR 0x0A \<or> c = CHR 0x0D"

definition skip_space :: "string \<Rightarrow> string" where
  "skip_space s = dropWhile json_space s"

definition number_char :: "char \<Rightarrow> bool" where
  "number_char c \<longleftrightarrow> js_digit c \<or> c = CHR ''-'' \<or> c = CHR ''+'' \<or> c = CHR ''.'' \<or> c = CHR ''e'' \<or> c = CHR ''E''"

definition json_exponent :: "string \<Rightarrow> bool" where
  "json_exponent s = (case s of [] \<Rightarrow> True
     | c # cs \<Rightarrow> (c = CHR ''e'' \<or> c = CHR ''E'') \<and> all_digits (snd (split_sign cs)))"

definition json_fraction :: "string \<Rightarrow> bool" where
  "json_fraction s = (case s of [] \<Rightarrow> True
     | c # cs \<Rightarrow> if c = CHR ''.'' then takeWhile js_digit cs \<noteq> '''' \<and> json_exponent (dropWhile js_digit cs) else json_exponent s)"

text \<open>The grammar of numbers: no leading zero, no sign but a minus, digits on both sides of the point.\<close>

definition json_number :: "string \<Rightarrow> bool" where
  "json_number s = (let u = (case s of c # cs \<Rightarrow> if c = CHR ''-'' then cs else s | [] \<Rightarrow> []); whole = takeWhile js_digit u in
     whole \<noteq> '''' \<and> (whole = ''0'' \<or> hd whole \<noteq> CHR ''0'') \<and> json_fraction (dropWhile js_digit u))"

definition escaped_char :: "char \<Rightarrow> char option" where
  "escaped_char c = (if c = CHR 0x22 \<or> c = CHR 0x5C \<or> c = CHR ''/'' then Some c
     else if c = CHR ''b'' then Some (CHR 0x08) else if c = CHR ''f'' then Some (CHR 0x0C) else if c = CHR ''n'' then Some (CHR 0x0A)
     else if c = CHR ''r'' then Some (CHR 0x0D) else if c = CHR ''t'' then Some (CHR 0x09) else None)"

text \<open>The rest of a string after its opening quote; code units above 255 are outside the model.\<close>

fun parse_string :: "string \<Rightarrow> (string \<times> string) option" where
  "parse_string [] = None"
| "parse_string (c # cs) =
     (if c = CHR 0x22 then Some ([], cs)
      else if code_of c < (32 :: nat) then None
      else if c = CHR 0x5C then
        (case cs of
           [] \<Rightarrow> None
         | e # es \<Rightarrow>
             (if e = CHR ''u'' then
                (case es of
                   h1 # h2 # h3 # h4 # rest \<Rightarrow>
                     (case (hex_value h1, hex_value h2, hex_value h3, hex_value h4) of
                        (Some a, Some b, Some c, Some d) \<Rightarrow>
                          if a = 0 \<and> b = 0 then map_option (\<lambda>(s, r). (char_of (nat (16 * c + d)) # s, r)) (parse_string rest) else None
                      | _ \<Rightarrow> None)
                 | _ \<Rightarrow> None)
              else (case escaped_char e of
                  Some d \<Rightarrow> map_option (\<lambda>(s, r). (d # s, r)) (parse_string es) | None \<Rightarrow> None)))
      else map_option (\<lambda>(s, r). (c # s, r)) (parse_string cs))"

definition parse_number :: "string \<Rightarrow> (json \<times> string) option" where
  "parse_number s = (let token = takeWhile number_char s in
     if json_number token then (case number_of_text token of Finite r \<Rightarrow> Some (JNum r, dropWhile number_char s) | _ \<Rightarrow> None) else None)"

definition expect :: "string \<Rightarrow> 'a \<Rightarrow> string \<Rightarrow> ('a \<times> string) option" where
  "expect word v s = (if js_starts_with word s then Some (v, drop (length word) s) else None)"

text \<open>One value; the rest of an array after a value or its bracket; the rest of an object.  The tests on lengths always hold:
  a value takes at least a character.\<close>

datatype json_task = Value string | Items string | Members string

definition task_text :: "json_task \<Rightarrow> string" where
  "task_text t = (case t of Value s \<Rightarrow> s | Items s \<Rightarrow> s | Members s \<Rightarrow> s)"

definition task_weight :: "json_task \<Rightarrow> nat" where
  "task_weight t = (case t of Value s \<Rightarrow> 2 * length s | Items s \<Rightarrow> 2 * length s + 1 | Members s \<Rightarrow> 2 * length s + 1)"

lemma length_skip_space: "length (skip_space s) \<le> length s"
  by (simp add: skip_space_def length_dropWhile_le)

function parse_task :: "json_task \<Rightarrow> (json \<times> string) option" where
  "parse_task (Value s) =
     (case skip_space s of
        [] \<Rightarrow> None
      | c # cs \<Rightarrow>
          if c = CHR 0x22 then map_option (\<lambda>(t, r). (JStr t, r)) (parse_string cs)
          else if c = CHR ''['' then
            (case skip_space cs of [] \<Rightarrow> None
             | d # ds \<Rightarrow> if d = CHR '']'' then Some (JArr [], ds) else parse_task (Items cs))
          else if c = CHR ''{'' then
            (case skip_space cs of [] \<Rightarrow> None
             | d # ds \<Rightarrow> if d = CHR ''}'' then Some (JObj [], ds)
                 else map_option (\<lambda>(v, r). (case v of JObj fs \<Rightarrow> JObj (from_entries fs) | _ \<Rightarrow> v, r)) (parse_task (Members cs)))
          else if c = CHR ''n'' then expect ''null'' JNull (c # cs)
          else if c = CHR ''t'' then expect ''true'' (JBool True) (c # cs)
          else if c = CHR ''f'' then expect ''false'' (JBool False) (c # cs)
          else parse_number (c # cs))"
| "parse_task (Items s) =
     (case parse_task (Value s) of
        None \<Rightarrow> None
      | Some (v, r) \<Rightarrow> (case skip_space r of
          [] \<Rightarrow> None
        | d # ds \<Rightarrow>
            if d = CHR '']'' then Some (JArr [v], ds)
            else if d = CHR '','' \<and> length ds < length s then
              map_option (\<lambda>(w, r). (case w of JArr vs \<Rightarrow> JArr (v # vs) | _ \<Rightarrow> w, r)) (parse_task (Items ds))
            else None))"
| "parse_task (Members s) =
     (case skip_space s of
        [] \<Rightarrow> None
      | q # cs \<Rightarrow> if q \<noteq> CHR 0x22 then None
          else (case parse_string cs of
            None \<Rightarrow> None
          | Some (k, r) \<Rightarrow> (case skip_space r of
              [] \<Rightarrow> None
            | d # ds \<Rightarrow>
                if d \<noteq> CHR '':'' \<or> \<not> length ds < length s then None
                else (case parse_task (Value ds) of
                    None \<Rightarrow> None
                  | Some (v, r) \<Rightarrow> (case skip_space r of
                      [] \<Rightarrow> None
                    | e # es \<Rightarrow>
                        if e = CHR ''}'' then Some (JObj [(k, v)], es)
                        else if e = CHR '','' \<and> length es < length s then
                          map_option (\<lambda>(w, r). (case w of JObj fs \<Rightarrow> JObj ((k, v) # fs) | _ \<Rightarrow> w, r)) (parse_task (Members es))
                        else None)))))"
  by pat_completeness auto
termination
proof (relation "measure task_weight", goal_cases)
  case 1
  show ?case by simp
next
  case (2 s c cs)
  then have "length cs < length s" using length_skip_space [of s] by simp
  then show ?case by (simp add: task_weight_def)
next
  case (3 s c cs)
  then have "length cs < length s" using length_skip_space [of s] by simp
  then show ?case by (simp add: task_weight_def)
qed (auto simp: task_weight_def)

definition parse_json :: "string \<Rightarrow> json option" where
  "parse_json s = (case parse_task (Value s) of
     Some (v, rest) \<Rightarrow> if skip_space rest = '''' then Some v else None | None \<Rightarrow> None)"

section \<open>Texts of integers\<close>

lemma int_char_nat: "(of_char c :: int) = int (code_of c)"
  by (simp add: of_nat_of_char)

lemma int_of_digits_nat: "list_all js_digit s \<Longrightarrow> int_of_digits s = int (nat_of_digits s)"
proof (induction s rule: rev_induct)
  case (snoc c s)
  then show ?case
    by (simp add: int_of_digits_def nat_of_digits_def digit_value_def int_char_nat js_digit_def of_nat_diff)
qed (simp add: int_of_digits_def nat_of_digits_def)

lemma digits_to_string: "list_all js_digit (nat_to_string n)" "nat_to_string n \<noteq> []"
  using all_digits_to_string [of n] by (simp_all add: all_digits_def)

lemma int_of_digits_to_string [simp]: "int_of_digits (nat_to_string n) = int n"
  using digits_to_string(1) [of n] by (simp add: int_of_digits_nat)

lemma nat_to_string_head: "n \<noteq> 0 \<Longrightarrow> hd (nat_to_string n) \<noteq> CHR ''0''"
proof (induction n rule: nat_to_string.induct)
  case (1 n)
  show ?case
  proof (cases "n < 10")
    case True
    then have "code_of (hd (nat_to_string n)) = n + 48" by (subst nat_to_string.simps) simp
    then show ?thesis using 1(2) by auto
  next
    case False
    then have "hd (nat_to_string n) = hd (nat_to_string (n div 10))"
      using digits_to_string(2) by (subst nat_to_string.simps) simp
    then show ?thesis using 1(1) False by simp
  qed
qed

lemma nat_to_string_zero: "nat_to_string 0 = ''0''"
  by code_simp

lemma canonical_digits: "nat_to_string n = ''0'' \<or> hd (nat_to_string n) \<noteq> CHR ''0''"
  by (cases "n = 0") (simp_all add: nat_to_string_zero nat_to_string_head)

lemma takeWhile_all_digits [simp]: "list_all js_digit s \<Longrightarrow> takeWhile js_digit s = s"
  "list_all js_digit s \<Longrightarrow> dropWhile js_digit s = []"
  by (simp_all add: list_all_iff takeWhile_eq_all_conv dropWhile_eq_Nil_conv)

lemma digit_not: "js_digit c \<Longrightarrow> c \<noteq> CHR ''-'' \<and> c \<noteq> CHR ''+'' \<and> c \<noteq> CHR ''I'' \<and> \<not> js_space c \<and> number_char c \<and> to_lower_char c = c \<and> \<not> json_space c"
  by (auto simp: js_digit_def js_space_def number_char_def to_lower_char_def json_space_def)

lemma digits_head: "all_digits s \<Longrightarrow> \<exists>c cs. s = c # cs \<and> js_digit c \<and> list_all js_digit cs"
  by (cases s) (auto simp: all_digits_def)

lemma json_number_integer: "json_number (integer_text n)"
proof -
  have "json_number (nat_to_string m)" "json_number (CHR ''-'' # nat_to_string m)" for m
    using digits_head [OF all_digits_to_string [of m]] canonical_digits [of m] digit_not digits_to_string [of m]
    by (auto simp: json_number_def json_fraction_def Let_def simp del: all_digits_to_string)
  then show ?thesis by (simp add: integer_text_def)
qed

lemma integer_text_chars: "list_all number_char (integer_text n)"
  using digits_to_string(1) digit_not by (auto simp: integer_text_def list_all_iff number_char_def)

lemma digits_trimmed: "list_all js_digit s \<Longrightarrow> s \<noteq> [] \<Longrightarrow> trimmed (CHR ''-'' # s) \<and> trimmed s"
  using digit_not [of "hd s"] digit_not [of "last s"] hd_in_set [of s] last_in_set [of s]
  by (auto simp: trimmed_def list_all_iff js_space_def)

lemma no_prefix_digits: "all_digits s \<Longrightarrow> prefixed_base s = None" "prefixed_base (CHR ''-'' # s) = None"
  by (auto simp: prefixed_base_def all_digits_def js_digit_def to_lower_char_def split: list.splits)

lemma unsigned_digits: "list_all js_digit s \<Longrightarrow> s \<noteq> [] \<Longrightarrow> unsigned_decimal s = Some (of_int (int_of_digits s))"
  by (simp add: unsigned_decimal_def)

theorem number_of_integer_text:
  assumes "\<bar>n\<bar> \<le> 9007199254740991" shows "number_of_text (integer_text n) = Finite (of_int n)"
proof (cases "n < 0")
  case True
  let ?s = "nat_to_string (nat (- n))"
  have "js_trim (CHR ''-'' # ?s) = CHR ''-'' # ?s" using digits_trimmed [OF digits_to_string] by (blast intro: js_trim_id)
  moreover have "?s \<noteq> ''Infinity''" using digits_to_string(1) [of "nat (- n)"] by (auto simp: js_digit_def)
  ultimately show ?thesis
    using True assms to_double_int [OF assms] digits_to_string [of "nat (- n)"]
    by (simp add: integer_text_def number_of_text_def Let_def no_prefix_digits split_sign_def unsigned_digits)
next
  case False
  let ?s = "nat_to_string (nat n)"
  have "js_trim ?s = ?s" using digits_trimmed [OF digits_to_string] by (blast intro: js_trim_id)
  moreover have "?s \<noteq> ''Infinity''" using digits_to_string(1) [of "nat n"] by (auto simp: js_digit_def)
  moreover have "split_sign ?s = (False, ?s)"
    using digits_head [OF all_digits_to_string [of "nat n"]] digit_not by (auto simp: split_sign_def)
  ultimately show ?thesis
    using False assms to_double_int [OF assms] digits_to_string [of "nat n"]
    by (simp add: integer_text_def number_of_text_def Let_def no_prefix_digits unsigned_digits)
qed

section \<open>Reading back what was written\<close>

lemma hex_value_digit: "d < 16 \<Longrightarrow> hex_value (hex_digit d) = Some (int d)"
  by (auto simp: hex_digit_def hex_value_def Let_def js_digit_def int_char_nat)

lemma parse_quoted_char: "parse_string (quoted_char c @ t) = map_option (\<lambda>(s, r). (c # s, r)) (parse_string t)"
proof -
  have hex: "parse_string (CHR 0x5C # CHR ''u'' # CHR ''0'' # CHR ''0'' # hex_digit (code_of c div 16) # hex_digit (code_of c mod 16) # t)
      = map_option (\<lambda>(s, r). (c # s, r)) (parse_string t)" if small: "code_of c < (32 :: nat)"
  proof -
    have zero: "hex_value (CHR ''0'') = Some 0" by code_simp
    have "16 * int (code_of c div 16) + int (code_of c mod 16) = int (code_of c)" by presburger
    then have "nat (16 * int (code_of c div 16) + int (code_of c mod 16)) = code_of c" by simp
    then show ?thesis
      using small by (simp add: hex_value_digit zero)
  qed
  show ?thesis
    using hex by (auto simp: quoted_char_def escaped_char_def)
qed

lemma parse_quoted: "parse_string (concat (map quoted_char s) @ CHR 0x22 # t) = Some (s, t)"
  by (induction s) (simp_all add: parse_quoted_char)

text \<open>Values that are read back as written: objects as the program enumerates them, and numbers whose text reads back.\<close>

definition readable_number :: "(rat \<Rightarrow> string) \<Rightarrow> rat \<Rightarrow> bool" where
  "readable_number dt r \<longleftrightarrow> is_integer r \<and> \<bar>r\<bar> \<le> 9007199254740991
     \<or> json_number (dt r) \<and> list_all number_char (dt r) \<and> number_of_text (dt r) = Finite r"

fun plain_json :: "(rat \<Rightarrow> string) \<Rightarrow> json \<Rightarrow> bool" where
  "plain_json dt (JNum r) \<longleftrightarrow> readable_number dt r"
| "plain_json dt (JArr xs) \<longleftrightarrow> list_all (plain_json dt) xs"
| "plain_json dt (JObj fs) \<longleftrightarrow> from_entries fs = fs \<and> list_all (\<lambda>(k, v). plain_json dt v) fs"
| "plain_json dt v \<longleftrightarrow> True"

definition separated :: "string \<Rightarrow> bool" where
  "separated s \<longleftrightarrow> s = [] \<or> \<not> number_char (hd s)"

lemma number_text_reads:
  assumes "readable_number dt r"
  shows "json_number (number_text dt r)" "list_all number_char (number_text dt r)" "number_of_text (number_text dt r) = Finite r"
proof -
  have exact: "number_of_text (integer_text \<lfloor>r\<rfloor>) = Finite r" if "is_integer r" "\<bar>r\<bar> \<le> 9007199254740991"
  proof -
    have r: "of_int \<lfloor>r\<rfloor> = r" using that(1) by (simp add: is_integer_def)
    have "\<bar>of_int \<lfloor>r\<rfloor> :: rat\<bar> \<le> of_int 9007199254740991" using that(2) unfolding r by simp
    then have "\<bar>\<lfloor>r\<rfloor>\<bar> \<le> 9007199254740991" by (simp only: of_int_abs [symmetric] of_int_le_iff)
    then show ?thesis using number_of_integer_text r by simp
  qed
  show "json_number (number_text dt r)" "list_all number_char (number_text dt r)" "number_of_text (number_text dt r) = Finite r"
    using assms exact by (auto simp: number_text_def readable_number_def json_number_integer integer_text_chars)
qed

lemma takeWhile_separated:
  assumes "list_all P s" "t = [] \<or> \<not> P (hd t)" shows "takeWhile P (s @ t) = s" "dropWhile P (s @ t) = t"
  using assms by (induction s) (cases t; simp)+

lemma parse_number_text:
  assumes "readable_number dt r" "separated t" shows "parse_number (number_text dt r @ t) = Some (JNum r, t)"
  using assms number_text_reads [OF assms(1)]
  by (simp add: parse_number_def separated_def takeWhile_separated Let_def)

lemma json_number_head: "json_number s \<Longrightarrow> \<exists>c cs. s = c # cs \<and> (js_digit c \<or> c = CHR ''-'')"
  by (cases s) (auto simp: json_number_def Let_def split: if_splits)

lemma number_head:
  assumes "readable_number dt r"
  shows "\<exists>c cs. number_text dt r = c # cs \<and> \<not> json_space c \<and> c \<notin> {CHR 0x22, CHR ''['', CHR ''{'', CHR ''n'', CHR ''t'', CHR ''f'', CHR '']''}"
proof -
  obtain c cs where c: "number_text dt r = c # cs" "js_digit c \<or> c = CHR ''-''"
    using json_number_head [OF number_text_reads(1) [OF assms]] by blast
  then have "\<not> json_space c \<and> c \<notin> {CHR 0x22, CHR ''['', CHR ''{'', CHR ''n'', CHR ''t'', CHR ''f'', CHR '']''}"
    by (auto simp: json_space_def js_digit_def)
  then show ?thesis using c(1) by blast
qed

lemma skip_space_Cons: "\<not> json_space c \<Longrightarrow> skip_space (c # s) = c # s"
  by (simp add: skip_space_def)

lemma punctuation [simp]:
  "\<not> json_space (CHR 0x22)" "\<not> json_space (CHR ''['')" "\<not> json_space (CHR '']'')" "\<not> json_space (CHR ''{'')" "\<not> json_space (CHR ''}'')"
  "\<not> json_space (CHR '','')" "\<not> json_space (CHR '':'')" "\<not> json_space (CHR ''n'')" "\<not> json_space (CHR ''t'')" "\<not> json_space (CHR ''f'')"
  "\<not> number_char (CHR '']'')" "\<not> number_char (CHR ''}'')" "\<not> number_char (CHR '','')"
  by (simp_all add: json_space_def number_char_def js_digit_def)

text \<open>The first character of the text of a value.\<close>

lemma value_head:
  assumes "plain_json dt v"
  shows "\<exists>c cs. stringify_json dt v = c # cs \<and> \<not> json_space c \<and> c \<noteq> CHR '']''"
proof (cases v)
  case (JNum r)
  then show ?thesis using assms number_head [of dt r] by auto
qed (auto simp: quote_json_def)

lemma parse_number_value:
  assumes "readable_number dt r" "separated t" shows "parse_task (Value (number_text dt r @ t)) = Some (JNum r, t)"
proof -
  obtain c cs where c: "number_text dt r = c # cs" "\<not> json_space c"
    "c \<notin> {CHR 0x22, CHR ''['', CHR ''{'', CHR ''n'', CHR ''t'', CHR ''f'', CHR '']''}"
    using number_head [OF assms(1)] by blast
  then have "parse_task (Value (number_text dt r @ t)) = parse_number (number_text dt r @ t)"
    by (simp add: skip_space_Cons)
  then show ?thesis using parse_number_text [OF assms] by simp
qed

lemma parse_string_value: "parse_task (Value (quote_json s @ t)) = Some (JStr s, t)"
  using parse_quoted [of s t] by (simp add: quote_json_def skip_space_Cons)

declare parse_task.simps [simp del]

lemma separated_punct [simp]: "separated (CHR '']'' # t)" "separated (CHR ''}'' # t)" "separated (CHR '','' # t)"
  by (simp_all add: separated_def)

lemma parse_items:
  assumes "xs \<noteq> []"
    and "\<And>x t. x \<in> set xs \<Longrightarrow> separated t \<Longrightarrow> parse_task (Value (stringify_json dt x @ t)) = Some (x, t)"
  shows "parse_task (Items (join_with '','' (map (stringify_json dt) xs) @ CHR '']'' # t)) = Some (JArr xs, t)"
  using assms
proof (induction xs)
  case (Cons x xs)
  show ?case
  proof (cases xs)
    case Nil
    then show ?thesis using Cons.prems(2) [of x] by (simp add: parse_task.simps(2) skip_space_Cons)
  next
    case (Cons y ys)
    have "parse_task (Items (join_with '','' (map (stringify_json dt) xs) @ CHR '']'' # t)) = Some (JArr xs, t)"
      by (rule Cons.IH) (use Cons.prems Cons in auto)
    then show ?thesis
      using Cons.prems(2) [of x] Cons by (simp add: parse_task.simps(2) skip_space_Cons)
  qed
qed simp

abbreviation member_text :: "(rat \<Rightarrow> string) \<Rightarrow> string \<times> json \<Rightarrow> string" where
  "member_text dt \<equiv> \<lambda>(k, v). quote_json k @ '':'' @ stringify_json dt v"

lemma parse_member:
  assumes "parse_task (Value (stringify_json dt v @ e # t)) = Some (v, e # t)" "\<not> json_space e"
  shows "parse_task (Members (member_text dt (k, v) @ e # t)) =
    (if e = CHR ''}'' then Some (JObj [(k, v)], t)
     else if e = CHR '','' then map_option (\<lambda>(w, r). (case w of JObj fs \<Rightarrow> JObj ((k, v) # fs) | _ \<Rightarrow> w, r)) (parse_task (Members t)) else None)"
  using assms by (simp add: parse_task.simps(3) quote_json_def skip_space_Cons parse_quoted)

lemma parse_members:
  assumes "fs \<noteq> []"
    and "\<And>k v t. (k, v) \<in> set fs \<Longrightarrow> separated t \<Longrightarrow> parse_task (Value (stringify_json dt v @ t)) = Some (v, t)"
  shows "parse_task (Members (join_with '','' (map (member_text dt) fs) @ CHR ''}'' # t)) = Some (JObj fs, t)"
  using assms
proof (induction fs)
  case (Cons f fs)
  obtain k v where f: "f = (k, v)" by fastforce
  have reads: "parse_task (Value (stringify_json dt v @ u)) = Some (v, u)" if "separated u" for u
    using Cons.prems(2) that f by auto
  show ?case
  proof (cases fs)
    case Nil
    then show ?thesis using parse_member [OF reads, of "CHR ''}''" t] f by simp
  next
    case (Cons g gs)
    have "parse_task (Members (join_with '','' (map (member_text dt) fs) @ CHR ''}'' # t)) = Some (JObj fs, t)"
      by (rule Cons.IH) (use Cons.prems Cons in auto)
    then show ?thesis
      using parse_member [OF reads, of "CHR '',''" "join_with '','' (map (member_text dt) fs) @ CHR ''}'' # t"] f Cons by simp
  qed
qed simp

lemma members_head: "fs \<noteq> [] \<Longrightarrow> \<exists>cs. join_with '','' (map (member_text dt) fs) = CHR 0x22 # cs"
  by (cases fs rule: remdups_adj.cases) (auto simp: quote_json_def)

lemma items_head:
  assumes "xs \<noteq> []" "list_all (plain_json dt) xs"
  shows "\<exists>c cs. join_with '','' (map (stringify_json dt) xs) = c # cs \<and> \<not> json_space c \<and> c \<noteq> CHR '']''"
proof (cases xs)
  case (Cons y ys)
  then show ?thesis using value_head [of dt y] assms by (cases ys) auto
qed (use assms in simp)

theorem parse_value_text:
  "plain_json dt v \<Longrightarrow> separated t \<Longrightarrow> parse_task (Value (stringify_json dt v @ t)) = Some (v, t)"
proof (induction v arbitrary: t)
  case JNull
  then show ?case by (simp add: parse_task.simps(1) skip_space_Cons expect_def js_starts_with_def)
next
  case (JBool b)
  then show ?case by (simp add: parse_task.simps(1) skip_space_Cons expect_def js_starts_with_def)
next
  case (JNum r)
  then show ?case by (simp add: parse_number_value)
next
  case (JStr s)
  then show ?case by (simp add: parse_string_value)
next
  case (JArr xs)
  show ?case
  proof (cases "xs = []")
    case False
    obtain c cs where c: "join_with '','' (map (stringify_json dt) xs) = c # cs" "\<not> json_space c" "c \<noteq> CHR '']''"
      using items_head [OF False, of dt] JArr.prems(1) by (metis plain_json.simps(2))
    have "parse_task (Items (join_with '','' (map (stringify_json dt) xs) @ CHR '']'' # t)) = Some (JArr xs, t)"
      by (rule parse_items [OF False]) (use JArr in \<open>auto simp: list_all_iff\<close>)
    then show ?thesis using c by (simp add: parse_task.simps(1) skip_space_Cons)
  qed (simp add: parse_task.simps(1) skip_space_Cons)
next
  case (JObj fs)
  show ?case
  proof (cases "fs = []")
    case False
    obtain cs where c: "join_with '','' (map (member_text dt) fs) = CHR 0x22 # cs" using members_head [OF False] by blast
    have "parse_task (Members (join_with '','' (map (member_text dt) fs) @ CHR ''}'' # t)) = Some (JObj fs, t)"
      by (rule parse_members [OF False]) (use JObj in \<open>fastforce simp: list_all_iff\<close>)
    then show ?thesis using c JObj.prems by (simp add: parse_task.simps(1) skip_space_Cons)
  qed (simp add: parse_task.simps(1) skip_space_Cons)
qed

theorem parse_stringify:
  assumes "plain_json dt v" shows "parse_json (stringify_json dt v) = Some v"
  using parse_value_text [OF assms, of "[]"] by (simp add: parse_json_def separated_def skip_space_def)

interpretation json_texts: codec "stringify_json dt" parse_json "plain_json dt" for dt
  by unfold_locales (rule parse_stringify)

end
