(* ===== verification/Input_Contract.thy ===== *)
theory Input_Contract
  imports Json_Text Schema_Meaning "HOL-Library.List_Lexorder" "HOL-Library.Char_ord" "HOL-Library.Multiset"
begin

text \<open>
  The input contract of a task, \<^verbatim>\<open>src/execution/input-contract.ts\<close>: declarations, defaults, validation, and the values the flags
  of a command line stand for; and \<^verbatim>\<open>src/tasks/run/load-task.ts\<close>, which puts the three together for a run.
\<close>

section \<open>Declarations\<close>

text \<open>\<open>INPUT_NAME_PATTERN\<close>.\<close>

definition input_name :: "string \<Rightarrow> bool" where
  "input_name s \<longleftrightarrow> (case s of [] \<Rightarrow> False
     | c # cs \<Rightarrow> (js_letter c \<or> c = CHR ''_'') \<and> list_all (\<lambda>c. js_letter c \<or> js_digit c \<or> c = CHR ''_'') cs)"

record input_declaration =
  declared_schema :: json_object
  declared_default :: "json option"
  is_required :: bool

type_synonym input_contract = "(string \<times> input_declaration) list"

text \<open>\<open>object[key] = value\<close> on an ordinary object: the key \<open>__proto__\<close> sets the prototype and leaves the entries alone.\<close>

definition assign_property :: "string \<Rightarrow> 'v \<Rightarrow> (string \<times> 'v) list \<Rightarrow> (string \<times> 'v) list" where
  "assign_property key v obj = (if key = ''__proto__'' then obj else enumerated (put_entry key v obj))"

definition apply_default :: "string \<times> input_declaration \<Rightarrow> json_object \<Rightarrow> json_object" where
  "apply_default = (\<lambda>(name, d) result. if has_own result name then result
     else case declared_default d of Some v \<Rightarrow> assign_property name v result | None \<Rightarrow> result)"

definition apply_input_defaults :: "input_contract \<Rightarrow> json_object \<Rightarrow> json_object" where
  "apply_input_defaults contract values' = fold apply_default contract values'"

section \<open>Validation\<close>

datatype input_problem = Violates complaint | Missing_Input string

text \<open>\<open>error.replace(/^\$/, pathRoot)\<close>: every message starts with its path.\<close>

definition re_root :: "string \<Rightarrow> complaint \<Rightarrow> complaint" where
  "re_root path_root c = (case c of Complaint path p \<Rightarrow>
     (case path of d # rest \<Rightarrow> if d = CHR ''$'' then Complaint (path_root @ rest) p else c | [] \<Rightarrow> c))"

definition contract_schema :: "input_contract \<Rightarrow> json_object" where
  "contract_schema contract = [(''type'', JStr ''object''),
     (''properties'', JObj (fold (\<lambda>(name, d). assign_property name (JObj (declared_schema d))) contract []))]"

definition validate_inputs :: "string \<Rightarrow> input_contract \<Rightarrow> json_object \<Rightarrow> input_problem list" where
  "validate_inputs path_root contract values' =
     (if contract = [] then []
      else map (\<lambda>e. Violates (re_root path_root e)) (validate_json_schema_subset (JObj values') (contract_schema contract) True))
   @ List.map_filter (\<lambda>(name, d). if is_required d \<and> \<not> has_own values' name
       then Some (Missing_Input (path_root @ ''.'' @ name)) else None) contract"

section \<open>Flags\<close>

datatype raw_value = Text string | Switch bool

datatype value_problem = Not_Json_Array | Requires_Type "string list" | Must_Be "string list"

datatype flag_error =
    Unknown_Flag string "string list"
  | Invalid_Value string value_problem
  | Contract_Violation "input_problem list"
  | Duplicate_Flag string
  | Malformed_Json string

definition schema_types :: "json_object option \<Rightarrow> string list" where
  "schema_types schema = (case schema of None \<Rightarrow> [] | Some s \<Rightarrow> declared_types s)"

definition parse_json_flag :: "string \<Rightarrow> string \<Rightarrow> (flag_error, json) result" where
  "parse_json_flag name raw = (case parse_json raw of Some v \<Rightarrow> Inr v | None \<Rightarrow> Inl (Malformed_Json name))"

definition numeric_value :: "(js_number \<Rightarrow> rat option) \<Rightarrow> string \<Rightarrow> json option" where
  "numeric_value test raw = (if js_trim raw = '''' then None else map_option JNum (test (number_of_text raw)))"

text \<open>What one declared type makes of a text: a value, nothing, or an error.\<close>

definition coerce_to_type :: "string \<Rightarrow> string \<Rightarrow> string \<Rightarrow> (flag_error, json option) result" where
  "coerce_to_type name raw type =
     (if type = ''boolean'' then Inr (if raw = ''true'' then Some (JBool True) else if raw = ''false'' then Some (JBool False) else None)
      else if type = ''number'' then Inr (numeric_value finite_value raw)
      else if type = ''integer'' then Inr (numeric_value safe_integer raw)
      else if type = ''null'' then Inr (if raw = ''null'' then Some JNull else None)
      else if type = ''object'' then map_result (\<lambda>v. if is_record v then Some v else None) (parse_json_flag name raw)
      else if type = ''array'' then map_result (\<lambda>v. case v of JArr xs \<Rightarrow> Some v | _ \<Rightarrow> None) (parse_json_flag name raw)
      else Inr None)"

fun coerce_to_types :: "string \<Rightarrow> string \<Rightarrow> string list \<Rightarrow> (flag_error, json option) result" where
  "coerce_to_types name raw [] = Inr None"
| "coerce_to_types name raw (type # types) =
     bind_result (coerce_to_type name raw type) (\<lambda>found. case found of Some v \<Rightarrow> Inr (Some v) | None \<Rightarrow> coerce_to_types name raw types)"

definition coerce_flag_value :: "string \<Rightarrow> raw_value \<Rightarrow> json_object option \<Rightarrow> (flag_error, json) result" where
  "coerce_flag_value name raw schema =
     (let types = schema_types schema in
      case raw of
        Switch b \<Rightarrow>
          if types = [] then Inr (JBool b)
          else if ''boolean'' \<in> set types then Inr (JBool b)
          else if ''string'' \<in> set types then Inr (JStr (if b then ''true'' else ''false''))
          else Inl (Invalid_Value name (Requires_Type types))
      | Text s \<Rightarrow>
          if types = [] then Inr (JStr s)
          else if ''string'' \<in> set types then Inr (JStr s)
          else bind_result (coerce_to_types name s types) (\<lambda>found. case found of
            Some v \<Rightarrow> Inr v | None \<Rightarrow> Inl (Invalid_Value name (Must_Be types))))"

text \<open>The values of one flag, in the order given; there is at least one.\<close>

definition materialize_flag_values :: "string \<Rightarrow> raw_value list \<Rightarrow> json_object \<Rightarrow> (flag_error, json) result" where
  "materialize_flag_values name values' schema =
     (let types = declared_types schema in
      if ''array'' \<in> set types then
        (case values' of
           [Text s] \<Rightarrow>
             if js_starts_with ''['' (js_trim s) then
               bind_result (parse_json_flag name s) (\<lambda>parsed. case parsed of
                 JArr xs \<Rightarrow> Inr parsed | _ \<Rightarrow> Inl (Invalid_Value name Not_Json_Array))
             else if length types = 1 then map_result JArr (mapM_result (\<lambda>v. coerce_flag_value name v (object_field schema ''items'')) values')
             else coerce_flag_value name (Text s) (Some schema)
         | _ \<Rightarrow>
             if length types = 1 \<or> length values' > 1
             then map_result JArr (mapM_result (\<lambda>v. coerce_flag_value name v (object_field schema ''items'')) values')
             else coerce_flag_value name (hd values') (Some schema))
      else if length values' > 1 then Inl (Duplicate_Flag name)
      else coerce_flag_value name (hd values') (Some schema))"

type_synonym input_flag = "string \<times> raw_value"

fun group_flags :: "input_contract \<Rightarrow> input_flag list \<Rightarrow> (string \<times> raw_value list) list
    \<Rightarrow> (flag_error, (string \<times> raw_value list) list) result" where
  "group_flags contract [] grouped = Inr grouped"
| "group_flags contract ((name, v) # flags) grouped =
     (if \<not> input_name name \<or> name \<notin> fst ` set contract then Inl (Unknown_Flag name (sorted_list_of_set (fst ` set contract)))
      else group_flags contract flags
        (put_entry name ((case map_of grouped name of Some vs \<Rightarrow> vs | None \<Rightarrow> []) @ [v]) grouped))"

definition materialize_input_flags :: "input_contract \<Rightarrow> input_flag list \<Rightarrow> (flag_error, json_object) result" where
  "materialize_input_flags contract flags =
     (if flags = [] then Inr []
      else bind_result (group_flags contract flags []) (\<lambda>grouped.
        bind_result (mapM_result (\<lambda>(name, raws). map_result (Pair name)
            (materialize_flag_values name raws (case map_of contract name of Some d \<Rightarrow> declared_schema d | None \<Rightarrow> []))) grouped) (\<lambda>entries.
          let values' = from_entries entries; errors = validate_inputs ''$'' contract values'
          in if errors = [] then Inr values' else Inl (Contract_Violation errors))))"

text \<open>The inputs of a run: the flags, the defaults, and the check that nothing required is missing.\<close>

definition deliver_inputs :: "input_contract \<Rightarrow> input_flag list \<Rightarrow> (flag_error, json_object) result" where
  "deliver_inputs contract flags = bind_result (materialize_input_flags contract flags) (\<lambda>materialized.
     let defaulted = apply_input_defaults contract materialized; errors = validate_inputs ''$'' contract defaulted
     in if errors = [] then Inr defaulted else Inl (Contract_Violation errors))"

section \<open>Canonical JSON\<close>

lemma entry_size: "(k, v) \<in> set fs \<Longrightarrow> size v < Suc (size_list (size_prod (\<lambda>x. 0) size) fs)"
  by (induction fs) auto

lemma item_size: "x \<in> set xs \<Longrightarrow> size x < Suc (size_list size xs)"
  by (induction xs) auto

function sort_input_json_keys :: "json \<Rightarrow> json" where
  "sort_input_json_keys (JArr xs) = JArr (map sort_input_json_keys xs)"
| "sort_input_json_keys (JObj fs) =
     JObj (from_entries (map (\<lambda>(k, v). (k, sort_input_json_keys v)) (sort_key fst fs)))"
| "sort_input_json_keys JNull = JNull"
| "sort_input_json_keys (JBool b) = JBool b"
| "sort_input_json_keys (JNum r) = JNum r"
| "sort_input_json_keys (JStr s) = JStr s"
  by pat_completeness auto
termination
  by (relation "measure size") (auto simp: entry_size item_size)

definition canonical_input_json :: "(rat \<Rightarrow> string) \<Rightarrow> json \<Rightarrow> string" where
  "canonical_input_json dt v = stringify_json dt (sort_input_json_keys v)"


section \<open>Entries of objects\<close>

abbreviation keys :: "(string \<times> 'v) list \<Rightarrow> string list" where
  "keys es \<equiv> map fst es"

lemma map_of_put_entry [simp]: "map_of (put_entry k v es) = (map_of es)(k \<mapsto> v)"
  by (induction es) (auto simp: fun_eq_iff)

lemma keys_put_entry: "keys (put_entry k v es) = (if k \<in> set (keys es) then keys es else keys es @ [k])"
proof (induction es)
  case (Cons e es)
  show ?case by (cases e) (use Cons in auto)
qed simp

lemma set_keys_put_entry [simp]: "fst ` set (put_entry k v es) = insert k (fst ` set es)"
  using keys_put_entry [of k v es] by (metis (no_types, lifting) insert_absorb list.set_map list.simps(15) rotate1.simps(2) set_rotate1)

lemma put_entry_new: "k \<notin> set (keys es) \<Longrightarrow> put_entry k v es = es @ [(k, v)]"
  by (induction es) auto

lemma distinct_put_entry [simp]: "distinct (keys es) \<Longrightarrow> distinct (keys (put_entry k v es))"
  by (simp add: keys_put_entry)

lemma mset_enumerated [simp]: "mset (enumerated es) = mset es"
proof -
  let ?P = "\<lambda>(k, v). index_key k \<noteq> None" and ?Q = "\<lambda>(k, v). index_key k = None"
  have "?Q = (\<lambda>x. \<not> ?P x)" by auto
  then have "filter_mset ?Q (mset es) = {#x \<in># mset es. \<not> ?P x#}" by (rule arg_cong)
  then have "mset (enumerated es) = filter_mset ?P (mset es) + {#x \<in># mset es. \<not> ?P x#}"
    unfolding enumerated_def mset_append mset_sort mset_filter by (rule arg_cong)
  then show ?thesis unfolding multiset_partition [symmetric] .
qed

lemma set_enumerated [simp]: "set (enumerated es) = set es"
  using mset_enumerated by (metis set_mset_mset)

lemma distinct_enumerated [simp]: "distinct (keys (enumerated es)) \<longleftrightarrow> distinct (keys es)"
  by (metis mset_enumerated mset_map mset_eq_imp_distinct_iff)

lemma map_of_enumerated [simp]: "distinct (keys es) \<Longrightarrow> map_of (enumerated es) = map_of es"
  by (rule map_of_inject_set [THEN iffD2]) (simp_all add: distinct_enumerated)

lemma enumerated_idem [simp]: "enumerated (enumerated es) = enumerated es"
proof -
  let ?P = "\<lambda>(k, v). index_key k \<noteq> None" and ?Q = "\<lambda>(k, v). index_key k = None"
  have "filter ?P (enumerated es) = sort_key (\<lambda>(k, v). index_rank k) (filter ?P es)"
  proof -
    have "filter ?P (filter ?Q es) = []" "filter ?P (filter ?P es) = filter ?P es" by (auto simp: filter_empty_conv)
    then show ?thesis unfolding enumerated_def by (simp only: filter_append filter_sort append_Nil2)
  qed
  moreover have "filter ?Q (enumerated es) = filter ?Q es"
  proof -
    have "filter ?Q (filter ?P es) = []" "filter ?Q (filter ?Q es) = filter ?Q es" by (auto simp: filter_empty_conv)
    then show ?thesis unfolding enumerated_def by (simp only: filter_append filter_sort sort_key_simps append_Nil)
  qed
  ultimately show ?thesis by (simp only: enumerated_def [of "enumerated es"] sort_key_id_if_sorted [OF sorted_sort_key]) (simp only: enumerated_def)
qed

lemma fold_entries: "distinct (keys (acc @ es)) \<Longrightarrow> foldl (\<lambda>acc (k, v). put_entry k v acc) acc es = acc @ es"
proof (induction es arbitrary: acc)
  case (Cons e es)
  obtain k v where e: "e = (k, v)" by fastforce
  then have "put_entry k v acc = acc @ [e]" using Cons.prems by (simp add: put_entry_new)
  then show ?case using Cons.IH [of "acc @ [e]"] Cons.prems e by simp
qed simp

lemma from_entries_distinct: "distinct (keys es) \<Longrightarrow> from_entries es = enumerated es"
  using fold_entries [of "[]" es] by (simp add: from_entries_def)

lemma distinct_fold_entries: "distinct (keys acc) \<Longrightarrow> distinct (keys (foldl (\<lambda>acc (k, v). put_entry k v acc) acc es))"
  by (induction es arbitrary: acc) auto

lemma distinct_from_entries [simp]: "distinct (keys (from_entries es))"
  unfolding from_entries_def by (simp add: distinct_fold_entries)

lemma from_entries_idem [simp]: "from_entries (from_entries es) = from_entries es"
proof -
  have "from_entries (from_entries es) = enumerated (from_entries es)" by (simp add: from_entries_distinct)
  also have "\<dots> = from_entries es" by (simp add: from_entries_def)
  finally show ?thesis .
qed

lemma distinct_assign_property [simp]: "distinct (keys es) \<Longrightarrow> distinct (keys (assign_property k v es))"
  by (simp add: assign_property_def)

lemma map_of_assign_property:
  "distinct (keys es) \<Longrightarrow> k \<noteq> ''__proto__'' \<Longrightarrow> map_of (assign_property k v es) = (map_of es)(k \<mapsto> v)"
  by (simp add: assign_property_def)

section \<open>Sorting keys changes no meaning\<close>

text \<open>The keys of every object in a value are distinct, as they are in the program.\<close>

fun keyed :: "json \<Rightarrow> bool" where
  "keyed (JArr xs) \<longleftrightarrow> list_all keyed xs"
| "keyed (JObj fs) \<longleftrightarrow> distinct (keys fs) \<and> list_all (\<lambda>(k, v). keyed v) fs"
| "keyed v \<longleftrightarrow> True"

fun numbers_readable :: "(rat \<Rightarrow> string) \<Rightarrow> json \<Rightarrow> bool" where
  "numbers_readable dt (JNum r) \<longleftrightarrow> readable_number dt r"
| "numbers_readable dt (JArr xs) \<longleftrightarrow> list_all (numbers_readable dt) xs"
| "numbers_readable dt (JObj fs) \<longleftrightarrow> list_all (\<lambda>(k, v). numbers_readable dt v) fs"
| "numbers_readable dt v \<longleftrightarrow> True"

abbreviation sort_member :: "string \<times> json \<Rightarrow> string \<times> json" where
  "sort_member \<equiv> \<lambda>(k, v). (k, sort_input_json_keys v)"

definition sorted_members :: "json_object \<Rightarrow> json_object" where
  "sorted_members fs = from_entries (map sort_member (sort_key fst fs))"

lemma sort_object [simp]: "sort_input_json_keys (JObj fs) = JObj (sorted_members fs)"
  by (simp add: sorted_members_def)

declare sort_input_json_keys.simps(2) [simp del]

lemma fst_sort_member [simp]: "fst \<circ> sort_member = fst"
  by auto

lemma distinct_sort_key [simp]: "distinct (keys (sort_key f fs)) \<longleftrightarrow> distinct (keys fs)"
  by (metis mset_sort mset_map mset_eq_imp_distinct_iff)

lemma mset_sorted_members: "distinct (keys fs) \<Longrightarrow> mset (sorted_members fs) = mset (map sort_member fs)"
  by (simp add: sorted_members_def from_entries_distinct)

lemma set_sorted_members: "distinct (keys fs) \<Longrightarrow> set (sorted_members fs) = sort_member ` set fs"
  using mset_sorted_members [of fs] by (metis set_mset_mset set_map)

lemma keys_sorted_members: "distinct (keys fs) \<Longrightarrow> set (keys (sorted_members fs)) = set (keys fs)"
  by (force simp: set_sorted_members)

lemma length_sorted_members: "distinct (keys fs) \<Longrightarrow> length (sorted_members fs) = length fs"
  using mset_sorted_members [of fs] by (metis size_mset length_map)

lemma distinct_sorted_members [simp]: "distinct (keys (sorted_members fs))"
  by (simp add: sorted_members_def)

lemma map_of_sort_member: "map_of (map sort_member fs) k = map_option sort_input_json_keys (map_of fs k)"
  by (induction fs) auto

lemma field_sorted_members:
  assumes "distinct (keys fs)" shows "field (sorted_members fs) k = map_option sort_input_json_keys (field fs k)"
proof -
  have "map_of (sorted_members fs) = map_of (map sort_member fs)"
    using assms by (intro map_of_inject_set [THEN iffD2]) (auto simp: set_sorted_members)
  then show ?thesis by (simp add: field_def map_of_sort_member)
qed

lemma has_own_sorted_members: "distinct (keys fs) \<Longrightarrow> has_own (sorted_members fs) k \<longleftrightarrow> has_own fs k"
  by (simp add: has_own_def field_sorted_members)

lemma type_of_sorted [simp]: "type_of (sort_input_json_keys v) = type_of v"
  by (cases v) simp_all

lemma strict_equal_sorted: "strict_equal c (sort_input_json_keys v) \<longleftrightarrow> strict_equal c v"
  by (cases v; cases c) simp_all

text \<open>What was written in canonical form is read back.\<close>

theorem plain_sorted: "keyed v \<Longrightarrow> numbers_readable dt v \<Longrightarrow> plain_json dt (sort_input_json_keys v)"
proof (induction v)
  case (JObj fs)
  have "plain_json dt (sort_input_json_keys v)" if "(k, v) \<in> set fs" for k v
    using JObj that by (fastforce simp: list_all_iff)
  then have "list_all (\<lambda>(k, v). plain_json dt v) (sorted_members fs)"
    using JObj.prems by (fastforce simp: list_all_iff set_sorted_members)
  then show ?case by (simp add: sorted_members_def)
qed (auto simp: list_all_iff)

text \<open>Validation sees the entries of an object, not their order.\<close>

lemma numbered_Nil_map:
  "(\<And>i x. x \<in> set xs \<Longrightarrow> f i (g x) = [] \<longleftrightarrow> h i x = []) \<Longrightarrow>
   concat (map (\<lambda>(i, x). f i x) (enumerate k (map g xs))) = [] \<longleftrightarrow> concat (map (\<lambda>(i, x). h i x) (enumerate k xs)) = []"
  by (induction xs arbitrary: k) auto

lemma required_sorted: "distinct (keys fs) \<Longrightarrow> required_errors path s (sorted_members fs) = required_errors path s fs"
proof -
  assume "distinct (keys fs)"
  then have "has_own (sorted_members fs) = has_own fs" by (simp add: fun_eq_iff has_own_sorted_members)
  then show ?thesis unfolding required_errors_def by (rule arg_cong)
qed

lemma unexpected_sorted:
  assumes "distinct (keys fs)"
  shows "unexpected_errors path s (sorted_members fs) = [] \<longleftrightarrow> unexpected_errors path s fs = []"
proof -
  have "(\<forall>x \<in> set (sorted_members fs). P (fst x)) \<longleftrightarrow> (\<forall>x \<in> set fs. P (fst x))" for P
    using keys_sorted_members [OF assms] by (metis (no_types, lifting) imageE imageI list.set_map)
  then show ?thesis
    by (auto simp: unexpected_errors_def case_prod_unfold split: option.splits)
qed

lemma alternatives_same:
  assumes "keyword = ''anyOf'' \<or> keyword = ''oneOf''" "\<And>x. x \<in> set xs \<Longrightarrow> f x = [] \<longleftrightarrow> g x = []"
  shows "alternatives path keyword (map f xs) = [] \<longleftrightarrow> alternatives path keyword (map g xs) = []"
proof -
  have "length (filter (\<lambda>r. r = []) (map f xs)) = length (filter (\<lambda>r. r = []) (map g xs))"
    using assms(2) by (induction xs) auto
  moreover have "(\<exists>r \<in> set (map f xs). r = []) \<longleftrightarrow> (\<exists>r \<in> set (map g xs). r = [])"
    unfolding list.set_map bex_simps using assms(2) by blast
  ultimately show ?thesis
    using assms(1) unfolding alternatives_any alternatives_one by (elim disjE) (simp_all only: alternatives_any alternatives_one map_is_Nil_conv)
qed

lemma concat_same: "(\<And>x. x \<in> set xs \<Longrightarrow> f x = [] \<longleftrightarrow> g x = []) \<Longrightarrow> concat (map f xs) = [] \<longleftrightarrow> concat (map g xs) = []"
  by auto

text \<open>The part of a validation that depends on the kind of value, with the validation of its parts.\<close>

definition kind_errors :: "(json \<Rightarrow> json_object \<Rightarrow> string \<Rightarrow> complaint list) \<Rightarrow> bool \<Rightarrow> json \<Rightarrow> json_object \<Rightarrow> string \<Rightarrow> complaint list" where
  "kind_errors check redact v s path = (case v of
      JStr t \<Rightarrow>
        bound_errors path (number_field s ''minLength'') (\<lambda>b. of_nat (length t) < b) Too_Short
      @ bound_errors path (number_field s ''maxLength'') (\<lambda>b. of_nat (length t) > b) Too_Long
    | JNum r \<Rightarrow>
        bound_errors path (number_field s ''minimum'') (\<lambda>b. r < b) (Below_Minimum (if redact then None else Some r))
      @ bound_errors path (number_field s ''maximum'') (\<lambda>b. r > b) (Above_Maximum (if redact then None else Some r))
    | JArr xs \<Rightarrow>
        bound_errors path (number_field s ''minItems'') (\<lambda>b. of_nat (length xs) < b) Too_Few_Items
      @ bound_errors path (number_field s ''maxItems'') (\<lambda>b. of_nat (length xs) > b) Too_Many_Items
      @ (case object_field s ''items'' of
           Some t \<Rightarrow> concat (map (\<lambda>(i, x). check x t (path @ ''['' @ nat_to_string i @ '']'')) (enumerate 0 xs))
         | None \<Rightarrow> [])
    | JObj obj \<Rightarrow>
        required_errors path s obj
      @ (case object_field s ''properties'' of
           Some ps \<Rightarrow> concat (map (\<lambda>(key, p). case field obj key of
               None \<Rightarrow> []
             | Some x \<Rightarrow> (case p of JObj t \<Rightarrow> check x t (path @ ''.'' @ key) | _ \<Rightarrow> [])) ps)
         | None \<Rightarrow> [])
      @ unexpected_errors path s obj
    | _ \<Rightarrow> [])"

lemma kind_errors_sorted:
  assumes "keyed v" and same: "\<And>x t path. keyed x \<Longrightarrow> check (sort_input_json_keys x) t path = [] \<longleftrightarrow> check x t path = []"
  shows "kind_errors check redact (sort_input_json_keys v) s path = [] \<longleftrightarrow> kind_errors check redact v s path = []"
proof (cases v)
  case (JArr xs)
  have "concat (map (\<lambda>(i, x). check x t (path @ ''['' @ nat_to_string i @ '']'')) (enumerate 0 (map sort_input_json_keys xs))) = []
      \<longleftrightarrow> concat (map (\<lambda>(i, x). check x t (path @ ''['' @ nat_to_string i @ '']'')) (enumerate 0 xs)) = []" for t
    by (rule numbered_Nil_map) (use assms JArr in \<open>auto simp: list_all_iff\<close>)
  then show ?thesis using JArr by (simp add: kind_errors_def del: concat_eq_Nil_conv split: option.split)
next
  case (JObj fs)
  then have fs: "distinct (keys fs)" "\<And>k x. field fs k = Some x \<Longrightarrow> keyed x"
    using assms(1) by (auto simp: field_def list_all_iff dest!: map_of_SomeD)
  have "(case field (sorted_members fs) key of None \<Rightarrow> []
        | Some x \<Rightarrow> (case p of JObj t \<Rightarrow> check x t (path @ ''.'' @ key) | _ \<Rightarrow> [])) = [] \<longleftrightarrow>
      (case field fs key of None \<Rightarrow> []
        | Some x \<Rightarrow> (case p of JObj t \<Rightarrow> check x t (path @ ''.'' @ key) | _ \<Rightarrow> [])) = []" for key p
    using same fs by (simp add: field_sorted_members split: option.split json.split)
  then have "concat (map (\<lambda>(key, p). case field (sorted_members fs) key of None \<Rightarrow> []
        | Some x \<Rightarrow> (case p of JObj t \<Rightarrow> check x t (path @ ''.'' @ key) | _ \<Rightarrow> [])) ps) = [] \<longleftrightarrow>
      concat (map (\<lambda>(key, p). case field fs key of None \<Rightarrow> []
        | Some x \<Rightarrow> (case p of JObj t \<Rightarrow> check x t (path @ ''.'' @ key) | _ \<Rightarrow> [])) ps) = []" for ps
    by (intro concat_same) auto
  then show ?thesis using JObj fs(1)
    by (simp add: kind_errors_def required_sorted unexpected_sorted del: concat_eq_Nil_conv split: option.split)
qed (simp_all add: kind_errors_def)

lemma validate_sorted:
  "keyed v \<Longrightarrow> validate_node n redact (sort_input_json_keys v) s path = [] \<longleftrightarrow> validate_node n redact v s path = []"
proof (induction n arbitrary: v s path)
  case (Suc n)
  let ?v = "sort_input_json_keys v" and ?check = "\<lambda>x t path. validate_node n redact x t path"
  note same = Suc.IH [OF Suc.prems]
  have kind: "kind_errors ?check redact ?v s path = [] \<longleftrightarrow> kind_errors ?check redact v s path = []"
    by (rule kind_errors_sorted [where check = ?check]) (rule Suc.prems, rule Suc.IH)
  have refused: "list_ex (\<lambda>c. strict_equal c ?v) (allowed_values s) \<longleftrightarrow> list_ex (\<lambda>c. strict_equal c v) (allowed_values s)"
    by (simp add: strict_equal_sorted)
  have all: "concat (map (\<lambda>b. ?check ?v b path) bs) = [] \<longleftrightarrow> concat (map (\<lambda>b. ?check v b path) bs) = []" for bs
    by (rule concat_same) (rule same)
  have alt: "alternatives path keyword (map (\<lambda>b. ?check ?v b path) bs) = [] \<longleftrightarrow>
      alternatives path keyword (map (\<lambda>b. ?check v b path) bs) = []" if "keyword = ''anyOf'' \<or> keyword = ''oneOf''" for keyword bs
    by (rule alternatives_same [OF that]) (rule same)
  have neg: "(case object_field s ''not'' of Some t \<Rightarrow> if ?check ?v t path = [] then [Complaint path Matches_Not] else [] | None \<Rightarrow> [])
    = (case object_field s ''not'' of Some t \<Rightarrow> if ?check v t path = [] then [Complaint path Matches_Not] else [] | None \<Rightarrow> [])"
    by (simp add: same split: option.split)
  note any = alt [OF disjI1 [OF refl]] and one = alt [OF disjI2 [OF refl]]
  show ?case
    unfolding validate_node.simps Let_def type_of_sorted refused kind_errors_def [symmetric]
    by (cases "declared_types s \<noteq> [] \<and> \<not> list_ex (matches_type (type_of v)) (declared_types s)";
      cases "allowed_values s \<noteq> [] \<and> \<not> list_ex (\<lambda>c. strict_equal c v) (allowed_values s)")
     (simp_all only: append_is_Nil_conv all any one kind neg if_True if_False not_True_eq_False not_False_eq_True list.distinct simp_thms)
qed simp

section \<open>Canonical texts identify values up to the order of keys\<close>

function same_json :: "json \<Rightarrow> json \<Rightarrow> bool" where
  "same_json v w \<longleftrightarrow> (case (v, w) of
     (JArr xs, JArr ys) \<Rightarrow> list_all2 same_json xs ys
   | (JObj fs, JObj gs) \<Rightarrow> set (keys fs) = set (keys gs) \<and>
       list_all (\<lambda>(k, x). case map_of gs k of Some y \<Rightarrow> same_json x y | None \<Rightarrow> False) fs
   | _ \<Rightarrow> v = w)"
  by pat_completeness auto
termination
  by (relation "measure (\<lambda>(v, w). size v)")
    (auto simp: entry_size item_size)

declare same_json.simps [simp del]

lemma sorted_entries_unique:
  assumes "distinct (keys fs)" "distinct (keys gs)" "mset fs = mset gs"
  shows "sort_key fst fs = sort_key fst gs"
  using assms by (intro map_sorted_distinct_set_unique [where f = fst]) (auto simp: inj_on_def eq_key_imp_eq_value dest: mset_eq_setD)

lemma sort_key_members: "map sort_member (sort_key fst fs) = sort_key fst (map sort_member fs)"
proof (induction fs)
  case (Cons f fs)
  have "map sort_member (insort_key fst f gs) = insort_key fst (sort_member f) (map sort_member gs)" for gs
    by (induction gs) (auto split: prod.split)
  then show ?case using Cons by (simp add: sort_key_def)
qed simp

lemma sorted_members_eq:
  assumes "distinct (keys fs)" "distinct (keys gs)"
  shows "sorted_members fs = sorted_members gs \<longleftrightarrow>
    (\<forall>k. map_option sort_input_json_keys (map_of fs k) = map_option sort_input_json_keys (map_of gs k))"
proof
  assume "sorted_members fs = sorted_members gs"
  then show "\<forall>k. map_option sort_input_json_keys (map_of fs k) = map_option sort_input_json_keys (map_of gs k)"
    using field_sorted_members assms by (metis field_def)
next
  assume same: "\<forall>k. map_option sort_input_json_keys (map_of fs k) = map_option sort_input_json_keys (map_of gs k)"
  let ?fs = "map sort_member fs" and ?gs = "map sort_member gs"
  have "map_of ?fs = map_of ?gs" using same by (simp add: fun_eq_iff map_of_sort_member)
  moreover have d: "distinct (keys ?fs)" "distinct (keys ?gs)" using assms by simp_all
  ultimately have "set ?fs = set ?gs" using map_of_inject_set by blast
  moreover have "distinct ?fs" "distinct ?gs" using d unfolding distinct_map by blast+
  ultimately have "mset ?fs = mset ?gs" using set_eq_iff_mset_eq_distinct by blast
  then have "sort_key fst ?fs = sort_key fst ?gs" using d by (intro sorted_entries_unique)
  then show "sorted_members fs = sorted_members gs" unfolding sorted_members_def sort_key_members by simp
qed

lemma sorted_shapes:
  "sort_input_json_keys w = JArr us \<longleftrightarrow> (\<exists>ys. w = JArr ys \<and> us = map sort_input_json_keys ys)"
  "sort_input_json_keys w = JObj hs \<longleftrightarrow> (\<exists>gs. w = JObj gs \<and> hs = sorted_members gs)"
  "sort_input_json_keys w = JNull \<longleftrightarrow> w = JNull" "sort_input_json_keys w = JBool b \<longleftrightarrow> w = JBool b"
  "sort_input_json_keys w = JNum r \<longleftrightarrow> w = JNum r" "sort_input_json_keys w = JStr s \<longleftrightarrow> w = JStr s"
  by (cases w; auto)+

lemma same_json_scalar [simp]:
  "same_json JNull w \<longleftrightarrow> w = JNull" "same_json (JBool b) w \<longleftrightarrow> w = JBool b" "same_json (JNum r) w \<longleftrightarrow> w = JNum r" "same_json (JStr s) w \<longleftrightarrow> w = JStr s"
  by (subst same_json.simps; auto split: json.split)+

lemma same_json_parts:
  "same_json (JArr xs) (JArr ys) \<longleftrightarrow> list_all2 same_json xs ys"
  "same_json (JObj fs) (JObj gs) \<longleftrightarrow> set (keys fs) = set (keys gs) \<and>
     list_all (\<lambda>(k, x). case map_of gs k of Some y \<Rightarrow> same_json x y | None \<Rightarrow> False) fs"
  by (subst same_json.simps; simp)+

lemma same_json_kind:
  "same_json (JArr xs) w \<Longrightarrow> \<exists>ys. w = JArr ys" "same_json (JObj fs) w \<Longrightarrow> \<exists>gs. w = JObj gs"
  by (subst (asm) same_json.simps; auto split: json.splits)+

lemma sorted_same: "keyed v \<Longrightarrow> keyed w \<Longrightarrow> sort_input_json_keys v = sort_input_json_keys w \<longleftrightarrow> same_json v w"
proof (induction v arbitrary: w)
  case (JArr xs)
  show ?case
  proof (cases w)
    case ys: (JArr ys)
    have "map sort_input_json_keys xs = map sort_input_json_keys ys \<longleftrightarrow> list_all2 (\<lambda>x y. sort_input_json_keys x = sort_input_json_keys y) xs ys"
      by (auto simp: list_eq_iff_nth_eq list_all2_conv_all_nth)
    also have "\<dots> \<longleftrightarrow> list_all2 same_json xs ys"
      using JArr ys by (intro list.rel_cong refl) (auto simp: list_all_iff)
    finally show ?thesis by (simp add: ys same_json_parts)
  qed (auto dest: same_json_kind)
next
  case (JObj fs)
  show ?case
  proof (cases w)
    case gs: (JObj gs)
    have d: "distinct (keys fs)" "distinct (keys gs)" using JObj.prems gs by simp_all
    have ih: "sort_input_json_keys x = sort_input_json_keys y \<longleftrightarrow> same_json x y" if "(k, x) \<in> set fs" "(k, y) \<in> set gs" for k x y
      using JObj that gs by (fastforce simp: list_all_iff)
    have entry: "map_option sort_input_json_keys (map_of fs k) = map_option sort_input_json_keys (map_of gs k) \<longleftrightarrow>
        (k \<in> set (keys fs) \<longleftrightarrow> k \<in> set (keys gs)) \<and>
        (case map_of fs k of Some x \<Rightarrow> (case map_of gs k of Some y \<Rightarrow> same_json x y | None \<Rightarrow> False) | None \<Rightarrow> True)" for k
    proof (cases "map_of fs k")
      case None
      then have "k \<notin> set (keys fs)" by (simp add: map_of_eq_None_iff)
      then show ?thesis using None map_of_eq_None_iff [of gs k] by simp
    next
      case (Some x)
      then have x: "(k, x) \<in> set fs" by (rule map_of_SomeD)
      show ?thesis
      proof (cases "map_of gs k")
        case (Some y)
        then have y: "(k, y) \<in> set gs" by (rule map_of_SomeD)
        show ?thesis using ih [OF x y] \<open>map_of fs k = Some x\<close> Some x y by (auto intro: rev_image_eqI)
      qed (use \<open>map_of fs k = Some x\<close> in simp)
    qed
    have "sorted_members fs = sorted_members gs \<longleftrightarrow> set (keys fs) = set (keys gs) \<and>
        (\<forall>k. case map_of fs k of Some x \<Rightarrow> (case map_of gs k of Some y \<Rightarrow> same_json x y | None \<Rightarrow> False) | None \<Rightarrow> True)"
      unfolding sorted_members_eq [OF d] entry by blast
    also have "\<dots> \<longleftrightarrow> same_json (JObj fs) (JObj gs)"
      using d(1) by (auto simp: same_json_parts list_all_iff split: option.splits)
    finally show ?thesis by (simp add: gs)
  qed (auto dest: same_json_kind)
qed (auto simp: sorted_shapes eq_commute [of _ "sort_input_json_keys w" for w])

interpretation canonical_texts: canonical_codec "stringify_json dt" parse_json "plain_json dt" sort_input_json_keys same_json
    "\<lambda>v. keyed v \<and> numbers_readable dt v" for dt
  by unfold_locales (auto simp: plain_sorted sorted_same)

text \<open>C36: the canonical text of an input value is a fingerprint of its structure: two values have the same canonical text, and so the
  same hash, exactly when they are the same up to the order of the keys of their objects, at every level.\<close>

theorem canonical_text_identifies:
  assumes "keyed v" "keyed w" "numbers_readable dt v" "numbers_readable dt w"
  shows "canonical_input_json dt v = canonical_input_json dt w \<longleftrightarrow> same_json v w"
  using assms by (simp add: canonical_input_json_def canonical_texts.fingerprint)

theorem canonical_text_identifies_witness:
  "canonical_input_json (\<lambda>r. []) (JObj [(''b'', JNum 1), (''a'', JArr [JStr ''x'', JNull])])
     = canonical_input_json (\<lambda>r. []) (JObj [(''a'', JArr [JStr ''x'', JNull]), (''b'', JNum 1)])
   \<and> canonical_input_json (\<lambda>r. []) (JObj [(''b'', JNum 1)]) \<noteq> canonical_input_json (\<lambda>r. []) (JObj [(''b'', JStr ''1'')])"
proof -
  have "readable_number (\<lambda>r. []) 1" by (simp add: readable_number_def is_integer_def)
  then show ?thesis
    by (subst (1 2) canonical_text_identifies) (auto simp: same_json_parts)
qed

section \<open>What validation means\<close>

definition input_meaning :: "input_declaration \<Rightarrow> schema option" where
  "input_meaning d = meaning max_definition_depth (declared_schema d)"

text \<open>A contract as the parser of declarations makes it.\<close>

definition sound_contract :: "input_contract \<Rightarrow> bool" where
  "sound_contract c \<longleftrightarrow> distinct (keys c) \<and> ''__proto__'' \<notin> set (keys c) \<and> (\<forall>(n, d) \<in> set c. input_meaning d \<noteq> None)"

definition satisfies :: "input_contract \<Rightarrow> json_object \<Rightarrow> bool" where
  "satisfies c obj \<longleftrightarrow> (\<forall>(n, d) \<in> set c. case field obj n of
     None \<Rightarrow> \<not> is_required d | Some v \<Rightarrow> \<exists>S. input_meaning d = Some S \<and> accepts S v)"

lemma fold_assign:
  assumes "distinct (keys acc @ keys c)" "''__proto__'' \<notin> set (keys c)"
  shows "set (fold (\<lambda>(name, d). assign_property name (f d)) c acc) = set acc \<union> (\<lambda>(n, d). (n, f d)) ` set c"
  using assms
proof (induction c arbitrary: acc)
  case (Cons e c)
  obtain n d where e: "e = (n, d)" by fastforce
  have new: "set (assign_property n (f d) acc) = set acc \<union> {(n, f d)}"
    using Cons.prems e by (auto simp: assign_property_def put_entry_new)
  have dist: "distinct (keys (assign_property n (f d) acc))" using Cons.prems by simp
  have "set (keys (assign_property n (f d) acc)) = set (keys acc) \<union> {n}" using new by auto
  then have "distinct (keys (assign_property n (f d) acc) @ keys c)" using Cons.prems dist e by auto
  then show ?case using Cons.IH [of "assign_property n (f d) acc"] Cons.prems new by (simp add: e)
qed simp

lemma contract_accepts:
  assumes "sound_contract c"
  shows "validate_json_schema_subset (JObj obj) (contract_schema c) redact = [] \<longleftrightarrow>
    (\<forall>(n, d) \<in> set c. case field obj n of None \<Rightarrow> True | Some v \<Rightarrow> \<exists>S. input_meaning d = Some S \<and> accepts S v)"
proof -
  define ps where "ps = fold (\<lambda>(name, d). assign_property name (JObj (declared_schema d))) c []"
  have ps: "set ps = (\<lambda>(n, d). (n, JObj (declared_schema d))) ` set c"
    using fold_assign [of "[]" c "\<lambda>d. JObj (declared_schema d)"] assms by (simp add: ps_def sound_contract_def)
  let ?read = "\<lambda>(k, x). case x of JObj o' \<Rightarrow> map_option (Pair k) (meaning max_definition_depth o') | _ \<Rightarrow> None"
  have "None \<notin> ?read ` set ps"
  proof
    assume "None \<in> ?read ` set ps"
    then obtain e where e: "e \<in> set c" "None = ?read (case e of (n, d) \<Rightarrow> (n, JObj (declared_schema d)))" unfolding ps image_image by blast
    obtain n d where nd: "e = (n, d)" by fastforce
    have "(n, d) \<in> set c" "None = ?read (n, JObj (declared_schema d))" using e unfolding nd prod.case by blast+
    moreover have "input_meaning d \<noteq> None" using assms calculation(1) unfolding sound_contract_def by blast
    ultimately show False by (simp add: input_meaning_def)
  qed
  then have "those (map ?read ps) \<noteq> None" unfolding those_None list.set_map .
  then obtain props where props: "those (map ?read ps) = Some props" unfolding not_None_eq by blast
  have "set (map ?read ps) = set (map Some props)" using props unfolding those_Some by (rule arg_cong)
  then have set_props: "Some ` set props = ?read ` set ps" unfolding list.set_map by (rule sym)
  define S where "S = Schema [''object''] None [] [] [] None None None None None None None None [] props False"
  have unsup: "list_ex (\<lambda>(k, x). k \<in> set unsupported_keywords) (contract_schema c) = False"
    by (simp add: contract_schema_def unsupported_keywords_def)
  have "meaning (Suc max_definition_depth) (contract_schema c) = Some S"
    unfolding meaning.simps unsup
    by (simp add: S_def contract_schema_def ps_def [symmetric] props read_types_def read_enum_def read_branches_def read_sub_def read_size_def read_number_def
        read_required_def read_properties_def read_closed_def field_def known_type_names_def)
  then have "validate_json_schema_subset (JObj obj) (contract_schema c) redact = [] \<longleftrightarrow> accepts S (JObj obj)"
    unfolding validate_json_schema_subset_def by (rule validate_accepts)
  also have "\<dots> \<longleftrightarrow> (\<forall>(k, s) \<in> set props. case field obj k of None \<Rightarrow> True | Some x \<Rightarrow> accepts s x)"
    by (simp add: S_def accepts.simps matches_type_def)
  also have "\<dots> \<longleftrightarrow> (\<forall>y \<in> Some ` set props. case y of None \<Rightarrow> True | Some (k, s) \<Rightarrow> case field obj k of None \<Rightarrow> True | Some x \<Rightarrow> accepts s x)"
    by simp
  also have "\<dots> \<longleftrightarrow> (\<forall>(n, d) \<in> set c. case field obj n of None \<Rightarrow> True | Some v \<Rightarrow> \<exists>S. input_meaning d = Some S \<and> accepts S v)"
    using assms unfolding set_props ps
    by (fastforce simp: sound_contract_def input_meaning_def split: option.splits)
  finally show ?thesis .
qed

lemma map_filter_Nil: "List.map_filter f xs = [] \<longleftrightarrow> (\<forall>x \<in> set xs. f x = None)"
  by (induction xs) (auto simp: List.map_filter_simps split: option.split)

lemma validate_inputs_ok:
  assumes "sound_contract c" shows "validate_inputs path_root c obj = [] \<longleftrightarrow> satisfies c obj"
proof -
  have missing: "List.map_filter (\<lambda>(name, d). if is_required d \<and> \<not> has_own obj name then Some (Missing_Input (path_root @ ''.'' @ name)) else None) c = []
      \<longleftrightarrow> (\<forall>(n, d) \<in> set c. is_required d \<longrightarrow> has_own obj n)"
    unfolding map_filter_Nil by (rule ball_cong) (auto split: prod.split)
  show ?thesis
    unfolding validate_inputs_def append_is_Nil_conv missing
    by (cases "c = []") (simp add: satisfies_def, simp add: contract_accepts [OF assms] satisfies_def has_own_def, fastforce split: option.splits)
qed

section \<open>What a run is given\<close>

lemma mapM_pairs:
  "mapM_result (\<lambda>(n, x). map_result (Pair n) (f n x)) ps = Inr es \<Longrightarrow> keys es = keys ps"
  by (induction ps arbitrary: es) (auto simp: bind_result_Inr_iff map_result_def split: prod.splits)

lemma group_flags_keys:
  "group_flags c flags grouped = Inr gs \<Longrightarrow> distinct (keys grouped) \<Longrightarrow> set (keys grouped) \<subseteq> set (keys c) \<Longrightarrow>
   distinct (keys gs) \<and> set (keys gs) \<subseteq> set (keys c)"
proof (induction c flags grouped rule: group_flags.induct)
  case (2 c name v flags grouped)
  then show ?case by (auto simp: keys_put_entry split: if_splits)
qed simp

lemma keys_from_entries: "set (keys (from_entries es)) = set (keys es)"
proof -
  have "set (keys (foldl (\<lambda>acc (k, v). put_entry k v acc) acc es)) = set (keys acc) \<union> set (keys es)" for acc
    by (induction es arbitrary: acc) (simp_all add: case_prod_unfold)
  from this [of "[]"] show ?thesis by (simp add: from_entries_def)
qed

lemma materialized_keys:
  assumes "materialize_input_flags c flags = Inr obj"
  shows "distinct (keys obj)" "set (keys obj) \<subseteq> set (keys c)"
proof -
  consider "obj = []" | gs es where "group_flags c flags [] = Inr gs" "keys es = keys gs" "obj = from_entries es"
    using assms by (auto simp: materialize_input_flags_def bind_result_Inr_iff Let_def dest!: mapM_pairs split: if_splits)
  then have "distinct (keys obj) \<and> set (keys obj) \<subseteq> set (keys c)"
  proof cases
    case 2
    then show ?thesis using group_flags_keys [OF 2(1)] by (simp only: keys_from_entries distinct_from_entries) simp
  qed simp
  then show "distinct (keys obj)" "set (keys obj) \<subseteq> set (keys c)" by blast+
qed

lemma defaults_fields:
  assumes "distinct (keys obj)" "distinct (keys c)" "''__proto__'' \<notin> set (keys c)"
  shows "distinct (keys (apply_input_defaults c obj)) \<and> field (apply_input_defaults c obj) n =
    (case field obj n of Some v \<Rightarrow> Some v | None \<Rightarrow> Option.bind (map_of c n) declared_default)"
  using assms
proof (induction c arbitrary: obj)
  case Nil
  then show ?case by (simp add: apply_input_defaults_def split: option.split)
next
  case (Cons e c)
  obtain m d where e: "e = (m, d)" by fastforce
  have proto: "m \<noteq> ''__proto__''" using Cons.prems e by auto
  define r where "r = apply_default e obj"
  have dr: "distinct (keys r)" using Cons.prems by (simp add: r_def apply_default_def e split: option.split)
  have fr: "field r k = (case field obj k of Some v \<Rightarrow> Some v | None \<Rightarrow> if k = m then declared_default d else None)" for k
    using Cons.prems proto by (cases "map_of obj m"; cases "declared_default d")
       (simp_all add: r_def apply_default_def e has_own_def field_def map_of_assign_property del: map_of_eq_Some_iff split: option.split)
  have "apply_input_defaults (e # c) obj = apply_input_defaults c r" by (simp add: apply_input_defaults_def r_def)
  moreover have "map_of c m = None" using Cons.prems e by (simp add: map_of_eq_None_iff)
  ultimately show ?case using Cons.IH [OF dr] Cons.prems fr [of n] by (auto simp: e split: option.splits)
qed

text \<open>The values given for one name, in the order given.\<close>

definition given :: "string \<Rightarrow> input_flag list \<Rightarrow> raw_value list" where
  "given n flags = map snd (filter (\<lambda>f. fst f = n) flags)"

definition schema_for :: "input_contract \<Rightarrow> string \<Rightarrow> json_object" where
  "schema_for c n = (case map_of c n of Some d \<Rightarrow> declared_schema d | None \<Rightarrow> [])"

lemma group_flags_lookup:
  "group_flags c flags grouped = Inr gs \<Longrightarrow>
   map_of gs n = (if given n flags = [] then map_of grouped n
     else Some ((case map_of grouped n of Some vs \<Rightarrow> vs | None \<Rightarrow> []) @ given n flags))"
proof (induction c flags grouped rule: group_flags.induct)
  case (2 c name v flags grouped)
  then show ?case by (auto simp: given_def split: if_splits option.splits)
qed (simp add: given_def)

lemma mapM_lookup:
  "mapM_result (\<lambda>(n, x). map_result (Pair n) (f n x)) ps = Inr es \<Longrightarrow>
   case map_of ps n of None \<Rightarrow> map_of es n = None | Some x \<Rightarrow> \<exists>v. f n x = Inr v \<and> map_of es n = Some v"
  by (induction ps arbitrary: es) (auto simp: bind_result_Inr_iff map_result_def split: option.splits)

lemma materialized_field:
  assumes "materialize_input_flags c flags = Inr obj"
  shows "if given n flags = [] then field obj n = None
    else \<exists>v. materialize_flag_values n (given n flags) (schema_for c n) = Inr v \<and> field obj n = Some v"
proof (cases "flags = []")
  case True
  then show ?thesis using assms by (simp add: materialize_input_flags_def given_def field_def)
next
  case False
  then obtain gs es where gs: "group_flags c flags [] = Inr gs"
    and es: "mapM_result (\<lambda>(name, raws). map_result (Pair name) (materialize_flag_values name raws (schema_for c name))) gs = Inr es"
    and obj: "obj = from_entries es"
    using assms by (auto simp: materialize_input_flags_def schema_for_def [symmetric] bind_result_Inr_iff Let_def split: if_splits)
  have "distinct (keys es)" using mapM_pairs [OF es] group_flags_keys [OF gs] by simp
  then have "field obj n = map_of es n" by (simp add: obj field_def from_entries_distinct)
  then show ?thesis using mapM_lookup [OF es, of n] group_flags_lookup [OF gs, of n] by (simp split: if_splits)
qed

lemma materialized_exact_text:
  assumes "''string'' \<in> set (declared_types s)" "\<not> (''array'' \<in> set (declared_types s) \<and> js_starts_with ''['' (js_trim t))"
  shows "materialize_flag_values n [Text t] s = Inr (JStr t)"
proof -
  have "declared_types s \<noteq> []" using assms(1) by auto
  moreover have "length (declared_types s) \<noteq> 1" if "''array'' \<in> set (declared_types s)"
    using that assms(1) by (auto simp: length_Suc_conv)
  ultimately show ?thesis using assms
    by (auto simp: materialize_flag_values_def coerce_flag_value_def schema_types_def Let_def)
qed

lemma delivered:
  assumes "sound_contract c" "deliver_inputs c flags = Inr obj"
  shows "satisfies c obj" "set (keys obj) \<subseteq> set (keys c)" "distinct (keys obj)"
    "given n flags = [] \<Longrightarrow> field obj n = Option.bind (map_of c n) declared_default"
    "given n flags \<noteq> [] \<Longrightarrow> \<exists>v. materialize_flag_values n (given n flags) (schema_for c n) = Inr v \<and> field obj n = Some v"
proof -
  obtain m where m: "materialize_input_flags c flags = Inr m" and obj: "obj = apply_input_defaults c m"
    and ok: "validate_inputs ''$'' c obj = []"
    using assms(2) by (auto simp: deliver_inputs_def bind_result_Inr_iff Let_def split: if_splits)
  have c: "distinct (keys c)" "''__proto__'' \<notin> set (keys c)" using assms(1) by (auto simp: sound_contract_def)
  note f = defaults_fields [OF materialized_keys(1) [OF m] c]
  show "satisfies c obj" using ok assms(1) by (simp add: validate_inputs_ok)
  show "distinct (keys obj)" using f obj by blast
  show "set (keys obj) \<subseteq> set (keys c)"
  proof
    fix k assume "k \<in> set (keys obj)"
    then have "field obj k \<noteq> None" by (simp add: field_def map_of_eq_None_iff)
    then have "k \<in> set (keys m) \<or> map_of c k \<noteq> None"
    proof (cases "field m k")
      case None
      then show ?thesis using f [of k] obj \<open>field obj k \<noteq> None\<close> by (cases "map_of c k") auto
    next
      case (Some v)
      then show ?thesis by (force simp: field_def dest: map_of_SomeD)
    qed
    then show "k \<in> set (keys c)" using materialized_keys(2) [OF m] by (auto simp: map_of_eq_None_iff)
  qed
  show "field obj n = Option.bind (map_of c n) declared_default" if "given n flags = []"
    using f [of n] obj materialized_field [OF m, of n] that by simp
  show "\<exists>v. materialize_flag_values n (given n flags) (schema_for c n) = Inr v \<and> field obj n = Some v" if "given n flags \<noteq> []"
    using f [of n] obj materialized_field [OF m, of n] that by auto
qed

end
