(* ===== verification/Task_Inputs.thy ===== *)
theory Task_Inputs
  imports Input_Contract
begin

text \<open>
  The inputs and schedules of a task document: \<^verbatim>\<open>src/tasks/source/bounded-document.ts\<close>, which copies a decoded document within its
  resource bounds, and the parsers of \<open>inputs:\<close> and \<open>schedule:\<close> of \<^verbatim>\<open>src/tasks/source/task-source-v4.ts\<close>.  An error keeps the path of
  the field and which check failed.  Warnings about values that look like secrets are not modelled.
\<close>

section \<open>Errors\<close>

datatype source_fault =
    Too_Many_Nodes | Too_Deep | Text_Too_Long | Too_Many_Items | Too_Many_Keys | Key_Too_Long
  | Not_A_Mapping | Unsupported_Field
  | Not_A_Boolean | Default_And_Required | Unsupported_Schema schema_issue | Schema_Too_Large | Default_Refused "complaint list"
  | Bad_Input_Name | Reserved_Flag_Name | Retired_Flag_Name
  | Missing_Cron | Not_A_String | Empty_Text | Github_Expression
  | Inputs_Refused "input_problem list" | Not_Runnable "input_problem list" | Bad_Schedule_List | Too_Many_Schedules

datatype source_error = Source_Error "path_segment list" source_fault

section \<open>The bounded copy\<close>

definition max_json_depth :: nat where "max_json_depth = 64"
definition max_json_nodes :: int where "max_json_nodes = 10000"
definition max_collection_items :: int where "max_collection_items = 1024"
definition max_object_keys :: int where "max_object_keys = 256"
definition max_string_bytes :: int where "max_string_bytes = 262144"
definition max_schedules :: int where "max_schedules = 64"

text \<open>The bytes of a text of code units below 256.\<close>

definition utf8_bytes :: "string \<Rightarrow> int" where
  "utf8_bytes s = foldl (\<lambda>n c. n + (if code_of c < (128 :: nat) then 1 else 2)) 0 s"

text \<open>
  \<open>cloneBoundedJson\<close>, with the number of nodes seen so far.  A decoded text is a JSON value, without the proxies, cycles, accessors and holes
  the function also refuses, and its texts are well formed.
\<close>

function clone_bounded :: "json \<Rightarrow> path_segment list \<Rightarrow> nat \<Rightarrow> int \<Rightarrow> (source_error, json \<times> int) result"
  and clone_items :: "json list \<Rightarrow> path_segment list \<Rightarrow> nat \<Rightarrow> nat \<Rightarrow> int \<Rightarrow> (source_error, json list \<times> int) result"
  and clone_members :: "json_object \<Rightarrow> path_segment list \<Rightarrow> nat \<Rightarrow> int \<Rightarrow> (source_error, json_object \<times> int) result" where
  "clone_bounded v path depth nodes =
     (if nodes + 1 > max_json_nodes then Inl (Source_Error path Too_Many_Nodes)
      else if depth > max_json_depth then Inl (Source_Error path Too_Deep)
      else case v of
        JStr s \<Rightarrow> if utf8_bytes s > max_string_bytes then Inl (Source_Error path Text_Too_Long) else Inr (v, nodes + 1)
      | JArr xs \<Rightarrow>
          if int (length xs) > max_collection_items then Inl (Source_Error path Too_Many_Items)
          else map_result (\<lambda>(ys, n). (JArr ys, n)) (clone_items xs path 0 depth (nodes + 1))
      | JObj fs \<Rightarrow>
          if int (length fs) > max_object_keys then Inl (Source_Error path Too_Many_Keys)
          else map_result (\<lambda>(gs, n). (JObj gs, n)) (clone_members fs path depth (nodes + 1))
      | _ \<Rightarrow> Inr (v, nodes + 1))"
| "clone_items [] path i depth nodes = Inr ([], nodes)"
| "clone_items (x # xs) path i depth nodes =
     bind_result (clone_bounded x (path @ [At i]) (depth + 1) nodes) (\<lambda>(y, n).
       bind_result (clone_items xs path (i + 1) depth n) (\<lambda>(ys, m). Inr (y # ys, m)))"
| "clone_members [] path depth nodes = Inr ([], nodes)"
| "clone_members ((k, x) # fs) path depth nodes =
     (if utf8_bytes k > max_string_bytes then Inl (Source_Error path Key_Too_Long)
      else bind_result (clone_bounded x (path @ [Key k]) (depth + 1) nodes) (\<lambda>(y, n).
        bind_result (clone_members fs path depth n) (\<lambda>(gs, m). Inr ((k, y) # gs, m))))"
  by pat_completeness auto
termination
  by (relation "measure (\<lambda>t. case t of Inl (v, _) \<Rightarrow> 2 * size v
      | Inr (Inl (xs, _)) \<Rightarrow> 2 * size_list size xs + 1 | Inr (Inr (fs, _)) \<Rightarrow> 2 * size_list (size_prod (\<lambda>x. 0) size) fs + 1)")
    auto

definition as_record :: "path_segment list \<Rightarrow> json \<Rightarrow> (source_error, json_object) result" where
  "as_record path v = (case v of JObj fs \<Rightarrow> Inr fs | _ \<Rightarrow> Inl (Source_Error path Not_A_Mapping))"

definition check_keys :: "path_segment list \<Rightarrow> string list \<Rightarrow> json_object \<Rightarrow> (source_error, unit) result" where
  "check_keys path allowed fs = (case List.find (\<lambda>key. key \<notin> set allowed) (keys fs) of
     Some key \<Rightarrow> Inl (Source_Error (path @ [Key key]) Unsupported_Field) | None \<Rightarrow> Inr ())"

definition guard_source :: "bool \<Rightarrow> path_segment list \<Rightarrow> source_fault \<Rightarrow> (source_error, unit) result" where
  "guard_source bad path fault = (if bad then Inl (Source_Error path fault) else Inr ())"

text \<open>A present, non-empty string without an expression of a workflow file.\<close>

definition string_field :: "path_segment list \<Rightarrow> json \<Rightarrow> (source_error, string) result" where
  "string_field path v = (case v of
     JStr s \<Rightarrow> if js_trim s = '''' then Inl (Source_Error path Empty_Text) else Inr s
   | _ \<Rightarrow> Inl (Source_Error path Not_A_String))"

definition no_github_expression :: "path_segment list \<Rightarrow> string \<Rightarrow> (source_error, unit) result" where
  "no_github_expression path s = guard_source (index_of ''${{'' s \<noteq> None) path Github_Expression"

section \<open>Declarations\<close>

definition input_declaration_keys :: "string list" where
  "input_declaration_keys = [''type'', ''enum'', ''properties'', ''required'', ''items'', ''additionalProperties'', ''minItems'', ''maxItems'',
     ''minLength'', ''maxLength'', ''minimum'', ''maximum'', ''allOf'', ''anyOf'', ''oneOf'', ''not'', ''title'', ''description'', ''default'']"

definition max_schema_bytes :: int where "max_schema_bytes = 262144"

definition task_run_value_flags :: "string list" where
  "task_run_value_flags = [''bundle'', ''format'', ''detail'', ''shape'', ''output'']"

definition task_run_boolean_flags :: "string list" where
  "task_run_boolean_flags = [''scheduled'', ''quiet'', ''verbose'', ''help'', ''no-quiet'', ''no-verbose'']"

definition task_run_self_diagnosed_flags :: "string list" where
  "task_run_self_diagnosed_flags = [''target'']"

text \<open>What is left of a declaration without \<open>default\<close> and \<open>required\<close>.\<close>

definition strip_declaration_annotations :: "json_object \<Rightarrow> json_object" where
  "strip_declaration_annotations fs =
     foldl (\<lambda>schema (key, v). if key = ''default'' \<or> key = ''required'' then schema else assign_property key v schema) [] fs"

definition parse_input_declaration :: "(rat \<Rightarrow> string) \<Rightarrow> string \<Rightarrow> json \<Rightarrow> (source_error, input_declaration) result" where
  "parse_input_declaration dt name raw =
     (let path = [Key ''inputs'', Key name] in
      bind_result (as_record path raw) (\<lambda>decl.
      bind_result (check_keys path input_declaration_keys decl) (\<lambda>_.
      bind_result (guard_source (case field decl ''required'' of None \<Rightarrow> False | Some (JBool b) \<Rightarrow> False | _ \<Rightarrow> True)
          (path @ [Key ''required'']) Not_A_Boolean) (\<lambda>_.
      let schema = strip_declaration_annotations decl; default = field decl ''default''; needed = (field decl ''required'' = Some (JBool True)) in
      bind_result (guard_source (default \<noteq> None \<and> needed) path Default_And_Required) (\<lambda>_.
      bind_result (case check_json_schema_definition schema of i # _ \<Rightarrow> Inl (Source_Error path (Unsupported_Schema i)) | [] \<Rightarrow> Inr ()) (\<lambda>_.
      bind_result (guard_source (utf8_bytes (stringify_json dt (JObj schema)) > max_schema_bytes) path Schema_Too_Large) (\<lambda>_.
      bind_result (case default of
          Some v \<Rightarrow> let violations = validate_json_schema_subset v schema False in
            guard_source (violations \<noteq> []) (path @ [Key ''default'']) (Default_Refused violations)
        | None \<Rightarrow> Inr ()) (\<lambda>_.
      Inr \<lparr>declared_schema = schema, declared_default = default, is_required = needed\<rparr>))))))))"

fun parse_declarations_from :: "(rat \<Rightarrow> string) \<Rightarrow> json_object \<Rightarrow> input_contract \<Rightarrow> (source_error, input_contract) result" where
  "parse_declarations_from dt [] result = Inr result"
| "parse_declarations_from dt ((name, raw) # rest) result =
     (let path = [Key ''inputs'', Key name] in
      if \<not> input_name name then Inl (Source_Error path Bad_Input_Name)
      else if name \<in> set (task_run_value_flags @ task_run_boolean_flags @ task_run_self_diagnosed_flags) then
        Inl (Source_Error path (if name \<in> set task_run_self_diagnosed_flags then Retired_Flag_Name else Reserved_Flag_Name))
      else bind_result (parse_input_declaration dt name raw) (\<lambda>d. parse_declarations_from dt rest (assign_property name d result)))"

definition parse_input_declarations :: "(rat \<Rightarrow> string) \<Rightarrow> json \<Rightarrow> (source_error, input_contract) result" where
  "parse_input_declarations dt v = bind_result (as_record [Key ''inputs''] v) (\<lambda>fs. parse_declarations_from dt fs [])"

section \<open>Schedules\<close>

record schedule_entry =
  entry_cron :: string
  entry_enabled :: bool
  entry_inputs :: json_object
  entry_source :: string
  entry_ordinal :: nat

definition check_schedule_entry_runnable :: "json_object \<Rightarrow> input_contract \<Rightarrow> path_segment list \<Rightarrow> (source_error, unit) result" where
  "check_schedule_entry_runnable inputs contract path =
     (let errors = validate_inputs ''inputs'' contract (apply_input_defaults contract inputs)
      in guard_source (errors \<noteq> []) path (Not_Runnable errors))"

definition parse_schedule_entry :: "input_contract \<Rightarrow> nat \<Rightarrow> json \<Rightarrow> (source_error, schedule_entry) result" where
  "parse_schedule_entry contract i raw =
     (let path = [Key ''schedule'', At i] in
      bind_result (as_record path raw) (\<lambda>entry.
      bind_result (check_keys path [''cron'', ''enabled'', ''inputs''] entry) (\<lambda>_.
      bind_result (case field entry ''cron'' of None \<Rightarrow> Inl (Source_Error (path @ [Key ''cron'']) Missing_Cron)
        | Some v \<Rightarrow> string_field (path @ [Key ''cron'']) v) (\<lambda>cron.
      bind_result (no_github_expression (path @ [Key ''cron'']) cron) (\<lambda>_.
      bind_result (case field entry ''enabled'' of None \<Rightarrow> Inr True | Some (JBool b) \<Rightarrow> Inr b
        | Some _ \<Rightarrow> Inl (Source_Error (path @ [Key ''enabled'']) Not_A_Boolean)) (\<lambda>enabled.
      bind_result (case field entry ''inputs'' of None \<Rightarrow> Inr []
        | Some v \<Rightarrow> bind_result (as_record (path @ [Key ''inputs'']) v) (\<lambda>inputs.
            bind_result (check_keys (path @ [Key ''inputs'']) (keys contract) inputs) (\<lambda>_.
            let errors = validate_inputs ''inputs'' contract inputs
            in if errors \<noteq> [] then Inl (Source_Error path (Inputs_Refused errors)) else Inr inputs))) (\<lambda>inputs.
      bind_result (check_schedule_entry_runnable inputs contract path) (\<lambda>_.
      Inr \<lparr>entry_cron = cron, entry_enabled = enabled, entry_inputs = inputs,
        entry_source = ''schedule['' @ nat_to_string i @ ''].cron'', entry_ordinal = i\<rparr>))))))))"

definition parse_schedule_entries :: "json_object \<Rightarrow> input_contract \<Rightarrow> (source_error, schedule_entry list) result" where
  "parse_schedule_entries document contract = (case field document ''schedule'' of
     None \<Rightarrow> Inr []
   | Some (JStr s) \<Rightarrow>
       bind_result (string_field [Key ''schedule''] (JStr s)) (\<lambda>cron.
       bind_result (no_github_expression [Key ''schedule''] cron) (\<lambda>_.
       bind_result (check_schedule_entry_runnable [] contract [Key ''schedule'']) (\<lambda>_.
       Inr [\<lparr>entry_cron = cron, entry_enabled = True, entry_inputs = [], entry_source = ''schedule'', entry_ordinal = 0\<rparr>])))
   | Some (JArr (x # xs)) \<Rightarrow>
       if int (length (x # xs)) > max_schedules then Inl (Source_Error [Key ''schedule''] Too_Many_Schedules)
       else mapM_result (\<lambda>(i, raw). parse_schedule_entry contract i raw) (enumerate 0 (x # xs))
   | _ \<Rightarrow> Inl (Source_Error [Key ''schedule''] Bad_Schedule_List))"

section \<open>Depth\<close>

text \<open>The levels below a value.\<close>

fun json_height :: "json \<Rightarrow> nat" where
  "json_height (JArr xs) = fold (\<lambda>x m. max m (json_height x + 1)) xs 0"
| "json_height (JObj fs) = fold (\<lambda>(k, x) m. max m (json_height x + 1)) fs 0"
| "json_height v = 0"

lemma fold_max_le: "fold (\<lambda>x m. max m (f x)) xs (a :: nat) \<le> n \<longleftrightarrow> a \<le> n \<and> (\<forall>x \<in> set xs. f x \<le> n)"
  by (induction xs arbitrary: a) auto

lemma height_array: "json_height (JArr xs) \<le> n \<longleftrightarrow> (\<forall>x \<in> set xs. json_height x + 1 \<le> n)"
  by (simp add: fold_max_le)

lemma height_object: "json_height (JObj fs) \<le> n \<longleftrightarrow> (\<forall>(k, x) \<in> set fs. json_height x + 1 \<le> n)"
proof -
  have "json_height (JObj fs) = fold (\<lambda>e m. max m (json_height (snd e) + 1)) fs 0" by (simp add: case_prod_unfold)
  then show ?thesis by (auto simp add: fold_max_le)
qed

declare json_height.simps(1,2) [simp del]

text \<open>The copy is the value itself, and no deeper than the bound.\<close>

lemma cloned:
  "clone_bounded v path depth nodes = Inr (w, n) \<Longrightarrow> w = v \<and> depth + json_height v \<le> max_json_depth"
  "clone_items xs path i depth nodes = Inr (ys, n) \<Longrightarrow> ys = xs \<and> (\<forall>x \<in> set xs. depth + 1 + json_height x \<le> max_json_depth)"
  "clone_members fs path depth nodes = Inr (gs, n) \<Longrightarrow> gs = fs \<and> (\<forall>(k, x) \<in> set fs. depth + 1 + json_height x \<le> max_json_depth)"
proof (induction v path depth nodes and xs path i depth nodes and fs path depth nodes
    arbitrary: w n and ys n and gs n rule: clone_bounded_clone_items_clone_members.induct)
  case (1 v path depth nodes)
  have d: "depth \<le> max_json_depth" using "1.prems" by (simp split: if_splits)
  show ?case
  proof (cases v)
    case (JArr xs)
    then obtain ys where "clone_items xs path 0 depth (nodes + 1) = Inr (ys, n)" "w = JArr ys"
      using "1.prems" by (auto simp: map_result_def bind_result_Inr_iff split: if_splits)
    moreover have "json_height (JArr xs) \<le> max_json_depth - depth" if "\<forall>x \<in> set xs. depth + 1 + json_height x \<le> max_json_depth"
      unfolding height_array using that by auto
    ultimately show ?thesis using "1.IH"(1) [of xs ys n] JArr "1.prems" d by (fastforce split: if_splits)
  next
    case (JObj fs)
    then obtain gs where "clone_members fs path depth (nodes + 1) = Inr (gs, n)" "w = JObj gs"
      using "1.prems" by (auto simp: map_result_def bind_result_Inr_iff split: if_splits)
    moreover have "json_height (JObj fs) \<le> max_json_depth - depth" if "\<forall>(k, x) \<in> set fs. depth + 1 + json_height x \<le> max_json_depth"
      unfolding height_object using that by auto
    ultimately show ?thesis using "1.IH"(2) [of fs gs n] JObj "1.prems" d by (fastforce split: if_splits)
  qed (use "1.prems" d in \<open>auto split: if_splits\<close>)
next
  case (3 x xs path i depth nodes)
  then show ?case by (fastforce simp: bind_result_Inr_iff)
next
  case (5 k x fs path depth nodes)
  then show ?case by (fastforce simp: bind_result_Inr_iff split: if_splits)
qed simp_all

text \<open>A schema that is not deeper than the levels left means the same with one more level.\<close>

lemma height_entry: "(k, x) \<in> set fs \<Longrightarrow> json_height x < json_height (JObj fs)"
  using height_object [of fs "json_height (JObj fs)"] by fastforce

lemma height_item: "x \<in> set xs \<Longrightarrow> json_height x < json_height (JArr xs)"
  using height_array [of xs "json_height (JArr xs)"] by fastforce

lemma height_field: "field s k = Some x \<Longrightarrow> json_height x < json_height (JObj s)"
  by (auto simp: field_def dest!: map_of_SomeD intro: height_entry)

lemma read_branches_cong:
  assumes "\<And>o'. json_height (JObj o') < json_height (JObj s) \<Longrightarrow> f o' = g o'"
  shows "read_branches f s keyword = read_branches g s keyword"
proof (cases "\<exists>xs. field s keyword = Some (JArr xs)")
  case True
  then obtain xs where xs: "field s keyword = Some (JArr xs)" by blast
  have "map (\<lambda>x. case x of JObj o' \<Rightarrow> f o' | _ \<Rightarrow> None) xs = map (\<lambda>x. case x of JObj o' \<Rightarrow> g o' | _ \<Rightarrow> None) xs"
    using assms height_item height_field [OF xs] by (fastforce intro!: map_cong split: json.split)
  then show ?thesis unfolding read_branches_def xs option.case json.case by (cases xs) (simp_all only: list.case)
qed (auto simp: read_branches_def split: option.split json.split)

lemma read_sub_cong:
  assumes "\<And>o'. json_height (JObj o') < json_height (JObj s) \<Longrightarrow> f o' = g o'"
  shows "read_sub f s keyword = read_sub g s keyword"
  using assms height_field by (fastforce simp: read_sub_def split: option.split json.split)

lemma read_properties_cong:
  assumes "\<And>o'. json_height (JObj o') < json_height (JObj s) \<Longrightarrow> f o' = g o'"
  shows "read_properties f s = read_properties g s"
proof (cases "\<exists>ps. field s ''properties'' = Some (JObj ps)")
  case True
  then obtain ps where ps: "field s ''properties'' = Some (JObj ps)" by blast
  have "map (\<lambda>(k, x). case x of JObj o' \<Rightarrow> map_option (Pair k) (f o') | _ \<Rightarrow> None) ps
      = map (\<lambda>(k, x). case x of JObj o' \<Rightarrow> map_option (Pair k) (g o') | _ \<Rightarrow> None) ps"
    using assms height_entry height_field [OF ps] by (fastforce intro!: map_cong split: json.split)
  then show ?thesis unfolding read_properties_def ps option.case json.case by (rule arg_cong)
qed (auto simp: read_properties_def split: option.split json.split)

lemma meaning_within: "json_height (JObj s) < n \<Longrightarrow> meaning n s = meaning (Suc n) s"
proof (induction n arbitrary: s)
  case (Suc n)
  have same: "meaning n o' = meaning (Suc n) o'" if "json_height (JObj o') < json_height (JObj s)" for o'
    using Suc that by simp
  have c: "read_branches (meaning n) s k = read_branches (meaning (Suc n)) s k" "read_sub (meaning n) s k = read_sub (meaning (Suc n)) s k"
    "read_properties (meaning n) s = read_properties (meaning (Suc n)) s" for k
    by (rule read_branches_cong read_sub_cong read_properties_cong, rule same, assumption)+
  show ?case by (subst meaning.simps(2) [of n s], subst meaning.simps(2) [of "Suc n" s]) (simp only: c)
qed simp

section \<open>Parsed contracts are enforced\<close>

lemma set_put_entry: "set (put_entry k v acc) \<subseteq> set acc \<union> {(k, v)}"
  by (induction acc) (auto split: if_splits)

lemma set_assign_property: "set (assign_property k v acc) \<subseteq> set acc \<union> {(k, v)}"
  using set_put_entry [of k v acc] by (auto simp: assign_property_def)

lemma stripped_entries: "set (strip_declaration_annotations fs) \<subseteq> set fs"
proof -
  have "set (foldl (\<lambda>schema (key, v). if key = ''default'' \<or> key = ''required'' then schema else assign_property key v schema) acc es)
      \<subseteq> set acc \<union> set es" for acc es
  proof (induction es arbitrary: acc)
    case (Cons e es)
    obtain k v where e: "e = (k, v)" by fastforce
    then have "set (if k = ''default'' \<or> k = ''required'' then acc else assign_property k v acc) \<subseteq> set acc \<union> {e}"
      using set_assign_property [of k v acc] by auto
    then show ?case using Cons.IH e by fastforce
  qed simp
  from this [of "[]" fs] show ?thesis by (simp add: strip_declaration_annotations_def)
qed

lemma stripped_height: "json_height (JObj (strip_declaration_annotations fs)) \<le> json_height (JObj fs)"
  unfolding height_object using height_entry stripped_entries by fastforce

lemma parsed_declaration:
  assumes "parse_input_declaration dt name raw = Inr d" "json_height raw < max_definition_depth"
  shows "input_meaning d \<noteq> None"
    "declared_default d = Some v \<Longrightarrow> \<not> is_required d \<and> (\<exists>S. input_meaning d = Some S \<and> accepts S v)"
proof -
  obtain fs where raw: "raw = JObj fs"
    using assms(1) by (cases raw) (auto simp: parse_input_declaration_def as_record_def Let_def bind_result_Inr_iff)
  define s where "s = strip_declaration_annotations fs"
  have d: "declared_schema d = s" "check_json_schema_definition s = []"
    and default: "declared_default d = Some v \<Longrightarrow> \<not> is_required d \<and> validate_json_schema_subset v s False = []"
    using assms(1) unfolding raw s_def
    by (auto simp: parse_input_declaration_def as_record_def Let_def bind_result_Inr_iff guard_source_def split: if_splits list.splits option.splits)
  have "json_height (JObj s) < max_definition_depth" using stripped_height [of fs] assms(2) by (simp add: raw s_def)
  then have m: "input_meaning d = meaning (Suc max_definition_depth) s" by (simp add: input_meaning_def d(1) meaning_within)
  have some: "meaning (Suc max_definition_depth) s \<noteq> None"
    using d(2) check_read unfolding check_json_schema_definition_def by blast
  then show "input_meaning d \<noteq> None" unfolding m .
  obtain S where S: "meaning (Suc max_definition_depth) s = Some S" using some by blast
  show "\<not> is_required d \<and> (\<exists>S. input_meaning d = Some S \<and> accepts S v)" if "declared_default d = Some v"
    using default [OF that] S m validate_accepts [OF S, of False v "''$''"] by (simp add: validate_json_schema_subset_def)
qed

lemma parsed_declarations_from:
  assumes "parse_declarations_from dt fs acc = Inr c" "sound_contract acc" "\<forall>(k, x) \<in> set fs. json_height x < max_definition_depth"
  shows "sound_contract c"
  using assms
proof (induction dt fs acc rule: parse_declarations_from.induct)
  case (2 dt name raw rest acc)
  obtain d where d: "parse_input_declaration dt name raw = Inr d" "parse_declarations_from dt rest (assign_property name d acc) = Inr c"
    and ok: "input_name name" "name \<notin> set (task_run_value_flags @ task_run_boolean_flags @ task_run_self_diagnosed_flags)"
    using "2.prems"(1) by (auto simp: Let_def bind_result_Inr_iff split: if_splits)
  have "input_meaning d \<noteq> None" using parsed_declaration(1) [OF d(1)] "2.prems"(3) by auto
  moreover note set_put_entry [of name d acc]
  ultimately have "sound_contract (assign_property name d acc)"
    using "2.prems"(2) by (fastforce simp: sound_contract_def assign_property_def)
  then show ?case using "2.IH" ok d "2.prems"(3) by auto
qed simp

text \<open>A declaration of a document within the bounds.\<close>

lemma bounded_declarations:
  assumes "clone_bounded v [] 0 0 = Inr (JObj document, n)" "field document ''inputs'' = Some (JObj fs)"
  shows "\<forall>(k, x) \<in> set fs. json_height x < max_definition_depth"
proof clarify
  fix k x assume "(k, x) \<in> set fs"
  then have "json_height x < json_height (JObj fs)" by (rule height_entry)
  also have "\<dots> < json_height (JObj document)" using assms(2) by (rule height_field)
  also have "\<dots> \<le> max_json_depth" using cloned(1) [OF assms(1)] by simp
  finally show "json_height x < max_definition_depth" by (simp add: max_json_depth_def max_definition_depth_def)
qed

lemma parsed_contract_sound:
  assumes "clone_bounded v [] 0 0 = Inr (JObj document, n)" "field document ''inputs'' = Some declarations"
    "parse_input_declarations dt declarations = Inr c"
  shows "sound_contract c"
proof -
  obtain fs where fs: "declarations = JObj fs" "parse_declarations_from dt fs [] = Inr c"
    using assms(3) by (auto simp: parse_input_declarations_def as_record_def bind_result_Inr_iff split: json.splits)
  have "sound_contract []" by (simp add: sound_contract_def)
  from parsed_declarations_from [OF fs(2) this] bounded_declarations [OF assms(1)] assms(2) fs(1) show ?thesis by blast
qed

text \<open>What a run is given for an input of its contract.\<close>

lemma delivered_declaration:
  assumes c: "sound_contract contract" and del: "deliver_inputs contract flags = Inr inputs" and map: "map_of contract n = Some d"
  shows "case field inputs n of
        None \<Rightarrow> \<not> is_required d \<and> declared_default d = None \<and> given n flags = []
      | Some x \<Rightarrow> (\<exists>S. meaning max_definition_depth (declared_schema d) = Some S \<and> accepts S x) \<and>
          (given n flags = [] \<longrightarrow> declared_default d = Some x) \<and>
          (\<forall>s. given n flags = [Text s] \<and> ''string'' \<in> set (declared_types (declared_schema d)) \<and>
             \<not> (''array'' \<in> set (declared_types (declared_schema d)) \<and> js_starts_with ''['' (js_trim s)) \<longrightarrow> x = JStr s)"
proof -
  note del = delivered [OF c del]
  have "(n, d) \<in> set contract" using map by (rule map_of_SomeD)
  then have sat: "case field inputs n of None \<Rightarrow> \<not> is_required d | Some v \<Rightarrow> \<exists>S. input_meaning d = Some S \<and> accepts S v"
    using del(1) by (auto simp: satisfies_def)
  show ?thesis
  proof (cases "field inputs n")
    case None
    then show ?thesis using sat del(4) [of n] del(5) [of n] map by (cases "given n flags = []") auto
  next
    case (Some x)
    have "x = JStr s" if "given n flags = [Text s]" "''string'' \<in> set (declared_types (declared_schema d))"
      "\<not> (''array'' \<in> set (declared_types (declared_schema d)) \<and> js_starts_with ''['' (js_trim s))" for s
      using del(5) [of n] that materialized_exact_text [OF that(2,3), of n] Some map by (simp add: schema_for_def)
    moreover have "declared_default d = Some x" if "given n flags = []" using del(4) [OF that] Some map by simp
    ultimately show ?thesis using Some sat by (simp add: input_meaning_def)
  qed
qed

section \<open>What a document declares\<close>

text \<open>What a declaration asks of the values: all of it but \<open>default\<close> and \<open>required\<close>.\<close>

definition value_schema :: "json_object \<Rightarrow> json_object" where
  "value_schema decl = filter (\<lambda>(k, _). k \<noteq> ''default'' \<and> k \<noteq> ''required'') decl"

lemma plain_keyword: "k \<in> set input_declaration_keys \<Longrightarrow> index_key k = None \<and> k \<noteq> ''__proto__''"
proof -
  have "list_all (\<lambda>k. index_key k = None \<and> k \<noteq> ''__proto__'') input_declaration_keys" by code_simp
  then have "\<forall>k \<in> set input_declaration_keys. index_key k = None \<and> k \<noteq> ''__proto__''" unfolding list_all_iff .
  then show "k \<in> set input_declaration_keys \<Longrightarrow> index_key k = None \<and> k \<noteq> ''__proto__''" by (rule bspec)
qed

lemma enumerated_plain: "(\<And>k. k \<in> set (keys es) \<Longrightarrow> index_key k = None) \<Longrightarrow> enumerated es = es"
proof -
  assume plain: "\<And>k. k \<in> set (keys es) \<Longrightarrow> index_key k = None"
  have "filter (\<lambda>(k, v). index_key k \<noteq> None) es = []" "filter (\<lambda>(k, v). index_key k = None) es = es"
    using plain by (force simp: filter_empty_conv filter_id_conv)+
  then show ?thesis unfolding enumerated_def by simp
qed

lemma stripped_declaration:
  assumes "distinct (keys decl)" "set (keys decl) \<subseteq> set input_declaration_keys"
  shows "strip_declaration_annotations decl = value_schema decl"
proof -
  have "foldl (\<lambda>schema (key, v). if key = ''default'' \<or> key = ''required'' then schema else assign_property key v schema) acc es
      = acc @ value_schema es"
    if "distinct (keys acc @ keys es)" "set (keys acc @ keys es) \<subseteq> set input_declaration_keys" for acc es
    using that
  proof (induction es arbitrary: acc)
    case (Cons e es)
    obtain k v where e: "e = (k, v)" by fastforce
    have "assign_property k v acc = acc @ [(k, v)]"
    proof -
      have "k \<notin> set (keys acc)" "k \<in> set input_declaration_keys" using Cons.prems e by auto
      then have "put_entry k v acc = acc @ [(k, v)]" "k \<noteq> ''__proto__''" using plain_keyword by (simp_all add: put_entry_new)
      moreover have "enumerated (acc @ [(k, v)]) = acc @ [(k, v)]"
        by (rule enumerated_plain) (use Cons.prems(2) plain_keyword e in auto)
      ultimately show ?thesis by (simp add: assign_property_def)
    qed
    then show ?case using Cons.IH [of "acc @ [(k, v)]"] Cons.IH [of acc] Cons.prems e by (auto simp: value_schema_def)
  qed (simp add: value_schema_def)
  from this [of "[]" decl] assms show ?thesis by (simp add: strip_declaration_annotations_def)
qed

lemma checked_keys: "check_keys path allowed fs = Inr () \<Longrightarrow> set (keys fs) \<subseteq> set allowed"
  unfolding check_keys_def by (auto simp: find_None_iff split: option.splits)

text \<open>What the parser of one declaration read is what the document says.\<close>

lemma declaration_read:
  assumes "parse_input_declaration dt name raw = Inr d" "keyed raw"
  obtains decl where "raw = JObj decl" "declared_schema d = value_schema decl" "declared_default d = field decl ''default''"
    "is_required d \<longleftrightarrow> field decl ''required'' = Some (JBool True)"
proof -
  obtain decl where raw: "raw = JObj decl"
    using assms(1) by (cases raw) (auto simp: parse_input_declaration_def as_record_def Let_def bind_result_Inr_iff)
  have parts: "check_keys [Key ''inputs'', Key name] input_declaration_keys decl = Inr ()" "declared_schema d = strip_declaration_annotations decl"
    "declared_default d = field decl ''default''" "is_required d \<longleftrightarrow> field decl ''required'' = Some (JBool True)"
    using assms(1) unfolding raw
    by (auto simp: parse_input_declaration_def as_record_def Let_def bind_result_Inr_iff split: if_splits list.splits option.splits)
  have "declared_schema d = value_schema decl"
    unfolding parts(2) by (rule stripped_declaration [OF _ checked_keys [OF parts(1)]]) (use assms(2) raw in simp)
  then show ?thesis using that raw parts(3,4) by blast
qed

text \<open>Every declaration but one called \<open>__proto__\<close> reaches the contract.\<close>

lemma parsed_lookup:
  assumes "parse_declarations_from dt fs acc = Inr c" "distinct (keys acc)" "distinct (keys fs)"
  shows "distinct (keys c)
    \<and> (\<forall>n raw. map_of fs n = Some raw \<and> n \<noteq> ''__proto__'' \<longrightarrow> (\<exists>d. parse_input_declaration dt n raw = Inr d \<and> map_of c n = Some d))
    \<and> (\<forall>n. map_of fs n = None \<or> n = ''__proto__'' \<longrightarrow> map_of c n = map_of acc n)"
  using assms
proof (induction dt fs acc rule: parse_declarations_from.induct)
  case (2 dt name raw rest acc)
  obtain d where d: "parse_input_declaration dt name raw = Inr d" "parse_declarations_from dt rest (assign_property name d acc) = Inr c"
    and ok: "input_name name" "name \<notin> set (task_run_value_flags @ task_run_boolean_flags @ task_run_self_diagnosed_flags)"
    using "2.prems"(1) by (auto simp: Let_def bind_result_Inr_iff split: if_splits)
  have fresh: "map_of rest name = None" using "2.prems"(3) by (simp add: map_of_eq_None_iff)
  have IH: "distinct (keys c)
    \<and> (\<forall>n raw. map_of rest n = Some raw \<and> n \<noteq> ''__proto__'' \<longrightarrow> (\<exists>d. parse_input_declaration dt n raw = Inr d \<and> map_of c n = Some d))
    \<and> (\<forall>n. map_of rest n = None \<or> n = ''__proto__'' \<longrightarrow> map_of c n = map_of (assign_property name d acc) n)"
    by (rule "2.IH" [OF refl _ ok(2) d]) (use ok(1) "2.prems"(2,3) in simp_all)
  have assigned: "map_of (assign_property name d acc) n = (if n = name \<and> name \<noteq> ''__proto__'' then Some d else map_of acc n)" for n
    using "2.prems"(2) by (cases "name = ''__proto__''") (simp_all add: assign_property_def)
  show ?case
  proof (intro conjI allI impI)
    show "distinct (keys c)" using IH by blast
    show "\<exists>d. parse_input_declaration dt n r = Inr d \<and> map_of c n = Some d" if "map_of ((name, raw) # rest) n = Some r \<and> n \<noteq> ''__proto__''" for n r
    proof (cases "n = name")
      case True
      then have "map_of c n = Some d" using IH fresh assigned that by simp
      then show ?thesis using d(1) True that by simp
    qed (use that IH in auto)
    show "map_of c n = map_of acc n" if "map_of ((name, raw) # rest) n = None \<or> n = ''__proto__''" for n
      using that IH assigned by (cases "n = name") auto
  qed
qed simp

lemma declared_types_value_schema: "declared_types (value_schema decl) = declared_types decl"
proof -
  have "field (value_schema decl) k = field decl k" if "k \<noteq> ''default''" "k \<noteq> ''required''" for k
    using that by (induction decl) (auto simp: field_def value_schema_def)
  then show ?thesis by (simp add: declared_types_def)
qed


definition sample_declarations :: json where
  "sample_declarations = JObj
     [(''zone'', JObj [(''type'', JArr [JStr ''integer'', JStr ''string'']), (''required'', JBool True)]),
      (''count'', JObj [(''type'', JStr ''integer''), (''minimum'', JNum 1), (''default'', JNum 3)])]"

definition sample_document :: json_object where
  "sample_document = [(''version'', JNum 4), (''inputs'', sample_declarations)]"

definition sample_contract :: input_contract where
  "sample_contract = [(''zone'', \<lparr>declared_schema = [(''type'', JArr [JStr ''integer'', JStr ''string''])], declared_default = None, is_required = True\<rparr>),
     (''count'', \<lparr>declared_schema = [(''type'', JStr ''integer''), (''minimum'', JNum 1)], declared_default = Some (JNum 3), is_required = False\<rparr>)]"


text \<open>A declared input named \<open>__proto__\<close> passes the name pattern and every check, and is then assigned to the prototype of the contract:
  the contract does not have it.\<close>

lemma proto_declaration_is_dropped:
  "parse_input_declarations (\<lambda>r. []) (JObj [(''__proto__'', JObj [(''type'', JStr ''string''), (''required'', JBool True)])]) = Inr []"
  by code_simp

end
