(* ===== verification/Scheduler_Binding.thy ===== *)
theory Scheduler_Binding
  imports Task_Inputs Asset_Ref
begin

text \<open>
  Scheduler bindings, \<^verbatim>\<open>src/tasks/scheduler-binding.ts\<close>, with the task ids of \<^verbatim>\<open>src/tasks/task-id.ts\<close>: what a task or a workflow
  gives a native scheduler to keep, the identity of a binding, and the checks every backend makes before it changes an
  artifact.  \<open>hash\<close> is SHA-256 in hexadecimal, of a library; \<open>dt\<close> writes the numbers the language leaves open.
\<close>

section \<open>Task ids\<close>

datatype task_id_error =
    Id_Missing | Id_Characters | Id_Too_Long | Id_File_Suffix | Id_Trailing_Period | Id_Device_Name | Id_Backslash | Id_Empty_Segment

definition max_portable_task_id_length :: nat where
  "max_portable_task_id_length = min (min (238 - length [CHR 0x5C, CHR ''a'', CHR ''k'', CHR ''m'', CHR 0x5C])
     (255 - (length ''com.akm.task.'' + length ''.plist'')))
     (min (255 - length ''.yml'') (255 - (length ''akm-task-'' + length ''-'' + 13 + length ''.xml'')))"

definition task_id_char :: "char \<Rightarrow> bool" where
  "task_id_char c \<longleftrightarrow> js_letter c \<or> js_digit c \<or> c = CHR ''.'' \<or> c = CHR ''_'' \<or> c = CHR ''-''"

definition valid_task_id :: "string \<Rightarrow> bool" where
  "valid_task_id s \<longleftrightarrow> (case s of [] \<Rightarrow> False | c # cs \<Rightarrow> (js_letter c \<or> js_digit c) \<and> list_all task_id_char cs)"

definition device_names :: "string list" where
  "device_names = [''con'', ''prn'', ''aux'', ''nul''] @ concat (map (\<lambda>d. [''com'' @ [d], ''lpt'' @ [d]]) ''123456789'')"

definition reserved_device :: "string \<Rightarrow> bool" where
  "reserved_device s \<longleftrightarrow> list_ex (\<lambda>n. to_lower_case s = n \<or> js_starts_with (n @ ''.'') (to_lower_case s)) device_names"

definition validate_task_id :: "string \<Rightarrow> (task_id_error, string) result" where
  "validate_task_id s =
     (if s = '''' then Inl Id_Missing
      else if \<not> valid_task_id s then Inl Id_Characters
      else if length s > max_portable_task_id_length then Inl Id_Too_Long
      else if js_ends_with ''.yml'' (to_lower_case s) \<or> js_ends_with ''.yaml'' (to_lower_case s) then Inl Id_File_Suffix
      else if js_ends_with ''.'' s then Inl Id_Trailing_Period
      else if reserved_device s then Inl Id_Device_Name
      else Inr s)"

definition validate_task_concept_id :: "string \<Rightarrow> (task_id_error, string) result" where
  "validate_task_concept_id s =
     (if s = '''' then Inl Id_Missing
      else if js_includes [CHR 0x5C] s then Inl Id_Backslash
      else let segments = split_on CHR ''/'' s in
        if list_ex (\<lambda>seg. seg = '''') segments then Inl Id_Empty_Segment
        else bind_result (mapM_result validate_task_id segments) (\<lambda>_. Inr s))"

definition normalise_task_concept_id :: "string \<Rightarrow> (task_id_error, string) result" where
  "normalise_task_concept_id raw = validate_task_concept_id (js_trim raw)"

section \<open>Data\<close>

datatype source_kind = Task_Source | Workflow_Source

record logical_source =
  logical_kind :: source_kind
  logical_ref :: string

record scheduler_binding =
  binding_id :: string
  binding_native :: "string option"
  binding_source :: logical_source
  binding_cron :: string
  binding_origin :: string
  binding_ordinal :: nat
  binding_enabled :: bool
  binding_invocation :: "string list"
  evidence_digest :: "string option"

record source_schedule =
  schedule_cron :: string
  schedule_source :: string
  schedule_ordinal :: nat
  schedule_enabled :: "bool option"
  schedule_inputs :: "json_object option"

record native_artifact =
  artifact_native_id :: string
  artifact_binding_id :: "string option"
  artifact_invocation :: "string list option"
  artifact_fingerprint :: "string option"

datatype expected_state = Absent | Present

record mutation_expectation =
  expected_state_of :: expected_state
  expected_binding_id :: string
  expected_native_id :: string
  expected_source :: logical_source
  expected_ordinal :: nat
  expected_invocation :: "string list"
  expected_fingerprint :: "string option"

datatype scheduler_error =
    Bad_Task_Id task_id_error | Bad_Ref ref_error | Not_Qualified source_kind | Bad_Evidence_Digest
  | Cardinality_Violated nat | Artifact_Owned_By_Other | Removal_Unverified
  | Source_Not_Canonical | Workflow_Invocation_Mismatch | Task_Id_Invalid | Task_Invocation_Mismatch | Task_Source_Mismatch
  | Forged_Identity | Absent_With_State | Artifact_Changed | Rollback_Over_Change | Rollback_Cardinality

definition lift_error :: "('e \<Rightarrow> 'f) \<Rightarrow> ('e, 'a) result \<Rightarrow> ('f, 'a) result" where
  "lift_error f r = (case r of Inl e \<Rightarrow> Inl (f e) | Inr v \<Rightarrow> Inr v)"

section \<open>Identities\<close>

definition kind_text :: "source_kind \<Rightarrow> string" where
  "kind_text k = (case k of Task_Source \<Rightarrow> ''task'' | Workflow_Source \<Rightarrow> ''workflow'')"

definition digest_binding_id :: "(string \<Rightarrow> string) \<Rightarrow> source_kind \<Rightarrow> string \<Rightarrow> nat \<Rightarrow> string" where
  "digest_binding_id hash kind ref ordinal =
     (case kind of Workflow_Source \<Rightarrow> ''wf'' | Task_Source \<Rightarrow> ''task'') @ ''-'' @
     take 32 (hash (''['' @ quote_json (kind_text kind) @ '','' @ quote_json ref @ '','' @ nat_to_string ordinal @ '']''))"

definition scheduler_native_binding_id :: "(string \<Rightarrow> string) \<Rightarrow> string \<Rightarrow> string" where
  "scheduler_native_binding_id hash s =
     (if js_includes ''/'' s then ''task-'' @ take 32 (hash (''['' @ quote_json ''nested-task'' @ '','' @ quote_json s @ '']'')) else s)"

definition scheduler_native_artifact_key :: "string \<Rightarrow> string" where
  "scheduler_native_artifact_key s = rev (dropWhile (\<lambda>c. c = CHR ''.'') (rev (to_lower_case s)))"

definition scheduler_binding_native_id :: "(string \<Rightarrow> string) \<Rightarrow> scheduler_binding \<Rightarrow> string" where
  "scheduler_binding_native_id hash b = (case binding_native b of Some s \<Rightarrow> s | None \<Rightarrow> scheduler_native_binding_id hash (binding_id b))"

definition assert_qualified_ref :: "string \<Rightarrow> source_kind \<Rightarrow> (scheduler_error, bundle_ref) result" where
  "assert_qualified_ref ref kind =
     bind_result (lift_error Bad_Ref (parse_bundle_ref ref)) (\<lambda>p.
       if ref_bundle p = None \<or> ref_bundle p = Some '''' \<or> ref_fragment p \<noteq> None then Inl (Not_Qualified kind)
       else bind_result (lift_error Bad_Ref (bundle_ref_to_string p)) (\<lambda>text. if text \<noteq> ref then Inl (Not_Qualified kind) else Inr p))"

section \<open>Compilation\<close>

definition scheduler_input_value_text :: "(rat \<Rightarrow> string) \<Rightarrow> json \<Rightarrow> string" where
  "scheduler_input_value_text dt v = (case v of
     JStr s \<Rightarrow> s | JNum r \<Rightarrow> number_text dt r | JBool b \<Rightarrow> if b then ''true'' else ''false'' | _ \<Rightarrow> canonical_input_json dt v)"

definition scheduler_input_flags :: "string \<Rightarrow> string \<Rightarrow> string list" where
  "scheduler_input_flags name text =
     (if js_starts_with ''-'' text then [''--'' @ name @ ''='' @ text] else [''--'' @ name, text])"

definition scheduler_input_flag_tail :: "(rat \<Rightarrow> string) \<Rightarrow> json_object option \<Rightarrow> string list" where
  "scheduler_input_flag_tail dt inputs = (case inputs of
     None \<Rightarrow> []
   | Some fs \<Rightarrow> concat (map (\<lambda>name. case field fs name of
       Some v \<Rightarrow> scheduler_input_flags name (scheduler_input_value_text dt v) | None \<Rightarrow> []) (sort (keys fs))))"

definition task_invocation :: "string \<Rightarrow> string \<Rightarrow> string list \<Rightarrow> string list" where
  "task_invocation task bundle flags = [''task'', ''run'', task, ''--bundle'', bundle, ''--scheduled''] @ flags"

definition compile_task_scheduler_bindings ::
    "(string \<Rightarrow> string) \<Rightarrow> (rat \<Rightarrow> string) \<Rightarrow> string \<Rightarrow> string \<Rightarrow> bool \<Rightarrow> source_schedule list \<Rightarrow> (scheduler_error, scheduler_binding list) result" where
  "compile_task_scheduler_bindings hash dt raw_id ref enabled schedules =
     bind_result (lift_error Bad_Task_Id (normalise_task_concept_id raw_id)) (\<lambda>task.
     bind_result (assert_qualified_ref ref Task_Source) (\<lambda>p. case ref_bundle p of
       None \<Rightarrow> Inl (Not_Qualified Task_Source)
     | Some bundle \<Rightarrow>
       Inr (map (\<lambda>s.
         let bid = (if schedule_ordinal s = 0 then task else digest_binding_id hash Task_Source ref (schedule_ordinal s))
         in \<lparr>binding_id = bid, binding_native = Some (scheduler_native_binding_id hash bid),
              binding_source = \<lparr>logical_kind = Task_Source, logical_ref = ref\<rparr>,
              binding_cron = schedule_cron s, binding_origin = schedule_source s, binding_ordinal = schedule_ordinal s,
              binding_enabled = (case schedule_enabled s of Some e \<Rightarrow> e | None \<Rightarrow> enabled),
              binding_invocation = task_invocation task bundle (scheduler_input_flag_tail dt (schedule_inputs s)),
              evidence_digest = None\<rparr>) schedules)))"

definition assert_evidence_digest :: "string \<Rightarrow> (scheduler_error, string) result" where
  "assert_evidence_digest s =
     (if length s = 64 \<and> list_all (\<lambda>c. js_digit c \<or> (CHR ''a'' \<le> c \<and> c \<le> CHR ''f'')) s then Inr s else Inl Bad_Evidence_Digest)"

definition compile_workflow_scheduler_bindings ::
    "(string \<Rightarrow> string) \<Rightarrow> string \<Rightarrow> source_schedule list \<Rightarrow> string option \<Rightarrow> (scheduler_error, scheduler_binding list) result" where
  "compile_workflow_scheduler_bindings hash ref schedules digest =
     bind_result (assert_qualified_ref ref Workflow_Source) (\<lambda>_.
     mapM_result (\<lambda>s. let bid = digest_binding_id hash Workflow_Source ref (schedule_ordinal s) in
       bind_result (case digest of None \<Rightarrow> Inr None | Some d \<Rightarrow> map_result Some (assert_evidence_digest d)) (\<lambda>evidence.
       Inr \<lparr>binding_id = bid, binding_native = Some bid, binding_source = \<lparr>logical_kind = Workflow_Source, logical_ref = ref\<rparr>,
            binding_cron = schedule_cron s, binding_origin = schedule_source s, binding_ordinal = schedule_ordinal s,
            binding_enabled = True, binding_invocation = [''workflow'', ''run'', ref], evidence_digest = evidence\<rparr>)) schedules)"

section \<open>Checks of the backends\<close>

definition scheduler_native_artifacts_for_key :: "native_artifact list \<Rightarrow> string \<Rightarrow> native_artifact list" where
  "scheduler_native_artifacts_for_key artifacts native =
     filter (\<lambda>a. scheduler_native_artifact_key (artifact_native_id a) = scheduler_native_artifact_key native) artifacts"

definition assert_artifact_cardinality :: "native_artifact list \<Rightarrow> string \<Rightarrow> nat \<Rightarrow> (scheduler_error, native_artifact option) result" where
  "assert_artifact_cardinality artifacts native expected =
     (let matches = scheduler_native_artifacts_for_key artifacts native in
      if length matches \<noteq> expected then Inl (Cardinality_Violated (length matches))
      else Inr (case matches of [] \<Rightarrow> None | a # _ \<Rightarrow> Some a))"

definition workflow_ref_digests_to :: "(string \<Rightarrow> string) \<Rightarrow> string \<Rightarrow> string \<Rightarrow> bool" where
  "workflow_ref_digests_to hash ref native \<longleftrightarrow> list_ex (\<lambda>ordinal. digest_binding_id hash Workflow_Source ref ordinal = native) [0..<4096]"

text \<open>\<open>schedulerNativeArtifactOwner\<close>: the logical id and kind an invocation proves.\<close>

definition scheduler_native_artifact_owner :: "(string \<Rightarrow> string) \<Rightarrow> string \<Rightarrow> string list \<Rightarrow> (string \<times> source_kind) option" where
  "scheduler_native_artifact_owner hash native invocation = (case invocation of
     [a, b, ref] \<Rightarrow>
       if a = ''workflow'' \<and> b = ''run'' then
         (if ref \<noteq> '''' \<and> workflow_ref_digests_to hash ref native then Some (native, Workflow_Source) else None)
       else if a = ''task'' \<and> b = ''run'' \<and> ref \<noteq> '''' then
         Some (if scheduler_native_binding_id hash ref = native then ref else native, Task_Source) else None
   | a # b # task # _ \<Rightarrow>
       if a = ''task'' \<and> b = ''run'' \<and> task \<noteq> '''' then
         Some (if scheduler_native_binding_id hash task = native then task else native, Task_Source) else None
   | _ \<Rightarrow> None)"

definition assert_native_artifact_owner ::
    "(string \<Rightarrow> string) \<Rightarrow> string \<Rightarrow> scheduler_binding \<Rightarrow> string list option \<Rightarrow> (scheduler_error, unit) result" where
  "assert_native_artifact_owner hash native intended invocation =
     (if native = scheduler_binding_native_id hash intended \<and> invocation = Some (binding_invocation intended) then Inr ()
      else Inl Artifact_Owned_By_Other)"

text \<open>\<open>canonicalSchedulerIdentity\<close>: the binding id, the native id and the invocation a source and an ordinal stand for.\<close>

definition canonical_scheduler_identity ::
    "(string \<Rightarrow> string) \<Rightarrow> logical_source \<Rightarrow> nat \<Rightarrow> string list \<Rightarrow> (scheduler_error, string \<times> string \<times> string list) result" where
  "canonical_scheduler_identity hash src ordinal invocation =
     bind_result (lift_error Bad_Ref (parse_bundle_ref (logical_ref src))) (\<lambda>p.
       if ref_bundle p = None \<or> ref_bundle p = Some '''' \<or> ref_fragment p \<noteq> None then Inl Source_Not_Canonical
       else bind_result (lift_error Bad_Ref (bundle_ref_to_string p)) (\<lambda>text.
         if text \<noteq> logical_ref src then Inl Source_Not_Canonical
         else case logical_kind src of
           Workflow_Source \<Rightarrow>
             (let canonical = [''workflow'', ''run'', logical_ref src] in
              if invocation \<noteq> canonical then Inl Workflow_Invocation_Mismatch
              else let bid = digest_binding_id hash Workflow_Source (logical_ref src) ordinal in Inr (bid, bid, canonical))
         | Task_Source \<Rightarrow>
             (case invocation of
                a # b # task # _ \<Rightarrow>
                  if a \<noteq> ''task'' \<or> b \<noteq> ''run'' \<or> task = '''' then Inl Task_Id_Invalid
                  else bind_result (lift_error Bad_Task_Id (normalise_task_concept_id task)) (\<lambda>normal.
                    if normal \<noteq> task then Inl Task_Id_Invalid
                    else case ref_bundle p of None \<Rightarrow> Inl Source_Not_Canonical | Some bundle \<Rightarrow>
                      if invocation \<noteq> task_invocation task bundle [] then Inl Task_Invocation_Mismatch
                      else if concept_id p \<noteq> task \<and> concept_id p \<noteq> ''tasks/'' @ task then Inl Task_Source_Mismatch
                      else let bid = (if ordinal = 0 then task else digest_binding_id hash Task_Source (logical_ref src) ordinal)
                        in Inr (bid, scheduler_native_binding_id hash bid, invocation))
              | _ \<Rightarrow> Inl Task_Id_Invalid)))"

definition assert_expectation_identity ::
    "(string \<Rightarrow> string) \<Rightarrow> mutation_expectation \<Rightarrow> scheduler_binding option \<Rightarrow> (scheduler_error, unit) result" where
  "assert_expectation_identity hash e b =
     bind_result (canonical_scheduler_identity hash (expected_source e) (expected_ordinal e) (expected_invocation e)) (\<lambda>(bid, native, invocation).
       if bid \<noteq> expected_binding_id e \<or> native \<noteq> expected_native_id e \<or> invocation \<noteq> expected_invocation e
          \<or> (case b of None \<Rightarrow> False | Some b \<Rightarrow>
               binding_id b \<noteq> expected_binding_id e \<or> scheduler_binding_native_id hash b \<noteq> expected_native_id e
               \<or> binding_ordinal b \<noteq> expected_ordinal e \<or> logical_kind (binding_source b) \<noteq> logical_kind (expected_source e)
               \<or> logical_ref (binding_source b) \<noteq> logical_ref (expected_source e) \<or> binding_invocation b \<noteq> expected_invocation e)
       then Inl Forged_Identity
       else if expected_state_of e = Absent \<and> expected_fingerprint e \<noteq> None then Inl Absent_With_State
       else Inr ())"

definition assert_removal_artifact ::
    "(string \<Rightarrow> string) \<Rightarrow> string \<Rightarrow> mutation_expectation \<Rightarrow> string list option \<Rightarrow> string option \<Rightarrow> (scheduler_error, unit) result" where
  "assert_removal_artifact hash native e invocation fingerprint =
     (let normalized = e\<lparr>expected_state_of := Present\<rparr> in
      bind_result (assert_expectation_identity hash normalized None) (\<lambda>_.
        if native = expected_native_id normalized \<and> invocation = Some (expected_invocation normalized)
           \<and> (expected_fingerprint normalized = None \<or> expected_fingerprint normalized = fingerprint)
        then Inr () else Inl Removal_Unverified))"

definition assert_mutation_artifact ::
    "(string \<Rightarrow> string) \<Rightarrow> native_artifact option \<Rightarrow> mutation_expectation \<Rightarrow> (scheduler_error, unit) result" where
  "assert_mutation_artifact hash artifact e =
     bind_result (assert_expectation_identity hash e None) (\<lambda>_.
       case expected_state_of e of
         Absent \<Rightarrow> if artifact = None then Inr () else Inl Artifact_Changed
       | Present \<Rightarrow> (case artifact of
           None \<Rightarrow> Inl Artifact_Changed
         | Some a \<Rightarrow>
             if artifact_native_id a = expected_native_id e \<and> artifact_binding_id a = Some (expected_binding_id e)
                \<and> artifact_invocation a \<noteq> None \<and> expected_fingerprint e \<noteq> None \<and> artifact_fingerprint a = expected_fingerprint e
             then Inr () else Inl Artifact_Changed))"

text \<open>The states a transaction may have left an artifact in; rollback goes ahead over no other.\<close>

datatype rollback_state = Rollback_Absent | Rollback_Present "string option" "string list option" string

definition rollback_state_matches :: "native_artifact option \<Rightarrow> string \<Rightarrow> rollback_state \<Rightarrow> bool" where
  "rollback_state_matches artifact native st = (case st of
     Rollback_Absent \<Rightarrow> artifact = None
   | Rollback_Present bid invocation fingerprint \<Rightarrow> (case artifact of
       None \<Rightarrow> False
     | Some a \<Rightarrow> artifact_native_id a = native \<and> artifact_fingerprint a = Some fingerprint \<and> artifact_binding_id a = bid
         \<and> artifact_invocation a = invocation))"

definition assert_rollback_artifact :: "native_artifact option \<Rightarrow> string \<Rightarrow> rollback_state list \<Rightarrow> (scheduler_error, unit) result" where
  "assert_rollback_artifact artifact native allowed =
     (if list_ex (rollback_state_matches artifact native) allowed then Inr () else Inl Rollback_Over_Change)"

definition assert_rollback_cardinality ::
    "native_artifact list \<Rightarrow> string \<Rightarrow> rollback_state list \<Rightarrow> (scheduler_error, native_artifact option) result" where
  "assert_rollback_cardinality artifacts native allowed =
     (let matches = scheduler_native_artifacts_for_key artifacts native in
      if length matches > 1 then Inl Rollback_Cardinality
      else let artifact = (case matches of [] \<Rightarrow> None | a # _ \<Rightarrow> Some a)
        in bind_result (assert_rollback_artifact artifact native allowed) (\<lambda>_. Inr artifact))"

definition scheduler_binding_ordinal :: "(string \<Rightarrow> string) \<Rightarrow> string \<Rightarrow> logical_source \<Rightarrow> string list \<Rightarrow> nat option" where
  "scheduler_binding_ordinal hash bid src invocation =
     (if logical_kind src = Task_Source \<and> length invocation > 2 \<and> bid = invocation ! 2 then Some 0
      else List.find (\<lambda>ordinal. digest_binding_id hash (logical_kind src) (logical_ref src) ordinal = bid) [0..<4096])"

section \<open>Expectations of a plan\<close>

definition expectation_for_binding :: "(string \<Rightarrow> string) \<Rightarrow> scheduler_binding \<Rightarrow> expected_state \<Rightarrow> string option \<Rightarrow> mutation_expectation" where
  "expectation_for_binding hash b st fingerprint =
     \<lparr>expected_state_of = st, expected_binding_id = binding_id b, expected_native_id = scheduler_binding_native_id hash b,
      expected_source = binding_source b, expected_ordinal = binding_ordinal b, expected_invocation = binding_invocation b,
      expected_fingerprint = fingerprint\<rparr>"

section \<open>Which compiled bindings the backends accept\<close>

lemma normal_task_id:
  assumes "normalise_task_concept_id raw = Inr task"
  shows "task = js_trim raw" "normalise_task_concept_id task = Inr task" "task \<noteq> ''''"
proof -
  show task: "task = js_trim raw" and "task \<noteq> ''''"
    using assms by (auto simp: normalise_task_concept_id_def validate_task_concept_id_def Let_def bind_result_Inr_iff split: if_splits)
  show "normalise_task_concept_id task = Inr task" using assms unfolding task normalise_task_concept_id_def js_trim_idem .
qed

lemma qualified_ref:
  assumes "assert_qualified_ref ref kind = Inr p"
  shows "parse_bundle_ref ref = Inr p" "\<exists>b. ref_bundle p = Some b \<and> b \<noteq> ''''" "ref_fragment p = None" "bundle_ref_to_string p = Inr ref"
  using assms by (auto simp: assert_qualified_ref_def lift_error_def bind_result_Inr_iff split: sum.splits if_splits)

lemma tail_empty: "scheduler_input_flag_tail dt inputs = [] \<longleftrightarrow> inputs = None \<or> inputs = Some []"
proof (cases inputs)
  case (Some fs)
  have "scheduler_input_flag_tail dt (Some fs) \<noteq> []" if "fs \<noteq> []"
  proof -
    note ne = that
    obtain k v es where fs: "fs = (k, v) # es" using ne by (cases fs) auto
    then have "k \<in> set (sort (keys fs))" "field fs k = Some v" by (simp_all add: field_def set_insort_key)
    moreover have "scheduler_input_flags k t \<noteq> []" for t by (simp add: scheduler_input_flags_def)
    ultimately show ?thesis unfolding scheduler_input_flag_tail_def option.case concat_eq_Nil_conv by fastforce
  qed
  then show ?thesis using Some by (cases fs) (simp_all add: scheduler_input_flag_tail_def)
qed (simp add: scheduler_input_flag_tail_def)

lemma task_identity:
  assumes "normalise_task_concept_id task = Inr task" "task \<noteq> ''''" "assert_qualified_ref ref Task_Source = Inr p"
    "ref_bundle p = Some bundle" "concept_id p = task \<or> concept_id p = ''tasks/'' @ task"
  shows "canonical_scheduler_identity hash \<lparr>logical_kind = Task_Source, logical_ref = ref\<rparr> ordinal (task_invocation task bundle flags) =
    (if flags = [] then
       let bid = (if ordinal = 0 then task else digest_binding_id hash Task_Source ref ordinal)
       in Inr (bid, scheduler_native_binding_id hash bid, task_invocation task bundle [])
     else Inl Task_Invocation_Mismatch)"
  using assms qualified_ref [OF assms(3)]
  by (auto simp: canonical_scheduler_identity_def lift_error_def task_invocation_def Let_def)

text \<open>C38: every backend checks the identity of a binding before it writes anything.  A binding compiled from a schedule entry of a
  task passes that check exactly when the entry supplies no inputs: the check rebuilds the command line without the flags that
  carry them and refuses the binding as a mismatch.\<close>

theorem installable_unless_inputs_are_scheduled:
  assumes "compile_task_scheduler_bindings hash dt raw_id ref enabled schedules = Inr bindings"
    "parse_bundle_ref ref = Inr p" "normalise_task_concept_id raw_id = Inr task" "concept_id p \<in> {task, ''tasks/'' @ task}"
    "(s, b) \<in> set (zip schedules bindings)"
  shows "assert_expectation_identity hash (expectation_for_binding hash b Absent None) (Some b) =
    (if schedule_inputs s = None \<or> schedule_inputs s = Some [] then Inr () else Inl Task_Invocation_Mismatch)"
proof -
  have q: "assert_qualified_ref ref Task_Source = Inr p"
  proof -
    obtain p' where "assert_qualified_ref ref Task_Source = Inr p'"
      using assms(1) unfolding compile_task_scheduler_bindings_def bind_result_Inr_iff by blast
    then show ?thesis using qualified_ref(1) [of ref Task_Source p'] assms(2) by simp
  qed
  then obtain owner where owner: "ref_bundle p = Some owner" using qualified_ref(2) by blast
  define bid where "bid = (if schedule_ordinal s = 0 then task else digest_binding_id hash Task_Source ref (schedule_ordinal s))"
  have b: "b = \<lparr>binding_id = bid, binding_native = Some (scheduler_native_binding_id hash bid),
      binding_source = \<lparr>logical_kind = Task_Source, logical_ref = ref\<rparr>,
      binding_cron = schedule_cron s, binding_origin = schedule_source s, binding_ordinal = schedule_ordinal s,
      binding_enabled = (case schedule_enabled s of Some e \<Rightarrow> e | None \<Rightarrow> enabled),
      binding_invocation = task_invocation task owner (scheduler_input_flag_tail dt (schedule_inputs s)), evidence_digest = None\<rparr>"
    using assms(1,3,5) q owner
    by (auto simp: compile_task_scheduler_bindings_def lift_error_def zip_map2 Let_def bid_def in_set_zip)
  define flags where "flags = scheduler_input_flag_tail dt (schedule_inputs s)"
  have "concept_id p = task \<or> concept_id p = ''tasks/'' @ task" using assms(4) by simp
  note id = task_identity [OF normal_task_id(2,3) [OF assms(3)] q owner this, of hash "schedule_ordinal s" flags]
  have "assert_expectation_identity hash (expectation_for_binding hash b Absent None) (Some b) = (if flags = [] then Inr () else Inl Task_Invocation_Mismatch)"
    using id by (cases "flags = []")
      (simp_all add: assert_expectation_identity_def expectation_for_binding_def b scheduler_binding_native_id_def Let_def bid_def flags_def [symmetric])
  then show ?thesis by (simp add: flags_def tail_empty)
qed

definition sample_schedule :: "json_object option \<Rightarrow> source_schedule" where
  "sample_schedule inputs = \<lparr>schedule_cron = ''0 8 * * 1'', schedule_source = ''schedule[0].cron'', schedule_ordinal = 0,
     schedule_enabled = Some True, schedule_inputs = inputs\<rparr>"

theorem installable_unless_inputs_are_scheduled_witness:
  "\<exists>b c. compile_task_scheduler_bindings id (\<lambda>r. []) ''nightly'' ''team//tasks/nightly'' True
      [sample_schedule None, sample_schedule (Some [(''zone'', JStr ''west'')])] = Inr [b, c] \<and>
    assert_expectation_identity id (expectation_for_binding id b Absent None) (Some b) = Inr () \<and>
    assert_expectation_identity id (expectation_for_binding id c Absent None) (Some c) = Inl Task_Invocation_Mismatch"
proof -
  let ?compiled = "compile_task_scheduler_bindings id (\<lambda>r. []) ''nightly'' ''team//tasks/nightly'' True
      [sample_schedule None, sample_schedule (Some [(''zone'', JStr ''west'')])]"
  have p: "parse_bundle_ref ''team//tasks/nightly'' = Inr \<lparr>ref_bundle = Some ''team'', concept_id = ''tasks/nightly'', ref_fragment = None\<rparr>"
    by code_simp
  have t: "normalise_task_concept_id ''nightly'' = Inr ''nightly''" by code_simp
  have q: "assert_qualified_ref ''team//tasks/nightly'' Task_Source = Inr \<lparr>ref_bundle = Some ''team'', concept_id = ''tasks/nightly'', ref_fragment = None\<rparr>"
    by code_simp
  obtain b c where bs: "?compiled = Inr [b, c]"
    by (simp add: compile_task_scheduler_bindings_def t q lift_error_def)
  note installable = installable_unless_inputs_are_scheduled [OF bs p t]
  have "assert_expectation_identity id (expectation_for_binding id b Absent None) (Some b) = Inr ()"
    using installable [of "sample_schedule None" b] by (simp add: sample_schedule_def)
  moreover have "assert_expectation_identity id (expectation_for_binding id c Absent None) (Some c) = Inl Task_Invocation_Mismatch"
    using installable [of "sample_schedule (Some [(''zone'', JStr ''west'')])" c] by (simp add: sample_schedule_def)
  ultimately show ?thesis using bs by blast
qed

end
