(* ===== verification/Scheduled_Inputs.thy ===== *)
theory Scheduled_Inputs
  imports Scheduler_Binding
begin

text \<open>
  What a scheduler fires and what the command makes of it: the grammar of public invocations in
  \<^verbatim>\<open>src/tasks/scheduler-invocation.ts\<close>, the scanner of input flags in \<^verbatim>\<open>src/commands/tasks/tasks-cli.ts\<close>, and the way of a scheduled
  input from its schedule entry through the command line to the run.
\<close>

section \<open>Public invocations\<close>

fun valid_input_flag_tail :: "string list \<Rightarrow> string list \<Rightarrow> bool" where
  "valid_input_flag_tail seen [] = True"
| "valid_input_flag_tail seen (token # rest) =
     (if token = '''' \<or> \<not> js_starts_with ''--'' token then False
      else let body = drop 2 token in
        case index_of ''='' body of
          Some i \<Rightarrow>
            (let name = take i body in
             if \<not> input_name name \<or> name \<in> set seen then False else valid_input_flag_tail (name # seen) rest)
        | None \<Rightarrow>
            if \<not> input_name body \<or> body \<in> set seen then False
            else (case rest of
                [] \<Rightarrow> False
              | v # rest' \<Rightarrow> if js_starts_with ''-'' v then False else valid_input_flag_tail (body # seen) rest'))"

definition is_valid_scheduler_input_flag_tail :: "string list \<Rightarrow> bool" where
  "is_valid_scheduler_input_flag_tail tail' = valid_input_flag_tail [] tail'"

text \<open>The invocation and its bundle, of a task or of a workflow.\<close>

definition parse_public_scheduler_invocation :: "string list \<Rightarrow> (string list \<times> string option) option" where
  "parse_public_scheduler_invocation invocation = (case invocation of
     a # b # c # rest \<Rightarrow>
       if a = ''task'' \<and> b = ''run'' \<and> c \<noteq> '''' then
         (if normalise_task_concept_id c \<noteq> Inr c then None
          else case (case rest of
              d # e # rest' \<Rightarrow> if d = ''--bundle'' then (if e = '''' then None else Some (Some e, rest')) else Some (None, rest)
            | [d] \<Rightarrow> if d = ''--bundle'' then None else Some (None, rest)
            | [] \<Rightarrow> Some (None, [])) of
              None \<Rightarrow> None
            | Some (target, tokens) \<Rightarrow> (case tokens of
                [] \<Rightarrow> None
              | t # flags \<Rightarrow> if t \<noteq> ''--scheduled'' then None
                  else if is_valid_scheduler_input_flag_tail flags then Some (invocation, target) else None))
       else if a \<noteq> ''workflow'' \<or> b \<noteq> ''run'' \<or> rest \<noteq> [] \<or> c = '''' then None
       else (case parse_bundle_ref c of
           Inl _ \<Rightarrow> None
         | Inr p \<Rightarrow>
             if ref_bundle p = None \<or> ref_bundle p = Some '''' \<or> ref_fragment p \<noteq> None \<or> bundle_ref_to_string p \<noteq> Inr c then None
             else Some (invocation, ref_bundle p))
   | _ \<Rightarrow> None)"

section \<open>The flags of a command line\<close>

datatype scan_error = Positional_After_Dashes | Flags_Before_Id | Unexpected_Positional string

text \<open>A token that is a value: no dash, a lone dash, or a dash before a digit.\<close>

definition dash_digit :: "string \<Rightarrow> bool" where
  "dash_digit s = (case s of a # b # _ \<Rightarrow> a = CHR ''-'' \<and> js_digit b | _ \<Rightarrow> False)"

function scan_input_flags :: "string \<Rightarrow> bool \<Rightarrow> string list \<Rightarrow> (scan_error, input_flag list) result" where
  "scan_input_flags task seen [] = Inr []"
| "scan_input_flags task seen (token # rest) =
     (if token = ''--'' then Inl Positional_After_Dashes
      else if \<not> js_starts_with ''-'' token \<or> token = ''-'' \<or> dash_digit token then
        (if \<not> seen then (if token \<noteq> task then Inl Flags_Before_Id else scan_input_flags task True rest)
         else Inl (Unexpected_Positional token))
      else if \<not> js_starts_with ''--'' token then scan_input_flags task seen rest
      else let body = drop 2 token;
             name = (case index_of ''='' body of None \<Rightarrow> body | Some i \<Rightarrow> take i body);
             inline_value = map_option (\<lambda>i. drop (i + 1) body) (index_of ''='' body) in
        if name \<in> set task_run_value_flags then scan_input_flags task seen (if inline_value = None then drop 1 rest else rest)
        else if name \<in> set task_run_boolean_flags then scan_input_flags task seen rest
        else if \<not> seen then Inl Flags_Before_Id
        else case inline_value of
          Some v \<Rightarrow> map_result (Cons (name, Text v)) (scan_input_flags task seen rest)
        | None \<Rightarrow>
            (case rest of
               [] \<Rightarrow> Inr [(name, Switch True)]
             | v # rest' \<Rightarrow>
                 if \<not> js_starts_with ''-'' v \<or> dash_digit v then map_result (Cons (name, Text v)) (scan_input_flags task seen rest')
                 else map_result (Cons (name, Switch True)) (scan_input_flags task seen rest)))"
  by pat_completeness auto
termination
  by (relation "measure (\<lambda>(task, seen, tokens). length tokens)") auto

definition parse_task_input_flags :: "string list \<Rightarrow> string \<Rightarrow> (scan_error, input_flag list) result" where
  "parse_task_input_flags raw_args task = scan_input_flags task False raw_args"

section \<open>The flags of a schedule entry are scanned back\<close>

lemma input_name_chars:
  assumes "input_name n" shows "n \<noteq> ''''" "CHR ''='' \<notin> set n" "hd n \<noteq> CHR ''-''"
  using assms by (auto simp: input_name_def js_letter_def js_upper_def js_lower_def js_digit_def list_all_iff split: list.splits)

lemma index_of_char_free: "c \<notin> set s \<Longrightarrow> index_of [c] s = None"
  by (induction s) (auto simp: js_starts_with_def)

lemma index_of_char: "c \<notin> set s \<Longrightarrow> index_of [c] (s @ c # t) = Some (length s)"
  by (induction s) (auto simp: js_starts_with_def)

definition own_flag :: "string \<Rightarrow> bool" where
  "own_flag n \<longleftrightarrow> n \<in> set task_run_value_flags \<or> n \<in> set task_run_boolean_flags"

lemma scan_flag:
  assumes "input_name n" "\<not> own_flag n"
  shows "scan_input_flags task True (scheduler_input_flags n t @ rest) = map_result (Cons (n, Text t)) (scan_input_flags task True rest)"
proof -
  note n = input_name_chars [OF assms(1)]
  have own: "n \<notin> set task_run_value_flags" "n \<notin> set task_run_boolean_flags" using assms(2) by (auto simp: own_flag_def)
  have eq: "index_of ''='' n = None" "index_of ''='' (n @ CHR ''='' # t) = Some (length n)"
    using index_of_char_free [OF n(2)] index_of_char [OF n(2)] by auto
  show ?thesis
    using n(1) own eq
    by (cases "js_starts_with ''-'' t")
      (auto simp: scheduler_input_flags_def js_starts_with_def dash_digit_def js_digit_def Let_def split: list.splits)
qed

lemma map_result_Inr [simp]: "map_result f (Inr v) = Inr (f v)"
  by (simp add: map_result_def)

lemma scan_tail:
  assumes "\<forall>n \<in> set ns. input_name n \<and> \<not> own_flag n"
  shows "scan_input_flags task True (concat (map (\<lambda>n. scheduler_input_flags n (t n)) ns)) = Inr (map (\<lambda>n. (n, Text (t n))) ns)"
  using assms by (induction ns) (simp_all add: scan_flag)

lemma valid_tail:
  assumes "\<forall>n \<in> set ns. input_name n" "distinct ns" "set ns \<inter> set seen = {}"
  shows "valid_input_flag_tail seen (concat (map (\<lambda>n. scheduler_input_flags n (t n)) ns))"
  using assms
proof (induction ns arbitrary: seen)
  case (Cons n ns)
  have n: "input_name n" "n \<notin> set seen" using Cons.prems by auto
  have eq: "index_of ''='' n = None" "index_of ''='' (n @ CHR ''='' # t n) = Some (length n)"
    using index_of_char_free input_name_chars(2) [OF n(1)] index_of_char by auto
  have ih: "valid_input_flag_tail (n # seen) (concat (map (\<lambda>n. scheduler_input_flags n (t n)) ns))"
    by (rule Cons.IH) (use Cons.prems in auto)
  show ?case
    using n eq ih input_name_chars(1) [OF n(1)]
    by (cases "js_starts_with ''-'' (t n)") (auto simp: scheduler_input_flags_def js_starts_with_def Let_def)
qed simp

lemma tail_names:
  assumes "distinct (keys fs)"
  shows "scheduler_input_flag_tail dt (Some fs) =
    concat (map (\<lambda>n. scheduler_input_flags n (scheduler_input_value_text dt (the (field fs n)))) (sort (keys fs)))"
proof -
  have "\<exists>v. field fs n = Some v" if "n \<in> set (sort (keys fs))" for n
    using that by (metis field_def map_of_eq_None_iff not_None_eq set_sort list.set_map)
  then show ?thesis unfolding scheduler_input_flag_tail_def option.case
    by (intro arg_cong [where f = concat] map_cong refl) (metis option.case(2) option.sel)
qed

lemma task_id_token:
  assumes "normalise_task_concept_id task = Inr task" shows "\<not> js_starts_with ''-'' task" "task \<noteq> ''''"
proof -
  show ne: "task \<noteq> ''''" using normal_task_id(3) [OF assms] .
  then obtain x xs where task: "task = x # xs" by (cases task) auto
  have "\<forall>seg \<in> set (split_on CHR ''/'' task). seg \<noteq> '''' \<and> (\<exists>v. validate_task_id seg = Inr v)"
    using assms normal_task_id(1) [OF assms]
    by (auto simp: normalise_task_concept_id_def validate_task_concept_id_def Let_def bind_result_Inr_iff mapM_result_Inr_iff list_all2_conv_all_nth
        list_ex_iff in_set_conv_nth split: if_splits)
  moreover obtain y ys where "split_on CHR ''/'' xs = y # ys" by (cases "split_on CHR ''/'' xs") auto
  ultimately have "x \<noteq> CHR ''/'' \<and> (\<exists>v. validate_task_id (x # y) = Inr v)" by (auto simp: task split: if_splits)
  then have "js_letter x \<or> js_digit x" by (auto simp: validate_task_id_def valid_task_id_def split: if_splits)
  then show "\<not> js_starts_with ''-'' task"
    by (auto simp: task js_starts_with_def js_letter_def js_upper_def js_lower_def js_digit_def)
qed

section \<open>The values of a schedule entry are read back\<close>

text \<open>A value whose text, read by the declared types, is that value again.  Left out are: a string that starts with a bracket, when the
  declaration also permits arrays; a number, a boolean, a null or an object, when it also permits strings or declares no type at all;
  an array, when it declares no type; and a number beyond the safe integers, when it declares integers but not numbers.\<close>

definition unambiguous :: "string list \<Rightarrow> json \<Rightarrow> bool" where
  "unambiguous types v \<longleftrightarrow> (case v of
     JStr s \<Rightarrow> \<not> (''array'' \<in> set types \<and> js_starts_with ''['' (js_trim s))
   | JArr xs \<Rightarrow> types \<noteq> []
   | JNum r \<Rightarrow> types \<noteq> [] \<and> ''string'' \<notin> set types \<and> (''number'' \<in> set types \<or> \<bar>r\<bar> \<le> 9007199254740991)
   | _ \<Rightarrow> types \<noteq> [] \<and> ''string'' \<notin> set types)"

definition read_as :: "string \<Rightarrow> json \<Rightarrow> bool" where
  "read_as type w \<longleftrightarrow> (case w of
     JBool b \<Rightarrow> type = ''boolean'' | JNull \<Rightarrow> type = ''null'' | JObj fs \<Rightarrow> type = ''object'' | JArr xs \<Rightarrow> type = ''array''
   | JNum r \<Rightarrow> type = ''number'' \<or> type = ''integer'' \<and> is_integer r \<and> \<bar>r\<bar> \<le> 9007199254740991
   | JStr s \<Rightarrow> False)"

definition numeric_only :: "json \<Rightarrow> json option" where
  "numeric_only w = (case w of JNum r \<Rightarrow> Some w | _ \<Rightarrow> None)"

lemma if_chain:
  "(x = a \<Longrightarrow> A = r) \<Longrightarrow> (x = b \<Longrightarrow> B = r) \<Longrightarrow> (x = c \<Longrightarrow> C = r) \<Longrightarrow> (x = d \<Longrightarrow> D = r) \<Longrightarrow> (x = e \<Longrightarrow> E = r) \<Longrightarrow> (x = f \<Longrightarrow> F = r)
   \<Longrightarrow> (x \<noteq> a \<Longrightarrow> x \<noteq> b \<Longrightarrow> x \<noteq> c \<Longrightarrow> x \<noteq> d \<Longrightarrow> x \<noteq> e \<Longrightarrow> x \<noteq> f \<Longrightarrow> G = r)
   \<Longrightarrow> (if x = a then A else if x = b then B else if x = c then C else if x = d then D else if x = e then E else if x = f then F else G) = r"
  by simp

text \<open>A text that is the JSON of a value is taken for that value by the types it belongs to, and for nothing by the others.\<close>

lemma coerce_to_type_read:
  assumes "parse_json raw = Some w" "raw = ''true'' \<longleftrightarrow> w = JBool True" "raw = ''false'' \<longleftrightarrow> w = JBool False" "raw = ''null'' \<longleftrightarrow> w = JNull"
    "numeric_value finite_value raw = numeric_only w" "numeric_value safe_integer raw = (if read_as ''integer'' w then Some w else None)"
  shows "coerce_to_type n raw type = Inr (if read_as type w then Some w else None)"
  unfolding coerce_to_type_def
proof (rule if_chain, goal_cases)
  case 1
  then show ?case using assms(2,3) by (cases w) (auto simp: read_as_def)
next
  case 2
  then show ?case using assms(5) by (cases w) (simp_all add: read_as_def numeric_only_def)
next
  case 3
  then show ?case using assms(6) by simp
next
  case 4
  then show ?case using assms(4) by (cases w) (simp_all add: read_as_def)
next
  case 5
  then show ?case using assms(1) by (cases w) (simp_all add: read_as_def parse_json_flag_def map_result_def is_record_def)
next
  case 6
  then show ?case using assms(1) by (cases w) (simp_all add: read_as_def parse_json_flag_def map_result_def)
next
  case 7
  then show ?case by (cases w) (simp_all add: read_as_def)
qed

lemma coerce_finds:
  assumes "\<And>t. coerce_to_type n raw t = Inr (if read_as t w then Some w else None)" "list_ex (\<lambda>t. read_as t w) types"
  shows "coerce_to_types n raw types = Inr (Some w)"
  using assms(2) by (induction types) (auto simp: assms(1))

lemma trim_not_empty: "c \<in> set s \<Longrightarrow> \<not> js_space c \<Longrightarrow> js_trim s \<noteq> ''''"
  using trim_split [of s] by (metis append.assoc append_Nil append_is_Nil_conv in_set_conv_decomp set_append Un_iff)

lemma not_numeric: "finite_value (number_of_text ''true'') = None" "safe_integer (number_of_text ''true'') = None"
  "finite_value (number_of_text ''false'') = None" "safe_integer (number_of_text ''false'') = None"
  "finite_value (number_of_text ''null'') = None" "safe_integer (number_of_text ''null'') = None"
  by code_simp+

lemma parse_words: "parse_json ''true'' = Some (JBool True)" "parse_json ''false'' = Some (JBool False)" "parse_json ''null'' = Some JNull"
  using json_texts.dec_enc [of undefined "JBool True"] json_texts.dec_enc [of undefined "JBool False"] json_texts.dec_enc [of undefined JNull] by simp_all

lemma brackets_trimmed:
  assumes "\<not> js_space a" "\<not> js_space b" shows "js_trim (a # s @ [b]) = a # s @ [b]"
  by (rule js_trim_id) (simp add: trimmed_def assms)

lemma brace_not_numeric: "number_of_text (CHR ''{'' # s @ [CHR ''}'']) = Not_A_Number"
proof -
  have "js_trim (CHR ''{'' # s @ [CHR ''}'']) = CHR ''{'' # s @ [CHR ''}'']" by (rule brackets_trimmed) (simp_all add: js_space_def)
  then show ?thesis
    by (auto simp: number_of_text_def Let_def prefixed_base_def split_sign_def unsigned_decimal_def js_digit_def split: list.split)
qed

definition typed :: "string list \<Rightarrow> json \<Rightarrow> bool" where
  "typed types v \<longleftrightarrow> types = [] \<or> list_ex (matches_type (type_of v)) types"

lemma read_as_typed:
  assumes "typed types w" "types \<noteq> []" "\<not> (\<exists>s. w = JStr s)" "\<And>r. w = JNum r \<Longrightarrow> ''number'' \<in> set types \<or> \<bar>r\<bar> \<le> 9007199254740991"
  shows "list_ex (\<lambda>t. read_as t w) types"
  using assms by (cases w) (auto simp: typed_def list_ex_iff matches_type_def read_as_def split: if_splits)

lemma coerce_word:
  assumes "w \<in> {JBool True, JBool False, JNull}" "raw = (case w of JBool b \<Rightarrow> if b then ''true'' else ''false'' | _ \<Rightarrow> ''null'')"
  shows "coerce_to_type n raw t = Inr (if read_as t w then Some w else None)"
  by (rule coerce_to_type_read) (use assms parse_words not_numeric in \<open>auto simp: numeric_value_def numeric_only_def read_as_def\<close>)

lemma coerce_number:
  assumes "readable_number dt r" shows "coerce_to_type n (number_text dt r) t = Inr (if read_as t (JNum r) then Some (JNum r) else None)"
proof (rule coerce_to_type_read)
  let ?raw = "number_text dt r"
  note reads = number_text_reads [OF assms]
  obtain c cs where head: "?raw = c # cs" "js_digit c \<or> c = CHR ''-''" using json_number_head [OF reads(1)] by blast
  then have c: "c \<noteq> CHR ''t''" "c \<noteq> CHR ''f''" "c \<noteq> CHR ''n''" "\<not> js_space c" by (auto simp: js_digit_def js_space_def)
  then show "?raw = ''true'' \<longleftrightarrow> JNum r = JBool True" "?raw = ''false'' \<longleftrightarrow> JNum r = JBool False" "?raw = ''null'' \<longleftrightarrow> JNum r = JNull"
    using head(1) by simp_all
  have trim: "js_trim ?raw \<noteq> ''''" using head(1) c(4) by (intro trim_not_empty [of c]) auto
  show "parse_json ?raw = Some (JNum r)" using json_texts.dec_enc [of dt "JNum r"] assms by simp
  show "numeric_value finite_value ?raw = numeric_only (JNum r)"
    using trim by (simp add: numeric_value_def reads(3) finite_value_def numeric_only_def)
  show "numeric_value safe_integer ?raw = (if read_as ''integer'' (JNum r) then Some (JNum r) else None)"
    using trim by (simp add: numeric_value_def reads(3) safe_integer_def read_as_def is_integer_def)
qed

lemma canonical_object: "\<exists>s. canonical_input_json dt (JObj fs) = CHR ''{'' # s @ [CHR ''}'']"
  by (simp add: canonical_input_json_def)

lemma canonical_array: "\<exists>s. canonical_input_json dt (JArr xs) = CHR ''['' # s @ [CHR '']'']"
  by (simp add: canonical_input_json_def)

lemma canonical_parses: "keyed v \<Longrightarrow> numbers_readable dt v \<Longrightarrow> parse_json (canonical_input_json dt v) = Some (sort_input_json_keys v)"
  unfolding canonical_input_json_def by (intro canonical_texts.reads_canonical conjI)

lemma coerce_object:
  assumes "keyed (JObj fs)" "numbers_readable dt (JObj fs)"
  shows "coerce_to_type n (canonical_input_json dt (JObj fs)) t =
    Inr (if read_as t (sort_input_json_keys (JObj fs)) then Some (sort_input_json_keys (JObj fs)) else None)"
proof (rule coerce_to_type_read)
  let ?raw = "canonical_input_json dt (JObj fs)"
  obtain s where s: "?raw = CHR ''{'' # s @ [CHR ''}'']" using canonical_object by blast
  show "parse_json ?raw = Some (sort_input_json_keys (JObj fs))" by (rule canonical_parses [OF assms])
  have "number_of_text ?raw = Not_A_Number" unfolding s by (rule brace_not_numeric)
  then show "numeric_value finite_value ?raw = numeric_only (sort_input_json_keys (JObj fs))"
    "numeric_value safe_integer ?raw = (if read_as ''integer'' (sort_input_json_keys (JObj fs)) then Some (sort_input_json_keys (JObj fs)) else None)"
    by (simp_all add: numeric_value_def finite_value_def safe_integer_def numeric_only_def read_as_def)
  show "?raw = ''true'' \<longleftrightarrow> sort_input_json_keys (JObj fs) = JBool True" "?raw = ''false'' \<longleftrightarrow> sort_input_json_keys (JObj fs) = JBool False"
    "?raw = ''null'' \<longleftrightarrow> sort_input_json_keys (JObj fs) = JNull" by (simp_all add: s)
qed

lemma trim_head: "\<not> js_space c \<Longrightarrow> js_starts_with [d] (js_trim (c # s)) \<Longrightarrow> d = c"
proof -
  assume c: "\<not> js_space c" and d: "js_starts_with [d] (js_trim (c # s))"
  have "js_trim (c # s) = trim_end (c # s)" using c by (simp add: js_trim_def trim_start_def)
  moreover obtain w where "c # s = trim_end (c # s) @ w" using trim_end_split by blast
  ultimately show "d = c" using d by (cases "trim_end (c # s)") (auto simp: js_starts_with_def)
qed

lemma single_array: "typed types v \<Longrightarrow> ''array'' \<in> set types \<Longrightarrow> length types = 1 \<Longrightarrow> \<exists>xs. v = JArr xs"
  by (cases v) (auto simp: typed_def matches_type_def length_Suc_conv split: if_splits)

lemma text_not_array:
  assumes "\<not> (\<exists>s. v = JStr s)" "\<not> (\<exists>xs. v = JArr xs)" "numbers_readable dt v"
  shows "\<not> js_starts_with ''['' (js_trim (scheduler_input_value_text dt v))"
proof -
  have "\<exists>c s. scheduler_input_value_text dt v = c # s \<and> \<not> js_space c \<and> c \<noteq> CHR ''[''"
  proof (cases v)
    case (JNum r)
    then obtain c s where "number_text dt r = c # s" "js_digit c \<or> c = CHR ''-''"
      using json_number_head number_text_reads(1) assms(3) by (metis numbers_readable.simps(1))
    then show ?thesis using JNum by (auto simp: scheduler_input_value_text_def js_digit_def js_space_def)
  next
    case (JObj fs)
    obtain s where s: "canonical_input_json dt (JObj fs) = CHR ''{'' # s @ [CHR ''}'']" using canonical_object by blast
    show ?thesis using JObj by (simp add: scheduler_input_value_text_def s js_space_def)
  qed (use assms in \<open>auto simp: scheduler_input_value_text_def canonical_input_json_def js_space_def\<close>)
  then show ?thesis using trim_head by metis
qed

lemma materialized_input:
  assumes v: "keyed v" "numbers_readable dt v" and types: "typed (declared_types s) v" "unambiguous (declared_types s) v"
  shows "materialize_flag_values n [Text (scheduler_input_value_text dt v)] s = Inr (sort_input_json_keys v)"
proof -
  let ?types = "declared_types s"
  consider t where "v = JStr t" | xs where "v = JArr xs" | "\<not> (\<exists>t. v = JStr t)" "\<not> (\<exists>xs. v = JArr xs)" by blast
  then show ?thesis
  proof cases
    case 1
    have "?types = [] \<or> ''string'' \<in> set ?types" using types(1) 1 by (auto simp: typed_def list_ex_iff matches_type_def)
    moreover have "\<not> (''array'' \<in> set ?types \<and> js_starts_with ''['' (js_trim t))" using types(2) 1 by (simp add: unambiguous_def)
    moreover have "materialize_flag_values n [Text t] s = Inr (JStr t)" if "?types = []"
      using that by (simp add: materialize_flag_values_def coerce_flag_value_def schema_types_def)
    ultimately show ?thesis using materialized_exact_text [of s t n] by (auto simp: 1 scheduler_input_value_text_def)
  next
    case 2
    obtain t where t: "canonical_input_json dt v = CHR ''['' # t @ [CHR '']'']" using canonical_array 2 by blast
    have "js_trim (canonical_input_json dt v) = canonical_input_json dt v" unfolding t by (rule brackets_trimmed) (simp_all add: js_space_def)
    then have "js_starts_with ''['' (js_trim (canonical_input_json dt v))" by (simp add: t js_starts_with_def)
    moreover have "''array'' \<in> set ?types" using types 2 by (auto simp: typed_def unambiguous_def list_ex_iff matches_type_def)
    ultimately show ?thesis using canonical_parses [OF v] 2
      by (simp add: materialize_flag_values_def scheduler_input_value_text_def Let_def parse_json_flag_def)
  next
    case 3
    have ne: "?types \<noteq> []" "''string'' \<notin> set ?types" using types(2) 3 by (auto simp: unambiguous_def split: json.splits)
    have sorted: "type_of (sort_input_json_keys v) = type_of v" by simp
    have "list_ex (\<lambda>t. read_as t (sort_input_json_keys v)) ?types"
      by (rule read_as_typed) (use 3 types ne in \<open>auto simp: typed_def unambiguous_def sorted_shapes\<close>)
    moreover have "coerce_to_type n (scheduler_input_value_text dt v) t = Inr (if read_as t (sort_input_json_keys v) then Some (sort_input_json_keys v) else None)" for t
    proof (cases v)
      case JNull
      then show ?thesis using coerce_word [of JNull "''null''"] by (simp add: scheduler_input_value_text_def canonical_input_json_def)
    next
      case (JBool b)
      then show ?thesis using coerce_word [of "JBool b"] by (cases b) (simp_all add: scheduler_input_value_text_def)
    next
      case (JNum r)
      then show ?thesis using coerce_number [of dt r] v by (simp add: scheduler_input_value_text_def)
    next
      case (JObj fs)
      then show ?thesis using coerce_object [of fs dt] v by (simp add: scheduler_input_value_text_def)
    qed (use 3 in simp_all)
    ultimately have "coerce_to_types n (scheduler_input_value_text dt v) ?types = Inr (Some (sort_input_json_keys v))" by (rule coerce_finds [rotated])
    then have "coerce_flag_value n (Text (scheduler_input_value_text dt v)) (Some s) = Inr (sort_input_json_keys v)"
      using ne by (simp add: coerce_flag_value_def schema_types_def Let_def)
    then show ?thesis using text_not_array [OF 3 v(2)] single_array [OF types(1)] 3
      by (auto simp: materialize_flag_values_def Let_def)
  qed
qed

section \<open>From the schedule entry to the run\<close>

lemma accepted_typed:
  assumes "meaning n s = Some S" "accepts S v" shows "typed (declared_types s) v"
proof -
  obtain m where n: "n = Suc m" using assms(1) by (cases n) auto
  have "validate_node n False v s ''$'' = []" using validate_accepts [OF assms(1)] assms(2) by blast
  then show ?thesis unfolding n by (auto simp: typed_def Let_def split: if_splits)
qed

lemma accepts_sorted:
  assumes "meaning n s = Some S" "keyed v" shows "accepts S (sort_input_json_keys v) \<longleftrightarrow> accepts S v"
  using validate_accepts [OF assms(1), of False _ "''$''"] validate_sorted [OF assms(2), of n False s "''$''"] by blast

lemma parsed_names_from:
  assumes "parse_declarations_from dt fs acc = Inr c" "\<forall>n \<in> set (keys acc). input_name n \<and> \<not> own_flag n"
  shows "\<forall>n \<in> set (keys c). input_name n \<and> \<not> own_flag n"
  using assms
proof (induction dt fs acc rule: parse_declarations_from.induct)
  case (2 dt name raw rest acc)
  obtain d where d: "parse_declarations_from dt rest (assign_property name d acc) = Inr c"
      "parse_input_declaration dt name raw = Inr d"
    and ok: "input_name name" "name \<notin> set (task_run_value_flags @ task_run_boolean_flags @ task_run_self_diagnosed_flags)"
    using "2.prems"(1) by (auto simp: Let_def bind_result_Inr_iff split: if_splits)
  have "\<forall>n \<in> set (keys (assign_property name d acc)). input_name n \<and> \<not> own_flag n"
    using "2.prems"(2) ok set_assign_property [of name d acc] by (fastforce simp: own_flag_def)
  then show ?case using "2.IH" ok d by auto
qed simp

lemma parsed_names:
  "parse_input_declarations dt v = Inr c \<Longrightarrow> \<forall>n \<in> set (keys c). input_name n \<and> \<not> own_flag n"
  using parsed_names_from by (fastforce simp: parse_input_declarations_def bind_result_Inr_iff)

lemma group_singles:
  assumes "distinct (keys grouped @ ns)" "\<forall>n \<in> set ns. input_name n \<and> n \<in> fst ` set c"
  shows "group_flags c (map (\<lambda>n. (n, Text (t n))) ns) grouped = Inr (grouped @ map (\<lambda>n. (n, [Text (t n)])) ns)"
  using assms
proof (induction ns arbitrary: grouped)
  case (Cons n ns)
  have "n \<notin> set (keys grouped)" using Cons.prems by auto
  then have "map_of grouped n = None" "put_entry n [Text (t n)] grouped = grouped @ [(n, [Text (t n)])]"
    by (simp_all add: map_of_eq_None_iff put_entry_new)
  then show ?case using Cons.IH [of "grouped @ [(n, [Text (t n)])]"] Cons.prems by simp
qed simp

lemma materialize_singles:
  assumes "\<forall>n \<in> set ns. materialize_flag_values n [Text (t n)] (schema_for c n) = Inr (w n)"
  shows "mapM_result (\<lambda>(n, raws). map_result (Pair n) (materialize_flag_values n raws (schema_for c n))) (map (\<lambda>n. (n, [Text (t n)])) ns)
    = Inr (map (\<lambda>n. (n, w n)) ns)"
  using assms by (induction ns) simp_all

lemma field_of_names:
  assumes "distinct ns" shows "field (from_entries (map (\<lambda>n. (n, w n)) ns)) n = (if n \<in> set ns then Some (w n) else None)"
proof -
  have "distinct (keys (map (\<lambda>n. (n, w n)) ns))" using assms by (simp add: comp_def)
  moreover have "map_of (map (\<lambda>n. (n, w n)) ns) n = (if n \<in> set ns then Some (w n) else None)" by (induction ns) auto
  ultimately show ?thesis by (simp add: field_def from_entries_distinct)
qed

lemma satisfies_sorted:
  assumes "satisfies c obj"
    "\<And>n. field obj' n = field obj n \<or> (\<exists>v. field obj n = Some v \<and> keyed v \<and> field obj' n = Some (sort_input_json_keys v))"
  shows "satisfies c obj'"
  unfolding satisfies_def
proof clarify
  fix n d assume nd: "(n, d) \<in> set c"
  then have sat: "case field obj n of None \<Rightarrow> \<not> is_required d | Some v \<Rightarrow> \<exists>S. input_meaning d = Some S \<and> accepts S v"
    using assms(1) by (auto simp: satisfies_def)
  show "case field obj' n of None \<Rightarrow> \<not> is_required d | Some v \<Rightarrow> \<exists>S. input_meaning d = Some S \<and> accepts S v"
    using assms(2) [of n]
  proof
    assume "field obj' n = field obj n"
    then show ?thesis using sat by simp
  next
    assume "\<exists>v. field obj n = Some v \<and> keyed v \<and> field obj' n = Some (sort_input_json_keys v)"
    then show ?thesis using sat accepts_sorted unfolding input_meaning_def by fastforce
  qed
qed

lemma scheduled_inputs_deliver:
  assumes c: "sound_contract c" and names: "\<forall>n \<in> set (keys c). input_name n \<and> \<not> own_flag n"
    and keys: "set (keys obj) \<subseteq> set (keys c)" "keyed (JObj obj)" "numbers_readable dt (JObj obj)"
    and flags: "flags = map (\<lambda>n. (n, Text (scheduler_input_value_text dt (the (field obj n))))) (sort (keys obj))"
    and plain: "\<forall>(n, v) \<in> set obj. unambiguous (declared_types (schema_for c n)) v"
    and ok: "obj \<noteq> [] \<Longrightarrow> satisfies c obj" "satisfies c (apply_input_defaults c obj)"
  shows "\<exists>delivered. deliver_inputs c flags = Inr delivered \<and> (\<forall>n. field delivered n =
    (case field obj n of Some v \<Rightarrow> Some (sort_input_json_keys v) | None \<Rightarrow> Option.bind (map_of c n) declared_default))"
proof -
  have d: "distinct (keys obj)" using keys(2) by simp
  have entry: "(n, the (field obj n)) \<in> set obj" "field obj n = Some (the (field obj n))" if "n \<in> set (sort (keys obj))" for n
  proof -
    have "field obj n \<noteq> None" using that by (simp add: field_def map_of_eq_None_iff)
    then obtain v where "field obj n = Some v" by blast
    then show "(n, the (field obj n)) \<in> set obj" "field obj n = Some (the (field obj n))" by (auto simp: field_def dest: map_of_SomeD)
  qed
  have keyed: "keyed v" if "field obj n = Some v" for n v
    using that keys(2) by (auto simp: field_def list_all_iff dest!: map_of_SomeD)
  define m where "m = from_entries (map (\<lambda>n. (n, sort_input_json_keys (the (field obj n)))) (sort (keys obj)))"
  have m: "field m n = map_option sort_input_json_keys (field obj n)" for n
  proof (cases "field obj n")
    case None
    then have "n \<notin> set (sort (keys obj))" by (simp add: field_def map_of_eq_None_iff)
    then show ?thesis using None d by (simp add: m_def field_of_names)
  next
    case (Some v)
    then have "n \<in> set (keys obj)" by (force simp: field_def dest: map_of_SomeD)
    then show ?thesis using Some d by (simp add: m_def field_of_names)
  qed
  have sat_m: "satisfies c m" if "obj \<noteq> []"
  proof (rule satisfies_sorted [OF ok(1) [OF that]])
    show "field m n = field obj n \<or> (\<exists>v. field obj n = Some v \<and> keyed v \<and> field m n = Some (sort_input_json_keys v))" for n
      using m [of n] keyed [of n] by (cases "field obj n") auto
  qed
  have "materialize_input_flags c flags = Inr m"
  proof (cases "obj = []")
    case True
    then show ?thesis by (simp add: materialize_input_flags_def flags m_def from_entries_def enumerated_def)
  next
    case False
    have single: "materialize_flag_values n [Text (scheduler_input_value_text dt (the (field obj n)))] (schema_for c n)
        = Inr (sort_input_json_keys (the (field obj n)))" if "n \<in> set (sort (keys obj))" for n
    proof (rule materialized_input)
      note e = entry [OF that]
      show "keyed (the (field obj n))" "numbers_readable dt (the (field obj n))" using e(1) keys(2,3) by (auto simp: list_all_iff)
      show "unambiguous (declared_types (schema_for c n)) (the (field obj n))" using e(1) plain by auto
      have "n \<in> set (keys c)" using that keys(1) by auto
      then obtain dd where dd: "(n, dd) \<in> set c" "map_of c n = Some dd" using c by (auto simp: sound_contract_def)
      have "case field obj n of None \<Rightarrow> \<not> is_required dd | Some v \<Rightarrow> \<exists>S. input_meaning dd = Some S \<and> accepts S v"
        using ok(1) [OF False] dd(1) by (auto simp: satisfies_def)
      then obtain S where "input_meaning dd = Some S" "accepts S (the (field obj n))" by (subst (asm) e(2)) auto
      then show "typed (declared_types (schema_for c n)) (the (field obj n))"
        using accepted_typed dd(2) by (simp add: schema_for_def input_meaning_def)
    qed
    have "group_flags c flags [] = Inr (map (\<lambda>n. (n, [Text (scheduler_input_value_text dt (the (field obj n)))])) (sort (keys obj)))"
      unfolding flags by (subst group_singles) (use names subsetD [OF keys(1)] d in \<open>auto simp del: set_map simp: list.set_map [symmetric]\<close>)
    moreover have "flags \<noteq> []" using False unfolding flags by (metis length_0_conv length_map length_sort)
    moreover have "mapM_result (\<lambda>(n, raws). map_result (Pair n) (materialize_flag_values n raws (schema_for c n)))
        (map (\<lambda>n. (n, [Text (scheduler_input_value_text dt (the (field obj n)))])) (sort (keys obj)))
      = Inr (map (\<lambda>n. (n, sort_input_json_keys (the (field obj n)))) (sort (keys obj)))"
      using single by (intro materialize_singles) blast
    moreover have "validate_inputs ''$'' c m = []" using validate_inputs_ok [OF c] sat_m [OF False] by blast
    ultimately show ?thesis
      by (simp add: materialize_input_flags_def schema_for_def [symmetric] m_def [symmetric] Let_def)
  qed
  moreover have cc: "distinct (keys c)" "''__proto__'' \<notin> set (keys c)" using c by (auto simp: sound_contract_def)
  have dm: "distinct (keys m)" by (simp add: m_def)
  have f: "field (apply_input_defaults c m) n = (case field obj n of Some v \<Rightarrow> Some (sort_input_json_keys v) | None \<Rightarrow> Option.bind (map_of c n) declared_default)" for n
    using defaults_fields [OF dm cc, of n] m [of n] by (simp split: option.split)
  have "satisfies c (apply_input_defaults c m)"
  proof (rule satisfies_sorted [OF ok(2)])
    show "field (apply_input_defaults c m) n = field (apply_input_defaults c obj) n \<or> (\<exists>v. field (apply_input_defaults c obj) n = Some v \<and> keyed v
        \<and> field (apply_input_defaults c m) n = Some (sort_input_json_keys v))" for n
      using f [of n] defaults_fields [OF d cc, of n] keyed [of n] by (cases "field obj n") auto
  qed
  ultimately have "deliver_inputs c flags = Inr (apply_input_defaults c m)"
    using validate_inputs_ok [OF c] by (simp add: deliver_inputs_def Let_def)
  then show ?thesis using f by blast
qed

lemma parsed_entry:
  assumes "parse_schedule_entry c i raw = Inr e" "sound_contract c"
  shows "entry_inputs e \<noteq> [] \<Longrightarrow> satisfies c (entry_inputs e)" "satisfies c (apply_input_defaults c (entry_inputs e))"
    "set (keys (entry_inputs e)) \<subseteq> set (keys c)"
proof -
  obtain entry where inputs: "entry_inputs e = [] \<or> check_keys [Key ''schedule'', At i, Key ''inputs''] (keys c) (entry_inputs e) = Inr () \<and>
      validate_inputs ''inputs'' c (entry_inputs e) = []"
    and run: "check_schedule_entry_runnable (entry_inputs e) c [Key ''schedule'', At i] = Inr ()"
    using assms(1)
    by (auto simp: parse_schedule_entry_def Let_def bind_result_Inr_iff split: option.splits if_splits)
  then show "entry_inputs e \<noteq> [] \<Longrightarrow> satisfies c (entry_inputs e)" using validate_inputs_ok [OF assms(2)] by auto
  show "satisfies c (apply_input_defaults c (entry_inputs e))"
    using run validate_inputs_ok [OF assms(2)] by (auto simp: check_schedule_entry_runnable_def guard_source_def Let_def split: if_splits)
  show "set (keys (entry_inputs e)) \<subseteq> set (keys c)"
    using inputs by (auto simp: check_keys_def find_None_iff split: option.splits)
qed

text \<open>C37: what a schedule entry says is what its runs are given, but for the values whose text the declared types read as another value
  or refuse.  For an entry the parser accepted, none of whose values is a string starting with a bracket where arrays are permitted, a
  number, boolean, null or object where strings are permitted too or no type is declared, an array where no type is declared, or an unsafe integer
  where the type is integer and not number: the compiled command line is one the schedulers accept and read back; the command finds in it
  flags from which the run gets every input of the entry with the value of the entry, up to the order of keys, and every other input with
  its default.\<close>

theorem scheduled_inputs_are_delivered:
  assumes "clone_bounded doc [] 0 0 = Inr (JObj document, nodes)" "field document ''inputs'' = Some declarations"
    "parse_input_declarations dt declarations = Inr contract" "parse_schedule_entry contract i raw = Inr e"
    "keyed (JObj (entry_inputs e))" "numbers_readable dt (JObj (entry_inputs e))"
    "\<forall>(n, v) \<in> set (entry_inputs e). \<forall>d. map_of contract n = Some d \<longrightarrow> unambiguous (declared_types (declared_schema d)) v"
    "normalise_task_concept_id task = Inr task" "owner \<noteq> ''''"
    "argv = task_invocation task owner (scheduler_input_flag_tail dt (Some (entry_inputs e)))"
  shows "parse_public_scheduler_invocation argv = Some (argv, Some owner) \<and>
    (\<exists>flags delivered. parse_task_input_flags (drop 2 argv) task = Inr flags \<and> deliver_inputs contract flags = Inr delivered \<and>
      (\<forall>n. field delivered n = (case field (entry_inputs e) n of Some v \<Rightarrow> Some (sort_input_json_keys v)
        | None \<Rightarrow> Option.bind (map_of contract n) declared_default)))"
proof -
  have c: "sound_contract contract" using parsed_contract_sound assms(1-3) by blast
  have names: "\<forall>n \<in> set (keys contract). input_name n \<and> \<not> own_flag n" using parsed_names assms(3) by blast
  note e = parsed_entry [OF assms(4) c]
  let ?obj = "entry_inputs e" and ?text = "\<lambda>n. scheduler_input_value_text dt (the (field (entry_inputs e) n))"
  have d: "distinct (keys ?obj)" using assms(5) by simp
  define ns where "ns = sort (keys ?obj)"
  have ns: "\<forall>n \<in> set ns. input_name n \<and> \<not> own_flag n" "distinct ns" using subsetD [OF e(3)] names d by (auto simp: ns_def simp del: set_map)
  have tail: "scheduler_input_flag_tail dt (Some ?obj) = concat (map (\<lambda>n. scheduler_input_flags n (?text n)) ns)"
    unfolding ns_def by (rule tail_names [OF d])
  have valid: "is_valid_scheduler_input_flag_tail (scheduler_input_flag_tail dt (Some ?obj))"
    unfolding tail is_valid_scheduler_input_flag_tail_def by (rule valid_tail) (use ns in auto)
  have public: "parse_public_scheduler_invocation argv = Some (argv, Some owner)"
    using valid assms(8,9) normal_task_id(3) [OF assms(8)]
    by (simp add: parse_public_scheduler_invocation_def task_invocation_def assms(10))
  have flags: "parse_task_input_flags (drop 2 argv) task = Inr (map (\<lambda>n. (n, Text (?text n))) ns)"
  proof -
    have scanned: "scan_input_flags task True (scheduler_input_flag_tail dt (Some ?obj)) = Inr (map (\<lambda>n. (n, Text (?text n))) ns)"
      unfolding tail by (rule scan_tail) (use ns in blast)
    have "task \<noteq> ''--''" using task_id_token [OF assms(8)] by (auto simp: js_starts_with_def)
    then show ?thesis using scanned task_id_token [OF assms(8)]
      by (simp add: parse_task_input_flags_def task_invocation_def assms(10) js_starts_with_def dash_digit_def js_digit_def
          task_run_value_flags_def task_run_boolean_flags_def Let_def)
  qed
  have plain: "\<forall>(n, v) \<in> set ?obj. unambiguous (declared_types (schema_for contract n)) v"
  proof clarify
    fix n v assume nv: "(n, v) \<in> set ?obj"
    then have "n \<in> set (keys ?obj)" by force
    then have "n \<in> set (keys contract)" using e(3) by blast
    then obtain dd where "map_of contract n = Some dd" using c by (auto simp: sound_contract_def)
    then show "unambiguous (declared_types (schema_for contract n)) v" using assms(7) nv by (fastforce simp: schema_for_def)
  qed
  show ?thesis
    using public flags scheduled_inputs_deliver [OF c names e(3) assms(5,6) _ plain e(1,2)] unfolding ns_def by blast
qed

definition zoned_document :: json_object where
  "zoned_document = [(''version'', JNum 4), (''inputs'', JObj
     [(''zone'', JObj [(''type'', JStr ''string'')]), (''tags'', JObj [(''type'', JStr ''array'')]), (''depth'', JObj [(''type'', JStr ''integer'')])])]"

definition zoned_contract :: input_contract where
  "zoned_contract = [(''zone'', \<lparr>declared_schema = [(''type'', JStr ''string'')], declared_default = None, is_required = False\<rparr>),
     (''tags'', \<lparr>declared_schema = [(''type'', JStr ''array'')], declared_default = None, is_required = False\<rparr>),
     (''depth'', \<lparr>declared_schema = [(''type'', JStr ''integer'')], declared_default = None, is_required = False\<rparr>)]"

definition scheduled_values :: "json_object \<Rightarrow> json" where
  "scheduled_values fs = JObj [(''cron'', JStr ''0 8 * * 1''), (''inputs'', JObj fs)]"

definition scheduled_entry :: "json_object \<Rightarrow> schedule_entry" where
  "scheduled_entry fs = \<lparr>entry_cron = ''0 8 * * 1'', entry_enabled = True, entry_inputs = fs, entry_source = ''schedule[0].cron'', entry_ordinal = 0\<rparr>"

theorem scheduled_inputs_are_delivered_witness:
  "\<exists>flags delivered.
     parse_task_input_flags [''nightly'', ''--bundle'', ''team'', ''--scheduled'', ''--depth=-3'', ''--tags'', ''[\"x\"]'', ''--zone'', ''west''] ''nightly'' = Inr flags \<and>
     deliver_inputs zoned_contract flags = Inr delivered \<and> field delivered ''depth'' = Some (JNum (- 3)) \<and>
     field delivered ''tags'' = Some (JArr [JStr ''x'']) \<and> field delivered ''zone'' = Some (JStr ''west'')"
proof -
  let ?fs = "[(''zone'', JStr ''west''), (''tags'', JArr [JStr ''x'']), (''depth'', JNum (- 3))]"
  have copy: "clone_bounded (JObj zoned_document) [] 0 0 = Inr (JObj zoned_document, 9)" by code_simp
  have here: "field zoned_document ''inputs'' = Some (the (field zoned_document ''inputs''))" by code_simp
  have parsed: "parse_input_declarations (\<lambda>r. []) (the (field zoned_document ''inputs'')) = Inr zoned_contract" by code_simp
  have entry: "parse_schedule_entry zoned_contract 0 (scheduled_values ?fs) = Inr (scheduled_entry ?fs)" by code_simp
  have task: "normalise_task_concept_id ''nightly'' = Inr ''nightly''" by code_simp
  have keyed: "keyed (JObj (entry_inputs (scheduled_entry ?fs)))" by (simp add: scheduled_entry_def)
  have numbers: "numbers_readable (\<lambda>r. []) (JObj (entry_inputs (scheduled_entry ?fs)))"
    by (simp add: scheduled_entry_def readable_number_def is_integer_def)
  have plain: "\<forall>(n, v) \<in> set (entry_inputs (scheduled_entry ?fs)). \<forall>d. map_of zoned_contract n = Some d \<longrightarrow> unambiguous (declared_types (declared_schema d)) v"
    by (auto simp: scheduled_entry_def zoned_contract_def unambiguous_def declared_types_def field_def)
  have argv: "task_invocation ''nightly'' ''team'' (scheduler_input_flag_tail (\<lambda>r. []) (Some (entry_inputs (scheduled_entry ?fs)))) =
    [''task'', ''run'', ''nightly'', ''--bundle'', ''team'', ''--scheduled'', ''--depth=-3'', ''--tags'', ''[\"x\"]'', ''--zone'', ''west'']" by code_simp
  from scheduled_inputs_are_delivered [OF copy here parsed entry keyed numbers plain task _ refl, of "''team''", unfolded argv]
  show ?thesis by (auto simp: scheduled_entry_def field_def)
qed

text \<open>A number given to an input that permits integers and strings is accepted with the entry, and every run gets it as a text.\<close>

lemma number_arrives_as_text:
  "(let c = [(''zone'', \<lparr>declared_schema = [(''type'', JArr [JStr ''integer'', JStr ''string''])], declared_default = None, is_required = False\<rparr>)];
     fs = [(''zone'', JNum 5)] in
    parse_schedule_entry c 0 (scheduled_values fs) = Inr (scheduled_entry fs) \<and>
    scheduler_input_flag_tail (\<lambda>r. []) (Some fs) = [''--zone'', ''5''] \<and>
    deliver_inputs c [(''zone'', Text ''5'')] = Inr [(''zone'', JStr ''5'')])"
  by code_simp

text \<open>Entries the parser accepts and no run of theirs survives: a number for an input that declares no type, a text with a bracket for
  one that permits arrays, and an integer beyond the safe range.\<close>

lemma untyped_number_never_fires:
  "(let c = [(''level'', \<lparr>declared_schema = [(''enum'', JArr [JNum 1, JNum 2])], declared_default = None, is_required = False\<rparr>)]; fs = [(''level'', JNum 1)] in
    parse_schedule_entry c 0 (scheduled_values fs) = Inr (scheduled_entry fs) \<and>
    scheduler_input_flag_tail (\<lambda>r. []) (Some fs) = [''--level'', ''1''] \<and>
    (case deliver_inputs c [(''level'', Text ''1'')] of Inl (Contract_Violation _) \<Rightarrow> True | _ \<Rightarrow> False))"
  by code_simp

lemma bracketed_string_never_fires:
  "(let c = [(''title'', \<lparr>declared_schema = [(''type'', JArr [JStr ''array'', JStr ''string''])], declared_default = None, is_required = False\<rparr>)];
     fs = [(''title'', JStr ''[draft'')] in
    parse_schedule_entry c 0 (scheduled_values fs) = Inr (scheduled_entry fs) \<and>
    scheduler_input_flag_tail (\<lambda>r. []) (Some fs) = [''--title'', ''[draft''] \<and>
    deliver_inputs c [(''title'', Text ''[draft'')] = Inl (Malformed_Json ''title''))"
  by code_simp

lemma unsafe_integer_never_fires:
  "(let c = [(''seed'', \<lparr>declared_schema = [(''type'', JStr ''integer'')], declared_default = None, is_required = False\<rparr>)];
     fs = [(''seed'', JNum 9007199254740992)] in
    parse_schedule_entry c 0 (scheduled_values fs) = Inr (scheduled_entry fs) \<and>
    scheduler_input_flag_tail (\<lambda>r. ''9007199254740992'') (Some fs) = [''--seed'', ''9007199254740992''] \<and>
    deliver_inputs c [(''seed'', Text ''9007199254740992'')] = Inl (Invalid_Value ''seed'' (Must_Be [''integer''])))"
  by code_simp

end
