(* ===== verification/Scheduler_Sync.thy ===== *)
theory Scheduler_Sync
  imports Scheduler_Binding
begin

text \<open>
  The plan of a scheduler synchronisation, \<^verbatim>\<open>src/tasks/scheduler-sync.ts\<close>: what is compared is the set of bindings the sources of a
  bundle ask for and one inventory of what is installed; what comes out is the list of operations.  Compiling the sources, which reads
  files, is not modelled: the desired bindings are an argument.  \<open>signature\<close> is the fingerprint a backend expects a binding to
  have once written, when it can tell.
\<close>

section \<open>Data\<close>

record installed_binding =
  installed_id :: string
  installed_native :: "string option"
  installed_argv :: "string list"
  installed_context :: string
  installed_signature :: "string option"
  installed_target :: "string option"
  installed_invocation :: "string list option"
  installed_owner_path :: "string option"

record install_options =
  option_target :: "string option"
  option_binding :: "string list option"
  option_context :: "string option"

record sync_input =
  adapter_id :: string
  bundle_name :: string
  bundle_target :: "string option"
  bundle_path :: "string option"
  sync_installed :: "installed_binding list"
  sync_artifacts :: "native_artifact list option"
  sync_inspection :: "(installed_binding list \<times> native_artifact list) option"
  sync_options :: "install_options option"
  sync_rebind :: bool

datatype sync_operation =
    Install scheduler_binding mutation_expectation "string option" "install_options option"
  | Update scheduler_binding mutation_expectation "string option" "install_options option"
  | Remove string string mutation_expectation "string option"

record sync_plan =
  plan_installed :: "string list"
  plan_updated :: "string list"
  plan_removed :: "string list"
  plan_unchanged :: "string list"
  plan_operations :: "sync_operation list"

datatype sync_error =
    Desired_Id_Collision string | Installed_Id_Collision string | Foreign_Id string
  | Duplicate_Artifact string | Incoherent_Fingerprint string | Incoherent_Owner string
  | Native_Collision string | No_Fingerprint string | No_Ordinal string | No_Bundle_Owner | No_Canonical_Source
  | Binding_Fault scheduler_error

section \<open>Checks\<close>

definition native_of :: "(string \<Rightarrow> string) \<Rightarrow> installed_binding \<Rightarrow> string" where
  "native_of hash e = (case installed_native e of Some s \<Rightarrow> s | None \<Rightarrow> scheduler_native_binding_id hash (installed_id e))"

definition native_artifacts_for_plan :: "(string \<Rightarrow> string) \<Rightarrow> sync_input \<Rightarrow> native_artifact list" where
  "native_artifacts_for_plan hash i = (case sync_artifacts i of Some as \<Rightarrow> as
     | None \<Rightarrow> map (\<lambda>e. \<lparr>artifact_native_id = native_of hash e, artifact_binding_id = Some (installed_id e),
         artifact_invocation = installed_invocation e, artifact_fingerprint = installed_signature e\<rparr>) (sync_installed i))"

definition inspection_for_plan :: "(string \<Rightarrow> string) \<Rightarrow> sync_input \<Rightarrow> installed_binding list \<times> native_artifact list" where
  "inspection_for_plan hash i = (case sync_inspection i of Some x \<Rightarrow> x | None \<Rightarrow> (sync_installed i, native_artifacts_for_plan hash i))"

definition belongs_to_bundle :: "sync_input \<Rightarrow> installed_binding \<Rightarrow> bool" where
  "belongs_to_bundle i e \<longleftrightarrow>
     (if bundle_path i \<noteq> None \<and> installed_target e = Some (bundle_name i)
      then installed_owner_path e \<noteq> None \<and> installed_owner_path e = bundle_path i
      else installed_target e = Some (bundle_name i) \<or> installed_target e = bundle_target i)"

fun unique_ids :: "(string \<Rightarrow> sync_error) \<Rightarrow> string list \<Rightarrow> string list \<Rightarrow> (sync_error, unit) result" where
  "unique_ids err seen [] = Inr ()"
| "unique_ids err seen (k # ks) = (if k \<in> set seen then Inl (err k) else unique_ids err (k # seen) ks)"

definition assert_no_foreign_ids :: "sync_input \<Rightarrow> scheduler_binding list \<Rightarrow> installed_binding list \<Rightarrow> (sync_error, unit) result" where
  "assert_no_foreign_ids i desired installed =
     (case List.find (\<lambda>e. installed_id e \<in> binding_id ` set desired \<and> \<not> belongs_to_bundle i e) installed of
        Some e \<Rightarrow> Inl (Foreign_Id (installed_id e)) | None \<Rightarrow> Inr ())"

fun unique_artifacts :: "string list \<Rightarrow> native_artifact list \<Rightarrow> (sync_error, unit) result" where
  "unique_artifacts seen [] = Inr ()"
| "unique_artifacts seen (a # as) =
     (let key = scheduler_native_artifact_key (artifact_native_id a) in
      if key \<in> set seen then Inl (Duplicate_Artifact (artifact_native_id a)) else unique_artifacts (key # seen) as)"

definition coherent_entry :: "(string \<Rightarrow> string) \<Rightarrow> bool \<Rightarrow> native_artifact list \<Rightarrow> installed_binding \<Rightarrow> (sync_error, unit) result" where
  "coherent_entry hash strict artifacts e =
     bind_result (lift_error Binding_Fault (assert_artifact_cardinality artifacts (native_of hash e) 1)) (\<lambda>found. case found of
       None \<Rightarrow> Inl (Incoherent_Fingerprint (native_of hash e))
     | Some a \<Rightarrow>
         if (installed_signature e \<noteq> None \<and>
               (if artifact_fingerprint a \<noteq> None then installed_signature e \<noteq> artifact_fingerprint a else strict))
            \<or> (artifact_binding_id a \<noteq> None \<and> artifact_binding_id a \<noteq> Some (installed_id e))
         then Inl (Incoherent_Fingerprint (native_of hash e))
         else if installed_invocation e \<noteq> None \<and> artifact_invocation a \<noteq> installed_invocation e then Inl (Incoherent_Owner (native_of hash e))
         else Inr ())"

definition assert_coherent_inspection ::
    "(string \<Rightarrow> string) \<Rightarrow> installed_binding list \<Rightarrow> native_artifact list \<Rightarrow> bool \<Rightarrow> (sync_error, unit) result" where
  "assert_coherent_inspection hash installed artifacts strict =
     bind_result (unique_artifacts [] artifacts) (\<lambda>_.
     bind_result (mapM_result (coherent_entry hash strict artifacts) installed) (\<lambda>_. Inr ()))"

definition same_desired_artifact :: "(string \<Rightarrow> string) \<Rightarrow> scheduler_binding \<Rightarrow> scheduler_binding \<Rightarrow> bool" where
  "same_desired_artifact hash b c \<longleftrightarrow> scheduler_binding_native_id hash b = scheduler_binding_native_id hash c \<and> binding_id b = binding_id c
     \<and> binding_source b = binding_source c \<and> binding_ordinal b = binding_ordinal c \<and> evidence_digest b = evidence_digest c
     \<and> binding_invocation b = binding_invocation c"

fun desired_by_key :: "(string \<Rightarrow> string) \<Rightarrow> scheduler_binding list \<Rightarrow> (string \<times> scheduler_binding) list
    \<Rightarrow> (sync_error, (string \<times> scheduler_binding) list) result" where
  "desired_by_key hash [] m = Inr m"
| "desired_by_key hash (b # bs) m =
     (let key = scheduler_native_artifact_key (scheduler_binding_native_id hash b) in
      case map_of m key of
        Some prior \<Rightarrow> if \<not> same_desired_artifact hash prior b then Inl (Native_Collision (scheduler_binding_native_id hash b))
            else desired_by_key hash bs (put_entry key b m)
      | None \<Rightarrow> desired_by_key hash bs (put_entry key b m))"

definition owned_artifact :: "(string \<Rightarrow> string) \<Rightarrow> (string \<times> scheduler_binding) list \<Rightarrow> native_artifact \<Rightarrow> bool" where
  "owned_artifact hash m a \<longleftrightarrow> (case map_of m (scheduler_native_artifact_key (artifact_native_id a)) of
     None \<Rightarrow> True
   | Some wanted \<Rightarrow>
       artifact_native_id a = scheduler_binding_native_id hash wanted \<and>
       (case artifact_invocation a of
          None \<Rightarrow> False
        | Some invocation \<Rightarrow> map_option fst (scheduler_native_artifact_owner hash (artifact_native_id a) invocation) = Some (binding_id wanted)))"

definition assert_native_artifact_ownership ::
    "(string \<Rightarrow> string) \<Rightarrow> scheduler_binding list \<Rightarrow> native_artifact list \<Rightarrow> (sync_error, unit) result" where
  "assert_native_artifact_ownership hash desired artifacts =
     bind_result (desired_by_key hash desired []) (\<lambda>m.
     let checked = (\<lambda>(seen, r) a. case r of Inl e \<Rightarrow> (seen, Inl e) | Inr _ \<Rightarrow>
           let key = scheduler_native_artifact_key (artifact_native_id a) in
           if key \<in> set seen then (seen, Inl (Native_Collision (artifact_native_id a)))
           else (key # seen, if owned_artifact hash m a then Inr () else Inl (Native_Collision (artifact_native_id a))))
     in snd (foldl checked ([], Inr ()) artifacts))"

section \<open>Operations\<close>

definition install_options_for :: "sync_input \<Rightarrow> installed_binding option \<Rightarrow> install_options option" where
  "install_options_for i current = (case current of
     Some e \<Rightarrow> if \<not> sync_rebind i then
         Some \<lparr>option_target = (if bundle_target i = Some '''' then None else bundle_target i), option_binding = Some (installed_argv e),
           option_context = Some (installed_context e)\<rparr>
       else sync_options i
   | None \<Rightarrow> sync_options i)"

definition exact_installed_artifact :: "(string \<Rightarrow> string) \<Rightarrow> string \<Rightarrow> installed_binding \<Rightarrow> native_artifact list \<Rightarrow> native_artifact option" where
  "exact_installed_artifact hash bid current artifacts =
     (let native = (case installed_native current of Some s \<Rightarrow> s | None \<Rightarrow> scheduler_native_binding_id hash bid) in
      List.find (\<lambda>a. artifact_native_id a = native \<and> (artifact_binding_id a = Some bid \<or> artifact_binding_id a = None)) artifacts)"

definition exact_installed_native_id :: "(string \<Rightarrow> string) \<Rightarrow> string \<Rightarrow> installed_binding \<Rightarrow> native_artifact list \<Rightarrow> string" where
  "exact_installed_native_id hash logical current artifacts =
     (case List.find (\<lambda>a. artifact_binding_id a = Some logical) artifacts of
        Some a \<Rightarrow> artifact_native_id a
      | None \<Rightarrow> (case installed_native current of Some s \<Rightarrow> s | None \<Rightarrow> scheduler_native_binding_id hash logical))"

text \<open>The position of the token after the first \<open>--bundle\<close> from the fourth on.\<close>

fun bundle_argument :: "string list \<Rightarrow> string option option" where
  "bundle_argument [] = None"
| "bundle_argument (t # ts) = (if t = ''--bundle'' then Some (case ts of [] \<Rightarrow> None | b # _ \<Rightarrow> Some b) else bundle_argument ts)"

definition installed_logical_source :: "sync_input \<Rightarrow> string list \<Rightarrow> (sync_error, logical_source) result" where
  "installed_logical_source i invocation =
     (if length invocation = 3 \<and> invocation ! 0 = ''workflow'' \<and> invocation ! 1 = ''run'' then
        Inr \<lparr>logical_kind = Workflow_Source, logical_ref = invocation ! 2\<rparr>
      else if length invocation > 2 \<and> invocation ! 0 = ''task'' \<and> invocation ! 1 = ''run'' \<and> invocation ! 2 \<noteq> '''' then
        (case (case bundle_argument (drop 3 invocation) of None \<Rightarrow> Some (bundle_name i) | Some b \<Rightarrow> b) of
           None \<Rightarrow> Inl No_Bundle_Owner
         | Some b \<Rightarrow> if b = '''' then Inl No_Bundle_Owner
             else bind_result (lift_error (\<lambda>e. Binding_Fault (Bad_Ref e))
               (make_bundle_ref (Some b) (if adapter_id i = ''akm'' then ''tasks/'' @ invocation ! 2 else invocation ! 2) None)) (\<lambda>ref.
               Inr \<lparr>logical_kind = Task_Source, logical_ref = ref\<rparr>))
      else Inl No_Canonical_Source)"

definition build_remove_operation ::
    "(string \<Rightarrow> string) \<Rightarrow> sync_input \<Rightarrow> native_artifact list \<Rightarrow> string \<Rightarrow> installed_binding option \<Rightarrow> (sync_error, sync_operation) result" where
  "build_remove_operation hash i artifacts k current = (case current of
     None \<Rightarrow> Inl (Native_Collision k)
   | Some e \<Rightarrow> (case installed_invocation e of
       None \<Rightarrow> Inl (Native_Collision k)
     | Some invocation \<Rightarrow>
         (let native = exact_installed_native_id hash k e artifacts;
              artifact = List.find (\<lambda>a. artifact_native_id a = native \<and> artifact_binding_id a = Some k) artifacts;
              prior = (case installed_signature e of Some s \<Rightarrow> Some s | None \<Rightarrow> Option.bind artifact artifact_fingerprint) in
          if artifact = None \<or> prior = None then Inl (No_Fingerprint k)
          else bind_result (installed_logical_source i invocation) (\<lambda>src.
            case scheduler_binding_ordinal hash k src invocation of
              None \<Rightarrow> Inl (No_Ordinal k)
            | Some ordinal \<Rightarrow> Inr (Remove k native
                \<lparr>expected_state_of = Present, expected_binding_id = k, expected_native_id = native, expected_source = src,
                 expected_ordinal = ordinal, expected_invocation = invocation, expected_fingerprint = prior\<rparr> (installed_owner_path e))))))"

datatype verdict = To_Install | To_Update | Unchanged

type_synonym signature_of = "(scheduler_binding \<Rightarrow> install_options option \<Rightarrow> string) option"

text \<open>What one desired binding asks for.\<close>

definition plan_binding ::
    "(string \<Rightarrow> string) \<Rightarrow> signature_of \<Rightarrow> sync_input \<Rightarrow> (string \<rightharpoonup> installed_binding) \<Rightarrow> native_artifact list \<Rightarrow> scheduler_binding
     \<Rightarrow> (sync_error, verdict \<times> sync_operation list) result" where
  "plan_binding hash signature i present artifacts b =
     (let current = present (binding_id b); options = install_options_for i current;
          fingerprint = map_option (\<lambda>f. f b options) signature in
      case current of
        None \<Rightarrow> Inr (To_Install, [Install b (expectation_for_binding hash b Absent None) fingerprint options])
      | Some e \<Rightarrow>
          if installed_signature e \<noteq> None \<and> fingerprint \<noteq> None \<and> installed_signature e = fingerprint then Inr (Unchanged, [])
          else
            (let artifact = exact_installed_artifact hash (binding_id b) e artifacts;
                 prior = (case Option.bind artifact artifact_fingerprint of Some s \<Rightarrow> Some s | None \<Rightarrow> installed_signature e) in
             if artifact = None \<or> prior = None then Inl (No_Fingerprint (binding_id b))
             else Inr (To_Update, [Update b (expectation_for_binding hash b Present prior) fingerprint options])))"

definition finalize_scheduler_sync_plan ::
    "(string \<Rightarrow> string) \<Rightarrow> signature_of \<Rightarrow> sync_input \<Rightarrow> scheduler_binding list \<Rightarrow> (sync_error, sync_plan) result" where
  "finalize_scheduler_sync_plan hash signature i desired =
     (case inspection_for_plan hash i of (installed, artifacts) \<Rightarrow>
      bind_result (unique_ids Desired_Id_Collision [] (map binding_id desired)) (\<lambda>_.
      bind_result (assert_coherent_inspection hash installed artifacts (sync_inspection i \<noteq> None)) (\<lambda>_.
      bind_result (unique_ids Installed_Id_Collision [] (map installed_id installed)) (\<lambda>_.
      bind_result (assert_no_foreign_ids i desired installed) (\<lambda>_.
      bind_result (assert_native_artifact_ownership hash desired artifacts) (\<lambda>_.
      let scoped = filter (belongs_to_bundle i) installed;
          present = map_of (rev (map (\<lambda>e. (installed_id e, e)) scoped)) in
      bind_result (mapM_result (\<lambda>b. map_result (Pair (binding_id b)) (plan_binding hash signature i present artifacts b)) desired) (\<lambda>verdicts.
      let removed = sort (filter (\<lambda>k. k \<notin> binding_id ` set desired) (map installed_id scoped)) in
      bind_result (mapM_result (\<lambda>k. build_remove_operation hash i artifacts k (present k)) removed) (\<lambda>removals.
      Inr \<lparr>plan_installed = map fst (filter (\<lambda>(k, v, ops). v = To_Install) verdicts),
           plan_updated = map fst (filter (\<lambda>(k, v, ops). v = To_Update) verdicts),
           plan_removed = removed,
           plan_unchanged = map fst (filter (\<lambda>(k, v, ops). v = Unchanged) verdicts),
           plan_operations = concat (map (\<lambda>(k, v, ops). ops) verdicts) @ removals\<rparr>))))))))"

section \<open>What a plan does\<close>

lemma unique_ids_ok: "unique_ids err seen ks = Inr () \<longleftrightarrow> distinct ks \<and> set ks \<inter> set seen = {}"
  by (induction ks arbitrary: seen) auto

lemma unique_artifacts_ok:
  "unique_artifacts seen as = Inr () \<longleftrightarrow> distinct (map (\<lambda>a. scheduler_native_artifact_key (artifact_native_id a)) as) \<and>
     (\<lambda>a. scheduler_native_artifact_key (artifact_native_id a)) ` set as \<inter> set seen = {}"
  by (induction as arbitrary: seen) (auto simp: Let_def)

lemma plan_parts:
  assumes "finalize_scheduler_sync_plan hash signature i desired = Inr plan" "inspection_for_plan hash i = (installed, artifacts)"
  obtains verdicts removals where
    "distinct (map binding_id desired)" "distinct (map installed_id installed)"
    "assert_coherent_inspection hash installed artifacts (sync_inspection i \<noteq> None) = Inr ()"
    "assert_no_foreign_ids i desired installed = Inr ()" "assert_native_artifact_ownership hash desired artifacts = Inr ()"
    "mapM_result (\<lambda>b. map_result (Pair (binding_id b)) (plan_binding hash signature i
        (map_of (rev (map (\<lambda>e. (installed_id e, e)) (filter (belongs_to_bundle i) installed)))) artifacts b)) desired = Inr verdicts"
    "mapM_result (\<lambda>k. build_remove_operation hash i artifacts k
        (map_of (rev (map (\<lambda>e. (installed_id e, e)) (filter (belongs_to_bundle i) installed))) k)) (plan_removed plan) = Inr removals"
    "plan_installed plan = map fst (filter (\<lambda>(k, v, ops). v = To_Install) verdicts)"
    "plan_updated plan = map fst (filter (\<lambda>(k, v, ops). v = To_Update) verdicts)"
    "plan_unchanged plan = map fst (filter (\<lambda>(k, v, ops). v = Unchanged) verdicts)"
    "plan_removed plan = sort (filter (\<lambda>k. k \<notin> binding_id ` set desired) (map installed_id (filter (belongs_to_bundle i) installed)))"
    "plan_operations plan = concat (map (\<lambda>(k, v, ops). ops) verdicts) @ removals"
proof -
  have un: "unique_ids err [] ks = Inr u \<Longrightarrow> distinct ks" for err ks u using unique_ids_ok by (metis old.unit.exhaust)
  have unit: "r = Inr u \<Longrightarrow> r = Inr ()" for r :: "(sync_error, unit) result" and u by simp
  show ?thesis
    using assms that
    by (auto simp: finalize_scheduler_sync_plan_def bind_result_Inr_iff Let_def dest!: un)
qed

definition operation_id :: "sync_operation \<Rightarrow> string" where
  "operation_id op = (case op of Install b e f p \<Rightarrow> binding_id b | Update b e f p \<Rightarrow> binding_id b | Remove k n e p \<Rightarrow> k)"

definition operation_native_id :: "(string \<Rightarrow> string) \<Rightarrow> sync_operation \<Rightarrow> string" where
  "operation_native_id hash op = (case op of
     Install b e f p \<Rightarrow> scheduler_binding_native_id hash b | Update b e f p \<Rightarrow> scheduler_binding_native_id hash b | Remove k n e p \<Rightarrow> n)"

lemma planned_binding:
  assumes "plan_binding hash signature i present artifacts b = Inr (v, ops)"
  shows "v = To_Install \<and> present (binding_id b) = None \<and> (\<exists>e f p. ops = [Install b e f p]) \<or>
    v = To_Update \<and> present (binding_id b) \<noteq> None \<and> (\<exists>e f p. ops = [Update b e f p]) \<or>
    v = Unchanged \<and> (\<exists>e f. present (binding_id b) = Some e \<and> signature = Some f \<and>
      installed_signature e = Some (f b (install_options_for i (Some e)))) \<and> ops = []"
  using assms by (auto simp: plan_binding_def Let_def split: option.splits if_splits)

lemma find_in: "List.find P xs = Some x \<Longrightarrow> x \<in> set xs \<and> P x"
  by (induction xs) (auto split: if_splits)

lemma planned_removal:
  assumes "build_remove_operation hash i artifacts k current = Inr op"
  shows "\<exists>n e p a. op = Remove k n e p \<and> a \<in> set artifacts \<and> artifact_native_id a = n \<and> artifact_binding_id a = Some k"
proof (cases current)
  case (Some c)
  show ?thesis
  proof (cases "installed_invocation c")
    case inv: (Some invocation)
    let ?n = "exact_installed_native_id hash k c artifacts"
    have found: "List.find (\<lambda>a. artifact_native_id a = ?n \<and> artifact_binding_id a = Some k) artifacts \<noteq> None"
      using assms by (simp add: build_remove_operation_def Let_def Some inv split: if_splits)
    then obtain e p where "op = Remove k ?n e p"
      using assms by (auto simp: build_remove_operation_def Let_def Some inv bind_result_Inr_iff split: option.splits if_splits)
    moreover obtain a where "List.find (\<lambda>a. artifact_native_id a = ?n \<and> artifact_binding_id a = Some k) artifacts = Some a"
      using found by blast
    from find_in [OF this] have "a \<in> set artifacts \<and> artifact_native_id a = ?n \<and> artifact_binding_id a = Some k" .
    ultimately show ?thesis by blast
  qed (use assms in \<open>simp add: build_remove_operation_def Some\<close>)
qed (use assms in \<open>simp add: build_remove_operation_def\<close>)

lemma verdict_list:
  "mapM_result (\<lambda>b. map_result (Pair (binding_id b)) (f b)) bs = Inr vs \<Longrightarrow>
   list_all2 (\<lambda>b (k, v, ops). k = binding_id b \<and> f b = Inr (v, ops)) bs vs"
  unfolding mapM_result_Inr_iff by (erule list_all2_mono) (auto simp: map_result_def bind_result_Inr_iff)

lemma verdict_keys:
  assumes "list_all2 (\<lambda>b (k, v, ops). k = binding_id b \<and> f b = Inr (v, ops)) bs vs" shows "map fst vs = map binding_id bs"
  using assms by (induction rule: list_all2_induct) auto

lemma verdict_operations:
  assumes "list_all2 (\<lambda>b (k, v, ops). k = binding_id b \<and> plan_binding hash signature i present artifacts b = Inr (v, ops)) bs vs"
  shows "map operation_id (concat (map (\<lambda>(k, v, ops). ops) vs)) = map fst (filter (\<lambda>(k, v, ops). v \<noteq> Unchanged) vs)"
  using assms
proof (induction rule: list_all2_induct)
  case (Cons b bs x vs)
  obtain k v ops where x: "x = (k, v, ops)" by (cases x)
  then have "plan_binding hash signature i present artifacts b = Inr (v, ops)" "k = binding_id b" using Cons.hyps by auto
  from planned_binding [OF this(1)] this(2) Cons.IH show ?case by (auto simp: x operation_id_def)
qed simp

lemma removal_ids:
  assumes "mapM_result (\<lambda>k. build_remove_operation hash i artifacts k (present k)) ks = Inr ops" shows "map operation_id ops = ks"
  using assms by (induction ks arbitrary: ops) (auto simp: bind_result_Inr_iff operation_id_def dest!: planned_removal)

lemma verdict_split:
  assumes "distinct (map fst (vs :: (string \<times> verdict \<times> sync_operation list) list))"
  shows "distinct (map fst (filter (\<lambda>(k, v, ops). v = To_Install) vs) @ map fst (filter (\<lambda>(k, v, ops). v = To_Update) vs)
      @ map fst (filter (\<lambda>(k, v, ops). v = Unchanged) vs))
    \<and> set (map fst (filter (\<lambda>(k, v, ops). v = To_Install) vs) @ map fst (filter (\<lambda>(k, v, ops). v = To_Update) vs)
      @ map fst (filter (\<lambda>(k, v, ops). v = Unchanged) vs)) = fst ` set vs
    \<and> set (map fst (filter (\<lambda>(k, v, ops). v \<noteq> Unchanged) vs)) =
      set (map fst (filter (\<lambda>(k, v, ops). v = To_Install) vs) @ map fst (filter (\<lambda>(k, v, ops). v = To_Update) vs))
    \<and> distinct (map fst (filter (\<lambda>(k, v, ops). v \<noteq> Unchanged) vs))"
  using assms
proof (induction vs)
  case (Cons x vs)
  obtain k v ops where x: "x = (k, v, ops)" by (cases x)
  show ?case using Cons by (cases v) (auto simp: x)
qed simp

lemma unchanged_verdict:
  assumes "list_all2 (\<lambda>b (k, v, ops). k = binding_id b \<and> f b = Inr (v, ops)) bs vs" "distinct (map binding_id bs)" "b \<in> set bs"
    "binding_id b \<in> set (map fst (filter (\<lambda>(k, v, ops). v = Unchanged) vs))"
  shows "\<exists>ops. f b = Inr (Unchanged, ops)"
  using assms
proof (induction rule: list_all2_induct)
  case (Cons c cs x vs)
  obtain k v ops where x: "x = (k, v, ops)" by (cases x)
  have keys: "map fst vs = map binding_id cs" using verdict_keys [of f cs vs] Cons.hyps by blast
  show ?case
  proof (cases "binding_id b = k")
    case True
    then have "b = c" using Cons.prems Cons.hyps x by (auto simp: image_iff)
    moreover have "k \<notin> set (map fst vs)" unfolding keys using Cons.prems(1) Cons.hyps(1) x by auto
    then have "k \<notin> set (map fst (filter (\<lambda>(k, v, ops). v = Unchanged) vs))" by auto
    then have "v = Unchanged" using Cons.prems(3) True x by (auto split: if_splits)
    ultimately show ?thesis using Cons.hyps(1) x by auto
  next
    case False
    then show ?thesis using Cons x by (auto split: if_splits)
  qed
qed simp

lemma plan_verdicts:
  assumes "finalize_scheduler_sync_plan hash signature i desired = Inr plan" "inspection_for_plan hash i = (installed, artifacts)"
  obtains vs present where "list_all2 (\<lambda>b (k, v, ops). k = binding_id b \<and> plan_binding hash signature i present artifacts b = Inr (v, ops)) desired vs"
    "distinct (map fst vs)" "map fst vs = map binding_id desired" "distinct (plan_removed plan)"
    "\<forall>k e. present k = Some e \<longrightarrow> e \<in> set installed \<and> belongs_to_bundle i e \<and> installed_id e = k"
    "plan_installed plan = map fst (filter (\<lambda>(k, v, ops). v = To_Install) vs)"
    "plan_updated plan = map fst (filter (\<lambda>(k, v, ops). v = To_Update) vs)"
    "plan_unchanged plan = map fst (filter (\<lambda>(k, v, ops). v = Unchanged) vs)"
    "set (plan_removed plan) = installed_id ` {e \<in> set installed. belongs_to_bundle i e} - binding_id ` set desired"
    "map operation_id (plan_operations plan) = map fst (filter (\<lambda>(k, v, ops). v \<noteq> Unchanged) vs) @ plan_removed plan"
proof -
  let ?present = "map_of (rev (map (\<lambda>e. (installed_id e, e)) (filter (belongs_to_bundle i) installed)))"
  obtain vs removals where p: "distinct (map binding_id desired)" "distinct (map installed_id installed)"
    "mapM_result (\<lambda>b. map_result (Pair (binding_id b)) (plan_binding hash signature i ?present artifacts b)) desired = Inr vs"
    "mapM_result (\<lambda>k. build_remove_operation hash i artifacts k (?present k)) (plan_removed plan) = Inr removals"
    "plan_installed plan = map fst (filter (\<lambda>(k, v, ops). v = To_Install) vs)"
    "plan_updated plan = map fst (filter (\<lambda>(k, v, ops). v = To_Update) vs)"
    "plan_unchanged plan = map fst (filter (\<lambda>(k, v, ops). v = Unchanged) vs)"
    "plan_removed plan = sort (filter (\<lambda>k. k \<notin> binding_id ` set desired) (map installed_id (filter (belongs_to_bundle i) installed)))"
    "plan_operations plan = concat (map (\<lambda>(k, v, ops). ops) vs) @ removals"
    by (rule plan_parts [OF assms])
  note vs = verdict_list [OF p(3)]
  have keys: "map fst vs = map binding_id desired" by (rule verdict_keys [OF vs])
  have own: "\<forall>k e. ?present k = Some e \<longrightarrow> e \<in> set installed \<and> belongs_to_bundle i e \<and> installed_id e = k"
    by (auto dest: map_of_SomeD)
  have "set (plan_removed plan) = installed_id ` {e \<in> set installed. belongs_to_bundle i e} - binding_id ` set desired"
    unfolding p(8) by auto
  moreover have "distinct (plan_removed plan)" unfolding p(8) using p(2) by (simp add: distinct_map inj_on_def)
  moreover have "map operation_id (plan_operations plan) = map fst (filter (\<lambda>(k, v, ops). v \<noteq> Unchanged) vs) @ plan_removed plan"
    unfolding p(9) by (simp add: verdict_operations [OF vs] removal_ids [OF p(4)] del: map_concat)
  moreover have "distinct (map fst vs)" using keys p(1) by simp
  ultimately show ?thesis using that [OF vs _ keys _ own p(5-7)] by blast
qed

text \<open>C39: a plan accounts for every binding once.  What the sources ask for is split into what is to be installed, updated and left; what is
  installed for the bundle and no longer asked for is removed; and there is exactly one operation for each binding that is installed,
  updated or removed, and none for any other.  A binding is left alone only if the scheduler holds exactly what it should hold.\<close>

theorem plan_accounts_for_every_binding:
  assumes "finalize_scheduler_sync_plan hash signature i desired = Inr plan" "inspection_for_plan hash i = (installed, artifacts)"
  shows "distinct (plan_installed plan @ plan_updated plan @ plan_unchanged plan @ plan_removed plan)
    \<and> set (plan_installed plan @ plan_updated plan @ plan_unchanged plan) = binding_id ` set desired
    \<and> set (plan_removed plan) = installed_id ` {e \<in> set installed. belongs_to_bundle i e} - binding_id ` set desired
    \<and> distinct (map operation_id (plan_operations plan))
    \<and> set (map operation_id (plan_operations plan)) = set (plan_installed plan @ plan_updated plan @ plan_removed plan)
    \<and> (\<forall>b \<in> set desired. binding_id b \<in> set (plan_unchanged plan) \<longrightarrow> (\<exists>e \<in> set installed. \<exists>f. belongs_to_bundle i e \<and>
        installed_id e = binding_id b \<and> signature = Some f \<and> installed_signature e = Some (f b (install_options_for i (Some e)))))"
proof -
  obtain vs present where
    vs: "list_all2 (\<lambda>b (k, v, ops). k = binding_id b \<and> plan_binding hash signature i present artifacts b = Inr (v, ops)) desired vs"
      "distinct (map fst vs)" "map fst vs = map binding_id desired"
    and once_removed: "distinct (plan_removed plan)"
    and own: "\<forall>k e. present k = Some e \<longrightarrow> e \<in> set installed \<and> belongs_to_bundle i e \<and> installed_id e = k"
    and p: "plan_installed plan = map fst (filter (\<lambda>(k, v, ops). v = To_Install) vs)"
      "plan_updated plan = map fst (filter (\<lambda>(k, v, ops). v = To_Update) vs)"
      "plan_unchanged plan = map fst (filter (\<lambda>(k, v, ops). v = Unchanged) vs)"
    and set_removed: "set (plan_removed plan) = installed_id ` {e \<in> set installed. belongs_to_bundle i e} - binding_id ` set desired"
    and ids: "map operation_id (plan_operations plan) = map fst (filter (\<lambda>(k, v, ops). v \<noteq> Unchanged) vs) @ plan_removed plan"
    by (rule plan_verdicts [OF assms])
  note removed = once_removed set_removed
  note split = verdict_split [OF vs(2), folded p]
  have "fst ` set vs = binding_id ` set desired" using vs(3) by (metis list.set_map)
  then have asked: "set (plan_installed plan @ plan_updated plan @ plan_unchanged plan) = binding_id ` set desired" using split by argo
  have whole: "distinct (plan_installed plan @ plan_updated plan @ plan_unchanged plan @ plan_removed plan)"
    using split asked removed by (metis Diff_disjoint append.assoc distinct_append)
  have touched: "set (map operation_id (plan_operations plan)) = set (plan_installed plan @ plan_updated plan @ plan_removed plan)"
    unfolding ids using split by auto
  have once: "distinct (map operation_id (plan_operations plan))"
    unfolding ids using split removed asked by auto
  have kept: "\<exists>e \<in> set installed. \<exists>f. belongs_to_bundle i e \<and> installed_id e = binding_id b \<and> signature = Some f \<and>
      installed_signature e = Some (f b (install_options_for i (Some e)))"
    if b: "b \<in> set desired" "binding_id b \<in> set (plan_unchanged plan)" for b
  proof -
    obtain ops where "plan_binding hash signature i present artifacts b = Inr (Unchanged, ops)"
      using unchanged_verdict [OF vs(1) _ b(1)] vs(2,3) b(2) unfolding p by auto
    from planned_binding [OF this] own show ?thesis by blast
  qed
  show ?thesis using whole asked removed(2) once touched kept by blast
qed

section \<open>Whose entries a plan touches\<close>

text \<open>\<open>schedulerLogicalBindingId\<close>, and what a backend lists: an artifact that runs something is labelled with the binding its invocation
  proves, and its entry has that binding's id, or the native id when nothing is proven.\<close>

definition scheduler_logical_binding_id :: "(string \<Rightarrow> string) \<Rightarrow> string \<Rightarrow> string list \<Rightarrow> string" where
  "scheduler_logical_binding_id hash native invocation =
     (case scheduler_native_artifact_owner hash native invocation of Some owner \<Rightarrow> fst owner | None \<Rightarrow> native)"

definition listed_from :: "(string \<Rightarrow> string) \<Rightarrow> native_artifact list \<Rightarrow> installed_binding \<Rightarrow> bool" where
  "listed_from hash artifacts e \<longleftrightarrow> list_ex (\<lambda>a. installed_native e = Some (artifact_native_id a) \<and>
     (case artifact_invocation a of
        None \<Rightarrow> False
      | Some v \<Rightarrow> installed_invocation e = Some v \<and> installed_id e = scheduler_logical_binding_id hash (artifact_native_id a) v \<and>
          artifact_binding_id a = map_option fst (scheduler_native_artifact_owner hash (artifact_native_id a) v))) artifacts"

lemma desired_by_key_parts:
  assumes "desired_by_key hash bs m = Inr m'"
  shows "(\<forall>k b. map_of m k = Some b \<longrightarrow> (\<exists>c. map_of m' k = Some c \<and> binding_id c = binding_id b \<and>
        scheduler_binding_native_id hash c = scheduler_binding_native_id hash b)) \<and>
    (\<forall>b \<in> set bs. \<exists>c. map_of m' (scheduler_native_artifact_key (scheduler_binding_native_id hash b)) = Some c \<and>
        binding_id c = binding_id b \<and> scheduler_binding_native_id hash c = scheduler_binding_native_id hash b)"
  using assms
proof (induction bs arbitrary: m)
  case (Cons b bs)
  let ?key = "scheduler_native_artifact_key (scheduler_binding_native_id hash b)"
  have rest: "desired_by_key hash bs (put_entry ?key b m) = Inr m'"
    and prior: "\<And>c. map_of m ?key = Some c \<Longrightarrow> same_desired_artifact hash c b"
    using Cons.prems by (auto simp: Let_def split: option.splits if_splits)
  note after = Cons.IH [OF rest]
  have new: "\<exists>c. map_of m' ?key = Some c \<and> binding_id c = binding_id b \<and>
      scheduler_binding_native_id hash c = scheduler_binding_native_id hash b"
    using after by (simp add: map_of_put_entry)
  have "\<exists>c. map_of m' k = Some c \<and> binding_id c = binding_id d \<and> scheduler_binding_native_id hash c = scheduler_binding_native_id hash d"
    if d: "map_of m k = Some d" for k d
  proof (cases "k = ?key")
    case True
    then have "same_desired_artifact hash d b" using prior d by blast
    then show ?thesis using new True by (simp add: same_desired_artifact_def)
  next
    case False
    then show ?thesis using after d by (simp add: map_of_put_entry)
  qed
  then show ?case using new after by simp
qed simp

lemma failed_ownership: "snd (foldl (\<lambda>(seen, r) a. case r of Inl e \<Rightarrow> (seen, Inl e) | Inr _ \<Rightarrow>
      let key = scheduler_native_artifact_key (artifact_native_id a) in
      if key \<in> set seen then (seen, Inl (Native_Collision (artifact_native_id a)))
      else (key # seen, if owned_artifact hash m a then Inr () else Inl (Native_Collision (artifact_native_id a)))) (seen, Inl e) as) = Inl e"
  by (induction as) auto

lemma checked_ownership: "snd (foldl (\<lambda>(seen, r) a. case r of Inl e \<Rightarrow> (seen, Inl e) | Inr _ \<Rightarrow>
      let key = scheduler_native_artifact_key (artifact_native_id a) in
      if key \<in> set seen then (seen, Inl (Native_Collision (artifact_native_id a)))
      else (key # seen, if owned_artifact hash m a then Inr () else Inl (Native_Collision (artifact_native_id a)))) (seen, Inr ()) as) = Inr ()
    \<Longrightarrow> \<forall>a \<in> set as. owned_artifact hash m a"
proof (induction as arbitrary: seen)
  case (Cons a as)
  then show ?case
    by (cases "scheduler_native_artifact_key (artifact_native_id a) \<in> set seen"; cases "owned_artifact hash m a")
      (auto simp: Let_def failed_ownership)
qed simp

lemma desired_artifact_is_its_own:
  assumes "assert_native_artifact_ownership hash desired artifacts = Inr ()" "b \<in> set desired" "a \<in> set artifacts"
    "scheduler_native_artifact_key (artifact_native_id a) = scheduler_native_artifact_key (scheduler_binding_native_id hash b)"
  shows "\<exists>v. artifact_invocation a = Some v \<and> scheduler_logical_binding_id hash (artifact_native_id a) v = binding_id b"
proof -
  obtain m where m: "desired_by_key hash desired [] = Inr m" "\<forall>a \<in> set artifacts. owned_artifact hash m a"
    using assms(1) by (auto simp: assert_native_artifact_ownership_def bind_result_Inr_iff dest!: checked_ownership)
  obtain c where c: "map_of m (scheduler_native_artifact_key (artifact_native_id a)) = Some c" "binding_id c = binding_id b"
    using desired_by_key_parts [OF m(1)] assms(2) unfolding assms(4) by blast
  have "owned_artifact hash m a" using m(2) assms(3) by blast
  then show ?thesis using c by (auto simp: owned_artifact_def scheduler_logical_binding_id_def split: option.splits)
qed

lemma all2_source: "list_all2 P xs ys \<Longrightarrow> y \<in> set ys \<Longrightarrow> \<exists>x \<in> set xs. P x y"
  by (induction rule: list_all2_induct) auto

lemma operation_origin:
  assumes "finalize_scheduler_sync_plan hash signature i desired = Inr plan" "inspection_for_plan hash i = (installed, artifacts)"
    "op \<in> set (plan_operations plan)"
  shows "(\<exists>b \<in> set desired. operation_native_id hash op = scheduler_binding_native_id hash b) \<or>
    (\<exists>k \<in> set (plan_removed plan). \<exists>a \<in> set artifacts. operation_native_id hash op = artifact_native_id a \<and> artifact_binding_id a = Some k)"
proof -
  obtain vs removals where p:
    "mapM_result (\<lambda>b. map_result (Pair (binding_id b)) (plan_binding hash signature i
        (map_of (rev (map (\<lambda>e. (installed_id e, e)) (filter (belongs_to_bundle i) installed)))) artifacts b)) desired = Inr vs"
    "mapM_result (\<lambda>k. build_remove_operation hash i artifacts k
        (map_of (rev (map (\<lambda>e. (installed_id e, e)) (filter (belongs_to_bundle i) installed))) k)) (plan_removed plan) = Inr removals"
    "plan_operations plan = concat (map (\<lambda>(k, v, ops). ops) vs) @ removals"
    by (rule plan_parts [OF assms(1,2)])
  consider k v ops where "(k, v, ops) \<in> set vs" "op \<in> set ops" | "op \<in> set removals" using assms(3) unfolding p(3) by auto
  then show ?thesis
  proof cases
    case 1
    then obtain b where b: "b \<in> set desired" "plan_binding hash signature i
        (map_of (rev (map (\<lambda>e. (installed_id e, e)) (filter (belongs_to_bundle i) installed)))) artifacts b = Inr (v, ops)"
      using verdict_list [OF p(1)] by (fastforce simp: list_all2_conv_all_nth in_set_conv_nth)
    from planned_binding [OF b(2)] 1(2) have "operation_native_id hash op = scheduler_binding_native_id hash b"
      by (auto simp: operation_native_id_def)
    then show ?thesis using b(1) by blast
  next
    case 2
    then obtain k where k: "k \<in> set (plan_removed plan)" "build_remove_operation hash i artifacts k
        (map_of (rev (map (\<lambda>e. (installed_id e, e)) (filter (belongs_to_bundle i) installed))) k) = Inr op"
      using all2_source [OF p(2) [unfolded mapM_result_Inr_iff] 2] by auto
    from planned_removal [OF k(2)] obtain a where "a \<in> set artifacts" "operation_native_id hash op = artifact_native_id a" "artifact_binding_id a = Some k"
      by (auto simp: operation_native_id_def)
    then show ?thesis using k(1) by blast
  qed
qed

lemma listed_from_artifact:
  assumes "listed_from hash artifacts e"
  obtains a v where "a \<in> set artifacts" "native_of hash e = artifact_native_id a" "artifact_invocation a = Some v"
    "installed_id e = scheduler_logical_binding_id hash (artifact_native_id a) v" "artifact_binding_id a \<in> {None, Some (installed_id e)}"
proof -
  obtain a where a: "a \<in> set artifacts" "installed_native e = Some (artifact_native_id a)"
    "case artifact_invocation a of None \<Rightarrow> False
     | Some v \<Rightarrow> installed_invocation e = Some v \<and> installed_id e = scheduler_logical_binding_id hash (artifact_native_id a) v \<and>
         artifact_binding_id a = map_option fst (scheduler_native_artifact_owner hash (artifact_native_id a) v)"
    using assms unfolding listed_from_def list_ex_iff by blast
  then obtain v where v: "artifact_invocation a = Some v" "installed_id e = scheduler_logical_binding_id hash (artifact_native_id a) v"
    "artifact_binding_id a = map_option fst (scheduler_native_artifact_owner hash (artifact_native_id a) v)"
    by (cases "artifact_invocation a") auto
  have "artifact_binding_id a \<in> {None, Some (installed_id e)}"
    unfolding v(2,3) scheduler_logical_binding_id_def
    by (cases "scheduler_native_artifact_owner hash (artifact_native_id a) v") simp_all
  moreover have "native_of hash e = artifact_native_id a" using a(2) by (simp add: native_of_def)
  ultimately show ?thesis using that a(1) v(1,2) by blast
qed

text \<open>
  Whose an installed entry is, by what the documentation says of the two marks it carries.  An entry is of another bundle if it names one other than that
  of the synchronisation; if it names none, which stands for the default bundle, while a named one is synchronised; or if the
  synchronisation is scoped to the directory of the bundle and the entry is not known to have been installed from there.
\<close>

definition of_another_bundle :: "sync_input \<Rightarrow> installed_binding \<Rightarrow> bool" where
  "of_another_bundle i e \<longleftrightarrow>
     (case installed_target e of
        Some t \<Rightarrow> t \<noteq> bundle_name i \<and> bundle_target i \<noteq> Some t
      | None \<Rightarrow> bundle_target i \<noteq> None)
     \<or> (\<exists>p. bundle_path i = Some p \<and> installed_owner_path e \<noteq> Some p)"

lemma foreign_entry:
  assumes "of_another_bundle i e" "bundle_path i = None \<or> bundle_target i = None" "installed_target e \<noteq> None \<or> bundle_target i \<noteq> None"
  shows "\<not> belongs_to_bundle i e"
  using assms by (auto simp: of_another_bundle_def belongs_to_bundle_def split: option.splits if_splits)

text \<open>C40: a synchronisation touches nothing of another bundle, as long as the entry names its bundle or a named bundle is synchronised.  If the
  installed entries are what the backend reads off its artifacts, and a directory is given only with the default bundle, then no operation of
  a plan installs over, updates or removes the artifact of such an entry, not even under another spelling of its name.  An entry that names
  no bundle is taken for one of the default bundle whatever directory it was installed from.\<close>

theorem other_bundles_are_untouched:
  assumes plan: "finalize_scheduler_sync_plan hash signature i desired = Inr plan" "inspection_for_plan hash i = (installed, artifacts)"
    and listed: "list_all (listed_from hash artifacts) installed"
    and op: "op \<in> set (plan_operations plan)" and foreign: "e \<in> set installed" "of_another_bundle i e"
    and scope: "bundle_path i = None \<or> bundle_target i = None" and named: "installed_target e \<noteq> None \<or> bundle_target i \<noteq> None"
  shows "scheduler_native_artifact_key (operation_native_id hash op) \<noteq> scheduler_native_artifact_key (native_of hash e)"
proof
  assume same: "scheduler_native_artifact_key (operation_native_id hash op) = scheduler_native_artifact_key (native_of hash e)"
  note other = foreign(1) foreign_entry [OF foreign(2) scope named]
  have p: "distinct (map installed_id installed)" "assert_no_foreign_ids i desired installed = Inr ()"
    "assert_native_artifact_ownership hash desired artifacts = Inr ()"
    "distinct (map (\<lambda>a. scheduler_native_artifact_key (artifact_native_id a)) artifacts)"
    "plan_removed plan = sort (filter (\<lambda>k. k \<notin> binding_id ` set desired) (map installed_id (filter (belongs_to_bundle i) installed)))"
    by (rule plan_parts [OF plan], assumption) (auto intro: plan_parts [OF plan] simp: assert_coherent_inspection_def bind_result_Inr_iff unique_artifacts_ok)
  obtain a v where a: "a \<in> set artifacts" "native_of hash e = artifact_native_id a" "artifact_invocation a = Some v"
    "installed_id e = scheduler_logical_binding_id hash (artifact_native_id a) v" "artifact_binding_id a \<in> {None, Some (installed_id e)}"
    by (rule listed_from_artifact [of hash artifacts e]) (use listed other(1) in \<open>simp add: list_all_iff\<close>)
  from operation_origin [OF plan op] show False
  proof (elim disjE bexE conjE)
    fix b assume b: "b \<in> set desired" "operation_native_id hash op = scheduler_binding_native_id hash b"
    have "installed_id e = binding_id b" using desired_artifact_is_its_own [OF p(3) b(1) a(1)] same a(2-4) b(2) by auto
    then have "installed_id e \<in> binding_id ` set desired" using b(1) by blast
    then show False using p(2) other by (auto simp: assert_no_foreign_ids_def find_None_iff split: option.splits)
  next
    fix k c assume k: "k \<in> set (plan_removed plan)" and c: "c \<in> set artifacts" "operation_native_id hash op = artifact_native_id c"
      "artifact_binding_id c = Some k"
    have "c = a" using p(4) c(1,2) a(1,2) same by (auto simp: distinct_map inj_on_def)
    then have "k = installed_id e" using a(5) c(3) by simp
    moreover obtain d where "d \<in> set installed" "belongs_to_bundle i d" "k = installed_id d" using k unfolding p(5) by auto
    ultimately have "d = e" using p(1) other(1) by (auto simp: distinct_map inj_on_def)
    then show False using \<open>belongs_to_bundle i d\<close> other(2) by blast
  qed
qed

definition sample_binding :: "string \<Rightarrow> scheduler_binding" where
  "sample_binding k = \<lparr>binding_id = k, binding_native = None, binding_source = \<lparr>logical_kind = Task_Source, logical_ref = ''team//tasks/'' @ k\<rparr>,
     binding_cron = ''0 4 * * *'', binding_origin = ''0 4 * * *'', binding_ordinal = 0, binding_enabled = True, binding_invocation = [''task'', ''run'', k], evidence_digest = None\<rparr>"

definition sample_installed :: "string \<Rightarrow> string \<Rightarrow> installed_binding" where
  "sample_installed k target = \<lparr>installed_id = k, installed_native = Some k, installed_argv = [''akm''], installed_context = ''context'',
     installed_signature = Some ''line'', installed_target = Some target, installed_invocation = Some [''task'', ''run'', k], installed_owner_path = None\<rparr>"

definition sample_artifact :: "string \<Rightarrow> native_artifact" where
  "sample_artifact k = \<lparr>artifact_native_id = k, artifact_binding_id = Some k, artifact_invocation = Some [''task'', ''run'', k],
     artifact_fingerprint = Some ''line''\<rparr>"

definition sample_sync :: sync_input where
  "sample_sync = \<lparr>adapter_id = ''akm'', bundle_name = ''team'', bundle_target = None, bundle_path = None,
     sync_installed = [sample_installed ''nightly'' ''team'', sample_installed ''weekly'' ''team'', sample_installed ''backup'' ''rival''],
     sync_artifacts = Some [sample_artifact ''nightly'', sample_artifact ''weekly'', sample_artifact ''backup''],
     sync_inspection = None, sync_options = None, sync_rebind = False\<rparr>"

definition sample_plan :: "(sync_error, sync_plan) result" where
  "sample_plan = finalize_scheduler_sync_plan id (Some (\<lambda>b options. ''line'')) sample_sync [sample_binding ''nightly'', sample_binding ''fresh'']"

lemma sample_plan_result:
  obtains p where "sample_plan = Inr p" "plan_unchanged p = [''nightly'']" "plan_removed p = [''weekly'']"
    "map operation_id (plan_operations p) = [''fresh'', ''weekly'']"
proof -
  have h: "case sample_plan of Inl e \<Rightarrow> False | Inr p \<Rightarrow> plan_unchanged p = [''nightly''] \<and>
    plan_removed p = [''weekly''] \<and> map operation_id (plan_operations p) = [''fresh'', ''weekly'']" by code_simp
  show ?thesis
  proof (cases sample_plan)
    case (Inr p)
    from h [unfolded Inr sum.case] show ?thesis by (elim conjE) (rule that [OF Inr])
  next
    case (Inl e)
    from h [unfolded Inl sum.case] show ?thesis by (rule FalseE)
  qed
qed

lemma sample_inspection: "inspection_for_plan id sample_sync =
    ([sample_installed ''nightly'' ''team'', sample_installed ''weekly'' ''team'', sample_installed ''backup'' ''rival''],
     [sample_artifact ''nightly'', sample_artifact ''weekly'', sample_artifact ''backup''])"
  by (simp add: inspection_for_plan_def native_artifacts_for_plan_def sample_sync_def)

theorem plan_accounts_for_every_binding_witness:
  "\<exists>p. sample_plan = Inr p \<and> distinct (plan_installed p @ plan_updated p @ plan_unchanged p @ plan_removed p) \<and>
    plan_unchanged p = [''nightly''] \<and> set (plan_removed p) = {''weekly''} \<and> set (map operation_id (plan_operations p)) = {''fresh'', ''weekly''}"
proof -
  obtain p where p: "sample_plan = Inr p" "plan_unchanged p = [''nightly'']" "plan_removed p = [''weekly'']"
    "map operation_id (plan_operations p) = [''fresh'', ''weekly'']" by (rule sample_plan_result)
  have "distinct (plan_installed p @ plan_updated p @ plan_unchanged p @ plan_removed p)"
    by (rule plan_accounts_for_every_binding [OF p(1) [unfolded sample_plan_def] sample_inspection, THEN conjunct1])
  moreover have "set (plan_removed p) = {''weekly''}" unfolding p(3) by (simp only: list.set)
  moreover have "set (map operation_id (plan_operations p)) = {''fresh'', ''weekly''}" unfolding p(4) by (simp only: list.set)
  ultimately show ?thesis using p(1,2) by blast
qed

theorem other_bundles_are_untouched_witness:
  "\<exists>p op. sample_plan = Inr p \<and> op \<in> set (plan_operations p) \<and> operation_id op = ''weekly'' \<and>
    scheduler_native_artifact_key (operation_native_id id op) \<noteq>
      scheduler_native_artifact_key (native_of id (sample_installed ''backup'' ''rival''))"
proof -
  obtain p where p: "sample_plan = Inr p" "map operation_id (plan_operations p) = [''fresh'', ''weekly'']"
by (rule sample_plan_result)
  have "''weekly'' \<in> set (map operation_id (plan_operations p))" unfolding p(2) by (simp only: list.set insert_iff simp_thms)
  from this [unfolded list.set_map] obtain op where "''weekly'' = operation_id op" and op: "op \<in> set (plan_operations p)" by (rule imageE)
  note weekly = this(1) [symmetric]
  have "list_all (listed_from id [sample_artifact ''nightly'', sample_artifact ''weekly'', sample_artifact ''backup''])
      [sample_installed ''nightly'' ''team'', sample_installed ''weekly'' ''team'', sample_installed ''backup'' ''rival'']"
    by code_simp
  moreover have "of_another_bundle sample_sync (sample_installed ''backup'' ''rival'')" by (simp add: of_another_bundle_def sample_sync_def sample_installed_def)
  moreover have "bundle_path sample_sync = None" "installed_target (sample_installed ''backup'' ''rival'') \<noteq> None"
    by (simp_all add: sample_sync_def sample_installed_def)
  ultimately have "scheduler_native_artifact_key (operation_native_id id op) \<noteq>
      scheduler_native_artifact_key (native_of id (sample_installed ''backup'' ''rival''))"
    by (intro other_bundles_are_untouched [OF p(1) [unfolded sample_plan_def] sample_inspection _ op(1)]) (simp_all only: list.set insert_iff simp_thms)
  then show ?thesis using p(1) op weekly by blast
qed

text \<open>
  Two tasks of the bundle in \<open>/other\<close>, installed without a bundle name: a synchronisation scoped to \<open>/mine\<close> that asks for one of them
  rewrites that one and removes the other.
\<close>

definition unnamed_installed :: "string \<Rightarrow> installed_binding" where
  "unnamed_installed k = \<lparr>installed_id = k, installed_native = Some k, installed_argv = [''akm''], installed_context = ''context'',
     installed_signature = Some ''old'', installed_target = None, installed_invocation = Some [''task'', ''run'', k, ''--scheduled''],
     installed_owner_path = Some ''/other''\<rparr>"

definition unnamed_artifact :: "string \<Rightarrow> native_artifact" where
  "unnamed_artifact k = \<lparr>artifact_native_id = k, artifact_binding_id = Some k, artifact_invocation = Some [''task'', ''run'', k, ''--scheduled''],
     artifact_fingerprint = Some ''old''\<rparr>"

definition scoped_sync :: sync_input where
  "scoped_sync = \<lparr>adapter_id = ''akm'', bundle_name = ''mine'', bundle_target = None, bundle_path = Some ''/mine'',
     sync_installed = [unnamed_installed ''nightly'', unnamed_installed ''weekly''],
     sync_artifacts = Some [unnamed_artifact ''nightly'', unnamed_artifact ''weekly''],
     sync_inspection = None, sync_options = None, sync_rebind = False\<rparr>"

lemma unnamed_entries_of_another_path_are_taken:
  "list_all (of_another_bundle scoped_sync) (sync_installed scoped_sync)"
  "list_all (listed_from id (the (sync_artifacts scoped_sync))) (sync_installed scoped_sync)"
  "case finalize_scheduler_sync_plan id (Some (\<lambda>b options. ''new'')) scoped_sync [sample_binding ''nightly''] of
     Inl e \<Rightarrow> False | Inr p \<Rightarrow> plan_updated p = [''nightly''] \<and> plan_removed p = [''weekly''] \<and>
       map (operation_native_id id) (plan_operations p) = [''nightly'', ''weekly'']"
proof -
  show "list_all (of_another_bundle scoped_sync) (sync_installed scoped_sync)"
    by (simp add: of_another_bundle_def scoped_sync_def unnamed_installed_def)
qed code_simp+

end
