(* ===== verification/Spec2Isabelle.thy ===== *)
theory Spec2Isabelle
  imports Crawl_Compliance Crawl_Termination Asset_Ref Schedule Crontab Workflow_Run Unit_Attempts Txn_Recovery Lock_Exclusion Lock_Alone Run_Exports Redaction_Safety
    Guarded_Fetch Concurrency Scheduled_Inputs Scheduler_Sync
begin

text \<open>
  Verification of the core of the \<^verbatim>\<open>akm\<close> command line tool.  The tool keeps bundles of assets (skills, memories, workflows)
  on disk, queues proposals to change them, runs workflows whose state is durable, and schedules tasks through the operating
  system.  All paths below are relative to \<^verbatim>\<open>src/src\<close>.

  \<^bold>\<open>Prelude.\<close>  \<open>Js_Prelude\<close> fixes the representation of JavaScript values: results as sums with the error on the left, strings as
  lists of Latin-1 characters, arrays as lists, and the string functions the program calls.  \<open>Posix_Path\<close> is
  \<^verbatim>\<open>path.posix\<close>.  \<open>Step_System\<close> has the locales for components driven by actions: an invariant, an order the actions only
  climb, and a measure some action lowers.  Every locale of the development is interpreted on the definitions of a component.

  \<^bold>\<open>References.\<close>  \<open>Asset_Ref\<close> is \<^verbatim>\<open>core/asset/asset-ref.ts\<close>: printing and parsing of \<open>bundle//concept#fragment\<close>.  Shown: what is
  printed after parsing parses to the same reference, with the exact exception; the path of an accepted concept stays
  strictly below the bundle root.

  \<^bold>\<open>Schedules.\<close>  \<open>Schedule\<close> is \<^verbatim>\<open>tasks/schedule.ts\<close> with the trigger expansion of \<^verbatim>\<open>tasks/backends/schtasks.ts\<close>; \<open>Crontab\<close> is the text
  side of \<^verbatim>\<open>tasks/backends/cron.ts\<close>.  Shown: parsing returns on every input with fields inside their limits; the triggers and
  calendars of the other two systems fire at exactly the minutes of the cron fields, with the exact exception for calendars;
  the crontab editor refines insertion and removal of one block in a document of user lines and blocks, disabling and enabling
  are inverse, and the reader of quoted command lines undoes the quoting.

  \<^bold>\<open>Workflow runs.\<close>  \<open>Workflow_Run\<close> is the run row and step spine of \<^verbatim>\<open>workflows/runtime/runs.ts\<close> and every operation that changes
  them; \<open>Unit_Attempts\<close> is the dispatch journal of one unit in \<^verbatim>\<open>storage/repositories/workflow-runs-repository.ts\<close>.  Any interleaving
  of the operations by any number of drivers is a list of actions.  Shown: the spine stays consistent with the plan, settled work
  is final, every run can be finished, a live lease excludes other drivers, gated steps complete only after the judge affirmed
  them; attempts are numbered without gaps, at most one runs, and a displaced claim cannot finish.

  \<^bold>\<open>What a step may say.\<close>  \<open>Json_Schema\<close> and \<open>Schema_Meaning\<close> are the schema subset of \<^verbatim>\<open>core/json-schema.ts\<close>, with the standard meaning
  of its keywords as the specification the checker and the validator are compared with; \<open>Step_References\<close> is the reference
  language of \<^verbatim>\<open>workflows/program/expressions.ts\<close>; \<open>Run_Exports\<close> is \<^verbatim>\<open>workflows/runtime/run-outputs.ts\<close> with the freeze-time check
  \<^verbatim>\<open>workflows/freeze/child-output-references.ts\<close>.  The parts meet: an output that passed a checked schema is typed by it, so that a
  reference along required properties resolves; a child reference that was accepted finds what the child exports.

  \<^bold>\<open>Transactions.\<close>  \<open>Crash_Monad\<close> has programs over a durable store that may die at any durable step.  \<open>Fs_Txn\<close> is
  \<^verbatim>\<open>core/fs-txn.ts\<close>; \<open>Proposal_Txn\<close> adds the two kinds of \<^verbatim>\<open>commands/proposal/repository.ts\<close>.  \<open>Proposal_Recovery\<close> describes the states
  a crash can leave as stages, \<open>Proposal_Atomicity\<close>, \<open>Proposal_Reject\<close> and \<open>Txn_Recovery\<close> draw the conclusions: accepting and
  rejecting refine one atomic step, recovery survives its own crashes outside one window (which is shown to be a defect), old
  bytes survive rollbacks, foreign content is never overwritten, journals that leave their root are refused, and a scan that
  returns leaves nothing recoverable.  The order of the durable writes is the order of the calls that the code follows by an
  fsync.  The machine carries the number of durable steps it survives: fourteen are enough for the scan of one publication and
  eight for one rejection, which is proved, so that an uninterrupted recovery returns.  The digest, the resolution of the target,
  the configuration, Git and the index are fields of an environment record.

  \<^bold>\<open>Locks.\<close>  \<open>Rely_Guarantee\<close> has programs of several processes over one store; \<open>File_Lock\<close> is \<^verbatim>\<open>core/file-lock.ts\<close> with the maintenance
  barrier and the asset-mutation lease.  Processes interleave at every system call, any call may fail, processes die and process
  ids are used again; the clock only grows.  A ghost field records who is inside a section.  \<open>Lock_Contract\<close>, \<open>Lock_Library\<close> and
  \<open>Lock_Sections\<close> build the proof in the rely-guarantee logic, \<open>Lock_Exclusion\<close> concludes that the lease excludes, and the barrier
  up to its staleness limit of five minutes; \<open>Lock_Alone\<close> says what the operations decide when they are undisturbed.  A waiting
  loop has a bound on its rounds, over which the theorems are quantified.

  \<^bold>\<open>Output boundary.\<close>  \<open>Redaction\<close> and \<open>Redaction_Safety\<close> are \<^verbatim>\<open>core/redaction.ts\<close> on UTF-16 code units.  Shown: the sweep over the coverage
  counts writes the text with covered runs replaced by one token each and at most ten units for each unit; in no piece that is kept
  can a secret be read, in the readings that were searched; and redacting a structured value loses no field but \<open>__proto__\<close>.

  \<^bold>\<open>Network boundary.\<close>  \<open>Network_Policy\<close> is \<^verbatim>\<open>core/network-policy.ts\<close> and \<open>Guarded_Fetch\<close> is \<^verbatim>\<open>sources/snapshot-fetchers/host-guard.ts\<close> over the
  retrying fetch of \<^verbatim>\<open>core/common.ts\<close>.  Shown: public means outside the special-purpose blocks, read as numbers of 32 and 128 bits and
  through every embedding of IPv4 in IPv6; and the requests of a guarded fetch go to such addresses only, credentials stay
  with the first origin, and the chain is bounded.  The resolver answers what it answers: an address that changes between the
  lookup and the connection is outside the model, as the source says of itself.

  \<^bold>\<open>Website crawl.\<close>  \<open>Robots\<close> is \<^verbatim>\<open>sources/snapshot-fetchers/robots.ts\<close>, with numeric texts in \<open>Js_Number\<close>; \<open>Website_Crawl\<close> is the crawl of
  \<^verbatim>\<open>sources/snapshot-fetchers/website-ingest.ts\<close> over an environment that parses URLs, answers requests, tells the time and extracts
  links.  \<open>Program_Logic\<close> is a logic of triples for programs that keep an invariant.  Shown: the parser computes the groups of
  RFC 9309 and the matcher the longest match; a crawl ends whatever the sites answer (\<open>Crawl_Termination\<close>); and every request
  follows the rules loaded for its origin, redirect hops included, with each page once and the delays kept (\<open>Crawl_Compliance\<close>).
  There it is assumed of URLs that cutting the fragment or trailing slashes off a written URL leaves its origin alone.

  \<^bold>\<open>Inputs of scheduled tasks.\<close>  \<open>Json_Text\<close> writes out \<open>JSON.stringify\<close>, \<open>JSON.parse\<close> and the order in which keys are enumerated.
  \<open>Input_Contract\<close> is \<^verbatim>\<open>execution/input-contract.ts\<close>: defaults, validation, the values of flags, canonical text.  \<open>Task_Inputs\<close> is the
  part of \<^verbatim>\<open>tasks/source/task-source-v4.ts\<close> and \<^verbatim>\<open>tasks/source/bounded-document.ts\<close> that reads declarations and schedules.
  \<open>Scheduler_Binding\<close> is \<^verbatim>\<open>tasks/scheduler-binding.ts\<close> with \<^verbatim>\<open>tasks/task-id.ts\<close>; \<open>Scheduled_Inputs\<close> is the grammar of
  \<^verbatim>\<open>tasks/scheduler-invocation.ts\<close> and the scanner of \<^verbatim>\<open>commands/tasks/tasks-cli.ts\<close>; \<open>Scheduler_Sync\<close> is the plan of
  \<^verbatim>\<open>tasks/scheduler-sync.ts\<close>.  Shown, along the way of a value: the inputs of a run satisfy the declarations of its document, by the
  schema meaning above; canonical texts are equal exactly for values that are equal up to the order of keys; what a schedule
  entry says reaches its runs through the command line, when its values name their type (three ways to fail otherwise are lemmas);
  a plan accounts for every binding once and touches nothing of another bundle.  One property states a defect: the identity
  check that guards every installation refuses all entries with inputs.  SHA-256 and the digits of doubles that are not safe
  integers are arguments, and texts that would read as infinite numbers or as characters beyond Latin-1 are refused.  The theorem on other bundles
  assumes of an inspection what the backends construct: entries and labels of artifacts are derived from the artifact's invocation.

  \<^bold>\<open>Concurrency in one process.\<close>  \<open>Concurrency\<close> is \<^verbatim>\<open>core/concurrent.ts\<close> with the widths of \<^verbatim>\<open>workflows/exec/scheduler.ts\<close> and
  \<^verbatim>\<open>workflows/concurrency-policy.ts\<close>.  Shown: items run once each within the width, and the tasks of one key take turns, whatever
  fails, with nothing left in the map.

  \<^bold>\<open>Numbers and text.\<close>  Counters are natural numbers or integers, times are integers of milliseconds, and JSON numbers rationals; the code
  stays far below $2^{53}$ where it counts.  Error messages are constructors with the data they mention.

  \<^bold>\<open>Not modelled.\<close>  The pipelines around language models (\<^verbatim>\<open>commands/improve\<close>, \<^verbatim>\<open>llm\<close>, \<^verbatim>\<open>integrations\<close>), whose result is decided by
  external programs; the indexer and the SQL layer beyond the statements above; the decoding of task files, the collection of the sources of
  a synchronisation, and the native formats of \<^verbatim>\<open>launchctl\<close> and \<^verbatim>\<open>schtasks\<close>; text extraction from web pages and feeds; the dispatch of workflow units to agents
  (\<^verbatim>\<open>workflows/exec/step-work.ts\<close>); the rest of the proposal queue (creation, deduplication, expiry, validation); collection of
  secrets from URLs and pattern redaction; and the command line, rendering, setup, scripts and tests.
\<close>

end
